(* ===== verification/Prelude.thy ===== *)
theory Prelude
  imports Main "HOL-Library.Word" "HOL-Library.Multiset" "HOL-Library.State_Monad"
begin

text \<open>
  Shared vocabulary of the development: bytes and C strings, the memory of a fixed
  buffer, decimal rendering of integers, the interface locales that several
  components implement (a byte sink that may be fed in pieces, a record codec that
  can be parsed back, a transition system with an invariant), and the named
  collections of rewrite rules.
\<close>

section \<open>Bytes, C strings and buffers\<close>

type_synonym byte = "8 word"
type_synonym u32 = "32 word"
type_synonym u64 = "64 word"

text \<open>
  A \<open>char\<close> array of the C code is a list of HOL characters (a HOL character is one
  of 256 values). \<open>NUL\<close> is the terminator; the functions of the C library that
  take a \<open>const char *\<close> see the array up to the first \<open>NUL\<close>.
\<close>

abbreviation NUL :: char where "NUL \<equiv> CHR 0x00"
abbreviation LF :: char where "LF \<equiv> CHR 0x0A"

definition cstr :: "string \<Rightarrow> string" where
  "cstr s = takeWhile (\<lambda>c. c \<noteq> NUL) s"

named_theorems cstring_simps

lemma cstr_Nil [simp]: "cstr [] = []"
  by (simp add: cstr_def)

lemma cstr_idem [simp]: "cstr (cstr s) = cstr s"
  by (simp add: cstr_def takeWhile_idem)

lemma NUL_not_in_cstr [simp]: "NUL \<notin> set (cstr s)"
  by (auto simp: cstr_def dest: set_takeWhileD)

lemma cstr_id [simp]: "NUL \<notin> set s \<Longrightarrow> cstr s = s"
  unfolding cstr_def by (subst takeWhile_eq_all_conv) auto

lemma cstr_append_NUL [cstring_simps]: "NUL \<notin> set s \<Longrightarrow> cstr (s @ NUL # r) = s"
  unfolding cstr_def by (subst takeWhile_append2) auto

text \<open>What precedes the first \<open>c\<close>, and what follows it.\<close>

definition read_until :: "char \<Rightarrow> string \<Rightarrow> (string \<times> string) option" where
  "read_until c s =
     (case dropWhile (\<lambda>x. x \<noteq> c) s of [] \<Rightarrow> None | _ # r \<Rightarrow> Some (takeWhile (\<lambda>x. x \<noteq> c) s, r))"

lemma read_until_append [simp]: "c \<notin> set s \<Longrightarrow> read_until c (s @ c # r) = Some (s, r)"
  by (induction s) (auto simp: read_until_def split: list.splits)

lemma read_until_shorter: "read_until c s = Some (p, r) \<Longrightarrow> length r < length s"
  by (induction s arbitrary: p r) (auto simp: read_until_def split: list.splits if_splits)

text \<open>A line of \<open>n + 1\<close> fields, each but the last ended by a separator.\<close>

fun read_fields :: "char \<Rightarrow> nat \<Rightarrow> string \<Rightarrow> (string list \<times> string) option" where
  "read_fields c 0 s = map_option (\<lambda>(f, r). ([f], r)) (read_until LF s)"
| "read_fields c (Suc n) s =
     (case read_until c s of
        None \<Rightarrow> None
      | Some (f, s) \<Rightarrow> map_option (\<lambda>(fs, r). (f # fs, r)) (read_fields c n s))"

lemma read_fields_show:
  "\<forall>f\<in>set fs. c \<notin> set f \<Longrightarrow> LF \<notin> set g \<Longrightarrow>
   read_fields c (length fs) (concat (map (\<lambda>f. f @ [c]) fs) @ g @ LF # r) = Some (fs @ [g], r)"
  by (induction fs) simp_all

text \<open>
  The bytes of a fixed-size array as a function from offsets. \<open>mem_copy\<close> is
  \<open>memcpy\<close> into it at an offset; \<open>mem_read\<close> reads a prefix. Whether the accesses
  stay inside the array is a separate obligation of each user.
\<close>

type_synonym 'b mem = "nat \<Rightarrow> 'b"

definition mem_copy :: "'b mem \<Rightarrow> nat \<Rightarrow> 'b list \<Rightarrow> 'b mem" where
  "mem_copy m off xs = (\<lambda>i. if off \<le> i \<and> i < off + length xs then xs ! (i - off) else m i)"

definition mem_read :: "'b mem \<Rightarrow> nat \<Rightarrow> 'b list" where
  "mem_read m n = map m [0..<n]"

lemma mem_copy_Nil [simp]: "mem_copy m off [] = m"
  by (auto simp: mem_copy_def fun_eq_iff)

lemma mem_copy_append: "mem_copy m off (xs @ ys) = mem_copy (mem_copy m off xs) (off + length xs) ys"
  by (auto simp: mem_copy_def fun_eq_iff nth_append)

lemma mem_copy_Cons: "mem_copy m off (x # ys) = mem_copy (mem_copy m off [x]) (Suc off) ys"
  using mem_copy_append [of m off "[x]" ys] by simp

lemma length_mem_read [simp]: "length (mem_read m n) = n"
  by (simp add: mem_read_def)

lemma nth_mem_read [simp]: "i < n \<Longrightarrow> mem_read m n ! i = m i"
  by (simp add: mem_read_def)

lemma mem_read_copy: "off + length xs \<le> n \<Longrightarrow>
    mem_read (mem_copy m off xs) n = take off (mem_read m n) @ xs @ drop (off + length xs) (mem_read m n)"
  by (rule nth_equalityI) (auto simp: mem_copy_def nth_append min_def)

lemma mem_read_copy_at: "mem_read (mem_copy m off xs) (off + length xs) = mem_read m off @ xs"
  by (rule nth_equalityI) (auto simp: mem_copy_def nth_append)

section \<open>Interfaces\<close>

subsection \<open>A growing byte buffer\<close>

text \<open>
  The client of a buffer appends pieces and reads the content at the end; \<open>room r\<close>
  says that \<open>r\<close> more bytes may be appended. \<open>None\<close> is a buffer nothing has been put
  into.
\<close>

locale byte_buffer =
  fixes put :: "string \<Rightarrow> 'k \<Rightarrow> 'k"
    and content :: "'k \<Rightarrow> string option"
    and room :: "nat \<Rightarrow> 'k \<Rightarrow> bool"
  assumes put_content: "room (length p + r) k \<Longrightarrow>
      content (put p k) = Some ((case content k of None \<Rightarrow> [] | Some d \<Rightarrow> d) @ p)"
    and put_room: "room (length p + r) k \<Longrightarrow> room r (put p k)"
begin

lemma put_all_content:
  "room (length (concat ps)) k \<Longrightarrow> ps \<noteq> [] \<Longrightarrow>
   content (foldl (\<lambda>k p. put p k) k ps) =
     Some ((case content k of None \<Rightarrow> [] | Some d \<Rightarrow> d) @ concat ps)"
proof (induction ps arbitrary: k)
  case Nil
  then show ?case by simp
next
  case (Cons p ps)
  then have r: "room (length p + length (concat ps)) k" by simp
  note c = put_content [OF r] and q = put_room [OF r]
  show ?case
  proof (cases "ps = []")
    case True
    with c show ?thesis by simp
  next
    case False
    with Cons.IH [OF q] c show ?thesis by simp
  qed
qed

lemma put_all_room: "room (length (concat ps) + r) k \<Longrightarrow> room r (foldl (\<lambda>k p. put p k) k ps)"
proof (induction ps arbitrary: k)
  case (Cons p ps)
  then have "room (length p + (length (concat ps) + r)) k" by (simp add: add.assoc)
  then show ?case using Cons.IH put_room by simp
qed simp

end

subsection \<open>A byte sink that may be fed in pieces\<close>

text \<open>
  A reader gets its input in pieces whose boundaries the operating system chooses.
  The contract: feeding two pieces one after the other is feeding their
  concatenation, on the states the reader can be in. The client's lemma: the
  result depends on the stream only, not on how it was cut.
\<close>

locale chunked_sink =
  fixes feed :: "'s \<Rightarrow> 'b list \<Rightarrow> 's"
    and ok :: "'s \<Rightarrow> bool"
  assumes feed_Nil: "ok s \<Longrightarrow> feed s [] = s"
    and feed_append: "ok s \<Longrightarrow> feed s (xs @ ys) = feed (feed s xs) ys"
    and feed_ok: "ok s \<Longrightarrow> ok (feed s xs)"
begin

lemma feed_all_ok: "ok s \<Longrightarrow> ok (foldl feed s css)"
  by (induction css arbitrary: s) (auto intro: feed_ok)

lemma feed_all_concat: "ok s \<Longrightarrow> foldl feed s css = feed s (concat css)"
  by (induction css arbitrary: s) (auto simp: feed_Nil feed_append feed_ok)

lemma feed_same_stream:
  "ok s \<Longrightarrow> concat css = concat dss \<Longrightarrow> foldl feed s css = foldl feed s dss"
  by (simp add: feed_all_concat)

end

subsection \<open>A transition system with an invariant\<close>

locale transition_system =
  fixes init :: "'s \<Rightarrow> bool"
    and step :: "'s \<Rightarrow> 's \<Rightarrow> bool"
    and inv :: "'s \<Rightarrow> bool"
  assumes inv_init: "init s \<Longrightarrow> inv s"
    and inv_step: "inv s \<Longrightarrow> step s t \<Longrightarrow> inv t"
begin

lemma inv_steps: "step\<^sup>*\<^sup>* s t \<Longrightarrow> inv s \<Longrightarrow> inv t"
  by (induction rule: rtranclp_induct) (auto intro: inv_step)

lemma inv_reachable: "init s \<Longrightarrow> step\<^sup>*\<^sup>* s t \<Longrightarrow> inv t"
  by (blast intro: inv_steps inv_init)

end

text \<open>One whose runs are finite and end in a final state.\<close>

locale terminating_system = transition_system +
  fixes left :: "'s \<Rightarrow> nat"
    and final :: "'s \<Rightarrow> bool"
  assumes step_left: "inv s \<Longrightarrow> step s t \<Longrightarrow> left t < left s"
    and progress: "inv s \<Longrightarrow> \<not> final s \<Longrightarrow> \<exists>t. step s t"
begin

lemma run_bounded: "(step ^^ m) s t \<Longrightarrow> inv s \<Longrightarrow> m + left t \<le> left s"
proof (induction m arbitrary: t)
  case (Suc m)
  then obtain u where u: "(step ^^ m) s u" "step u t" by auto
  have "inv u" using inv_steps [OF relpowp_imp_rtranclp [OF u(1)]] Suc.prems(2) .
  from step_left [OF this u(2)] Suc.IH [OF u(1) Suc.prems(2)] show ?case by simp
qed simp

lemma completes: "inv s \<Longrightarrow> \<exists>t. step\<^sup>*\<^sup>* s t \<and> final t"
proof (induction "left s" arbitrary: s rule: less_induct)
  case less
  show ?case
  proof (cases "final s")
    case False
    with less.prems obtain u where u: "step s u" using progress by blast
    from less.hyps [OF step_left [OF less.prems u] inv_step [OF less.prems u]] u show ?thesis
      by (meson converse_rtranclp_into_rtranclp)
  qed blast
qed

end

subsection \<open>A record format that can be parsed back\<close>

text \<open>
  Several outputs of the server are a concatenation of records that the client
  parses one after the other. The contract of one record: the decoder recovers the
  client's \<open>view\<close> of the record from its encoding followed by anything that may
  follow a record, and an encoding is never empty.
\<close>

locale record_codec =
  fixes enc :: "'a \<Rightarrow> 'b list"
    and dec :: "'b list \<Rightarrow> ('c \<times> 'b list) option"
    and view :: "'a \<Rightarrow> 'c"
    and valid :: "'a \<Rightarrow> bool"
    and follow :: "'b list \<Rightarrow> bool"
  assumes dec_enc: "valid x \<Longrightarrow> follow r \<Longrightarrow> dec (enc x @ r) = Some (view x, r)"
    and enc_nonempty: "valid x \<Longrightarrow> enc x \<noteq> []"
    and follow_Nil: "follow []"
    and follow_enc: "valid x \<Longrightarrow> follow (enc x @ r)"

text \<open>
  The decoder of a whole stream, with the length of the stream as fuel: each record
  takes at least one byte.
\<close>

fun decode_all :: "('b list \<Rightarrow> ('a \<times> 'b list) option) \<Rightarrow> nat \<Rightarrow> 'b list \<Rightarrow> 'a list option" where
  "decode_all d fuel [] = Some []"
| "decode_all d 0 (b # bs) = None"
| "decode_all d (Suc fuel) (b # bs) =
     (case d (b # bs) of
        None \<Rightarrow> None
      | Some (x, r) \<Rightarrow> map_option (\<lambda>xs. x # xs) (decode_all d fuel r))"

definition decode_stream :: "('b list \<Rightarrow> ('a \<times> 'b list) option) \<Rightarrow> 'b list \<Rightarrow> 'a list option" where
  "decode_stream d bs = decode_all d (length bs) bs"

context record_codec
begin

lemma follow_encs: "\<forall>x\<in>set xs. valid x \<Longrightarrow> follow (concat (map enc xs))"
  by (cases xs) (auto intro: follow_Nil follow_enc)

lemma decode_all_enc:
  "\<forall>x\<in>set xs. valid x \<Longrightarrow> length (concat (map enc xs)) \<le> fuel \<Longrightarrow>
   decode_all dec fuel (concat (map enc xs)) = Some (map view xs)"
proof (induction xs arbitrary: fuel)
  case Nil
  then show ?case by simp
next
  case (Cons x xs)
  then have ne: "enc x \<noteq> []" by (simp add: enc_nonempty)
  then obtain b bs where b: "enc x @ concat (map enc xs) = b # bs"
    by (cases "enc x") auto
  from ne Cons.prems obtain f where f: "fuel = Suc f" "length (concat (map enc xs)) \<le> f"
    by (cases fuel; cases "enc x") auto
  have "dec (b # bs) = Some (view x, concat (map enc xs))"
    unfolding b [symmetric] using Cons.prems by (intro dec_enc follow_encs) auto
  then show ?case using Cons f b by simp
qed

lemma decode_stream_enc:
  "\<forall>x\<in>set xs. valid x \<Longrightarrow> decode_stream dec (concat (map enc xs)) = Some (map view xs)"
  by (simp add: decode_stream_def decode_all_enc)

end

lemma decode_all_read: "decode_all d fuel bs = Some xs \<Longrightarrow> x \<in> set xs \<Longrightarrow> \<exists>s r. d s = Some (x, r)"
  by (induction d fuel bs arbitrary: xs rule: decode_all.induct) (auto split: option.splits prod.splits, blast+)

lemma decode_stream_read: "decode_stream d bs = Some xs \<Longrightarrow> x \<in> set xs \<Longrightarrow> \<exists>s r. d s = Some (x, r)"
  unfolding decode_stream_def by (rule decode_all_read)

text \<open>A stream cut at a byte.\<close>

interpretation pieces: record_codec "\<lambda>s. s @ [c]" "read_until c" "\<lambda>s. s" "\<lambda>s. c \<notin> set s" "\<lambda>_. True"
  for c by unfold_locales auto

end
