(* ===== verification/Bits.thy ===== *)
theory Bits
  imports Prelude
begin

text \<open>Lemmas on 32-bit words that are powers of two, for the tables and allocators of klib.\<close>

unbundle bit_operations_syntax

section \<open>Powers of two\<close>

lemma floor_power:
  assumes "0 < (x :: nat)"
  obtains m where "2 ^ m \<le> x" "x < 2 ^ Suc m"
  using ex_power_ivl1 [of 2 x] assms by auto

text \<open>The test \<open>(x & (x - 1)) == 0\<close>.\<close>

lemma and_pred:
  assumes "2 ^ m \<le> unat (x :: u32)" "unat x < 2 ^ Suc m" "m < 32"
  shows "x AND (x - 1) = 0 \<longleftrightarrow> unat x = 2 ^ m"
proof
  assume z: "x AND (x - 1) = 0"
  show "unat x = 2 ^ m"
  proof (rule ccontr)
    assume "unat x \<noteq> 2 ^ m"
    then have lt: "2 ^ m < unat x" using assms(1) by simp
    then have p: "unat (x - 1) = unat x - 1" by (simp add: unat_sub word_le_nat_alt)
    have b: "bit y m" if "2 ^ m \<le> unat y" "unat y < 2 ^ Suc m" for y :: u32
    proof -
      have "unat y div 2 ^ m = 1" using that by (intro div_nat_eqI) simp_all
      then have "bit (unat y) m" by (simp add: bit_iff_odd)
      then show ?thesis by (simp add: bit_unsigned_iff)
    qed
    have "bit x m" by (rule b [OF assms(1,2)])
    moreover have "bit (x - 1) m" by (rule b) (use p lt assms(2) in simp_all)
    ultimately have "bit (x AND (x - 1)) m" by (simp add: bit_and_iff)
    with z show False by simp
  qed
next
  assume u: "unat x = 2 ^ m"
  have "unat (of_nat (2 ^ m) :: u32) = 2 ^ m"
    using assms(3) by (simp only: unsigned_of_nat) (simp add: take_bit_nat_eq_self)
  with u have "x = of_nat (2 ^ m)" by (simp add: word_unat_eq_iff)
  then have x: "x = 2 ^ m" by simp
  have "x AND mask m = take_bit m x" by (simp add: take_bit_eq_mask)
  also have "take_bit m x = 0"
    unfolding word_unat_eq_iff unsigned_take_bit_eq u by (simp add: take_bit_eq_mod)
  finally show "x AND (x - 1) = 0" by (simp add: mask_eq_exp_minus_1 x)
qed

lemma and_pred_power:
  assumes "x AND (x - 1) = 0" "x \<noteq> 0"
  obtains m where "m < 32" "unat (x :: u32) = 2 ^ m" "x - 1 = mask m"
proof -
  have "0 < unat x" using assms(2) by (simp add: unat_gt_0)
  then obtain m where m: "2 ^ m \<le> unat x" "unat x < 2 ^ Suc m" by (rule floor_power)
  have "unat x < 2 ^ 32" using unsigned_less [of x] by simp
  then have "(2::nat) ^ m < 2 ^ 32" using m(1) by (rule le_less_trans [rotated])
  then have m32: "m < 32" by (rule power_less_imp_less_exp [rotated]) simp
  then have u: "unat x = 2 ^ m" using assms(1) and_pred [OF m] by simp
  have "unat (of_nat (2 ^ m) :: u32) = 2 ^ m"
    using m32 by (simp only: unsigned_of_nat) (simp add: take_bit_nat_eq_self)
  then have "x = of_nat (2 ^ m)" using u by (simp add: word_unat_eq_iff)
  then have "x - 1 = mask m" by (simp add: mask_eq_exp_minus_1)
  with m32 u that show thesis by blast
qed

end
