(* ===== verification/Framing.thy ===== *)
theory Framing
  imports Prelude
begin

text \<open>
  The length-prefixed framing of the server's standard input, \<open>src/src/magit_server.c\<close>:
  a four byte big-endian length, then that many bytes of payload. libuv delivers the
  stream in arbitrary pieces; \<open>consume_bytes\<close> keeps the static parser state between
  two pieces. The static variables are the record \<open>parser\<close>; the call of
  \<open>msgpack_handler_recv\<close> is recorded in \<open>delivered\<close> (the handler never touches the
  parser), \<open>uv_close\<close> in \<open>closed\<close> and the message on stderr in \<open>errors\<close>. A copy that
  would leave one of the two static buffers sets \<open>oob\<close>.
\<close>

unbundle bit_operations_syntax

section \<open>State\<close>

definition MAX_MESSAGE_SIZE :: nat where "MAX_MESSAGE_SIZE = 64 * 1024"
definition LENGTH_SIZE :: nat where "LENGTH_SIZE = 4"

datatype parser_state = READ_LENGTH | READ_PAYLOAD

record parser =
  g_state :: parser_state
  g_length_buf :: "byte mem"
  g_length_received :: nat
  g_payload_buf :: "byte mem"
  g_payload_length :: u32
  g_payload_received :: nat
  delivered :: "byte list list"
  closed :: bool
  errors :: "string list"
  oob :: bool

definition init_parser :: parser where
  "init_parser =
     \<lparr> g_state = READ_LENGTH, g_length_buf = (\<lambda>_. 0), g_length_received = 0,
       g_payload_buf = (\<lambda>_. 0), g_payload_length = 0, g_payload_received = 0,
       delivered = [], closed = False, errors = [], oob = False \<rparr>"

definition protocol_error :: "string \<Rightarrow> parser \<Rightarrow> parser" where
  "protocol_error msg p = p\<lparr> errors := errors p @ [''protocol error: '' @ msg], closed := True \<rparr>"

definition reset_parser :: "parser \<Rightarrow> parser" where
  "reset_parser p =
     p\<lparr> g_state := READ_LENGTH, g_length_received := 0, g_payload_length := 0,
        g_payload_received := 0 \<rparr>"

text \<open>\<open>ntohl\<close> of the four bytes of \<open>g_length_buf\<close>: the most significant byte comes first.\<close>

definition ntohl_buf :: "byte mem \<Rightarrow> u32" where
  "ntohl_buf m =
     push_bit 24 (ucast (m 0)) OR push_bit 16 (ucast (m 1)) OR push_bit 8 (ucast (m 2)) OR ucast (m 3)"

section \<open>Operations\<close>

text \<open>The two bulk copies of the loop body, with what is left of the input.\<close>

definition copy_length :: "parser \<Rightarrow> byte list \<Rightarrow> parser \<times> byte list" where
  "copy_length p data =
     (let need = LENGTH_SIZE - g_length_received p;
          n = min need (length data)
      in (p\<lparr> g_length_buf := mem_copy (g_length_buf p) (g_length_received p) (take n data),
             oob := (oob p \<or> g_length_received p + n > LENGTH_SIZE),
             g_length_received := g_length_received p + n \<rparr>,
          drop n data))"

definition copy_payload :: "parser \<Rightarrow> byte list \<Rightarrow> parser \<times> byte list" where
  "copy_payload p data =
     (let need = unat (g_payload_length p) - g_payload_received p;
          n = min need (length data)
      in (p\<lparr> g_payload_buf := mem_copy (g_payload_buf p) (g_payload_received p) (take n data),
             oob := (oob p \<or> g_payload_received p + n > MAX_MESSAGE_SIZE),
             g_payload_received := g_payload_received p + n \<rparr>,
          drop n data))"

definition deliver :: "parser \<Rightarrow> parser" where
  "deliver p = p\<lparr> delivered := delivered p @ [mem_read (g_payload_buf p) (unat (g_payload_length p))] \<rparr>"

text \<open>
  The check of a completed length: an error message, or the state in which the
  payload is read.
\<close>

definition start_payload :: "parser \<Rightarrow> string + parser" where
  "start_payload p =
     (let p = p\<lparr> g_payload_length := ntohl_buf (g_length_buf p) \<rparr>
      in if g_payload_length p = 0 then Inl ''zero length message''
         else if unat (g_payload_length p) > MAX_MESSAGE_SIZE then Inl ''message too large''
         else Inr (p\<lparr> g_payload_received := 0, g_state := READ_PAYLOAD \<rparr>))"

text \<open>One iteration of the loop: it continues on the rest of the data or returns.\<close>

datatype flow = Continue parser "byte list" | Return parser

definition payload_part :: "parser \<Rightarrow> byte list \<Rightarrow> flow" where
  "payload_part p data =
     (case copy_payload p data of (p, rest) \<Rightarrow>
        if g_payload_received p < unat (g_payload_length p) then Continue p rest
        else Continue (reset_parser (deliver p)) rest)"

definition consume_iter :: "parser \<Rightarrow> byte list \<Rightarrow> flow" where
  "consume_iter p data =
     (if g_state p = READ_LENGTH then
        case copy_length p data of (p, rest) \<Rightarrow>
          if g_length_received p < LENGTH_SIZE then Continue p rest
          else case start_payload p of
                 Inl msg \<Rightarrow> Return (protocol_error msg
                              (p\<lparr> g_payload_length := ntohl_buf (g_length_buf p) \<rparr>))
               | Inr p' \<Rightarrow> payload_part p' rest
      else payload_part p data)"

lemma payload_part_flow:
  "\<exists>p' rest. payload_part p data = Continue p' rest \<and> length rest \<le> length data \<and>
     (if g_payload_received p < unat (g_payload_length p) \<and> data \<noteq> [] then length rest < length data
      else g_payload_received p < unat (g_payload_length p) \<or> g_state p' = READ_LENGTH)"
  by (auto simp: payload_part_def copy_payload_def reset_parser_def Let_def)

definition loop_measure :: "parser \<times> byte list \<Rightarrow> nat" where
  "loop_measure = (\<lambda>(p, data). 2 * length data + (if g_state p = READ_PAYLOAD then 1 else 0))"

lemma consume_iter_decreases:
  assumes "data \<noteq> []" and "consume_iter p data = Continue p' rest"
  shows "loop_measure (p', rest) < loop_measure (p, data)"
proof (cases "g_state p")
  case READ_PAYLOAD
  with assms(2) have pp: "payload_part p data = Continue p' rest"
    by (simp add: consume_iter_def)
  with payload_part_flow [of p data] assms(1) READ_PAYLOAD show ?thesis
    by (auto simp: loop_measure_def split: if_splits)
next
  case READ_LENGTH
  obtain q r where q: "copy_length p data = (q, r)" by fastforce
  then have r: "length r \<le> length data"
    and full: "g_length_received q < LENGTH_SIZE \<Longrightarrow> length r < length data \<and> g_state q = READ_LENGTH"
    using assms(1) READ_LENGTH by (auto simp: copy_length_def Let_def)
  show ?thesis
  proof (cases "g_length_received q < LENGTH_SIZE")
    case True
    with assms(2) q full READ_LENGTH show ?thesis
      by (auto simp: consume_iter_def loop_measure_def)
  next
    case False
    with assms(2) q READ_LENGTH obtain q' where q': "start_payload q = Inr q'"
        and pp: "payload_part q' r = Continue p' rest"
      by (auto simp: consume_iter_def split: sum.splits)
    have len: "g_payload_received q' < unat (g_payload_length q')"
      using q' by (auto simp: start_payload_def Let_def unat_gt_0 split: if_splits)
    have cp: "r = data \<or> length r < length data"
      using q assms(1) by (cases "LENGTH_SIZE - g_length_received p") (auto simp: copy_length_def Let_def)
    from payload_part_flow [of q' r] pp len have "length rest \<le> length r"
      and "r \<noteq> [] \<Longrightarrow> length rest < length r" by auto
    moreover have "0 < length data" using assms(1) by simp
    ultimately have "2 * length rest + 1 < 2 * length data"
      using cp by (cases r; cases data) (auto dest: Suc_leI)
    with READ_LENGTH show ?thesis by (auto simp: loop_measure_def)
  qed
qed

function (sequential) consume_bytes :: "parser \<Rightarrow> byte list \<Rightarrow> parser" where
  "consume_bytes p data =
     (if data = [] then p
      else case consume_iter p data of
             Return p' \<Rightarrow> p'
           | Continue p' rest \<Rightarrow> consume_bytes p' rest)"
  by pat_completeness auto
termination
  by (relation "measure loop_measure") (simp_all add: consume_iter_decreases)

declare consume_bytes.simps [simp del]

text \<open>
  \<open>read_stdin\<close> is the libuv read callback: a negative count closes the stream, zero
  means nothing to read, otherwise the bytes are consumed. libuv makes no callback
  on a handle after \<open>uv_close\<close>, which \<open>on_read\<close> adds.
\<close>

definition read_stdin :: "int \<Rightarrow> byte list \<Rightarrow> parser \<Rightarrow> parser" where
  "read_stdin nread buf p =
     (if nread < 0 then p\<lparr> closed := True \<rparr>
      else if nread = 0 then p
      else consume_bytes p (take (nat nread) buf))"

definition on_read :: "parser \<Rightarrow> byte list \<Rightarrow> parser" where
  "on_read p data = (if closed p then p else read_stdin (int (length data)) data p)"


section \<open>The invariant\<close>

text \<open>
  Between two callbacks: no copy has left its buffer; in \<open>READ_LENGTH\<close> fewer than
  four bytes of the length are there, in \<open>READ_PAYLOAD\<close> the length is an admissible
  one and at least one byte of the payload is missing.
\<close>

definition parser_ok :: "parser \<Rightarrow> bool" where
  "parser_ok p \<longleftrightarrow> \<not> oob p \<and>
     (closed p \<or>
      (case g_state p of
         READ_LENGTH \<Rightarrow> g_length_received p < LENGTH_SIZE \<and> g_payload_length p = 0 \<and>
                         g_payload_received p = 0
       | READ_PAYLOAD \<Rightarrow> g_length_received p = LENGTH_SIZE \<and>
                         g_payload_received p < unat (g_payload_length p) \<and>
                         unat (g_payload_length p) \<le> MAX_MESSAGE_SIZE))"

lemmas framing_defs = consume_iter_def payload_part_def copy_length_def copy_payload_def
  start_payload_def deliver_def reset_parser_def protocol_error_def

lemma consume_bytes_Nil [simp]: "consume_bytes p [] = p"
  by (subst consume_bytes.simps) simp

lemma consume_bytes_step: "data \<noteq> [] \<Longrightarrow>
    consume_bytes p data =
      (case consume_iter p data of Return p' \<Rightarrow> p' | Continue p' rest \<Rightarrow> consume_bytes p' rest)"
  by (subst consume_bytes.simps) simp

lemma on_read_open: "\<not> closed p \<Longrightarrow> on_read p data = consume_bytes p data"
  by (auto simp: on_read_def read_stdin_def)

lemma on_read_closed [simp]: "closed p \<Longrightarrow> on_read p data = p"
  by (simp add: on_read_def)

lemma consume_bytes_closed: "data \<noteq> [] \<Longrightarrow> consume_iter p data = Return p' \<Longrightarrow> closed p'"
  by (auto simp: framing_defs Let_def split: if_splits sum.splits)

section \<open>Feeding byte by byte\<close>

lemma copy_length_bytewise:
  assumes "g_length_received p < LENGTH_SIZE"
  shows "copy_length p (x # xs) = copy_length (fst (copy_length p [x])) xs"
proof -
  have "min (LENGTH_SIZE - g_length_received p) (Suc (length xs)) =
        Suc (min (LENGTH_SIZE - Suc (g_length_received p)) (length xs))" using assms by auto
  with assms show ?thesis
    by (auto simp: copy_length_def Let_def mem_copy_Cons [of _ _ x "take _ _"])
qed

lemma copy_payload_bytewise:
  assumes "g_payload_received p < unat (g_payload_length p)"
    and "unat (g_payload_length p) \<le> MAX_MESSAGE_SIZE"
  shows "copy_payload p (x # xs) = copy_payload (fst (copy_payload p [x])) xs"
proof -
  have "min (unat (g_payload_length p) - g_payload_received p) (Suc (length xs)) =
        Suc (min (unat (g_payload_length p) - Suc (g_payload_received p)) (length xs))"
    using assms by auto
  with assms show ?thesis
    by (auto simp: copy_payload_def Let_def mem_copy_Cons [of _ _ x "take _ _"])
qed

lemma copy_length_full: "g_length_received p = LENGTH_SIZE \<Longrightarrow> copy_length p xs = (p, xs)"
  by (simp add: copy_length_def Let_def)

lemma copy_payload_full: "g_payload_received p = unat (g_payload_length p) \<Longrightarrow>
    unat (g_payload_length p) \<le> MAX_MESSAGE_SIZE \<Longrightarrow> copy_payload p xs = (p, xs)"
  by (simp add: copy_payload_def Let_def)

lemma copy_payload_Nil: "g_payload_received p \<le> unat (g_payload_length p) \<Longrightarrow>
    unat (g_payload_length p) \<le> MAX_MESSAGE_SIZE \<Longrightarrow> copy_payload p [] = (p, [])"
  by (simp add: copy_payload_def Let_def)

lemma copy_length_one: "g_length_received p < LENGTH_SIZE \<Longrightarrow>
    \<exists>p1. copy_length p [x] = (p1, []) \<and> g_length_received p1 = Suc (g_length_received p) \<and>
      g_state p1 = g_state p \<and> closed p1 = closed p"
  by (auto simp: copy_length_def Let_def)

lemma copy_payload_one: "g_payload_received p < unat (g_payload_length p) \<Longrightarrow>
    \<exists>p1. copy_payload p [x] = (p1, []) \<and> g_payload_received p1 = Suc (g_payload_received p) \<and>
      g_payload_length p1 = g_payload_length p \<and> g_state p1 = g_state p \<and> closed p1 = closed p"
  by (auto simp: copy_payload_def Let_def)

lemma start_payload_Inr: "start_payload p = Inr p' \<Longrightarrow>
    g_state p' = READ_PAYLOAD \<and> g_payload_received p' = 0 \<and> 0 < unat (g_payload_length p') \<and>
    unat (g_payload_length p') \<le> MAX_MESSAGE_SIZE \<and> closed p' = closed p \<and>
    g_length_received p' = g_length_received p \<and> delivered p' = delivered p \<and> oob p' = oob p \<and>
    errors p' = errors p"
  by (auto simp: start_payload_def Let_def unat_gt_0 split: if_splits)

lemma consume_payload:
  assumes "g_state p = READ_PAYLOAD" "data \<noteq> []" "copy_payload p data = (q, rest)"
  shows "consume_bytes p data =
    consume_bytes (if g_payload_received q < unat (g_payload_length q) then q
                   else reset_parser (deliver q)) rest"
  using assms by (subst consume_bytes_step) (auto simp: consume_iter_def payload_part_def)

lemma consume_length:
  assumes "g_state p = READ_LENGTH" "data \<noteq> []" "copy_length p data = (q, rest)"
    and "g_length_received q < LENGTH_SIZE"
  shows "consume_bytes p data = consume_bytes q rest"
  using assms by (subst consume_bytes_step) (auto simp: consume_iter_def)

lemma consume_length_error:
  assumes "g_state p = READ_LENGTH" "data \<noteq> []" "copy_length p data = (q, rest)"
    and "\<not> g_length_received q < LENGTH_SIZE" "start_payload q = Inl msg"
  shows "consume_bytes p data =
    protocol_error msg (q\<lparr> g_payload_length := ntohl_buf (g_length_buf q) \<rparr>)"
  using assms by (subst consume_bytes_step) (auto simp: consume_iter_def)

lemma consume_length_done:
  assumes "g_state p = READ_LENGTH" "data \<noteq> []" "copy_length p data = (q, rest)"
    and "\<not> g_length_received q < LENGTH_SIZE" "start_payload q = Inr q'"
  shows "consume_bytes p data = consume_bytes q' rest"
proof (cases "rest = []")
  case False
  have "g_state q' = READ_PAYLOAD" using start_payload_Inr [OF assms(5)] by simp
  with False assms show ?thesis
    by (simp add: consume_bytes_step [of data] consume_bytes_step [of rest] consume_iter_def)
next
  case True
  note q' = start_payload_Inr [OF assms(5)]
  then have "copy_payload q' [] = (q', [])" by (intro copy_payload_Nil) auto
  with True assms q' show ?thesis
    by (simp add: consume_bytes_step [of data] consume_iter_def payload_part_def)
qed

lemma bytewise_payload:
  assumes "g_state p = READ_PAYLOAD" "\<not> closed p" "xs \<noteq> []"
    and r: "g_payload_received p < unat (g_payload_length p)"
    and m: "unat (g_payload_length p) \<le> MAX_MESSAGE_SIZE"
  shows "consume_bytes p (x # xs) = on_read (consume_bytes p [x]) xs"
proof -
  obtain p1 where p1: "copy_payload p [x] = (p1, [])"
      "g_payload_received p1 = Suc (g_payload_received p)"
      "g_payload_length p1 = g_payload_length p" "g_state p1 = READ_PAYLOAD" "\<not> closed p1"
    using copy_payload_one [OF r, of x] assms by auto
  have eq: "copy_payload p (x # xs) = copy_payload p1 xs"
    using copy_payload_bytewise [OF r m, of x xs] p1 by simp
  have one: "consume_bytes p [x] = (if g_payload_received p1 < unat (g_payload_length p1) then p1
      else reset_parser (deliver p1))"
    using consume_payload [OF assms(1) _ p1(1)] by simp
  show ?thesis
  proof (cases "g_payload_received p1 < unat (g_payload_length p1)")
    case True
    obtain q rest where "copy_payload p1 xs = (q, rest)" by fastforce
    with eq p1 assms(3) consume_payload [OF assms(1), of "x # xs" q rest]
      consume_payload [OF p1(4), of xs q rest] one True
    show ?thesis by (simp add: on_read_open)
  next
    case False
    with p1 r have "copy_payload p1 xs = (p1, xs)"
      using m by (intro copy_payload_full) auto
    moreover have "\<not> closed (reset_parser (deliver p1))"
      using p1 by (simp add: reset_parser_def deliver_def)
    ultimately show ?thesis
      using False eq one consume_payload [OF assms(1), of "x # xs" p1 xs]
      by (simp add: on_read_open)
  qed
qed

lemma bytewise_length:
  assumes "g_state p = READ_LENGTH" "\<not> closed p" "xs \<noteq> []"
    and r: "g_length_received p < LENGTH_SIZE"
  shows "consume_bytes p (x # xs) = on_read (consume_bytes p [x]) xs"
proof -
  obtain p1 where p1: "copy_length p [x] = (p1, [])"
      "g_length_received p1 = Suc (g_length_received p)" "g_state p1 = READ_LENGTH" "\<not> closed p1"
    using copy_length_one [OF r, of x] assms by auto
  have eq: "copy_length p (x # xs) = copy_length p1 xs"
    using copy_length_bytewise [OF r, of x xs] p1 by simp
  show ?thesis
  proof (cases "g_length_received p1 < LENGTH_SIZE")
    case True
    obtain q rest where q: "copy_length p1 xs = (q, rest)" by fastforce
    have "consume_bytes p [x] = p1" using consume_length [OF assms(1) _ p1(1) True] by simp
    moreover have "consume_iter p (x # xs) = consume_iter p1 xs"
      using eq assms(1) p1(3) by (simp add: consume_iter_def)
    ultimately show ?thesis using assms(3) p1(4)
      by (simp only: on_read_open consume_bytes_step list.distinct not_False_eq_True)
  next
    case False
    with p1 r have full: "copy_length p (x # xs) = (p1, xs)"
      using eq by (simp add: copy_length_full)
    show ?thesis
    proof (cases "start_payload p1")
      case (Inl msg)
      from consume_length_error [OF assms(1) _ full False Inl]
        consume_length_error [OF assms(1) _ p1(1) False Inl]
      show ?thesis by (simp add: protocol_error_def)
    next
      case (Inr p2)
      have "\<not> closed p2" using start_payload_Inr [OF Inr] p1 by simp
      with consume_length_done [OF assms(1) _ full False Inr]
        consume_length_done [OF assms(1) _ p1(1) False Inr]
      show ?thesis by (simp add: on_read_open)
    qed
  qed
qed

lemma consume_bytewise:
  "parser_ok p \<Longrightarrow> \<not> closed p \<Longrightarrow> consume_bytes p (x # xs) = on_read (consume_bytes p [x]) xs"
proof (cases "xs = []")
  case True
  then show ?thesis by (simp add: on_read_def read_stdin_def)
next
  case False
  moreover assume "parser_ok p" "\<not> closed p"
  ultimately show ?thesis
    by (cases "g_state p") (auto simp: parser_ok_def intro: bytewise_length bytewise_payload)
qed

lemma parser_ok_one:
  assumes "parser_ok p" "\<not> closed p"
  shows "parser_ok (consume_bytes p [x])"
proof (cases "g_state p")
  case READ_PAYLOAD
  with assms have r: "g_payload_received p < unat (g_payload_length p)"
      "unat (g_payload_length p) \<le> MAX_MESSAGE_SIZE" by (auto simp: parser_ok_def)
  obtain p1 where p1: "copy_payload p [x] = (p1, [])"
      "g_payload_received p1 = Suc (g_payload_received p)" "g_state p1 = READ_PAYLOAD"
      "g_payload_length p1 = g_payload_length p" "\<not> oob p1" "\<not> closed p1"
      "g_length_received p1 = g_length_received p"
    using assms READ_PAYLOAD r by (auto simp: copy_payload_def Let_def parser_ok_def)
  from consume_payload [OF READ_PAYLOAD _ p1(1)] show ?thesis using assms p1 READ_PAYLOAD r
    by (auto simp: parser_ok_def reset_parser_def deliver_def LENGTH_SIZE_def)
next
  case READ_LENGTH
  with assms have r: "g_length_received p < LENGTH_SIZE" by (auto simp: parser_ok_def)
  then obtain p1 where p1: "copy_length p [x] = (p1, [])"
      "g_length_received p1 = Suc (g_length_received p)" "g_state p1 = READ_LENGTH" "\<not> closed p1"
      "\<not> oob p1" "g_payload_length p1 = 0" "g_payload_received p1 = 0"
    using assms READ_LENGTH by (auto simp: copy_length_def Let_def parser_ok_def)
  show ?thesis
  proof (cases "g_length_received p1 < LENGTH_SIZE")
    case True
    with consume_length [OF READ_LENGTH _ p1(1)] p1 show ?thesis by (simp add: parser_ok_def)
  next
    case False
    show ?thesis
    proof (cases "start_payload p1")
      case (Inl msg)
      with consume_length_error [OF READ_LENGTH _ p1(1) False Inl] p1 show ?thesis
        by (simp add: protocol_error_def parser_ok_def)
    next
      case (Inr p2)
      with consume_length_done [OF READ_LENGTH _ p1(1) False Inr] start_payload_Inr [OF Inr] p1 False r
      show ?thesis by (simp add: parser_ok_def)
    qed
  qed
qed

lemma on_read_Nil [simp]: "on_read p [] = p"
  by (simp add: on_read_def read_stdin_def)

lemma on_read_Cons: "parser_ok p \<Longrightarrow> on_read p (x # xs) = on_read (on_read p [x]) xs"
  by (cases "closed p") (simp, simp only: on_read_open not_False_eq_True, rule consume_bytewise)

lemma parser_ok_on_read: "parser_ok p \<Longrightarrow> parser_ok (on_read p xs)"
proof (induction xs arbitrary: p)
  case Nil
  then show ?case by simp
next
  case (Cons x xs)
  then have "parser_ok (on_read p [x])"
    by (cases "closed p") (simp_all add: on_read_open parser_ok_one)
  then have "parser_ok (on_read (on_read p [x]) xs)" by (rule Cons.IH)
  then show ?case using on_read_Cons [OF Cons.prems, of x xs] by simp
qed

lemma on_read_append: "parser_ok p \<Longrightarrow> on_read p (xs @ ys) = on_read (on_read p xs) ys"
proof (induction xs arbitrary: p)
  case Nil
  then show ?case by simp
next
  case (Cons x xs)
  have "parser_ok (on_read p [x])" using Cons.prems by (rule parser_ok_on_read)
  then show ?case
    using Cons.IH [of "on_read p [x]"] on_read_Cons [OF Cons.prems, of x xs]
      on_read_Cons [OF Cons.prems, of x "xs @ ys"] by simp
qed

interpretation stdin: chunked_sink on_read parser_ok
  by unfold_locales (simp_all add: on_read_append parser_ok_on_read)

section \<open>Specification and refinement\<close>

definition be32 :: "byte list \<Rightarrow> u32" where
  "be32 bs = ntohl_buf (\<lambda>i. bs ! i)"

text \<open>
  The header that \<open>msgpack_handler_send\<close> writes in front of a response, most
  significant byte first, and a frame of the same format in either direction.
\<close>

definition frame_header :: "u32 \<Rightarrow> byte list" where
  "frame_header len =
     [ucast (drop_bit 24 len AND 0xff), ucast (drop_bit 16 len AND 0xff),
      ucast (drop_bit 8 len AND 0xff), ucast (len AND 0xff)]"

lemma length_frame_header [simp]: "length (frame_header n) = 4"
  by (simp add: frame_header_def)

lemma ucast_low_byte: "(ucast (x AND 0xff :: u32) :: byte) = ucast x"
proof -
  have m: "(0xff :: u32) = mask 8" by (simp add: mask_eq_exp_minus_1)
  show ?thesis unfolding m by (rule bit_word_eqI) (auto simp: bit_simps)
qed

lemma be32_frame_header [simp]: "be32 (frame_header n) = n"
proof (rule bit_word_eqI)
  fix i assume "i < LENGTH(32)"
  then consider "i < 8" | "8 \<le> i" "i < 16" | "16 \<le> i" "i < 24" | "24 \<le> i" "i < 32"
    by fastforce
  then show "bit (be32 (frame_header n)) i = bit n i"
    by cases (auto simp: be32_def ntohl_buf_def frame_header_def ucast_low_byte bit_simps)
qed

definition frame :: "byte list \<Rightarrow> byte list" where
  "frame m = frame_header (of_nat (length m)) @ m"

text \<open>
  The specification of the framing on a whole stream: the payloads of the complete
  frames, and either the error that ends the conversation or the bytes of the
  incomplete frame at the end.
\<close>

function spec_frames :: "byte list \<Rightarrow> byte list list \<times> (string + byte list)" where
  "spec_frames bs =
     (if length bs < 4 then ([], Inr bs)
      else let n = be32 (take 4 bs)
           in if n = 0 then ([], Inl ''zero length message'')
              else if unat n > MAX_MESSAGE_SIZE then ([], Inl ''message too large'')
              else if length bs < 4 + unat n then ([], Inr bs)
              else case spec_frames (drop (4 + unat n) bs) of
                     (ms, e) \<Rightarrow> (take (unat n) (drop 4 bs) # ms, e))"
  by pat_completeness auto
termination by (relation "measure length") auto
declare spec_frames.simps [simp del]

text \<open>The state between two frames.\<close>

definition idle :: "parser \<Rightarrow> bool" where
  "idle p \<longleftrightarrow> g_state p = READ_LENGTH \<and> g_length_received p = 0 \<and> g_payload_length p = 0 \<and>
     g_payload_received p = 0 \<and> \<not> closed p \<and> \<not> oob p"

lemma idle_ok: "idle p \<Longrightarrow> parser_ok p"
  by (simp add: idle_def parser_ok_def LENGTH_SIZE_def)

lemma idle_init: "idle init_parser"
  by (simp add: idle_def init_parser_def)

lemma header_buf: "length hdr = 4 \<Longrightarrow> ntohl_buf (mem_copy m 0 hdr) = be32 hdr"
  by (simp add: ntohl_buf_def be32_def mem_copy_def)

lemma idle_copy_length:
  assumes "idle p" "length bs \<le> 4"
  shows "\<exists>q. copy_length p bs = (q, []) \<and> g_length_received q = length bs \<and> g_state q = READ_LENGTH \<and>
    g_length_buf q = mem_copy (g_length_buf p) 0 bs \<and> \<not> closed q \<and> \<not> oob q \<and>
    delivered q = delivered p \<and> errors q = errors p"
  using assms by (auto simp: idle_def copy_length_def Let_def LENGTH_SIZE_def)

lemma idle_partial_header:
  assumes "idle p" "length bs < 4"
  shows "\<not> closed (on_read p bs) \<and> delivered (on_read p bs) = delivered p \<and> errors (on_read p bs) = errors p"
proof (cases "bs = []")
  case True
  with assms show ?thesis by (simp add: idle_def)
next
  case False
  obtain q where q: "copy_length p bs = (q, [])" "g_length_received q = length bs" "\<not> closed q"
      "delivered q = delivered p" "errors q = errors p"
    using idle_copy_length [of p bs] assms by auto
  have "consume_bytes p bs = q"
    using consume_length [OF _ False q(1)] assms q by (simp add: idle_def LENGTH_SIZE_def)
  then show ?thesis using assms q by (simp add: on_read_open idle_def)
qed

lemma idle_header:
  assumes "idle p" "length hdr = 4"
  shows "if be32 hdr = 0 \<or> unat (be32 hdr) > MAX_MESSAGE_SIZE
    then closed (on_read p hdr) \<and> delivered (on_read p hdr) = delivered p \<and>
         errors (on_read p hdr) = errors p @ [''protocol error: '' @
           (if be32 hdr = 0 then ''zero length message'' else ''message too large'')]
    else g_state (on_read p hdr) = READ_PAYLOAD \<and> g_payload_length (on_read p hdr) = be32 hdr \<and>
         g_payload_received (on_read p hdr) = 0 \<and> \<not> closed (on_read p hdr) \<and>
         delivered (on_read p hdr) = delivered p \<and> errors (on_read p hdr) = errors p"
proof -
  have ne: "hdr \<noteq> []" and st: "g_state p = READ_LENGTH" and op: "\<not> closed p"
    using assms by (auto simp: idle_def)
  obtain q where q: "copy_length p hdr = (q, [])" "g_length_received q = 4" "\<not> closed q"
      "g_length_buf q = mem_copy (g_length_buf p) 0 hdr"
      "delivered q = delivered p" "errors q = errors p"
    using idle_copy_length [of p hdr] assms by auto
  have full: "\<not> g_length_received q < LENGTH_SIZE" using q by (simp add: LENGTH_SIZE_def)
  have len: "ntohl_buf (g_length_buf q) = be32 hdr" using q assms by (simp add: header_buf)
  show ?thesis
  proof (cases "start_payload q")
    case (Inl msg)
    with consume_length_error [OF st ne q(1) full Inl] op q len show ?thesis
      by (auto simp: start_payload_def Let_def on_read_open protocol_error_def split: if_splits)
  next
    case (Inr q')
    then have q': "q' = q\<lparr> g_payload_length := be32 hdr, g_payload_received := 0, g_state := READ_PAYLOAD \<rparr>"
      and ok: "be32 hdr \<noteq> 0" "unat (be32 hdr) \<le> MAX_MESSAGE_SIZE"
      using len by (auto simp: start_payload_def Let_def split: if_splits)
    have "on_read p hdr = q'"
      using consume_length_done [OF st ne q(1) full Inr] op by (simp add: on_read_open)
    with q' ok q show ?thesis by simp
  qed
qed

lemma payload_partial:
  assumes "g_state p = READ_PAYLOAD" "\<not> closed p" "g_payload_received p = 0"
    and "length bs < unat (g_payload_length p)"
  shows "\<not> closed (on_read p bs) \<and> delivered (on_read p bs) = delivered p \<and> errors (on_read p bs) = errors p"
proof (cases "bs = []")
  case True
  with assms show ?thesis by simp
next
  case False
  obtain q where "copy_payload p bs = (q, [])" "g_payload_received q = length bs" "\<not> closed q"
      "delivered q = delivered p" "errors q = errors p" "g_payload_length q = g_payload_length p"
    using assms by (auto simp: copy_payload_def Let_def)
  with consume_payload [OF assms(1) False] assms show ?thesis by (simp add: on_read_open)
qed

lemma payload_complete:
  assumes "g_state p = READ_PAYLOAD" "parser_ok p" "\<not> closed p" "g_payload_received p = 0"
    and "length bs = unat (g_payload_length p)"
  shows "idle (on_read p bs) \<and> delivered (on_read p bs) = delivered p @ [bs] \<and>
    errors (on_read p bs) = errors p"
proof -
  have ne: "bs \<noteq> []" using assms by (auto simp: parser_ok_def)
  have "mem_read (mem_copy (g_payload_buf p) 0 bs) (length bs) = bs"
    using mem_read_copy_at [of "g_payload_buf p" 0 bs] by (simp add: mem_read_def)
  then obtain q where q: "copy_payload p bs = (q, [])" "g_payload_received q = length bs" "\<not> closed q"
      "mem_read (g_payload_buf q) (unat (g_payload_length q)) = bs" "\<not> oob q"
      "delivered q = delivered p" "errors q = errors p" "g_payload_length q = g_payload_length p"
    using assms by (auto simp: copy_payload_def Let_def parser_ok_def)
  have "on_read p bs = reset_parser (deliver q)"
    using consume_payload [OF assms(1) ne q(1)] assms q by (simp add: on_read_open)
  with q show ?thesis by (simp add: reset_parser_def deliver_def idle_def)
qed

lemma on_read_spec:
  "idle p \<Longrightarrow> delivered (on_read p bs) = delivered p @ fst (spec_frames bs) \<and>
    (case snd (spec_frames bs) of
       Inl msg \<Rightarrow> closed (on_read p bs) \<and> errors (on_read p bs) = errors p @ [''protocol error: '' @ msg]
     | Inr rest \<Rightarrow> \<not> closed (on_read p bs) \<and> errors (on_read p bs) = errors p \<and>
         (rest = [] \<longrightarrow> idle (on_read p bs)))"
proof (induction bs arbitrary: p rule: spec_frames.induct)
  case (1 bs)
  note ok = idle_ok [OF "1.prems"]
  define n where "n = be32 (take 4 bs)"
  show ?case
  proof (cases "length bs < 4")
    case True
    with idle_partial_header [OF "1.prems" True] "1.prems" show ?thesis
      by (auto simp: spec_frames.simps [of bs])
  next
    case long: False
    then have hdr: "length (take 4 bs) = 4" by simp
    note h = idle_header [OF "1.prems" hdr, folded n_def]
    have split: "on_read p bs = on_read (on_read p (take 4 bs)) (drop 4 bs)"
      using on_read_append [OF ok, of "take 4 bs" "drop 4 bs"] by simp
    show ?thesis
    proof (cases "n = 0 \<or> unat n > MAX_MESSAGE_SIZE")
      case True
      with h split long show ?thesis
        by (auto simp: spec_frames.simps [of bs] n_def [symmetric] Let_def)
    next
      case fits: False
      define p1 where "p1 = on_read p (take 4 bs)"
      have p1: "g_state p1 = READ_PAYLOAD" "g_payload_length p1 = n" "g_payload_received p1 = 0"
          "\<not> closed p1" "delivered p1 = delivered p" "errors p1 = errors p"
        using h fits by (auto simp: p1_def)
      have ok1: "parser_ok p1" unfolding p1_def by (rule parser_ok_on_read [OF ok])
      show ?thesis
      proof (cases "length bs < 4 + unat n")
        case True
        then have "length (drop 4 bs) < unat (g_payload_length p1)" using p1 long by simp
        note part = payload_partial [OF p1(1,4,3) this]
        have sp: "spec_frames bs = ([], Inr bs)"
          using True fits long by (simp add: spec_frames.simps [of bs] n_def [symmetric] Let_def)
        have "bs \<noteq> []" using long by auto
        with part sp p1(5,6) show ?thesis unfolding split p1_def [symmetric] by simp
      next
        case False
        define body where "body = take (unat n) (drop 4 bs)"
        have "length body = unat (g_payload_length p1)" using False p1 by (simp add: body_def)
        from payload_complete [OF p1(1) ok1 p1(4,3) this]
        have p2: "idle (on_read p1 body)" "delivered (on_read p1 body) = delivered p @ [body]"
            "errors (on_read p1 body) = errors p"
          using p1 by auto
        have sp: "spec_frames bs = (body # fst (spec_frames (drop (4 + unat n) bs)),
            snd (spec_frames (drop (4 + unat n) bs)))"
          using False fits long
          by (simp add: spec_frames.simps [of bs] n_def [symmetric] body_def Let_def split_beta)
        have "drop 4 bs = body @ drop (4 + unat n) bs"
          by (simp add: body_def) (metis add.commute append_take_drop_id drop_drop)
        then have "on_read p bs = on_read (on_read p1 body) (drop (4 + unat n) bs)"
          using split on_read_append [OF ok1, of body "drop (4 + unat n) bs"] by (simp add: p1_def)
        with "1.IH" [OF long n_def _ _ False p2(1)] fits p2 sp show ?thesis
          by (auto split: sum.splits)
      qed
    qed
  qed
qed

lemma frame_stream_spec:
  assumes "0 < length m" "length m \<le> MAX_MESSAGE_SIZE"
  shows "spec_frames (frame m @ rest) = (m # fst (spec_frames rest), snd (spec_frames rest))"
proof -
  have n: "unat (of_nat (length m) :: u32) = length m"
    using assms by (simp add: unat_of_nat MAX_MESSAGE_SIZE_def)
  then have "(of_nat (length m) :: u32) \<noteq> 0" using assms by (metis not_gr_zero unat_0)
  with n assms show ?thesis
    by (subst spec_frames.simps) (simp add: frame_def Let_def split_beta)
qed

lemma spec_frames_frames:
  "\<forall>m\<in>set ms. 0 < length m \<and> length m \<le> MAX_MESSAGE_SIZE \<Longrightarrow>
   spec_frames (concat (map frame ms) @ rest) = (ms @ fst (spec_frames rest), snd (spec_frames rest))"
  by (induction ms) (auto simp: frame_stream_spec)

lemma spec_frames_Nil [simp]: "spec_frames [] = ([], Inr [])"
  by (simp add: spec_frames.simps)

section \<open>Properties\<close>

text \<open>Any sequence of reads acts like one read of the whole stream.\<close>

lemma reads_refine_spec:
  "delivered (foldl on_read init_parser chunks) = fst (spec_frames (concat chunks)) \<and>
   (case snd (spec_frames (concat chunks)) of
      Inl msg \<Rightarrow> closed (foldl on_read init_parser chunks) \<and>
                 errors (foldl on_read init_parser chunks) = [''protocol error: '' @ msg]
    | Inr rest \<Rightarrow> \<not> closed (foldl on_read init_parser chunks) \<and>
                 errors (foldl on_read init_parser chunks) = [])"
proof -
  have "foldl on_read init_parser chunks = on_read init_parser (concat chunks)"
    by (rule stdin.feed_all_concat [OF idle_ok [OF idle_init]])
  with on_read_spec [OF idle_init, of "concat chunks"] show ?thesis
    by (auto simp: init_parser_def split: sum.splits)
qed

text \<open>
  C3: The parser refines the stream specification, however the stream is cut into
  pieces: after any sequence of reads the payloads handed to the message handler
  are those of the complete frames of the concatenated input, in order, and the
  stream has been closed with the error message of the first inadmissible length
  exactly if there is one.
\<close>

theorem framing_refines_spec:
  "delivered (foldl on_read init_parser chunks) = fst (spec_frames (concat chunks)) \<and>
   (case snd (spec_frames (concat chunks)) of
      Inl msg \<Rightarrow> closed (foldl on_read init_parser chunks) \<and>
                 errors (foldl on_read init_parser chunks) = [''protocol error: '' @ msg]
    | Inr rest \<Rightarrow> \<not> closed (foldl on_read init_parser chunks) \<and>
                 errors (foldl on_read init_parser chunks) = [])"
  by (rule reads_refine_spec)

text \<open>
  C21: The static buffers are never overrun: after any sequence of reads no copy has
  left \<open>g_length_buf\<close> or \<open>g_payload_buf\<close>, and while the stream is open the counters are
  within the bounds the next copy relies on.
\<close>

theorem parser_never_overruns:
  "\<not> oob (foldl on_read init_parser chunks) \<and>
   (closed (foldl on_read init_parser chunks) \<or>
    g_length_received (foldl on_read init_parser chunks) \<le> LENGTH_SIZE \<and>
    g_payload_received (foldl on_read init_parser chunks)
      \<le> unat (g_payload_length (foldl on_read init_parser chunks)) \<and>
    unat (g_payload_length (foldl on_read init_parser chunks)) \<le> MAX_MESSAGE_SIZE)"
proof -
  have "parser_ok (foldl on_read init_parser chunks)"
    by (rule stdin.feed_all_ok [OF idle_ok [OF idle_init]])
  then show ?thesis
    by (cases "g_state (foldl on_read init_parser chunks)") (auto simp: parser_ok_def)
qed

text \<open>
  Framing round trip: a client that frames its messages (each between one byte
  and \<open>MAX_MESSAGE_SIZE\<close>) gets exactly these messages delivered, whatever the pieces
  in which the bytes arrive, and the stream stays open.
\<close>

theorem framing_roundtrip:
  assumes "\<forall>m\<in>set ms. 0 < length m \<and> length m \<le> MAX_MESSAGE_SIZE"
    and "concat chunks = concat (map frame ms)"
  shows "delivered (foldl on_read init_parser chunks) = ms \<and>
    \<not> closed (foldl on_read init_parser chunks)"
  using reads_refine_spec [of chunks] spec_frames_frames [OF assms(1), of "[]"] assms(2) by simp

theorem framing_roundtrip_witness:
  "delivered (foldl on_read init_parser [[0, 0], [0, 2, 7], [8, 0, 0, 0, 1], [9]]) = [[7, 8], [9]] \<and>
   \<not> closed (foldl on_read init_parser [[0, 0], [0, 2, 7], [8, 0, 0, 0, 1], [9]])"
  by (rule framing_roundtrip) (simp_all add: MAX_MESSAGE_SIZE_def frame_def frame_header_def)

end
