(* ===== verification/KString.thy ===== *)
theory KString
  imports Prelude
begin

text \<open>
  The growable string of klib (\<open>src/ext/klib/kstring.h\<close>, \<open>kstring.c\<close>), in two layers.
  The concrete layer keeps the fields \<open>l\<close> and \<open>m\<close> at their width, the bytes of the
  buffer, the number of bytes really allocated and a flag that a store has left the
  allocation; \<open>realloc\<close> may fail, as an oracle decides. The abstract layer, \<open>kstr\<close>, is what the rest of the
  development uses: \<open>None\<close> for a string whose buffer pointer is still \<open>NULL\<close>, else
  the bytes put so far. The refinement lemmas connect the two. The last section
  holds \<open>src/src/util.c\<close> on the abstract layer.
\<close>

unbundle bit_operations_syntax

section \<open>The abstract string\<close>

type_synonym kstr = "string option"

definition kdata :: "kstr \<Rightarrow> string" where
  "kdata k = (case k of None \<Rightarrow> [] | Some d \<Rightarrow> d)"

definition kcat :: "kstr \<Rightarrow> string \<Rightarrow> kstr" where
  "kcat k p = Some (kdata k @ p)"

lemma kdata_simps [simp]: "kdata None = []" "kdata (Some d) = d"
  by (simp_all add: kdata_def)

lemma kdata_kcat [simp]: "kdata (kcat k p) = kdata k @ p"
  by (simp add: kcat_def)

lemma kcat_kcat [simp]: "kcat (kcat k p) q = kcat k (p @ q)"
  by (simp add: kcat_def)

lemma kcat_not_None [simp]: "kcat k p \<noteq> None" "None \<noteq> kcat k p"
  by (simp_all add: kcat_def)

section \<open>Decimal digits\<close>

text \<open>
  The conversion loop of \<open>kputw\<close>, \<open>kputuw\<close> and \<open>kputl\<close>: digits are produced from the
  least significant one and written out in reverse.
\<close>

definition digit_char :: "nat \<Rightarrow> char" where
  "digit_char d = char_of (48 + d)"

function digit_loop :: "nat \<Rightarrow> string" where
  "digit_loop x = digit_char (x mod 10) # (if x div 10 > 0 then digit_loop (x div 10) else [])"
  by pat_completeness auto
termination by (relation "measure id") auto

declare digit_loop.simps [simp del]

definition decimal :: "nat \<Rightarrow> string" where
  "decimal x = rev (digit_loop x)"

definition decimal_int :: "int \<Rightarrow> string" where
  "decimal_int x = (if x < 0 then CHR ''-'' # decimal (nat (- x)) else decimal (nat x))"

definition char_digit :: "char \<Rightarrow> nat option" where
  "char_digit c = (let n = of_char c in if 48 \<le> n \<and> n < (58::nat) then Some (n - 48) else None)"

text \<open>Reading digits back, as \<open>strtol\<close> in base ten does.\<close>

fun read_digits :: "nat \<Rightarrow> string \<Rightarrow> nat" where
  "read_digits n [] = n"
| "read_digits n (c # cs) =
     (case char_digit c of None \<Rightarrow> n | Some d \<Rightarrow> read_digits (10 * n + d) cs)"

lemma of_char_digit: "d < 10 \<Longrightarrow> of_char (digit_char d) = 48 + d"
  by (simp add: digit_char_def of_char_of)

lemma char_digit_digit [simp]: "d < 10 \<Longrightarrow> char_digit (digit_char d) = Some d"
  by (simp add: char_digit_def of_char_digit)

lemma decimal_rec: "decimal x = (if x < 10 then [] else decimal (x div 10)) @ [digit_char (x mod 10)]"
  by (subst decimal_def, subst digit_loop.simps) (auto simp: decimal_def)

lemma read_digits_append:
  "\<forall>c\<in>set cs. char_digit c \<noteq> None \<Longrightarrow> read_digits n (cs @ ds) = read_digits (read_digits n cs) ds"
  by (induction cs arbitrary: n) auto

lemma decimal_digits: "c \<in> set (decimal x) \<Longrightarrow> char_digit c \<noteq> None"
proof (induction x rule: less_induct)
  case (less x)
  from less.prems show ?case
    by (subst (asm) decimal_rec) (auto split: if_splits dest: less.IH [rotated])
qed

lemma decimal_not_Nil [simp]: "decimal x \<noteq> []"
  by (subst decimal_rec) simp

lemma read_decimal_aux: "read_digits 0 (decimal x) = x"
proof (induction x rule: less_induct)
  case (less x)
  show ?case
  proof (cases "x < 10")
    case True
    then show ?thesis by (subst decimal_rec) simp
  next
    case False
    then have "read_digits 0 (decimal (x div 10)) = x div 10" by (intro less.IH) simp
    with False show ?thesis
      by (subst decimal_rec) (simp add: read_digits_append decimal_digits)
  qed
qed

lemma read_decimal [simp]:
  assumes "r = [] \<or> char_digit (hd r) = None"
  shows "read_digits 0 (decimal x @ r) = x"
proof -
  have "read_digits 0 (decimal x @ r) = read_digits x r"
    by (simp add: read_digits_append decimal_digits read_decimal_aux)
  with assms show ?thesis by (cases r) auto
qed

lemma decimal_inject [simp]: "decimal x = decimal y \<longleftrightarrow> x = y"
  by (metis read_decimal_aux)

lemma decimal_no: "char_digit c = None \<Longrightarrow> c \<notin> set (decimal x)"
  using decimal_digits by blast

section \<open>The concrete string\<close>

record kstring =
  ks_l :: u64
  ks_m :: u64
  ks_buf :: "char mem"
  ks_cap :: nat
  ks_oob :: bool

definition kstring_zero :: kstring where
  "kstring_zero = \<lparr> ks_l = 0, ks_m = 0, ks_buf = (\<lambda>_. NUL), ks_cap = 0, ks_oob = False \<rparr>"

definition kroundup32 :: "u64 \<Rightarrow> u64" where
  "kroundup32 x =
     (let x = x - 1; x = x OR drop_bit 1 x; x = x OR drop_bit 2 x; x = x OR drop_bit 4 x;
          x = x OR drop_bit 8 x; x = x OR drop_bit 16 x
      in x + 1)"

text \<open>
  The block the put functions share: set \<open>m\<close>, then \<open>realloc\<close>. When \<open>realloc\<close> fails,
  \<open>m\<close> has been raised although the buffer has not.
\<close>

definition ks_grow :: "(u64 \<Rightarrow> bool) \<Rightarrow> u64 \<Rightarrow> kstring \<Rightarrow> bool \<times> kstring" where
  "ks_grow alloc sz k =
     (let k = k\<lparr> ks_m := kroundup32 sz \<rparr>
      in if alloc (ks_m k) then (True, k\<lparr> ks_cap := unat (ks_m k) \<rparr>) else (False, k))"

definition ks_store :: "u64 \<Rightarrow> string \<Rightarrow> kstring \<Rightarrow> kstring" where
  "ks_store off xs k =
     k\<lparr> ks_buf := mem_copy (ks_buf k) (unat off) xs,
        ks_oob := (ks_oob k \<or> unat off + length xs > ks_cap k) \<rparr>"

definition ks_resize :: "(u64 \<Rightarrow> bool) \<Rightarrow> u64 \<Rightarrow> kstring \<Rightarrow> int \<times> kstring" where
  "ks_resize alloc sz k =
     (if ks_m k < sz then
        case ks_grow alloc sz k of (True, k) \<Rightarrow> (0, k) | (False, k) \<Rightarrow> (-1, k)
      else (0, k))"

definition ks_release :: "kstring \<Rightarrow> kstr \<times> kstring" where
  "ks_release k =
     ((if ks_cap k = 0 then None else Some (mem_read (ks_buf k) (unat (ks_l k)))),
      k\<lparr> ks_l := 0, ks_m := 0, ks_cap := 0 \<rparr>)"

text \<open>
  Appending \<open>xs\<close> and a terminator, the common shape of \<open>kputsn\<close>, \<open>kputc\<close>, \<open>kputuw\<close> and
  \<open>kputl\<close>: they differ in their result and in the \<open>slack\<close> of the test for room
  (\<open>kputc\<close> tests \<open>l + 1 >= m\<close>, the others \<open>l + n + 1 >= m\<close>).
\<close>

definition ks_append :: "(u64 \<Rightarrow> bool) \<Rightarrow> u64 \<Rightarrow> string \<Rightarrow> int \<Rightarrow> kstring \<Rightarrow> int \<times> kstring" where
  "ks_append alloc slack xs ret k =
     (let n = of_nat (length xs);
          (fine, k) = (if ks_l k + n + slack \<ge> ks_m k then ks_grow alloc (ks_l k + n + slack + 1) k
                       else (True, k))
      in if \<not> fine then (-1, k)
         else let k = ks_store (ks_l k) xs k;
                  k = k\<lparr> ks_l := ks_l k + n \<rparr>
              in (ret, ks_store (ks_l k) [NUL] k))"

definition kputsn :: "(u64 \<Rightarrow> bool) \<Rightarrow> string \<Rightarrow> nat \<Rightarrow> kstring \<Rightarrow> int \<times> kstring" where
  "kputsn alloc p l k = ks_append alloc 1 (take l p) (int l) k"

definition kputs :: "(u64 \<Rightarrow> bool) \<Rightarrow> string \<Rightarrow> kstring \<Rightarrow> int \<times> kstring" where
  "kputs alloc p k = kputsn alloc p (length (cstr p)) k"

definition kputc :: "(u64 \<Rightarrow> bool) \<Rightarrow> char \<Rightarrow> kstring \<Rightarrow> int \<times> kstring" where
  "kputc alloc c k = ks_append alloc 0 [c] (of_char c) k"

definition kputuw :: "(u64 \<Rightarrow> bool) \<Rightarrow> u32 \<Rightarrow> kstring \<Rightarrow> int \<times> kstring" where
  "kputuw alloc c k =
     (if c = 0 then kputc alloc (CHR ''0'') k else ks_append alloc 1 (decimal (unat c)) 0 k)"

definition kputw :: "(u64 \<Rightarrow> bool) \<Rightarrow> u32 \<Rightarrow> kstring \<Rightarrow> int \<times> kstring" where
  "kputw alloc c k =
     (let x = (if c <s 0 then - c else c);
          buf = digit_loop (unat x);
          buf = (if c <s 0 then buf @ ''-'' else buf)
      in ks_append alloc 1 (rev buf) 0 k)"

definition kputl :: "(u64 \<Rightarrow> bool) \<Rightarrow> u64 \<Rightarrow> kstring \<Rightarrow> int \<times> kstring" where
  "kputl alloc c k =
     (let x = (if c <s 0 then - c else c);
          buf = digit_loop (unat x);
          buf = (if c <s 0 then buf @ ''-'' else buf)
      in ks_append alloc 1 (rev buf) 0 k)"

text \<open>
  \<open>kvsprintf\<close> after the C library has formatted the arguments to \<open>text\<close>: a first
  \<open>vsnprintf\<close> into the space that is there, and after a \<open>realloc\<close> a second one if the text and its
  terminator did not fit. \<open>vsnprintf\<close> writes at most \<open>size - 1\<close> bytes and a terminator.
\<close>

definition ks_vsnprintf :: "string \<Rightarrow> u64 \<Rightarrow> kstring \<Rightarrow> kstring" where
  "ks_vsnprintf text sz k =
     (if sz = 0 then k else ks_store (ks_l k) (take (unat sz - 1) text @ [NUL]) k)"

definition kvsprintf :: "(u64 \<Rightarrow> bool) \<Rightarrow> string \<Rightarrow> kstring \<Rightarrow> int \<times> kstring" where
  "kvsprintf alloc text k =
     (let l = of_nat (length text);
          k = ks_vsnprintf text (ks_m k - ks_l k) k;
          k = (if l + 1 > ks_m k - ks_l k then
                 let k = snd (ks_grow alloc (ks_l k + l + 2) k)
                 in ks_vsnprintf text (ks_m k - ks_l k) k
               else k)
      in (int (length text), k\<lparr> ks_l := ks_l k + l \<rparr>))"

section \<open>Capacity\<close>

definition smear :: "u64 \<Rightarrow> u64" where
  "smear x = (let x = x OR drop_bit 1 x; x = x OR drop_bit 2 x; x = x OR drop_bit 4 x;
          x = x OR drop_bit 8 x; x = x OR drop_bit 16 x in x)"

lemma kroundup32_smear: "kroundup32 x = smear (x - 1) + 1"
  by (simp add: kroundup32_def smear_def Let_def)

definition reach :: "u64 \<Rightarrow> nat \<Rightarrow> nat \<Rightarrow> bool" where
  "reach y n i \<longleftrightarrow> (\<exists>j<n. bit y (i + j))"

lemma reach_step:
  assumes "\<forall>i. bit x i \<longleftrightarrow> reach y n i"
  shows "\<forall>i. bit (x OR drop_bit n x) i \<longleftrightarrow> reach y (n + n) i"
proof
  fix i
  have "reach y (n + n) i \<longleftrightarrow> reach y n i \<or> reach y n (n + i)"
  proof
    assume "reach y (n + n) i"
    then obtain j where j: "j < n + n" "bit y (i + j)" by (auto simp: reach_def)
    show "reach y n i \<or> reach y n (n + i)"
    proof (cases "j < n")
      case False
      with j have "j - n < n" "bit y (n + i + (j - n))" by (auto simp: algebra_simps)
      then show ?thesis unfolding reach_def by blast
    qed (use j in \<open>auto simp: reach_def\<close>)
  next
    assume "reach y n i \<or> reach y n (n + i)"
    then show "reach y (n + n) i"
    proof
      assume "reach y n (n + i)"
      then obtain j where "j < n" "bit y (n + i + j)" by (auto simp: reach_def)
      then have "n + j < n + n" "bit y (i + (n + j))" by (simp_all add: algebra_simps)
      then show ?thesis unfolding reach_def by blast
    next
      assume "reach y n i"
      then show ?thesis unfolding reach_def using trans_less_add1 by blast
    qed
  qed
  with assms show "bit (x OR drop_bit n x) i \<longleftrightarrow> reach y (n + n) i"
    by (simp add: bit_simps)
qed

lemma bit_smear: "bit (smear y) i \<longleftrightarrow> reach y 32 i"
proof -
  have 0: "\<forall>i. bit y i \<longleftrightarrow> reach y 1 i" by (simp add: reach_def)
  define y1 where "y1 = y OR drop_bit 1 y"
  define y2 where "y2 = y1 OR drop_bit 2 y1"
  define y3 where "y3 = y2 OR drop_bit 4 y2"
  define y4 where "y4 = y3 OR drop_bit 8 y3"
  have 1: "\<forall>i. bit y1 i \<longleftrightarrow> reach y 2 i" using reach_step [OF 0] by (simp add: y1_def numeral_2_eq_2)
  have 2: "\<forall>i. bit y2 i \<longleftrightarrow> reach y 4 i" using reach_step [OF 1] by (simp add: y2_def)
  have 3: "\<forall>i. bit y3 i \<longleftrightarrow> reach y 8 i" using reach_step [OF 2] by (simp add: y3_def)
  have 4: "\<forall>i. bit y4 i \<longleftrightarrow> reach y 16 i" using reach_step [OF 3] by (simp add: y4_def)
  have "smear y = y4 OR drop_bit 16 y4"
    by (simp only: smear_def Let_def y1_def y2_def y3_def y4_def)
  with reach_step [OF 4] show ?thesis by simp
qed

lemma bit_small: "unat (y :: u64) < 2 ^ k \<Longrightarrow> k \<le> i \<Longrightarrow> \<not> bit y i"
proof -
  assume "unat y < 2 ^ k" "k \<le> i"
  then have "unat y < 2 ^ i" by (meson less_le_trans one_le_numeral power_increasing)
  then have "\<not> bit (unat y) i" by (simp add: bit_iff_odd)
  then show ?thesis by (simp add: bit_unsigned_iff)
qed

lemma bit_top: "2 ^ k \<le> unat (y :: u64) \<Longrightarrow> unat y < 2 ^ Suc k \<Longrightarrow> bit y k"
proof -
  assume a: "2 ^ k \<le> unat y" "unat y < 2 ^ Suc k"
  have "unat y div 2 ^ k = 1" using a by (intro div_nat_eqI) auto
  then have "bit (unat y) k" by (simp add: bit_iff_odd)
  then show ?thesis by (simp add: bit_unsigned_iff)
qed

lemma least_pow2: "\<exists>k. (n::nat) \<le> 2 ^ k \<and> (1 < n \<longrightarrow> 0 < k \<and> 2 ^ (k - 1) < n) \<and> (n \<le> 1 \<longrightarrow> k = 0)"
proof -
  define k where "k = (LEAST k. n \<le> 2 ^ k)"
  have "\<exists>k. n \<le> 2 ^ k" by (meson less_exp less_imp_le)
  then have k: "n \<le> 2 ^ k" unfolding k_def by (rule LeastI_ex)
  have "1 < n \<longrightarrow> 0 < k \<and> 2 ^ (k - 1) < n"
  proof
    assume n: "1 < n"
    with k have "0 < k" by (cases k) auto
    moreover have "\<not> n \<le> 2 ^ (k - 1)"
      unfolding k_def by (rule not_less_Least) (use \<open>0 < k\<close> in \<open>simp add: k_def\<close>)
    ultimately show "0 < k \<and> 2 ^ (k - 1) < n" by simp
  qed
  moreover have "n \<le> 1 \<longrightarrow> k = 0" unfolding k_def by (simp add: Least_equality)
  ultimately show ?thesis using k by blast
qed

lemma smear_mask:
  assumes "0 < x" "x \<le> 2 ^ 32"
  obtains k where "smear (x - 1) = mask k" "unat x \<le> 2 ^ k" "k \<le> 32"
    "1 < unat x \<longrightarrow> 2 ^ (k - 1) < unat x"
proof -
  have ux: "unat (x - 1) = unat x - 1" using assms by (simp add: unat_minus_one)
  have le: "unat x \<le> 2 ^ 32" using assms(2) by (simp add: word_le_nat_alt)
  have pos: "0 < unat x" using assms(1) by (simp add: word_less_nat_alt)
  obtain k where k: "unat x \<le> 2 ^ k" "1 < unat x \<longrightarrow> 0 < k \<and> 2 ^ (k - 1) < unat x"
      "unat x \<le> 1 \<longrightarrow> k = 0"
    using least_pow2 [of "unat x"] by blast
  have k32: "k \<le> 32"
  proof (rule ccontr)
    assume "\<not> k \<le> 32"
    then have "(2::nat) ^ 32 \<le> 2 ^ (k - 1)" by (intro power_increasing) auto
    with k le \<open>\<not> k \<le> 32\<close> show False by (cases "1 < unat x") auto
  qed
  have "smear (x - 1) = mask k"
  proof (rule bit_word_eqI)
    fix i assume i: "i < LENGTH(64)"
    show "bit (smear (x - 1)) i = bit (mask k :: u64) i"
    proof (cases "i < k")
      case True
      then have "1 < unat x" using k by (cases "1 < unat x") auto
      with k have "bit (x - 1) (k - 1)" using ux pos True by (intro bit_top) auto
      then have "reach (x - 1) 32 i" using True k32
        unfolding reach_def by (intro exI [of _ "k - 1 - i"]) auto
      with True i show ?thesis by (simp add: bit_smear bit_mask_iff)
    next
      case False
      have "unat (x - 1) < 2 ^ k" using ux k(1) pos by linarith
      with False have "\<not> reach (x - 1) 32 i" by (auto simp: reach_def bit_small)
      with False show ?thesis by (simp add: bit_smear bit_mask_iff)
    qed
  qed
  with k k32 that show ?thesis by blast
qed

text \<open>
  The capacity that \<open>kroundup32\<close> chooses is the least power of two that is not
  smaller than the requested size, for requests up to \<open>2 ^ 32\<close>.
\<close>

theorem kroundup32_least_power:
  assumes "0 < x" "x \<le> 2 ^ 32"
  shows "\<exists>k\<le>32. kroundup32 x = 2 ^ k \<and> unat x \<le> 2 ^ k \<and> (1 < unat x \<longrightarrow> 2 ^ (k - 1) < unat x)"
proof -
  obtain k where "smear (x - 1) = mask k" "unat x \<le> 2 ^ k" "k \<le> 32"
      "1 < unat x \<longrightarrow> 2 ^ (k - 1) < unat x"
    using smear_mask [OF assms] by blast
  then show ?thesis by (auto simp: kroundup32_smear mask_eq_exp_minus_1)
qed

theorem kroundup32_least_power_witness:
  "\<exists>k\<le>32. kroundup32 100 = 2 ^ k \<and> unat (100 :: u64) \<le> 2 ^ k \<and>
     (1 < unat (100 :: u64) \<longrightarrow> 2 ^ (k - 1) < unat (100 :: u64))"
  by (rule kroundup32_least_power) simp_all

lemma kroundup32_bounds:
  assumes "0 < x" "unat x \<le> 2 ^ 32"
  shows "unat x \<le> unat (kroundup32 x)"
proof -
  from assms have "x \<le> 2 ^ 32" by (simp add: word_le_nat_alt)
  with assms(1) obtain k where k: "k \<le> 32" "kroundup32 x = 2 ^ k" "unat x \<le> 2 ^ k"
    using kroundup32_least_power by blast
  have "(2::nat) ^ k < 2 ^ 64" using k(1) by (intro power_strict_increasing) auto
  then have "unat (of_nat (2 ^ k) :: u64) = 2 ^ k" by (simp only: unat_of_nat) simp
  with k show ?thesis by simp
qed

section \<open>Refinement\<close>

text \<open>
  The invariant of a string: the capacity field is the number of bytes allocated, no
  store has left the allocation, and an allocated string is terminated inside it.
\<close>

definition kwf :: "kstring \<Rightarrow> bool" where
  "kwf k \<longleftrightarrow> \<not> ks_oob k \<and> unat (ks_m k) = ks_cap k \<and>
     (if ks_cap k = 0 then ks_l k = 0
      else unat (ks_l k) < ks_cap k \<and> ks_buf k (unat (ks_l k)) = NUL)"

definition kabs :: "kstring \<Rightarrow> kstr" where
  "kabs k = (if ks_cap k = 0 then None else Some (mem_read (ks_buf k) (unat (ks_l k))))"

lemma kwf_zero [simp]: "kwf kstring_zero" and kabs_zero [simp]: "kabs kstring_zero = None"
  by (simp_all add: kwf_def kabs_def kstring_zero_def)

lemma unat_sum_small: "unat (a :: u64) + unat b < 2 ^ 64 \<Longrightarrow> unat (a + b) = unat a + unat b"
  by (simp add: unat_word_ariths)

lemma ks_append_refines:
  assumes wf: "kwf k" and sl: "slack \<le> 1" and len: "0 < length xs + unat slack"
    and room: "unat (ks_l k) + length xs + 2 \<le> 2 ^ 31" and alloc: "\<And>n. alloc n"
  shows "\<exists>k'. ks_append alloc slack xs ret k = (ret, k') \<and> kwf k' \<and> kabs k' = kcat (kabs k) xs \<and>
    unat (ks_l k') = unat (ks_l k) + length xs"
proof -
  define n where "n = (of_nat (length xs) :: u64)"
  have un: "unat n = length xs" using room by (simp add: n_def unat_of_nat)
  have us: "unat slack \<le> 1" using sl by (simp add: word_le_nat_alt)
  have uln: "unat (ks_l k + n) = unat (ks_l k) + length xs"
    using room un by (subst unat_sum_small) auto
  have ulns: "unat (ks_l k + n + slack) = unat (ks_l k) + length xs + unat slack"
    using room us uln by (subst unat_sum_small) auto
  have uneed: "unat (ks_l k + n + slack + 1) = unat (ks_l k) + length xs + unat slack + 1"
    using room us ulns by (subst unat_sum_small) auto
  obtain k1 where k1: "(if ks_l k + n + slack \<ge> ks_m k then ks_grow alloc (ks_l k + n + slack + 1) k
        else (True, k)) = (True, k1)" "ks_l k1 = ks_l k" "ks_buf k1 = ks_buf k" "ks_oob k1 = ks_oob k"
      "unat (ks_m k1) = ks_cap k1" "unat (ks_l k) + length xs < ks_cap k1"
  proof (cases "ks_l k + n + slack \<ge> ks_m k")
    case True
    define m where "m = kroundup32 (ks_l k + n + slack + 1)"
    have "unat (ks_l k + n + slack + 1) \<le> unat m"
      unfolding m_def using room us uneed
      by (intro kroundup32_bounds) (auto simp: word_less_nat_alt)
    then show thesis using True uneed alloc
      by (intro that [of "k\<lparr> ks_m := m, ks_cap := unat m \<rparr>"]) (auto simp: ks_grow_def Let_def m_def)
  next
    case False
    then have "unat (ks_l k + n + slack) < unat (ks_m k)" by (simp add: word_less_nat_alt not_le)
    with False wf ulns show thesis by (intro that [of k]) (auto simp: kwf_def)
  qed
  define k2 where "k2 = ks_store (ks_l k + n) [NUL] ((ks_store (ks_l k) xs k1)\<lparr> ks_l := ks_l k + n \<rparr>)"
  have res: "ks_append alloc slack xs ret k = (ret, k2)"
    unfolding ks_append_def Let_def n_def [symmetric] k1(1) prod.case
    by (simp add: k2_def k1(2) ks_store_def)
  have cap: "0 < ks_cap k1" using k1(6) by simp
  have keep: "mem_read (mem_copy (mem_copy b l xs) (l + length xs) [NUL]) (l + length xs)
      = mem_read b l @ xs" for b :: "char mem" and l
    by (rule nth_equalityI) (auto simp: mem_copy_def nth_append)
  have nl: "ks_oob k = False" using wf by (simp add: kwf_def)
  have "kwf k2" using k1 cap uln nl by (auto simp: k2_def ks_store_def kwf_def mem_copy_def)
  moreover have "kabs k2 = kcat (kabs k) xs"
  proof -
    have "kabs k2 = Some (mem_read (ks_buf k) (unat (ks_l k)) @ xs)"
      using cap k1(3) uln keep by (simp add: k2_def ks_store_def kabs_def)
    also have "\<dots> = kcat (kabs k) xs"
      using wf by (auto simp: kcat_def kabs_def kwf_def mem_read_def split: if_splits)
    finally show ?thesis .
  qed
  moreover have "unat (ks_l k2) = unat (ks_l k) + length xs"
    using uln by (simp add: k2_def ks_store_def)
  ultimately show ?thesis using res by blast
qed


lemma kputsn_ok:
  assumes "kwf k" "unat (ks_l k) + length p + 2 \<le> 2 ^ 31"
  shows "\<exists>k'. kputsn (\<lambda>_. True) p (length p) k = (int (length p), k') \<and> kwf k' \<and>
    kabs k' = kcat (kabs k) p \<and> unat (ks_l k') = unat (ks_l k) + length p"
  using ks_append_refines [of k 1 p "\<lambda>_. True" "int (length p)"] assms by (simp add: kputsn_def)

text \<open>
  Both layers implement the buffer interface; what holds of a sequence of puts is
  proved once there.
\<close>

definition kroom :: "nat \<Rightarrow> kstring \<Rightarrow> bool" where
  "kroom r k \<longleftrightarrow> kwf k \<and> unat (ks_l k) + r + 2 \<le> 2 ^ 31"

definition kput :: "string \<Rightarrow> kstring \<Rightarrow> kstring" where
  "kput p k = snd (kputsn (\<lambda>_. True) p (length p) k)"

interpretation concrete: byte_buffer kput kabs kroom
proof unfold_locales
  fix p :: string and r k
  assume "kroom (length p + r) k"
  then obtain k' where "kputsn (\<lambda>_. True) p (length p) k = (int (length p), k')" "kwf k'"
      "kabs k' = kcat (kabs k) p" "unat (ks_l k') = unat (ks_l k) + length p"
    using kputsn_ok [of k p] by (auto simp: kroom_def)
  then show "kabs (kput p k) = Some ((case kabs k of None \<Rightarrow> [] | Some d \<Rightarrow> d) @ p)"
    and "kroom r (kput p k)" if "kroom (length p + r) k"
    using that by (auto simp: kput_def kcat_def kdata_def kroom_def)
qed

interpretation abstract: byte_buffer "\<lambda>p k. kcat k p" "\<lambda>k. k" "\<lambda>_ _. True"
  by unfold_locales (auto simp: kcat_def kdata_def)

text \<open>
  C37: \<open>kputsn\<close> refines appending to the abstract string: starting from a well formed
  string, as long as the length stays below \<open>2 ^ 31\<close> and \<open>realloc\<close> succeeds, it returns
  the number of bytes, stays inside the allocation, keeps the string well formed and
  terminated, and the content is the old content followed by the new bytes.
\<close>

theorem kputsn_refines_append:
  assumes "kwf k" and "unat (ks_l k) + length p + 2 \<le> 2 ^ 31"
  shows "fst (kputsn (\<lambda>_. True) p (length p) k) = int (length p) \<and>
    kwf (snd (kputsn (\<lambda>_. True) p (length p) k)) \<and>
    kabs (snd (kputsn (\<lambda>_. True) p (length p) k)) = kcat (kabs k) p"
  using kputsn_ok [OF assms] by auto

theorem kputsn_refines_append_witness:
  "fst (kputsn (\<lambda>_. True) ''HEAD '' (length ''HEAD '') kstring_zero) = int (length ''HEAD '') \<and>
   kwf (snd (kputsn (\<lambda>_. True) ''HEAD '' (length ''HEAD '') kstring_zero)) \<and>
   kabs (snd (kputsn (\<lambda>_. True) ''HEAD '' (length ''HEAD '') kstring_zero)) = kcat (kabs kstring_zero) ''HEAD ''"
  by (rule kputsn_refines_append) (rule kwf_zero, simp add: kstring_zero_def)

lemma kputs_kputsn: "kputs alloc p k = kputsn alloc (cstr p) (length (cstr p)) k"
proof -
  have "take (length (cstr p)) p = cstr p"
    by (simp add: cstr_def) (metis takeWhile_eq_take)
  then show ?thesis by (simp add: kputs_def kputsn_def)
qed

lemma sint_uint_cases: "sint (c :: u64) = uint c \<or> sint c = uint c - 2 ^ 64"
proof -
  have "sint c = take_bit 64 (uint c) - 2 ^ 64 * of_bool (bit (uint c) 63)"
    by (simp add: sint_uint signed_take_bit_eq_take_bit_minus)
  moreover have "take_bit 64 (uint c) = uint c" by (rule take_bit_int_eq_self) (use uint_bounded [of c] in auto)
  ultimately show ?thesis by auto
qed

lemma kputl_digits:
  "kputl alloc c k = ks_append alloc 1 (decimal_int (sint c)) 0 k"
proof -
  have neg: "unat (- c) = nat (- sint c)" if "c <s 0"
  proof -
    have m: "sint c < 0" using that by (simp add: word_sless_alt)
    then have si: "sint c = uint c - 2 ^ 64"
      using sint_uint_cases [of c] uint_ge_0 [of c] by linarith
    have "0 < uint c" using m si sint_ge [of c] by simp
    then have "(- uint c) mod 2 ^ 64 = 2 ^ 64 - uint c"
      using uint_bounded [of c] by (simp add: zmod_zminus1_eq_if)
    then have "uint (- c) = - sint c" using si by (simp add: uint_word_ariths)
    then show ?thesis by (simp add: unat_eq_nat_uint)
  qed
  have pos: "unat c = nat (sint c)" if "\<not> c <s 0"
  proof -
    have "\<not> sint c < 0" using that by (simp add: word_sless_alt)
    then have "sint c = uint c" using sint_uint_cases [of c] uint_bounded [of c] by auto
    then show ?thesis by (simp only: unat_eq_nat_uint)
  qed
  have sg: "c <s 0 \<longleftrightarrow> sint c < 0" by (simp add: word_sless_alt)
  show ?thesis
  proof (cases "c <s 0")
    case True
    from neg [OF True] True sg show ?thesis
      unfolding kputl_def Let_def decimal_int_def decimal_def by simp
  next
    case False
    from pos [OF False] False sg show ?thesis
      unfolding kputl_def Let_def decimal_int_def decimal_def by simp
  qed
qed

text \<open>
  \<open>kputl\<close> appends the decimal rendering of its argument read as a signed 64-bit
  number, minus sign included, for every value down to the smallest one (where
  negating wraps around), and reading the digits back gives the absolute value.
\<close>

theorem kputl_prints_signed:
  assumes "kwf k" and "unat (ks_l k) + length (decimal_int (sint c)) + 2 \<le> 2 ^ 31"
  shows "fst (kputl (\<lambda>_. True) c k) = 0 \<and>
    kabs (snd (kputl (\<lambda>_. True) c k)) = kcat (kabs k) (decimal_int (sint c)) \<and>
    read_digits 0 (if sint c < 0 then tl (decimal_int (sint c)) else decimal_int (sint c))
      = nat \<bar>sint c\<bar>"
proof -
  have "\<exists>k'. kputl (\<lambda>_. True) c k = (0, k') \<and> kabs k' = kcat (kabs k) (decimal_int (sint c))"
    unfolding kputl_digits using ks_append_refines [of k 1 "decimal_int (sint c)" "\<lambda>_. True" 0] assms
    by auto
  then show ?thesis by (auto simp: decimal_int_def read_decimal_aux)
qed

theorem kputl_prints_signed_witness:
  "fst (kputl (\<lambda>_. True) (- 42) kstring_zero) = 0 \<and>
   kabs (snd (kputl (\<lambda>_. True) (- 42) kstring_zero)) = kcat (kabs kstring_zero) (decimal_int (sint (- 42 :: u64))) \<and>
   read_digits 0 (if sint (- 42 :: u64) < 0 then tl (decimal_int (sint (- 42 :: u64)))
     else decimal_int (sint (- 42 :: u64))) = nat \<bar>sint (- 42 :: u64)\<bar>"
  by (rule kputl_prints_signed)
    (rule kwf_zero, simp add: kstring_zero_def decimal_int_def decimal_rec)

text \<open>
  After a failed \<open>realloc\<close> the string is no longer safe to use: \<open>kputsn\<close> reports
  the failure, but it has already raised the capacity field, and the next \<open>kputsn\<close>
  that fits the raised capacity stores outside the allocation.
\<close>

theorem kputsn_after_failed_realloc:
  "\<exists>k1. kputsn (\<lambda>_. False) ''abc'' 3 kstring_zero = (-1, k1) \<and> ks_cap k1 = 0 \<and> ks_m k1 = 8 \<and>
        ks_oob (snd (kputsn (\<lambda>_. False) ''abc'' 3 k1))"
proof -
  have r: "kroundup32 5 = 8" by (simp add: kroundup32_def Let_def)
  show ?thesis
    by (simp add: kputsn_def ks_append_def ks_grow_def ks_store_def kstring_zero_def Let_def r)
qed

section \<open>src/src/util.c\<close>

definition str_create :: "string option \<Rightarrow> nat \<Rightarrow> kstr" where
  "str_create data len = (case data of None \<Rightarrow> None | Some d \<Rightarrow> kcat None (take len d))"

text \<open>
  \<open>str_cat_xfer\<close> appends the delimiter, if there is one, and the second string, whose
  structure it frees; the result is the first string.
\<close>

definition str_cat_xfer :: "kstr \<Rightarrow> kstr \<Rightarrow> string option \<Rightarrow> kstr" where
  "str_cat_xfer s1 s2 delimiter =
     (let s1 = (case delimiter of None \<Rightarrow> s1 | Some d \<Rightarrow> kcat s1 (cstr d))
      in kcat s1 (kdata s2))"

text \<open>
  What the cleanup functions free, as the list of freed blocks: nothing for a \<open>NULL\<close>
  pointer, else the buffer (\<open>free(NULL)\<close> does nothing) and the structure.
\<close>

datatype freed = FreeBuffer | FreeStruct | FreePtr

definition str_cleanup :: "kstr option \<Rightarrow> freed list" where
  "str_cleanup p =
     (case p of None \<Rightarrow> []
      | Some None \<Rightarrow> [FreeStruct]
      | Some (Some d) \<Rightarrow> [FreeBuffer, FreeStruct])"

definition free_ptr :: "'a option \<Rightarrow> freed list" where
  "free_ptr p = (case p of None \<Rightarrow> [] | Some _ \<Rightarrow> [FreePtr])"

lemma kdata_str_create [simp]:
  "kdata (str_create None n) = []" "kdata (str_create (Some d) n) = take n d"
  by (simp_all add: str_create_def)

lemma kdata_str_cat_xfer [simp]:
  "kdata (str_cat_xfer s1 s2 d) =
     kdata s1 @ (case d of None \<Rightarrow> [] | Some x \<Rightarrow> cstr x) @ kdata s2"
  by (simp add: str_cat_xfer_def Let_def split: option.splits)

end
