(* ===== verification/Msgpack.thy ===== *)
theory Msgpack
  imports Framing KString
begin

text \<open>
  The message layer, \<open>src/src/msgpack_handler.c\<close> with \<open>msgpack_handler.h\<close> and
  \<open>codes.h\<close>. The msgpack library is not part of the repository: what it parses is a value of
  \<open>msgpack_object\<close>, the object type of its documented interface, and the parser
  \<open>unpack\<close> and the encoding \<open>enc\<close> of one packing call are arguments of the functions
  that use them. A response is the sequence of packing calls the code makes.
\<close>

unbundle bit_operations_syntax

section \<open>Codes\<close>

datatype msgkey = MSGKEY_ID_UINT | MSGKEY_CMD_UINT | MSGKEY_PWD_STR

definition ERR_INVALID_KEY_TYPE :: int where "ERR_INVALID_KEY_TYPE = 1"
definition ERR_INVALID_KEY_VAL_TYPE :: int where "ERR_INVALID_KEY_VAL_TYPE = 2"
definition ERR_INVALID_CMD_VAL_TYPE :: int where "ERR_INVALID_CMD_VAL_TYPE = 3"
definition ERR_INVALID_PWD_VAL_TYPE :: int where "ERR_INVALID_PWD_VAL_TYPE = 4"
definition ERR_UNEXPECTED_MSG :: int where "ERR_UNEXPECTED_MSG = 5"

lemmas err_defs = ERR_INVALID_KEY_TYPE_def ERR_INVALID_KEY_VAL_TYPE_def
  ERR_INVALID_CMD_VAL_TYPE_def ERR_INVALID_PWD_VAL_TYPE_def ERR_UNEXPECTED_MSG_def

text \<open>
  \<open>switch ((enum MSGKEY) key.via.u64)\<close>: the cast to the enumeration, which is an
  \<open>unsigned int\<close>, keeps the low 32 bits. A value that is no enumerator selects no
  case.
\<close>

definition msgkey_of :: "u64 \<Rightarrow> msgkey option" where
  "msgkey_of u =
     (let k = (ucast u :: u32)
      in if k = 0 then Some MSGKEY_ID_UINT else if k = 1 then Some MSGKEY_CMD_UINT
         else if k = 2 then Some MSGKEY_PWD_STR else None)"

definition is_git_status :: "u64 \<Rightarrow> bool" where
  "is_git_status cmd \<longleftrightarrow> (ucast cmd :: u32) = 1"

datatype msgpack_object =
    MP_NIL
  | MP_BOOLEAN bool
  | MP_POSITIVE_INTEGER u64
  | MP_NEGATIVE_INTEGER u64
  | MP_FLOAT u64
  | MP_STR string
  | MP_ARRAY "msgpack_object list"
  | MP_MAP "(msgpack_object \<times> msgpack_object) list"
  | MP_BIN string
  | MP_EXT "8 word" string

section \<open>Requests\<close>

text \<open>
  The locals of \<open>msgpack_handler_recv\<close>: \<open>pwd\<close> is \<open>NULL\<close> (\<open>None\<close>) or a string;
  \<open>lost\<close> collects strings that are overwritten without being freed.
\<close>

record recv_vars =
  rv_id :: u64
  rv_cmd :: u64
  rv_pwd :: "kstr option"
  rv_lost :: "kstr list"

definition init_vars :: recv_vars where
  "init_vars = \<lparr> rv_id = 0, rv_cmd = 0, rv_pwd = None, rv_lost = [] \<rparr>"

fun recv_entry :: "recv_vars \<Rightarrow> msgpack_object \<times> msgpack_object \<Rightarrow> int + recv_vars" where
  "recv_entry v (MP_POSITIVE_INTEGER k, val) =
     (case msgkey_of k of
        Some MSGKEY_ID_UINT \<Rightarrow>
          (case val of MP_POSITIVE_INTEGER u \<Rightarrow> Inr (v\<lparr> rv_id := u \<rparr>)
           | _ \<Rightarrow> Inl ERR_INVALID_KEY_VAL_TYPE)
      | Some MSGKEY_CMD_UINT \<Rightarrow>
          (case val of MP_POSITIVE_INTEGER u \<Rightarrow> Inr (v\<lparr> rv_cmd := u \<rparr>)
           | _ \<Rightarrow> Inl ERR_INVALID_CMD_VAL_TYPE)
      | Some MSGKEY_PWD_STR \<Rightarrow>
          (case val of
             MP_STR s \<Rightarrow> Inr (v\<lparr> rv_lost := rv_lost v @ (case rv_pwd v of None \<Rightarrow> [] | Some p \<Rightarrow> [p]),
                                 rv_pwd := Some (str_create (Some s) (length s)) \<rparr>)
           | _ \<Rightarrow> Inl ERR_INVALID_PWD_VAL_TYPE)
      | None \<Rightarrow> Inr v)"
| "recv_entry v (_, val) = Inl ERR_INVALID_KEY_TYPE"

text \<open>The loop over the map: the locals at the return, and the error code if it returned early.\<close>

fun recv_entries :: "recv_vars \<Rightarrow> (msgpack_object \<times> msgpack_object) list \<Rightarrow> int option \<times> recv_vars" where
  "recv_entries v [] = (None, v)"
| "recv_entries v (e # es) =
     (case recv_entry v e of Inl err \<Rightarrow> (Some err, v) | Inr v' \<Rightarrow> recv_entries v' es)"

text \<open>
  The outcome: the returned code, the call of \<open>git_handler_queue_git_status\<close> if one was made (its \<open>id\<close>
  and \<open>pwd\<close>, whose ownership goes with it), the string the cleanup attribute frees, and the
  strings nobody frees.
\<close>

record recv_result =
  rr_ret :: int
  rr_call :: "(u64 \<times> kstr option) option"
  rr_freed :: "kstr option"
  rr_lost :: "kstr list"

definition msgpack_handler_recv :: "(byte list \<Rightarrow> msgpack_object option) \<Rightarrow> byte list \<Rightarrow> recv_result" where
  "msgpack_handler_recv unpack data =
     (case unpack data of
        None \<Rightarrow> \<lparr> rr_ret = -1, rr_call = None, rr_freed = None, rr_lost = [] \<rparr>
      | Some (MP_MAP es) \<Rightarrow>
          (case recv_entries init_vars es of
             (Some err, v) \<Rightarrow>
               \<lparr> rr_ret = err, rr_call = None, rr_freed = rv_pwd v, rr_lost = rv_lost v \<rparr>
           | (None, v) \<Rightarrow>
               if rv_id v \<noteq> 0 \<and> rv_cmd v \<noteq> 0 \<and> is_git_status (rv_cmd v)
               then \<lparr> rr_ret = ERR_UNEXPECTED_MSG, rr_call = Some (rv_id v, rv_pwd v),
                      rr_freed = None, rr_lost = rv_lost v \<rparr>
               else \<lparr> rr_ret = ERR_UNEXPECTED_MSG, rr_call = None, rr_freed = rv_pwd v,
                      rr_lost = rv_lost v \<rparr>)
      | Some _ \<Rightarrow> \<lparr> rr_ret = -1, rr_call = None, rr_freed = None, rr_lost = [] \<rparr>)"

section \<open>Responses\<close>

record magit_res =
  res_id :: u64
  git_root :: "kstr option"
  rev_head :: "kstr option"
  list_z :: "kstr option"
  branch :: "kstr option"
  upstream_branch :: "kstr option"
  head_log_line :: "kstr option"
  upstream_subj :: "kstr option"
  tag_desc :: "kstr option"
  opt_tag_desc_head :: "kstr option"
  version :: "kstr option"
  worktree_porcelain :: "kstr option"
  dot_git_dir :: "kstr option"
  config_status_show_untracked_files :: "kstr option"
  status :: "kstr option"
  diff :: "kstr option"
  staged :: "kstr option"
  is_bare :: u64
  stash :: "kstr option"
  branches :: "kstr option"
  revision_by_idx :: "kstr option"
  logs :: "kstr option"
  rev_short_head :: "kstr option"
  tag_master :: "kstr option"
  tag_origin_master :: "kstr option"
  origin_head :: "kstr option"
  tag_origin_head :: "kstr option"
  upstream_branch_master :: "kstr option"

datatype magit_res_key =
    MAGIT_RES_KEY_ID | MAGIT_RES_KEY_GIT_ROOT | MAGIT_RES_KEY_REV_HEAD
  | MAGIT_RES_KEY_MAGIT_EXTENSION | MAGIT_RES_KEY_LIST_Z | MAGIT_RES_KEY_BRANCH
  | MAGIT_RES_KEY_HEAD_LOG_LINE | MAGIT_RES_KEY_UPSTREAM_BRANCH | MAGIT_RES_KEY_UPSTREAM_SUBJ
  | MAGIT_RES_KEY_TAG_DESC | MAGIT_RES_KEY_OPT_TAG_DESC_HEAD | MAGIT_RES_KEY_VERSION
  | MAGIT_RES_KEY_WORKTREE_PORCELAIN | MAGIT_RES_KEY_DOT_GIT_DIR
  | MAGIT_RES_KEY_CONFIG_STATUS_SHOW_UNTRACKED_FILES | MAGIT_RES_KEY_STATUS
  | MAGIT_RES_KEY_DIFF | MAGIT_RES_KEY_STAGED | MAGIT_RES_KEY_IS_BARE | MAGIT_RES_KEY_STASH
  | MAGIT_RES_KEY_BRANCHES | MAGIT_RES_KEY_REV_IDX | MAGIT_RES_KEY_LOGS
  | MAGIT_RES_KEY_REV_SHORT_HEAD | MAGIT_RES_KEY_TAG_MASTER | MAGIT_RES_KEY_TAG_ORIGIN_MASTER
  | MAGIT_RES_KEY_ORIGIN_HEAD | MAGIT_RES_KEY_TAG_ORIGIN_HEAD | MAGIT_RES_KEY_UPSTREAM_BRANCH_MASTER

text \<open>The value of an enumerator.\<close>

fun key_code :: "magit_res_key \<Rightarrow> u32" where
  "key_code MAGIT_RES_KEY_ID = 0"
| "key_code MAGIT_RES_KEY_GIT_ROOT = 1"
| "key_code MAGIT_RES_KEY_REV_HEAD = 2"
| "key_code MAGIT_RES_KEY_MAGIT_EXTENSION = 3"
| "key_code MAGIT_RES_KEY_LIST_Z = 4"
| "key_code MAGIT_RES_KEY_BRANCH = 5"
| "key_code MAGIT_RES_KEY_HEAD_LOG_LINE = 6"
| "key_code MAGIT_RES_KEY_UPSTREAM_BRANCH = 7"
| "key_code MAGIT_RES_KEY_UPSTREAM_SUBJ = 8"
| "key_code MAGIT_RES_KEY_TAG_DESC = 9"
| "key_code MAGIT_RES_KEY_OPT_TAG_DESC_HEAD = 10"
| "key_code MAGIT_RES_KEY_VERSION = 11"
| "key_code MAGIT_RES_KEY_WORKTREE_PORCELAIN = 12"
| "key_code MAGIT_RES_KEY_DOT_GIT_DIR = 13"
| "key_code MAGIT_RES_KEY_CONFIG_STATUS_SHOW_UNTRACKED_FILES = 14"
| "key_code MAGIT_RES_KEY_STATUS = 15"
| "key_code MAGIT_RES_KEY_DIFF = 16"
| "key_code MAGIT_RES_KEY_STAGED = 17"
| "key_code MAGIT_RES_KEY_IS_BARE = 18"
| "key_code MAGIT_RES_KEY_STASH = 19"
| "key_code MAGIT_RES_KEY_BRANCHES = 20"
| "key_code MAGIT_RES_KEY_REV_IDX = 21"
| "key_code MAGIT_RES_KEY_LOGS = 22"
| "key_code MAGIT_RES_KEY_REV_SHORT_HEAD = 23"
| "key_code MAGIT_RES_KEY_TAG_MASTER = 24"
| "key_code MAGIT_RES_KEY_TAG_ORIGIN_MASTER = 25"
| "key_code MAGIT_RES_KEY_ORIGIN_HEAD = 26"
| "key_code MAGIT_RES_KEY_TAG_ORIGIN_HEAD = 27"
| "key_code MAGIT_RES_KEY_UPSTREAM_BRANCH_MASTER = 28"

text \<open>
  The packing calls: \<open>msgpack_pack_map\<close>, \<open>msgpack_pack_int\<close> (its argument is a C
  \<open>int\<close>), \<open>msgpack_pack_str\<close> with a length and \<open>msgpack_pack_str_body\<close>.
\<close>

datatype pack_op = PackMap nat | PackInt u32 | PackStr nat | PackStrBody string

definition append_key_val_str :: "magit_res_key \<Rightarrow> kstr option \<Rightarrow> pack_op list" where
  "append_key_val_str key val =
     PackInt (key_code key) #
     (case val of
        Some k \<Rightarrow> [PackStr (length (kdata k)), PackStrBody (kdata k)]
      | None \<Rightarrow> [PackStr 0])"

text \<open>The value is a \<open>uint64_t\<close> handed to \<open>msgpack_pack_int\<close>.\<close>

definition append_key_val_int :: "magit_res_key \<Rightarrow> u64 \<Rightarrow> pack_op list" where
  "append_key_val_int key val = [PackInt (key_code key), PackInt (ucast val)]"

definition msgpack_handler_buf_create :: "magit_res \<Rightarrow> pack_op list" where
  "msgpack_handler_buf_create res =
     [PackMap 28]
     @ append_key_val_int MAGIT_RES_KEY_ID (res_id res)
     @ append_key_val_str MAGIT_RES_KEY_GIT_ROOT (git_root res)
     @ append_key_val_str MAGIT_RES_KEY_REV_HEAD (rev_head res)
     @ append_key_val_str MAGIT_RES_KEY_LIST_Z (list_z res)
     @ append_key_val_str MAGIT_RES_KEY_BRANCH (branch res)
     @ append_key_val_str MAGIT_RES_KEY_HEAD_LOG_LINE (head_log_line res)
     @ append_key_val_str MAGIT_RES_KEY_UPSTREAM_BRANCH (upstream_branch res)
     @ append_key_val_str MAGIT_RES_KEY_UPSTREAM_SUBJ (upstream_subj res)
     @ append_key_val_str MAGIT_RES_KEY_TAG_DESC (tag_desc res)
     @ append_key_val_str MAGIT_RES_KEY_OPT_TAG_DESC_HEAD (opt_tag_desc_head res)
     @ append_key_val_str MAGIT_RES_KEY_VERSION (version res)
     @ append_key_val_str MAGIT_RES_KEY_WORKTREE_PORCELAIN (worktree_porcelain res)
     @ append_key_val_str MAGIT_RES_KEY_DOT_GIT_DIR (dot_git_dir res)
     @ append_key_val_str MAGIT_RES_KEY_CONFIG_STATUS_SHOW_UNTRACKED_FILES
         (config_status_show_untracked_files res)
     @ append_key_val_str MAGIT_RES_KEY_STATUS (status res)
     @ append_key_val_str MAGIT_RES_KEY_DIFF (diff res)
     @ append_key_val_str MAGIT_RES_KEY_STAGED (staged res)
     @ append_key_val_int MAGIT_RES_KEY_IS_BARE (is_bare res)
     @ append_key_val_str MAGIT_RES_KEY_STASH (stash res)
     @ append_key_val_str MAGIT_RES_KEY_BRANCHES (branches res)
     @ append_key_val_str MAGIT_RES_KEY_REV_IDX (revision_by_idx res)
     @ append_key_val_str MAGIT_RES_KEY_LOGS (logs res)
     @ append_key_val_str MAGIT_RES_KEY_REV_SHORT_HEAD (rev_short_head res)
     @ append_key_val_str MAGIT_RES_KEY_TAG_MASTER (tag_master res)
     @ append_key_val_str MAGIT_RES_KEY_TAG_ORIGIN_MASTER (tag_origin_master res)
     @ append_key_val_str MAGIT_RES_KEY_ORIGIN_HEAD (origin_head res)
     @ append_key_val_str MAGIT_RES_KEY_TAG_ORIGIN_HEAD (tag_origin_head res)
     @ append_key_val_str MAGIT_RES_KEY_UPSTREAM_BRANCH_MASTER (upstream_branch_master res)"

text \<open>
  What goes to stdout: the four header bytes, then the packed bytes. \<open>enc\<close> gives the
  bytes the library appends to the buffer for one packing call.
\<close>

definition msgpack_handler_send :: "(pack_op \<Rightarrow> byte list) \<Rightarrow> magit_res \<Rightarrow> byte list" where
  "msgpack_handler_send enc res =
     (let msg = concat (map enc (msgpack_handler_buf_create res))
      in frame_header (of_nat (length msg)) @ msg)"

text \<open>
  \<open>print_msgpack_bytes\<close>, the debugging printer: the text it writes to stdout.
\<close>

definition print_key :: "msgpack_object \<Rightarrow> string" where
  "print_key key =
     (case key of MP_POSITIVE_INTEGER u \<Rightarrow> ''key: '' @ decimal (unat u) @ '', '' | _ \<Rightarrow> [])"

definition print_val :: "msgpack_object \<Rightarrow> string" where
  "print_val val =
     (case val of
        MP_POSITIVE_INTEGER u \<Rightarrow> ''value: '' @ decimal (unat u) @ [LF]
      | MP_STR s \<Rightarrow> ''value: '' @ cstr s @ [LF]
      | _ \<Rightarrow> ''unsupported value type'' @ [LF])"

definition print_msgpack_bytes :: "(byte list \<Rightarrow> msgpack_object option) \<Rightarrow> byte list \<Rightarrow> string" where
  "print_msgpack_bytes unpack data =
     (case unpack data of
        None \<Rightarrow> ''Failed to unpack'' @ [LF]
      | Some (MP_MAP es) \<Rightarrow> concat (map (\<lambda>(key, val). print_key key @ print_val val) es)
      | Some _ \<Rightarrow> ''Expected a map'' @ [LF])"

section \<open>Requests: what is dispatched\<close>

text \<open>
  The specification of a request map: the first ill-typed entry decides the error;
  without one, the last entry of each key decides its value.
\<close>

fun entry_error :: "msgpack_object \<times> msgpack_object \<Rightarrow> int option" where
  "entry_error (MP_POSITIVE_INTEGER k, val) =
     (case (msgkey_of k, val) of
        (None, _) \<Rightarrow> None
      | (Some MSGKEY_ID_UINT, MP_POSITIVE_INTEGER _) \<Rightarrow> None
      | (Some MSGKEY_ID_UINT, _) \<Rightarrow> Some 2
      | (Some MSGKEY_CMD_UINT, MP_POSITIVE_INTEGER _) \<Rightarrow> None
      | (Some MSGKEY_CMD_UINT, _) \<Rightarrow> Some 3
      | (Some MSGKEY_PWD_STR, MP_STR _) \<Rightarrow> None
      | (Some MSGKEY_PWD_STR, _) \<Rightarrow> Some 4)"
| "entry_error (_, val) = Some 1"

fun first_error :: "(msgpack_object \<times> msgpack_object) list \<Rightarrow> int option" where
  "first_error [] = None"
| "first_error (e # es) = (case entry_error e of Some err \<Rightarrow> Some err | None \<Rightarrow> first_error es)"

definition uint_of :: "msgkey \<Rightarrow> msgpack_object \<times> msgpack_object \<Rightarrow> u64 option" where
  "uint_of key e =
     (case e of
        (MP_POSITIVE_INTEGER k, MP_POSITIVE_INTEGER u) \<Rightarrow> if msgkey_of k = Some key then Some u else None
      | _ \<Rightarrow> None)"

definition str_of :: "msgkey \<Rightarrow> msgpack_object \<times> msgpack_object \<Rightarrow> string option" where
  "str_of key e =
     (case e of
        (MP_POSITIVE_INTEGER k, MP_STR s) \<Rightarrow> if msgkey_of k = Some key then Some s else None
      | _ \<Rightarrow> None)"

definition last_val :: "('e \<Rightarrow> 'v option) \<Rightarrow> 'v \<Rightarrow> 'e list \<Rightarrow> 'v" where
  "last_val f d es = foldl (\<lambda>v e. case f e of None \<Rightarrow> v | Some u \<Rightarrow> u) d es"

lemma last_val_simps [simp]:
  "last_val f d [] = d"
  "last_val f d (e # es) = last_val f (case f e of None \<Rightarrow> d | Some u \<Rightarrow> u) es"
  by (simp_all add: last_val_def)

lemma recv_entry_error: "recv_entry v e = Inl err \<longleftrightarrow> entry_error e = Some err"
  by (cases e rule: entry_error.cases)
    (auto simp: err_defs split: option.splits msgkey.splits msgpack_object.splits)

lemma recv_entry_step:
  assumes "recv_entry v e = Inr v'"
  shows "rv_id v' = (case uint_of MSGKEY_ID_UINT e of None \<Rightarrow> rv_id v | Some u \<Rightarrow> u) \<and>
    rv_cmd v' = (case uint_of MSGKEY_CMD_UINT e of None \<Rightarrow> rv_cmd v | Some u \<Rightarrow> u) \<and>
    rv_pwd v' = (case str_of MSGKEY_PWD_STR e of None \<Rightarrow> rv_pwd v | Some s \<Rightarrow> Some (Some s)) \<and>
    length (rv_lost v') = length (rv_lost v) +
      (if str_of MSGKEY_PWD_STR e \<noteq> None \<and> rv_pwd v \<noteq> None then 1 else 0)"
proof (cases e rule: entry_error.cases)
  case (1 k val)
  with assms show ?thesis
    by (cases val)
      (auto simp: str_create_def kcat_def uint_of_def str_of_def split: option.splits msgkey.splits)
qed (use assms in auto)

lemma recv_entries_error: "fst (recv_entries v es) = first_error es"
proof (induction es arbitrary: v)
  case (Cons e es)
  show ?case
  proof (cases "recv_entry v e")
    case (Inl err)
    then have "entry_error e = Some err" using recv_entry_error by blast
    with Inl show ?thesis by simp
  next
    case (Inr v')
    then have "entry_error e = None" using recv_entry_error [of v e] by (cases "entry_error e") auto
    with Inr Cons.IH show ?thesis by simp
  qed
qed simp

lemma recv_entries_values:
  "first_error es = None \<Longrightarrow> recv_entries v es = (None, v') \<Longrightarrow>
   rv_id v' = last_val (uint_of MSGKEY_ID_UINT) (rv_id v) es \<and>
   rv_cmd v' = last_val (uint_of MSGKEY_CMD_UINT) (rv_cmd v) es \<and>
   rv_pwd v' = last_val (\<lambda>e. map_option (\<lambda>s. Some (Some s)) (str_of MSGKEY_PWD_STR e)) (rv_pwd v) es"
proof (induction es arbitrary: v)
  case (Cons e es)
  then have "entry_error e = None" by (auto split: option.splits)
  then obtain v1 where v1: "recv_entry v e = Inr v1"
    using recv_entry_error [of v e] by (cases "recv_entry v e") auto
  note step = recv_entry_step [OF v1]
  have "first_error es = None" using Cons.prems(1) by (auto split: option.splits)
  from Cons.IH [OF this, of v1] Cons.prems(2) v1 step show ?case
    by (auto split: option.splits)
qed auto

lemma recv_entries_lost:
  "recv_entries v es = (r, v') \<Longrightarrow> first_error es = None \<Longrightarrow>
   length (rv_lost v') + (if rv_pwd v' = None then 0 else 1) =
   length (rv_lost v) + (if rv_pwd v = None then 0 else 1) +
   length (filter (\<lambda>e. str_of MSGKEY_PWD_STR e \<noteq> None) es)"
proof (induction es arbitrary: v)
  case (Cons e es)
  then have "entry_error e = None" by (auto split: option.splits)
  then obtain v1 where v1: "recv_entry v e = Inr v1"
    using recv_entry_error [of v e] by (cases "recv_entry v e") auto
  note step = recv_entry_step [OF v1]
  have "first_error es = None" using Cons.prems(2) by (auto split: option.splits)
  from Cons.IH [of v1, OF _ this] Cons.prems(1) v1 step show ?case
    by (auto split: option.splits if_splits)
qed auto

definition last_id :: "(msgpack_object \<times> msgpack_object) list \<Rightarrow> u64" where
  "last_id es = last_val (uint_of MSGKEY_ID_UINT) 0 es"

definition last_cmd :: "(msgpack_object \<times> msgpack_object) list \<Rightarrow> u64" where
  "last_cmd es = last_val (uint_of MSGKEY_CMD_UINT) 0 es"

definition last_pwd :: "(msgpack_object \<times> msgpack_object) list \<Rightarrow> kstr option" where
  "last_pwd es = last_val (\<lambda>e. map_option (\<lambda>s. Some (Some s)) (str_of MSGKEY_PWD_STR e)) None es"

text \<open>
  What a message makes the server do. Only a map without an ill-typed entry is
  dispatched, with the last \<open>id\<close> and \<open>pwd\<close> of the map, and only if the last \<open>id\<close> and \<open>cmd\<close> are
  not zero and the low 32 bits of \<open>cmd\<close> are \<open>CMD_GIT_STATUS\<close>; the returned code is -1
  for bytes that are no map, the code of the first ill-typed entry, and otherwise
  \<open>ERR_UNEXPECTED_MSG\<close>, for a dispatched request as well.
\<close>

theorem msgpack_handler_recv_spec:
  "rr_ret (msgpack_handler_recv unpack data) =
     (case unpack data of
        Some (MP_MAP es) \<Rightarrow> (case first_error es of Some err \<Rightarrow> err | None \<Rightarrow> ERR_UNEXPECTED_MSG)
      | _ \<Rightarrow> -1) \<and>
   rr_call (msgpack_handler_recv unpack data) =
     (case unpack data of
        Some (MP_MAP es) \<Rightarrow>
          if first_error es = None \<and> last_id es \<noteq> 0 \<and> last_cmd es \<noteq> 0 \<and> ucast (last_cmd es) = (1 :: u32)
          then Some (last_id es, last_pwd es) else None
      | _ \<Rightarrow> None)"
proof (cases "\<exists>es. unpack data = Some (MP_MAP es)")
  case True
  then obtain es where es: "unpack data = Some (MP_MAP es)" by blast
  obtain r v where rv: "recv_entries init_vars es = (r, v)" by fastforce
  then have r: "r = first_error es" using recv_entries_error [of init_vars es] by simp
  show ?thesis
  proof (cases "first_error es")
    case None
    then have "rv_id v = last_id es \<and> rv_cmd v = last_cmd es \<and> rv_pwd v = last_pwd es"
      using recv_entries_values [of es init_vars v] rv r
      by (simp add: last_id_def last_cmd_def last_pwd_def init_vars_def)
    with None es rv r show ?thesis by (auto simp: msgpack_handler_recv_def is_git_status_def)
  next
    case (Some err)
    with es rv r show ?thesis by (simp add: msgpack_handler_recv_def)
  qed
next
  case False
  then show ?thesis
    by (auto simp: msgpack_handler_recv_def split: option.splits msgpack_object.splits)
qed

text \<open>
  The ownership of the \<open>pwd\<close> strings of a request without ill-typed entries: each is
  either handed over with the call, freed by the cleanup attribute, or lost, and
  all but the last one are lost.
\<close>

theorem msgpack_handler_recv_pwd_ownership:
  assumes "unpack data = Some (MP_MAP es)" and "first_error es = None"
  shows "length (filter (\<lambda>e. str_of MSGKEY_PWD_STR e \<noteq> None) es) =
    length (rr_lost (msgpack_handler_recv unpack data)) +
    (case rr_call (msgpack_handler_recv unpack data) of Some (_, Some _) \<Rightarrow> 1 | _ \<Rightarrow> 0) +
    (case rr_freed (msgpack_handler_recv unpack data) of Some _ \<Rightarrow> 1 | None \<Rightarrow> 0)"
proof -
  obtain r v where rv: "recv_entries init_vars es = (r, v)" by fastforce
  then have "r = None" using recv_entries_error [of init_vars es] assms(2) by simp
  with recv_entries_lost [OF rv assms(2)] rv assms(1) show ?thesis
    by (auto simp: msgpack_handler_recv_def init_vars_def split: option.splits)
qed

theorem msgpack_handler_recv_pwd_ownership_witness:
  "length (filter (\<lambda>e. str_of MSGKEY_PWD_STR e \<noteq> None)
       [(MP_POSITIVE_INTEGER 2, MP_STR ''/a/''), (MP_POSITIVE_INTEGER 2, MP_STR ''/b/'')]) =
    length (rr_lost (msgpack_handler_recv (\<lambda>_. Some (MP_MAP
       [(MP_POSITIVE_INTEGER 2, MP_STR ''/a/''), (MP_POSITIVE_INTEGER 2, MP_STR ''/b/'')])) [])) +
    (case rr_call (msgpack_handler_recv (\<lambda>_. Some (MP_MAP
       [(MP_POSITIVE_INTEGER 2, MP_STR ''/a/''), (MP_POSITIVE_INTEGER 2, MP_STR ''/b/'')])) [])
     of Some (_, Some _) \<Rightarrow> 1 | _ \<Rightarrow> 0) +
    (case rr_freed (msgpack_handler_recv (\<lambda>_. Some (MP_MAP
       [(MP_POSITIVE_INTEGER 2, MP_STR ''/a/''), (MP_POSITIVE_INTEGER 2, MP_STR ''/b/'')])) [])
     of Some _ \<Rightarrow> 1 | None \<Rightarrow> 0)"
  by (rule msgpack_handler_recv_pwd_ownership) (simp_all add: msgkey_of_def)

section \<open>Responses: what the client reads\<close>

datatype mp_val = VInt int | VStr string

text \<open>A string value takes the following body calls; a body of no bytes is invisible.\<close>

fun read_val :: "pack_op list \<Rightarrow> (mp_val \<times> pack_op list) option" where
  "read_val (PackInt w # r) = Some (VInt (sint w), r)"
| "read_val (PackStr n # PackStrBody b # r) =
     (if length b = n then Some (VStr b, r) else if n = 0 then Some (VStr [], PackStrBody b # r) else None)"
| "read_val (PackStr n # r) = (if n = 0 then Some (VStr [], r) else None)"
| "read_val _ = None"

fun read_pair :: "pack_op list \<Rightarrow> ((int \<times> mp_val) \<times> pack_op list) option" where
  "read_pair (PackInt w # r) = (case read_val r of None \<Rightarrow> None | Some (v, r') \<Rightarrow> Some ((sint w, v), r'))"
| "read_pair _ = None"

fun read_map :: "pack_op list \<Rightarrow> (int \<times> mp_val) list option" where
  "read_map (PackMap n # r) =
     (case decode_stream read_pair r of
        Some xs \<Rightarrow> if length xs = n then Some xs else None
      | None \<Rightarrow> None)"
| "read_map _ = None"

text \<open>One key and its value, as it is packed and as the client sees it.\<close>

datatype field = FInt magit_res_key u64 | FStr magit_res_key "kstr option"

fun pack_field :: "field \<Rightarrow> pack_op list" where
  "pack_field (FInt k v) = append_key_val_int k v"
| "pack_field (FStr k v) = append_key_val_str k v"

definition field_text :: "kstr option \<Rightarrow> string" where
  "field_text v = (case v of None \<Rightarrow> [] | Some k \<Rightarrow> kdata k)"

fun view_field :: "field \<Rightarrow> int \<times> mp_val" where
  "view_field (FInt k v) = (sint (key_code k), VInt (sint (ucast v :: u32)))"
| "view_field (FStr k v) = (sint (key_code k), VStr (field_text v))"

definition no_body :: "pack_op list \<Rightarrow> bool" where
  "no_body r \<longleftrightarrow> (case r of PackStrBody _ # _ \<Rightarrow> False | _ \<Rightarrow> True)"

lemmas append_key_defs = append_key_val_int_def append_key_val_str_def

interpretation response: record_codec pack_field read_pair view_field "\<lambda>_. True" no_body
proof unfold_locales
  fix x r
  assume "no_body r"
  then show "read_pair (pack_field x @ r) = Some (view_field x, r)"
    by (cases x) (auto simp: append_key_defs field_text_def no_body_def
        split: option.splits list.splits pack_op.splits)
next
  fix x r
  show "pack_field x \<noteq> []" by (cases x) (simp_all add: append_key_defs)
  show "no_body (pack_field x @ r)" by (cases x) (simp_all add: append_key_defs no_body_def)
qed (simp add: no_body_def)

definition response_fields :: "magit_res \<Rightarrow> field list" where
  "response_fields res =
     [FInt MAGIT_RES_KEY_ID (res_id res),
      FStr MAGIT_RES_KEY_GIT_ROOT (git_root res),
      FStr MAGIT_RES_KEY_REV_HEAD (rev_head res),
      FStr MAGIT_RES_KEY_LIST_Z (list_z res),
      FStr MAGIT_RES_KEY_BRANCH (branch res),
      FStr MAGIT_RES_KEY_HEAD_LOG_LINE (head_log_line res),
      FStr MAGIT_RES_KEY_UPSTREAM_BRANCH (upstream_branch res),
      FStr MAGIT_RES_KEY_UPSTREAM_SUBJ (upstream_subj res),
      FStr MAGIT_RES_KEY_TAG_DESC (tag_desc res),
      FStr MAGIT_RES_KEY_OPT_TAG_DESC_HEAD (opt_tag_desc_head res),
      FStr MAGIT_RES_KEY_VERSION (version res),
      FStr MAGIT_RES_KEY_WORKTREE_PORCELAIN (worktree_porcelain res),
      FStr MAGIT_RES_KEY_DOT_GIT_DIR (dot_git_dir res),
      FStr MAGIT_RES_KEY_CONFIG_STATUS_SHOW_UNTRACKED_FILES (config_status_show_untracked_files res),
      FStr MAGIT_RES_KEY_STATUS (status res),
      FStr MAGIT_RES_KEY_DIFF (diff res),
      FStr MAGIT_RES_KEY_STAGED (staged res),
      FInt MAGIT_RES_KEY_IS_BARE (is_bare res),
      FStr MAGIT_RES_KEY_STASH (stash res),
      FStr MAGIT_RES_KEY_BRANCHES (branches res),
      FStr MAGIT_RES_KEY_REV_IDX (revision_by_idx res),
      FStr MAGIT_RES_KEY_LOGS (logs res),
      FStr MAGIT_RES_KEY_REV_SHORT_HEAD (rev_short_head res),
      FStr MAGIT_RES_KEY_TAG_MASTER (tag_master res),
      FStr MAGIT_RES_KEY_TAG_ORIGIN_MASTER (tag_origin_master res),
      FStr MAGIT_RES_KEY_ORIGIN_HEAD (origin_head res),
      FStr MAGIT_RES_KEY_TAG_ORIGIN_HEAD (tag_origin_head res),
      FStr MAGIT_RES_KEY_UPSTREAM_BRANCH_MASTER (upstream_branch_master res)]"

lemma buf_create_fields:
  "msgpack_handler_buf_create res = PackMap 28 # concat (map pack_field (response_fields res))"
  by (simp add: msgpack_handler_buf_create_def response_fields_def)

lemma length_response_fields: "length (response_fields res) = 28"
  by (simp add: response_fields_def)

lemma response_reads_back_map:
  "read_map (msgpack_handler_buf_create res) = Some (map view_field (response_fields res))"
  using response.decode_stream_enc [of "response_fields res"]
  by (simp add: buf_create_fields length_response_fields)

text \<open>
  C27: The packing calls of a response form one map: its announced size is the number
  of pairs that follow, a reader that takes the calls one after the other gets every
  key of the response exactly once, and \<open>NULL\<close> and empty strings both read as the
  empty string.
\<close>

theorem response_reads_back:
  "read_map (msgpack_handler_buf_create res) = Some (map view_field (response_fields res)) \<and>
   distinct (map fst (map view_field (response_fields res)))"
proof
  show "read_map (msgpack_handler_buf_create res) = Some (map view_field (response_fields res))"
    by (rule response_reads_back_map)
  show "distinct (map fst (map view_field (response_fields res)))"
    by (simp add: response_fields_def)
qed

lemma ucast32_sint: "sint (ucast (u :: u64) :: u32) = uint u \<longleftrightarrow> unat u < 2 ^ 31"
proof -
  have "sint (ucast u :: u32) = signed_take_bit 31 (uint u)"
    by (simp add: sint_uint unsigned_ucast_eq signed_take_bit_take_bit)
  moreover have "signed_take_bit 31 (uint u) = uint u \<longleftrightarrow> uint u < 2 ^ 31"
    using uint_ge_0 [of u] by (subst signed_take_bit_int_eq_self_iff) linarith
  moreover have "uint u < 2 ^ 31 \<longleftrightarrow> unat u < 2 ^ 31"
    using uint_ge_0 [of u] by (simp only: unat_eq_nat_uint nat_less_iff) simp
  ultimately show ?thesis by (simp only:)
qed

text \<open>
  The response carries its request's identifier as a C \<open>int\<close>: the client reads back the \<open>uint64_t\<close>
  of the request exactly if it is below \<open>2 ^ 31\<close>.
\<close>

theorem response_id_truncated:
  "\<exists>fields. read_map (msgpack_handler_buf_create res) = Some fields \<and>
     (map_of fields 0 = Some (VInt (uint (res_id res))) \<longleftrightarrow> unat (res_id res) < 2 ^ 31)"
proof -
  obtain rest where "response_fields res = FInt MAGIT_RES_KEY_ID (res_id res) # rest"
    by (simp add: response_fields_def)
  then have "map_of (map view_field (response_fields res)) 0
      = Some (VInt (sint (ucast (res_id res) :: u32)))" by simp
  with ucast32_sint [of "res_id res"] show ?thesis using response_reads_back_map by auto
qed

text \<open>The client's reader of frames: a length, then that many bytes.\<close>

definition dec_frame :: "byte list \<Rightarrow> (byte list \<times> byte list) option" where
  "dec_frame bs =
     (if length bs < 4 then None
      else let n = unat (be32 (take 4 bs))
           in if length bs < 4 + n then None else Some (take n (drop 4 bs), drop (4 + n) bs))"

lemma dec_frame_frame: "length m < 2 ^ 32 \<Longrightarrow> dec_frame (frame m @ r) = Some (m, r)"
  by (simp add: frame_def dec_frame_def Let_def unat_of_nat)

interpretation frames: record_codec frame dec_frame "\<lambda>m. m" "\<lambda>m. length m < 2 ^ 32" "\<lambda>_. True"
  by unfold_locales (simp_all add: dec_frame_frame, simp add: frame_def frame_header_def)

definition response_body :: "(pack_op \<Rightarrow> byte list) \<Rightarrow> magit_res \<Rightarrow> byte list" where
  "response_body enc res = concat (map enc (msgpack_handler_buf_create res))"

lemma send_is_frame: "msgpack_handler_send enc res = frame (response_body enc res)"
  by (simp add: msgpack_handler_send_def frame_def response_body_def Let_def)

text \<open>
  The output stream can be cut into its responses: from the bytes of any sequence
  of responses (each shorter than 4 GiB) a client that reads a length and then that
  many bytes gets the packed response bodies, in order.
\<close>

theorem responses_stream_roundtrip:
  assumes "\<forall>res\<in>set rs. length (response_body enc res) < 2 ^ 32"
  shows "decode_stream dec_frame (concat (map (msgpack_handler_send enc) rs))
    = Some (map (response_body enc) rs)"
proof -
  have "map (msgpack_handler_send enc) rs = map frame (map (response_body enc) rs)"
    by (simp add: send_is_frame)
  then show ?thesis
    using frames.decode_stream_enc [of "map (response_body enc) rs"] assms by (simp del: map_map)
qed

text \<open>A response in which nothing was filled in.\<close>

definition empty_res :: magit_res where
  "empty_res =
     \<lparr> res_id = 0, git_root = None, rev_head = None, list_z = None, branch = None,
       upstream_branch = None, head_log_line = None, upstream_subj = None, tag_desc = None,
       opt_tag_desc_head = None, version = None, worktree_porcelain = None, dot_git_dir = None,
       config_status_show_untracked_files = None, status = None, diff = None, staged = None,
       is_bare = 0, stash = None, branches = None, revision_by_idx = None, logs = None,
       rev_short_head = None, tag_master = None, tag_origin_master = None, origin_head = None,
       tag_origin_head = None, upstream_branch_master = None \<rparr>"

lemma length_empty_body: "length (response_body (\<lambda>_. [0]) (empty_res\<lparr> res_id := n \<rparr>)) = 57"
  by (simp add: response_body_def msgpack_handler_buf_create_def append_key_defs empty_res_def)

theorem responses_stream_roundtrip_witness:
  "decode_stream dec_frame (concat (map (msgpack_handler_send (\<lambda>_. [0]))
      [empty_res\<lparr> res_id := 1 \<rparr>, empty_res\<lparr> res_id := 2 \<rparr>])) =
   Some (map (response_body (\<lambda>_. [0])) [empty_res\<lparr> res_id := 1 \<rparr>, empty_res\<lparr> res_id := 2 \<rparr>])"
  by (rule responses_stream_roundtrip) (simp add: length_empty_body)

end
