(* ===== verification/GhLog.thy ===== *)
theory GhLog
  imports KString
begin

text \<open>
  The logger of \<open>src/src/git_handler.c\<close>: levels, the configuration read once from the
  environment, the formatting of one line into a bounded buffer and the choice of
  the level for libgit2 errors and worker steps. The environment, the clock and
  \<open>fopen\<close> are the record \<open>log_env\<close>; what is written is the list \<open>log_out\<close>, one entry per
  \<open>fwrite\<close>, with the file it goes to (\<open>None\<close> is stderr).
\<close>

section \<open>Levels\<close>

datatype gh_log_level =
    GH_LOG_LEVEL_DEBUG | GH_LOG_LEVEL_INFO | GH_LOG_LEVEL_WARN | GH_LOG_LEVEL_ERROR | GH_LOG_LEVEL_OFF

fun level_code :: "gh_log_level \<Rightarrow> nat" where
  "level_code GH_LOG_LEVEL_DEBUG = 0"
| "level_code GH_LOG_LEVEL_INFO = 1"
| "level_code GH_LOG_LEVEL_WARN = 2"
| "level_code GH_LOG_LEVEL_ERROR = 3"
| "level_code GH_LOG_LEVEL_OFF = 4"

lemma level_code_inject [simp]: "level_code a = level_code b \<longleftrightarrow> a = b"
  by (cases a; cases b) simp_all

text \<open>The comparison of levels in C is that of the enumerators.\<close>

instantiation gh_log_level :: linorder
begin

definition "a \<le> b \<longleftrightarrow> level_code a \<le> level_code b" for a b :: gh_log_level
definition "a < b \<longleftrightarrow> level_code a < level_code b" for a b :: gh_log_level

instance
  by standard (auto simp: less_eq_gh_log_level_def less_gh_log_level_def)

end

lemmas level_order = less_eq_gh_log_level_def less_gh_log_level_def

fun gh_log_level_name :: "gh_log_level \<Rightarrow> string" where
  "gh_log_level_name GH_LOG_LEVEL_DEBUG = ''DEBUG''"
| "gh_log_level_name GH_LOG_LEVEL_INFO = ''INFO''"
| "gh_log_level_name GH_LOG_LEVEL_WARN = ''WARN''"
| "gh_log_level_name GH_LOG_LEVEL_ERROR = ''ERROR''"
| "gh_log_level_name _ = ''?''"

text \<open>\<open>strcasecmp (a, b) == 0\<close> in the C locale.\<close>

definition tolower_c :: "char \<Rightarrow> char" where
  "tolower_c c = (let n = of_char c :: nat in if 65 \<le> n \<and> n \<le> 90 then char_of (n + 32) else c)"

definition strcaseeq :: "string \<Rightarrow> string \<Rightarrow> bool" where
  "strcaseeq a b \<longleftrightarrow> map tolower_c (cstr a) = map tolower_c (cstr b)"

definition gh_log_parse_level :: "string option \<Rightarrow> gh_log_level \<Rightarrow> gh_log_level" where
  "gh_log_parse_level s fallback =
     (case s of
        None \<Rightarrow> fallback
      | Some s \<Rightarrow>
          if strcaseeq s ''debug'' then GH_LOG_LEVEL_DEBUG
          else if strcaseeq s ''info'' then GH_LOG_LEVEL_INFO
          else if strcaseeq s ''warn'' \<or> strcaseeq s ''warning'' then GH_LOG_LEVEL_WARN
          else if strcaseeq s ''error'' then GH_LOG_LEVEL_ERROR
          else if strcaseeq s ''off'' \<or> strcaseeq s ''none'' then GH_LOG_LEVEL_OFF
          else fallback)"

section \<open>Writing a line\<close>

record log_env =
  le_getenv :: "string \<Rightarrow> string option"
  le_fopen :: "string \<Rightarrow> bool"
  le_strerror :: string
  le_ts :: string
  le_nsec :: nat
  le_tid :: nat

record log_state =
  g_log_level :: gh_log_level
  g_log_fp :: "string option"
  g_log_once :: bool
  log_out :: "(string option \<times> string) list"

definition init_log :: log_state where
  "init_log = \<lparr> g_log_level = GH_LOG_LEVEL_INFO, g_log_fp = None, g_log_once = False, log_out = [] \<rparr>"

definition gh_log_init_once :: "log_env \<Rightarrow> log_state \<Rightarrow> log_state" where
  "gh_log_init_once env s =
     (let path = le_getenv env ''GIT_HANDLER_LOG_FILE'';
          s = s\<lparr> g_log_level := gh_log_parse_level (le_getenv env ''GIT_HANDLER_LOG_LEVEL'') (g_log_level s) \<rparr>
      in case path of
           None \<Rightarrow> s
         | Some p \<Rightarrow>
             if cstr p = [] then s
             else if le_fopen env p then s\<lparr> g_log_fp := Some p \<rparr>
             else s\<lparr> log_out := log_out s @
                   [(None, ''git_handler: cannot open log file '' @ [CHR 0x27] @ cstr p @ [CHR 0x27]
                           @ '': '' @ cstr (le_strerror env) @ [LF])] \<rparr>)"

definition pad_left :: "nat \<Rightarrow> char \<Rightarrow> string \<Rightarrow> string" where
  "pad_left w c s = replicate (w - length s) c @ s"

definition pad_right :: "nat \<Rightarrow> char \<Rightarrow> string \<Rightarrow> string" where
  "pad_right w c s = s @ replicate (w - length s) c"

text \<open>The format \<open>%s.%03ld [%-5s] [%lu] %s:%d: %s\n\<close>.\<close>

definition log_line :: "log_env \<Rightarrow> gh_log_level \<Rightarrow> string \<Rightarrow> nat \<Rightarrow> string \<Rightarrow> string" where
  "log_line env level func line msg =
     cstr (le_ts env) @ ''.'' @ pad_left 3 (CHR ''0'') (decimal (le_nsec env div 1000000))
     @ '' ['' @ pad_right 5 (CHR '' '') (gh_log_level_name level) @ ''] ['' @ decimal (le_tid env) @ ''] ''
     @ cstr func @ '':'' @ decimal line @ '': '' @ msg @ [LF]"

text \<open>
  \<open>snprintf\<close> into \<open>buf[1280]\<close> keeps 1279 bytes; a line that did not fit gets its
  newline back in the last of them.
\<close>

definition fit_line :: "string \<Rightarrow> string" where
  "fit_line full =
     (if length full \<ge> 1280 then (take 1279 full)[1278 := LF] else full)"

definition gh_log :: "log_env \<Rightarrow> gh_log_level \<Rightarrow> string \<Rightarrow> nat \<Rightarrow> string \<Rightarrow> log_state \<Rightarrow> log_state" where
  "gh_log env level func line text s =
     (let s = (if g_log_once s then s else (gh_log_init_once env s)\<lparr> g_log_once := True \<rparr>)
      in if level < g_log_level s then s
         else let msg = take 1023 (cstr text);
                  buf = fit_line (log_line env level func line msg)
              in s\<lparr> log_out := log_out s @ [(g_log_fp s, buf)] \<rparr>)"

section \<open>libgit2 errors and worker steps\<close>

text \<open>Error codes of libgit2's documented interface.\<close>

definition GIT_ERROR :: int where "GIT_ERROR = -1"
definition GIT_ENOTFOUND :: int where "GIT_ENOTFOUND = -3"
definition GIT_EUNBORNBRANCH :: int where "GIT_EUNBORNBRANCH = -9"
definition GIT_ITEROVER :: int where "GIT_ITEROVER = -31"

lemmas git_codes = GIT_ERROR_def GIT_ENOTFOUND_def GIT_EUNBORNBRANCH_def GIT_ITEROVER_def

definition gh_git_err_level :: "int \<Rightarrow> gh_log_level" where
  "gh_git_err_level code =
     (if code = GIT_ENOTFOUND \<or> code = GIT_EUNBORNBRANCH then GH_LOG_LEVEL_DEBUG else GH_LOG_LEVEL_ERROR)"

text \<open>\<open>git_error_last\<close> is an argument: the message of the last error, if there is one.\<close>

definition gh_log_git_error ::
    "log_env \<Rightarrow> string option \<Rightarrow> gh_log_level \<Rightarrow> string \<Rightarrow> nat \<Rightarrow> int \<Rightarrow> string \<Rightarrow> log_state \<Rightarrow> log_state" where
  "gh_log_git_error env err level func line code what s =
     gh_log env level func line
       (take 255 (cstr what) @ '' failed: code='' @ decimal_int code @ '': '' @
        (case err of Some m \<Rightarrow> cstr m | None \<Rightarrow> ''no libgit2 error message'')) s"

definition gh_now_ms :: "u64 \<Rightarrow> u64 \<Rightarrow> u64" where
  "gh_now_ms tv_sec tv_nsec = tv_sec * 1000 + tv_nsec div 1000000"

definition GH_SLOW_STEP_MS :: nat where "GH_SLOW_STEP_MS = 500"

definition step_level :: "int \<Rightarrow> u64 \<Rightarrow> bool \<Rightarrow> gh_log_level" where
  "step_level rc ms optional =
     (let slow = unat ms \<ge> GH_SLOW_STEP_MS
      in if (rc \<noteq> 0 \<and> \<not> optional) \<or> slow then GH_LOG_LEVEL_WARN else GH_LOG_LEVEL_DEBUG)"

definition gh_log_step ::
    "log_env \<Rightarrow> string \<Rightarrow> nat \<Rightarrow> string \<Rightarrow> int \<Rightarrow> u64 \<Rightarrow> bool \<Rightarrow> log_state \<Rightarrow> log_state" where
  "gh_log_step env func line name rc ms optional s =
     gh_log env (step_level rc ms optional) func line
       (''step '' @ cstr name @ '': rc='' @ decimal_int rc @ '' in '' @ decimal (unat ms) @ '' ms'' @
        (if unat ms \<ge> GH_SLOW_STEP_MS then '' (slow)'' else [])) s"

section \<open>Properties\<close>

lemma fit_line_last: "full \<noteq> [] \<Longrightarrow> last full = LF \<Longrightarrow>
    fit_line full \<noteq> [] \<and> last (fit_line full) = LF \<and> length (fit_line full) \<le> 1279"
  by (auto simp: fit_line_def last_list_update min_def)

lemma log_line_last: "log_line env level func line msg \<noteq> [] \<and> last (log_line env level func line msg) = LF"
  by (simp add: log_line_def)

text \<open>
  Every line the logger writes is complete and bounded: one call adds at most one
  line of its own, only if its level reaches the configured one, to the configured
  file, at most 1279 bytes long and with the newline at its end even when the
  message was cut; a message that fits is written unchanged.
\<close>

theorem gh_log_line_bounded:
  assumes "g_log_once s"
  shows "if level < g_log_level s then gh_log env level func line text s = s
    else \<exists>buf. gh_log env level func line text s = s\<lparr> log_out := log_out s @ [(g_log_fp s, buf)] \<rparr> \<and>
      length buf \<le> 1279 \<and> buf \<noteq> [] \<and> last buf = LF \<and>
      (length (log_line env level func line (take 1023 (cstr text))) < 1280 \<longrightarrow>
        buf = log_line env level func line (take 1023 (cstr text)))"
proof (cases "level < g_log_level s")
  case True
  with assms show ?thesis by (simp add: gh_log_def Let_def)
next
  case False
  define full where "full = log_line env level func line (take 1023 (cstr text))"
  have "length (fit_line full) \<le> 1279 \<and> fit_line full \<noteq> [] \<and> last (fit_line full) = LF"
    using fit_line_last [of full] log_line_last by (auto simp: full_def)
  moreover have "length full < 1280 \<longrightarrow> fit_line full = full" by (simp add: fit_line_def)
  moreover have "gh_log env level func line text s
      = s\<lparr> log_out := log_out s @ [(g_log_fp s, fit_line full)] \<rparr>"
    using assms False by (simp add: gh_log_def Let_def full_def)
  ultimately show ?thesis using False by (auto simp: full_def)
qed

text \<open>A concrete environment: nothing set, no file can be opened.\<close>

definition bare_env :: log_env where
  "bare_env = \<lparr> le_getenv = (\<lambda>_. None), le_fopen = (\<lambda>_. False), le_strerror = ''No such file'',
     le_ts = ''12:00:00'', le_nsec = 7000000, le_tid = 42 \<rparr>"

theorem gh_log_line_bounded_witness:
  "\<exists>buf. log_out (gh_log bare_env GH_LOG_LEVEL_ERROR ''f'' 7 ''boom'' (init_log\<lparr> g_log_once := True \<rparr>))
      = [(None, buf)] \<and> length buf \<le> 1279 \<and> last buf = LF"
proof -
  have h: "g_log_once (init_log\<lparr> g_log_once := True \<rparr>)" by simp
  have "\<not> GH_LOG_LEVEL_ERROR < g_log_level (init_log\<lparr> g_log_once := True \<rparr>)"
    by (simp add: init_log_def level_order)
  with gh_log_line_bounded [OF h, of GH_LOG_LEVEL_ERROR bare_env "''f''" 7 "''boom''"]
  show ?thesis by (auto simp: init_log_def)
qed

lemma strcaseeq_sym: "strcaseeq a b \<Longrightarrow> strcaseeq b a"
  by (simp add: strcaseeq_def)

lemma strcaseeq_trans: "strcaseeq a b \<Longrightarrow> strcaseeq a c \<longleftrightarrow> strcaseeq b c"
  by (simp add: strcaseeq_def)

text \<open>
  The configuration value is read in any spelling of upper and lower case, and the
  name that a line shows for its level selects that level.
\<close>

lemma parse_level_caseless: "strcaseeq a b \<Longrightarrow> gh_log_parse_level (Some a) f = gh_log_parse_level (Some b) f"
  using strcaseeq_trans [of a b] by (simp add: gh_log_parse_level_def)

lemma parse_level_name:
  "l \<noteq> GH_LOG_LEVEL_OFF \<Longrightarrow> gh_log_parse_level (Some (gh_log_level_name l)) f = l"
  by (cases l) (simp_all add: gh_log_parse_level_def strcaseeq_def tolower_c_def cstr_def char_of_eq_iff take_bit_eq_mod)

end
