(* ===== verification/GitCore.thy ===== *)
theory GitCore
  imports GhLog
begin

text \<open>
  What the query functions of \<open>src/src/git_handler.c\<close> share: the interface of libgit2, the
  state a query works on, and a calculus for what a query acquires and releases.

  libgit2 is not part of the repository. A handle is modelled by the answers its
  accessor functions give, as documented: a repository handle is a value of the record
  \<open>git_repo\<close>, whose fields are named after the libgit2 functions and return the C result code
  together with the out parameter (which the code reads on success only). An object identifier is the text that
  \<open>git_oid_tostr\<close> writes for it, an iterator is the list of what it
  yields before its final code. These records are arguments of every definition that
  uses them; nothing is assumed of their values here.
\<close>

section \<open>libgit2\<close>

type_synonym git_oid = string

record git_commit =
  commit_author :: "(string \<times> u64) option"
  commit_message :: "string option"
  commit_summary :: "string option"

record git_ref =
  ref_name :: string
  ref_is_symbolic :: bool
  ref_symbolic_target :: "string option"
  ref_target :: "git_oid option"
  ref_shorthand :: string
  ref_branch_name :: "int \<times> string"
  ref_branch_is_head :: int
  ref_peel_commit :: "int \<times> git_commit"
  ref_peel_tree :: int

record git_object =
  object_id :: git_oid
  object_short_id :: "int \<times> string"
  object_peel_commit :: "int \<times> git_oid"

record git_diff_delta =
  old_file :: "string option"
  new_file :: "string option"

record git_status_entry =
  entry_status :: u32
  head_to_index :: "git_diff_delta option"
  index_to_workdir :: "git_diff_delta option"

record git_diff =
  diff_new :: int
  diff_find_similar :: int
  diff_to_buf :: "int \<times> string"

record git_worktree =
  worktree_path :: string
  worktree_open :: int
  worktree_head :: "int \<times> git_ref"
  worktree_head_detached :: int
  worktree_is_locked :: "int \<times> string option"
  worktree_is_prunable :: int

record git_repo =
  repository_workdir :: "string option"
  repository_path :: "string option"
  repository_is_bare :: int
  repository_head :: "int \<times> git_ref"
  repository_head_detached :: int
  repository_index :: int
  index_read :: int
  repository_config :: int
  repository_odb :: int
  commit_graph_open :: "string \<Rightarrow> int"
  odb_set_commit_graph :: int
  reference_lookup :: "string \<Rightarrow> int \<times> git_ref"
  reference_name_to_id :: "string \<Rightarrow> int \<times> git_oid"
  branch_lookup :: "string \<Rightarrow> int \<times> git_ref"
  branch_upstream :: "git_ref \<Rightarrow> int \<times> git_ref"
  branch_upstream_name :: "string \<Rightarrow> int \<times> string"
  branch_iterator_new :: int
  branch_iterator :: "git_ref list \<times> int"
  graph_ahead_behind :: "git_oid \<Rightarrow> git_oid \<Rightarrow> int \<times> nat \<times> nat"
  commit_lookup :: "git_oid \<Rightarrow> int \<times> git_commit"
  object_lookup :: "git_oid \<Rightarrow> int \<times> git_object"
  revparse_single :: "string \<Rightarrow> int \<times> git_object"
  revwalk_new :: int
  revwalk_push_head :: int
  revwalk_sorting :: int
  revwalk :: "git_oid list \<times> int"
  diff_tree_to_index :: "bool \<Rightarrow> git_diff"
  diff_index_to_workdir :: git_diff
  status_list :: "int \<times> git_status_entry list"
  config_iterator_new :: int
  config_iterator :: "(string \<times> string option) list \<times> int"
  config_get_string_buf :: "string \<Rightarrow> int \<times> string option"
  worktree_list :: "int \<times> string list"
  worktree_lookup :: "string \<Rightarrow> int \<times> git_worktree"
  tag_foreach :: "(string \<times> git_oid) list \<times> int"
  tag_list :: "int \<times> string list"
  tag_lookup :: "git_oid \<Rightarrow> int \<times> git_oid"

section \<open>The state of a query\<close>

text \<open>
  A query appends to its \<open>out\<close> string and leaves a trace: the level of each log call,
  \<open>git_error_clear\<close>, each handle that is stored into a local variable and each one that is freed,
  named by the variable, and undefined behaviour (a call with a \<open>NULL\<close> pointer that
  does not accept one).
\<close>

datatype gh_event =
    EvLog gh_log_level
  | EvClear
  | EvAcquire string
  | EvRelease string
  | EvFault string

record gh_st =
  gh_out :: kstr
  gh_trace :: "gh_event list"

type_synonym 'a gh = "(gh_st, 'a) state"

abbreviation result :: "'a \<Rightarrow> 'a gh" where "result \<equiv> State_Monad.return"

definition emit :: "gh_event \<Rightarrow> unit gh" where
  "emit e = State (\<lambda>s. ((), s\<lparr> gh_trace := gh_trace s @ [e] \<rparr>))"

text \<open>\<open>kputsn\<close> of a whole block, \<open>kputs\<close> of a C string and \<open>kputc\<close> on the query's output.\<close>

definition out_putsn :: "string \<Rightarrow> unit gh" where
  "out_putsn p = State (\<lambda>s. ((), s\<lparr> gh_out := kcat (gh_out s) p \<rparr>))"

definition out_puts :: "string \<Rightarrow> unit gh" where
  "out_puts p = out_putsn (cstr p)"

definition out_putc :: "char \<Rightarrow> unit gh" where
  "out_putc c = out_putsn [c]"

definition log_at :: "gh_log_level \<Rightarrow> unit gh" where
  "log_at l = emit (EvLog l)"

definition log_git_err :: "int \<Rightarrow> unit gh" where
  "log_git_err code = log_at (gh_git_err_level code)"

definition error_clear :: "unit gh" where "error_clear = emit EvClear"
definition acquire :: "string \<Rightarrow> unit gh" where "acquire v = emit (EvAcquire v)"
definition release :: "string \<Rightarrow> unit gh" where "release v = emit (EvRelease v)"
definition fault :: "string \<Rightarrow> unit gh" where "fault v = emit (EvFault v)"

definition release_if :: "bool \<Rightarrow> string \<Rightarrow> unit gh" where
  "release_if b v = (if b then release v else result ())"

text \<open>A query run on a fresh output: result code, output, trace.\<close>

definition st0 :: gh_st where
  "st0 = \<lparr> gh_out = None, gh_trace = [] \<rparr>"

definition ret_of :: "'a gh \<Rightarrow> 'a" where "ret_of m = fst (run_state m st0)"
definition res_of :: "'a gh \<Rightarrow> gh_st" where "res_of m = snd (run_state m st0)"
definition out_of :: "'a gh \<Rightarrow> kstr" where "out_of m = gh_out (res_of m)"
definition trace_of :: "'a gh \<Rightarrow> gh_event list" where "trace_of m = gh_trace (res_of m)"

lemma run_st0: "run_state m st0 = (ret_of m, res_of m)"
  by (simp add: ret_of_def res_of_def)

section \<open>Queries only append\<close>

definition kjoin :: "kstr \<Rightarrow> kstr \<Rightarrow> kstr" where
  "kjoin a b = (case b of None \<Rightarrow> a | Some d \<Rightarrow> kcat a d)"

definition st_app :: "gh_st \<Rightarrow> gh_st \<Rightarrow> gh_st" where
  "st_app s t = \<lparr> gh_out = kjoin (gh_out s) (gh_out t), gh_trace = gh_trace s @ gh_trace t \<rparr>"

definition framed :: "'a gh \<Rightarrow> bool" where
  "framed m \<longleftrightarrow> (\<forall>s. run_state m s = (ret_of m, st_app s (res_of m)))"

lemma kjoin_simps [simp]:
  "kjoin None b = b" "kjoin a None = a" "kjoin (Some x) (Some y) = Some (x @ y)"
  by (simp_all add: kjoin_def kcat_def split: option.splits)

lemma kjoin_assoc: "kjoin (kjoin a b) c = kjoin a (kjoin b c)"
  by (simp add: kjoin_def kcat_def split: option.splits)

lemma kdata_kjoin [simp]: "kdata (kjoin a b) = kdata a @ kdata b"
  by (simp add: kjoin_def split: option.splits)

lemma st_app_assoc: "st_app (st_app s t) u = st_app s (st_app t u)"
  by (simp add: st_app_def kjoin_assoc)

lemma st_app_st0 [simp]: "st_app s st0 = s" "st_app st0 s = s"
  by (simp_all add: st_app_def st0_def)

lemma framedD: "framed m \<Longrightarrow> run_state m s = (ret_of m, st_app s (res_of m))"
  unfolding framed_def by blast

lemma framedI: "(\<And>s. run_state m s = (r, st_app s t)) \<Longrightarrow> framed m"
  by (simp add: framed_def ret_of_def res_of_def)

lemma framed_result [simp]: "framed (result x)"
  by (rule framedI [where t = st0]) simp

lemma framed_emit [simp]: "framed (emit e)"
  by (rule framedI [where t = "\<lparr> gh_out = None, gh_trace = [e] \<rparr>"]) (simp add: emit_def st_app_def)

lemma framed_putsn [simp]: "framed (out_putsn p)"
  by (rule framedI [where t = "\<lparr> gh_out = Some p, gh_trace = [] \<rparr>"])
    (simp add: out_putsn_def st_app_def kjoin_def)

lemma framed_prims [simp]:
  "framed (out_puts p)" "framed (out_putc c)" "framed (log_at l)" "framed (log_git_err code)"
  "framed error_clear" "framed (acquire v)" "framed (release v)" "framed (fault v)"
  "framed (release_if b v)"
  by (simp_all add: out_puts_def out_putc_def log_at_def log_git_err_def error_clear_def
      acquire_def release_def fault_def release_if_def)

lemma run_bind:
  assumes "framed m" "\<And>x. framed (f x)"
  shows "run_state (State_Monad.bind m f) s =
    (ret_of (f (ret_of m)), st_app s (st_app (res_of m) (res_of (f (ret_of m)))))"
  by (simp only: State_Monad.run_state_bind framedD [OF assms(1)] framedD [OF assms(2)]
      prod.case st_app_assoc)

lemma framed_bind [simp]:
  assumes "framed m" "\<And>x. framed (f x)"
  shows "framed (State_Monad.bind m f)"
  by (rule framedI) (rule run_bind [OF assms])

lemma framed_if [simp]: "framed m \<Longrightarrow> framed n \<Longrightarrow> framed (if b then m else n)"
  by simp

lemma framed_prod [simp]: "(\<And>a b. framed (f a b)) \<Longrightarrow> framed (case p of (a, b) \<Rightarrow> f a b)"
  by (cases p) simp

lemma framed_option [simp]: "framed m \<Longrightarrow> (\<And>a. framed (f a)) \<Longrightarrow> framed (case x of None \<Rightarrow> m | Some a \<Rightarrow> f a)"
  by (cases x) simp_all

section \<open>Running a query\<close>

named_theorems query_eval

lemma bind_parts:
  assumes "framed m" "\<And>x. framed (f x)"
  shows ret_bind: "ret_of (State_Monad.bind m f) = ret_of (f (ret_of m))"
    and res_bind: "res_of (State_Monad.bind m f) = st_app (res_of m) (res_of (f (ret_of m)))"
  unfolding ret_of_def [of "State_Monad.bind m f"] res_of_def [of "State_Monad.bind m f"]
    run_bind [OF assms] by simp_all

declare ret_bind [query_eval] Let_def [query_eval]

lemma out_bind [query_eval]: "framed m \<Longrightarrow> (\<And>x. framed (f x)) \<Longrightarrow>
    out_of (State_Monad.bind m f) = kjoin (out_of m) (out_of (f (ret_of m)))"
  by (simp add: out_of_def res_bind) (simp add: st_app_def)

lemma trace_bind [query_eval]: "framed m \<Longrightarrow> (\<And>x. framed (f x)) \<Longrightarrow>
    trace_of (State_Monad.bind m f) = trace_of m @ trace_of (f (ret_of m))"
  by (simp add: trace_of_def res_bind) (simp add: st_app_def)

lemma eval_result [query_eval]:
  "ret_of (result x) = x" "out_of (result x) = None" "trace_of (result x) = []"
  by (simp_all add: ret_of_def res_of_def out_of_def trace_of_def st0_def)

lemma eval_prims [query_eval]:
  "out_of (out_putsn p) = Some p" "trace_of (out_putsn p) = []"
  "out_of (out_puts p) = Some (cstr p)" "trace_of (out_puts p) = []"
  "out_of (out_putc c) = Some [c]" "trace_of (out_putc c) = []"
  "out_of (emit e) = None" "trace_of (emit e) = [e]"
  "out_of (log_at l) = None" "trace_of (log_at l) = [EvLog l]"
  "out_of (log_git_err code) = None" "trace_of (log_git_err code) = [EvLog (gh_git_err_level code)]"
  "out_of error_clear = None" "trace_of error_clear = [EvClear]"
  "out_of (acquire v) = None" "trace_of (acquire v) = [EvAcquire v]"
  "out_of (release v) = None" "trace_of (release v) = [EvRelease v]"
  "out_of (fault v) = None" "trace_of (fault v) = [EvFault v]"
  by (simp_all add: out_puts_def out_putc_def log_at_def log_git_err_def error_clear_def acquire_def
      release_def fault_def out_putsn_def emit_def res_of_def out_of_def trace_of_def st0_def kcat_def)

lemma eval_release_if [query_eval]:
  "out_of (release_if b v) = None" "trace_of (release_if b v) = (if b then [EvRelease v] else [])"
  by (simp_all add: release_if_def query_eval)

section \<open>Handles\<close>

text \<open>
  The handles a trace leaves live, from those live before it; \<open>None\<close> if it frees a
  handle that is not live, overwrites a variable whose handle is live, or does
  something undefined. A query is \<open>clean\<close> if it ends with no handle live.
\<close>

fun heap_step :: "string list \<Rightarrow> gh_event \<Rightarrow> string list option" where
  "heap_step L (EvAcquire v) = (if v \<in> set L then None else Some (v # L))"
| "heap_step L (EvRelease v) = (if v \<in> set L then Some (remove1 v L) else None)"
| "heap_step L (EvFault v) = None"
| "heap_step L (EvLog l) = Some L"
| "heap_step L EvClear = Some L"

fun heap_run :: "string list \<Rightarrow> gh_event list \<Rightarrow> string list option" where
  "heap_run L [] = Some L"
| "heap_run L (e # es) = (case heap_step L e of None \<Rightarrow> None | Some L' \<Rightarrow> heap_run L' es)"

lemma heap_run_append:
  "heap_run L (es @ fs) = (case heap_run L es of None \<Rightarrow> None | Some L' \<Rightarrow> heap_run L' fs)"
  by (induction es arbitrary: L) (auto split: option.splits)

definition clean :: "'a gh \<Rightarrow> bool" where
  "clean m \<longleftrightarrow> heap_run [] (trace_of m) = Some []"

text \<open>
  The weakest precondition of a query for its handles: from the live handles \<open>L\<close> it
  does nothing wrong and ends with a result and live handles that satisfy \<open>P\<close>.
\<close>

definition hwp :: "'a gh \<Rightarrow> string list \<Rightarrow> ('a \<Rightarrow> string list \<Rightarrow> bool) \<Rightarrow> bool" where
  "hwp m L P \<longleftrightarrow> (case heap_run L (trace_of m) of None \<Rightarrow> False | Some L' \<Rightarrow> P (ret_of m) L')"

named_theorems hwp_simps

lemma hwp_bind [hwp_simps]: "framed m \<Longrightarrow> (\<And>x. framed (f x)) \<Longrightarrow>
    hwp (State_Monad.bind m f) L P = hwp m L (\<lambda>r L'. hwp (f r) L' P)"
  by (simp add: hwp_def query_eval heap_run_append split: option.splits)

lemma hwp_result [hwp_simps]: "hwp (result x) L P = P x L"
  by (simp add: hwp_def query_eval)

lemma hwp_prims [hwp_simps]:
  "hwp (out_putsn p) L Q = Q () L" "hwp (out_puts p) L Q = Q () L" "hwp (out_putc c) L Q = Q () L"
  "hwp (log_at l) L Q = Q () L" "hwp (log_git_err code) L Q = Q () L" "hwp error_clear L Q = Q () L"
  "hwp (acquire v) L Q = (v \<notin> set L \<and> Q () (v # L))"
  "hwp (release v) L Q = (v \<in> set L \<and> Q () (remove1 v L))"
  "hwp (fault v) L Q = False"
  by (simp_all add: hwp_def query_eval)

lemma hwp_release_if [hwp_simps]:
  "hwp (release_if b v) L Q = (if b then v \<in> set L \<and> Q () (remove1 v L) else Q () L)"
  by (simp add: release_if_def hwp_simps)

lemma clean_hwp: "clean m \<longleftrightarrow> hwp m [] (\<lambda>_ L. L = [])"
  by (simp add: clean_def hwp_def split: option.splits)

lemma hwp_mono: "hwp m L P \<Longrightarrow> (\<And>r L'. P r L' \<Longrightarrow> Q r L') \<Longrightarrow> hwp m L Q"
  by (simp add: hwp_def split: option.splits)

section \<open>Concrete repositories\<close>

text \<open>
  A repository in which nothing is found, with the values of the other records: the base of the concrete
  instances on which properties are shown to be applicable.
\<close>

definition some_commit :: "string \<Rightarrow> git_commit" where
  "some_commit s = \<lparr> commit_author = Some (''A'', 7), commit_message = Some (s @ [LF]), commit_summary = Some s \<rparr>"

definition some_ref :: "string \<Rightarrow> string \<Rightarrow> git_oid \<Rightarrow> git_ref" where
  "some_ref name short oid =
     \<lparr> ref_name = name, ref_is_symbolic = False, ref_symbolic_target = None, ref_target = Some oid,
       ref_shorthand = short, ref_branch_name = (0, short), ref_branch_is_head = 1,
       ref_peel_commit = (0, some_commit ''s''), ref_peel_tree = 0 \<rparr>"

definition some_object :: "git_oid \<Rightarrow> git_object" where
  "some_object oid = \<lparr> object_id = oid, object_short_id = (0, take 7 oid), object_peel_commit = (0, oid) \<rparr>"

definition no_diff :: git_diff where
  "no_diff = \<lparr> diff_new = -1, diff_find_similar = -1, diff_to_buf = (-1, []) \<rparr>"

definition no_ref :: git_ref where "no_ref = some_ref [] [] []"

definition blank_repo :: git_repo where
  "blank_repo =
     \<lparr> repository_workdir = None, repository_path = None, repository_is_bare = 0,
       repository_head = (GIT_EUNBORNBRANCH, no_ref), repository_head_detached = 0, repository_index = 0, index_read = 0,
       repository_config = 0, repository_odb = 0, commit_graph_open = (\<lambda>_. GIT_ENOTFOUND),
       odb_set_commit_graph = 0, reference_lookup = (\<lambda>_. (GIT_ENOTFOUND, no_ref)),
       reference_name_to_id = (\<lambda>_. (GIT_ENOTFOUND, [])), branch_lookup = (\<lambda>_. (GIT_ENOTFOUND, no_ref)),
       branch_upstream = (\<lambda>_. (GIT_ENOTFOUND, no_ref)), branch_upstream_name = (\<lambda>_. (GIT_ENOTFOUND, [])),
       branch_iterator_new = 0, branch_iterator = ([], GIT_ITEROVER),
       graph_ahead_behind = (\<lambda>_ _. (GIT_ENOTFOUND, 0, 0)), commit_lookup = (\<lambda>_. (GIT_ENOTFOUND, some_commit [])),
       object_lookup = (\<lambda>_. (GIT_ENOTFOUND, some_object [])), revparse_single = (\<lambda>_. (GIT_ENOTFOUND, some_object [])),
       revwalk_new = 0, revwalk_push_head = GIT_EUNBORNBRANCH, revwalk_sorting = 0, revwalk = ([], GIT_ITEROVER),
       diff_tree_to_index = (\<lambda>_. no_diff), diff_index_to_workdir = no_diff, status_list = (0, []),
       config_iterator_new = 0, config_iterator = ([], GIT_ITEROVER),
       config_get_string_buf = (\<lambda>_. (GIT_ENOTFOUND, None)), worktree_list = (0, []),
       worktree_lookup = (\<lambda>_. (GIT_ENOTFOUND,
          \<lparr> worktree_path = [], worktree_open = -1, worktree_head = (-1, no_ref), worktree_head_detached = 0,
            worktree_is_locked = (0, None), worktree_is_prunable = 0 \<rparr>)),
       tag_foreach = ([], 0), tag_list = (0, []), tag_lookup = (\<lambda>_. (GIT_ENOTFOUND, [])) \<rparr>"

lemmas sample_defs = some_commit_def some_ref_def some_object_def no_diff_def no_ref_def blank_repo_def

end
