(* ===== verification/GitBranches.thy ===== *)
theory GitBranches
  imports GitCore
begin

text \<open>
  The local branches as \<open>get_branch_list\<close> of \<open>src/src/git_handler.c\<close> lists them: one
  line per branch, ten fields separated by NUL bytes, with the upstream, how far the
  branch is ahead of or behind it, and the subject of its commit; with a reader of
  the format and the row of a branch stated independently of the order of the calls.
\<close>

section \<open>One record\<close>

text \<open>\<open>strncmp(s, p, strlen(p)) == 0\<close>, then the text after the prefix.\<close>

definition strip_prefix :: "string \<Rightarrow> string \<Rightarrow> string option" where
  "strip_prefix p s = (if take (length p) (cstr s) = p then Some (drop (length p) (cstr s)) else None)"

definition shorten_upstream :: "string \<Rightarrow> string" where
  "shorten_upstream name =
     (case strip_prefix ''refs/remotes/'' name of
        Some s \<Rightarrow> s
      | None \<Rightarrow> (case strip_prefix ''refs/heads/'' name of Some s \<Rightarrow> s | None \<Rightarrow> name))"

text \<open>The variable \<open>track\<close> with the two counts.\<close>

datatype tracking = TrackNone | TrackCounts nat nat | TrackGone

text \<open>
  The part of \<open>append_branch_record\<close> that compares the branch with its upstream; \<open>Inl\<close>
  is the jump to \<open>out\<close>.
\<close>

definition branch_tracking :: "git_repo \<Rightarrow> git_oid option \<Rightarrow> string option \<Rightarrow> (int + tracking) gh" where
  "branch_tracking repo oid up_name =
     (case (up_name, oid) of
        (Some up, Some oid) \<Rightarrow>
          let (r, up_oid) = reference_name_to_id repo up
          in if r = 0 then
               let (ret, ahead, behind) = graph_ahead_behind repo oid up_oid
               in if ret < 0 then do { log_git_err ret; result (Inl ret) }
                  else result (Inr (TrackCounts ahead behind))
             else do { log_at GH_LOG_LEVEL_DEBUG; error_clear; result (Inr TrackGone) }
      | _ \<Rightarrow> result (Inr TrackNone))"

text \<open>The subject, from a commit that is stored into \<open>commit\<close>; whether there is one to free is the second result.\<close>

definition branch_subject :: "git_repo \<Rightarrow> git_oid option \<Rightarrow> (string \<times> bool) gh" where
  "branch_subject repo oid =
     (case oid of
        Some oid \<Rightarrow>
          let (r, commit) = commit_lookup repo oid
          in if r = 0 then do {
               acquire ''commit'';
               result (case commit_summary commit of None \<Rightarrow> '''' | Some s \<Rightarrow> s, True) }
             else do { log_at GH_LOG_LEVEL_DEBUG; error_clear; result ('''', False) }
      | None \<Rightarrow> do { log_at GH_LOG_LEVEL_DEBUG; error_clear; result ('''', False) })"

text \<open>The text of the \<open>ksprintf\<close> and \<open>kputs\<close> of the tracking field.\<close>

definition put_track :: "tracking \<Rightarrow> unit gh" where
  "put_track t =
     (case t of
        TrackNone \<Rightarrow> result ()
      | TrackGone \<Rightarrow> out_puts ''[gone]''
      | TrackCounts ahead behind \<Rightarrow>
          if ahead \<noteq> 0 \<and> behind \<noteq> 0 then
            out_puts (''[ahead '' @ decimal ahead @ '', behind '' @ decimal behind @ '']'')
          else if ahead \<noteq> 0 then out_puts (''[ahead '' @ decimal ahead @ '']'')
          else if behind \<noteq> 0 then out_puts (''[behind '' @ decimal behind @ '']'')
          else result ())"

definition put_field :: "string \<Rightarrow> unit gh" where
  "put_field s = do { out_puts s; out_putc NUL }"

definition put_branch :: "bool \<Rightarrow> string \<Rightarrow> string \<Rightarrow> string option \<Rightarrow> tracking \<Rightarrow> string \<Rightarrow> unit gh" where
  "put_branch is_head short_name refname up_name track subject = do {
     put_field (if is_head then ''*'' else '' '');
     put_field short_name;
     put_field refname;
     put_field (case up_name of Some u \<Rightarrow> shorten_upstream u | None \<Rightarrow> '''');
     put_field (case up_name of Some u \<Rightarrow> u | None \<Rightarrow> '''');
     put_track track;
     out_putc NUL; out_putc NUL; out_putc NUL; out_putc NUL;
     out_puts subject;
     out_putc LF
   }"

definition append_branch_record :: "git_repo \<Rightarrow> git_ref \<Rightarrow> int gh" where
  "append_branch_record repo ref = do {
     let refname = ref_name ref;
     let (ret, short_name) = ref_branch_name ref;
     if ret < 0 then do { log_git_err ret; result ret }
     else do {
       let is_head = (ref_branch_is_head ref = 1);
       let (ret, up) = branch_upstream_name repo refname;
       if ret \<noteq> 0 \<and> ret \<noteq> GIT_ENOTFOUND then do { log_git_err ret; result ret }
       else do {
         let up_name = (if ret = 0 then Some up else None);
         (if ret = 0 then acquire ''up_buf'' else error_clear);
         let (r, id) = reference_name_to_id repo refname;
         let oid = (if r = 0 then Some id else None);
         (if r = 0 then result () else do { log_at GH_LOG_LEVEL_DEBUG; error_clear });
         tr \<leftarrow> branch_tracking repo oid up_name;
         case tr of
           Inl ret \<Rightarrow> do { release_if (up_name \<noteq> None) ''up_buf''; result ret }
         | Inr track \<Rightarrow> do {
             (subject, have_commit) \<leftarrow> branch_subject repo oid;
             put_branch is_head short_name refname up_name track subject;
             release_if have_commit ''commit'';
             release_if (up_name \<noteq> None) ''up_buf'';
             result 0
           }
       }
     }
   }"

section \<open>The list\<close>

text \<open>
  The loop over the iterator; the result is the code at label \<open>out\<close>. \<open>fin\<close> is the code
  with which the iterator ends.
\<close>

primrec branch_loop :: "git_repo \<Rightarrow> int \<Rightarrow> git_ref list \<Rightarrow> int gh" where
  "branch_loop repo fin [] =
     (if fin = GIT_ITEROVER then result 0 else do { log_git_err fin; result fin })"
| "branch_loop repo fin (ref # refs) = do {
     acquire ''ref'';
     ret \<leftarrow> append_branch_record repo ref;
     (if ret < 0 then log_at GH_LOG_LEVEL_ERROR else result ());
     release ''ref'';
     if ret < 0 then result ret else branch_loop repo fin refs
   }"

definition get_branch_list :: "git_repo \<Rightarrow> int gh" where
  "get_branch_list repo = do {
     let ret = branch_iterator_new repo;
     if ret < 0 then do { log_git_err ret; result ret }
     else do {
       acquire ''iter'';
       ret \<leftarrow> branch_loop repo (snd (branch_iterator repo)) (fst (branch_iterator repo));
       release ''iter'';
       result ret
     }
   }"

section \<open>Handles and output\<close>

lemma framed_sum [simp]:
  "(\<And>a. framed (f a)) \<Longrightarrow> (\<And>b. framed (g b)) \<Longrightarrow> framed (case x of Inl a \<Rightarrow> f a | Inr b \<Rightarrow> g b)"
  by (cases x) simp_all

lemma framed_branch_parts [simp]:
  "framed (branch_tracking repo oid up)" "framed (branch_subject repo oid)" "framed (put_track t)"
  "framed (put_field s)"
  by (simp_all add: branch_tracking_def branch_subject_def put_track_def put_field_def Let_def
      split: option.split prod.split tracking.split)

lemma framed_put_branch [simp]: "framed (put_branch h n r u t s)"
  by (simp add: put_branch_def)

lemma framed_append_branch_record [simp]: "framed (append_branch_record repo ref)"
  by (simp add: append_branch_record_def Let_def split: prod.split)

lemma framed_branch_loop [simp]: "framed (branch_loop repo fin refs)"
  by (induction refs) simp_all

lemma framed_get_branch_list [simp]: "framed (get_branch_list repo)"
  by (simp add: get_branch_list_def Let_def)

lemma hwp_put_field [hwp_simps]: "hwp (put_field s) L Q = Q () L"
  by (simp add: put_field_def hwp_simps)

lemma hwp_put_track [hwp_simps]: "hwp (put_track t) L Q = Q () L"
  by (simp add: put_track_def hwp_simps split: tracking.split)

lemma hwp_put_branch [hwp_simps]: "hwp (put_branch h n r u t s) L Q = Q () L"
  by (simp add: put_branch_def hwp_simps)

lemma hwp_append_branch_record:
  assumes "''up_buf'' \<notin> set L" "''commit'' \<notin> set L"
  shows "hwp (append_branch_record repo ref) L (\<lambda>_ L'. L' = L)"
  using assms
  by (auto simp: append_branch_record_def branch_tracking_def branch_subject_def Let_def hwp_simps
      split: prod.split option.split sum.split)

lemma hwp_branch_loop: "hwp (branch_loop repo fin refs) [''iter''] (\<lambda>_ L. L = [''iter''])"
proof (induction refs)
  case Nil
  show ?case by (simp add: hwp_simps)
next
  case (Cons ref refs)
  have "hwp (append_branch_record repo ref) [''ref'', ''iter''] (\<lambda>_ L'. L' = [''ref'', ''iter''])"
    by (rule hwp_append_branch_record) simp_all
  then show ?case using Cons
    by (auto simp: hwp_simps elim!: hwp_mono)
qed

lemma clean_get_branch_list: "clean (get_branch_list repo)"
  by (auto simp: clean_hwp get_branch_list_def Let_def hwp_simps intro: hwp_mono [OF hwp_branch_loop])

section \<open>The rows\<close>

record branch_row =
  row_head :: bool
  row_short :: string
  row_ref :: string
  row_upstream :: "string option"
  row_track :: tracking
  row_subject :: string

text \<open>What a branch contributes: an error code, or its row.\<close>

definition branch_row_of :: "git_repo \<Rightarrow> git_ref \<Rightarrow> int + branch_row" where
  "branch_row_of repo ref =
     (let (nr, short) = ref_branch_name ref;
          (ur, up) = branch_upstream_name repo (ref_name ref);
          oid = (case reference_name_to_id repo (ref_name ref) of (r, i) \<Rightarrow> if r = 0 then Some i else None);
          up_name = (if ur = 0 then Some up else None)
      in if nr < 0 then Inl nr
         else if ur \<noteq> 0 \<and> ur \<noteq> GIT_ENOTFOUND then Inl ur
         else case ret_of (branch_tracking repo oid up_name) of
           Inl e \<Rightarrow> Inl e
         | Inr t \<Rightarrow> Inr \<lparr> row_head = (ref_branch_is_head ref = 1), row_short = short, row_ref = ref_name ref,
                       row_upstream = up_name, row_track = t, row_subject = fst (ret_of (branch_subject repo oid)) \<rparr>)"

definition track_text :: "tracking \<Rightarrow> string" where
  "track_text t =
     (case t of
        TrackNone \<Rightarrow> ''''
      | TrackGone \<Rightarrow> ''[gone]''
      | TrackCounts a b \<Rightarrow>
          if a = 0 \<and> b = 0 then ''''
          else ''['' @ (if a = 0 then '''' else ''ahead '' @ decimal a)
                  @ (if a = 0 \<or> b = 0 then '''' else '', '')
                  @ (if b = 0 then '''' else ''behind '' @ decimal b) @ '']'')"

text \<open>The ten fields of the line.\<close>

definition row_fields :: "branch_row \<Rightarrow> string list" where
  "row_fields r =
     [if row_head r then ''*'' else '' '', cstr (row_short r), cstr (row_ref r),
      (case row_upstream r of Some u \<Rightarrow> cstr (shorten_upstream u) | None \<Rightarrow> ''''),
      (case row_upstream r of Some u \<Rightarrow> cstr u | None \<Rightarrow> ''''),
      track_text (row_track r), '''', '''', '''', cstr (row_subject r)]"

definition show_row :: "branch_row \<Rightarrow> string" where
  "show_row r = concat (map (\<lambda>f. f @ [NUL]) (butlast (row_fields r))) @ last (row_fields r) @ [LF]"

lemma decimal_no_NUL [simp]: "NUL \<notin> set (decimal n)"
  by (rule decimal_no) (simp add: char_digit_def)

lemma put_track_writes: "kdata (out_of (put_track t)) = track_text t"
  by (auto simp: put_track_def track_text_def query_eval split: tracking.split)

lemma put_branch_writes:
  "kdata (out_of (put_branch h n r u t s)) =
     show_row \<lparr> row_head = h, row_short = n, row_ref = r, row_upstream = u, row_track = t, row_subject = s \<rparr>"
  by (simp add: put_branch_def put_field_def query_eval put_track_writes show_row_def row_fields_def
      split: option.split)

lemma silent_branch_parts:
  "out_of (branch_tracking repo oid up) = None" "out_of (branch_subject repo oid) = None"
  by (auto simp: branch_tracking_def branch_subject_def query_eval Let_def
      split: option.split prod.split)

lemma append_branch_record_row:
  "ret_of (append_branch_record repo ref) = (case branch_row_of repo ref of Inl e \<Rightarrow> e | Inr r \<Rightarrow> 0)"
  "kdata (out_of (append_branch_record repo ref)) =
     (case branch_row_of repo ref of Inl e \<Rightarrow> [] | Inr r \<Rightarrow> show_row r)"
  by (auto simp: append_branch_record_def branch_row_of_def query_eval Let_def silent_branch_parts
      put_branch_writes split: prod.split sum.split)

lemma branch_loop_rows:
  "\<forall>ref\<in>set refs. \<not> isl (branch_row_of repo ref) \<Longrightarrow>
     kdata (out_of (branch_loop repo fin (refs @ rest))) =
       concat (map (\<lambda>ref. show_row (projr (branch_row_of repo ref))) refs) @ kdata (out_of (branch_loop repo fin rest)) \<and>
     ret_of (branch_loop repo fin (refs @ rest)) = ret_of (branch_loop repo fin rest)"
  by (induction refs)
    (auto simp: query_eval append_branch_record_row split: sum.split_asm sum.split)

section \<open>Reading the rows\<close>

definition row_ok :: "branch_row \<Rightarrow> bool" where
  "row_ok r \<longleftrightarrow> LF \<notin> set (cstr (row_subject r))"

lemma track_text_no_NUL: "NUL \<notin> set (track_text t)"
  by (simp add: track_text_def split: tracking.split)

lemma row_fields_no_NUL: "f \<in> set (row_fields r) \<Longrightarrow> NUL \<notin> set f"
  by (auto simp: row_fields_def track_text_no_NUL split: option.splits if_splits)

lemma read_row: "row_ok r \<Longrightarrow> read_fields NUL 9 (show_row r @ rest) = Some (row_fields r, rest)"
proof -
  assume ok: "row_ok r"
  have "read_fields NUL (length (butlast (row_fields r)))
      (concat (map (\<lambda>f. f @ [NUL]) (butlast (row_fields r))) @ last (row_fields r) @ LF # rest) =
      Some (butlast (row_fields r) @ [last (row_fields r)], rest)"
    using ok by (intro read_fields_show) (auto simp: row_ok_def row_fields_def dest!: in_set_butlastD
        intro: row_fields_no_NUL split: option.splits if_splits simp: track_text_no_NUL)
  moreover have "length (butlast (row_fields r)) = 9" "row_fields r \<noteq> []" by (simp_all add: row_fields_def)
  ultimately show ?thesis by (simp add: show_row_def)
qed

interpretation branch_rows: record_codec show_row "read_fields NUL 9" row_fields row_ok "\<lambda>_. True"
  by unfold_locales (simp_all add: read_row, simp add: show_row_def)

text \<open>
  C13: The branch list can be read back: if the iterator runs to its end and each
  branch has a row with a one-line subject, the query returns 0 and a client that reads
  ten fields per line (nine ended by NUL bytes, the last by a line feed) gets exactly the
  fields of the rows, in order.
\<close>

lemma branch_list_reads_back:
  assumes "branch_iterator_new repo = 0" "branch_iterator repo = (refs, GIT_ITEROVER)"
    "map (branch_row_of repo) refs = map Inr rows" "list_all row_ok rows"
  shows "ret_of (get_branch_list repo) = 0 \<and>
    decode_stream (read_fields NUL 9) (kdata (out_of (get_branch_list repo))) = Some (map row_fields rows)"
proof -
  have "\<forall>ref\<in>set refs. \<not> isl (branch_row_of repo ref)"
    using assms(3) by (metis (no_types, lifting) in_set_conv_nth isl_def length_map nth_map sum.distinct(1))
  from branch_loop_rows [OF this, of GIT_ITEROVER "[]"]
  have *: "kdata (out_of (branch_loop repo GIT_ITEROVER refs)) =
      concat (map (\<lambda>ref. show_row (projr (branch_row_of repo ref))) refs)"
    "ret_of (branch_loop repo GIT_ITEROVER refs) = 0"
    by (simp_all add: query_eval)
  have "map (\<lambda>ref. projr (branch_row_of repo ref)) refs = rows"
    using arg_cong [OF assms(3), of "map projr"] by (simp add: comp_def)
  then have "map (\<lambda>ref. show_row (projr (branch_row_of repo ref))) refs = map show_row rows"
    by (auto simp: comp_def)
  with * have "kdata (out_of (branch_loop repo GIT_ITEROVER refs)) = concat (map show_row rows)"
    by simp
  with *(2) assms(1,2) branch_rows.decode_stream_enc [of rows] assms(4) show ?thesis
    by (simp add: get_branch_list_def query_eval list_all_iff)
qed

text \<open>A repository with one branch, one commit ahead of its upstream, and one whose upstream is gone.\<close>

definition two_branches :: git_repo where
  "two_branches = blank_repo\<lparr>
     branch_iterator := ([some_ref ''refs/heads/a'' ''a'' ''1'', some_ref ''refs/heads/b'' ''b'' ''1''], GIT_ITEROVER),
     branch_upstream_name := (\<lambda>n. if n = ''refs/heads/a'' then (0, ''refs/remotes/o/a'') else (0, ''refs/heads/x'')),
     reference_name_to_id := (\<lambda>n. if n = ''refs/heads/x'' then (GIT_ENOTFOUND, []) else (0, ''1'')),
     graph_ahead_behind := (\<lambda>_ _. (0, 1, 0)),
     commit_lookup := (\<lambda>_. (0, some_commit ''s'')) \<rparr>"

definition two_rows :: "branch_row list" where
  "two_rows =
     [\<lparr> row_head = True, row_short = ''a'', row_ref = ''refs/heads/a'', row_upstream = Some ''refs/remotes/o/a'',
        row_track = TrackCounts 1 0, row_subject = ''s'' \<rparr>,
      \<lparr> row_head = True, row_short = ''b'', row_ref = ''refs/heads/b'', row_upstream = Some ''refs/heads/x'',
        row_track = TrackGone, row_subject = ''s'' \<rparr>]"

lemma two_branches_rows: "map (branch_row_of two_branches) (fst (branch_iterator two_branches)) = map Inr two_rows"
  by (simp add: two_branches_def two_rows_def branch_row_of_def branch_tracking_def branch_subject_def
      query_eval sample_defs git_codes)

lemma branch_list_reads_back_witness:
  "ret_of (get_branch_list two_branches) = 0 \<and>
   decode_stream (read_fields NUL 9) (kdata (out_of (get_branch_list two_branches))) = Some (map row_fields two_rows)"
proof (rule branch_list_reads_back)
  show "branch_iterator_new two_branches = 0" by (simp add: two_branches_def sample_defs)
  show "branch_iterator two_branches = (fst (branch_iterator two_branches), GIT_ITEROVER)"
    by (simp add: two_branches_def)
  show "map (branch_row_of two_branches) (fst (branch_iterator two_branches)) = map Inr two_rows"
    by (rule two_branches_rows)
  show "list_all row_ok two_rows" by (simp add: two_rows_def row_ok_def)
qed

text \<open>
  One branch that fails ends the list: with a first branch whose record fails with a negative code,
  the query returns that code, after the rows of the branches before it and nothing of those after it.
\<close>

lemma branch_list_stops_at_error:
  assumes "branch_iterator_new repo = 0" "fst (branch_iterator repo) = refs @ bad # later"
    "\<forall>ref\<in>set refs. \<not> isl (branch_row_of repo ref)" "branch_row_of repo bad = Inl e" "e < 0"
  shows "ret_of (get_branch_list repo) = e \<and> kdata (out_of (get_branch_list repo)) =
    concat (map (\<lambda>ref. show_row (projr (branch_row_of repo ref))) refs)"
  using assms branch_loop_rows [OF assms(3), of "snd (branch_iterator repo)" "bad # later"]
  by (simp add: get_branch_list_def query_eval append_branch_record_row)

text \<open>The same branches, but the second has a name that libgit2 refuses.\<close>

definition bad_second_branch :: git_repo where
  "bad_second_branch = two_branches\<lparr>
     branch_iterator := ([some_ref ''refs/heads/a'' ''a'' ''1'', (some_ref ''x'' ''x'' ''1'')\<lparr> ref_branch_name := (-12, []) \<rparr>], GIT_ITEROVER) \<rparr>"

lemma branch_list_stops_at_error_witness:
  "ret_of (get_branch_list bad_second_branch) = -12 \<and> kdata (out_of (get_branch_list bad_second_branch)) =
    concat (map (\<lambda>ref. show_row (projr (branch_row_of bad_second_branch ref))) [some_ref ''refs/heads/a'' ''a'' ''1''])"
proof (rule branch_list_stops_at_error)
  show "branch_iterator_new bad_second_branch = 0" by (simp add: bad_second_branch_def two_branches_def sample_defs)
  show "fst (branch_iterator bad_second_branch) =
      [some_ref ''refs/heads/a'' ''a'' ''1''] @ (some_ref ''x'' ''x'' ''1'')\<lparr> ref_branch_name := (-12, []) \<rparr> # []"
    by (simp add: bad_second_branch_def)
qed (simp_all add: bad_second_branch_def two_branches_def branch_row_of_def branch_tracking_def branch_subject_def
      query_eval sample_defs git_codes)

end
