(* ===== verification/GitRefs.thy ===== *)
theory GitRefs
  imports GitBranches
begin

text \<open>
  The queries of \<open>src/src/git_handler.c\<close> that look up a single reference or object:
  upstream branch, abbreviated and full object identifiers, symbolic references, the
  subject of the head commit, and the loading of the commit graph.
\<close>

section \<open>Queries\<close>

definition get_upstream_branch :: "git_repo \<Rightarrow> string \<Rightarrow> int gh" where
  "get_upstream_branch repo branch_name = do {
     let (ret, branch) = branch_lookup repo branch_name;
     if ret < 0 then do { log_git_err ret; result ret }
     else do {
       acquire ''branch'';
       let (ret, upstream) = branch_upstream repo branch;
       if ret < 0 then do { log_git_err ret; release ''branch''; result ret }
       else do {
         acquire ''upstream'';
         let (ret, short_name) = ref_branch_name upstream;
         if ret < 0 then do { log_git_err ret; release ''upstream''; release ''branch''; result ret }
         else do {
           out_puts short_name;
           out_putc LF;
           release ''upstream'';
           release ''branch'';
           result 0
         }
       }
     }
   }"

definition get_rev_parse_short_head :: "git_repo \<Rightarrow> int gh" where
  "get_rev_parse_short_head repo = do {
     let (ret, obj) = revparse_single repo ''HEAD'';
     if ret < 0 then result ret
     else do {
       acquire ''obj'';
       let (ret, sid) = object_short_id obj;
       if ret < 0 then do { release ''obj''; result ret }
       else do {
         acquire ''sid'';
         out_puts sid;
         out_putc LF;
         release ''sid'';
         release ''obj'';
         result 0
       }
     }
   }"

definition get_symbolic_ref :: "git_repo \<Rightarrow> string \<Rightarrow> int gh" where
  "get_symbolic_ref repo refname = do {
     let (ret, ref) = reference_lookup repo refname;
     if ret < 0 then do { log_git_err ret; result ret }
     else do {
       acquire ''ref'';
       if \<not> ref_is_symbolic ref then do { release ''ref''; result GIT_ENOTFOUND }
       else case ref_symbolic_target ref of
         None \<Rightarrow> do { release ''ref''; result GIT_ENOTFOUND }
       | Some target \<Rightarrow> do {
           out_puts target;
           out_putc LF;
           release ''ref'';
           result 0
         }
     }
   }"

definition get_origin_head :: "git_repo \<Rightarrow> int gh" where
  "get_origin_head repo = get_symbolic_ref repo ''refs/remotes/origin/HEAD''"

text \<open>
  \<open>malloc_ok\<close> says whether the allocation of the path succeeds. When the commit graph
  is attached, its ownership passes to libgit2.
\<close>

definition load_commit_graph :: "bool \<Rightarrow> git_repo \<Rightarrow> int gh" where
  "load_commit_graph malloc_ok repo = do {
     let ret = repository_odb repo;
     if ret < 0 then do { log_at GH_LOG_LEVEL_DEBUG; result ret }
     else do {
       acquire ''odb'';
       case repository_path repo of
         None \<Rightarrow> do { log_at GH_LOG_LEVEL_DEBUG; release ''odb''; result (-1) }
       | Some repo_path \<Rightarrow>
           if \<not> malloc_ok then do { log_at GH_LOG_LEVEL_ERROR; release ''odb''; result (-1) }
           else do {
             acquire ''objects_info_path'';
             let ret = commit_graph_open repo (cstr repo_path @ ''objects/info'');
             release ''objects_info_path'';
             if ret < 0 then do { log_at GH_LOG_LEVEL_DEBUG; release ''odb''; result 0 }
             else do {
               acquire ''cgraph'';
               let ret = odb_set_commit_graph repo;
               if ret < 0 then do {
                 log_at GH_LOG_LEVEL_ERROR; release ''cgraph''; release ''odb''; result ret }
               else do {
                 log_at GH_LOG_LEVEL_INFO; release ''odb''; release ''cgraph''; result 0 }
             }
           }
     }
   }"

text \<open>
  \<open>git_oid_tostr\<close> into a buffer of \<open>n\<close> bytes: the text of the identifier, cut to what
  fits before the terminator. All buffers here have \<open>GIT_OID_HEXSZ + 1\<close> bytes.
\<close>

definition GIT_OID_HEXSZ :: nat where "GIT_OID_HEXSZ = 40"

definition git_oid_tostr :: "nat \<Rightarrow> git_oid \<Rightarrow> string" where
  "git_oid_tostr n oid = take (n - 1) (cstr oid)"

definition get_ref_oid :: "git_repo \<Rightarrow> string \<Rightarrow> int gh" where
  "get_ref_oid repo refname = do {
     let (ret, oid) = reference_name_to_id repo refname;
     if ret < 0 then do { log_git_err ret; result ret }
     else do {
       out_puts (git_oid_tostr (GIT_OID_HEXSZ + 1) oid);
       out_putc LF;
       result 0
     }
   }"

definition get_stash_oid :: "git_repo \<Rightarrow> int gh" where
  "get_stash_oid repo = get_ref_oid repo ''refs/stash''"

definition get_tag_master_oid :: "git_repo \<Rightarrow> int gh" where
  "get_tag_master_oid repo = get_ref_oid repo ''refs/tags/master''"

definition get_rev_parse_verify :: "git_repo \<Rightarrow> string \<Rightarrow> int gh" where
  "get_rev_parse_verify repo spec = do {
     let (ret, obj) = revparse_single repo spec;
     if ret < 0 then do { log_git_err ret; result ret }
     else do {
       acquire ''obj'';
       out_puts (git_oid_tostr (GIT_OID_HEXSZ + 1) (object_id obj));
       out_putc LF;
       release ''obj'';
       result 0
     }
   }"

definition get_branch_upstream_name :: "git_repo \<Rightarrow> string \<Rightarrow> int gh" where
  "get_branch_upstream_name repo branch_name = do {
     let (ret, branch) = branch_lookup repo branch_name;
     if ret < 0 then do { log_git_err ret; result ret }
     else do {
       acquire ''branch'';
       let (ret, upstream) = branch_upstream repo branch;
       release ''branch'';
       if ret < 0 then do { log_git_err ret; result ret }
       else do {
         acquire ''upstream'';
         let (ret, name) = ref_branch_name upstream;
         (if ret = 0 then out_puts name else log_git_err ret);
         release ''upstream'';
         result ret
       }
     }
   }"

text \<open>A commit whose summary is \<open>NULL\<close> is handed to \<open>kputs\<close>, which calls \<open>strlen\<close> on it.\<close>

definition git_head_subject :: "git_repo \<Rightarrow> string \<Rightarrow> int gh" where
  "git_head_subject repo target = do {
     let (error, head) = reference_lookup repo target;
     if error \<noteq> 0 then do { log_git_err error; result error }
     else do {
       acquire ''head'';
       let (error, commit) = ref_peel_commit head;
       release ''head'';
       if error \<noteq> 0 then do { log_git_err error; result error }
       else do {
         acquire ''obj'';
         (case commit_summary commit of None \<Rightarrow> fault ''kputs(NULL)'' | Some s \<Rightarrow> out_puts s);
         release ''obj'';
         result 0
       }
     }
   }"

definition git_symbolic_ref_short_head :: "git_repo \<Rightarrow> int gh" where
  "git_symbolic_ref_short_head repo = do {
     let (error, head_ref) = reference_lookup repo ''HEAD'';
     if error \<noteq> 0 then do { log_git_err error; result error }
     else do {
       acquire ''head_ref'';
       if \<not> ref_is_symbolic head_ref then do {
         log_at GH_LOG_LEVEL_DEBUG; release ''head_ref''; result GIT_ENOTFOUND }
       else case ref_symbolic_target head_ref of
         None \<Rightarrow> do { log_at GH_LOG_LEVEL_ERROR; release ''head_ref''; result GIT_ERROR }
       | Some target \<Rightarrow> do {
           let (error, resolved_ref) = reference_lookup repo target;
           if error \<noteq> 0 then do {
             let shorthand = (case strip_prefix ''refs/heads/'' target of Some s \<Rightarrow> s | None \<Rightarrow> target);
             log_at GH_LOG_LEVEL_DEBUG;
             out_puts shorthand;
             release ''head_ref'';
             result 0 }
           else do {
             acquire ''resolved_ref'';
             out_puts (ref_shorthand resolved_ref);
             release ''resolved_ref'';
             release ''head_ref'';
             result 0 }
         }
     }
   }"

text \<open>\<open>git_libgit2_version\<close> gives the three numbers; the text goes through a buffer of 64 bytes.\<close>

definition git_version_create :: "int \<times> int \<times> int \<Rightarrow> kstr" where
  "git_version_create v =
     (case v of (major, minor, revision) \<Rightarrow>
        kcat (str_create None 0)
          (take 63 (''git version '' @ decimal_int major @ ''.'' @ decimal_int minor @ ''.'' @ decimal_int revision)))"

text \<open>The result buffer is written on success only.\<close>

definition git_rev_head :: "git_repo \<Rightarrow> (int \<times> string option) gh" where
  "git_rev_head repo = do {
     let (error, head) = repository_head repo;
     if error \<noteq> 0 then do { log_git_err error; result (error, None) }
     else do {
       acquire ''head'';
       case ref_target head of
         None \<Rightarrow> do { log_at GH_LOG_LEVEL_ERROR; release ''head''; result (-1, None) }
       | Some oid \<Rightarrow> do {
           let buf = git_oid_tostr (GIT_OID_HEXSZ + 1) oid;
           release ''head'';
           result (0, Some buf)
         }
     }
   }"

lemmas ref_query_defs = get_upstream_branch_def get_rev_parse_short_head_def get_symbolic_ref_def
  get_origin_head_def load_commit_graph_def get_ref_oid_def get_stash_oid_def get_tag_master_oid_def
  get_rev_parse_verify_def get_branch_upstream_name_def git_head_subject_def
  git_symbolic_ref_short_head_def git_rev_head_def

lemma framed_ref_queries [simp]:
  "framed (get_upstream_branch repo b)" "framed (get_rev_parse_short_head repo)"
  "framed (get_symbolic_ref repo r)" "framed (get_origin_head repo)"
  "framed (load_commit_graph ok repo)" "framed (get_ref_oid repo r)"
  "framed (get_stash_oid repo)" "framed (get_tag_master_oid repo)"
  "framed (get_rev_parse_verify repo spec)" "framed (get_branch_upstream_name repo b)"
  "framed (git_head_subject repo t)" "framed (git_symbolic_ref_short_head repo)"
  "framed (git_rev_head repo)"
  by (simp_all add: ref_query_defs Let_def)

lemma clean_ref_queries:
  "clean (get_upstream_branch repo b)" "clean (get_rev_parse_short_head repo)"
  "clean (get_symbolic_ref repo r)" "clean (load_commit_graph ok repo)" "clean (get_ref_oid repo r)"
  "clean (get_rev_parse_verify repo spec)" "clean (get_branch_upstream_name repo b)"
  "clean (git_symbolic_ref_short_head repo)" "clean (git_rev_head repo)"
  by (simp_all add: clean_hwp ref_query_defs Let_def hwp_simps split: prod.split option.split)

section \<open>What the queries promise\<close>

text \<open>
  A query is \<open>line_or_error\<close> if it writes nothing when it fails and one text when
  it returns 0.
\<close>

definition line_or_error :: "int gh \<Rightarrow> bool" where
  "line_or_error m \<longleftrightarrow> (ret_of m < 0 \<and> out_of m = None) \<or> (ret_of m \<ge> 0 \<and> out_of m \<noteq> None)"

lemma kjoin_not_None [simp]: "kjoin a b = None \<longleftrightarrow> a = None \<and> b = None"
  by (cases a; cases b) simp_all

text \<open>
  C39: The reference queries are clean and atomic: on every path they free each handle they
  acquire exactly once, they write nothing when they fail, and they write something when they
  succeed.
\<close>

lemma reference_queries_clean_and_atomic:
  "list_all (\<lambda>q. clean q \<and> line_or_error q)
     [get_upstream_branch repo b, get_rev_parse_short_head repo, get_symbolic_ref repo r,
      get_ref_oid repo r, get_rev_parse_verify repo spec]"
proof -
  have "line_or_error (get_upstream_branch repo b)" "line_or_error (get_rev_parse_short_head repo)"
    "line_or_error (get_symbolic_ref repo r)" "line_or_error (get_ref_oid repo r)"
    "line_or_error (get_rev_parse_verify repo spec)"
    by (auto simp: line_or_error_def ref_query_defs query_eval git_codes split: prod.split option.split)
  then show ?thesis using clean_ref_queries by simp
qed

text \<open>
  The current branch: a detached head is \<open>GIT_ENOTFOUND\<close> with no output; a branch that
  exists is given by its shorthand; an unborn branch, whose reference does not resolve, by the target of the
  head without \<open>refs/heads/\<close>; and no handle is leaked or freed twice.
\<close>

lemma short_head_spec:
  "clean (git_symbolic_ref_short_head repo) \<and>
   (ret_of (git_symbolic_ref_short_head repo), out_of (git_symbolic_ref_short_head repo)) =
     (let (e, head) = reference_lookup repo ''HEAD''
      in if e \<noteq> 0 then (e, None)
         else if \<not> ref_is_symbolic head then (GIT_ENOTFOUND, None)
         else case ref_symbolic_target head of
           None \<Rightarrow> (GIT_ERROR, None)
         | Some t \<Rightarrow>
             (0, Some (if fst (reference_lookup repo t) = 0 then cstr (ref_shorthand (snd (reference_lookup repo t)))
                       else cstr (case strip_prefix ''refs/heads/'' t of Some s \<Rightarrow> s | None \<Rightarrow> t))))"
  by (rule conjI, rule clean_ref_queries) (auto simp: git_symbolic_ref_short_head_def query_eval split: prod.split option.split)

end
