(* ===== verification/GitStatus.thy ===== *)
theory GitStatus
  imports GitCore
begin

text \<open>
  \<open>git status --porcelain -z\<close> as \<open>get_status_porcelain_z\<close> of \<open>src/src/git_handler.c\<close> writes
  it: the two status letters, the path and, for a rename, the path before, each path
  terminated by a NUL byte; with a reader of the format.
\<close>

section \<open>Status letters\<close>

unbundle bit_operations_syntax

text \<open>The status bits of libgit2's documented interface, by their position.\<close>

abbreviation GIT_STATUS_INDEX_NEW :: u32 where "GIT_STATUS_INDEX_NEW \<equiv> push_bit 0 1"
abbreviation GIT_STATUS_INDEX_MODIFIED :: u32 where "GIT_STATUS_INDEX_MODIFIED \<equiv> push_bit 1 1"
abbreviation GIT_STATUS_INDEX_DELETED :: u32 where "GIT_STATUS_INDEX_DELETED \<equiv> push_bit 2 1"
abbreviation GIT_STATUS_INDEX_RENAMED :: u32 where "GIT_STATUS_INDEX_RENAMED \<equiv> push_bit 3 1"
abbreviation GIT_STATUS_INDEX_TYPECHANGE :: u32 where "GIT_STATUS_INDEX_TYPECHANGE \<equiv> push_bit 4 1"
abbreviation GIT_STATUS_WT_NEW :: u32 where "GIT_STATUS_WT_NEW \<equiv> push_bit 7 1"
abbreviation GIT_STATUS_WT_MODIFIED :: u32 where "GIT_STATUS_WT_MODIFIED \<equiv> push_bit 8 1"
abbreviation GIT_STATUS_WT_DELETED :: u32 where "GIT_STATUS_WT_DELETED \<equiv> push_bit 9 1"
abbreviation GIT_STATUS_WT_TYPECHANGE :: u32 where "GIT_STATUS_WT_TYPECHANGE \<equiv> push_bit 10 1"
abbreviation GIT_STATUS_WT_RENAMED :: u32 where "GIT_STATUS_WT_RENAMED \<equiv> push_bit 11 1"
abbreviation GIT_STATUS_CONFLICTED :: u32 where "GIT_STATUS_CONFLICTED \<equiv> push_bit 15 1"

abbreviation QUERY :: char where "QUERY \<equiv> CHR 0x3F"

definition status_xy :: "u32 \<Rightarrow> char \<times> char" where
  "status_xy s =
     (let X = (if s AND GIT_STATUS_INDEX_NEW \<noteq> 0 then CHR ''A''
               else if s AND GIT_STATUS_INDEX_MODIFIED \<noteq> 0 then CHR ''M''
               else if s AND GIT_STATUS_INDEX_DELETED \<noteq> 0 then CHR ''D''
               else if s AND GIT_STATUS_INDEX_RENAMED \<noteq> 0 then CHR ''R''
               else if s AND GIT_STATUS_INDEX_TYPECHANGE \<noteq> 0 then CHR ''T''
               else CHR '' '');
          Y = (if s AND GIT_STATUS_WT_NEW \<noteq> 0 then QUERY
               else if s AND GIT_STATUS_WT_MODIFIED \<noteq> 0 then CHR ''M''
               else if s AND GIT_STATUS_WT_DELETED \<noteq> 0 then CHR ''D''
               else if s AND GIT_STATUS_WT_RENAMED \<noteq> 0 then CHR ''R''
               else if s AND GIT_STATUS_WT_TYPECHANGE \<noteq> 0 then CHR ''T''
               else CHR '' '');
          X = (if s AND GIT_STATUS_WT_NEW \<noteq> 0 \<and>
                  s AND (GIT_STATUS_INDEX_NEW OR GIT_STATUS_INDEX_MODIFIED OR GIT_STATUS_INDEX_DELETED OR
                         GIT_STATUS_INDEX_RENAMED OR GIT_STATUS_INDEX_TYPECHANGE) = 0
               then QUERY else X)
      in if s AND GIT_STATUS_CONFLICTED \<noteq> 0 then (CHR ''U'', CHR ''U'') else (X, Y))"

section \<open>Paths\<close>

text \<open>A path of a delta that is present and differs from another one: \<open>strcmp (a, b) != 0\<close>.\<close>

definition differs :: "string \<Rightarrow> string \<Rightarrow> bool" where
  "differs a b \<longleftrightarrow> cstr a \<noteq> cstr b"

definition delta_new :: "git_diff_delta option \<Rightarrow> string option" where
  "delta_new d = (case d of None \<Rightarrow> None | Some d \<Rightarrow> new_file d)"

definition delta_old :: "git_diff_delta option \<Rightarrow> string option" where
  "delta_old d = (case d of None \<Rightarrow> None | Some d \<Rightarrow> old_file d)"

text \<open>The path and the path before of one entry.\<close>

definition entry_paths :: "git_status_entry \<Rightarrow> string option \<times> string option" where
  "entry_paths e =
     (let (path, old_path) =
            (case delta_new (index_to_workdir e) of
               Some p \<Rightarrow> (Some p, (case delta_old (index_to_workdir e) of
                                    Some q \<Rightarrow> if differs q p then Some q else None
                                  | None \<Rightarrow> None))
             | None \<Rightarrow> (delta_new (head_to_index e), None));
          old_path =
            (case (old_path, delta_old (head_to_index e), delta_new (head_to_index e)) of
               (None, Some q, Some p) \<Rightarrow> if differs q p then Some q else None
             | _ \<Rightarrow> old_path)
      in (path, old_path))"

section \<open>The query\<close>

definition put_status_entry :: "git_status_entry \<Rightarrow> unit gh" where
  "put_status_entry e =
     (let s = entry_status e; (X, Y) = status_xy s
      in if s = 0 then result ()
         else case entry_paths e of
           (None, _) \<Rightarrow> log_at GH_LOG_LEVEL_DEBUG
         | (Some path, old_path) \<Rightarrow> do {
             out_putc X; out_putc Y; out_putc CHR '' '';
             out_puts path;
             out_putc NUL;
             (case old_path of None \<Rightarrow> result () | Some q \<Rightarrow> do { out_puts q; out_putc NUL })
           })"

primrec put_status_entries :: "git_status_entry list \<Rightarrow> unit gh" where
  "put_status_entries [] = result ()"
| "put_status_entries (e # es) = do { put_status_entry e; put_status_entries es }"

definition get_status_porcelain_z :: "git_repo \<Rightarrow> int gh" where
  "get_status_porcelain_z repo = do {
     let (ret, entries) = status_list repo;
     if ret < 0 then do { log_git_err ret; result ret }
     else do {
       acquire ''status'';
       log_at GH_LOG_LEVEL_DEBUG;
       put_status_entries entries;
       release ''status'';
       result 0
     }
   }"

lemma framed_put_status_entry [simp]: "framed (put_status_entry e)"
  by (simp add: put_status_entry_def Let_def split: prod.split option.split)

lemma framed_put_status_entries [simp]: "framed (put_status_entries es)"
  by (induction es) simp_all

lemma framed_get_status [simp]: "framed (get_status_porcelain_z repo)"
  by (simp add: get_status_porcelain_z_def Let_def split: prod.split)

lemma hwp_put_status_entries [hwp_simps]: "hwp (put_status_entries es) L Q = Q () L"
proof (induction es)
  case (Cons e es)
  have "hwp (put_status_entry e) L R = R () L" for R
    by (simp add: put_status_entry_def Let_def hwp_simps split: prod.split option.split)
  then show ?case using Cons by (simp add: hwp_simps)
qed (simp add: hwp_simps)

lemma clean_get_status: "clean (get_status_porcelain_z repo)"
  by (simp add: clean_hwp get_status_porcelain_z_def Let_def hwp_simps split: prod.split)

section \<open>The format\<close>

type_synonym status_record = "char \<times> char \<times> string \<times> string option"

text \<open>The records the client expects, one for each changed entry that has a path.\<close>

definition status_record_of :: "git_status_entry \<Rightarrow> status_record option" where
  "status_record_of e =
     (if entry_status e = 0 then None
      else case entry_paths e of
        (None, _) \<Rightarrow> None
      | (Some p, q) \<Rightarrow> Some (fst (status_xy (entry_status e)), snd (status_xy (entry_status e)),
                             cstr p, map_option cstr q))"

definition show_status :: "status_record \<Rightarrow> string" where
  "show_status r = (case r of (x, y, p, q) \<Rightarrow>
     [x, y, CHR '' ''] @ p @ [NUL] @ (case q of None \<Rightarrow> [] | Some q \<Rightarrow> q @ [NUL]))"

text \<open>The reader of the porcelain format: a rename letter announces a second path.\<close>

definition read_status :: "string \<Rightarrow> (status_record \<times> string) option" where
  "read_status s =
     (case s of
        x # y # b # s \<Rightarrow>
          (case if b = CHR '' '' then read_until NUL s else None of
             None \<Rightarrow> None
           | Some (p, s) \<Rightarrow>
               if x = CHR ''R'' \<or> y = CHR ''R''
               then map_option (\<lambda>(q, s). ((x, y, p, Some q), s)) (read_until NUL s)
               else Some ((x, y, p, None), s))
      | _ \<Rightarrow> None)"

definition status_ok :: "status_record \<Rightarrow> bool" where
  "status_ok r = (case r of (x, y, p, q) \<Rightarrow>
     NUL \<notin> set p \<and> (case q of None \<Rightarrow> x \<noteq> CHR ''R'' \<and> y \<noteq> CHR ''R''
                            | Some q \<Rightarrow> NUL \<notin> set q \<and> (x = CHR ''R'' \<or> y = CHR ''R'')))"

interpretation porcelain: record_codec show_status read_status "\<lambda>r. r" status_ok "\<lambda>_. True"
  by unfold_locales (auto simp: show_status_def read_status_def status_ok_def split: option.splits)

lemma put_status_entry_writes:
  "kdata (out_of (put_status_entry e)) =
     (case status_record_of e of None \<Rightarrow> [] | Some r \<Rightarrow> show_status r)"
  by (cases "status_xy (entry_status e)")
    (auto simp: put_status_entry_def status_record_of_def show_status_def query_eval
      split: option.split prod.split)

lemma put_status_entries_writes:
  "kdata (out_of (put_status_entries es)) = concat (map show_status (List.map_filter status_record_of es))"
  by (induction es) (simp_all add: query_eval put_status_entry_writes map_filter_simps split: option.split)

lemma get_status_writes:
  "\<not> fst (status_list repo) < 0 \<Longrightarrow> kdata (out_of (get_status_porcelain_z repo)) =
     concat (map show_status (List.map_filter status_record_of (snd (status_list repo))))"
  by (cases "status_list repo")
    (simp add: get_status_porcelain_z_def Let_def query_eval put_status_entries_writes)

lemma get_status_ret: "ret_of (get_status_porcelain_z repo) = (if fst (status_list repo) < 0 then fst (status_list repo) else 0)"
  by (cases "status_list repo") (simp add: get_status_porcelain_z_def Let_def query_eval)

text \<open>
  The lines of an entry, cut at the zero bytes: letters, a blank and the path, and the path before if there is one. And whether the
  letters announce the path before.
\<close>

definition status_lines :: "status_record \<Rightarrow> string list" where
  "status_lines r = (case r of (x, y, p, q) \<Rightarrow> ([x, y, CHR '' ''] @ p) # (case q of None \<Rightarrow> [] | Some q \<Rightarrow> [q]))"

definition rename_shown :: "status_record \<Rightarrow> bool" where
  "rename_shown r = (case r of (x, y, p, q) \<Rightarrow> (q \<noteq> None) = (x = CHR ''R'' \<or> y = CHR ''R''))"

lemma status_xy_letters: "NUL \<notin> {fst (status_xy s), snd (status_xy s)}"
  by (simp add: status_xy_def Let_def)

lemma status_record_bytes: "status_record_of e = Some r \<Longrightarrow> (\<forall>l\<in>set (status_lines r). NUL \<notin> set l) \<and> (rename_shown r \<longrightarrow> status_ok r)"
  using status_xy_letters [of "entry_status e"]
  by (auto simp: status_record_of_def status_lines_def rename_shown_def status_ok_def split: if_splits prod.splits option.splits)

lemma show_status_lines: "show_status r = concat (map (\<lambda>l. l @ [NUL]) (status_lines r))"
  by (cases r) (auto simp: show_status_def status_lines_def split: option.split)

lemma show_status_concat: "concat (map show_status rs) = concat (map (\<lambda>l. l @ [NUL]) (concat (map status_lines rs)))"
  by (induction rs) (simp_all add: show_status_lines)

lemma read_status_shown: "read_status s = Some (r, t) \<Longrightarrow> rename_shown r"
  by (auto simp: read_status_def rename_shown_def split: list.splits option.splits if_splits)

lemma set_map_filter: "r \<in> set (List.map_filter f xs) \<longleftrightarrow> (\<exists>x\<in>set xs. f x = Some r)"
  by (induction xs) (auto simp: map_filter_simps split: option.split)

text \<open>
  C12: The status text. When the status list is available the query returns 0, and the text, cut at the zero bytes, consists, in order, of
  the lines of every entry that has a change and a path: its letters, a blank and its path, then the path before if it has
  one. A client that reads the porcelain format, in which exactly the letter \<open>R\<close> announces a second path, gets these
  entries back exactly when each of them has the letter \<open>R\<close> if and only if a path before is printed. That is no
  property of the lists of libgit2: an entry that was renamed and changed as well is shown with \<open>M\<close>
  (\<open>edited_rename_is_misread\<close>), so that the client takes the path before for another entry.
\<close>

lemma status_porcelain_reads_back:
  assumes "status_list repo = (0, es)"
  shows "ret_of (get_status_porcelain_z repo) = 0 \<and>
    decode_stream (read_until NUL) (kdata (out_of (get_status_porcelain_z repo))) =
      Some (concat (map status_lines (List.map_filter status_record_of es))) \<and>
    (decode_stream read_status (kdata (out_of (get_status_porcelain_z repo))) = Some (List.map_filter status_record_of es)
      \<longleftrightarrow> list_all rename_shown (List.map_filter status_record_of es))"
proof (intro conjI)
  let ?rs = "List.map_filter status_record_of es" let ?t = "kdata (out_of (get_status_porcelain_z repo))"
  have written: "?t = concat (map show_status ?rs)" using assms by (simp add: get_status_writes)
  have rs: "\<forall>r\<in>set ?rs. (\<forall>l\<in>set (status_lines r). NUL \<notin> set l) \<and> (rename_shown r \<longrightarrow> status_ok r)"
  proof
    fix r assume "r \<in> set ?rs"
    then obtain e where "status_record_of e = Some r" unfolding set_map_filter by blast
    then show "(\<forall>l\<in>set (status_lines r). NUL \<notin> set l) \<and> (rename_shown r \<longrightarrow> status_ok r)" by (rule status_record_bytes)
  qed
  show "ret_of (get_status_porcelain_z repo) = 0" using assms by (simp add: get_status_ret)
  have "?t = concat (map (\<lambda>l. l @ [NUL]) (concat (map status_lines ?rs)))"
    unfolding written by (rule show_status_concat)
  moreover have "\<forall>l\<in>set (concat (map status_lines ?rs)). NUL \<notin> set l" using rs by simp
  ultimately show "decode_stream (read_until NUL) ?t = Some (concat (map status_lines ?rs))"
    using pieces.decode_stream_enc [of "concat (map status_lines ?rs)" NUL] by simp
  show "decode_stream read_status ?t = Some ?rs \<longleftrightarrow> list_all rename_shown ?rs"
  proof
    assume "decode_stream read_status ?t = Some ?rs"
    from decode_stream_read [OF this] read_status_shown show "list_all rename_shown ?rs" unfolding list_all_iff by blast
  next
    assume "list_all rename_shown ?rs"
    then have "\<forall>r\<in>set ?rs. status_ok r" using rs by (simp add: list_all_iff)
    from porcelain.decode_stream_enc [OF this] show "decode_stream read_status ?t = Some ?rs" unfolding written by simp
  qed
qed

text \<open>
  A file renamed in the index from \<open>old\<close> to \<open>new\<close> and edited: libgit2 sets both bits, the letter is that of the modification, and
  the name of before is read as an entry with the letters \<open>o\<close> and \<open>l\<close>, which is refused.
\<close>

definition edited_rename :: git_status_entry where
  "edited_rename = \<lparr> entry_status = 10, head_to_index = Some \<lparr> old_file = Some ''old'', new_file = Some ''new'' \<rparr>, index_to_workdir = None \<rparr>"

lemma edited_rename_is_misread:
  "status_record_of edited_rename = Some (CHR ''M'', CHR '' '', ''new'', Some ''old'') \<and>
   kdata (out_of (put_status_entry edited_rename)) = ''M  new'' @ [NUL] @ ''old'' @ [NUL] \<and>
   decode_stream read_status (kdata (out_of (put_status_entry edited_rename))) = None"
proof -
  have r: "status_record_of edited_rename = Some (CHR ''M'', CHR '' '', ''new'', Some ''old'')"
    by (simp add: edited_rename_def status_record_of_def status_xy_def entry_paths_def delta_new_def delta_old_def differs_def Let_def)
  then have t: "kdata (out_of (put_status_entry edited_rename)) = ''M  new'' @ [NUL] @ ''old'' @ [NUL]"
    unfolding put_status_entry_writes by (simp add: show_status_def)
  have "decode_stream read_status (''M  new'' @ [NUL] @ ''old'' @ [NUL]) = None"
    by (simp add: decode_stream_def read_status_def read_until_def)
  then show ?thesis using r t by simp
qed

definition sample_status :: "git_status_entry list" where
  "sample_status =
     [\<lparr> entry_status = 0x80, head_to_index = None,
        index_to_workdir = Some \<lparr> old_file = Some ''new'', new_file = Some ''new'' \<rparr> \<rparr>,
      \<lparr> entry_status = 8, head_to_index = Some \<lparr> old_file = Some ''a'', new_file = Some ''b'' \<rparr>,
        index_to_workdir = None \<rparr>]"

lemmas status_sample_eval = sample_status_def status_xy_def entry_paths_def
  delta_new_def delta_old_def differs_def status_record_of_def map_filter_simps

lemma status_porcelain_reads_back_witness:
  "\<forall>repo. ret_of (get_status_porcelain_z (repo\<lparr> status_list := (0, sample_status) \<rparr>)) = 0 \<and>
    decode_stream read_status (kdata (out_of (get_status_porcelain_z (repo\<lparr> status_list := (0, sample_status) \<rparr>)))) =
      Some [(QUERY, QUERY, ''new'', None), (CHR ''R'', CHR '' '', ''b'', Some ''a'')]"
proof
  fix repo :: git_repo
  have s: "status_list (repo\<lparr> status_list := (0, sample_status) \<rparr>) = (0, sample_status)" by simp
  have r: "List.map_filter status_record_of sample_status =
      [(QUERY, QUERY, ''new'', None), (CHR ''R'', CHR '' '', ''b'', Some ''a'')]"
    by (simp add: status_sample_eval)
  have l: "list_all rename_shown (List.map_filter status_record_of sample_status)" unfolding r by (simp add: rename_shown_def)
  show "ret_of (get_status_porcelain_z (repo\<lparr> status_list := (0, sample_status) \<rparr>)) = 0 \<and>
    decode_stream read_status (kdata (out_of (get_status_porcelain_z (repo\<lparr> status_list := (0, sample_status) \<rparr>)))) =
      Some [(QUERY, QUERY, ''new'', None), (CHR ''R'', CHR '' '', ''b'', Some ''a'')]"
    using status_porcelain_reads_back [OF s] l unfolding r by blast
qed

text \<open>
  The status letters, bit by bit. A conflicted entry is \<open>UU\<close> whatever else is set; a
  file that is only untracked is two question marks; the index letter is the first set of
  the index bits in the order added, modified, deleted, renamed, type change, and a blank if there is none
  and the file is not untracked.
\<close>

lemma status_letters:
  "status_xy s =
     (if bit s 15 then (CHR ''U'', CHR ''U'')
      else (case find (\<lambda>(i, c). bit s i) [(0, CHR ''A''), (1, CHR ''M''), (2, CHR ''D''), (3, CHR ''R''), (4, CHR ''T'')] of
              Some (i, c) \<Rightarrow> c | None \<Rightarrow> if bit s 7 then QUERY else CHR '' '',
            case find (\<lambda>(i, c). bit s i) [(7, QUERY), (8, CHR ''M''), (9, CHR ''D''), (11, CHR ''R''), (10, CHR ''T'')] of
              Some (i, c) \<Rightarrow> c | None \<Rightarrow> CHR '' ''))"
proof -
  have b: "s AND push_bit n 1 \<noteq> 0 \<longleftrightarrow> bit s n" for n
    by (rule bit_iff_and_push_bit_not_eq_0 [symmetric])
  have o: "s AND (a OR c) = 0 \<longleftrightarrow> s AND a = 0 \<and> s AND c = 0" for a c :: u32
    by (simp add: bit.conj_disj_distrib or_eq_0_iff)
  have b0: "s AND push_bit n 1 = 0 \<longleftrightarrow> \<not> bit s n" for n using b [of n] by blast
  show ?thesis
    unfolding status_xy_def Let_def o b0 by (simp add: Let_def)
qed

end
