(* ===== verification/GitConfig.thy ===== *)
theory GitConfig
  imports GitRefs
begin

text \<open>
  The configuration queries of \<open>src/src/git_handler.c\<close>: the listing
  \<open>git_config_list_z\<close> with a reader of its format, and
  \<open>get_config_status_show_untracked_files\<close>.
\<close>

section \<open>The listing\<close>

text \<open>An entry is its name and its value, which libgit2 documents as \<open>NULL\<close> for a name without an equals sign.\<close>

type_synonym config_entry = "string \<times> string option"

primrec config_loop :: "config_entry list \<Rightarrow> unit gh" where
  "config_loop [] = result ()"
| "config_loop (e # es) = do {
     out_puts (fst e);
     out_putc LF;
     (case snd e of None \<Rightarrow> result () | Some v \<Rightarrow> out_puts v);
     out_putc NUL;
     config_loop es
   }"

definition git_config_list_z :: "git_repo \<Rightarrow> int gh" where
  "git_config_list_z repo = do {
     let error = repository_config repo;
     if error \<noteq> 0 then do { log_git_err error; result error }
     else do {
       acquire ''cfg'';
       let error = config_iterator_new repo;
       if error \<noteq> 0 then do { log_git_err error; release ''cfg''; result error }
       else do {
         acquire ''iter'';
         config_loop (fst (config_iterator repo));
         let error = snd (config_iterator repo);
         release ''iter'';
         release ''cfg'';
         (if error \<noteq> GIT_ITEROVER then log_git_err error else result ());
         result (if error = GIT_ITEROVER then 0 else error)
       }
     }
   }"

section \<open>One value\<close>

definition get_config_status_show_untracked_files :: "git_repo \<Rightarrow> int gh" where
  "get_config_status_show_untracked_files repo = do {
     let error = repository_config repo;
     if error < 0 then do { log_git_err error; result error }
     else do {
       acquire ''config'';
       let (error, value) = config_get_string_buf repo ''status.showUntrackedFiles'';
       (if error = 0 then acquire ''value'' else result ());
       (case (error = 0, value) of
          (True, Some v) \<Rightarrow> out_puts v
        | _ \<Rightarrow> if error < 0 then log_git_err error else result ());
       release_if (error = 0) ''value'';
       release ''config'';
       result 0
     }
   }"

lemma framed_config_loop [simp]: "framed (config_loop es)"
  by (induction es) simp_all

lemma hwp_config_loop [hwp_simps]: "hwp (config_loop es) L Q = Q () L"
  by (induction es) (simp_all add: hwp_simps split: option.split)

lemma framed_config [simp]:
  "framed (git_config_list_z repo)" "framed (get_config_status_show_untracked_files repo)"
  by (simp_all add: git_config_list_z_def get_config_status_show_untracked_files_def Let_def
      split: prod.split option.split bool.split)

lemma clean_config:
  "clean (git_config_list_z repo)" "clean (get_config_status_show_untracked_files repo)"
  by (simp_all add: clean_hwp git_config_list_z_def get_config_status_show_untracked_files_def Let_def
      hwp_simps split: prod.split option.split bool.split)

section \<open>The format\<close>

definition show_entry :: "config_entry \<Rightarrow> string" where
  "show_entry e = cstr (fst e) @ [LF] @ (case snd e of None \<Rightarrow> [] | Some v \<Rightarrow> cstr v) @ [NUL]"

text \<open>The reader splits at the NUL byte, then at the first line feed.\<close>

definition read_entry :: "string \<Rightarrow> ((string \<times> string) \<times> string) option" where
  "read_entry s =
     (case read_until NUL s of
        None \<Rightarrow> None
      | Some (e, r) \<Rightarrow> map_option (\<lambda>kv. (kv, r)) (read_until LF e))"

definition entry_ok :: "config_entry \<Rightarrow> bool" where
  "entry_ok e \<longleftrightarrow> LF \<notin> set (cstr (fst e))"

definition entry_view :: "config_entry \<Rightarrow> string \<times> string" where
  "entry_view e = (cstr (fst e), case snd e of None \<Rightarrow> [] | Some v \<Rightarrow> cstr v)"

lemma read_show_entry:
  assumes "entry_ok e"
  shows "read_entry (show_entry e @ r) = Some (entry_view e, r)"
proof -
  obtain n v where e: "e = (n, v)" by (cases e)
  let ?v = "case v of None \<Rightarrow> [] | Some v \<Rightarrow> cstr v"
  have "NUL \<notin> set (cstr n @ LF # ?v)" by (simp split: option.split)
  from read_until_append [OF this, of r] assms show ?thesis
    by (simp add: e show_entry_def read_entry_def entry_ok_def entry_view_def)
qed

interpretation config: record_codec show_entry read_entry entry_view entry_ok "\<lambda>_. True"
  by unfold_locales (simp_all add: read_show_entry, simp add: show_entry_def)

lemma config_loop_writes: "kdata (out_of (config_loop es)) = concat (map show_entry es)"
  by (induction es) (auto simp: query_eval show_entry_def split: option.split)

lemma config_list_writes:
  "repository_config repo = 0 \<Longrightarrow> config_iterator_new repo = 0 \<Longrightarrow>
   kdata (out_of (git_config_list_z repo)) = concat (map show_entry (fst (config_iterator repo)))"
  by (simp add: git_config_list_z_def query_eval config_loop_writes Let_def)

text \<open>
  C16: The configuration listing can be read back: when the iterator runs to its end and no
  name has a line feed, the query returns 0, and splitting its text at the NUL bytes and each piece at
  its first line feed gives the names and values in order, with the empty text for a missing value, whatever bytes the values have.
\<close>

lemma config_list_reads_back:
  assumes "repository_config repo = 0" "config_iterator_new repo = 0"
    "config_iterator repo = (es, GIT_ITEROVER)" "list_all entry_ok es"
  shows "ret_of (git_config_list_z repo) = 0 \<and>
    decode_stream read_entry (kdata (out_of (git_config_list_z repo))) = Some (map entry_view es)"
  using assms config.decode_stream_enc [of es]
  by (simp add: config_list_writes list_all_iff) (simp add: git_config_list_z_def query_eval Let_def)

definition sample_config :: git_repo where
  "sample_config = blank_repo\<lparr> config_iterator :=
     ([(''core.bare'', Some ''false''), (''alias.x'', Some (''a'' @ [LF] @ ''b'')), (''core.flag'', None)], GIT_ITEROVER) \<rparr>"

lemma config_list_reads_back_witness:
  "ret_of (git_config_list_z sample_config) = 0 \<and>
   decode_stream read_entry (kdata (out_of (git_config_list_z sample_config))) =
     Some [(''core.bare'', ''false''), (''alias.x'', ''a'' @ [LF] @ ''b''), (''core.flag'', '''')]"
  using config_list_reads_back [of sample_config
      "[(''core.bare'', Some ''false''), (''alias.x'', Some (''a'' @ [LF] @ ''b'')), (''core.flag'', None)]"]
  by (simp add: sample_config_def sample_defs entry_ok_def entry_view_def)

text \<open>
  What the listing loses: a name without a value, which Git reads as true and lists without the
  line feed, is listed like the same name with the empty value, which Git reads as false.
\<close>

lemma config_list_confuses_missing_and_empty:
  "kdata (out_of (git_config_list_z (repo\<lparr> repository_config := 0, config_iterator_new := 0,
       config_iterator := (es @ (name, None) # fs, fin) \<rparr>))) =
   kdata (out_of (git_config_list_z (repo\<lparr> repository_config := 0, config_iterator_new := 0,
       config_iterator := (es @ (name, Some '''') # fs, fin) \<rparr>)))"
  by (simp add: config_list_writes show_entry_def)

text \<open>
  The option is reported as unset, never as an error, when it cannot be read: the
  query fails only if the configuration cannot be opened, and writes only a value that was found.
\<close>

lemma show_untracked_behaviour:
  "ret_of (get_config_status_show_untracked_files repo) = min 0 (repository_config repo) \<and>
   out_of (get_config_status_show_untracked_files repo) =
     (if repository_config repo < 0 \<or> fst (config_get_string_buf repo ''status.showUntrackedFiles'') \<noteq> 0 then None
      else map_option cstr (snd (config_get_string_buf repo ''status.showUntrackedFiles'')))"
  by (cases "config_get_string_buf repo ''status.showUntrackedFiles''")
    (simp add: get_config_status_show_untracked_files_def query_eval Let_def release_if_def split: option.split)

end
