(* ===== verification/GitWorktrees.thy ===== *)
theory GitWorktrees
  imports GitConfig
begin

text \<open>
  \<open>git worktree list --porcelain -z\<close> as \<open>list_worktrees_porcelain\<close> of
  \<open>src/src/git_handler.c\<close> writes it: the main worktree, then the linked ones, each a group of
  NUL-terminated lines closed by an empty line; with a reader of the format.
\<close>

section \<open>The query\<close>

text \<open>
  What is written for a head: \<open>head_ret\<close> is the code of \<open>git_repository_head\<close>, \<open>detached\<close>
  that of \<open>git_repository_head_detached\<close>. The reference is the local \<open>head_ref\<close> that
  both parts of the function use.
\<close>

definition put_head :: "int \<times> git_ref \<Rightarrow> int \<Rightarrow> unit gh" where
  "put_head head detached =
     (case head of (head_ret, head_ref) \<Rightarrow>
        if head_ret = 0 then do {
          acquire ''head_ref'';
          (case ref_target head_ref of
             None \<Rightarrow> fault ''git_oid_tostr(NULL)''
           | Some oid \<Rightarrow> do {
               out_puts ''HEAD '';
               out_puts (git_oid_tostr (GIT_OID_HEXSZ + 1) oid);
               out_putc NUL });
          (if detached = 1 then do { out_puts ''detached''; out_putc NUL }
           else do { out_puts ''branch ''; out_puts (ref_name head_ref); out_putc NUL });
          release ''head_ref''
        }
        else log_git_err head_ret)"

definition put_main_worktree :: "git_repo \<Rightarrow> unit gh" where
  "put_main_worktree repo = do {
     let is_bare = (repository_is_bare repo \<noteq> 0);
     let main_path = (if is_bare then repository_path repo else repository_workdir repo);
     out_puts ''worktree '';
     (case main_path of None \<Rightarrow> fault ''kputs(NULL)'' | Some p \<Rightarrow> out_puts p);
     out_putc NUL;
     put_head (repository_head repo) (repository_head_detached repo);
     (if is_bare then do { out_puts ''bare''; out_putc NUL } else result ());
     out_putc NUL
   }"

definition put_linked_worktree :: "git_repo \<Rightarrow> string \<Rightarrow> unit gh" where
  "put_linked_worktree repo name =
     (case worktree_lookup repo name of (r, wt) \<Rightarrow>
        if r < 0 then log_at GH_LOG_LEVEL_WARN
        else do {
          acquire ''wt'';
          out_puts ''worktree '';
          out_puts (worktree_path wt);
          out_putc NUL;
          (if worktree_open wt = 0 then do {
             acquire ''wt_repo'';
             put_head (worktree_head wt) (worktree_head_detached wt);
             release ''wt_repo'' }
           else log_at GH_LOG_LEVEL_WARN);
          (let (locked, reason) = worktree_is_locked wt
           in if locked > 0 then do {
                out_puts ''locked'';
                (case reason of
                   Some p \<Rightarrow> if cstr p \<noteq> [] then do { out_putc CHR '' ''; out_puts p } else result ()
                 | None \<Rightarrow> result ());
                out_putc NUL }
              else result ());
          (if worktree_is_prunable wt > 0 then do { out_puts ''prunable''; out_putc NUL } else result ());
          out_putc NUL;
          release ''wt''
        })"

primrec put_linked_worktrees :: "git_repo \<Rightarrow> string list \<Rightarrow> unit gh" where
  "put_linked_worktrees repo [] = result ()"
| "put_linked_worktrees repo (n # ns) = do { put_linked_worktree repo n; put_linked_worktrees repo ns }"

definition list_worktrees_porcelain :: "git_repo \<Rightarrow> int gh" where
  "list_worktrees_porcelain repo = do {
     put_main_worktree repo;
     let (ret, names) = worktree_list repo;
     if ret < 0 then do { log_git_err ret; result ret }
     else do {
       acquire ''wt_names'';
       log_at GH_LOG_LEVEL_DEBUG;
       put_linked_worktrees repo names;
       release ''wt_names'';
       result 0
     }
   }"

lemma framed_put_head [simp]: "framed (put_head head detached)"
  by (simp add: put_head_def split: prod.split)

lemma framed_worktree_parts [simp]: "framed (put_main_worktree repo)" "framed (put_linked_worktree repo n)"
  by (simp_all add: put_main_worktree_def put_linked_worktree_def Let_def split: prod.split)

lemma framed_put_linked_worktrees [simp]: "framed (put_linked_worktrees repo ns)"
  by (induction ns) simp_all

lemma framed_list_worktrees [simp]: "framed (list_worktrees_porcelain repo)"
  by (simp add: list_worktrees_porcelain_def Let_def split: prod.split)

text \<open>The main worktree has a path, and a head that can be resolved has a target.\<close>

definition head_resolved :: "int \<times> git_ref \<Rightarrow> bool" where
  "head_resolved head \<longleftrightarrow> (fst head = 0 \<longrightarrow> ref_target (snd head) \<noteq> None)"

definition worktrees_resolved :: "git_repo \<Rightarrow> bool" where
  "worktrees_resolved repo \<longleftrightarrow>
     (if repository_is_bare repo \<noteq> 0 then repository_path repo \<noteq> None else repository_workdir repo \<noteq> None) \<and>
     head_resolved (repository_head repo) \<and>
     list_all (\<lambda>n. head_resolved (worktree_head (snd (worktree_lookup repo n)))) (snd (worktree_list repo))"

lemma hwp_put_head [hwp_simps]:
  "head_resolved head \<Longrightarrow> ''head_ref'' \<notin> set L \<Longrightarrow> hwp (put_head head detached) L Q = Q () L"
  by (cases head) (auto simp: put_head_def head_resolved_def hwp_simps split: option.split)

lemma hwp_put_linked_worktrees:
  "list_all (\<lambda>n. head_resolved (worktree_head (snd (worktree_lookup repo n)))) ns \<Longrightarrow>
   hwp (put_linked_worktrees repo ns) [''wt_names''] Q = Q () [''wt_names'']"
  by (induction ns)
    (auto simp: hwp_simps put_linked_worktree_def split: prod.split option.split)

lemma clean_list_worktrees: "worktrees_resolved repo \<Longrightarrow> clean (list_worktrees_porcelain repo)"
  by (auto simp: clean_hwp list_worktrees_porcelain_def put_main_worktree_def worktrees_resolved_def
      hwp_simps hwp_put_linked_worktrees Let_def split: prod.split option.split if_splits)

section \<open>The format\<close>

text \<open>The lines of the two kinds of group.\<close>

definition head_lines :: "int \<times> git_ref \<Rightarrow> int \<Rightarrow> string list" where
  "head_lines head detached =
     (if fst head = 0 then
        [''HEAD '' @ git_oid_tostr 41 (the (ref_target (snd head))),
         if detached = 1 then ''detached'' else ''branch '' @ cstr (ref_name (snd head))]
      else [])"

definition main_lines :: "git_repo \<Rightarrow> string list" where
  "main_lines repo =
     [''worktree '' @ cstr (the (if repository_is_bare repo \<noteq> 0 then repository_path repo else repository_workdir repo))]
     @ head_lines (repository_head repo) (repository_head_detached repo)
     @ (if repository_is_bare repo \<noteq> 0 then [''bare''] else [])"

definition linked_lines :: "git_worktree \<Rightarrow> string list" where
  "linked_lines wt =
     [''worktree '' @ cstr (worktree_path wt)]
     @ (if worktree_open wt = 0 then head_lines (worktree_head wt) (worktree_head_detached wt) else [])
     @ (if fst (worktree_is_locked wt) > 0 then
          [''locked'' @ (case snd (worktree_is_locked wt) of
             Some p \<Rightarrow> if cstr p \<noteq> [] then '' '' @ cstr p else [] | None \<Rightarrow> [])]
        else [])
     @ (if worktree_is_prunable wt > 0 then [''prunable''] else [])"

definition worktree_groups :: "git_repo \<Rightarrow> string list list" where
  "worktree_groups repo =
     main_lines repo # map (linked_lines \<circ> snd)
       (filter (\<lambda>w. \<not> fst w < 0) (map (worktree_lookup repo) (snd (worktree_list repo))))"

definition show_group :: "string list \<Rightarrow> string" where
  "show_group ls = concat (map (\<lambda>l. l @ [NUL]) ls) @ [NUL]"

text \<open>The reader: lines up to the empty one.\<close>

function (sequential) read_group :: "string \<Rightarrow> (string list \<times> string) option" where
  "read_group s =
     (case read_until NUL s of
        None \<Rightarrow> None
      | Some ([], r) \<Rightarrow> Some ([], r)
      | Some (l, r) \<Rightarrow> map_option (\<lambda>(ls, r). (l # ls, r)) (read_group r))"
  by pat_completeness auto
termination
  by (relation "measure length") (auto dest: read_until_shorter)

declare read_group.simps [simp del]

definition group_ok :: "string list \<Rightarrow> bool" where
  "group_ok ls \<longleftrightarrow> (\<forall>l\<in>set ls. l \<noteq> [] \<and> NUL \<notin> set l)"

lemma read_group_show: "group_ok ls \<Longrightarrow> read_group (show_group ls @ r) = Some (ls, r)"
proof (induction ls)
  case Nil
  show ?case by (subst read_group.simps) (simp add: show_group_def read_until_def)
next
  case (Cons l ls)
  then have l: "NUL \<notin> set l" "l \<noteq> []" and ls: "group_ok ls" by (auto simp: group_ok_def)
  from l(2) obtain c cs where c: "l = c # cs" by (cases l) auto
  have "read_until NUL (l @ NUL # show_group ls @ r) = Some (l, show_group ls @ r)" using l(1) by simp
  then have "read_group (l @ NUL # show_group ls @ r) = Some (l # ls, r)"
    using Cons.IH [OF ls] by (subst read_group.simps) (simp add: c)
  then show ?case by (simp add: show_group_def)
qed

interpretation groups: record_codec show_group read_group "\<lambda>ls. ls" group_ok "\<lambda>_. True"
  by unfold_locales (simp_all add: read_group_show, simp add: show_group_def)

lemma oid_no_NUL [simp]: "NUL \<notin> set (git_oid_tostr n oid)"
  using NUL_not_in_cstr [of oid] by (auto simp: git_oid_tostr_def dest: in_set_takeD)

lemma lines_ok: "group_ok (main_lines repo)" "group_ok (linked_lines wt)"
  by (auto simp: group_ok_def main_lines_def linked_lines_def head_lines_def split: option.split if_splits)

lemma put_head_writes:
  "head_resolved head \<Longrightarrow>
   kdata (out_of (put_head head detached)) = concat (map (\<lambda>l. l @ [NUL]) (head_lines head detached))"
  by (cases head) (auto simp: put_head_def head_lines_def head_resolved_def query_eval GIT_OID_HEXSZ_def cstr_id split: option.split)

lemma put_linked_worktree_writes:
  "head_resolved (worktree_head (snd (worktree_lookup repo n))) \<Longrightarrow>
   kdata (out_of (put_linked_worktree repo n)) =
     (if fst (worktree_lookup repo n) < 0 then [] else show_group (linked_lines (snd (worktree_lookup repo n))))"
  by (cases "worktree_lookup repo n"; cases "worktree_is_locked (snd (worktree_lookup repo n))")
    (auto simp: put_linked_worktree_def query_eval linked_lines_def show_group_def put_head_writes split: option.split)

lemma put_linked_worktrees_writes:
  "list_all (\<lambda>n. head_resolved (worktree_head (snd (worktree_lookup repo n)))) ns \<Longrightarrow>
   kdata (out_of (put_linked_worktrees repo ns)) =
     concat (map (show_group \<circ> linked_lines \<circ> snd) (filter (\<lambda>w. \<not> fst w < 0) (map (worktree_lookup repo) ns)))"
  by (induction ns) (auto simp: query_eval put_linked_worktree_writes)

text \<open>
  C14: The worktree listing can be read back: for a repository whose main worktree has a path
  and whose heads have targets, the query fails only if the linked worktrees cannot be listed; otherwise
  a client that collects NUL-terminated lines up to each empty one gets
  the lines of the main worktree and then those of every linked worktree that can be
  looked up, in order; and whatever happens no handle is leaked or freed twice.
\<close>

lemma worktrees_read_back:
  assumes "worktrees_resolved repo"
  shows "clean (list_worktrees_porcelain repo) \<and>
    ret_of (list_worktrees_porcelain repo) = min 0 (fst (worktree_list repo)) \<and>
    (fst (worktree_list repo) \<ge> 0 \<longrightarrow>
      decode_stream read_group (kdata (out_of (list_worktrees_porcelain repo))) = Some (worktree_groups repo))"
proof -
  obtain ret ns where w: "worktree_list repo = (ret, ns)" by (cases "worktree_list repo")
  have main: "kdata (out_of (put_main_worktree repo)) = show_group (main_lines repo)"
    using assms by (auto simp: put_main_worktree_def worktrees_resolved_def main_lines_def show_group_def
        query_eval put_head_writes Let_def split: if_splits)
  have ret: "ret_of (list_worktrees_porcelain repo) = min 0 ret"
    by (simp add: list_worktrees_porcelain_def w query_eval)
  have "kdata (out_of (list_worktrees_porcelain repo)) = concat (map show_group (worktree_groups repo))"
    if "ret \<ge> 0"
    using that assms
    by (simp add: list_worktrees_porcelain_def w query_eval main put_linked_worktrees_writes
        worktrees_resolved_def worktree_groups_def comp_assoc)
  moreover have "\<forall>g\<in>set (worktree_groups repo). group_ok g"
    by (auto simp: worktree_groups_def lines_ok)
  ultimately show ?thesis
    using clean_list_worktrees [OF assms] groups.decode_stream_enc [of "worktree_groups repo"]
    by (simp add: w ret)
qed

definition two_worktrees :: git_repo where
  "two_worktrees = blank_repo\<lparr> repository_workdir := Some ''/r/'',
     repository_head := (0, some_ref ''refs/heads/m'' ''m'' ''1f''),
     worktree_list := (0, [''w'', ''x'']),
     worktree_lookup := (\<lambda>n. (if n = ''w'' then 0 else -3,
       \<lparr> worktree_path = ''/w'', worktree_open = 0, worktree_head = (0, some_ref ''refs/heads/t'' ''t'' ''2e''),
         worktree_head_detached = 1, worktree_is_locked = (1, Some ''why''), worktree_is_prunable = 0 \<rparr>)) \<rparr>"

lemma worktrees_read_back_witness:
  "clean (list_worktrees_porcelain two_worktrees) \<and> ret_of (list_worktrees_porcelain two_worktrees) = 0 \<and>
   decode_stream read_group (kdata (out_of (list_worktrees_porcelain two_worktrees))) =
     Some [[''worktree /r/'', ''HEAD 1f'', ''branch refs/heads/m''],
           [''worktree /w'', ''HEAD 2e'', ''detached'', ''locked why'']]"
  using worktrees_read_back [of two_worktrees]
  by (simp add: two_worktrees_def sample_defs worktrees_resolved_def head_resolved_def worktree_groups_def
      main_lines_def linked_lines_def head_lines_def git_oid_tostr_def)

end
