(* ===== verification/GitLog.thy ===== *)
theory GitLog
  imports GitWorktrees
begin

text \<open>
  The recent history as \<open>get_log\<close> of \<open>src/src/git_handler.c\<close> lists it: one line per
  commit of the walk from the head, at most \<open>limit\<close> of them, six fields separated by
  form feeds; with a reader of the format.
\<close>

section \<open>The query\<close>

abbreviation FF :: char where "FF \<equiv> CHR 0x0C"

text \<open>The C string up to its first line feed.\<close>

definition subject_line :: "string \<Rightarrow> string" where
  "subject_line m = takeWhile (\<lambda>c. c \<noteq> LF) (cstr m)"

definition put_log_record :: "git_oid \<Rightarrow> git_commit \<Rightarrow> unit gh" where
  "put_log_record oid commit = do {
     let short_hash = git_oid_tostr (GIT_OID_HEXSZ + 1) oid;
     let author_name = (case commit_author commit of Some (n, _) \<Rightarrow> n | None \<Rightarrow> '''');
     let author_time = (case commit_author commit of Some (_, t) \<Rightarrow> t | None \<Rightarrow> 0);
     let message = (case commit_message commit of Some m \<Rightarrow> m | None \<Rightarrow> '''');
     out_puts short_hash;
     out_putc FF; out_putc FF; out_putc FF;
     out_puts author_name;
     out_putc FF;
     out_putsn (decimal_int (sint author_time));
     out_putc FF;
     out_putsn (subject_line message);
     out_putc LF
   }"

text \<open>
  The loop over what the walk yields; its result is the value of \<open>ret\<close> after the loop,
  \<open>fin\<close> the code that ends the walk.
\<close>

primrec log_loop :: "git_repo \<Rightarrow> nat \<Rightarrow> int \<Rightarrow> git_oid list \<Rightarrow> nat \<Rightarrow> int gh" where
  "log_loop repo limit fin [] n = result fin"
| "log_loop repo limit fin (oid # oids) n =
     (if n \<ge> limit then result 0
      else case commit_lookup repo oid of (ret, commit) \<Rightarrow>
        if ret < 0 then do { log_at GH_LOG_LEVEL_WARN; log_loop repo limit fin oids n }
        else do {
          acquire ''commit'';
          put_log_record oid commit;
          release ''commit'';
          log_loop repo limit fin oids (n + 1)
        })"

definition get_log :: "git_repo \<Rightarrow> nat \<Rightarrow> int gh" where
  "get_log repo limit = do {
     let ret = revwalk_new repo;
     if ret < 0 then do { log_git_err ret; result ret }
     else do {
       acquire ''walker'';
       let ret = revwalk_push_head repo;
       if ret < 0 then do { log_git_err ret; release ''walker''; result ret }
       else do {
         let ret = revwalk_sorting repo;
         if ret < 0 then do { log_git_err ret; release ''walker''; result ret }
         else do {
           ret \<leftarrow> log_loop repo limit (snd (revwalk repo)) (fst (revwalk repo)) 0;
           (if ret = GIT_ITEROVER then result () else log_at GH_LOG_LEVEL_WARN);
           release ''walker'';
           result (if ret = GIT_ITEROVER then 0 else ret)
         }
       }
     }
   }"

lemma framed_put_log_record [simp]: "framed (put_log_record oid c)"
  by (simp add: put_log_record_def)

lemma hwp_put_log_record [hwp_simps]: "hwp (put_log_record oid c) L Q = Q () L"
  by (simp add: put_log_record_def hwp_simps)

lemma framed_log_loop [simp]: "framed (log_loop repo limit fin oids n)"
  by (induction oids arbitrary: n) (simp_all split: prod.split)

lemma framed_get_log [simp]: "framed (get_log repo limit)"
  by (simp add: get_log_def Let_def)

lemma hwp_log_loop: "hwp (log_loop repo limit fin oids n) [''walker''] (\<lambda>_ L. L = [''walker''])"
  by (induction oids arbitrary: n) (auto simp: hwp_simps split: prod.split)

lemma clean_get_log: "clean (get_log repo limit)"
  by (auto simp: clean_hwp get_log_def Let_def hwp_simps intro: hwp_mono [OF hwp_log_loop])

section \<open>The format\<close>

text \<open>The commits that a walk yields and that can be looked up.\<close>

definition log_commits :: "git_repo \<Rightarrow> git_oid list \<Rightarrow> (git_oid \<times> git_commit) list" where
  "log_commits repo oids = [(oid, snd (commit_lookup repo oid)). oid \<leftarrow> oids, \<not> fst (commit_lookup repo oid) < 0]"

definition log_fields :: "git_oid \<times> git_commit \<Rightarrow> string list" where
  "log_fields r = (case r of (oid, c) \<Rightarrow>
     [git_oid_tostr 41 oid, '''', '''',
      (case commit_author c of Some (n, _) \<Rightarrow> cstr n | None \<Rightarrow> ''''),
      decimal_int (sint (case commit_author c of Some (_, t) \<Rightarrow> t | None \<Rightarrow> 0)),
      subject_line (case commit_message c of Some m \<Rightarrow> m | None \<Rightarrow> '''')])"

definition show_log :: "git_oid \<times> git_commit \<Rightarrow> string" where
  "show_log r = concat (map (\<lambda>f. f @ [FF]) (butlast (log_fields r))) @ last (log_fields r) @ [LF]"

definition log_ok :: "git_oid \<times> git_commit \<Rightarrow> bool" where
  "log_ok r \<longleftrightarrow> FF \<notin> set (fst r) \<and> (case commit_author (snd r) of Some (n, _) \<Rightarrow> FF \<notin> set n | None \<Rightarrow> True)"

lemma put_log_record_writes: "kdata (out_of (put_log_record oid c)) = show_log (oid, c)"
  by (simp add: put_log_record_def query_eval show_log_def log_fields_def GIT_OID_HEXSZ_def split: option.split)

lemma FF_not_in_cstr: "FF \<notin> set s \<Longrightarrow> FF \<notin> set (cstr s)"
  by (auto simp: cstr_def dest: set_takeWhileD)

lemma decimal_int_no_FF: "FF \<notin> set (decimal_int n)"
  by (auto simp: decimal_int_def char_digit_def intro: decimal_no [THEN notE, rotated])

lemma read_show_log: "log_ok r \<Longrightarrow> read_fields FF 5 (show_log r @ rest) = Some (log_fields r, rest)"
proof -
  assume ok: "log_ok r"
  obtain oid c where r: "r = (oid, c)" by (cases r)
  have lf: "LF \<notin> set (subject_line m)" for m
    by (auto simp: subject_line_def dest: set_takeWhileD)
  have ff: "FF \<notin> set (git_oid_tostr n oid)" for n
    using ok FF_not_in_cstr [of oid] by (auto simp: git_oid_tostr_def log_ok_def r dest: in_set_takeD)
  have "read_fields FF (length (butlast (log_fields r)))
      (concat (map (\<lambda>f. f @ [FF]) (butlast (log_fields r))) @ last (log_fields r) @ LF # rest) =
      Some (butlast (log_fields r) @ [last (log_fields r)], rest)"
    using ok by (intro read_fields_show; cases "commit_author c")
      (auto simp: log_fields_def r lf ff decimal_int_no_FF log_ok_def dest: FF_not_in_cstr)
  moreover have "length (butlast (log_fields r)) = 5" "log_fields r \<noteq> []" by (simp_all add: r log_fields_def)
  ultimately show ?thesis by (simp add: show_log_def)
qed

interpretation log_lines: record_codec show_log "read_fields FF 5" log_fields log_ok "\<lambda>_. True"
  by unfold_locales (simp_all add: read_show_log, simp add: show_log_def)

lemma log_loop_writes:
  "kdata (out_of (log_loop repo limit fin oids n)) = concat (map show_log (take (limit - n) (log_commits repo oids)))"
proof (induction oids arbitrary: n)
  case (Cons oid oids)
  obtain ret c where l: "commit_lookup repo oid = (ret, c)" by (cases "commit_lookup repo oid")
  show ?case
  proof (cases "limit \<le> n")
    case False
    then have s: "limit - n = Suc (limit - Suc n)" by simp
    show ?thesis using False
      by (cases "ret < 0") (simp_all add: l query_eval Cons put_log_record_writes log_commits_def s)
  qed (simp add: query_eval)
qed (simp add: query_eval log_commits_def)

lemma log_loop_ret:
  "ret_of (log_loop repo limit fin oids n) = fin \<or> ret_of (log_loop repo limit fin oids n) = 0"
  by (induction oids arbitrary: n) (auto simp: query_eval split: prod.split)

text \<open>
  C15: The log can be read back: when the walk can be set up and runs to its end, the query returns 0, and
  a client that reads six form-feed separated fields per line gets the fields of the first
  \<open>limit\<close> commits of the walk that can be looked up, each subject cut at its first line feed, provided no author name contains a form
  feed; a commit that cannot be looked up is skipped and does not count. The first field is the whole identifier of 40 digits:
  the comment above \<open>get_log\<close>, which gives the format as that of \<open>git log\<close> with \<open>%h\<close>, and the one at the field, which says short
  hash, promise the abbreviated one, but the code prints what \<open>git_oid_tostr\<close> writes into a buffer of \<open>GIT_OID_HEXSZ + 1\<close> bytes.
\<close>

lemma log_reads_back:
  assumes "revwalk_new repo = 0" "revwalk_push_head repo = 0" "revwalk_sorting repo = 0"
    "revwalk repo = (oids, GIT_ITEROVER)" "list_all log_ok (log_commits repo oids)"
  shows "ret_of (get_log repo limit) = 0 \<and>
    decode_stream (read_fields FF 5) (kdata (out_of (get_log repo limit))) =
      Some (map log_fields (take limit (log_commits repo oids)))"
proof -
  have "ret_of (get_log repo limit) = 0"
    using log_loop_ret [of repo limit GIT_ITEROVER oids 0]
    by (auto simp: get_log_def query_eval assms)
  moreover have "kdata (out_of (get_log repo limit)) = concat (map show_log (take limit (log_commits repo oids)))"
    using log_loop_writes [of repo limit GIT_ITEROVER oids 0]
    by (simp add: get_log_def query_eval assms)
  moreover have "\<forall>r\<in>set (take limit (log_commits repo oids)). log_ok r"
    using assms(5) unfolding list_all_iff by (blast dest: in_set_takeD)
  ultimately show ?thesis using log_lines.decode_stream_enc by simp
qed

definition three_commits :: git_repo where
  "three_commits = blank_repo\<lparr> revwalk_push_head := 0, revwalk := ([''c1'', ''c2'', ''c3''], GIT_ITEROVER),
     commit_lookup := (\<lambda>oid. if oid = ''c2'' then (-3, some_commit '''') else (0, some_commit (''fix '' @ oid))) \<rparr>"

lemma log_reads_back_witness:
  "ret_of (get_log three_commits 30) = 0 \<and>
    decode_stream (read_fields FF 5) (kdata (out_of (get_log three_commits 30))) =
      Some (map log_fields (take 30 (log_commits three_commits [''c1'', ''c2'', ''c3''])))"
  by (rule log_reads_back)
    (simp_all add: three_commits_def sample_defs log_commits_def log_ok_def git_codes)

text \<open>
  A log that is cut at its limit is reported as a failed walk: if the walk yields more commits
  than \<open>limit\<close> and all can be looked up, the query succeeds but logs the warning
  that \<open>git_revwalk_next\<close> failed.
\<close>

lemma log_warns_at_limit:
  assumes "revwalk_new repo = 0" "revwalk_push_head repo = 0" "revwalk_sorting repo = 0"
    "limit < length (fst (revwalk repo))" "\<forall>oid. fst (commit_lookup repo oid) = 0"
  shows "ret_of (get_log repo limit) = 0 \<and>
    filter (\<lambda>e. e \<noteq> EvClear \<and> (\<forall>v. e \<noteq> EvAcquire v \<and> e \<noteq> EvRelease v)) (trace_of (get_log repo limit)) =
      [EvLog GH_LOG_LEVEL_WARN]"
proof -
  let ?f = "\<lambda>e. e \<noteq> EvClear \<and> (\<forall>v. e \<noteq> EvAcquire v \<and> e \<noteq> EvRelease v)"
  have q: "trace_of (put_log_record oid c) = []" for oid c
    by (simp add: put_log_record_def query_eval)
  have loop: "ret_of (log_loop repo limit fin oids n) = 0 \<and> filter ?f (trace_of (log_loop repo limit fin oids n)) = []"
    if "n \<le> limit" "limit < n + length oids" for fin oids n
    using that
  proof (induction oids arbitrary: n)
    case (Cons oid oids)
    obtain c where "commit_lookup repo oid = (0, c)" using assms(5) by (metis prod.collapse)
    with Cons show ?case by (auto simp: query_eval q)
  qed (simp add: query_eval)
  show ?thesis
    using loop [of 0 "fst (revwalk repo)" "snd (revwalk repo)"] assms(1-4)
    by (simp add: get_log_def query_eval git_codes)
qed

definition many_commits :: git_repo where
  "many_commits = blank_repo\<lparr> revwalk_push_head := 0, revwalk := (replicate 31 ''c'', GIT_ITEROVER),
     commit_lookup := (\<lambda>oid. (0, some_commit oid)) \<rparr>"

lemma log_warns_at_limit_witness:
  "ret_of (get_log many_commits 30) = 0 \<and>
    filter (\<lambda>e. e \<noteq> EvClear \<and> (\<forall>v. e \<noteq> EvAcquire v \<and> e \<noteq> EvRelease v)) (trace_of (get_log many_commits 30)) =
      [EvLog GH_LOG_LEVEL_WARN]"
  by (rule log_warns_at_limit) (simp_all add: many_commits_def sample_defs)

end
