(* ===== verification/GitTags.thy ===== *)
theory GitTags
  imports GitLog
begin

text \<open>
  The tag queries of \<open>src/src/git_handler.c\<close>: the tag that points at the head
  (\<open>tag_cb\<close>, \<open>get_tag_desc_if_match\<close>) and the nearest annotated tag in the history
  (\<open>get_tag_desc\<close>), with what they free. \<open>strdup_ok\<close> says whether the allocation of
  \<open>strdup\<close> succeeds.
\<close>

section \<open>A tag at the head\<close>

text \<open>The name without \<open>refs/tags/\<close>, if it starts with it.\<close>

definition tag_short :: "string \<Rightarrow> string" where
  "tag_short name = (case strip_prefix ''refs/tags/'' name of Some n \<Rightarrow> n | None \<Rightarrow> name)"

text \<open>
  The callback: its return value and the field \<open>match\<close> of its context; the other fields
  are arguments.
\<close>

definition tag_cb :: "bool \<Rightarrow> git_repo \<Rightarrow> git_oid \<Rightarrow> string \<Rightarrow> git_oid \<Rightarrow> (int \<times> string option) gh" where
  "tag_cb strdup_ok repo target name oid =
     (case object_lookup repo oid of (ret, obj) \<Rightarrow>
        if ret < 0 then do { log_at GH_LOG_LEVEL_DEBUG; result (0, None) }
        else do {
          acquire ''obj'';
          let (peel, commit_id) = object_peel_commit obj;
          (if peel = 0 then acquire ''commit'' else result ());
          (if peel = 0 \<and> commit_id = target then do {
             (if strdup_ok then acquire ''match'' else log_at GH_LOG_LEVEL_ERROR);
             release_if (peel = 0) ''commit'';
             release ''obj'';
             result (1, if strdup_ok then Some (tag_short name) else None) }
           else do {
             release_if (peel = 0) ''commit'';
             release ''obj'';
             result (0, None) })
        })"

text \<open>
  \<open>git_tag_foreach\<close>, documented to call back for each tag, to stop when the callback returns a
  nonzero value and to return that value.
\<close>

primrec tag_foreach_run :: "bool \<Rightarrow> git_repo \<Rightarrow> git_oid \<Rightarrow> int \<Rightarrow> (string \<times> git_oid) list \<Rightarrow> (int \<times> string option) gh" where
  "tag_foreach_run strdup_ok repo target fin [] = result (fin, None)"
| "tag_foreach_run strdup_ok repo target fin (t # ts) = do {
     (ret, m) \<leftarrow> tag_cb strdup_ok repo target (fst t) (snd t);
     if ret \<noteq> 0 then result (ret, m) else tag_foreach_run strdup_ok repo target fin ts
   }"

definition get_tag_desc_if_match :: "bool \<Rightarrow> git_repo \<Rightarrow> int gh" where
  "get_tag_desc_if_match strdup_ok repo = do {
     let (ret, head) = revparse_single repo ''HEAD'';
     if ret < 0 then do { log_git_err ret; result ret }
     else do {
       acquire ''head'';
       (ret, m) \<leftarrow> tag_foreach_run strdup_ok repo (object_id head) (snd (tag_foreach repo)) (fst (tag_foreach repo));
       release ''head'';
       if ret < 0 \<and> ret \<noteq> GIT_ENOTFOUND then do { log_git_err ret; result ret }
       else do {
         (case m of
            None \<Rightarrow> result ()
          | Some n \<Rightarrow> do { log_at GH_LOG_LEVEL_DEBUG; out_puts n; release ''match'' });
         result 0
       }
     }
   }"

section \<open>The nearest tag\<close>

text \<open>
  The loop over the tag names: \<open>Some\<close> of what \<open>strdup\<close> returned if one was found. The
  identifier of a commit that was looked up is the one it was looked up by.
\<close>

primrec find_tag :: "bool \<Rightarrow> git_repo \<Rightarrow> git_oid \<Rightarrow> string list \<Rightarrow> string option option gh" where
  "find_tag strdup_ok repo oid [] = result None"
| "find_tag strdup_ok repo oid (tag_full # names) =
     (case reference_lookup repo tag_full of (ret, tag_ref) \<Rightarrow>
        if ret < 0 then find_tag strdup_ok repo oid names
        else do {
          acquire ''tag_ref'';
          (case ref_target tag_ref of
             None \<Rightarrow> do { release ''tag_ref''; find_tag strdup_ok repo oid names }
           | Some tag_oid \<Rightarrow> do {
               let (ret, tag_target) = tag_lookup repo tag_oid;
               release ''tag_ref'';
               if ret < 0 then find_tag strdup_ok repo oid names
               else do {
                 acquire ''tag'';
                 let ret = fst (commit_lookup repo tag_target);
                 release ''tag'';
                 if ret < 0 then find_tag strdup_ok repo oid names
                 else do {
                   acquire ''tag_commit'';
                   if tag_target = oid then do {
                     (if strdup_ok then acquire ''tag_name'' else result ());
                     release ''tag_commit'';
                     result (Some (if strdup_ok then Some (tag_short tag_full) else None)) }
                   else do { release ''tag_commit''; find_tag strdup_ok repo oid names }
                 }
               }
             })
        })"

text \<open>
  The loop over the walk: \<open>commits_since_tag\<close>, whether the variable \<open>commit\<close> is not
  \<open>NULL\<close>, and the tag with the last \<open>oid\<close> if the loop is left by \<open>goto found_tag\<close>.
\<close>

definition max_search :: nat where "max_search = 1000"

primrec tag_walk :: "bool \<Rightarrow> git_repo \<Rightarrow> git_oid list \<Rightarrow> nat \<Rightarrow> bool \<Rightarrow> (nat \<times> bool \<times> (string option \<times> git_oid) option) gh" where
  "tag_walk strdup_ok repo [] n commit = result (n, commit, None)"
| "tag_walk strdup_ok repo (oid # oids) n commit =
     (if n \<ge> max_search then result (n, commit, None)
      else if fst (commit_lookup repo oid) < 0 then do {
        log_at GH_LOG_LEVEL_WARN; tag_walk strdup_ok repo oids n commit }
      else do {
        acquire ''commit'';
        let (ret, tag_names) = tag_list repo;
        if ret < 0 then do {
          log_at GH_LOG_LEVEL_WARN; release ''commit''; tag_walk strdup_ok repo oids n True }
        else do {
          acquire ''tag_names'';
          m \<leftarrow> find_tag strdup_ok repo oid tag_names;
          (case m of
             Some t \<Rightarrow> do { release ''tag_names''; result (n, True, Some (t, oid)) }
           | None \<Rightarrow> do {
               release ''tag_names''; release ''commit''; tag_walk strdup_ok repo oids (n + 1) False })
        }
      })"

definition put_tag_desc :: "nat \<Rightarrow> string \<Rightarrow> git_oid \<Rightarrow> unit gh" where
  "put_tag_desc n tag_name oid =
     (if n = 0 then out_puts tag_name
      else do {
        out_puts tag_name;
        out_putc CHR ''-'';
        out_puts (decimal (n mod 2 ^ 32));
        out_puts ''-g'';
        out_puts (git_oid_tostr (GIT_OID_HEXSZ + 1) oid)
      })"

definition get_tag_desc :: "bool \<Rightarrow> git_repo \<Rightarrow> int gh" where
  "get_tag_desc strdup_ok repo = do {
     let (ret, head_ref) = repository_head repo;
     if ret < 0 then do { log_at GH_LOG_LEVEL_DEBUG; result 0 }
     else do {
       acquire ''head_ref'';
       let ret = fst (ref_peel_commit head_ref);
       release ''head_ref'';
       if ret < 0 then do { log_at GH_LOG_LEVEL_WARN; result ret }
       else do {
         acquire ''head_obj'';
         release ''head_obj'';
         let ret = revwalk_new repo;
         if ret < 0 then do { log_git_err ret; result ret }
         else do {
           acquire ''walker'';
           let ret = revwalk_push_head repo;
           if ret < 0 then do { log_git_err ret; release ''walker''; result ret }
           else do {
             (n, commit, found) \<leftarrow> tag_walk strdup_ok repo (fst (revwalk repo)) 0 False;
             (case found of
                Some (Some tag_name, oid) \<Rightarrow> do { put_tag_desc n tag_name oid; release ''tag_name'' }
              | _ \<Rightarrow> result ());
             release_if commit ''commit'';
             release ''walker'';
             result 0
           }
         }
       }
     }
   }"

lemma framed_tag_cb [simp]: "framed (tag_cb ok repo target name oid)"
  by (simp add: tag_cb_def Let_def split: prod.split)

lemma framed_tag_foreach_run [simp]: "framed (tag_foreach_run ok repo target fin ts)"
  by (induction ts) simp_all

lemma framed_find_tag [simp]: "framed (find_tag ok repo oid ns)"
  by (induction ns) (simp_all split: prod.split)

lemma framed_tag_walk [simp]: "framed (tag_walk ok repo oids n c)"
  by (induction oids arbitrary: n c) (simp_all split: prod.split)

lemma framed_put_tag_desc [simp]: "framed (put_tag_desc n t oid)"
  by (simp add: put_tag_desc_def)

lemma framed_tag_queries [simp]: "framed (get_tag_desc_if_match ok repo)" "framed (get_tag_desc ok repo)"
  by (simp_all add: get_tag_desc_if_match_def get_tag_desc_def Let_def split: prod.split option.split)

section \<open>The tag at the head\<close>

text \<open>A tag that peels to the given commit.\<close>

definition tag_matches :: "git_repo \<Rightarrow> git_oid \<Rightarrow> string \<times> git_oid \<Rightarrow> bool" where
  "tag_matches repo target t \<longleftrightarrow>
     (case object_lookup repo (snd t) of (ret, obj) \<Rightarrow> ret \<ge> 0 \<and> object_peel_commit obj = (0, target))"

lemma tag_cb_result:
  "ret_of (tag_cb ok repo target name oid) =
     (if tag_matches repo target (name, oid) then (1, if ok then Some (tag_short name) else None) else (0, None))"
  by (auto simp: tag_cb_def tag_matches_def query_eval split: prod.split)

lemma tag_cb_silent: "out_of (tag_cb ok repo target name oid) = None"
  by (auto simp: tag_cb_def query_eval split: prod.split)

lemma hwp_tag_cb:
  "\<lbrakk>''obj'' \<notin> set L; ''commit'' \<notin> set L; ''match'' \<notin> set L\<rbrakk> \<Longrightarrow>
   hwp (tag_cb ok repo target name oid) L
     (\<lambda>(r, m) L'. L' = (if m = None then L else ''match'' # L) \<and> (m \<noteq> None \<longrightarrow> r = 1))"
  by (auto simp: tag_cb_def hwp_simps split: prod.split)

lemma tag_foreach_result:
  "ret_of (tag_foreach_run ok repo target fin ts) =
     (case find (tag_matches repo target) ts of
        None \<Rightarrow> (fin, None) | Some t \<Rightarrow> (1, if ok then Some (tag_short (fst t)) else None))"
  by (induction ts) (auto simp: query_eval tag_cb_result)

lemma tag_foreach_silent: "out_of (tag_foreach_run ok repo target fin ts) = None"
  by (induction ts) (auto simp: query_eval tag_cb_silent split: prod.split)

lemma hwp_tag_foreach_run:
  "hwp (tag_foreach_run ok repo target fin ts) [''head'']
     (\<lambda>(r, m) L. L = (if m = None then [''head''] else [''match'', ''head'']) \<and> (m \<noteq> None \<longrightarrow> r = 1))"
proof (induction ts)
  case (Cons t ts)
  have "hwp (tag_cb ok repo target (fst t) (snd t)) [''head'']
      (\<lambda>(r, m) L'. L' = (if m = None then [''head''] else [''match'', ''head'']) \<and> (m \<noteq> None \<longrightarrow> r = 1))"
    using hwp_tag_cb [of "[''head'']" ok repo target "fst t" "snd t"] by simp
  then show ?case using Cons
    by (auto simp: hwp_simps elim!: hwp_mono split: prod.splits if_splits)
qed (simp add: hwp_simps)

lemma clean_get_tag_desc_if_match: "clean (get_tag_desc_if_match ok repo)"
  by (auto simp: clean_hwp get_tag_desc_if_match_def Let_def hwp_simps intro!: hwp_mono [OF hwp_tag_foreach_run]
      split: prod.splits option.splits if_splits)

text \<open>
  C19: The tag at the head: the query leaks and doubly frees nothing, and when the head can be
  resolved it writes the short name of the first tag, in the
  order of the listing, that peels to the head commit, and returns 0; without such a
  tag it writes nothing and returns the error of the listing unless that is \<open>GIT_ENOTFOUND\<close>.
\<close>

lemma tag_at_head_spec:
  "clean (get_tag_desc_if_match strdup_ok repo) \<and>
   (case revparse_single repo ''HEAD'' of (ret, head) \<Rightarrow>
      if ret < 0 then (ret_of (get_tag_desc_if_match strdup_ok repo), out_of (get_tag_desc_if_match strdup_ok repo)) = (ret, None)
      else case find (tag_matches repo (object_id head)) (fst (tag_foreach repo)) of
        Some t \<Rightarrow> (ret_of (get_tag_desc_if_match strdup_ok repo), out_of (get_tag_desc_if_match strdup_ok repo)) =
                    (0, if strdup_ok then Some (cstr (tag_short (fst t))) else None)
      | None \<Rightarrow> (ret_of (get_tag_desc_if_match strdup_ok repo), out_of (get_tag_desc_if_match strdup_ok repo)) =
                  (if snd (tag_foreach repo) = GIT_ENOTFOUND then 0 else min 0 (snd (tag_foreach repo)), None))"
  using clean_get_tag_desc_if_match [of strdup_ok repo]
  by (auto simp: get_tag_desc_if_match_def query_eval tag_foreach_result tag_foreach_silent git_codes
      split: prod.split option.split)

section \<open>The nearest tag: what is written\<close>

text \<open>A name that resolves to an annotated tag of the commit.\<close>

definition tag_points :: "git_repo \<Rightarrow> git_oid \<Rightarrow> string \<Rightarrow> bool" where
  "tag_points repo oid name \<longleftrightarrow>
     fst (reference_lookup repo name) \<ge> 0 \<and>
     (case ref_target (snd (reference_lookup repo name)) of
        None \<Rightarrow> False
      | Some tag_oid \<Rightarrow> fst (tag_lookup repo tag_oid) \<ge> 0 \<and> snd (tag_lookup repo tag_oid) = oid) \<and>
     fst (commit_lookup repo oid) \<ge> 0"

lemma find_tag_step:
  "ret_of (find_tag ok repo oid (t # ns)) =
     (if tag_points repo oid t then Some (if ok then Some (tag_short t) else None) else ret_of (find_tag ok repo oid ns))"
  by (auto simp: query_eval tag_points_def split: prod.split option.split)

lemma find_tag_result:
  "ret_of (find_tag ok repo oid ns) =
     map_option (\<lambda>t. if ok then Some (tag_short t) else None) (find (tag_points repo oid) ns)"
  by (induction ns) (simp_all add: find_tag_step del: find_tag.simps(2), simp add: query_eval)

lemma find_tag_silent: "out_of (find_tag ok repo oid ns) = None"
  by (induction ns) (auto simp: query_eval split: prod.split option.split)

lemma tag_walk_silent: "out_of (tag_walk ok repo oids n c) = None"
  by (induction oids arbitrary: n c) (auto simp: query_eval find_tag_silent split: prod.split option.split)

text \<open>The first commit of the walk that has a tag, with its distance from the head.\<close>

fun nearest_tag :: "git_repo \<Rightarrow> string list \<Rightarrow> git_oid list \<Rightarrow> nat \<Rightarrow> (nat \<times> string \<times> git_oid) option" where
  "nearest_tag repo names [] n = None"
| "nearest_tag repo names (oid # oids) n =
     (if fst (commit_lookup repo oid) < 0 then nearest_tag repo names oids n
      else case find (tag_points repo oid) names of
        Some t \<Rightarrow> Some (n, t, oid)
      | None \<Rightarrow> nearest_tag repo names oids (n + 1))"

lemma nearest_tag_ge: "nearest_tag repo names oids n = Some (m, t, oid) \<Longrightarrow> n \<le> m"
  by (induction repo names oids n rule: nearest_tag.induct) (auto split: if_splits option.splits)

lemma tag_walk_step:
  assumes "tag_list repo = (0, names)"
  shows "ret_of (tag_walk ok repo (oid # oids) n c) =
    (if n \<ge> max_search then (n, c, None)
     else if fst (commit_lookup repo oid) < 0 then ret_of (tag_walk ok repo oids n c)
     else case find (tag_points repo oid) names of
       Some t \<Rightarrow> (n, True, Some (if ok then Some (tag_short t) else None, oid))
     | None \<Rightarrow> ret_of (tag_walk ok repo oids (n + 1) False))"
  by (simp add: query_eval assms find_tag_result split: option.split)

text \<open>The distance and the tag that the loop leaves behind.\<close>

definition tag_found :: "nat \<times> bool \<times> 'a option \<Rightarrow> (nat \<times> 'a) option" where
  "tag_found w = (case w of (k, c, found) \<Rightarrow> map_option (\<lambda>f. (k, f)) found)"

lemma tag_found_simps [simp]: "tag_found (k, c, None) = None" "tag_found (k, c, Some f) = Some (k, f)"
  by (simp_all add: tag_found_def)

lemma tag_walk_result:
  assumes "tag_list repo = (0, names)"
  shows "tag_found (ret_of (tag_walk ok repo oids n c)) =
    Option.bind (nearest_tag repo names oids n) (\<lambda>(m, t, oid).
      if m < max_search then Some (m, if ok then Some (tag_short t) else None, oid) else None)"
proof (induction oids arbitrary: n c)
  case (Cons oid oids)
  show ?case
  proof (cases "n \<ge> max_search")
    case True
    then show ?thesis
      by (auto simp: tag_walk_step [OF assms] simp del: tag_walk.simps nearest_tag.simps
          split: option.split bind_splits dest: nearest_tag_ge)
  next
    case False
    then show ?thesis using Cons
      by (cases "find (tag_points repo oid) names")
        (simp_all add: tag_walk_step [OF assms] del: tag_walk.simps)
  qed
qed (simp add: query_eval)

definition desc_text :: "nat \<Rightarrow> string \<Rightarrow> git_oid \<Rightarrow> string" where
  "desc_text n t oid =
     (if n = 0 then cstr (tag_short t)
      else cstr (tag_short t) @ ''-'' @ decimal n @ ''-g'' @ git_oid_tostr 41 oid)"

text \<open>
  C17: The description of the head: when the head resolves, the walk can be set up, the tags can be listed
  and memory can be had, the query returns 0 and writes the short name of the first name in the list that
  resolves to an annotated tag of the nearest commit having one. Behind it, if that commit is
  not the head, come the number of commits before it in the walk and the
  full identifier of the tagged commit, not of the head. Nothing is written if no tag is found before the walk has passed 1000 commits.
  The comment in the code gives the last part as \<open>short_hash\<close>, and so does the name of the variable, which holds all
  40 digits, however.
\<close>

lemma tag_desc_nearest:
  assumes "repository_head repo = (0, head)" "fst (ref_peel_commit head) = 0" "revwalk_new repo = 0"
    "revwalk_push_head repo = 0" "tag_list repo = (0, names)"
  shows "ret_of (get_tag_desc True repo) = 0 \<and>
    out_of (get_tag_desc True repo) =
      (case nearest_tag repo names (fst (revwalk repo)) 0 of
         Some (n, t, oid) \<Rightarrow> if n < 1000 then Some (desc_text n t oid) else None
       | None \<Rightarrow> None)"
proof -
  have d: "cstr (decimal n) = decimal n" for n by simp
  have o: "cstr (git_oid_tostr n oid) = git_oid_tostr n oid" for n oid by simp
  have p: "out_of (put_tag_desc n (tag_short t) oid) = Some (desc_text n t oid)" if "n < 1000" for n t oid
    using that by (simp add: put_tag_desc_def desc_text_def query_eval d o GIT_OID_HEXSZ_def)
  obtain k c found where w: "ret_of (tag_walk True repo (fst (revwalk repo)) 0 False) = (k, c, found)"
    by (cases "ret_of (tag_walk True repo (fst (revwalk repo)) 0 False)")
  from tag_walk_result [OF assms(5), of True "fst (revwalk repo)" 0 False] p show ?thesis
    by (cases found)
      (auto simp: get_tag_desc_def assms query_eval w tag_walk_silent max_search_def
        split: option.splits prod.splits if_splits)
qed

definition one_tag :: git_repo where
  "one_tag = blank_repo\<lparr> repository_head := (0, some_ref ''refs/heads/m'' ''m'' ''c1''), revwalk_push_head := 0,
     revwalk := ([''c1'', ''c2''], GIT_ITEROVER), commit_lookup := (\<lambda>_. (0, some_commit '''')),
     tag_list := (0, [''v1'']), reference_lookup := (\<lambda>_. (0, some_ref ''refs/tags/v1'' ''v1'' ''t1'')),
     tag_lookup := (\<lambda>_. (0, ''c2'')) \<rparr>"

lemma one_tag_nearest: "nearest_tag one_tag [''v1''] (fst (revwalk one_tag)) 0 = Some (1, ''v1'', ''c2'')"
  by (simp add: one_tag_def tag_points_def sample_defs)

lemma tag_desc_nearest_witness:
  "ret_of (get_tag_desc True one_tag) = 0 \<and> out_of (get_tag_desc True one_tag) = Some (desc_text 1 ''v1'' ''c2'')"
proof -
  have a: "repository_head one_tag = (0, some_ref ''refs/heads/m'' ''m'' ''c1'')"
    "fst (ref_peel_commit (some_ref ''refs/heads/m'' ''m'' ''c1'')) = 0" "revwalk_new one_tag = 0"
    "revwalk_push_head one_tag = 0" "tag_list one_tag = (0, [''v1''])"
    by (simp_all add: one_tag_def sample_defs)
  show ?thesis using tag_desc_nearest [OF a] by (simp add: one_tag_nearest)
qed

section \<open>The nearest tag: what is freed\<close>

lemma hwp_find_tag:
  "\<lbrakk>''tag_ref'' \<notin> set L; ''tag'' \<notin> set L; ''tag_commit'' \<notin> set L; ''tag_name'' \<notin> set L\<rbrakk> \<Longrightarrow>
   hwp (find_tag ok repo oid ns) L
     (\<lambda>m L'. L' = (case m of Some (Some _) \<Rightarrow> ''tag_name'' # L | _ \<Rightarrow> L))"
  by (induction ns) (auto simp: hwp_simps split: prod.split option.split)

definition tag_heap :: "bool \<Rightarrow> (string option \<times> git_oid) option \<Rightarrow> string list" where
  "tag_heap commit found = (case found of Some (Some _, _) \<Rightarrow> [''tag_name''] | _ \<Rightarrow> []) @
     (if commit then [''commit''] else []) @ [''walker'']"

lemma hwp_tag_walk:
  assumes "\<not> fst (tag_list repo) < 0"
  shows "hwp (tag_walk ok repo oids n False) [''walker''] (\<lambda>(_, c, found) L. L = tag_heap c found)"
proof (induction oids arbitrary: n)
  case (Cons oid oids)
  obtain r names where t: "tag_list repo = (r, names)" by (cases "tag_list repo")
  have "hwp (find_tag ok repo oid names) [''tag_names'', ''commit'', ''walker'']
      (\<lambda>m L'. L' = (case m of Some (Some _) \<Rightarrow> ''tag_name'' # [''tag_names'', ''commit'', ''walker''] | _ \<Rightarrow> [''tag_names'', ''commit'', ''walker'']))"
    by (rule hwp_find_tag) simp_all
  then have "hwp (find_tag ok repo oid names) [''tag_names'', ''commit'', ''walker'']
      (\<lambda>m L'. hwp (case m of
             Some t \<Rightarrow> do { release ''tag_names''; result (n, True, Some (t, oid)) }
           | None \<Rightarrow> do {
               release ''tag_names''; release ''commit''; tag_walk ok repo oids (Suc n) False })
         L' (\<lambda>(_, c, found) L. L = tag_heap c found))"
    using Cons [of "Suc n"] by (elim hwp_mono) (auto simp: hwp_simps tag_heap_def split: option.split)
  then show ?case using Cons assms
    by (auto simp: hwp_simps t tag_heap_def)
qed (simp add: hwp_simps tag_heap_def)

lemma hwp_put_tag_desc [hwp_simps]: "hwp (put_tag_desc n t oid) L Q = Q () L"
  by (simp add: put_tag_desc_def hwp_simps)

text \<open>
  When the tags can be listed, the description frees every handle it has acquired
  exactly once, on every path.
\<close>

lemma tag_desc_clean:
  assumes "\<not> fst (tag_list repo) < 0"
  shows "clean (get_tag_desc strdup_ok repo)"
  by (auto simp: clean_hwp get_tag_desc_def Let_def hwp_simps tag_heap_def
      intro!: hwp_mono [OF hwp_tag_walk [OF assms]] split: prod.splits option.splits)

lemma tag_desc_clean_witness: "clean (get_tag_desc True one_tag)"
  by (rule tag_desc_clean) (simp add: one_tag_def)

text \<open>
  When the tags cannot be listed, the description frees a commit twice: the loop
  frees it without clearing the variable, and the clean-up after the loop frees it again.
\<close>

lemma tag_desc_double_free:
  assumes "repository_head repo = (0, head)" "fst (ref_peel_commit head) = 0" "revwalk_new repo = 0"
    "revwalk_push_head repo = 0" "fst (tag_list repo) < 0"
    "fst (revwalk repo) = oid # oids" "\<forall>oid. fst (commit_lookup repo oid) = 0"
  shows "heap_run [] (trace_of (get_tag_desc strdup_ok repo)) = None"
proof -
  obtain r names where t: "tag_list repo = (r, names)" "r < 0" using assms(5) by (cases "tag_list repo") simp
  have loop: "ret_of (tag_walk strdup_ok repo oids n c) = (n, c \<or> oids \<noteq> [], None) \<and>
      heap_run [''walker''] (trace_of (tag_walk strdup_ok repo oids n c)) = Some [''walker'']"
    if "n < max_search" for oids n c
    using that by (induction oids arbitrary: c) (auto simp: query_eval assms(7) t)
  from loop [of 0 "oid # oids" False] show ?thesis
    by (simp add: get_tag_desc_def query_eval assms(1-4,6) max_search_def heap_run_append del: tag_walk.simps)
qed

definition unlistable_tags :: git_repo where
  "unlistable_tags = one_tag\<lparr> tag_list := (-1, []) \<rparr>"

lemma tag_desc_double_free_witness:
  "heap_run [] (trace_of (get_tag_desc True unlistable_tags)) = None"
  by (rule tag_desc_double_free [where head = "some_ref ''refs/heads/m'' ''m'' ''c1''" and oid = "''c1''" and oids = "[''c2'']"])
    (simp_all add: unlistable_tags_def one_tag_def sample_defs)

end
