(* ===== verification/GitDiff.thy ===== *)
theory GitDiff
  imports GitTags
begin

text \<open>
  The two patches of \<open>src/src/git_handler.c\<close>: \<open>get_staged\<close> (head tree against index) and
  \<open>get_diff_patch\<close> (index against worktree).
\<close>

text \<open>
  The common part from the creation of the diff to label \<open>out\<close>, with the release
  of the buffer and the diff there.
\<close>

definition put_patch :: "git_diff \<Rightarrow> int gh" where
  "put_patch d = do {
     let ret = diff_new d;
     if ret < 0 then do { log_git_err ret; result ret }
     else do {
       acquire ''diff'';
       let ret = diff_find_similar d;
       if ret < 0 then do { log_git_err ret; release ''diff''; result ret }
       else do {
         let (ret, patch) = diff_to_buf d;
         if ret < 0 then do { log_git_err ret; release ''diff''; result ret }
         else do {
           acquire ''buf'';
           out_putsn patch;
           log_at GH_LOG_LEVEL_DEBUG;
           release ''buf'';
           release ''diff'';
           result ret
         }
       }
     }
   }"

definition get_diff_patch :: "git_repo \<Rightarrow> int gh" where
  "get_diff_patch repo = put_patch (diff_index_to_workdir repo)"

text \<open>The argument of \<open>diff_tree_to_index\<close> says whether there is a head tree.\<close>

definition get_staged :: "git_repo \<Rightarrow> int gh" where
  "get_staged repo = do {
     let ret = repository_index repo;
     if ret < 0 then do { log_git_err ret; result ret }
     else do {
       acquire ''index'';
       let ret = index_read repo;
       if ret < 0 then do { log_git_err ret; release ''index''; result ret }
       else do {
         let (ret, head_ref) = repository_head repo;
         if ret = GIT_EUNBORNBRANCH \<or> ret = GIT_ENOTFOUND then do {
           log_at GH_LOG_LEVEL_DEBUG;
           error_clear;
           ret \<leftarrow> put_patch (diff_tree_to_index repo False);
           release ''index'';
           result ret }
         else if ret < 0 then do { log_git_err ret; release ''index''; result ret }
         else do {
           acquire ''head_ref'';
           let ret = ref_peel_tree head_ref;
           if ret < 0 then do { log_git_err ret; release ''head_ref''; release ''index''; result ret }
           else do {
             acquire ''head_obj'';
             ret \<leftarrow> put_patch (diff_tree_to_index repo True);
             release ''head_obj'';
             release ''head_ref'';
             release ''index'';
             result ret
           }
         }
       }
     }
   }"

lemma framed_put_patch [simp]: "framed (put_patch d)"
  by (simp add: put_patch_def Let_def split: prod.split)

lemma framed_diffs [simp]: "framed (get_diff_patch repo)" "framed (get_staged repo)"
  by (simp_all add: get_diff_patch_def get_staged_def Let_def split: prod.split)

lemma hwp_put_patch:
  "''diff'' \<notin> set L \<Longrightarrow> ''buf'' \<notin> set L \<Longrightarrow> hwp (put_patch d) L (\<lambda>_ L'. L' = L)"
  by (auto simp: put_patch_def hwp_simps Let_def split: prod.split)

lemma clean_diffs: "clean (get_diff_patch repo)" "clean (get_staged repo)"
  by (auto simp: clean_hwp get_diff_patch_def get_staged_def hwp_simps Let_def
      intro!: hwp_put_patch hwp_mono [OF hwp_put_patch] split: prod.split)

text \<open>The first failing step of a diff, or its patch.\<close>

definition patch_result :: "git_diff \<Rightarrow> int \<times> string option" where
  "patch_result d =
     (if diff_new d < 0 then (diff_new d, None)
      else if diff_find_similar d < 0 then (diff_find_similar d, None)
      else if fst (diff_to_buf d) < 0 then (fst (diff_to_buf d), None)
      else (fst (diff_to_buf d), Some (snd (diff_to_buf d))))"

lemma put_patch_result: "(ret_of (put_patch d), out_of (put_patch d)) = patch_result d"
  by (cases "diff_to_buf d") (auto simp: put_patch_def patch_result_def query_eval)

lemmas put_patch_parts = put_patch_result [THEN arg_cong [where f = fst], simplified]
  put_patch_result [THEN arg_cong [where f = snd], simplified]

text \<open>
  C20: The staged patch is all or nothing: the query frees every handle exactly once and
  returns the code of the first step that fails, with no output; if none fails its output is the
  patch of the index against the head tree, and against the empty tree when the head is
  unborn.
\<close>

lemma staged_patch:
  "clean (get_staged repo) \<and>
   (ret_of (get_staged repo), out_of (get_staged repo)) =
     (if repository_index repo < 0 then (repository_index repo, None)
      else if index_read repo < 0 then (index_read repo, None)
      else case repository_head repo of (ret, head) \<Rightarrow>
        if ret = GIT_EUNBORNBRANCH \<or> ret = GIT_ENOTFOUND then patch_result (diff_tree_to_index repo False)
        else if ret < 0 then (ret, None)
        else if ref_peel_tree head < 0 then (ref_peel_tree head, None)
        else patch_result (diff_tree_to_index repo True))"
  by (rule conjI, rule clean_diffs) (auto simp: get_staged_def query_eval put_patch_parts split: prod.split)

lemma diff_patch_result: "(ret_of (get_diff_patch repo), out_of (get_diff_patch repo)) = patch_result (diff_index_to_workdir repo)"
  by (simp add: get_diff_patch_def put_patch_result)

end
