(* ===== verification/RunCapture.thy ===== *)
theory RunCapture
  imports GitCore
begin

text \<open>
  \<open>run_git_capture\<close> of \<open>src/src/git_handler.c\<close>: a Git subprocess whose standard output is
  appended to \<open>out\<close> and whose standard error is kept for a log line. The model is the
  parent process; what the operating system answers (the calls before and after the
  fork, each return of \<open>poll\<close> with the \<open>read\<close> it leads to, each return of \<open>waitpid\<close>)
  is the record \<open>git_os\<close>. The loops consume the answers one by one; \<open>None\<close> is a
  process that still waits when the answers given are used up.
\<close>

section \<open>Reading the pipes\<close>

datatype read_event = ReadData string | ReadEof | ReadEintr | ReadError

text \<open>\<open>PollReady\<close> has, for each of the two pipes that is ready, the answer of its \<open>read\<close>.\<close>

datatype poll_event = PollEintr | PollError | PollReady "read_event option" "read_event option"

record capture =
  cap_out :: kstr
  error_output :: string
  stdout_open :: bool
  stderr_open :: bool
  cap_ret :: int
  cap_trace :: "gh_event list"

definition cap_emit :: "gh_event list \<Rightarrow> capture \<Rightarrow> capture" where
  "cap_emit es c = c\<lparr> cap_trace := cap_trace c @ es \<rparr>"

text \<open>One \<open>read\<close>; \<open>error_output\<close> is a buffer of 2048 bytes whose last one is for the terminator.\<close>

definition capture_read :: "bool \<Rightarrow> read_event \<Rightarrow> capture \<Rightarrow> capture" where
  "capture_read is_stdout ev c =
     (case ev of
        ReadData buffer \<Rightarrow>
          if is_stdout then c\<lparr> cap_out := kcat (cap_out c) buffer \<rparr>
          else c\<lparr> error_output := error_output c @ take (2048 - 1 - length (error_output c)) buffer \<rparr>
      | ReadEof \<Rightarrow>
          if is_stdout then cap_emit [EvRelease ''stdout_pipe[0]''] (c\<lparr> stdout_open := False \<rparr>)
          else cap_emit [EvRelease ''stderr_pipe[0]''] (c\<lparr> stderr_open := False \<rparr>)
      | ReadEintr \<Rightarrow> c
      | ReadError \<Rightarrow> cap_emit [EvLog GH_LOG_LEVEL_ERROR] (c\<lparr> cap_ret := -1 \<rparr>))"

definition capture_poll :: "read_event option \<Rightarrow> read_event option \<Rightarrow> capture \<Rightarrow> capture" where
  "capture_poll r0 r1 c =
     (let c = (case (stdout_open c, r0) of (True, Some ev) \<Rightarrow> capture_read True ev c | _ \<Rightarrow> c)
      in if cap_ret c < 0 then c
         else case (stderr_open c, r1) of (True, Some ev) \<Rightarrow> capture_read False ev c | _ \<Rightarrow> c)"

fun capture_loop :: "poll_event list \<Rightarrow> capture \<Rightarrow> capture option" where
  "capture_loop [] c = (if stdout_open c \<or> stderr_open c then None else Some c)"
| "capture_loop (ev # evs) c =
     (if \<not> (stdout_open c \<or> stderr_open c) then Some c
      else case ev of
        PollEintr \<Rightarrow> capture_loop evs c
      | PollError \<Rightarrow> Some (cap_emit [EvLog GH_LOG_LEVEL_ERROR] (c\<lparr> cap_ret := -1 \<rparr>))
      | PollReady r0 r1 \<Rightarrow>
          let c = capture_poll r0 r1 c in if cap_ret c < 0 then Some c else capture_loop evs c)"

section \<open>The whole function\<close>

datatype wait_event = WaitEintr | WaitFail | WaitExited nat | WaitSignaled

fun capture_wait :: "wait_event list \<Rightarrow> wait_event option" where
  "capture_wait [] = None"
| "capture_wait (WaitEintr # ws) = capture_wait ws"
| "capture_wait (w # ws) = Some w"

record git_os =
  os_pipe1 :: bool
  os_pipe2 :: bool
  os_cloexec :: bool
  os_fork :: bool
  os_polls :: "poll_event list"
  os_waits :: "wait_event list"

text \<open>\<open>if (out->s) { out->l = output_start; out->s[output_start] = 0; }\<close>\<close>

definition restore :: "nat \<Rightarrow> kstr \<Rightarrow> kstr" where
  "restore n out = map_option (take n) out"

definition pipe_ends :: "string \<Rightarrow> string list" where
  "pipe_ends p = [p @ ''[0]'', p @ ''[1]'']"

definition run_git_capture :: "git_repo \<Rightarrow> git_os \<Rightarrow> kstr \<Rightarrow> (int \<times> kstr \<times> gh_event list) option" where
  "run_git_capture repo os out =
     (let output_start = length (kdata out);
          path = (case repository_workdir repo of Some p \<Rightarrow> Some p | None \<Rightarrow> repository_path repo);
          err = [EvLog GH_LOG_LEVEL_ERROR];
          open1 = map EvAcquire (pipe_ends ''stdout_pipe'');
          open2 = map EvAcquire (pipe_ends ''stderr_pipe'');
          close1 = map EvRelease (pipe_ends ''stdout_pipe'');
          close2 = map EvRelease (pipe_ends ''stderr_pipe'')
      in if path = None then Some (-1, out, err)
         else if \<not> os_pipe1 os then Some (-1, out, err)
         else if \<not> os_pipe2 os then Some (-1, out, open1 @ close1 @ err)
         else if \<not> os_cloexec os \<or> \<not> os_fork os then Some (-1, out, open1 @ open2 @ close1 @ close2 @ err)
         else case capture_loop (os_polls os)
                \<lparr> cap_out = out, error_output = '''', stdout_open = True, stderr_open = True, cap_ret = 0,
                  cap_trace = open1 @ open2 @ [EvRelease ''stdout_pipe[1]'', EvRelease ''stderr_pipe[1]''] \<rparr> of
           None \<Rightarrow> None
         | Some c \<Rightarrow>
             (let tr = cap_trace c
                     @ (if stdout_open c then [EvRelease ''stdout_pipe[0]''] else [])
                     @ (if stderr_open c then [EvRelease ''stderr_pipe[0]''] else [])
              in case capture_wait (os_waits os) of
                   None \<Rightarrow> None
                 | Some w \<Rightarrow>
                     if w = WaitFail then Some (-1, restore output_start (cap_out c), tr @ err)
                     else if cap_ret c < 0 then Some (cap_ret c, restore output_start (cap_out c), tr)
                     else if w \<noteq> WaitExited 0 then
                       Some (-1, restore output_start (cap_out c), tr @ [EvLog GH_LOG_LEVEL_DEBUG])
                     else Some (0, cap_out c, tr)))"

section \<open>What it promises\<close>

text \<open>The bytes that come from the standard output before its end.\<close>

fun stdout_bytes :: "poll_event list \<Rightarrow> string" where
  "stdout_bytes [] = []"
| "stdout_bytes (PollReady (Some (ReadData bs)) r # evs) = bs @ stdout_bytes evs"
| "stdout_bytes (PollReady (Some ReadEof) r # evs) = []"
| "stdout_bytes (ev # evs) = stdout_bytes evs"

text \<open>
  The invariant of the loop: the output has grown from what it was, the error text fits its
  buffer, and the descriptors that are open are the read ends of the open pipes.
\<close>

definition capture_inv :: "kstr \<Rightarrow> capture \<Rightarrow> bool" where
  "capture_inv out c \<longleftrightarrow>
     (\<exists>d. kdata (cap_out c) = kdata out @ d) \<and> (cap_out c = None \<longrightarrow> out = None) \<and>
     length (error_output c) < 2048 \<and> (cap_ret c = 0 \<or> cap_ret c = -1) \<and>
     heap_run [] (cap_trace c) = Some ((if stderr_open c then [''stderr_pipe[0]''] else [])
                                      @ (if stdout_open c then [''stdout_pipe[0]''] else []))"

lemma capture_read_inv:
  "capture_inv out c \<Longrightarrow> (if is_stdout then stdout_open c else stderr_open c) \<Longrightarrow> capture_inv out (capture_read is_stdout ev c)"
  by (cases ev) (auto simp: capture_inv_def capture_read_def cap_emit_def heap_run_append)

lemmas capture_read_invs = capture_read_inv [where is_stdout = True, simplified]
  capture_read_inv [where is_stdout = False, simplified]

lemma capture_poll_inv: "capture_inv out c \<Longrightarrow> capture_inv out (capture_poll r0 r1 c)"
  by (auto simp: capture_poll_def Let_def intro: capture_read_invs split: option.split bool.split)

lemma capture_loop_inv: "capture_loop evs c = Some c' \<Longrightarrow> capture_inv out c \<Longrightarrow> capture_inv out c'"
proof (induction evs c rule: capture_loop.induct)
  case (2 ev evs c)
  then show ?case
    by (cases ev)
      (auto simp: Let_def capture_poll_inv split: if_splits,
       auto simp: capture_inv_def cap_emit_def heap_run_append)
qed (simp split: if_splits)

lemma capture_read_ret: "cap_ret c = 0 \<Longrightarrow> cap_ret (capture_read b ev c) = (if ev = ReadError then -1 else 0)"
  by (cases ev) (simp_all add: capture_read_def cap_emit_def)

lemma capture_read_out:
  "cap_out (capture_read b ev c) = (case ev of ReadData bs \<Rightarrow> if b then kcat (cap_out c) bs else cap_out c | _ \<Rightarrow> cap_out c)"
  "stdout_open (capture_read b ev c) = (stdout_open c \<and> \<not> (b \<and> ev = ReadEof))"
  "stderr_open (capture_read b ev c) = (stderr_open c \<and> (b \<or> ev \<noteq> ReadEof))"
  by (cases ev; simp add: capture_read_def cap_emit_def)+

text \<open>A loop that ends without an error has appended what came from the standard output.\<close>

lemma capture_loop_out:
  "capture_loop evs c = Some c' \<Longrightarrow> cap_ret c = 0 \<Longrightarrow> cap_ret c' = 0 \<Longrightarrow>
   kdata (cap_out c') = kdata (cap_out c) @ (if stdout_open c then stdout_bytes evs else [])"
proof (induction evs c rule: capture_loop.induct)
  case (1 c)
  then show ?case by (auto split: if_splits)
next
  case (2 ev evs c)
  show ?case
  proof (cases "stdout_open c \<or> stderr_open c")
    case False
    with 2 show ?thesis by auto
  next
    case True
    show ?thesis
    proof (cases ev)
      case (PollReady r0 r1)
      let ?c = "capture_poll r0 r1 c"
      have ok: "cap_ret ?c = 0 \<or> cap_ret ?c = -1"
        using 2(4) by (auto simp: capture_poll_def capture_read_ret Let_def split: option.split bool.split)
      then have z: "cap_ret ?c = 0" and l: "capture_loop evs ?c = Some c'"
        using 2(3,5) True by (auto simp: PollReady Let_def split: if_splits)
      have "kdata (cap_out c') = kdata (cap_out ?c) @ (if stdout_open ?c then stdout_bytes evs else [])"
        using 2(2) [OF _ PollReady refl] True z l 2(5) by auto
      moreover have "kdata (cap_out ?c) @ (if stdout_open ?c then stdout_bytes evs else []) =
          kdata (cap_out c) @ (if stdout_open c then stdout_bytes (ev # evs) else [])"
        using z 2(4) by (auto simp: PollReady capture_poll_def Let_def capture_read_ret capture_read_out
            split: option.split_asm option.split bool.splits read_event.splits if_splits)
      ultimately show ?thesis by simp
    qed (use 2 True in \<open>auto simp: cap_emit_def\<close>)
  qed
qed

definition capture0 :: "kstr \<Rightarrow> capture" where
  "capture0 out =
     \<lparr> cap_out = out, error_output = '''', stdout_open = True, stderr_open = True, cap_ret = 0,
       cap_trace = map EvAcquire (pipe_ends ''stdout_pipe'') @ map EvAcquire (pipe_ends ''stderr_pipe'')
         @ [EvRelease ''stdout_pipe[1]'', EvRelease ''stderr_pipe[1]''] \<rparr>"

lemma capture0_inv: "capture_inv out (capture0 out)"
  by (simp add: capture_inv_def capture0_def pipe_ends_def heap_run_append)

lemma kdata_restore:
  "capture_inv out c \<Longrightarrow> kdata (restore (length (kdata out)) (cap_out c)) = kdata out"
  by (cases "cap_out c") (auto simp: capture_inv_def restore_def)

text \<open>
  C18: The capture is all or nothing and closes what it opens. Whenever the function
  returns, every pipe descriptor it has opened is closed exactly once, and either it returns 0, the
  child has exited with status 0 and the output has been extended by exactly the bytes of the
  child's standard output, or it returns -1 and the output has the content it had before.
\<close>

lemma capture_all_or_nothing:
  assumes "run_git_capture repo os out = Some (ret, out', tr)"
  shows "heap_run [] tr = Some [] \<and>
    (ret = 0 \<and> capture_wait (os_waits os) = Some (WaitExited 0) \<and> kdata out' = kdata out @ stdout_bytes (os_polls os) \<or>
     ret = -1 \<and> kdata out' = kdata out)"
proof (cases "(repository_workdir repo \<noteq> None \<or> repository_path repo \<noteq> None) \<and> os_pipe1 os \<and> os_pipe2 os \<and> os_cloexec os \<and> os_fork os")
  case False
  with assms show ?thesis
    by (auto simp: run_git_capture_def Let_def pipe_ends_def split: if_splits)
next
  case True
  then obtain c w where c: "capture_loop (os_polls os) (capture0 out) = Some c"
    and w: "capture_wait (os_waits os) = Some w"
    using assms by (auto simp: run_git_capture_def capture0_def Let_def split: option.splits)
  note inv = capture_loop_inv [OF c capture0_inv]
  then have r: "cap_ret c = 0 \<or> cap_ret c = -1" by (simp add: capture_inv_def)
  have h: "heap_run [] (cap_trace c @ (if stdout_open c then [EvRelease ''stdout_pipe[0]''] else [])
      @ (if stderr_open c then [EvRelease ''stderr_pipe[0]''] else [])) = Some []"
    using inv by (auto simp: capture_inv_def heap_run_append)
  then have h': "heap_run [] (cap_trace c @ (if stdout_open c then [EvRelease ''stdout_pipe[0]''] else [])
      @ (if stderr_open c then [EvRelease ''stderr_pipe[0]''] else []) @ [EvLog l]) = Some []" for l
    by (simp only: append_assoc [symmetric] heap_run_append) simp
  have o: "kdata (cap_out c) = kdata out @ stdout_bytes (os_polls os)" if "cap_ret c = 0"
    using capture_loop_out [OF c _ that] by (simp add: capture0_def)
  show ?thesis
    using assms True c w h h' r o kdata_restore [OF inv]
    by (auto simp: run_git_capture_def capture0_def Let_def split: if_splits)
qed

definition blank_path :: git_repo where
  "blank_path = blank_repo\<lparr> repository_path := Some ''/r/.git/'' \<rparr>"

definition hello_os :: git_os where
  "hello_os = \<lparr> os_pipe1 = True, os_pipe2 = True, os_cloexec = True, os_fork = True,
     os_polls = [PollReady (Some (ReadData ''ab'')) None, PollEintr, PollReady (Some (ReadData ''c'')) (Some ReadEof),
                 PollReady (Some ReadEof) None],
     os_waits = [WaitEintr, WaitExited 0] \<rparr>"

lemma hello_run: "\<exists>tr. run_git_capture blank_path hello_os (Some ''x'') = Some (0, Some ''xabc'', tr)"
  by (simp add: hello_os_def blank_path_def blank_repo_def run_git_capture_def capture_poll_def capture_read_def cap_emit_def kcat_def)

lemma capture_all_or_nothing_witness:
  "\<exists>tr. run_git_capture blank_path hello_os (Some ''x'') = Some (0, Some ''xabc'', tr) \<and> heap_run [] tr = Some []"
proof -
  from hello_run obtain tr where r: "run_git_capture blank_path hello_os (Some ''x'') = Some (0, Some ''xabc'', tr)" by blast
  from capture_all_or_nothing [OF r] r show ?thesis by blast
qed

text \<open>The error text never outgrows its buffer.\<close>

lemma error_output_bounded:
  "capture_loop evs (capture0 out) = Some c \<Longrightarrow> length (error_output c) < 2048"
  using capture_loop_inv [OF _ capture0_inv] by (auto simp: capture_inv_def)

section \<open>It returns\<close>

text \<open>
  A pipe is closed by the answers if one of its reads meets the end of the file; the loop then
  ends, at the latest, with the answer that closes the second pipe.
\<close>

definition ends_stdout :: "poll_event \<Rightarrow> bool" where
  "ends_stdout ev \<longleftrightarrow> (\<exists>r1. ev = PollReady (Some ReadEof) r1)"

definition ends_stderr :: "poll_event \<Rightarrow> bool" where
  "ends_stderr ev \<longleftrightarrow> (\<exists>r0. ev = PollReady r0 (Some ReadEof))"

lemma capture_poll_ends:
  assumes "cap_ret c = 0" "\<not> cap_ret (capture_poll r0 r1 c) < 0"
  shows "cap_ret (capture_poll r0 r1 c) = 0 \<and>
    (stdout_open (capture_poll r0 r1 c) \<longrightarrow> stdout_open c \<and> r0 \<noteq> Some ReadEof) \<and>
    (stderr_open (capture_poll r0 r1 c) \<longrightarrow> stderr_open c \<and> r1 \<noteq> Some ReadEof)"
  using assms by (auto simp: capture_poll_def Let_def capture_read_ret capture_read_out
      split: option.splits bool.splits if_splits)

lemma capture_loop_returns:
  "cap_ret c = 0 \<Longrightarrow> (stdout_open c \<Longrightarrow> list_ex ends_stdout evs) \<Longrightarrow> (stderr_open c \<Longrightarrow> list_ex ends_stderr evs) \<Longrightarrow>
   capture_loop evs c \<noteq> None"
proof (induction evs c rule: capture_loop.induct)
  case (2 ev evs c)
  show ?case
  proof (cases "stdout_open c \<or> stderr_open c")
    case True
    show ?thesis
    proof (cases ev)
      case (PollReady r0 r1)
      show ?thesis
      proof (cases "cap_ret (capture_poll r0 r1 c) < 0")
        case False
        note e = capture_poll_ends [OF 2(3) False]
        have "capture_loop evs (capture_poll r0 r1 c) \<noteq> None"
          using 2(4,5) e False True
          by (intro 2(2) [OF _ PollReady refl]) (auto simp: PollReady ends_stdout_def ends_stderr_def)
        then show ?thesis using True False by (simp add: PollReady)
      qed (use True in \<open>simp add: PollReady\<close>)
    qed (use 2 True in \<open>auto simp: ends_stdout_def ends_stderr_def\<close>)
  qed simp
qed (auto)

lemma capture_wait_returns: "list_ex (\<lambda>w. w \<noteq> WaitEintr) ws \<Longrightarrow> capture_wait ws \<noteq> None"
  by (induction ws rule: capture_wait.induct) simp_all

text \<open>
  C40: The capture returns: if the child closes both pipes and is reaped, however many
  interrupted calls there are in between, the function produces a result.
\<close>

lemma capture_returns:
  assumes "list_ex ends_stdout (os_polls os)" "list_ex ends_stderr (os_polls os)"
    "list_ex (\<lambda>w. w \<noteq> WaitEintr) (os_waits os)"
  shows "run_git_capture repo os out \<noteq> None"
  using capture_loop_returns [of "capture0 out" "os_polls os"] capture_wait_returns [OF assms(3)] assms(1,2)
  by (auto simp: run_git_capture_def capture0_def Let_def split: option.splits if_splits)

lemma capture_returns_witness: "run_git_capture blank_path hello_os None \<noteq> None"
  by (rule capture_returns) (simp_all add: hello_os_def ends_stdout_def ends_stderr_def)

end
