(* ===== verification/Parallel.thy ===== *)
theory Parallel
  imports GitCore
begin

text \<open>
  \<open>RUN_PARALLEL_TASKS\<close> of \<open>src/src/git_handler.c\<close>: the main thread creates one thread per
  task and joins them in order, while the created threads run \<open>parallel_task_runner\<close>
  interleaved in any way. A thread writes its own slot of the task array and its own
  output; what the threads share is the log. \<open>run i\<close> is what the runner of
  task \<open>i\<close> computes: its result, its output and its events in order. The creation of
  a thread is taken to succeed (the code does not look at the result of
  \<open>pthread_create\<close>). That \<open>run i\<close> does not depend on the schedule is an assumption on libgit2: each task opens its own handle,
  and libgit2 promises that handles of different threads may be used at the same time. What the tasks could do to each
  other through the files of the repository, or another process to all of them, is not in the model.
\<close>

section \<open>The steps\<close>

type_synonym task_run = "int \<times> kstr \<times> gh_event list"

datatype thread = NotCreated | Created | Running "gh_event list" int kstr | Finished int kstr

datatype main_pc = Creating nat | Joining nat

record par_state =
  par_pc :: main_pc
  par_threads :: "thread list"
  par_log :: "(nat \<times> gh_event) list"

inductive par_step :: "(nat \<Rightarrow> task_run) \<Rightarrow> nat \<Rightarrow> par_state \<Rightarrow> par_state \<Rightarrow> bool" for run n where
  create: "par_pc s = Creating k \<Longrightarrow> k < n \<Longrightarrow>
    par_step run n s (s\<lparr> par_pc := Creating (Suc k), par_threads := (par_threads s)[k := Created] \<rparr>)"
| created: "par_pc s = Creating n \<Longrightarrow> par_step run n s (s\<lparr> par_pc := Joining 0 \<rparr>)"
| join: "par_pc s = Joining k \<Longrightarrow> k < n \<Longrightarrow> par_threads s ! k = Finished ret out \<Longrightarrow>
    par_step run n s (s\<lparr> par_pc := Joining (Suc k) \<rparr>)"
| start: "i < n \<Longrightarrow> par_threads s ! i = Created \<Longrightarrow> run i = (ret, out, tr) \<Longrightarrow>
    par_step run n s (s\<lparr> par_threads := (par_threads s)[i := Running tr ret out] \<rparr>)"
| event: "i < n \<Longrightarrow> par_threads s ! i = Running (e # tr) ret out \<Longrightarrow>
    par_step run n s (s\<lparr> par_threads := (par_threads s)[i := Running tr ret out], par_log := par_log s @ [(i, e)] \<rparr>)"
| finish: "i < n \<Longrightarrow> par_threads s ! i = Running [] ret out \<Longrightarrow>
    par_step run n s (s\<lparr> par_threads := (par_threads s)[i := Finished ret out] \<rparr>)"

inductive_cases par_stepE: "par_step run n s t"

definition par_init :: "nat \<Rightarrow> par_state" where
  "par_init n = \<lparr> par_pc = Creating 0, par_threads = replicate n NotCreated, par_log = [] \<rparr>"

text \<open>The events of thread \<open>i\<close> in the shared log.\<close>

definition log_of :: "nat \<Rightarrow> (nat \<times> gh_event) list \<Rightarrow> gh_event list" where
  "log_of i l = map snd (filter (\<lambda>x. fst x = i) l)"

lemma log_of_simps [simp]:
  "log_of i [] = []" "log_of i (l @ [(j, e)]) = (if i = j then log_of i l @ [e] else log_of i l)"
  by (simp_all add: log_of_def)

section \<open>The invariant\<close>

fun thread_ok :: "task_run \<Rightarrow> gh_event list \<Rightarrow> thread \<Rightarrow> bool" where
  "thread_ok r l NotCreated \<longleftrightarrow> l = []"
| "thread_ok r l Created \<longleftrightarrow> l = []"
| "thread_ok r l (Running es ret out) \<longleftrightarrow> (ret, out, l @ es) = r"
| "thread_ok r l (Finished ret out) \<longleftrightarrow> (ret, out, l) = r"

definition pc_ok :: "nat \<Rightarrow> main_pc \<Rightarrow> thread list \<Rightarrow> bool" where
  "pc_ok n pc ts \<longleftrightarrow>
     (case pc of
        Creating k \<Rightarrow> k \<le> n \<and> (\<forall>i<n. ts ! i = NotCreated \<longleftrightarrow> k \<le> i)
      | Joining k \<Rightarrow> k \<le> n \<and> (\<forall>i<n. ts ! i \<noteq> NotCreated) \<and> (\<forall>i<k. \<exists>r out. ts ! i = Finished r out))"

definition par_inv :: "(nat \<Rightarrow> task_run) \<Rightarrow> nat \<Rightarrow> par_state \<Rightarrow> bool" where
  "par_inv run n s \<longleftrightarrow>
     length (par_threads s) = n \<and> pc_ok n (par_pc s) (par_threads s) \<and>
     (\<forall>i<n. thread_ok (run i) (log_of i (par_log s)) (par_threads s ! i))"

lemma par_inv_init: "par_inv run n (par_init n)"
  by (auto simp: par_inv_def par_init_def pc_ok_def)

lemma pc_ok_create: "pc_ok n (Creating k) ts \<Longrightarrow> length ts = n \<Longrightarrow> k < n \<Longrightarrow> pc_ok n (Creating (Suc k)) (ts[k := Created])"
  by (auto simp: pc_ok_def nth_list_update)

text \<open>A created thread that is not finished moves on, adding only its own events to the log.\<close>

lemma pc_ok_move:
  assumes ok: "pc_ok n pc ts" and i: "length ts = n" "i < n" "ts ! i \<noteq> NotCreated" "t \<noteq> NotCreated"
    and nf: "\<And>r out. ts ! i \<noteq> Finished r out"
  shows "pc_ok n pc (ts[i := t])"
proof (cases pc)
  case (Creating k)
  with ok i show ?thesis by (auto simp: pc_ok_def nth_list_update)
next
  case (Joining k)
  with ok nf have "k \<le> i" by (simp add: pc_ok_def) (meson not_le)
  with Joining ok i show ?thesis by (auto simp: pc_ok_def nth_list_update)
qed

lemma par_inv_move:
  assumes inv: "par_inv run n s" and i: "i < n" "par_threads s ! i \<noteq> NotCreated" "t \<noteq> NotCreated"
    and nf: "\<And>r out. par_threads s ! i \<noteq> Finished r out"
    and ok: "thread_ok (run i) (log_of i l) t" and others: "\<And>j. j \<noteq> i \<Longrightarrow> log_of j l = log_of j (par_log s)"
  shows "par_inv run n (s\<lparr> par_threads := (par_threads s)[i := t], par_log := l \<rparr>)"
proof -
  have "pc_ok n (par_pc s) ((par_threads s)[i := t])"
    using inv by (intro pc_ok_move i nf) (simp_all add: par_inv_def)
  moreover have "thread_ok (run j) (log_of j l) ((par_threads s)[i := t] ! j)" if "j < n" for j
    using inv ok others that i by (cases "j = i") (simp_all add: par_inv_def)
  ultimately show ?thesis using inv by (simp add: par_inv_def)
qed

lemma par_inv_step: "par_step run n s t \<Longrightarrow> par_inv run n s \<Longrightarrow> par_inv run n t"
proof (induction rule: par_step.induct)
  case (create s k)
  then have k: "par_threads s ! k = NotCreated" "length (par_threads s) = n"
    and pc: "pc_ok n (Creating k) (par_threads s)"
    by (auto simp: par_inv_def pc_ok_def)
  have "thread_ok (run i) (log_of i (par_log s)) ((par_threads s)[k := Created] ! i)" if "i < n" for i
  proof -
    have "thread_ok (run i) (log_of i (par_log s)) (par_threads s ! i)" using create that by (simp add: par_inv_def)
    with k that show ?thesis by (cases "i = k") simp_all
  qed
  with create k pc show ?case by (simp add: par_inv_def pc_ok_create)
next
  case (created s)
  then show ?case by (auto simp: par_inv_def pc_ok_def)
next
  case (join s k ret out)
  then show ?case by (auto simp: par_inv_def pc_ok_def less_Suc_eq)
next
  case (start i s ret out tr)
  then have "log_of i (par_log s) = []" by (auto simp: par_inv_def)
  with start par_inv_move [of run n s i "Running tr ret out" "par_log s"] show ?case by simp
next
  case (event i s e tr ret out)
  then have "thread_ok (run i) (log_of i (par_log s)) (Running (e # tr) ret out)" by (auto simp: par_inv_def)
  with event par_inv_move [of run n s i "Running tr ret out" "par_log s @ [(i, e)]"] show ?case by simp
next
  case (finish i s ret out)
  then have "thread_ok (run i) (log_of i (par_log s)) (Running [] ret out)" by (auto simp: par_inv_def)
  with finish par_inv_move [of run n s i "Finished ret out" "par_log s"] show ?case by simp
qed

interpretation par: transition_system "\<lambda>s. s = par_init n" "par_step run n" "par_inv run n" for run n
  by unfold_locales (auto intro: par_inv_init par_inv_step)

section \<open>Every schedule gives the same results\<close>

definition par_done :: "nat \<Rightarrow> par_state \<Rightarrow> bool" where
  "par_done n s \<longleftrightarrow> par_pc s = Joining n"

definition thread_result :: "thread \<Rightarrow> int \<times> kstr" where
  "thread_result t = (case t of Finished r out \<Rightarrow> (r, out) | _ \<Rightarrow> (0, None))"

lemma par_inv_done:
  assumes "par_inv run n s" "par_done n s"
  shows "map thread_result (par_threads s) = map (\<lambda>i. (fst (run i), fst (snd (run i)))) [0..<n] \<and>
    (\<forall>i<n. log_of i (par_log s) = snd (snd (run i)))"
proof -
  have ok: "par_threads s ! i = Finished (fst (run i)) (fst (snd (run i))) \<and> log_of i (par_log s) = snd (snd (run i))"
    if i: "i < n" for i
  proof -
    obtain r out where "par_threads s ! i = Finished r out"
      using assms i by (auto simp: par_inv_def par_done_def pc_ok_def)
    moreover have "thread_ok (run i) (log_of i (par_log s)) (par_threads s ! i)" using assms(1) i by (simp add: par_inv_def)
    ultimately show ?thesis by (metis fst_conv snd_conv thread_ok.simps(4))
  qed
  moreover have "length (par_threads s) = n" using assms(1) by (simp add: par_inv_def)
  ultimately show ?thesis by (auto intro!: nth_equalityI simp: thread_result_def)
qed

section \<open>Every schedule ends\<close>

definition thread_left :: "task_run \<Rightarrow> thread \<Rightarrow> nat" where
  "thread_left r t =
     (case t of
        NotCreated \<Rightarrow> length (snd (snd r)) + 3
      | Created \<Rightarrow> length (snd (snd r)) + 2
      | Running es _ _ \<Rightarrow> length es + 1
      | Finished _ _ \<Rightarrow> 0)"

definition pc_left :: "nat \<Rightarrow> main_pc \<Rightarrow> nat" where
  "pc_left n pc = (case pc of Creating k \<Rightarrow> (n - k) + n + 1 | Joining k \<Rightarrow> n - k)"

definition par_left :: "(nat \<Rightarrow> task_run) \<Rightarrow> nat \<Rightarrow> par_state \<Rightarrow> nat" where
  "par_left run n s = pc_left n (par_pc s) + (\<Sum>i<n. thread_left (run i) (par_threads s ! i))"

lemma thread_left_update:
  assumes "i < n" "length ts = n" "thread_left (run i) t < thread_left (run i) (ts ! i)"
  shows "(\<Sum>j<n. thread_left (run j) (ts[i := t] ! j)) < (\<Sum>j<n. thread_left (run j) (ts ! j))"
  using assms by (intro sum_strict_mono_ex1) (auto simp: nth_list_update)

lemma par_step_decreases:
  "par_step run n s t \<Longrightarrow> par_inv run n s \<Longrightarrow> par_left run n t < par_left run n s"
proof (induction rule: par_step.induct)
  case (create s k)
  then have "par_threads s ! k = NotCreated" "length (par_threads s) = n"
    by (auto simp: par_inv_def pc_ok_def)
  with create thread_left_update [of k n "par_threads s" run Created] show ?case
    by (simp add: par_left_def pc_left_def thread_left_def add_strict_mono)
next
  case (start i s ret out tr)
  then show ?case
    using thread_left_update [of i n "par_threads s" run "Running tr ret out"]
    by (simp add: par_left_def thread_left_def par_inv_def)
next
  case (event i s e tr ret out)
  then show ?case
    using thread_left_update [of i n "par_threads s" run "Running tr ret out"]
    by (simp add: par_left_def thread_left_def par_inv_def)
next
  case (finish i s ret out)
  then show ?case
    using thread_left_update [of i n "par_threads s" run "Finished ret out"]
    by (simp add: par_left_def thread_left_def par_inv_def)
qed (auto simp: par_left_def pc_left_def)

lemma par_progress:
  assumes "par_inv run n s" "\<not> par_done n s"
  shows "\<exists>t. par_step run n s t"
proof (cases "par_pc s")
  case (Creating k)
  then show ?thesis using assms(1) par_step.create [of s k n run] par_step.created [of s n run]
    by (cases "k < n") (auto simp: par_inv_def pc_ok_def)
next
  case (Joining k)
  with assms have k: "k < n" "par_threads s ! k \<noteq> NotCreated"
    by (auto simp: par_inv_def pc_ok_def par_done_def)
  show ?thesis
  proof (cases "par_threads s ! k")
    case Created
    obtain ret out tr where "run k = (ret, out, tr)" by (cases "run k")
    then show ?thesis using k Created by (blast intro: par_step.start)
  next
    case (Running es ret out)
    then show ?thesis using k par_step.event [of k n s] par_step.finish [of k n s] by (cases es) auto
  next
    case (Finished ret out)
    then show ?thesis using k Joining by (blast intro: par_step.join)
  qed (use k in simp)
qed

interpretation par_ends: terminating_system "\<lambda>s. s = par_init n" "par_step run n" "par_inv run n" "par_left run n" "par_done n"
  for run n
  by unfold_locales (auto intro: par_step_decreases par_progress)

text \<open>
  A run of the tasks is a schedule of them that ends with the last join. What it leaves in the array.
\<close>

lemma parallel_schedules:
  "(\<exists>s. (par_step run n)\<^sup>*\<^sup>* (par_init n) s \<and> par_done n s) \<and>
   (\<forall>s. (par_step run n)\<^sup>*\<^sup>* (par_init n) s \<longrightarrow>
     (\<forall>t. par_step run n s t \<longrightarrow> par_left run n t < par_left run n s) \<and>
     (par_done n s \<longrightarrow>
       map thread_result (par_threads s) = map (\<lambda>i. (fst (run i), fst (snd (run i)))) [0..<n] \<and>
       (\<forall>i<n. log_of i (par_log s) = snd (snd (run i)))))"
proof (intro conjI allI impI)
  show "\<exists>s. (par_step run n)\<^sup>*\<^sup>* (par_init n) s \<and> par_done n s"
    by (rule par_ends.completes [OF par_inv_init])
next
  fix s t assume s: "(par_step run n)\<^sup>*\<^sup>* (par_init n) s" and t: "par_step run n s t"
  from par_step_decreases [OF t par.inv_reachable [OF refl s]]
  show "par_left run n t < par_left run n s" .
next
  fix s assume "(par_step run n)\<^sup>*\<^sup>* (par_init n) s" and d: "par_done n s"
  note d' = par_inv_done [OF par.inv_reachable [OF refl this(1)] d]
  from d' show "map thread_result (par_threads s) = map (\<lambda>i. (fst (run i), fst (snd (run i)))) [0..<n]" by blast
  fix i assume "i < n"
  with d' show "log_of i (par_log s) = snd (snd (run i))" by blast
qed

end
