(* ===== verification/Worker.thy ===== *)
theory Worker
  imports Msgpack Parallel GitStatus GitDiff
begin

text \<open>
  The status request of \<open>src/src/git_handler.c\<close>: the request record and its clean-up, the
  tasks and how a worker runs them, the callback that answers, and the functions that
  open, close and queue. A \<open>kstring_t *\<close> field is \<open>None\<close> for a \<open>NULL\<close> pointer
  and \<open>Some\<close> of the string otherwise.
\<close>

section \<open>The request\<close>

record git_root_req =
  rq_id :: u64
  rq_pwd :: "kstr option"
  rq_repo_path :: "kstr option"
  rq_dot_git_dir :: "kstr option"
  rq_repo :: bool
  rq_root :: "kstr option"
  rq_rev_head :: "kstr option"
  rq_list_z :: "kstr option"
  rq_branch :: "kstr option"
  rq_upstream_branch :: "kstr option"
  rq_head_log_line :: "kstr option"
  rq_subj :: "kstr option"
  rq_upstream_subj :: "kstr option"
  rq_tag_desc :: "kstr option"
  rq_opt_tag_desc_head :: "kstr option"
  rq_version :: "kstr option"
  rq_worktree_porcelain :: "kstr option"
  rq_config_status_show_untracked_files :: "kstr option"
  rq_status :: "kstr option"
  rq_diff :: "kstr option"
  rq_staged :: "kstr option"
  rq_is_bare :: u64
  rq_stash :: "kstr option"
  rq_branches :: "kstr option"
  rq_revision_by_idx :: "kstr option"
  rq_logs :: "kstr option"
  rq_rev_short_head :: "kstr option"
  rq_tag_master :: "kstr option"
  rq_tag_origin_master :: "kstr option"
  rq_origin_head :: "kstr option"
  rq_tag_origin_head :: "kstr option"
  rq_upstream_branch_master :: "kstr option"
  rq_result :: int

text \<open>\<open>calloc\<close>: every pointer \<open>NULL\<close>, every number 0.\<close>

definition zero_req :: git_root_req where
  "zero_req =
     \<lparr> rq_id = 0, rq_pwd = None, rq_repo_path = None, rq_dot_git_dir = None, rq_repo = False, rq_root = None,
       rq_rev_head = None, rq_list_z = None, rq_branch = None, rq_upstream_branch = None,
       rq_head_log_line = None, rq_subj = None, rq_upstream_subj = None, rq_tag_desc = None,
       rq_opt_tag_desc_head = None, rq_version = None, rq_worktree_porcelain = None,
       rq_config_status_show_untracked_files = None, rq_status = None, rq_diff = None, rq_staged = None,
       rq_is_bare = 0, rq_stash = None, rq_branches = None, rq_revision_by_idx = None, rq_logs = None,
       rq_rev_short_head = None, rq_tag_master = None, rq_tag_origin_master = None, rq_origin_head = None,
       rq_tag_origin_head = None, rq_upstream_branch_master = None, rq_result = 0 \<rparr>"

text \<open>
  The blocks that a \<open>kstring_t *\<close> field owns and that \<open>free(p->s); free(p)\<close> frees, with
  the field's name.
\<close>

definition field_blocks :: "string \<Rightarrow> kstr option \<Rightarrow> (string \<times> freed) list" where
  "field_blocks name k = map (Pair name) (str_cleanup k)"

definition fields_blocks :: "(string \<times> kstr option) list \<Rightarrow> (string \<times> freed) list" where
  "fields_blocks fs = concat (map (\<lambda>f. field_blocks (fst f) (snd f)) fs)"

text \<open>What the clean-up of a request frees: its repository handle, its string fields in this order, and itself.\<close>

definition cleanup_fields :: "git_root_req \<Rightarrow> (string \<times> kstr option) list" where
  "cleanup_fields d =
     [(''pwd'', rq_pwd d),
      (''repo_path'', rq_repo_path d),
      (''dot_git_dir'', rq_dot_git_dir d),
      (''root'', rq_root d),
      (''rev_head'', rq_rev_head d),
      (''list_z'', rq_list_z d),
      (''branch'', rq_branch d),
      (''upstream_subj'', rq_upstream_subj d),
      (''version'', rq_version d),
      (''subj'', rq_subj d),
      (''opt_tag_desc_head'', rq_opt_tag_desc_head d),
      (''worktree_porcelain'', rq_worktree_porcelain d),
      (''config_status_show_untracked_files'', rq_config_status_show_untracked_files d),
      (''status'', rq_status d),
      (''diff'', rq_diff d),
      (''staged'', rq_staged d),
      (''stash'', rq_stash d),
      (''branches'', rq_branches d),
      (''revision_by_idx'', rq_revision_by_idx d),
      (''upstream_branch'', rq_upstream_branch d),
      (''head_log_line'', rq_head_log_line d),
      (''tag_desc'', rq_tag_desc d),
      (''logs'', rq_logs d)]"

definition git_root_request_cleanup :: "git_root_req option \<Rightarrow> (string \<times> freed) list" where
  "git_root_request_cleanup req =
     (case req of
        None \<Rightarrow> []
      | Some d \<Rightarrow>
          (if rq_repo d then [(''repo'', FreePtr)] else []) @ fields_blocks (cleanup_fields d) @ [(''req'', FreePtr)])"

section \<open>Tasks\<close>

text \<open>
  The task functions; \<open>alloc\<close> says whether small allocations succeed. The output
  argument is the output of the query.
\<close>

definition task_rev_head :: "git_repo \<Rightarrow> (int \<times> string option) gh" where
  "task_rev_head repo = git_rev_head repo"

definition task_config_list_z :: "git_repo \<Rightarrow> int gh" where
  "task_config_list_z repo = git_config_list_z repo"

definition task_head_subject :: "git_repo \<Rightarrow> int gh" where
  "task_head_subject repo = git_head_subject repo ''HEAD''"

definition task_symbolic_ref_short_head :: "git_repo \<Rightarrow> int gh" where
  "task_symbolic_ref_short_head repo = git_symbolic_ref_short_head repo"

definition task_branch_upstream_name :: "string \<Rightarrow> git_repo \<Rightarrow> int gh" where
  "task_branch_upstream_name arg repo = get_branch_upstream_name repo arg"

definition task_tag_desc :: "bool \<Rightarrow> git_repo \<Rightarrow> int gh" where
  "task_tag_desc alloc repo = get_tag_desc alloc repo"

definition task_tag_desc_if_match :: "bool \<Rightarrow> git_repo \<Rightarrow> int gh" where
  "task_tag_desc_if_match alloc repo = get_tag_desc_if_match alloc repo"

definition task_worktrees_porcelain :: "git_repo \<Rightarrow> int gh" where
  "task_worktrees_porcelain repo = list_worktrees_porcelain repo"

definition task_config_show_untracked :: "git_repo \<Rightarrow> int gh" where
  "task_config_show_untracked repo = get_config_status_show_untracked_files repo"

definition task_status_porcelain_z :: "git_repo \<Rightarrow> int gh" where
  "task_status_porcelain_z repo = get_status_porcelain_z repo"

definition task_diff_patch :: "git_repo \<Rightarrow> int gh" where
  "task_diff_patch repo = get_diff_patch repo"

definition task_staged :: "git_repo \<Rightarrow> int gh" where
  "task_staged repo = get_staged repo"

definition task_stash_oid :: "git_repo \<Rightarrow> int gh" where
  "task_stash_oid repo = get_stash_oid repo"

definition task_branch_list :: "git_repo \<Rightarrow> int gh" where
  "task_branch_list repo = get_branch_list repo"

definition task_rev_parse_verify :: "git_repo \<Rightarrow> int gh" where
  "task_rev_parse_verify repo = get_rev_parse_verify repo ''HEAD~30''"

definition task_log :: "git_repo \<Rightarrow> int gh" where
  "task_log repo = get_log repo 30"

definition task_rev_parse_short_head :: "git_repo \<Rightarrow> int gh" where
  "task_rev_parse_short_head repo = get_rev_parse_short_head repo"

definition task_tag_master :: "git_repo \<Rightarrow> int gh" where
  "task_tag_master repo = get_tag_master_oid repo"

definition task_tag_origin_master :: "git_repo \<Rightarrow> int gh" where
  "task_tag_origin_master repo = get_ref_oid repo ''refs/tags/origin/master''"

definition task_tag_origin_head :: "git_repo \<Rightarrow> int gh" where
  "task_tag_origin_head repo = get_ref_oid repo ''refs/tags/origin/HEAD''"

definition task_origin_head :: "git_repo \<Rightarrow> int gh" where
  "task_origin_head repo = get_origin_head repo"

definition task_upstream_branch_master :: "git_repo \<Rightarrow> int gh" where
  "task_upstream_branch_master repo = get_upstream_branch repo ''master''"

definition task_upstream_subj :: "string \<Rightarrow> git_repo \<Rightarrow> int gh" where
  "task_upstream_subj arg repo = git_head_subject repo arg"

text \<open>The entries of the task array; path, output and argument are given where they are run.\<close>

record parallel_task =
  task_fn :: "git_repo \<Rightarrow> int gh"
  task_name :: string
  task_optional :: bool

definition status_tasks :: "bool \<Rightarrow> parallel_task list" where
  "status_tasks alloc =
     [\<lparr> task_fn = task_config_list_z, task_name = ''config_list_z'', task_optional = False \<rparr>,
      \<lparr> task_fn = task_head_subject, task_name = ''head_subject'', task_optional = False \<rparr>,
      \<lparr> task_fn = task_tag_desc alloc, task_name = ''tag_desc'', task_optional = True \<rparr>,
      \<lparr> task_fn = task_tag_desc_if_match alloc, task_name = ''tag_desc_if_match'', task_optional = False \<rparr>,
      \<lparr> task_fn = task_worktrees_porcelain, task_name = ''worktrees_porcelain'', task_optional = False \<rparr>,
      \<lparr> task_fn = task_config_show_untracked, task_name = ''config_show_untracked_files'', task_optional = False \<rparr>,
      \<lparr> task_fn = task_status_porcelain_z, task_name = ''status_porcelain_z'', task_optional = False \<rparr>,
      \<lparr> task_fn = task_diff_patch, task_name = ''diff_patch'', task_optional = False \<rparr>,
      \<lparr> task_fn = task_staged, task_name = ''staged'', task_optional = False \<rparr>,
      \<lparr> task_fn = task_stash_oid, task_name = ''stash_oid'', task_optional = True \<rparr>,
      \<lparr> task_fn = task_branch_list, task_name = ''branch_list'', task_optional = False \<rparr>,
      \<lparr> task_fn = task_rev_parse_verify, task_name = ''rev_parse_verify'', task_optional = True \<rparr>,
      \<lparr> task_fn = task_log, task_name = ''log'', task_optional = False \<rparr>,
      \<lparr> task_fn = task_rev_parse_short_head, task_name = ''rev_parse_short_head'', task_optional = False \<rparr>,
      \<lparr> task_fn = task_tag_master, task_name = ''tag_master'', task_optional = True \<rparr>,
      \<lparr> task_fn = task_tag_origin_master, task_name = ''tag_origin_master'', task_optional = True \<rparr>,
      \<lparr> task_fn = task_tag_origin_head, task_name = ''tag_origin_head'', task_optional = True \<rparr>,
      \<lparr> task_fn = task_origin_head, task_name = ''origin_head'', task_optional = True \<rparr>,
      \<lparr> task_fn = task_upstream_branch_master, task_name = ''upstream_branch_master'', task_optional = True \<rparr>]"

text \<open>
  What a worker is given: \<open>git_repository_open_ext\<close> for its own handle (caller 0) and for
  the handle of task \<open>i\<close> (caller \<open>i + 1\<close>), the duration of each step, whether small
  allocations succeed, and the version of libgit2.
\<close>

record worker_env =
  we_open :: "nat \<Rightarrow> string \<Rightarrow> int \<times> git_repo"
  we_ms :: "string \<Rightarrow> u64"
  we_alloc :: bool
  we_version :: "int \<times> int \<times> int"

definition parallel_task_runner :: "worker_env \<Rightarrow> string \<Rightarrow> nat \<Rightarrow> parallel_task \<Rightarrow> int gh" where
  "parallel_task_runner env repo_path i task =
     (case we_open env (i + 1) repo_path of (open_ret, repo) \<Rightarrow>
        if open_ret < 0 then do { log_at GH_LOG_LEVEL_ERROR; result open_ret }
        else do {
          acquire ''repo'';
          error_clear;
          ret \<leftarrow> task_fn task repo;
          release ''repo'';
          log_at (step_level ret (we_ms env (task_name task)) (task_optional task));
          result ret
        })"

text \<open>\<open>RUN_TASK\<close> and \<open>RUN_TASK_OPT\<close>; \<open>code\<close> takes the result code from what the task gives.\<close>

definition run_task :: "('a \<Rightarrow> int) \<Rightarrow> worker_env \<Rightarrow> string \<Rightarrow> bool \<Rightarrow> 'a gh \<Rightarrow> 'a gh" where
  "run_task code env name optional task = do {
     error_clear;
     ret \<leftarrow> task;
     log_at (step_level (code ret) (we_ms env name) optional);
     result ret
   }"

lemma length_status_tasks [simp]: "length (status_tasks alloc) = 19"
  by (simp add: status_tasks_def)

lemmas task_defs = task_config_list_z_def task_head_subject_def task_tag_desc_def task_tag_desc_if_match_def
  task_worktrees_porcelain_def task_config_show_untracked_def task_status_porcelain_z_def task_diff_patch_def
  task_staged_def task_stash_oid_def task_branch_list_def task_rev_parse_verify_def task_log_def
  task_rev_parse_short_head_def task_tag_master_def task_tag_origin_master_def task_tag_origin_head_def
  task_origin_head_def task_upstream_branch_master_def task_upstream_subj_def task_rev_head_def
  task_symbolic_ref_short_head_def task_branch_upstream_name_def

lemma framed_status_tasks: "t \<in> set (status_tasks alloc) \<Longrightarrow> framed (task_fn t repo)"
  by (auto simp: status_tasks_def task_defs)

lemma framed_run_task [simp]: "framed m \<Longrightarrow> framed (run_task code env name optional m)"
  by (simp add: run_task_def)

lemma run_task_parts [query_eval]:
  "framed m \<Longrightarrow> ret_of (run_task code env name opt m) = ret_of m"
  "framed m \<Longrightarrow> out_of (run_task code env name opt m) = out_of m"
  by (simp_all add: run_task_def query_eval)

section \<open>The worker\<close>

text \<open>\<open>kputs (src->s, dst)\<close>, where \<open>src->s\<close> must not be \<open>NULL\<close>.\<close>

definition kputs_from :: "kstr \<Rightarrow> kstr \<Rightarrow> kstr \<times> gh_event list" where
  "kputs_from src dst = (case src of None \<Rightarrow> (dst, [EvFault ''kputs(NULL)'']) | Some s \<Rightarrow> (kcat dst (cstr s), []))"

text \<open>
  Phases 3 and 4: the upstream of the branch, and the subject of the upstream's commit. The results
  are the code and output of the two tasks, and the events.
\<close>

definition upstream_phase :: "worker_env \<Rightarrow> git_repo \<Rightarrow> int \<Rightarrow> kstr \<Rightarrow> int \<times> kstr \<times> gh_event list" where
  "upstream_phase env repo branch_ret br =
     (if branch_ret = 0 then
        case br of
          None \<Rightarrow> (-1, str_create None 0, [EvFault ''git_branch_lookup(NULL)''])
        | Some s \<Rightarrow>
            let m = run_task (\<lambda>r. r) env ''branch_upstream_name'' True (task_branch_upstream_name (cstr s) repo)
            in (ret_of m, kjoin (str_create None 0) (out_of m), trace_of m @ (if ret_of m \<noteq> 0 then [EvLog GH_LOG_LEVEL_DEBUG] else []))
      else (-1, str_create None 0, [EvLog GH_LOG_LEVEL_DEBUG]))"

definition upstream_subj_phase :: "worker_env \<Rightarrow> git_repo \<Rightarrow> int \<Rightarrow> kstr \<Rightarrow> kstr \<times> gh_event list" where
  "upstream_subj_phase env repo upstream_ret up =
     (if upstream_ret = 0 then
        let (target, ev) = kputs_from up (str_create (Some ''refs/remotes/'') (length ''refs/remotes/''));
            m = run_task (\<lambda>r. r) env ''upstream_subj'' True (task_upstream_subj (cstr (kdata target)) repo)
        in (kjoin (str_create None 0) (out_of m), ev @ trace_of m)
      else (str_create None 0, []))"

text \<open>
  The condition under which there is a response: the worktree's path and the result codes of \<open>rev_head\<close>,
  \<open>list_z\<close>, \<open>subj\<close>, \<open>opt_tag_desc_head\<close>, \<open>worktree_porcelain\<close>,
  \<open>config_status_show_untracked_files\<close> and \<open>status\<close>.
\<close>

definition worker_gate :: "string option \<Rightarrow> int \<Rightarrow> (int \<times> kstr) list \<Rightarrow> bool" where
  "worker_gate workdir rev_ret ts \<longleftrightarrow>
     workdir \<noteq> None \<and> rev_ret = 0 \<and> fst (ts ! 0) = 0 \<and> fst (ts ! 1) = 0 \<and> fst (ts ! 3) = 0 \<and> fst (ts ! 4) = 0 \<and>
     fst (ts ! 5) = 0 \<and> fst (ts ! 6) = 0"

text \<open>The outputs of the tasks, stored into the request by the pointers of the task array.\<close>

definition store_tasks :: "(int \<times> kstr) list \<Rightarrow> git_root_req \<Rightarrow> git_root_req" where
  "store_tasks ts d = d\<lparr>
     rq_list_z := Some (snd (ts ! 0)), rq_head_log_line := Some (str_create None 0),
     rq_subj := Some (snd (ts ! 1)), rq_tag_desc := Some (snd (ts ! 2)),
     rq_opt_tag_desc_head := Some (snd (ts ! 3)), rq_worktree_porcelain := Some (snd (ts ! 4)),
     rq_config_status_show_untracked_files := Some (snd (ts ! 5)), rq_status := Some (snd (ts ! 6)),
     rq_diff := Some (snd (ts ! 7)), rq_staged := Some (snd (ts ! 8)), rq_stash := Some (snd (ts ! 9)),
     rq_branches := Some (snd (ts ! 10)), rq_revision_by_idx := Some (snd (ts ! 11)),
     rq_logs := Some (snd (ts ! 12)), rq_rev_short_head := Some (snd (ts ! 13)),
     rq_tag_master := Some (snd (ts ! 14)), rq_tag_origin_master := Some (snd (ts ! 15)),
     rq_tag_origin_head := Some (snd (ts ! 16)), rq_origin_head := Some (snd (ts ! 17)),
     rq_upstream_branch_master := Some (snd (ts ! 18)) \<rparr>"

text \<open>
  The worker, given what the 19 parallel tasks leave in their slots; the events are those of the worker's own thread.
  \<open>workdir\<close> is never empty, so that the length of the root is one less than its own.
\<close>

definition git_root_worker :: "worker_env \<Rightarrow> (int \<times> kstr) list \<Rightarrow> git_root_req \<Rightarrow> git_root_req \<times> gh_event list" where
  "git_root_worker env ts data =
     (case we_open env 0 (case rq_repo_path data of Some p \<Rightarrow> cstr (kdata p) | None \<Rightarrow> []) of (open_ret, repo) \<Rightarrow>
        if open_ret < 0 then (data, [EvLog GH_LOG_LEVEL_DEBUG, EvLog GH_LOG_LEVEL_ERROR])
        else
          let data = data\<lparr> rq_repo := True \<rparr>;
              cg = load_commit_graph (we_alloc env) repo;
              workdir = repository_workdir repo;
              data = store_tasks ts data;
              rv = run_task fst env ''rev_head'' False (task_rev_head repo);
              rev_ret = fst (ret_of rv);
              data = data\<lparr> rq_is_bare := (if repository_is_bare repo \<noteq> 0 then 1 else 0) \<rparr>;
              br = run_task (\<lambda>r. r) env ''symbolic_ref_short_head'' True (task_symbolic_ref_short_head repo);
              data = data\<lparr> rq_branch := Some (kjoin (str_create None 0) (out_of br)) \<rparr>;
              (up_ret, up, ev3) = upstream_phase env repo (ret_of br) (out_of br);
              data = data\<lparr> rq_upstream_branch := Some up \<rparr>;
              (up_subj, ev4) = upstream_subj_phase env repo up_ret up;
              data = data\<lparr> rq_upstream_subj := Some up_subj \<rparr>;
              ev = [EvLog GH_LOG_LEVEL_DEBUG] @ trace_of cg @ trace_of rv @ trace_of br
                   @ (if ret_of br \<noteq> 0 then [EvLog GH_LOG_LEVEL_DEBUG] else []) @ ev3 @ ev4
                   @ (if fst (ts ! 2) \<noteq> 0 then [EvLog GH_LOG_LEVEL_DEBUG] else []);
              late = (if fst (ts ! 7) \<noteq> 0 \<or> fst (ts ! 8) \<noteq> 0 \<or> fst (ts ! 10) \<noteq> 0 \<or> fst (ts ! 12) \<noteq> 0
                      then [EvLog GH_LOG_LEVEL_WARN] else []) @ [EvLog GH_LOG_LEVEL_DEBUG]
          in if worker_gate workdir rev_ret ts then
               let w = cstr (the workdir);
                   oid_str = (case snd (ret_of rv) of Some s \<Rightarrow> cstr s | None \<Rightarrow> []);
                   head_line = kcat (kcat (str_create None 0) oid_str) '' '';
                   (head_line, ev5) = kputs_from (snd (ts ! 1)) head_line
               in (data\<lparr> rq_root := Some (str_create (Some w) (length w - 1)),
                         rq_rev_head := Some (str_create (Some oid_str) (length oid_str)),
                         rq_head_log_line := Some head_line,
                         rq_version := Some (git_version_create (we_version env)),
                         rq_result := 0 \<rparr>, ev @ ev5 @ late)
             else (data, ev @ [EvLog GH_LOG_LEVEL_ERROR] @ late))"

section \<open>The answer\<close>

text \<open>
  The designated initialiser of the response: every member that is not named is zero, and the
  member \<open>upstream_branch\<close> is named twice, with the same value.
\<close>

definition response_of :: "git_root_req \<Rightarrow> magit_res" where
  "response_of d =
     \<lparr> res_id = rq_id d, git_root = rq_root d, rev_head = rq_rev_head d, list_z = rq_list_z d,
       branch = rq_branch d, upstream_branch = rq_upstream_branch d, head_log_line = rq_head_log_line d,
       upstream_subj = rq_upstream_subj d, tag_desc = rq_tag_desc d, opt_tag_desc_head = rq_opt_tag_desc_head d,
       version = rq_version d, worktree_porcelain = rq_worktree_porcelain d, dot_git_dir = rq_dot_git_dir d,
       config_status_show_untracked_files = rq_config_status_show_untracked_files d, status = rq_status d,
       diff = rq_diff d, staged = rq_staged d, is_bare = rq_is_bare d, stash = rq_stash d,
       branches = rq_branches d, revision_by_idx = rq_revision_by_idx d, logs = rq_logs d,
       rev_short_head = rq_rev_short_head d, tag_master = rq_tag_master d,
       tag_origin_master = rq_tag_origin_master d, origin_head = rq_origin_head d,
       tag_origin_head = rq_tag_origin_head d, upstream_branch_master = None \<rparr>"

text \<open>What is sent, if anything, and what the clean-up frees at the end of the callback.\<close>

definition after_git_root :: "int \<Rightarrow> git_root_req \<Rightarrow> magit_res option \<times> (string \<times> freed) list" where
  "after_git_root work_status data =
     (if work_status \<noteq> 0 then (None, git_root_request_cleanup (Some data))
      else if rq_result data < 0 then (None, git_root_request_cleanup (Some data))
      else (Some (response_of data), git_root_request_cleanup (Some data)))"

section \<open>The repository and the queue\<close>

record git_globals =
  g_repo :: "git_repo option"
  g_dot_git_dir :: "kstr option"

text \<open>
  \<open>git_handler_queue_git_status\<close>: its result, the request that is handed to the loop if
  there is one, and what is freed on the way out. \<open>calloc_ok\<close> and \<open>queue_ret\<close> are
  the answers of \<open>calloc\<close> and \<open>uv_queue_work\<close>.
\<close>

definition git_handler_queue_git_status ::
    "git_globals \<Rightarrow> bool \<Rightarrow> int \<Rightarrow> u64 \<Rightarrow> kstr option \<Rightarrow> int \<times> git_root_req option \<times> (string \<times> freed) list" where
  "git_handler_queue_git_status g calloc_ok queue_ret req_id pwd =
     (if \<not> calloc_ok then (-1, None, git_root_request_cleanup None)
      else
        let data = zero_req\<lparr> rq_pwd := pwd, rq_id := req_id, rq_result := -1 \<rparr>
        in case g_repo g of
          None \<Rightarrow> (-1, None, git_root_request_cleanup (Some data))
        | Some repo \<Rightarrow>
            (case (case repository_workdir repo of Some p \<Rightarrow> Some p | None \<Rightarrow> repository_path repo) of
               None \<Rightarrow> (-1, None, git_root_request_cleanup (Some data))
             | Some repo_path \<Rightarrow>
                 let data = data\<lparr> rq_repo_path := Some (str_create (Some repo_path) (length (cstr repo_path))) \<rparr>;
                     data = (case g_dot_git_dir g of
                               Some k \<Rightarrow> data\<lparr> rq_dot_git_dir := Some (str_create k (length (kdata k))) \<rparr>
                             | None \<Rightarrow> data)
                 in if queue_ret = 0 then (queue_ret, Some data, git_root_request_cleanup None)
                    else (queue_ret, None, git_root_request_cleanup (Some data))))"

text \<open>
  \<open>git_handler_repo_init\<close> with the answers of \<open>git_repository_discover\<close> and
  \<open>git_repository_open_ext\<close>: its result, the globals, and the string that is lost if no
  git directory is found.
\<close>

definition git_handler_repo_init ::
    "int \<times> string \<Rightarrow> int \<times> git_repo \<Rightarrow> git_globals \<Rightarrow> int \<times> git_globals \<times> kstr option" where
  "git_handler_repo_init discover open_ext g =
     (let out = str_create None 0;
          (g, lost) = (if fst discover = 0 then (g\<lparr> g_dot_git_dir := Some (kcat out (cstr (snd discover))) \<rparr>, None)
                       else (g, Some out))
      in if fst open_ext < 0 then (fst open_ext, g, lost)
         else (fst open_ext, g\<lparr> g_repo := Some (snd open_ext) \<rparr>, lost))"

definition git_handler_repo_deinit :: "git_globals \<Rightarrow> (string \<times> freed) list" where
  "git_handler_repo_deinit g =
     (if g_repo g \<noteq> None then [(''g_repo'', FreePtr)] else [])
     @ field_blocks ''g_dot_git_dir'' (g_dot_git_dir g)"

end
