(* ===== verification/StatusRequest.thy ===== *)
theory StatusRequest
  imports Worker
begin

text \<open>
  What the status request of theory \<open>Worker\<close> guarantees: the tasks give the same results in
  every schedule, a response is sent exactly when the gating steps succeed, what it contains, and who
  frees what.
\<close>

section \<open>The parallel tasks\<close>

text \<open>What the runner of task \<open>i\<close> leaves: its result, its output string and its events.\<close>

definition status_run :: "worker_env \<Rightarrow> string \<Rightarrow> nat \<Rightarrow> task_run" where
  "status_run env repo_path i =
     (let m = parallel_task_runner env repo_path i (status_tasks (we_alloc env) ! i)
      in (ret_of m, kjoin (str_create None 0) (out_of m), trace_of m))"

text \<open>The slots of the task array after the last join, as the worker reads them.\<close>

definition task_slots :: "worker_env \<Rightarrow> string \<Rightarrow> (int \<times> kstr) list" where
  "task_slots env repo_path = map (\<lambda>i. (fst (status_run env repo_path i), fst (snd (status_run env repo_path i)))) [0..<19]"

text \<open>
  C9: The 19 tasks of a status request can be scheduled in any way: some schedule of their threads gets past the
  last join, no schedule goes on for ever, and after the last join of any schedule the task array holds the
  same results and outputs and the log has, for each task, the same events in the same
  order as if the tasks had been run one after the other.
\<close>

lemma status_tasks_schedule_free:
  "(\<exists>s. (par_step (status_run env p) 19)\<^sup>*\<^sup>* (par_init 19) s \<and> par_done 19 s) \<and>
   (\<forall>s. (par_step (status_run env p) 19)\<^sup>*\<^sup>* (par_init 19) s \<longrightarrow>
     (\<forall>t. par_step (status_run env p) 19 s t \<longrightarrow> par_left (status_run env p) 19 t < par_left (status_run env p) 19 s) \<and>
     (par_done 19 s \<longrightarrow>
       map thread_result (par_threads s) = task_slots env p \<and>
       (\<forall>i<19. log_of i (par_log s) = snd (snd (status_run env p i)))))"
  unfolding task_slots_def by (rule parallel_schedules)

text \<open>An environment in which no repository can be opened.\<close>

definition closed_env :: worker_env where
  "closed_env = \<lparr> we_open = (\<lambda>_ _. (-3, blank_repo)), we_ms = (\<lambda>_. 0), we_alloc = True, we_version = (1, 9, 0) \<rparr>"

lemma closed_slots: "task_slots closed_env p = replicate 19 (-3, None)"
proof -
  have "fst (status_run closed_env p i) = -3 \<and> fst (snd (status_run closed_env p i)) = None" for i
    by (simp add: status_run_def parallel_task_runner_def closed_env_def query_eval str_create_def)
  then show ?thesis by (simp add: task_slots_def list_eq_iff_nth_eq)
qed

lemma status_tasks_schedule_free_witness:
  "\<exists>s. (par_step (status_run closed_env ''/r'') 19)\<^sup>*\<^sup>* (par_init 19) s \<and> par_done 19 s \<and>
     map thread_result (par_threads s) = replicate 19 (-3, None)"
  using status_tasks_schedule_free [of closed_env "''/r''"] closed_slots [of "''/r''"] by auto

section \<open>When there is an answer\<close>

definition worker_path :: "git_root_req \<Rightarrow> string" where
  "worker_path d = (case rq_repo_path d of Some p \<Rightarrow> cstr (kdata p) | None \<Rightarrow> [])"

lemma worker_cases:
  "git_root_worker env ts d = (d', ev) \<Longrightarrow>
   we_open env 0 (worker_path d) = (open_ret, repo) \<Longrightarrow>
   rq_result d' = (if open_ret \<ge> 0 \<and> worker_gate (repository_workdir repo) (fst (ret_of (git_rev_head repo))) ts
                   then 0 else rq_result d)"
  by (auto simp: git_root_worker_def worker_path_def Let_def task_rev_head_def query_eval store_tasks_def
      split: if_splits prod.splits)

text \<open>
  C10: A response is sent exactly when the work was not cancelled, the worker could open the
  repository, it has a worktree, and the gating steps (head revision, configuration,
  subject, tag at the head, worktrees, untracked-files option, status) all returned 0. The
  other twelve tasks may fail, and so may the branch and its upstream.
\<close>

lemma response_gate:
  assumes "rq_result d = -1"
  shows "(\<exists>res. fst (after_git_root st (fst (git_root_worker env ts d))) = Some res) \<longleftrightarrow>
    st = 0 \<and> (case we_open env 0 (worker_path d) of (open_ret, repo) \<Rightarrow>
      open_ret \<ge> 0 \<and> repository_workdir repo \<noteq> None \<and> fst (ret_of (git_rev_head repo)) = 0 \<and>
      list_all (\<lambda>i. fst (ts ! i) = 0) [0, 1, 3, 4, 5, 6])"
proof -
  obtain d' ev where w: "git_root_worker env ts d = (d', ev)" by (cases "git_root_worker env ts d")
  obtain open_ret repo where o: "we_open env 0 (worker_path d) = (open_ret, repo)"
    by (cases "we_open env 0 (worker_path d)")
  show ?thesis
    using worker_cases [OF w o] assms by (auto simp: after_git_root_def w o worker_gate_def)
qed

lemma response_gate_witness:
  "\<not> (\<exists>res. fst (after_git_root 0 (fst (git_root_worker closed_env (replicate 19 (0, None))
      (zero_req\<lparr> rq_result := -1 \<rparr>)))) = Some res)"
  by (subst response_gate) (simp_all add: closed_env_def zero_req_def)

section \<open>What the answer contains\<close>

text \<open>The texts of the branch, of its upstream, and of the subject of the upstream's commit.\<close>

definition branch_text :: "git_repo \<Rightarrow> string" where
  "branch_text repo = kdata (out_of (git_symbolic_ref_short_head repo))"

definition upstream_known :: "git_repo \<Rightarrow> bool" where
  "upstream_known repo \<longleftrightarrow> ret_of (git_symbolic_ref_short_head repo) = 0 \<and> out_of (git_symbolic_ref_short_head repo) \<noteq> None"

definition upstream_text :: "git_repo \<Rightarrow> string" where
  "upstream_text repo =
     (if upstream_known repo then kdata (out_of (get_branch_upstream_name repo (cstr (branch_text repo)))) else [])"

definition upstream_subj_text :: "git_repo \<Rightarrow> string" where
  "upstream_subj_text repo =
     (if upstream_known repo \<and> ret_of (get_branch_upstream_name repo (cstr (branch_text repo))) = 0
      then kdata (out_of (git_head_subject repo (cstr (''refs/remotes/'' @ cstr (upstream_text repo))))) else [])"

lemma kdata_kjoin_empty [simp]: "kdata (kjoin (str_create None 0) k) = kdata k"
  by (cases k) (simp_all add: kjoin_def str_create_def kcat_def kdata_def)

lemma upstream_texts:
  assumes "br = run_task (\<lambda>r. r) env ''symbolic_ref_short_head'' True (task_symbolic_ref_short_head repo)"
    "upstream_phase env repo (ret_of br) (out_of br) = (up_ret, up, ev)"
  shows "kdata up = upstream_text repo" "kdata (fst (upstream_subj_phase env repo up_ret up)) = upstream_subj_text repo"
proof -
  let ?b = "git_symbolic_ref_short_head repo"
  have br: "ret_of br = ret_of ?b" "out_of br = out_of ?b" unfolding assms(1) task_symbolic_ref_short_head_def by (simp_all add: query_eval)
  show up: "kdata up = upstream_text repo"
    using assms(2) unfolding br
    by (auto simp: upstream_phase_def upstream_text_def upstream_known_def branch_text_def task_branch_upstream_name_def kdata_kjoin_empty
        query_eval str_create_def kdata_def [of "Some _"] Let_def split: if_splits option.splits)
  show "kdata (fst (upstream_subj_phase env repo up_ret up)) = upstream_subj_text repo"
  proof (cases "upstream_known repo")
    case False
    then show ?thesis using assms(2) unfolding br
      by (auto simp: upstream_phase_def upstream_subj_phase_def upstream_subj_text_def upstream_known_def str_create_def kdata_def
          split: if_splits option.splits)
  next
    case True
    then have r: "up_ret = ret_of (get_branch_upstream_name repo (cstr (branch_text repo)))"
      using assms(2) unfolding br
      by (auto simp: upstream_phase_def upstream_known_def branch_text_def task_branch_upstream_name_def query_eval Let_def kdata_def
          split: option.splits)
    have "kdata (fst (kputs_from up (str_create (Some ''refs/remotes/'') (length ''refs/remotes/'')))) =
        ''refs/remotes/'' @ cstr (upstream_text repo)"
      unfolding up [symmetric] by (cases up) (simp_all add: kputs_from_def str_create_def kcat_def kdata_def)
    then show ?thesis using True unfolding r
      by (simp add: upstream_subj_phase_def upstream_subj_text_def task_upstream_subj_def query_eval kdata_kjoin_empty split_beta Let_def
          str_create_def kdata_def [of None])
  qed
qed

text \<open>A response of the worker, member by member.\<close>

lemma worker_response:
  assumes "fst (after_git_root st (fst (git_root_worker env ts d))) = Some res" "rq_result d = -1"
    "we_open env 0 (worker_path d) = (open_ret, repo)"
  shows "open_ret \<ge> 0 \<and> worker_gate (repository_workdir repo) (fst (ret_of (git_rev_head repo))) ts \<and>
    res_id res = rq_id d \<and> dot_git_dir res = rq_dot_git_dir d \<and>
    git_root res = Some (str_create (Some (cstr (the (repository_workdir repo)))) (length (cstr (the (repository_workdir repo))) - 1)) \<and>
    head_log_line res = Some (fst (kputs_from (snd (ts ! 1))
      (kcat (kcat (str_create None 0) (case snd (ret_of (git_rev_head repo)) of Some s \<Rightarrow> cstr s | None \<Rightarrow> [])) '' ''))) \<and>
    map (\<lambda>f. f res) [list_z, tag_desc, opt_tag_desc_head, worktree_porcelain, config_status_show_untracked_files,
      status, diff, staged, stash, branches, revision_by_idx, logs, rev_short_head, tag_master, tag_origin_master,
      tag_origin_head, origin_head] = map (\<lambda>i. Some (snd (ts ! i))) [0, 2, 3, 4, 5, 6, 7, 8, 9, 10, 11, 12, 13, 14, 15, 16, 17] \<and>
    branch res = Some (out_of (git_symbolic_ref_short_head repo)) \<and>
    upstream_branch_master res = None"
proof -
  obtain d' ev where w: "git_root_worker env ts d = (d', ev)" by (cases "git_root_worker env ts d")
  from assms(1,2) worker_cases [OF w assms(3)]
  have g: "open_ret \<ge> 0" "worker_gate (repository_workdir repo) (fst (ret_of (git_rev_head repo))) ts"
    and r: "res = response_of d'"
    by (auto simp: after_git_root_def w split: if_splits)
  have d': "d' = fst (git_root_worker env ts d)" by (simp add: w)
  show ?thesis
    using g assms(3) unfolding r d'
    by (simp add: git_root_worker_def worker_path_def Let_def task_rev_head_def task_symbolic_ref_short_head_def
        query_eval split_beta response_of_def store_tasks_def str_create_def)
qed

lemma worker_members:
  assumes "fst (after_git_root st (fst (git_root_worker env ts d))) = Some res" "rq_result d = -1"
    "we_open env 0 (worker_path d) = (open_ret, repo)"
  shows "map_option kdata (rev_head res) = Some (case snd (ret_of (git_rev_head repo)) of Some s \<Rightarrow> cstr s | None \<Rightarrow> [])"
    "field_text (upstream_branch res) = upstream_text repo" "field_text (upstream_subj res) = upstream_subj_text repo"
    "version res = Some (git_version_create (we_version env))" "is_bare res = (if repository_is_bare repo \<noteq> 0 then 1 else 0)"
proof -
  obtain d' ev where w: "git_root_worker env ts d = (d', ev)" by (cases "git_root_worker env ts d")
  from assms(1,2) worker_cases [OF w assms(3)]
  have g: "open_ret \<ge> 0" "worker_gate (repository_workdir repo) (fst (ret_of (git_rev_head repo))) ts"
    and r: "res = response_of d'"
    by (auto simp: after_git_root_def w split: if_splits)
  define br where "br = run_task (\<lambda>r. r) env ''symbolic_ref_short_head'' True (task_symbolic_ref_short_head repo)"
  obtain up_ret up ev3 where up: "upstream_phase env repo (ret_of br) (out_of br) = (up_ret, up, ev3)" by (rule prod_cases3)
  obtain subj ev4 where subj: "upstream_subj_phase env repo up_ret up = (subj, ev4)" by fastforce
  note texts = upstream_texts [OF br_def up]
  have d': "d' = fst (git_root_worker env ts d)" by (simp add: w)
  have rv: "ret_of (run_task fst env ''rev_head'' False (task_rev_head repo)) = ret_of (git_rev_head repo)"
    by (simp add: task_rev_head_def query_eval)
  note unf = git_root_worker_def [of env ts d, unfolded worker_path_def [symmetric] assms(3) Let_def prod.case br_def [symmetric] up subj]
  show "map_option kdata (rev_head res) = Some (case snd (ret_of (git_rev_head repo)) of Some s \<Rightarrow> cstr s | None \<Rightarrow> [])"
    "field_text (upstream_branch res) = upstream_text repo" "field_text (upstream_subj res) = upstream_subj_text repo"
    "version res = Some (git_version_create (we_version env))" "is_bare res = (if repository_is_bare repo \<noteq> 0 then 1 else 0)"
    using g texts unfolding r d' unf
    by (simp_all add: rv subj split_beta response_of_def store_tasks_def str_create_def field_text_def kcat_def kdata_def [of "Some _"])
qed

text \<open>The head revision, empty where there is none, and the pairs of a response in their order.\<close>

definition head_text :: "git_repo \<Rightarrow> string" where
  "head_text repo = (case snd (ret_of (git_rev_head repo)) of Some s \<Rightarrow> cstr s | None \<Rightarrow> [])"

definition answer_fields :: "worker_env \<Rightarrow> git_repo \<Rightarrow> (int \<times> kstr) list \<Rightarrow> git_root_req \<Rightarrow> (int \<times> mp_val) list" where
  "answer_fields env repo ts d =
    [(0, VInt (sint (ucast (rq_id d) :: u32))), (1, VStr (butlast (cstr (the (repository_workdir repo))))),
     (2, VStr (head_text repo)), (4, VStr (kdata (snd (ts ! 0)))), (5, VStr (branch_text repo)),
     (6, VStr (head_text repo @ '' '' @ cstr (kdata (snd (ts ! 1))))), (7, VStr (upstream_text repo)), (8, VStr (upstream_subj_text repo)),
     (9, VStr (kdata (snd (ts ! 2)))), (10, VStr (kdata (snd (ts ! 3)))),
     (11, VStr (kdata (git_version_create (we_version env)))), (12, VStr (kdata (snd (ts ! 4)))),
     (13, VStr (field_text (rq_dot_git_dir d))), (14, VStr (kdata (snd (ts ! 5)))), (15, VStr (kdata (snd (ts ! 6)))),
     (16, VStr (kdata (snd (ts ! 7)))), (17, VStr (kdata (snd (ts ! 8)))),
     (18, VInt (if repository_is_bare repo \<noteq> 0 then 1 else 0)), (19, VStr (kdata (snd (ts ! 9)))),
     (20, VStr (kdata (snd (ts ! 10)))), (21, VStr (kdata (snd (ts ! 11)))), (22, VStr (kdata (snd (ts ! 12)))),
     (23, VStr (kdata (snd (ts ! 13)))), (24, VStr (kdata (snd (ts ! 14)))), (25, VStr (kdata (snd (ts ! 15)))),
     (26, VStr (kdata (snd (ts ! 17)))), (27, VStr (kdata (snd (ts ! 16)))), (28, VStr [])]"

lemma response_is_answer:
  assumes "fst (after_git_root st (fst (git_root_worker env ts d))) = Some res" "rq_result d = -1"
    "we_open env 0 (worker_path d) = (open_ret, repo)"
  shows "read_map (msgpack_handler_buf_create res) = Some (answer_fields env repo ts d)"
proof -
  have line: "kdata (fst (kputs_from k (kcat (str_create None 0) (t @ '' '')))) = t @ '' '' @ cstr (kdata k)" for k t
    by (cases k) (simp_all add: kputs_from_def kcat_def str_create_def kdata_def cstr_def)
  have root: "take (length w - Suc 0) w = butlast w" for w :: string by (simp add: butlast_conv_take)
  have revs: "field_text (rev_head res) = head_text repo" if "map_option kdata (rev_head res) = Some (head_text repo)"
    using that by (auto simp: field_text_def)
  note members = worker_members [OF assms(1-3)]
  have "field_text (rev_head res) = head_text repo" using members(1) by (intro revs) (simp add: head_text_def)
  then show ?thesis
    unfolding response_reads_back_map response_fields_def answer_fields_def
    using worker_response [OF assms(1-3)] members(2-5)
    by (simp add: line root field_text_def [of "Some _"] field_text_def [of None] branch_text_def head_text_def)
qed

text \<open>
  C11: What the client reads in a response, key by key. Key 0 holds the low 32 bits of the request's identifier as a signed number,
  so an identifier of \<open>2 ^ 31\<close> or more comes back changed; key 1 the worktree's path without its last character; key 2 the head
  revision and key 6 the head revision, a blank and the subject of the head commit; 5, 7 and 8 the branch, its upstream and the subject
  of that, or the empty string when they cannot be found; 11 the version, 13 the path of the repository's directory and 18 whether
  it is bare; and the others the output of one task each. Key 3 is not used, and key 28, the upstream of
  the master branch, always holds the empty string, although a task computes that upstream. It is
  assumed that the queries of the head revision and of the subject left a string.
\<close>

lemma response_contents:
  assumes "fst (after_git_root st (fst (git_root_worker env ts d))) = Some res" "rq_result d = -1"
    "we_open env 0 (worker_path d) = (open_ret, repo)" "snd (ret_of (git_rev_head repo)) = Some oid" "snd (ts ! 1) = Some subject"
  shows "read_map (msgpack_handler_buf_create res) = Some
    [(0, VInt (sint (ucast (rq_id d) :: u32))), (1, VStr (butlast (cstr (the (repository_workdir repo))))),
     (2, VStr (cstr oid)), (4, VStr (kdata (snd (ts ! 0)))), (5, VStr (branch_text repo)),
     (6, VStr (cstr oid @ '' '' @ cstr subject)), (7, VStr (upstream_text repo)), (8, VStr (upstream_subj_text repo)),
     (9, VStr (kdata (snd (ts ! 2)))), (10, VStr (kdata (snd (ts ! 3)))),
     (11, VStr (kdata (git_version_create (we_version env)))), (12, VStr (kdata (snd (ts ! 4)))),
     (13, VStr (field_text (rq_dot_git_dir d))), (14, VStr (kdata (snd (ts ! 5)))), (15, VStr (kdata (snd (ts ! 6)))),
     (16, VStr (kdata (snd (ts ! 7)))), (17, VStr (kdata (snd (ts ! 8)))),
     (18, VInt (if repository_is_bare repo \<noteq> 0 then 1 else 0)), (19, VStr (kdata (snd (ts ! 9)))),
     (20, VStr (kdata (snd (ts ! 10)))), (21, VStr (kdata (snd (ts ! 11)))), (22, VStr (kdata (snd (ts ! 12)))),
     (23, VStr (kdata (snd (ts ! 13)))), (24, VStr (kdata (snd (ts ! 14)))), (25, VStr (kdata (snd (ts ! 15)))),
     (26, VStr (kdata (snd (ts ! 17)))), (27, VStr (kdata (snd (ts ! 16)))), (28, VStr [])]"
  using response_is_answer [OF assms(1-3)] assms(4,5) by (simp add: answer_fields_def head_text_def kdata_def [of "Some _"])

text \<open>A repository and slots for which the worker answers.\<close>

definition open_repo :: git_repo where
  "open_repo = blank_repo\<lparr> repository_workdir := Some ''/r/'',
     repository_head := (0, some_ref ''refs/heads/m'' ''m'' ''1f'') \<rparr>"

definition open_env :: worker_env where
  "open_env = closed_env\<lparr> we_open := \<lambda>_ _. (0, open_repo) \<rparr>"

definition open_req :: git_root_req where
  "open_req = zero_req\<lparr> rq_id := 7, rq_result := -1, rq_repo_path := Some (Some ''/r/'') \<rparr>"

lemma open_answer:
  "fst (after_git_root 0 (fst (git_root_worker open_env (replicate 19 (0, Some ''x'')) open_req))) =
     Some (response_of (fst (git_root_worker open_env (replicate 19 (0, Some ''x'')) open_req)))"
proof -
  have p: "worker_path open_req = ''/r/''" by (simp add: worker_path_def open_req_def)
  have o: "we_open open_env 0 (worker_path open_req) = (0, open_repo)" by (simp add: open_env_def)
  have g: "worker_gate (repository_workdir open_repo) (fst (ret_of (git_rev_head open_repo))) (replicate 19 (0, Some ''x''))"
    by (simp add: worker_gate_def open_repo_def git_rev_head_def query_eval sample_defs)
  obtain d' ev where w: "git_root_worker open_env (replicate 19 (0, Some ''x'')) open_req = (d', ev)"
    by (cases "git_root_worker open_env (replicate 19 (0, Some ''x'')) open_req")
  from worker_cases [OF w o] g show ?thesis by (simp add: after_git_root_def w)
qed

lemma open_head: "snd (ret_of (git_rev_head open_repo)) = Some ''1f''"
  by (simp add: git_rev_head_def query_eval open_repo_def sample_defs git_oid_tostr_def GIT_OID_HEXSZ_def)

lemma response_contents_witness:
  "\<exists>res fields. read_map (msgpack_handler_buf_create res) = Some fields \<and>
    map_of fields 0 = Some (VInt 7) \<and> map_of fields 1 = Some (VStr ''/r'') \<and> map_of fields 6 = Some (VStr ''1f x'') \<and>
    map_of fields 27 = Some (VStr ''x'') \<and> length fields = 28"
proof -
  have o: "we_open open_env 0 (worker_path open_req) = (0, open_repo)" by (simp add: open_env_def)
  have r: "rq_result open_req = -1" by (simp add: open_req_def)
  have s: "snd (replicate 19 (0::int, Some ''x'') ! 1) = Some ''x''" by simp
  have x: "rq_id open_req = 7" "the (repository_workdir open_repo) = ''/r/''"
    by (simp_all add: open_req_def open_repo_def)
  show ?thesis by (intro exI conjI, rule response_contents [OF open_answer r o open_head s]) (simp_all add: x kdata_def)
qed

section \<open>Who frees what\<close>

text \<open>The string fields that the clean-up does not know, and all blocks that a request owns.\<close>

definition forgotten_fields :: "git_root_req \<Rightarrow> (string \<times> kstr option) list" where
  "forgotten_fields d =
     [(''rev_short_head'', rq_rev_short_head d), (''tag_master'', rq_tag_master d),
      (''tag_origin_master'', rq_tag_origin_master d), (''origin_head'', rq_origin_head d),
      (''tag_origin_head'', rq_tag_origin_head d), (''upstream_branch_master'', rq_upstream_branch_master d)]"

definition owned_blocks :: "git_root_req \<Rightarrow> (string \<times> freed) list" where
  "owned_blocks d =
     (if rq_repo d then [(''repo'', FreePtr)] else []) @ fields_blocks (cleanup_fields d @ forgotten_fields d)
     @ [(''req'', FreePtr)]"

lemma field_blocks_name: "x \<in> set (field_blocks n k) \<Longrightarrow> fst x = n"
  by (auto simp: field_blocks_def)

lemma distinct_field_blocks: "distinct (field_blocks n k)"
  by (simp add: field_blocks_def str_cleanup_def split: option.split)

lemma fields_blocks_name: "x \<in> set (fields_blocks fs) \<Longrightarrow> fst x \<in> fst ` set fs"
  by (auto simp: fields_blocks_def dest: field_blocks_name)

lemma distinct_fields_blocks: "distinct (map fst fs) \<Longrightarrow> distinct (fields_blocks fs)"
proof (induction fs)
  case (Cons f fs)
  then have "distinct (fields_blocks fs)" by simp
  moreover have "set (field_blocks (fst f) (snd f)) \<inter> set (fields_blocks fs) = {}"
    using Cons.prems field_blocks_name fields_blocks_name by fastforce
  ultimately show ?case using distinct_field_blocks by (simp add: fields_blocks_def)
qed (simp add: fields_blocks_def)

lemma fields_blocks_append: "fields_blocks (fs @ gs) = fields_blocks fs @ fields_blocks gs"
  by (simp add: fields_blocks_def)

text \<open>
  The clean-up of a request frees no block twice and nothing the request does not own. It frees everything
  but six strings: the abbreviated head, the three tag revisions, the head of the remote and the upstream
  of the master branch are not freed, and since the worker always allocates these six, every request that got as far
  leaks them.
\<close>

lemma request_cleanup_leaks_six:
  "distinct (owned_blocks d) \<and>
   mset (owned_blocks d) = mset (git_root_request_cleanup (Some d)) + mset (fields_blocks (forgotten_fields d)) \<and>
   list_all (\<lambda>f. field_blocks (fst f) (snd f) \<noteq> []) (forgotten_fields (store_tasks ts d))"
proof (intro conjI)
  have n: "fst ` set (cleanup_fields d @ forgotten_fields d) \<inter> {''repo'', ''req''} = {}"
    by (simp add: cleanup_fields_def forgotten_fields_def)
  have "distinct (fields_blocks (cleanup_fields d @ forgotten_fields d))"
    by (rule distinct_fields_blocks) (simp add: cleanup_fields_def forgotten_fields_def)
  moreover have "(''repo'', FreePtr) \<notin> set (fields_blocks (cleanup_fields d @ forgotten_fields d))"
    "(''req'', FreePtr) \<notin> set (fields_blocks (cleanup_fields d @ forgotten_fields d))"
    using fields_blocks_name n by fastforce+
  ultimately show "distinct (owned_blocks d)" by (simp add: owned_blocks_def)
  show "mset (owned_blocks d) = mset (git_root_request_cleanup (Some d)) + mset (fields_blocks (forgotten_fields d))"
    by (simp add: owned_blocks_def git_root_request_cleanup_def fields_blocks_append)
  show "list_all (\<lambda>f. field_blocks (fst f) (snd f) \<noteq> []) (forgotten_fields (store_tasks ts d))"
    by (simp add: forgotten_fields_def store_tasks_def field_blocks_def str_cleanup_def split: option.split)
qed

text \<open>
  The working directory string handed to the queue function is freed by exactly one party on every path but one: if
  the request is queued it belongs to the request, if not it is freed before the function returns; only
  when the request cannot be allocated is it lost.
\<close>

lemma queue_pwd_ownership:
  "(case git_handler_queue_git_status g calloc_ok queue_ret n pwd of
      (ret, Some d, fr) \<Rightarrow> fr = [] \<and> rq_pwd d = pwd \<and> ret = 0 \<and> rq_result d = -1 \<and> rq_id d = n
    | (ret, None, fr) \<Rightarrow> filter (\<lambda>b. fst b = ''pwd'') fr = (if calloc_ok then field_blocks ''pwd'' pwd else []))"
proof -
  have keep: "filter (\<lambda>b. fst b = ''pwd'') (field_blocks m k) = (if m = ''pwd'' then field_blocks m k else [])" for m k
    using field_blocks_name [of _ m k] by (auto simp: filter_empty_conv filter_id_conv)
  show ?thesis
    by (simp add: git_handler_queue_git_status_def git_root_request_cleanup_def fields_blocks_def cleanup_fields_def
        zero_req_def Let_def keep split: option.split)
qed

end
