(* ===== verification/Server.thy ===== *)
theory Server
  imports Framing StatusRequest
begin

text \<open>
  The event loop of \<open>src/src/magit_server.c\<close> with everything it calls: the start in
  \<open>main\<close>, and one step per callback of the loop: bytes on standard input (parser, request
  decoder, queue), end of input, a worker that finishes, the callback that answers, and the signal.
  The steps can come in any order that the loop can produce. A worker runs on its own handles, so that it is one
  step here; theory \<open>Parallel\<close> has its threads.
\<close>

section \<open>State\<close>

record server =
  sv_parser :: parser
  sv_globals :: git_globals
  sv_waiting :: "git_root_req list"
  sv_finished :: "(git_root_req \<times> int) list"
  sv_stdout :: "byte list"
  sv_signal_active :: bool
  sv_stopped :: bool
  sv_sent :: "magit_res list"
  sv_dropped :: "u64 list"

text \<open>
  \<open>main\<close> up to \<open>uv_run\<close>: with an argument the repository is opened, and if that fails the
  program ends with -1; the answers of libgit2 are arguments. \<open>sv_sent\<close> and \<open>sv_dropped\<close>
  record what was answered and what was given up.
\<close>

definition start_server :: "git_globals \<Rightarrow> server" where
  "start_server g =
     \<lparr> sv_parser = init_parser, sv_globals = g, sv_waiting = [], sv_finished = [], sv_stdout = [],
       sv_signal_active = True, sv_stopped = False, sv_sent = [], sv_dropped = [] \<rparr>"

definition no_globals :: git_globals where
  "no_globals = \<lparr> g_repo = None, g_dot_git_dir = None \<rparr>"

definition main :: "string list \<Rightarrow> int \<times> string \<Rightarrow> int \<times> git_repo \<Rightarrow> int + server" where
  "main argv discover open_ext =
     (if length argv > 1 then
        case git_handler_repo_init discover open_ext no_globals of
          (ret, g, _) \<Rightarrow> if ret \<noteq> 0 then Inl (-1) else Inr (start_server g)
      else Inr (start_server no_globals))"

section \<open>Steps\<close>

text \<open>
  A delivered message: decoded by \<open>unpack\<close>, and its request queued. \<open>ok\<close> holds the
  answers of \<open>calloc\<close> and \<open>uv_queue_work\<close>.
\<close>

definition handle_message :: "(byte list \<Rightarrow> msgpack_object option) \<Rightarrow> byte list \<times> bool \<times> int \<Rightarrow> server \<Rightarrow> server" where
  "handle_message unpack m s =
     (case m of (msg, calloc_ok, queue_ret) \<Rightarrow>
        case rr_call (msgpack_handler_recv unpack msg) of
          None \<Rightarrow> s
        | Some (n, pwd) \<Rightarrow>
            (case git_handler_queue_git_status (sv_globals s) calloc_ok queue_ret n pwd of
               (_, Some d, _) \<Rightarrow> s\<lparr> sv_waiting := sv_waiting s @ [d] \<rparr>
             | (_, None, _) \<Rightarrow> s\<lparr> sv_dropped := sv_dropped s @ [n] \<rparr>))"

text \<open>The messages that one read completes.\<close>

definition new_messages :: "parser \<Rightarrow> parser \<Rightarrow> byte list list" where
  "new_messages p p' = drop (length (delivered p)) (delivered p')"

definition on_signal :: "bool \<Rightarrow> server \<Rightarrow> server" where
  "on_signal is_sigint s = (if is_sigint then s\<lparr> sv_stopped := True \<rparr> else s)"

definition on_input :: "(byte list \<Rightarrow> msgpack_object option) \<Rightarrow> byte list \<Rightarrow> (bool \<times> int) list \<Rightarrow> server \<Rightarrow> server" where
  "on_input unpack data oks s =
     (let p' = on_read (sv_parser s) data
      in fold (handle_message unpack) (zip (new_messages (sv_parser s) p') oks) (s\<lparr> sv_parser := p' \<rparr>))"

definition on_eof :: "server \<Rightarrow> server" where
  "on_eof s = s\<lparr> sv_parser := read_stdin (-1) [] (sv_parser s) \<rparr>"

text \<open>The callback: the response goes to standard output, or the request is dropped.\<close>

definition on_work_done :: "(pack_op \<Rightarrow> byte list) \<Rightarrow> git_root_req \<Rightarrow> int \<Rightarrow> server \<Rightarrow> server" where
  "on_work_done enc d st s =
     (case fst (after_git_root st d) of
        None \<Rightarrow> s\<lparr> sv_dropped := sv_dropped s @ [rq_id d] \<rparr>
      | Some res \<Rightarrow> s\<lparr> sv_stdout := sv_stdout s @ msgpack_handler_send enc res, sv_sent := sv_sent s @ [res] \<rparr>)"

inductive sv_step :: "(byte list \<Rightarrow> msgpack_object option) \<Rightarrow> (pack_op \<Rightarrow> byte list) \<Rightarrow> server \<Rightarrow> server \<Rightarrow> bool"
  for unpack enc where
  input: "\<lbrakk>\<not> sv_stopped s; length oks = length (new_messages (sv_parser s) (on_read (sv_parser s) data))\<rbrakk> \<Longrightarrow>
    sv_step unpack enc s (on_input unpack data oks s)"
| eof: "\<not> sv_stopped s \<Longrightarrow> sv_step unpack enc s (on_eof s)"
| work: "\<lbrakk>\<not> sv_stopped s; sv_waiting s = xs @ d # ys\<rbrakk> \<Longrightarrow>
    sv_step unpack enc s (s\<lparr> sv_waiting := xs @ ys,
      sv_finished := sv_finished s @ [(fst (git_root_worker env (task_slots env (worker_path d)) d), 0)] \<rparr>)"
| cancel: "\<lbrakk>\<not> sv_stopped s; sv_waiting s = xs @ d # ys; st \<noteq> 0\<rbrakk> \<Longrightarrow>
    sv_step unpack enc s (s\<lparr> sv_waiting := xs @ ys, sv_finished := sv_finished s @ [(d, st)] \<rparr>)"
| answer: "\<lbrakk>\<not> sv_stopped s; sv_finished s = xs @ (d, st) # ys\<rbrakk> \<Longrightarrow>
    sv_step unpack enc s (on_work_done enc d st (s\<lparr> sv_finished := xs @ ys \<rparr>))"
| signal: "\<not> sv_stopped s \<Longrightarrow> sv_step unpack enc s (on_signal is_sigint s)"

inductive_cases sv_stepE: "sv_step unpack enc s t"

text \<open>
  \<open>uv_run\<close> in its default mode returns when the loop was stopped or nothing is active any more: no
  open stream, no queued work, no signal handle.
\<close>

definition uv_run_returns :: "server \<Rightarrow> bool" where
  "uv_run_returns s \<longleftrightarrow> sv_stopped s \<or>
     (closed (sv_parser s) \<and> sv_waiting s = [] \<and> sv_finished s = [] \<and> \<not> sv_signal_active s)"

section \<open>The invariant\<close>

text \<open>The identifiers of the status requests in a list of messages.\<close>

definition call_ids :: "(byte list \<Rightarrow> msgpack_object option) \<Rightarrow> byte list list \<Rightarrow> u64 list" where
  "call_ids unpack ms = List.map_filter (\<lambda>m. map_option fst (rr_call (msgpack_handler_recv unpack m))) ms"

lemma call_ids_simps [simp]:
  "call_ids unpack [] = []" "call_ids unpack (ms @ ns) = call_ids unpack ms @ call_ids unpack ns"
  "call_ids unpack (m # ms) = (case rr_call (msgpack_handler_recv unpack m) of None \<Rightarrow> [] | Some c \<Rightarrow> [fst c]) @ call_ids unpack ms"
  by (simp_all add: call_ids_def map_filter_def split: option.split)

text \<open>
  Every request that came in is waiting, finished, answered or dropped, exactly once; what is on
  standard output is the responses, one after the other; no request that waits has a result.
\<close>

definition pending_ids :: "server \<Rightarrow> u64 multiset" where
  "pending_ids s = mset (map rq_id (sv_waiting s)) + mset (map (rq_id \<circ> fst) (sv_finished s))"

definition settled_ids :: "server \<Rightarrow> u64 multiset" where
  "settled_ids s = mset (map res_id (sv_sent s)) + mset (sv_dropped s)"

definition sv_inv :: "(byte list \<Rightarrow> msgpack_object option) \<Rightarrow> (pack_op \<Rightarrow> byte list) \<Rightarrow> server \<Rightarrow> bool" where
  "sv_inv unpack enc s \<longleftrightarrow>
     parser_ok (sv_parser s) \<and> sv_signal_active s \<and>
     mset (call_ids unpack (delivered (sv_parser s))) = pending_ids s + settled_ids s \<and>
     sv_stdout s = concat (map (msgpack_handler_send enc) (sv_sent s)) \<and>
     list_all (\<lambda>d. rq_result d = -1) (sv_waiting s)"

lemma worker_keeps_id: "rq_id (fst (git_root_worker env ts d)) = rq_id d"
  by (simp add: git_root_worker_def store_tasks_def Let_def split_beta)

lemma handle_message_parser [simp]: "sv_parser (handle_message unpack m s) = sv_parser s"
  by (auto simp: handle_message_def split: prod.split option.split)

definition sv_inv_upto :: "(byte list \<Rightarrow> msgpack_object option) \<Rightarrow> (pack_op \<Rightarrow> byte list) \<Rightarrow> byte list list \<Rightarrow> server \<Rightarrow> bool" where
  "sv_inv_upto unpack enc ms s \<longleftrightarrow>
     parser_ok (sv_parser s) \<and> sv_signal_active s \<and>
     mset (call_ids unpack ms) = pending_ids s + settled_ids s \<and>
     sv_stdout s = concat (map (msgpack_handler_send enc) (sv_sent s)) \<and>
     list_all (\<lambda>d. rq_result d = -1) (sv_waiting s)"

lemma queue_result:
  assumes "git_handler_queue_git_status g calloc_ok queue_ret n pwd = (ret, Some d, fr)"
  shows "rq_id d = n \<and> rq_result d = -1"
  using assms by (auto simp: git_handler_queue_git_status_def zero_req_def Let_def split: if_splits option.splits)

lemma handle_message_inv:
  assumes "sv_inv_upto unpack enc ms s"
  shows "sv_inv_upto unpack enc (ms @ [fst m]) (handle_message unpack m s)"
proof -
  obtain msg calloc_ok queue_ret where m: "m = (msg, calloc_ok, queue_ret)" by (cases m)
  show ?thesis
  proof (cases "rr_call (msgpack_handler_recv unpack msg)")
    case None
    with assms m show ?thesis by (simp add: handle_message_def sv_inv_upto_def)
  next
    case (Some c)
    obtain n pwd where c: "c = (n, pwd)" by (cases c)
    obtain ret queued fr where q: "git_handler_queue_git_status (sv_globals s) calloc_ok queue_ret n pwd = (ret, queued, fr)"
      by (cases "git_handler_queue_git_status (sv_globals s) calloc_ok queue_ret n pwd")
    show ?thesis
    proof (cases queued)
      case None
      with assms m Some c q show ?thesis
        by (simp add: handle_message_def sv_inv_upto_def pending_ids_def settled_ids_def)
    next
      case (Some d)
      with q queue_result have "rq_id d = n \<and> rq_result d = -1" by blast
      with assms m \<open>rr_call _ = Some c\<close> c q Some show ?thesis
        by (simp add: handle_message_def sv_inv_upto_def pending_ids_def settled_ids_def)
    qed
  qed
qed

lemma handle_messages_inv:
  "sv_inv_upto unpack enc ms s \<Longrightarrow> sv_inv_upto unpack enc (ms @ map fst ns) (fold (handle_message unpack) ns s)"
proof (induction ns arbitrary: ms s)
  case (Cons n ns)
  from Cons.IH [OF handle_message_inv [OF Cons.prems]] show ?case by simp
qed simp

lemma handle_messages_parser [simp]: "sv_parser (fold (handle_message unpack) ns s) = sv_parser s"
  by (induction ns arbitrary: s) simp_all

text \<open>Reading only adds messages.\<close>

lemma consume_delivered: "\<exists>ms. delivered (consume_bytes p data) = delivered p @ ms"
proof (induction p data rule: consume_bytes.induct)
  case (1 p data)
  have step: "\<exists>ms. delivered p' = delivered p @ ms" if "consume_iter p data = Continue p' rest \<or> consume_iter p data = Return p'" for p' rest
    using that by (auto simp: framing_defs Let_def split: if_splits)
  show ?case
  proof (cases "data = []")
    case False
    show ?thesis
    proof (cases "consume_iter p data")
      case (Continue p' rest)
      with 1 False step [of p' rest] show ?thesis by (auto simp: consume_bytes_step)
    next
      case (Return p')
      with False step [of p'] show ?thesis by (auto simp: consume_bytes_step)
    qed
  qed simp
qed

lemma on_read_delivered: "delivered (on_read p data) = delivered p @ new_messages p (on_read p data)"
  using consume_delivered [of p data] consume_delivered [of p "take (length data) data"]
  by (auto simp: on_read_def read_stdin_def new_messages_def)

lemma sv_inv_init: "sv_inv unpack enc (start_server g)"
  by (simp add: sv_inv_def start_server_def idle_ok idle_init pending_ids_def settled_ids_def)
    (simp add: init_parser_def)

lemma sv_inv_step: "sv_inv unpack enc s \<Longrightarrow> sv_step unpack enc s t \<Longrightarrow> sv_inv unpack enc t"
proof (erule sv_stepE)
  fix oks data
  assume inv: "sv_inv unpack enc s" and t: "t = on_input unpack data oks s"
    and l: "length oks = length (new_messages (sv_parser s) (on_read (sv_parser s) data))"
  let ?p = "on_read (sv_parser s) data"
  have "sv_inv_upto unpack enc (delivered (sv_parser s)) (s\<lparr> sv_parser := ?p \<rparr>)"
    using inv by (simp add: sv_inv_def sv_inv_upto_def parser_ok_on_read pending_ids_def settled_ids_def)
  from handle_messages_inv [OF this, of "zip (new_messages (sv_parser s) ?p) oks"]
  have "sv_inv_upto unpack enc (delivered ?p) t"
    by (simp add: t on_input_def Let_def l on_read_delivered [of "sv_parser s" data])
  moreover have "sv_parser t = ?p" by (simp add: t on_input_def Let_def)
  ultimately show ?thesis by (simp add: sv_inv_def sv_inv_upto_def)
next
  assume "sv_inv unpack enc s" "t = on_eof s"
  then show ?thesis
    by (simp add: sv_inv_def on_eof_def read_stdin_def pending_ids_def settled_ids_def parser_ok_def)
next
  fix xs d ys env
  assume inv: "sv_inv unpack enc s" "sv_waiting s = xs @ d # ys" "t = s\<lparr> sv_waiting := xs @ ys,
      sv_finished := sv_finished s @ [(fst (git_root_worker env (task_slots env (worker_path d)) d), 0)] \<rparr>"
  then show ?thesis
    by (simp add: sv_inv_def pending_ids_def settled_ids_def worker_keeps_id)
next
  fix xs d ys st
  assume "sv_inv unpack enc s" "sv_waiting s = xs @ d # ys"
    "t = s\<lparr> sv_waiting := xs @ ys, sv_finished := sv_finished s @ [(d, st)] \<rparr>"
  then show ?thesis by (simp add: sv_inv_def pending_ids_def settled_ids_def)
next
  fix xs d st ys
  assume inv: "sv_inv unpack enc s" "sv_finished s = xs @ (d, st) # ys" "t = on_work_done enc d st (s\<lparr> sv_finished := xs @ ys \<rparr>)"
  have "res_id res = rq_id d" if "fst (after_git_root st d) = Some res" for res
    using that by (auto simp: after_git_root_def response_of_def split: if_splits)
  with inv show ?thesis
    by (cases "fst (after_git_root st d)")
      (auto simp: sv_inv_def on_work_done_def pending_ids_def settled_ids_def)
next
  fix is_sigint
  assume "sv_inv unpack enc s" "t = on_signal is_sigint s"
  then show ?thesis by (simp add: sv_inv_def on_signal_def pending_ids_def settled_ids_def)
qed

interpretation server: transition_system "\<lambda>s. \<exists>g. s = start_server g" "sv_step unpack enc" "sv_inv unpack enc"
  for unpack enc
  by unfold_locales (auto intro: sv_inv_init sv_inv_step)

section \<open>What the server guarantees\<close>

text \<open>
  C2: Requests and responses match. Whatever arrives and in whatever order the callbacks run, every
  status request that has been received is, exactly once, pending, answered or dropped; so no request is
  answered twice and no response answers a request that was not made. Standard output
  holds exactly the framed responses, one after the other.
\<close>

lemma server_accounts_for_requests:
  assumes "(sv_step unpack enc)\<^sup>*\<^sup>* (start_server g) s"
  shows "mset (call_ids unpack (delivered (sv_parser s))) =
      pending_ids s + mset (map res_id (sv_sent s)) + mset (sv_dropped s) \<and>
    sv_stdout s = concat (map (msgpack_handler_send enc) (sv_sent s))"
proof -
  have "sv_inv unpack enc s" by (rule server.inv_reachable [OF _ assms]) blast
  then show ?thesis by (simp add: sv_inv_def settled_ids_def)
qed

text \<open>A message that asks for the status with identifier 9, and a repository in which the gating steps succeed.\<close>

definition ask_unpack :: "byte list \<Rightarrow> msgpack_object option" where
  "ask_unpack bs = Some (MP_MAP [(MP_POSITIVE_INTEGER 1, MP_POSITIVE_INTEGER 1), (MP_POSITIVE_INTEGER 0, MP_POSITIVE_INTEGER 9)])"

definition live_repo :: git_repo where
  "live_repo = open_repo\<lparr> reference_lookup := \<lambda>_. (0, some_ref ''HEAD'' ''m'' ''1f''),
     revparse_single := \<lambda>_. (0, some_object ''1f'') \<rparr>"

definition live_env :: worker_env where
  "live_env = closed_env\<lparr> we_open := \<lambda>_ _. (0, live_repo) \<rparr>"

definition live_globals :: git_globals where
  "live_globals = \<lparr> g_repo = Some live_repo, g_dot_git_dir = Some (Some ''/r/.git/'') \<rparr>"

definition live_req :: git_root_req where
  "live_req = zero_req\<lparr> rq_id := 9, rq_result := -1, rq_repo_path := Some (Some ''/r/''),
     rq_dot_git_dir := Some (Some ''/r/.git/'') \<rparr>"

lemma live_input:
  "on_input ask_unpack (frame [42]) [(True, 0)] (start_server live_globals) =
     (start_server live_globals)\<lparr> sv_parser := on_read init_parser (frame [42]), sv_waiting := [live_req] \<rparr> \<and>
   delivered (on_read init_parser (frame [42])) = [[42]]"
proof -
  have "spec_frames (frame [42]) = ([[42]], Inr [])"
    using frame_stream_spec [of "[42]" "[]"] by (simp add: MAX_MESSAGE_SIZE_def)
  with on_read_spec [OF idle_init, of "frame [42]"]
  have d: "delivered (on_read init_parser (frame [42])) = [[42]]" by (simp add: init_parser_def)
  have n: "new_messages init_parser (on_read init_parser (frame [42])) = [[42]]"
    by (simp add: new_messages_def d) (simp add: init_parser_def)
  have c: "rr_call (msgpack_handler_recv ask_unpack [42]) = Some (9, None)"
    by (simp add: msgpack_handler_recv_def ask_unpack_def init_vars_def msgkey_of_def is_git_status_def)
  have q: "git_handler_queue_git_status live_globals True 0 9 None = (0, Some live_req, [])"
    by (simp add: git_handler_queue_git_status_def live_globals_def live_req_def live_repo_def open_repo_def
        str_create_def kcat_def git_root_request_cleanup_def zero_req_def)
  show ?thesis
    using d by (simp add: on_input_def start_server_def n handle_message_def c q Let_def)
qed

text \<open>The slot of a task whose repository can be opened holds what the task gives.\<close>

lemma open_slot:
  assumes "i < 19" "we_open env (i + 1) p = (0, repo)"
  shows "task_slots env p ! i =
    (ret_of (task_fn (status_tasks (we_alloc env) ! i) repo),
     kjoin (str_create None 0) (out_of (task_fn (status_tasks (we_alloc env) ! i) repo)))"
proof -
  have "framed (task_fn (status_tasks (we_alloc env) ! i) repo)"
    using assms(1) by (intro framed_status_tasks [where alloc = "we_alloc env"]) simp
  then show ?thesis
    using assms by (simp add: task_slots_def status_run_def parallel_task_runner_def query_eval)
qed

text \<open>The gating tasks and the head of the repository.\<close>

lemma live_gate:
  "list_all (\<lambda>i. fst (task_slots live_env ''/r/'' ! i) = 0) [0, 1, 3, 4, 5, 6] \<and> fst (ret_of (git_rev_head live_repo)) = 0"
proof -
  have s: "fst (task_slots live_env ''/r/'' ! i) = ret_of (task_fn (status_tasks True ! i) live_repo)" if "i < 19" for i
    using open_slot [of i live_env "''/r/''" live_repo] that by (simp add: live_env_def closed_env_def)
  have "ret_of (git_config_list_z live_repo) = 0" "ret_of (git_head_subject live_repo ''HEAD'') = 0"
    "ret_of (get_tag_desc_if_match True live_repo) = 0" "ret_of (list_worktrees_porcelain live_repo) = 0"
    "ret_of (get_config_status_show_untracked_files live_repo) = 0" "ret_of (get_status_porcelain_z live_repo) = 0"
    "fst (ret_of (git_rev_head live_repo)) = 0"
    by (simp_all add: live_repo_def open_repo_def sample_defs query_eval git_config_list_z_def git_head_subject_def
        get_tag_desc_if_match_def list_worktrees_porcelain_def get_config_status_show_untracked_files_def
        get_status_ret git_rev_head_def)
  then show ?thesis by (simp add: s status_tasks_def task_defs)
qed

text \<open>A request that waits can be served.\<close>

lemma serve_waiting:
  assumes "\<not> sv_stopped s" "sv_waiting s = xs @ d # ys" "rq_result d = -1"
    "we_open env 0 (worker_path d) = (0, repo)" "repository_workdir repo \<noteq> None"
    "fst (ret_of (git_rev_head repo)) = 0"
    "list_all (\<lambda>i. fst (task_slots env (worker_path d) ! i) = 0) [0, 1, 3, 4, 5, 6]"
  shows "\<exists>t res. (sv_step unpack enc)\<^sup>*\<^sup>* s t \<and> sv_sent t = sv_sent s @ [res] \<and> res_id res = rq_id d \<and>
    sv_stdout t = sv_stdout s @ msgpack_handler_send enc res \<and> sv_waiting t = xs @ ys \<and> sv_dropped t = sv_dropped s \<and>
    sv_parser t = sv_parser s \<and> sv_finished t = sv_finished s \<and> \<not> sv_stopped t \<and>
    fst (after_git_root 0 (fst (git_root_worker env (task_slots env (worker_path d)) d))) = Some res"
proof -
  let ?ts = "task_slots env (worker_path d)"
  let ?u = "s\<lparr> sv_waiting := xs @ ys, sv_finished := sv_finished s @ [(fst (git_root_worker env ?ts d), 0)] \<rparr>"
  let ?t = "on_work_done enc (fst (git_root_worker env ?ts d)) 0 (?u\<lparr> sv_finished := sv_finished s @ [] \<rparr>)"
  have u: "sv_step unpack enc s ?u" by (rule sv_step.work [OF assms(1,2)])
  have t: "sv_step unpack enc ?u ?t" by (rule sv_step.answer) (use assms(1) in simp_all)
  obtain d' ev where w: "git_root_worker env ?ts d = (d', ev)" by (cases "git_root_worker env ?ts d")
  have "rq_result d' = 0" using worker_cases [OF w assms(4)] assms(5-7) by (simp add: worker_gate_def)
  moreover have "rq_id d' = rq_id d" using worker_keeps_id [of env ?ts d] by (simp add: w)
  moreover have "(sv_step unpack enc)\<^sup>*\<^sup>* s ?t" using u t by (meson r_into_rtranclp rtranclp.rtrancl_into_rtrancl)
  ultimately show ?thesis
    by (intro exI [of _ ?t] exI [of _ "response_of d'"])
      (simp add: on_work_done_def w after_git_root_def response_of_def assms(1))
qed

text \<open>The worker can answer a request for a path: the repository opens and has a worktree, and the gating steps return 0.\<close>

definition gates_open :: "worker_env \<Rightarrow> string \<Rightarrow> bool" where
  "gates_open env p \<longleftrightarrow>
     (case we_open env 0 p of (open_ret, repo) \<Rightarrow>
        open_ret \<ge> 0 \<and> repository_workdir repo \<noteq> None \<and> fst (ret_of (git_rev_head repo)) = 0 \<and>
        list_all (\<lambda>i. fst (task_slots env p ! i) = 0) [0, 1, 3, 4, 5, 6])"

text \<open>
  C4: A waiting request is settled: as long as the server is not stopped, for a request that waits, in any position, and
  whatever the repository and the system answer, the worker and the callback bring the server to a state in which the request no longer
  waits. If the repository opens, has a worktree and a head that resolves, and the queries of the
  configuration, the subject, the tag at the head, the worktrees, the untracked-files option and the status return 0, then its
  response, with its identifier, is the last on standard output and nothing was dropped. If one of these fails the request
  is dropped, and its client never gets an answer, not even an error.
\<close>

lemma waiting_request_is_answered:
  assumes "\<not> sv_stopped s" "sv_waiting s = xs @ d # ys" "rq_result d = -1"
  shows "\<exists>t. (sv_step unpack enc)\<^sup>*\<^sup>* s t \<and> sv_waiting t = xs @ ys \<and> sv_finished t = sv_finished s \<and>
    (if gates_open env (worker_path d)
     then sv_dropped t = sv_dropped s \<and> (\<exists>res. sv_sent t = sv_sent s @ [res] \<and> res_id res = rq_id d \<and>
       sv_stdout t = sv_stdout s @ msgpack_handler_send enc res)
     else sv_dropped t = sv_dropped s @ [rq_id d] \<and> sv_sent t = sv_sent s \<and> sv_stdout t = sv_stdout s)"
proof -
  let ?ts = "task_slots env (worker_path d)"
  let ?u = "s\<lparr> sv_waiting := xs @ ys, sv_finished := sv_finished s @ [(fst (git_root_worker env ?ts d), 0)] \<rparr>"
  let ?t = "on_work_done enc (fst (git_root_worker env ?ts d)) 0 (?u\<lparr> sv_finished := sv_finished s @ [] \<rparr>)"
  have u: "sv_step unpack enc s ?u" by (rule sv_step.work [OF assms(1,2)])
  have t: "sv_step unpack enc ?u ?t" by (rule sv_step.answer) (use assms(1) in simp_all)
  obtain open_ret repo where o: "we_open env 0 (worker_path d) = (open_ret, repo)" by fastforce
  obtain d' ev where w: "git_root_worker env ?ts d = (d', ev)" by (cases "git_root_worker env ?ts d")
  have "rq_result d' = (if gates_open env (worker_path d) then 0 else - 1)"
    using worker_cases [OF w o] assms(3) by (simp add: worker_gate_def gates_open_def o)
  moreover have "rq_id d' = rq_id d" using worker_keeps_id [of env ?ts d] by (simp add: w)
  moreover have "(sv_step unpack enc)\<^sup>*\<^sup>* s ?t" using u t by (meson r_into_rtranclp rtranclp.rtrancl_into_rtrancl)
  ultimately show ?thesis by (intro exI [of _ ?t]) (simp add: on_work_done_def w after_git_root_def response_of_def)
qed

definition live_state :: server where
  "live_state = on_input ask_unpack (frame [42]) [(True, 0)] (start_server live_globals)"

lemma live_state: "live_state = (start_server live_globals)\<lparr> sv_parser := on_read init_parser (frame [42]), sv_waiting := [live_req] \<rparr>"
  unfolding live_state_def by (rule live_input [THEN conjunct1])

lemma live_parts:
  "sv_sent live_state = []" "sv_finished live_state = []" "sv_dropped live_state = []" "rq_id live_req = 9"
  "worker_path live_req = ''/r/''"
  by (simp_all add: live_state start_server_def live_req_def worker_path_def)

lemma live_facts:
  "\<not> sv_stopped live_state" "sv_waiting live_state = [] @ live_req # []" "rq_result live_req = -1"
  "we_open live_env 0 (worker_path live_req) = (0, live_repo)" "repository_workdir live_repo \<noteq> None"
  "fst (ret_of (git_rev_head live_repo)) = 0"
  "list_all (\<lambda>i. fst (task_slots live_env (worker_path live_req) ! i) = 0) [0, 1, 3, 4, 5, 6]"
proof -
  show "\<not> sv_stopped live_state" "sv_waiting live_state = [] @ live_req # []"
    by (simp_all add: live_state start_server_def)
  show "rq_result live_req = -1" by (simp add: live_req_def)
  show "we_open live_env 0 (worker_path live_req) = (0, live_repo)" by (simp add: live_env_def)
  show "repository_workdir live_repo \<noteq> None" by (simp add: live_repo_def open_repo_def)
  show "fst (ret_of (git_rev_head live_repo)) = 0"
    "list_all (\<lambda>i. fst (task_slots live_env (worker_path live_req) ! i) = 0) [0, 1, 3, 4, 5, 6]"
    unfolding live_parts using live_gate by blast+
qed

lemma waiting_request_is_answered_witness:
  "(\<exists>t res. (sv_step ask_unpack (\<lambda>_. [0]))\<^sup>*\<^sup>* live_state t \<and> sv_sent t = [res] \<and> res_id res = 9) \<and>
   (\<exists>t. (sv_step ask_unpack (\<lambda>_. [0]))\<^sup>*\<^sup>* live_state t \<and> sv_dropped t = [9])"
proof -
  have "gates_open live_env (worker_path live_req)" "\<not> gates_open closed_env (worker_path live_req)"
    using live_facts(4-7) by (simp_all add: gates_open_def closed_env_def)
  then show ?thesis
    using waiting_request_is_answered [OF live_facts(1-3), of ask_unpack "\<lambda>_. [0]" live_env]
      waiting_request_is_answered [OF live_facts(1-3), of ask_unpack "\<lambda>_. [0]" closed_env] by (simp add: live_parts) blast
qed

lemma live_reachable: "(sv_step ask_unpack enc)\<^sup>*\<^sup>* (start_server live_globals) live_state"
proof (rule r_into_rtranclp, unfold live_state_def, rule sv_step.input)
  show "\<not> sv_stopped (start_server live_globals)" by (simp add: start_server_def)
  show "length [(True, 0::int)] = length (new_messages (sv_parser (start_server live_globals))
      (on_read (sv_parser (start_server live_globals)) (frame [42])))"
    using live_input by (simp add: start_server_def new_messages_def) (simp add: init_parser_def)
qed

lemma server_accounts_for_requests_witness:
  "\<exists>s res. (sv_step ask_unpack (\<lambda>_. [0]))\<^sup>*\<^sup>* (start_server live_globals) s \<and> sv_sent s = [res] \<and> res_id res = 9 \<and>
     mset (call_ids ask_unpack (delivered (sv_parser s))) = {#9#} \<and> pending_ids s = {#} \<and>
     sv_stdout s = msgpack_handler_send (\<lambda>_. [0]) res"
proof -
  obtain t res where t: "(sv_step ask_unpack (\<lambda>_. [0]))\<^sup>*\<^sup>* live_state t" "sv_sent t = [res]" "res_id res = 9"
    "sv_waiting t = []" "sv_finished t = []" "sv_dropped t = []"
    using serve_waiting [OF live_facts, of ask_unpack "\<lambda>_. [0]"] by (auto simp: live_parts)
  have r: "(sv_step ask_unpack (\<lambda>_. [0]))\<^sup>*\<^sup>* (start_server live_globals) t"
    by (rule rtranclp_trans [OF live_reachable t(1)])
  from server_accounts_for_requests [OF r] r t show ?thesis
    by (intro exI [of _ t] exI [of _ res]) (simp add: pending_ids_def)
qed

text \<open>
  Only the interrupt signal ends the server. When standard input is closed, by the client or after a
  protocol error, and all work is done, the loop still waits, since the signal handle stays active.
\<close>

lemma server_ends_by_signal_only:
  assumes "(sv_step unpack enc)\<^sup>*\<^sup>* (start_server g) s"
  shows "uv_run_returns s \<longleftrightarrow> sv_stopped s"
proof -
  have "sv_inv unpack enc s" by (rule server.inv_reachable [OF _ assms]) blast
  then show ?thesis by (simp add: sv_inv_def uv_run_returns_def)
qed

lemma server_ends_by_signal_only_witness:
  "\<not> uv_run_returns (on_eof (start_server no_globals))"
proof -
  have "(sv_step ask_unpack (\<lambda>_. []))\<^sup>*\<^sup>* (start_server no_globals) (on_eof (start_server no_globals))"
    by (rule r_into_rtranclp, rule sv_step.eof) (simp add: start_server_def)
  from server_ends_by_signal_only [OF this] show ?thesis by (simp add: on_eof_def start_server_def)
qed

end
