(* ===== verification/StrPool.thy ===== *)
theory StrPool
  imports Prelude
begin

text \<open>
  The string pool of \<open>src/src/str_pool.c\<close>: strings are copied one after the other into a
  block, and a new block is allocated when the current one is full, so that the
  addresses handed out stay valid. The fields of \<open>pool[0]\<close> are those of the record; \<open>junk\<close> is
  what \<open>malloc\<close> leaves in a new block, and \<open>sp_oob\<close> records a write outside a block.
\<close>

section \<open>Operations\<close>

record str_pool =
  sp_blocks :: "(nat \<times> char mem) list"
  sp_idx :: nat
  sp_pos :: nat
  sp_sz :: nat
  sp_oob :: bool

definition init_str_pool :: "char mem \<Rightarrow> nat \<Rightarrow> str_pool" where
  "init_str_pool junk sz =
     \<lparr> sp_blocks = [(sz, junk)], sp_idx = 0, sp_pos = 0, sp_sz = sz, sp_oob = False \<rparr>"

text \<open>An address is a block and an offset.\<close>

type_synonym pool_addr = "nat \<times> nat"

text \<open>The branch that allocates: the pool, the index, size and position to write at.\<close>

definition pool_room :: "char mem \<Rightarrow> nat \<Rightarrow> str_pool \<Rightarrow> str_pool" where
  "pool_room junk s_len p =
     (if s_len \<ge> sp_sz p - sp_pos p then
        let initial_sz = sp_sz p + s_len + 1
        in p\<lparr> sp_blocks := sp_blocks p @ [(initial_sz, junk)], sp_pos := 0, sp_sz := initial_sz, sp_idx := sp_idx p + 1 \<rparr>
      else p)"

definition pool_str_with_len :: "char mem \<Rightarrow> str_pool \<Rightarrow> string \<Rightarrow> nat \<Rightarrow> str_pool \<times> pool_addr" where
  "pool_str_with_len junk p s len =
     (let s_len = (if len = 0 then length (cstr s) + 1 else len + 1);
          p = pool_room junk s_len p;
          pos = sp_pos p;
          (sz, m) = sp_blocks p ! sp_idx p;
          m = mem_copy m pos (cstr s @ [NUL]);
          new_pos = pos + s_len
      in (p\<lparr> sp_blocks := (sp_blocks p)[sp_idx p := (sz, m(new_pos := NUL))], sp_pos := new_pos + 1,
             sp_oob := (sp_oob p \<or> pos + length (cstr s) + 1 > sz \<or> new_pos \<ge> sz) \<rparr>,
          (sp_idx p, pos)))"

definition pool_str :: "char mem \<Rightarrow> str_pool \<Rightarrow> string \<Rightarrow> str_pool \<times> pool_addr" where
  "pool_str junk p s = pool_str_with_len junk p s 0"

text \<open>What \<open>deinit_str_pool\<close> frees: for each block its bytes and its structure, then the array.\<close>

datatype pool_block = PoolStrings nat | PoolStruct nat | PoolArray

definition deinit_str_pool :: "str_pool \<Rightarrow> pool_block list" where
  "deinit_str_pool p = concat (map (\<lambda>i. [PoolStrings i, PoolStruct i]) [0..<sp_idx p + 1]) @ [PoolArray]"

section \<open>The contract\<close>

text \<open>
  What a user of the pool relies on: a string that was put can be found at its address, and
  stays there whatever is put later.
\<close>

locale string_store =
  fixes put :: "'s \<Rightarrow> string \<Rightarrow> 's \<times> 'a"
    and ok :: "'s \<Rightarrow> bool"
    and holds :: "'s \<Rightarrow> 'a \<Rightarrow> string \<Rightarrow> bool"
  assumes put_ok: "ok s \<Longrightarrow> ok (fst (put s x))"
    and put_holds: "ok s \<Longrightarrow> holds (fst (put s x)) (snd (put s x)) (cstr x)"
    and put_keeps: "ok s \<Longrightarrow> holds s a y \<Longrightarrow> holds (fst (put s x)) a y"

text \<open>Storing a list of strings, with the addresses in order.\<close>

primrec put_all :: "('s \<Rightarrow> string \<Rightarrow> 's \<times> 'a) \<Rightarrow> 's \<Rightarrow> string list \<Rightarrow> 's \<times> 'a list" where
  "put_all put s [] = (s, [])"
| "put_all put s (x # xs) = (case put s x of (s', a) \<Rightarrow> case put_all put s' xs of (s'', as) \<Rightarrow> (s'', a # as))"

context string_store
begin

lemma put_all_keeps: "ok s \<Longrightarrow> holds s a y \<Longrightarrow> holds (fst (put_all put s xs)) a y"
proof (induction xs arbitrary: s)
  case (Cons x xs)
  from Cons.IH [OF put_ok put_keeps] Cons.prems show ?case by (simp add: split_beta)
qed simp

lemma put_all_ok: "ok s \<Longrightarrow> ok (fst (put_all put s xs))"
proof (induction xs arbitrary: s)
  case (Cons x xs)
  from Cons.IH [OF put_ok] Cons.prems show ?case by (simp add: split_beta)
qed simp

lemma put_all_holds:
  "ok s \<Longrightarrow> list_all2 (holds (fst (put_all put s xs))) (snd (put_all put s xs)) (map cstr xs)"
proof (induction xs arbitrary: s)
  case (Cons x xs)
  note ok' = put_ok [OF Cons.prems, of x]
  show ?case
    using Cons.IH [OF ok'] put_all_keeps [OF ok' put_holds [OF Cons.prems]] by (simp add: split_beta)
qed simp

end

section \<open>The pool keeps the contract\<close>

definition pool_ok :: "str_pool \<Rightarrow> bool" where
  "pool_ok p \<longleftrightarrow> length (sp_blocks p) = sp_idx p + 1 \<and> fst (sp_blocks p ! sp_idx p) = sp_sz p \<and>
     sp_pos p \<le> sp_sz p \<and> \<not> sp_oob p"

definition mem_string :: "char mem \<Rightarrow> nat \<Rightarrow> string \<Rightarrow> bool" where
  "mem_string m off s \<longleftrightarrow> (\<forall>i<length s. m (off + i) = s ! i) \<and> m (off + length s) = NUL"

text \<open>A string lies in a block, and in the current one before the position where the next is written.\<close>

definition pool_holds :: "str_pool \<Rightarrow> pool_addr \<Rightarrow> string \<Rightarrow> bool" where
  "pool_holds p a s \<longleftrightarrow> fst a \<le> sp_idx p \<and>
     snd a + length s < (if fst a = sp_idx p then sp_pos p else fst (sp_blocks p ! fst a)) \<and>
     mem_string (snd (sp_blocks p ! fst a)) (snd a) s"

lemma mem_string_copy: "mem_string ((mem_copy m off (s @ [NUL]))(off + length s + 1 := c)) off s"
  by (auto simp: mem_string_def mem_copy_def nth_append)

lemma mem_string_later:
  "mem_string m off s \<Longrightarrow> off + length s < pos \<Longrightarrow> pos \<le> j \<Longrightarrow> mem_string ((mem_copy m pos t)(j := c)) off s"
  by (auto simp: mem_string_def mem_copy_def)

lemma pool_room_ok:
  "pool_ok p \<Longrightarrow> pool_ok (pool_room junk n p) \<and> sp_pos (pool_room junk n p) + n < sp_sz (pool_room junk n p)"
  by (auto simp: pool_ok_def pool_room_def Let_def nth_append)

lemma pool_room_keeps: "pool_ok p \<Longrightarrow> pool_holds p a s \<Longrightarrow> pool_holds (pool_room junk n p) a s"
  by (auto simp: pool_ok_def pool_room_def pool_holds_def Let_def nth_append split: if_splits)

lemma pool_str_ok: "pool_ok p \<Longrightarrow> pool_ok (fst (pool_str junk p s))"
  using pool_room_ok [of p junk "length (cstr s) + 1"]
  by (auto simp: pool_str_def pool_str_with_len_def Let_def pool_ok_def split: prod.split)

lemma pool_str_holds: "pool_ok p \<Longrightarrow> pool_holds (fst (pool_str junk p s)) (snd (pool_str junk p s)) (cstr s)"
  using pool_room_ok [of p junk "length (cstr s) + 1"] mem_string_copy
  by (auto simp: pool_str_def pool_str_with_len_def Let_def pool_ok_def pool_holds_def split: prod.split)

lemma pool_str_keeps:
  assumes "pool_ok p" "pool_holds p a t"
  shows "pool_holds (fst (pool_str junk p s)) a t"
proof -
  let ?q = "pool_room junk (length (cstr s) + 1) p"
  have q: "pool_ok ?q" "pool_holds ?q a t"
    using pool_room_ok [OF assms(1)] pool_room_keeps [OF assms] by blast+
  then show ?thesis
    by (cases "fst a = sp_idx ?q")
      (auto simp: pool_str_def pool_str_with_len_def Let_def pool_ok_def pool_holds_def
        nth_list_update intro!: mem_string_later split: prod.split)
qed

interpretation pool: string_store "pool_str junk" pool_ok pool_holds for junk
  by unfold_locales (auto intro: pool_str_ok pool_str_holds pool_str_keeps)

lemma pool_ok_init: "pool_ok (init_str_pool junk sz)"
  by (simp add: pool_ok_def init_str_pool_def)

text \<open>
  C25: The pool keeps what it is given: whatever strings are put into a new pool of any size, no write leaves a block,
  and at the end every one of them is still at the address that was returned for it.
\<close>

lemma pool_keeps_strings:
  "case put_all (pool_str junk) (init_str_pool junk' sz) xs of
     (p, addrs) \<Rightarrow> \<not> sp_oob p \<and> list_all2 (pool_holds p) addrs (map cstr xs)"
proof -
  note ok = pool_ok_init [of junk' sz]
  have "pool_ok (fst (put_all (pool_str junk) (init_str_pool junk' sz) xs))" by (rule pool.put_all_ok [OF ok])
  with pool.put_all_holds [OF ok, of junk xs] show ?thesis by (simp add: split_beta pool_ok_def)
qed

text \<open>
  With a length of its own, the copy is as long as the string all the same: a string longer
  than the length given can leave its block.
\<close>

lemma pool_str_with_len_overruns:
  "sp_oob (fst (pool_str_with_len junk (init_str_pool junk' 4) ''abcdef'' 1))"
  by (simp add: pool_str_with_len_def init_str_pool_def pool_room_def)

text \<open>Freeing frees every block once.\<close>

lemma deinit_frees_all:
  "pool_ok p \<Longrightarrow> distinct (deinit_str_pool p) \<and>
   set (deinit_str_pool p) = {PoolArray} \<union> PoolStrings ` {..<length (sp_blocks p)} \<union> PoolStruct ` {..<length (sp_blocks p)}"
proof -
  have d: "distinct (concat (map (\<lambda>i. [PoolStrings i, PoolStruct i]) [0..<n]))" for n
    by (induction n) auto
  assume "pool_ok p"
  then show ?thesis using d [of "sp_idx p + 1"]
    by (auto simp: deinit_str_pool_def pool_ok_def simp del: upt_Suc)
qed

end
