(* ===== verification/Files.thy ===== *)
theory Files
  imports KString StrPool
begin

text \<open>
  File names and their loading in \<open>src/src/search_helper.c\<close>: the entry of the caches, the
  name behind the last slash and the reader that turns the lines of a listing command into
  entries. A string that the code puts into the pool is its value here; theory
  \<open>StrPool\<close> shows that the pool keeps it.
\<close>

section \<open>Entries\<close>

text \<open>\<open>PATH_MAX\<close> of the platform.\<close>

definition PATH_MAX :: nat where "PATH_MAX = 4096"

record file_info =
  file_path :: string
  file_name :: string
  f_len :: nat
  fuzzy_score :: u64
  mru_score :: int
  yank_score :: int
  match_pos_flag :: u64
  fi_seq :: int

text \<open>The entry after \<open>memset\<close> to 0, with empty strings for the null pointers.\<close>

definition zero_file_info :: file_info where
  "zero_file_info =
     \<lparr> file_path = [], file_name = [], f_len = 0, fuzzy_score = 0, mru_score = 0, yank_score = 0, match_pos_flag = 0, fi_seq = 0 \<rparr>"

section \<open>Sorting\<close>

text \<open>
  \<open>qsort\<close> of the C library: it permutes the array so that the comparison is not positive from an entry to a later
  one; the order of entries that compare equal is not specified, so that the function is a parameter of
  its users. All comparisons of the program are descending in a key.
\<close>

definition qsort_ok :: "(('a \<Rightarrow> 'a \<Rightarrow> int) \<Rightarrow> 'a list \<Rightarrow> 'a list) \<Rightarrow> ('a \<Rightarrow> 'a \<Rightarrow> int) \<Rightarrow> bool" where
  "qsort_ok qs cmp \<longleftrightarrow> (\<forall>xs. mset (qs cmp xs) = mset xs \<and> sorted_wrt (\<lambda>a b. cmp a b \<le> 0) (qs cmp xs))"

definition desc_compare :: "('a \<Rightarrow> 'k::linorder) \<Rightarrow> 'a \<Rightarrow> 'a \<Rightarrow> int" where
  "desc_compare key a b = (if key a = key b then 0 else if key a > key b then - 1 else 1)"

lemma desc_compare_le: "desc_compare key a b \<le> 0 \<longleftrightarrow> key a \<ge> key b"
  by (auto simp: desc_compare_def)

lemma qsort_ok_sorted: "qsort_ok qs (desc_compare key) \<Longrightarrow> sorted_wrt (\<lambda>a b. key a \<ge> key b) (qs (desc_compare key) xs)"
  by (simp add: qsort_ok_def desc_compare_le)

text \<open>A sorting routine that meets the specification: insertion.\<close>

primrec insert_by :: "('a \<Rightarrow> 'a \<Rightarrow> int) \<Rightarrow> 'a \<Rightarrow> 'a list \<Rightarrow> 'a list" where
  "insert_by cmp x [] = [x]"
| "insert_by cmp x (y # ys) = (if cmp x y \<le> 0 then x # y # ys else y # insert_by cmp x ys)"

definition insertion_qsort :: "('a \<Rightarrow> 'a \<Rightarrow> int) \<Rightarrow> 'a list \<Rightarrow> 'a list" where
  "insertion_qsort cmp xs = foldr (insert_by cmp) xs []"

lemma mset_insert_by [simp]: "mset (insert_by cmp x ys) = add_mset x (mset ys)"
  by (induction ys) auto

lemma set_insert_by [simp]: "set (insert_by cmp x ys) = insert x (set ys)"
  by (induction ys) auto

lemma sorted_insert_by: "sorted_wrt (\<lambda>a b. desc_compare key a b \<le> 0) ys \<Longrightarrow>
    sorted_wrt (\<lambda>a b. desc_compare key a b \<le> 0) (insert_by (desc_compare key) x ys)"
  by (induction ys) (auto simp: desc_compare_le)

lemma qsort_ok_insertion: "qsort_ok insertion_qsort (desc_compare key)"
proof -
  have "mset (insertion_qsort (desc_compare key) xs) = mset xs \<and>
      sorted_wrt (\<lambda>a b. desc_compare key a b \<le> 0) (insertion_qsort (desc_compare key) xs)" for xs
    by (induction xs) (simp_all add: insertion_qsort_def sorted_insert_by)
  then show ?thesis by (simp add: qsort_ok_def)
qed

section \<open>The name behind the last slash\<close>

text \<open>The loop over the path with the content of \<open>buf\<close>.\<close>

primrec file_name_loop :: "string \<Rightarrow> string \<Rightarrow> string" where
  "file_name_loop buf [] = buf"
| "file_name_loop buf (c # cs) = file_name_loop (if c \<noteq> CHR ''/'' then buf @ [c] else []) cs"

definition get_file_name :: "string \<Rightarrow> string" where
  "get_file_name path = file_name_loop [] (cstr path)"

lemma file_name_loop_no_slash: "CHR ''/'' \<notin> set s \<Longrightarrow> file_name_loop buf s = buf @ s"
  by (induction s arbitrary: buf) auto

lemma file_name_loop_append: "file_name_loop buf (s @ t) = file_name_loop (file_name_loop buf s) t"
  by (induction s arbitrary: buf) auto

lemma file_name_after_slash: "CHR ''/'' \<notin> set name \<Longrightarrow> file_name_loop buf (dir @ CHR ''/'' # name) = name"
  by (simp add: file_name_loop_append file_name_loop_no_slash)

section \<open>Loading lines\<close>

text \<open>
  \<open>fgets\<close> with a buffer of \<open>n\<close> bytes: up to \<open>n - 1\<close> bytes, ending with the first line feed
  if there is one among them; \<open>None\<close> at the end of the input.
\<close>

definition c_fgets :: "nat \<Rightarrow> string \<Rightarrow> (string \<times> string) option" where
  "c_fgets n s =
     (if s = [] then None
      else let l = length (takeWhile (\<lambda>c. c \<noteq> LF) s) + 1; k = min l (n - 1)
           in Some (take k s, drop k s))"

text \<open>The entry for one line; \<open>path_buf[strlen(path_buf) - 1] = 0\<close> drops its last byte.\<close>

definition line_info :: "bool \<Rightarrow> string \<Rightarrow> file_info" where
  "line_info no_path_trim line =
     (let path = butlast (cstr line);
          name = (if no_path_trim then path else get_file_name path)
      in zero_file_info\<lparr> file_path := path, file_name := name, f_len := length name \<rparr>)"

text \<open>
  The loop: the entries, the capacity of the array after it has grown as needed, and whether an access
  was outside the array or the buffer (a line that starts with a NUL byte has no last byte).
\<close>

function load_lines :: "bool \<Rightarrow> nat \<Rightarrow> file_info list \<Rightarrow> string \<Rightarrow> file_info list \<times> nat \<times> bool" where
  "load_lines no_path_trim cap files input =
     (let cap = (if length files \<ge> cap then cap * 2 else cap)
      in case c_fgets PATH_MAX input of
           None \<Rightarrow> (files, cap, False)
         | Some (line, rest) \<Rightarrow>
             if cstr line = [] \<or> length files \<ge> cap then (files, cap, True)
             else load_lines no_path_trim cap (files @ [line_info no_path_trim line]) rest)"
  by pat_completeness auto
termination
  by (relation "measure (\<lambda>(_, _, _, input). length input)")
    (auto simp: c_fgets_def Let_def PATH_MAX_def split: if_splits)

declare load_lines.simps [simp del]

definition load_lines_from_fp_to_file_info :: "bool \<Rightarrow> nat \<Rightarrow> string \<Rightarrow> file_info list \<times> nat \<times> bool" where
  "load_lines_from_fp_to_file_info no_path_trim initial_sz input = load_lines no_path_trim initial_sz [] input"

definition line_fits :: "string \<Rightarrow> bool" where
  "line_fits l \<longleftrightarrow> LF \<notin> set l \<and> NUL \<notin> set l \<and> length l + 1 < PATH_MAX"

lemma takeWhile_line: "LF \<notin> set l \<Longrightarrow> takeWhile (\<lambda>c. c \<noteq> LF) (l @ LF # rest) = l"
  by (induction l) auto

lemma takeWhile_last_line: "LF \<notin> set l \<Longrightarrow> takeWhile (\<lambda>c. c \<noteq> LF) l = l"
  by (induction l) auto

lemma c_fgets_line: "line_fits l \<Longrightarrow> c_fgets PATH_MAX (l @ LF # rest) = Some (l @ [LF], rest)"
  by (simp add: line_fits_def c_fgets_def PATH_MAX_def Let_def takeWhile_line)

lemma load_lines_append:
  "list_all line_fits ls \<Longrightarrow> 0 < cap \<Longrightarrow> length files \<le> cap \<Longrightarrow>
   \<exists>cap'. 0 < cap' \<and> length files + length ls \<le> cap' \<and>
     load_lines tr cap files (concat (map (\<lambda>l. l @ [LF]) ls) @ rest) =
     load_lines tr cap' (files @ map (\<lambda>l. line_info tr (l @ [LF])) ls) rest"
proof (induction ls arbitrary: cap files)
  case Nil
  then show ?case by auto
next
  case (Cons l ls)
  let ?cap = "if length files \<ge> cap then cap * 2 else cap"
  let ?files = "files @ [line_info tr (l @ [LF])]"
  have l: "line_fits l" and ls: "list_all line_fits ls" using Cons.prems by auto
  then have c: "cstr (l @ [LF]) \<noteq> []" by (simp add: line_fits_def)
  have room: "length files < ?cap" "0 < ?cap" "length ?files \<le> ?cap" using Cons.prems by auto
  have "load_lines tr cap files ((l @ LF # concat (map (\<lambda>l. l @ [LF]) ls)) @ rest) =
      load_lines tr ?cap ?files (concat (map (\<lambda>l. l @ [LF]) ls) @ rest)"
    using c_fgets_line [OF l, of "concat (map (\<lambda>l. l @ [LF]) ls) @ rest"] c room(1)
    by (subst load_lines.simps) (simp add: Let_def)
  with Cons.IH [OF ls room(2,3)] show ?case by auto
qed

lemma line_info_line: "NUL \<notin> set l \<Longrightarrow> line_info tr (l @ [LF]) =
    zero_file_info\<lparr> file_path := l, file_name := (if tr then l else get_file_name l),
      f_len := length (if tr then l else get_file_name l) \<rparr>"
  by (simp add: line_info_def Let_def)

text \<open>
  A listing is loaded line by line: for lines that fit the buffer the entries are exactly the
  lines, in order, each with its name behind the last slash, however many there are and whatever the
  initial capacity, and no access leaves the array. The last byte of a final line without a line feed is lost.
\<close>

lemma lines_are_loaded:
  assumes "list_all line_fits ls" "0 < initial_sz" "line_fits l" "l \<noteq> []"
  shows "\<exists>cap. load_lines_from_fp_to_file_info False initial_sz (concat (map (\<lambda>l. l @ [LF]) ls) @ l) =
    (map (\<lambda>l. zero_file_info\<lparr> file_path := l, file_name := get_file_name l, f_len := length (get_file_name l) \<rparr>)
       (ls @ [butlast l]), cap, False) \<and> length ls + 1 \<le> cap"
proof -
  obtain cap where cap: "0 < cap" "length ls \<le> cap"
    "load_lines False initial_sz [] (concat (map (\<lambda>l. l @ [LF]) ls) @ l) =
     load_lines False cap (map (\<lambda>l. line_info False (l @ [LF])) ls) l"
    using load_lines_append [OF assms(1,2), of "[]" False l] by auto
  have "LF \<notin> set l" "length l + 1 < PATH_MAX" using assms(3) by (simp_all add: line_fits_def)
  then have g: "c_fgets PATH_MAX l = Some (l, [])"
    using assms(4) by (simp add: c_fgets_def takeWhile_last_line PATH_MAX_def)
  have e: "c_fgets PATH_MAX [] = None" by (simp add: c_fgets_def)
  have c: "cstr l = l" "NUL \<notin> set l" using assms(3) by (simp_all add: line_fits_def)
  let ?fs = "map (\<lambda>l. line_info False (l @ [LF])) ls"
  let ?cap = "if length ls \<ge> cap then cap * 2 else cap"
  have room: "length ?fs < ?cap" using cap(1,2) by auto
  have "load_lines False cap ?fs l = load_lines False ?cap (?fs @ [line_info False l]) []"
    using room assms(4) by (subst load_lines.simps) (simp only: Let_def g c length_map option.case prod.case if_False
        not_le [symmetric] simp_thms split: if_split)
  also have "\<dots> = (?fs @ [line_info False l], if length ls + 1 \<ge> ?cap then ?cap * 2 else ?cap, False)"
    by (subst load_lines.simps) (simp add: e Let_def)
  finally have r: "load_lines False cap ?fs l = (?fs @ [line_info False l], if length ls + 1 \<ge> ?cap then ?cap * 2 else ?cap, False)" .
  have f: "?fs = map (\<lambda>l. zero_file_info\<lparr> file_path := l, file_name := get_file_name l, f_len := length (get_file_name l) \<rparr>) ls"
    using assms(1) by (auto simp: list_all_iff line_fits_def line_info_line)
  have "line_info False l = zero_file_info\<lparr> file_path := butlast l, file_name := get_file_name (butlast l),
      f_len := length (get_file_name (butlast l)) \<rparr>"
    by (simp add: line_info_def c Let_def)
  then have "?fs @ [line_info False l] =
      map (\<lambda>l. zero_file_info\<lparr> file_path := l, file_name := get_file_name l, f_len := length (get_file_name l) \<rparr>)
        (ls @ [butlast l])"
    by (simp only: f map_append list.map)
  with r cap(3) have "load_lines_from_fp_to_file_info False initial_sz (concat (map (\<lambda>l. l @ [LF]) ls) @ l) =
      (map (\<lambda>l. zero_file_info\<lparr> file_path := l, file_name := get_file_name l, f_len := length (get_file_name l) \<rparr>)
        (ls @ [butlast l]), if length ls + 1 \<ge> ?cap then ?cap * 2 else ?cap, False)"
    by (simp only: load_lines_from_fp_to_file_info_def)
  moreover have "length ls + 1 \<le> (if length ls + 1 \<ge> ?cap then ?cap * 2 else ?cap)" using room by auto
  ultimately show ?thesis by blast
qed

lemma lines_are_loaded_witness:
  "\<exists>cap. load_lines_from_fp_to_file_info False 1 (concat (map (\<lambda>l. l @ [LF]) [''a/b'', ''c'']) @ ''d/ef'') =
    (map (\<lambda>l. zero_file_info\<lparr> file_path := l, file_name := get_file_name l, f_len := length (get_file_name l) \<rparr>)
       ([''a/b'', ''c''] @ [butlast ''d/ef'']), cap, False) \<and> length [''a/b'', ''c''] + 1 \<le> cap"
  by (rule lines_are_loaded) (simp_all add: line_fits_def PATH_MAX_def)

end
