(* ===== verification/JsonOut.thy ===== *)
theory JsonOut
  imports Files
begin

text \<open>
  What \<open>src/src/json_msg_handler.c\<close> writes: escaping of text for JSON, the result list and
  the message that goes to standard output.
\<close>

section \<open>Escaping\<close>

abbreviation CR :: char where "CR \<equiv> CHR 0x0D"
abbreviation TAB :: char where "TAB \<equiv> CHR 0x09"
abbreviation BSL :: char where "BSL \<equiv> CHR 0x5C"
abbreviation QUOTE :: char where "QUOTE \<equiv> CHR 0x22"

text \<open>\<open>(c & 192) >= 192\<close>: the first byte of a UTF-8 sequence.\<close>

definition is_lead :: "char \<Rightarrow> bool" where
  "is_lead c \<longleftrightarrow> (of_char c :: nat) \<ge> 192"

definition escape_char :: "char \<Rightarrow> string" where
  "escape_char c =
     (if is_lead c then []
      else if c = LF then [BSL, CHR ''n'']
      else if c = CR then [BSL, CHR ''r'']
      else if c = TAB then [BSL, CHR ''t'']
      else if c = QUOTE then [BSL, QUOTE]
      else if c = BSL then [BSL, BSL]
      else [c])"

text \<open>
  \<open>json_escape\<close> on \<open>len\<close> bytes: the escaped text, and whether a write was outside of the
  buffer of \<open>len * 2\<close> bytes, the terminator included.
\<close>

definition json_escape :: "string \<Rightarrow> string \<times> bool" where
  "json_escape json =
     (let buf = concat (map escape_char json)
      in (buf, length buf + 1 > length json * 2))"

text \<open>A reader that undoes the escapes.\<close>

fun unescape :: "string \<Rightarrow> string option" where
  "unescape [] = Some []"
| "unescape (c # s) =
     (if c = BSL then
        (case s of
           [] \<Rightarrow> None
         | d # s \<Rightarrow>
             let e = (if d = CHR ''n'' then Some LF else if d = CHR ''r'' then Some CR else if d = CHR ''t'' then Some TAB
                      else if d = QUOTE then Some QUOTE else if d = BSL then Some BSL else None)
             in (case e of None \<Rightarrow> None | Some x \<Rightarrow> map_option (\<lambda>r. x # r) (unescape s)))
      else map_option (\<lambda>r. c # r) (unescape s))"

lemma unescape_char: "unescape (escape_char c @ s) = (if is_lead c then unescape s else map_option (\<lambda>r. c # r) (unescape s))"
  by (simp add: escape_char_def)

lemma unescape_escape: "unescape (concat (map escape_char s)) = Some (filter (\<lambda>c. \<not> is_lead c) s)"
  by (induction s) (simp_all add: unescape_char)

definition needs_escape :: "char \<Rightarrow> bool" where
  "needs_escape c \<longleftrightarrow> length (escape_char c) = 2"

lemma length_escape_char: "length (escape_char c) \<le> 2"
  by (simp add: escape_char_def)

lemma length_escape: "length (concat (map escape_char s)) \<le> 2 * length s \<and>
    (length (concat (map escape_char s)) = 2 * length s \<longleftrightarrow> list_all needs_escape s)"
proof (induction s)
  case (Cons c s)
  then show ?case using length_escape_char [of c] by (auto simp: needs_escape_def)
qed simp

text \<open>
  No quote and no control character that JSON forbids survives, except control characters that are none of line
  feed, carriage return and tab.
\<close>

text \<open>
  Escaping can be undone and is only one byte from its buffer: undoing the escapes gives the text without the
  first bytes of its multi-byte characters, and the terminator is written behind the buffer exactly if every byte of the
  text needs an escape, the empty text included.
\<close>

lemma json_escape_spec:
  "unescape (fst (json_escape s)) = Some (filter (\<lambda>c. \<not> is_lead c) s) \<and>
   (snd (json_escape s) \<longleftrightarrow> list_all needs_escape s)"
  using length_escape [of s] by (auto simp: json_escape_def Let_def unescape_escape)

section \<open>The result list\<close>

definition MAX_RESPONSE_LINES :: nat where "MAX_RESPONSE_LINES = 100"
definition MAX_REAL_RESPONSE_SIZE :: nat where "MAX_REAL_RESPONSE_SIZE = MAX_RESPONSE_LINES * PATH_MAX * 2"

definition res_head :: "int \<Rightarrow> string \<Rightarrow> string" where
  "res_head seq cmd = ''{'' @ [QUOTE] @ ''id'' @ [QUOTE] @ '': '' @ decimal_int seq @ '', '' @ [QUOTE] @ ''cmd'' @ [QUOTE] @ '': ''
     @ [QUOTE] @ cstr cmd @ [QUOTE] @ '', '' @ [QUOTE] @ ''result'' @ [QUOTE] @ '': ['' "

definition res_entry :: "file_info \<Rightarrow> string" where
  "res_entry f = ''{'' @ [QUOTE] @ ''name'' @ [QUOTE] @ '': '' @ [QUOTE] @ cstr (file_path f) @ [QUOTE] @ '', ''
     @ [QUOTE] @ ''match_pos'' @ [QUOTE] @ '': '' @ decimal (unat (match_pos_flag f)) @ ''},''"

text \<open>
  The text in \<open>buf\<close> and the value returned: each \<open>sprintf\<close> returns what it has
  written itself. The last one overwrites the comma of the last entry.
\<close>

definition create_res_json :: "string \<Rightarrow> file_info list \<Rightarrow> int \<Rightarrow> string \<times> nat" where
  "create_res_json cmd files seq =
     (if files = [] then let t = res_head seq cmd @ '']}'' @ [LF] in (t, length t)
      else let buf = res_head seq cmd @ concat (map res_entry files); last = '']}'' @ [LF]
           in (take (length buf - 1) buf @ last, length last))"

definition send_res_from_file_info :: "string \<Rightarrow> file_info list \<Rightarrow> int \<Rightarrow> string" where
  "send_res_from_file_info cmd files seq =
     (let (json, j_res) = create_res_json cmd (take MAX_RESPONSE_LINES files) seq
      in ''Content-Length: '' @ decimal j_res @ [CR, LF, CR, LF] @ json @ [LF])"

text \<open>
  The announced length is wrong as soon as there is a result: a message without results announces the length of
  its JSON text, any other announces 3, the length of the text's last piece.
\<close>

lemma content_length_announced:
  "snd (create_res_json cmd files seq) =
     (if files = [] then length (fst (create_res_json cmd files seq)) else 3)"
  by (simp add: create_res_json_def Let_def)

lemma length_res_entry: "length (res_entry f) = length (cstr (file_path f)) + length (decimal (unat (match_pos_flag f))) + 28"
  by (simp add: res_entry_def)

text \<open>The number of digits.\<close>

lemma length_decimal_less: "n < 10 ^ k \<Longrightarrow> 0 < k \<Longrightarrow> length (decimal n) \<le> k"
proof (induction k arbitrary: n)
  case (Suc k)
  show ?case
  proof (cases "n < 10")
    case True
    then show ?thesis by (subst decimal_rec) simp
  next
    case False
    with Suc.prems(1) have "n div 10 < 10 ^ k" "0 < k"
      by (simp add: div_less_iff_less_mult mult.commute) (use False Suc.prems(1) in \<open>cases k, simp_all\<close>)
    from Suc.IH [OF this] False show ?thesis by (subst decimal_rec) simp
  qed
qed simp

lemma length_flag: "length (decimal (unat (w :: u64))) \<le> 20"
proof (rule length_decimal_less)
  have "unat w < 2 ^ 64" using unsigned_less [of w] by simp
  also have "\<dots> < 10 ^ 20" by simp
  finally show "unat w < 10 ^ 20" .
qed simp

lemma length_entries:
  "list_all (\<lambda>f. length (cstr (file_path f)) < PATH_MAX) fs \<Longrightarrow>
   length (concat (map res_entry fs)) \<le> length fs * (PATH_MAX + 47)"
proof (induction fs)
  case (Cons f fs)
  then show ?case using length_flag [of "match_pos_flag f"] by (simp add: length_res_entry)
qed simp

text \<open>
  The response buffer is large enough: with paths and a command that fit their own buffers and a 32-bit number, the JSON
  text of at most 100 results, with its terminator, fits the static buffer it is printed into.
\<close>

lemma response_fits_buffer:
  assumes "list_all (\<lambda>f. length (cstr (file_path f)) < PATH_MAX) files" "length (cstr cmd) < 32" "\<bar>seq\<bar> < 2 ^ 31"
  shows "length (fst (create_res_json cmd (take MAX_RESPONSE_LINES files) seq)) < MAX_REAL_RESPONSE_SIZE"
proof -
  let ?fs = "take MAX_RESPONSE_LINES files"
  have "list_all (\<lambda>f. length (cstr (file_path f)) < PATH_MAX) ?fs"
    using assms(1) by (auto simp: list_all_iff dest: in_set_takeD)
  from length_entries [OF this] have e: "length (concat (map res_entry ?fs)) \<le> 100 * (4096 + 47)"
    by (rule order_trans) (simp add: MAX_RESPONSE_LINES_def PATH_MAX_def)
  have "length (decimal (nat \<bar>seq\<bar>)) \<le> 10"
    by (rule length_decimal_less) (use assms(3) in \<open>simp_all add: nat_less_iff\<close>)
  then have "length (decimal_int seq) \<le> 11"
    by (auto simp: decimal_int_def)
  then have h: "length (res_head seq cmd) \<le> 80" using assms(2) by (simp add: res_head_def)
  have "length (fst (create_res_json cmd ?fs seq)) \<le> length (res_head seq cmd) + length (concat (map res_entry ?fs)) + 3"
    by (cases "?fs = []") (simp_all add: create_res_json_def Let_def del: take_eq_Nil take_append)
  also have "\<dots> \<le> 80 + 100 * (4096 + 47) + 3" using e h by linarith
  also have "\<dots> < MAX_REAL_RESPONSE_SIZE"
    by (simp add: MAX_REAL_RESPONSE_SIZE_def MAX_RESPONSE_LINES_def PATH_MAX_def)
  finally show ?thesis .
qed

lemma response_fits_buffer_witness:
  "length (fst (create_res_json ''file'' (take MAX_RESPONSE_LINES [zero_file_info\<lparr> file_path := ''a/b'' \<rparr>]) 7))
     < MAX_REAL_RESPONSE_SIZE"
  by (rule response_fits_buffer) (simp_all add: PATH_MAX_def)

end
