(* ===== verification/Fuzzy.thy ===== *)
theory Fuzzy
  imports JsonOut "HOL-Library.Sublist"
begin

text \<open>
  The fuzzy matcher of \<open>src/src/fuzzy.c\<close>: the score of a match, the recursive matcher with its
  shared recursion counter, the matcher of a whole search word and the search over a cache
  with its sorted response.
\<close>

section \<open>Characters and bits\<close>

text \<open>\<open>tolower\<close> in the C locale.\<close>

definition c_tolower :: "char \<Rightarrow> char" where
  "c_tolower c = (let n = of_char c :: nat in if 65 \<le> n \<and> n \<le> 90 then char_of (n + 32) else c)"

text \<open>A byte of a buffer that is zero behind the string it holds.\<close>

definition byte_at :: "string \<Rightarrow> nat \<Rightarrow> char" where
  "byte_at s i = (if i < length s then s ! i else NUL)"

text \<open>
  \<open>strtoul\<close> with base 2 on a string of digits: digits up to the first other byte, \<open>ULONG_MAX\<close> on overflow. The
  only argument the code passes consists of the digits 0 and 1.
\<close>

definition binary_digits :: "string \<Rightarrow> string" where
  "binary_digits s = takeWhile (\<lambda>c. c = CHR ''0'' \<or> c = CHR ''1'') s"

definition binary_value :: "string \<Rightarrow> nat" where
  "binary_value s = foldl (\<lambda>n c. 2 * n + (if c = CHR ''1'' then 1 else 0)) 0 (binary_digits s)"

definition binstr_to_int :: "string \<Rightarrow> u64" where
  "binstr_to_int s = (if binary_value s < 2 ^ 64 then of_nat (binary_value s) else - 1)"

section \<open>The score\<close>

definition SEQUENTIAL_BONUS :: u64 where "SEQUENTIAL_BONUS = 40"
definition PATH_SEPARATOR_BONUS :: u64 where "PATH_SEPARATOR_BONUS = 30"
definition WORD_SEPARATOR_BONUS :: u64 where "WORD_SEPARATOR_BONUS = 25"
definition FIRST_LETTER_BONUS :: u64 where "FIRST_LETTER_BONUS = 15"
definition LEADING_LETTER_PENALTY :: int where "LEADING_LETTER_PENALTY = - 5"
definition MAX_LEADING_LETTER_PENALTY :: int where "MAX_LEADING_LETTER_PENALTY = - 15"
definition UNMATCHED_LETTER_PENALTY :: int where "UNMATCHED_LETTER_PENALTY = - 1"
definition GAP_PENALTY :: int where "GAP_PENALTY = - 2"

text \<open>The bonus for the byte before the match, which the code takes from the text it is given as \<open>str\<close>.\<close>

definition neighbor_bonus :: "string \<Rightarrow> nat \<Rightarrow> u64" where
  "neighbor_bonus str cur =
     (if cur > 0 then
        let neighbor = byte_at str (cur - 1)
        in if neighbor = CHR ''/'' \<or> neighbor = BSL then PATH_SEPARATOR_BONUS
           else if neighbor = CHR '' '' \<or> neighbor = CHR ''_'' then WORD_SEPARATOR_BONUS else 0
      else FIRST_LETTER_BONUS)"

text \<open>The loop over the positions; the first argument is the position before, if there is one.\<close>

primrec score_loop :: "string \<Rightarrow> nat option \<Rightarrow> u64 \<Rightarrow> nat list \<Rightarrow> u64" where
  "score_loop str prev score [] = score"
| "score_loop str prev score (cur # ms) =
     score_loop str (Some cur)
       (score + (case prev of
                   None \<Rightarrow> 0
                 | Some p \<Rightarrow> if cur = p + 1 then SEQUENTIAL_BONUS else word_of_int GAP_PENALTY * (of_nat cur - of_nat p))
        + neighbor_bonus str cur) ms"

definition fuzzy_match_compute_score :: "string \<Rightarrow> nat \<Rightarrow> nat list \<Rightarrow> u64" where
  "fuzzy_match_compute_score str strSz matches =
     (let penalty = max (LEADING_LETTER_PENALTY * int (hd matches)) MAX_LEADING_LETTER_PENALTY;
          unmatched = of_nat strSz - of_nat (length matches) :: u64
      in score_loop str None (100 + word_of_int penalty + word_of_int UNMATCHED_LETTER_PENALTY * unmatched) matches)"

text \<open>
  The score of a single match is 100 less the penalties and the bonus, computed modulo \<open>2 ^ 64\<close>: as soon as
  the penalties exceed 100 it wraps to a huge value, which ranks the entry before every better match.
\<close>

lemma fuzzy_score_wraps:
  assumes "3 \<le> k" "n < 2 ^ 32" "neighbor_bonus w k = 0"
  shows "uint (fuzzy_match_compute_score w n [k]) =
    (if n \<le> 86 then 86 - int n else 2 ^ 64 + 86 - int n)"
proof -
  have "LEADING_LETTER_PENALTY * int (hd [k]) \<le> MAX_LEADING_LETTER_PENALTY"
    using assms(1) by (simp add: LEADING_LETTER_PENALTY_def MAX_LEADING_LETTER_PENALTY_def)
  then have "fuzzy_match_compute_score w n [k] = word_of_int (86 - int n)"
    using assms(3) by (simp add: fuzzy_match_compute_score_def Let_def max_absorb2 MAX_LEADING_LETTER_PENALTY_def
        UNMATCHED_LETTER_PENALTY_def wi_hom_syms algebra_simps)
  then have u: "uint (fuzzy_match_compute_score w n [k]) = (86 - int n) mod 2 ^ 64"
    by (simp only: uint_word_of_int len_bit0 len_num1) simp
  show ?thesis
  proof (cases "n \<le> 86")
    case True
    then show ?thesis using u by (simp add: mod_pos_pos_trivial)
  next
    case False
    have "(86 - int n) mod 2 ^ 64 = (86 - int n + 2 ^ 64) mod 2 ^ 64" by (rule mod_add_self2 [symmetric])
    also have "\<dots> = 86 - int n + 2 ^ 64"
      using False assms(2) by (intro mod_pos_pos_trivial) auto
    finally show ?thesis using u False by simp
  qed
qed

lemma fuzzy_score_wraps_witness:
  "uint (fuzzy_match_compute_score ''z'' 120 [119]) = (if (120::nat) \<le> 86 then 86 - int 120 else 2 ^ 64 + 86 - int 120)"
  by (rule fuzzy_score_wraps) (simp_all add: neighbor_bonus_def byte_at_def)

section \<open>The recursive matcher\<close>

definition FUZZY_MATCH_RECURSION_LIMIT :: nat where "FUZZY_MATCH_RECURSION_LIMIT = 10"
definition MAX_FUZZY_MATCHES :: nat where "MAX_FUZZY_MATCHES = 256"

text \<open>
  What a call shares with its callees: the recursion counter and \<open>result->match_pos\<close>. The array
  \<open>matches\<close> is represented by its first \<open>next_match\<close> entries, the only ones that are set.
\<close>

record fuzzy_shared =
  recursion_count :: nat
  fz_pos :: string

record fuzzy_args =
  fa_str_idx :: nat
  fa_score :: u64
  fa_src :: "nat list"
  fa_max :: nat

record fuzzy_ret =
  fr_count :: nat
  fr_score :: u64
  fr_matches :: "nat list"

text \<open>The local variables of the loop; \<open>next_match\<close> is the length of \<open>fl_matches\<close>.\<close>

record fuzzy_locals =
  fl_str_idx :: nat
  pat_counter :: nat
  str_counter :: nat
  fl_matches :: "nat list"
  recursiveMatch :: bool
  bestRecursiveScore :: u64
  bestRecursiveMatches :: "nat list"

type_synonym fuzzy_call = "fuzzy_args \<Rightarrow> fuzzy_shared \<Rightarrow> fuzzy_ret \<times> fuzzy_shared"

text \<open>Keeping the better of two recursive matches.\<close>

definition keep_best :: "fuzzy_ret \<Rightarrow> fuzzy_locals \<Rightarrow> fuzzy_locals" where
  "keep_best r l =
     (if fr_count r \<noteq> 0 then
        (if \<not> recursiveMatch l \<or> fr_score r > bestRecursiveScore l
         then l\<lparr> bestRecursiveMatches := fr_matches r, bestRecursiveScore := fr_score r \<rparr> else l)\<lparr> recursiveMatch := True \<rparr>
      else l)"

text \<open>
  The loop over the bytes that are left of the line: \<open>Inl\<close> is the early return when the buffer is full.
  The recursive call \<open>recur\<close> gets the line without its first byte, wherever the loop is.
\<close>

primrec fuzzy_loop :: "fuzzy_call \<Rightarrow> string \<Rightarrow> nat \<Rightarrow> string \<Rightarrow> fuzzy_locals \<Rightarrow> fuzzy_shared \<Rightarrow>
    (fuzzy_shared, fuzzy_locals \<times> fuzzy_shared) sum" where
  "fuzzy_loop recur search_word max_matches [] l sh = Inr (l, sh)"
| "fuzzy_loop recur search_word max_matches (c # cs) l sh =
     (if pat_counter l \<ge> length search_word then Inr (l, sh)
      else if c_tolower (search_word ! pat_counter l) = c_tolower c then
        let sh = sh\<lparr> fz_pos := (fz_pos sh)[str_counter l := CHR ''1''] \<rparr>
        in if length (fl_matches l) \<ge> max_matches then Inl sh
           else
             let (r, sh) = recur \<lparr> fa_str_idx = fl_str_idx l + 1, fa_score = 0, fa_src = fl_matches l,
                                   fa_max = MAX_FUZZY_MATCHES \<rparr> sh;
                 l = keep_best r l
             in fuzzy_loop recur search_word max_matches cs
                  (l\<lparr> fl_matches := fl_matches l @ [fl_str_idx l], pat_counter := pat_counter l + 1,
                      fl_str_idx := fl_str_idx l + 1, str_counter := str_counter l + 1 \<rparr>) sh
      else fuzzy_loop recur search_word max_matches cs
             (l\<lparr> fl_str_idx := fl_str_idx l + 1, str_counter := str_counter l + 1 \<rparr>) sh)"

definition fuzzy_locals0 :: "fuzzy_args \<Rightarrow> fuzzy_locals" where
  "fuzzy_locals0 a =
     \<lparr> fl_str_idx = fa_str_idx a, pat_counter = 0, str_counter = 0, fl_matches = fa_src a, recursiveMatch = False,
       bestRecursiveScore = 0, bestRecursiveMatches = [] \<rparr>"

text \<open>What is returned behind the loop.\<close>

definition fuzzy_result :: "string \<Rightarrow> string \<Rightarrow> nat \<Rightarrow> u64 \<Rightarrow> fuzzy_locals \<Rightarrow> fuzzy_ret" where
  "fuzzy_result search_word whole_word strLen score l =
     (let matched = pat_counter l \<ge> length search_word;
          score = (if matched then fuzzy_match_compute_score whole_word strLen (fl_matches l) else score)
      in if recursiveMatch l \<and> (\<not> matched \<or> bestRecursiveScore l > score)
         then \<lparr> fr_count = length (fl_matches l), fr_score = bestRecursiveScore l, fr_matches = bestRecursiveMatches l \<rparr>
         else \<lparr> fr_count = (if matched then length (fl_matches l) else 0), fr_score = score, fr_matches = fl_matches l \<rparr>)"

definition fuzzy_body :: "string \<Rightarrow> string \<Rightarrow> nat \<Rightarrow> string \<Rightarrow> fuzzy_call \<Rightarrow> fuzzy_call" where
  "fuzzy_body search_word whole_word strLen line recur a sh =
     (let sh = sh\<lparr> recursion_count := recursion_count sh + 1 \<rparr>;
          none = \<lparr> fr_count = 0, fr_score = fa_score a, fr_matches = fa_src a \<rparr>
      in if recursion_count sh \<ge> FUZZY_MATCH_RECURSION_LIMIT then (none, sh)
         else case fuzzy_loop recur search_word (fa_max a) line (fuzzy_locals0 a) sh of
             Inl sh \<Rightarrow> (none, sh)
           | Inr (l, sh) \<Rightarrow> (fuzzy_result search_word whole_word strLen (fa_score a) l, sh))"

text \<open>The recursion is on the line; on an empty line the loop never runs and makes no call.\<close>

primrec fuzzy_match_recursive :: "string \<Rightarrow> string \<Rightarrow> nat \<Rightarrow> string \<Rightarrow> fuzzy_call" where
  "fuzzy_match_recursive search_word whole_word strLen [] =
     fuzzy_body search_word whole_word strLen []
       (\<lambda>a sh. (\<lparr> fr_count = 0, fr_score = fa_score a, fr_matches = fa_src a \<rparr>, sh))"
| "fuzzy_match_recursive search_word whole_word strLen (c # cs) =
     fuzzy_body search_word whole_word strLen (c # cs) (fuzzy_match_recursive search_word whole_word strLen cs)"


section \<open>The matcher finds subsequences\<close>

abbreviation lower :: "string \<Rightarrow> string" where "lower s \<equiv> map c_tolower s"

text \<open>The positions and the pattern bytes that the loop consumes.\<close>

lemma keep_best_simps [simp]:
  "fl_str_idx (keep_best r l) = fl_str_idx l" "pat_counter (keep_best r l) = pat_counter l"
  "str_counter (keep_best r l) = str_counter l" "fl_matches (keep_best r l) = fl_matches l"
  "recursiveMatch (keep_best r l) \<longleftrightarrow> recursiveMatch l \<or> fr_count r \<noteq> 0"
  by (simp_all add: keep_best_def)

lemma drop_pat: "\<not> p \<ge> length w \<Longrightarrow> drop p w = (w ! p) # drop (Suc p) w"
  by (simp add: Cons_nth_drop_Suc)

text \<open>
  If the loop ends, the pattern is used up exactly if what was left of it is a subsequence of
  what was left of the line; the greedy choice never loses a match.
\<close>

lemma fuzzy_loop_greedy:
  "fuzzy_loop recur w mx cs l sh = Inr (l', sh') \<Longrightarrow> pat_counter l \<le> length w \<Longrightarrow>
   (pat_counter l' \<ge> length w \<longleftrightarrow> subseq (lower (drop (pat_counter l) w)) (lower cs))"
proof (induction cs arbitrary: l sh)
  case Nil
  then show ?case by (auto dest: list_emb_length)
next
  case (Cons c cs)
  show ?case
  proof (cases "pat_counter l \<ge> length w")
    case True
    with Cons.prems show ?thesis by simp
  next
    case False
    note d = drop_pat [OF False]
    show ?thesis
    proof (cases "c_tolower (w ! pat_counter l) = c_tolower c")
      case True
      with Cons.prems(1) False show ?thesis
        by (auto simp: Let_def split_beta d dest!: Cons.IH split: if_splits)
    next
      case neq: False
      with Cons.prems(1) False show ?thesis
        by (auto simp: d dest!: Cons.IH)
    qed
  qed
qed

text \<open>A recursive match means that some recursive call succeeded.\<close>

lemma fuzzy_loop_recursive:
  "fuzzy_loop recur w mx cs l sh = Inr (l', sh') \<Longrightarrow> (\<And>a s. fr_count (fst (recur a s)) \<noteq> 0 \<Longrightarrow> Q) \<Longrightarrow>
   recursiveMatch l' \<Longrightarrow> recursiveMatch l \<or> Q"
proof (induction cs arbitrary: l sh)
  case (Cons c cs)
  show ?case
  proof (cases "pat_counter l \<ge> length w \<or> c_tolower (w ! pat_counter l) \<noteq> c_tolower c")
    case True
    with Cons.prems Cons.IH [OF _ Cons.prems(2)] show ?thesis by (fastforce split: if_splits)
  next
    case False
    let ?sh = "sh\<lparr> fz_pos := (fz_pos sh)[str_counter l := CHR ''1''] \<rparr>"
    let ?a = "\<lparr> fa_str_idx = fl_str_idx l + 1, fa_score = 0, fa_src = fl_matches l, fa_max = MAX_FUZZY_MATCHES \<rparr>"
    obtain r sh1 where r: "recur ?a ?sh = (r, sh1)" by fastforce
    show ?thesis
    proof (cases "length (fl_matches l) \<ge> mx")
      case True
      with Cons.prems(1) False show ?thesis by (simp add: Let_def)
    next
      case mx: False
      have "recursiveMatch (keep_best r l) \<or> Q"
        using Cons.prems(1) False mx r Cons.IH [OF _ Cons.prems(2,3)] by (fastforce simp: Let_def)
      then show ?thesis using Cons.prems(2) [of ?a ?sh] r by auto
    qed
  qed
qed auto

lemma fuzzy_loop_pat:
  "fuzzy_loop recur w mx cs l sh = Inr (l', sh') \<Longrightarrow> pat_counter l \<le> length w \<Longrightarrow> pat_counter l' \<le> length w"
proof (induction cs arbitrary: l sh)
  case (Cons c cs)
  then show ?case by (fastforce simp: Let_def split_beta dest!: Cons.IH split: if_splits)
qed auto

text \<open>Room for one more match per pattern byte means no early return.\<close>

lemma fuzzy_loop_room:
  "pat_counter l \<le> length w \<Longrightarrow> length (fl_matches l) + (length w - pat_counter l) \<le> mx \<Longrightarrow>
   \<exists>l' sh'. fuzzy_loop recur w mx cs l sh = Inr (l', sh')"
proof (induction cs arbitrary: l sh)
  case (Cons c cs)
  then show ?case by (auto simp: Let_def split_beta intro!: Cons.IH)
qed simp

lemma fuzzy_loop_length:
  "fuzzy_loop recur w mx cs l sh = Inr (l', sh') \<Longrightarrow>
   length (fl_matches l') + pat_counter l = length (fl_matches l) + pat_counter l' \<and> length (fl_matches l') \<le> max mx (length (fl_matches l))"
proof (induction cs arbitrary: l sh)
  case (Cons c cs)
  then show ?case by (fastforce simp: Let_def split_beta dest!: Cons.IH split: if_splits)
qed auto


text \<open>
  One call: it fails at the recursion limit; below it, with room for the pattern, it succeeds exactly if the
  pattern is a subsequence of the line, provided that no recursive call succeeds on anything else. In every case a
  failure leaves the score alone and a success needs the pattern to be a subsequence.
\<close>

lemma fuzzy_body_sound:
  assumes "fr_count (fst (fuzzy_body w ww n line recur a sh)) \<noteq> 0"
    and recur: "\<And>a s. fr_count (fst (recur a s)) \<noteq> 0 \<Longrightarrow> subseq (lower w) (lower line)"
  shows "subseq (lower w) (lower line)"
proof -
  let ?sh = "sh\<lparr> recursion_count := recursion_count sh + 1 \<rparr>"
  from assms(1) obtain l sh' where l: "fuzzy_loop recur w (fa_max a) line (fuzzy_locals0 a) ?sh = Inr (l, sh')"
    and r: "fr_count (fuzzy_result w ww n (fa_score a) l) \<noteq> 0"
    by (cases "fuzzy_loop recur w (fa_max a) line (fuzzy_locals0 a) ?sh")
      (auto simp: fuzzy_body_def Let_def split: if_splits)
  have g: "pat_counter l \<ge> length w \<longleftrightarrow> subseq (lower w) (lower line)"
    using fuzzy_loop_greedy [OF l] by (simp add: fuzzy_locals0_def)
  show ?thesis
  proof (cases "recursiveMatch l")
    case True
    with fuzzy_loop_recursive [OF l recur] show ?thesis by (auto simp: fuzzy_locals0_def)
  next
    case False
    with r g show ?thesis by (simp add: fuzzy_result_def Let_def split: if_splits)
  qed
qed

lemma fuzzy_match_recursive_sound:
  "fr_count (fst (fuzzy_match_recursive w ww n line a sh)) \<noteq> 0 \<Longrightarrow> subseq (lower w) (lower line)"
proof (induction line arbitrary: a sh)
  case Nil
  show ?case by (rule fuzzy_body_sound [OF Nil.prems [unfolded fuzzy_match_recursive.simps]]) simp
next
  case (Cons c cs)
  show ?case
    by (rule fuzzy_body_sound [OF Cons.prems [unfolded fuzzy_match_recursive.simps]])
      (use Cons.IH in auto)
qed

text \<open>A call that has room, below the limit, finds every subsequence.\<close>

lemma fuzzy_body_complete:
  assumes "recursion_count sh + 1 < FUZZY_MATCH_RECURSION_LIMIT" "w \<noteq> []" "length (fa_src a) + length w \<le> fa_max a"
    and sub: "subseq (lower w) (lower line)"
  shows "fr_count (fst (fuzzy_body w ww n line recur a sh)) = length (fa_src a) + length w"
proof -
  let ?sh = "sh\<lparr> recursion_count := recursion_count sh + 1 \<rparr>"
  obtain l sh' where l: "fuzzy_loop recur w (fa_max a) line (fuzzy_locals0 a) ?sh = Inr (l, sh')"
    using fuzzy_loop_room [of "fuzzy_locals0 a" w "fa_max a"] assms(3) by (fastforce simp: fuzzy_locals0_def)
  have g: "pat_counter l \<ge> length w"
    using fuzzy_loop_greedy [OF l] sub by (simp add: fuzzy_locals0_def)
  have "length (fl_matches l) = length (fa_src a) + pat_counter l"
    using fuzzy_loop_length [OF l] by (simp add: fuzzy_locals0_def)
  moreover have "pat_counter l = length w" using fuzzy_loop_pat [OF l] g by (simp add: fuzzy_locals0_def)
  ultimately show ?thesis using assms(1) l g by (simp add: fuzzy_body_def Let_def fuzzy_result_def)
qed


lemma fuzzy_body_count: "fa_src a = [] \<Longrightarrow> fr_count (fst (fuzzy_body w ww n line recur a sh)) \<le> fa_max a"
  by (auto simp: fuzzy_body_def Let_def fuzzy_result_def fuzzy_locals0_def dest!: fuzzy_loop_length split: sum.split)

text \<open>
  C23: The recursive matcher decides the subsequence relation, as long as its shared counter lets it: called for a non-empty word that fits the
  array of positions, with no positions before it, it succeeds exactly if the counter of calls, which it raises first, stays below
  the limit and the word is a subsequence of the line in any case of letters; then it reports as many positions as the word has
  bytes. Which positions is not stated, since they may be wrong (\<open>positions_may_be_wrong\<close>), and in the matcher of a
  whole word the calls for its suffixes share the counter, so that even a line equal to the word may be refused
  (\<open>counter_is_used_up\<close>).
\<close>

lemma fuzzy_matcher_decides_subsequence:
  assumes "w \<noteq> []" "length w \<le> fa_max a" "fa_src a = []"
  shows "fr_count (fst (fuzzy_match_recursive w ww n line a sh)) =
    (if recursion_count sh + 1 < FUZZY_MATCH_RECURSION_LIMIT \<and> subseq (lower w) (lower line) then length w else 0)"
proof (cases "recursion_count sh + 1 < FUZZY_MATCH_RECURSION_LIMIT")
  case below: True
  show ?thesis
  proof (cases "subseq (lower w) (lower line)")
    case True
    then show ?thesis using fuzzy_body_complete [OF below assms(1), of a line] assms(2,3) below by (cases line) simp_all
  next
    case False
    then show ?thesis using fuzzy_match_recursive_sound by fastforce
  qed
next
  case False
  then show ?thesis by (cases line) (simp_all add: fuzzy_body_def Let_def)
qed

lemma fuzzy_matcher_decides_subsequence_witness:
  "fr_count (fst (fuzzy_match_recursive ''MG'' ''MG'' 5 ''magit''
       \<lparr> fa_str_idx = 0, fa_score = 0, fa_src = [], fa_max = 256 \<rparr> \<lparr> recursion_count = 0, fz_pos = ''00000'' \<rparr>)) = 2 \<and>
   fr_count (fst (fuzzy_match_recursive ''MG'' ''MG'' 5 ''magit''
       \<lparr> fa_str_idx = 0, fa_score = 0, fa_src = [], fa_max = 256 \<rparr> \<lparr> recursion_count = 9, fz_pos = ''00000'' \<rparr>)) = 0"
proof -
  have "subseq (lower ''MG'') (lower ''magit'')" by code_simp
  then show ?thesis by (subst (1 2) fuzzy_matcher_decides_subsequence) (simp_all add: FUZZY_MATCH_RECURSION_LIMIT_def)
qed

text \<open>
  The recursive call skips one byte of the line, not the bytes up to the match: for \<open>ab\<close> in \<open>xaab\<close> it reports the positions 3 and 4, of which
  the second is behind the line.
\<close>

lemma positions_may_be_wrong:
  "fr_matches (fst (fuzzy_match_recursive ''ab'' ''ab'' 4 ''xaab''
     \<lparr> fa_str_idx = 0, fa_score = 0, fa_src = [], fa_max = 256 \<rparr> \<lparr> recursion_count = 0, fz_pos = ''0000'' \<rparr>)) = [3, 4]"
  by code_simp

section \<open>Matching a file name\<close>

text \<open>
  The loop of \<open>fuzzy_match\<close> over the bytes of the word: it tries every suffix that does not begin with a space, not only
  every word, because \<open>complete\<close> is never set. The counter of recursive calls is shared by all of them.
\<close>

primrec fuzzy_words :: "string \<Rightarrow> string \<Rightarrow> nat \<Rightarrow> string \<Rightarrow> nat \<Rightarrow> u64 \<Rightarrow> fuzzy_shared \<Rightarrow> u64 \<times> nat \<times> fuzzy_shared" where
  "fuzzy_words word line line_len [] numMatches score sh = (score, numMatches, sh)"
| "fuzzy_words word line line_len (c # cs) numMatches score sh =
     (if c = CHR '' '' then fuzzy_words word line line_len cs numMatches score sh
      else
        let (r, sh) = fuzzy_match_recursive (c # cs) word line_len line
              \<lparr> fa_str_idx = 0, fa_score = score, fa_src = [], fa_max = MAX_FUZZY_MATCHES - numMatches \<rparr> sh
        in if fr_count r = 0 then (fr_score r, 0, sh)
           else fuzzy_words word line line_len cs (numMatches + fr_count r) (fr_score r) sh)"

definition fuzzy_match :: "string \<Rightarrow> string \<Rightarrow> nat \<Rightarrow> string \<Rightarrow> u64 \<times> nat \<times> fuzzy_shared" where
  "fuzzy_match word line line_len match_pos =
     fuzzy_words word line line_len word 0 0 \<lparr> recursion_count = 0, fz_pos = match_pos \<rparr>"

text \<open>The suffixes of \<open>abc\<close> use up the counter: the last one, \<open>c\<close>, is refused for the line \<open>abc\<close>, and no match is counted.\<close>

lemma counter_is_used_up: "fst (snd (fuzzy_match ''abc'' ''abc'' 3 ''000'')) = 0"
  by code_simp

text \<open>The array of positions is never exceeded, so that \<open>max_matches - numMatches\<close> does not wrap around.\<close>

lemma fuzzy_words_bound: "m \<le> MAX_FUZZY_MATCHES \<Longrightarrow>
    fst (snd (fuzzy_words word line n cs m score sh)) \<le> MAX_FUZZY_MATCHES"
proof (induction cs arbitrary: m score sh)
  case (Cons c cs)
  let ?a = "\<lparr> fa_str_idx = 0, fa_score = score, fa_src = [], fa_max = MAX_FUZZY_MATCHES - m \<rparr>"
  have "fr_count (fst (fuzzy_match_recursive (c # cs) word n line ?a sh)) \<le> MAX_FUZZY_MATCHES - m"
    using fuzzy_body_count [of ?a] by (cases line) simp_all
  with Cons show ?case by (simp add: split_beta Let_def)
qed simp

lemma fuzzy_body_score:
  "\<not> subseq (lower w) (lower line) \<Longrightarrow> (\<And>a s. fr_count (fst (recur a s)) = 0) \<Longrightarrow>
   fr_score (fst (fuzzy_body w ww n line recur a sh)) = fa_score a"
  using fuzzy_loop_recursive [of recur w "fa_max a" line "fuzzy_locals0 a" "sh\<lparr> recursion_count := recursion_count sh + 1 \<rparr>" _ _ False]
    fuzzy_loop_greedy [of recur w "fa_max a" line "fuzzy_locals0 a" "sh\<lparr> recursion_count := recursion_count sh + 1 \<rparr>"]
  by (auto simp: fuzzy_body_def Let_def fuzzy_result_def fuzzy_locals0_def split: sum.split)

lemma fuzzy_recursive_score: "\<not> subseq (lower w) (lower line) \<Longrightarrow>
    fr_score (fst (fuzzy_match_recursive w ww n line a sh)) = fa_score a"
proof (cases line)
  case (Cons c cs)
  assume n: "\<not> subseq (lower w) (lower line)"
  then have "\<not> subseq (lower w) (lower cs)" using Cons by (auto)
  then have "fr_count (fst (fuzzy_match_recursive w ww n cs a s)) = 0" for a s
    using fuzzy_match_recursive_sound by fastforce
  with n Cons show ?thesis by (simp add: fuzzy_body_score)
qed (simp add: fuzzy_body_score)

lemma fuzzy_words_sound: "CHR '' '' \<notin> set cs \<Longrightarrow> fst (fuzzy_words word line n cs m 0 sh) \<noteq> 0 \<Longrightarrow>
    subseq (lower cs) (lower line)"
proof (cases cs)
  case (Cons c cs')
  assume "CHR '' '' \<notin> set cs" "fst (fuzzy_words word line n cs m 0 sh) \<noteq> 0"
  then show ?thesis
    using Cons fuzzy_recursive_score [of "c # cs'" line word n "\<lparr> fa_str_idx = 0, fa_score = 0, fa_src = [], fa_max = MAX_FUZZY_MATCHES - m \<rparr>" sh]
      fuzzy_match_recursive_sound [of "c # cs'" word n line]
    by (fastforce simp: Let_def split_beta split: if_splits)
qed simp


section \<open>Searching a cache\<close>

definition result_compare :: "file_info \<Rightarrow> file_info \<Rightarrow> int" where
  "result_compare s1 s2 =
     (let v1 = fuzzy_score s1; v2 = fuzzy_score s2 in if v1 = v2 then 0 else if v1 > v2 then - 1 else 1)"

lemma result_compare_key: "result_compare = desc_compare fuzzy_score"
  by (intro ext) (simp add: result_compare_def desc_compare_def Let_def)

definition sanitize_word :: "string \<Rightarrow> string" where
  "sanitize_word word = filter (\<lambda>c. c \<noteq> CHR '' '') (cstr word)"

definition INITIAL_RES_NUM :: nat where "INITIAL_RES_NUM = 500"

text \<open>The entry of the response for a file, if its score is not zero.\<close>

definition fuzzy_entry :: "string \<Rightarrow> file_info \<Rightarrow> file_info option" where
  "fuzzy_entry word f =
     (let line = cstr (file_name f);
          (score, _, sh) = fuzzy_match word line (f_len f) (replicate (length line) (CHR ''0''))
      in if score > 0
         then Some (zero_file_info\<lparr> file_path := file_path f, fuzzy_score := score, f_len := f_len f,
                      match_pos_flag := binstr_to_int (fz_pos sh) \<rparr>)
         else None)"

text \<open>
  The loop over the files with the entries so far and the capacity of their array; \<open>cancel i\<close> is what
  \<open>is_cancel_requested\<close> answers for the file \<open>i\<close>. The last component says that an entry was written outside the array, \<open>Inl\<close>
  is the return because of a cancel request.
\<close>

primrec fuzzy_files :: "(nat \<Rightarrow> bool) \<Rightarrow> string \<Rightarrow> nat \<Rightarrow> file_info list \<Rightarrow> nat \<Rightarrow> bool \<Rightarrow> file_info list \<Rightarrow>
    (file_info list, file_info list \<times> nat \<times> bool) sum" where
  "fuzzy_files cancel word i res cap oob [] = Inr (res, cap, oob)"
| "fuzzy_files cancel word i res cap oob (f # fs) =
     (if cancel i then Inl res
      else case fuzzy_entry word f of
          None \<Rightarrow> fuzzy_files cancel word (i + 1) res cap oob fs
        | Some e \<Rightarrow>
            let cap = (if length res \<ge> cap then cap * 2 else cap)
            in fuzzy_files cancel word (i + 1) (res @ [e]) cap (oob \<or> length res \<ge> cap) fs)"

text \<open>The value returned and the message sent, if any; \<open>qs\<close> is \<open>qsort\<close>.\<close>

definition start_fuzzy_response :: "((file_info \<Rightarrow> file_info \<Rightarrow> int) \<Rightarrow> file_info list \<Rightarrow> file_info list) \<Rightarrow> (nat \<Rightarrow> bool) \<Rightarrow>
    string \<Rightarrow> string \<Rightarrow> file_info list \<Rightarrow> int \<Rightarrow> nat \<times> string option" where
  "start_fuzzy_response qs cancel search_keyword cmd files seq =
     (case fuzzy_files cancel (sanitize_word search_keyword) 0 [] INITIAL_RES_NUM False files of
        Inl res \<Rightarrow> (length res, None)
      | Inr (res, _, _) \<Rightarrow> (length res, Some (send_res_from_file_info cmd (qs result_compare res) seq)))"

definition fuzzy_hits :: "string \<Rightarrow> file_info list \<Rightarrow> file_info list" where
  "fuzzy_hits word files = List.map_filter (fuzzy_entry word) files"

lemma fuzzy_hits_simps [simp]:
  "fuzzy_hits word [] = []"
  "fuzzy_hits word (f # fs) = (case fuzzy_entry word f of None \<Rightarrow> fuzzy_hits word fs | Some e \<Rightarrow> e # fuzzy_hits word fs)"
  by (simp_all add: fuzzy_hits_def map_filter_simps split: option.split)

lemma fuzzy_files_hits:
  "0 < cap \<Longrightarrow> length res \<le> cap \<Longrightarrow>
   \<exists>cap'. fuzzy_files (\<lambda>_. False) word i res cap False fs = Inr (res @ fuzzy_hits word fs, cap', False)"
proof (induction fs arbitrary: i res cap)
  case (Cons f fs)
  show ?case
  proof (cases "fuzzy_entry word f")
    case None
    with Cons show ?thesis by simp
  next
    case (Some e)
    let ?cap = "if length res \<ge> cap then cap * 2 else cap"
    have "0 < ?cap" "length (res @ [e]) \<le> ?cap" "\<not> length res \<ge> ?cap" using Cons.prems by auto
    with Cons.IH [OF this(1,2), of "i + 1"] Some show ?thesis by (simp add: Let_def)
  qed
qed simp

lemma fuzzy_files_uncancelled: "(\<And>k. i \<le> k \<Longrightarrow> k < i + length fs \<Longrightarrow> \<not> cancel k) \<Longrightarrow>
    fuzzy_files cancel word i res cap oob fs = fuzzy_files (\<lambda>_. False) word i res cap oob fs"
proof (induction fs arbitrary: i res cap oob)
  case (Cons f fs)
  have "\<not> cancel i" using Cons.prems [of i] by simp
  moreover have "\<not> cancel k" if "i + 1 \<le> k" "k < i + 1 + length fs" for k using Cons.prems [of k] that by simp
  ultimately show ?case using Cons.IH [of "i + 1"] by (cases "fuzzy_entry word f") (simp_all add: Let_def)
qed simp

text \<open>A cancel request is answered by silence.\<close>

lemma fuzzy_files_cancelled: "cancel (i + k) \<Longrightarrow> k < length fs \<Longrightarrow> \<exists>r. fuzzy_files cancel word i res cap oob fs = Inl r"
proof (induction fs arbitrary: i k res cap oob)
  case (Cons f fs)
  then show ?case
  proof (cases k)
    case (Suc j)
    then show ?thesis using Cons.prems Cons.IH [of "Suc i" j]
      by (cases "fuzzy_entry word f") (simp_all add: Let_def)
  qed simp
qed simp

lemma sanitize_word_no_space: "CHR '' '' \<notin> set (sanitize_word w)"
  by (simp add: sanitize_word_def)

lemma fuzzy_entry_sound:
  assumes "fuzzy_entry (sanitize_word w) f = Some e"
  shows "subseq (lower (sanitize_word w)) (lower (cstr (file_name f))) \<and> file_path e = file_path f"
proof -
  let ?line = "cstr (file_name f)"
  obtain score n sh where m: "fuzzy_match (sanitize_word w) ?line (f_len f) (replicate (length ?line) (CHR ''0'')) = (score, n, sh)"
    by (cases "fuzzy_match (sanitize_word w) ?line (f_len f) (replicate (length ?line) (CHR ''0''))")
  with assms have "score \<noteq> 0" "file_path e = file_path f"
    by (auto simp: fuzzy_entry_def Let_def word_gt_0 split: if_splits)
  with m fuzzy_words_sound [OF sanitize_word_no_space, of "sanitize_word w" ?line "f_len f" w 0
      "\<lparr> recursion_count = 0, fz_pos = replicate (length ?line) (CHR ''0'') \<rparr>"] show ?thesis
    by (simp add: fuzzy_match_def)
qed

lemma fuzzy_hits_sound: "e \<in> set (fuzzy_hits (sanitize_word w) files) \<Longrightarrow>
    \<exists>f\<in>set files. file_path e = file_path f \<and> subseq (lower (sanitize_word w)) (lower (cstr (file_name f)))"
proof -
  assume "e \<in> set (fuzzy_hits (sanitize_word w) files)"
  then obtain f where "f \<in> set files" "fuzzy_entry (sanitize_word w) f = Some e"
    by (auto simp: fuzzy_hits_def List.map_filter_def)
  with fuzzy_entry_sound show ?thesis by blast
qed

lemma fuzzy_response_message:
  "snd (start_fuzzy_response qs cancel kw cmd files seq) =
     (if list_all (\<lambda>i. \<not> cancel i) [0..<length files]
      then Some (send_res_from_file_info cmd (qs result_compare (fuzzy_hits (sanitize_word kw) files)) seq) else None)"
proof (cases "list_all (\<lambda>i. \<not> cancel i) [0..<length files]")
  case True
  then have "fuzzy_files cancel (sanitize_word kw) 0 [] INITIAL_RES_NUM False files =
      fuzzy_files (\<lambda>_. False) (sanitize_word kw) 0 [] INITIAL_RES_NUM False files"
    by (intro fuzzy_files_uncancelled) (auto simp: list_all_iff)
  moreover obtain cap where "fuzzy_files (\<lambda>_. False) (sanitize_word kw) 0 [] INITIAL_RES_NUM False files =
      Inr (fuzzy_hits (sanitize_word kw) files, cap, False)"
    using fuzzy_files_hits [of INITIAL_RES_NUM "[]" "sanitize_word kw" 0 files] by (auto simp: INITIAL_RES_NUM_def)
  ultimately show ?thesis using True by (simp add: start_fuzzy_response_def)
next
  case False
  then obtain k where "k < length files" "cancel (0 + k)" by (auto simp: list_all_iff)
  then obtain r where "fuzzy_files cancel (sanitize_word kw) 0 [] INITIAL_RES_NUM False files = Inl r"
    using fuzzy_files_cancelled by blast
  with False show ?thesis by (simp add: start_fuzzy_response_def)
qed

text \<open>
  C24: A search that is not cancelled answers with the best of the matching files: the files with a score above zero, in some order in which
  the scores descend, make a list of which the message shows the first hundred (\<open>MAX_RESPONSE_LINES\<close>), so that no file it
  leaves out has a higher score than one it shows; and every file in the list has a name of which the search word without its
  spaces is a subsequence in any case of letters. A search that is cancelled sends nothing.
\<close>

lemma fuzzy_response_lists_matches:
  assumes "qsort_ok qs result_compare"
  shows "\<exists>res. snd (start_fuzzy_response qs cancel kw cmd files seq) =
      (if list_all (\<lambda>i. \<not> cancel i) [0..<length files]
       then Some (send_res_from_file_info cmd (take MAX_RESPONSE_LINES res) seq) else None) \<and>
    mset res = mset (fuzzy_hits (sanitize_word kw) files) \<and>
    sorted_wrt (\<lambda>a b. fuzzy_score a \<ge> fuzzy_score b) res \<and>
    list_all (\<lambda>e. list_ex (\<lambda>f. file_path e = file_path f \<and>
        subseq (lower (sanitize_word kw)) (lower (cstr (file_name f)))) files) res"
proof -
  let ?hits = "fuzzy_hits (sanitize_word kw) files"
  let ?res = "qs result_compare ?hits"
  have m: "mset ?res = mset ?hits" using assms by (simp add: qsort_ok_def)
  have s: "sorted_wrt (\<lambda>a b. fuzzy_score a \<ge> fuzzy_score b) ?res"
    using assms unfolding result_compare_key by (rule qsort_ok_sorted)
  have "list_all (\<lambda>e. list_ex (\<lambda>f. file_path e = file_path f \<and>
        subseq (lower (sanitize_word kw)) (lower (cstr (file_name f)))) files) ?hits"
    by (auto simp: list_all_iff list_ex_iff dest: fuzzy_hits_sound)
  then have l: "list_all (\<lambda>e. list_ex (\<lambda>f. file_path e = file_path f \<and>
        subseq (lower (sanitize_word kw)) (lower (cstr (file_name f)))) files) ?res"
    by (simp only: list_all_iff mset_eq_setD [OF m])
  have "send_res_from_file_info cmd (take MAX_RESPONSE_LINES ?res) seq = send_res_from_file_info cmd ?res seq"
    by (simp add: send_res_from_file_info_def)
  then show ?thesis using fuzzy_response_message [of qs cancel kw cmd files seq] m s l by (intro exI [of _ ?res]) simp
qed

lemma fuzzy_response_lists_matches_witness:
  "\<exists>res. snd (start_fuzzy_response insertion_qsort (\<lambda>_. False) ''m g'' ''file'' [zero_file_info\<lparr> file_name := ''magit'' \<rparr>] 1) =
      (if list_all (\<lambda>i. \<not> False) [0..<length [zero_file_info\<lparr> file_name := ''magit'' \<rparr>]]
       then Some (send_res_from_file_info ''file'' (take MAX_RESPONSE_LINES res) 1) else None) \<and>
    mset res = mset (fuzzy_hits (sanitize_word ''m g'') [zero_file_info\<lparr> file_name := ''magit'' \<rparr>]) \<and>
    sorted_wrt (\<lambda>a b. fuzzy_score a \<ge> fuzzy_score b) res \<and>
    list_all (\<lambda>e. list_ex (\<lambda>f. file_path e = file_path f \<and>
        subseq (lower (sanitize_word ''m g'')) (lower (cstr (file_name f)))) [zero_file_info\<lparr> file_name := ''magit'' \<rparr>]) res"
  by (rule fuzzy_response_lists_matches) (simp add: result_compare_key qsort_ok_insertion)

end
