(* ===== verification/Search.thy ===== *)
theory Search
  imports Fuzzy
begin

text \<open>
  The jobs of the editor server: the flags of \<open>src/src/json_msg_handler.c\<close>, the request
  that is queued for the worker thread (\<open>search_data_t\<close> of \<open>src/src/fuzzy.h\<close>) and the
  file cache of \<open>src/src/search_helper.c\<close>.
\<close>

section \<open>The flags\<close>

record job_flags =
  jf_cancel :: bool
  jf_job :: bool

definition init_flags :: job_flags where
  "init_flags = \<lparr> jf_cancel = False, jf_job = False \<rparr>"

definition is_cancel_requested :: "job_flags \<Rightarrow> bool" where "is_cancel_requested js = jf_cancel js"
definition is_job_ongoing :: "job_flags \<Rightarrow> bool" where "is_job_ongoing js = jf_job js"
definition reset_cancel :: "job_flags \<Rightarrow> job_flags" where "reset_cancel js = js\<lparr> jf_cancel := False \<rparr>"
definition job_started :: "job_flags \<Rightarrow> job_flags" where "job_started js = js\<lparr> jf_job := True \<rparr>"
definition job_done :: "job_flags \<Rightarrow> job_flags" where "job_done js = js\<lparr> jf_job := False \<rparr>"

lemmas flag_defs = is_cancel_requested_def is_job_ongoing_def reset_cancel_def job_started_def job_done_def

section \<open>The queued request\<close>

text \<open>
  The arrays are represented by the strings that were copied into them, the pointer to a cache by the
  entries of the cache.
\<close>

record search_data =
  sd_cmd :: string
  sd_value :: string
  sd_list_cmd :: string
  sd_mru_path :: string
  sd_yank_path :: string
  sd_file_info :: "file_info list"
  sd_file_info_len :: nat
  sd_seq :: int

definition empty_search_data :: search_data where
  "empty_search_data =
     \<lparr> sd_cmd = [], sd_value = [], sd_list_cmd = [], sd_mru_path = [], sd_yank_path = [], sd_file_info = [],
       sd_file_info_len = 0, sd_seq = 0 \<rparr>"

text \<open>The sizes of the arrays.\<close>

definition CMD_SIZE :: nat where "CMD_SIZE = 32"
definition VALUE_SIZE :: nat where "VALUE_SIZE = 255"
definition LIST_CMD_SIZE :: nat where "LIST_CMD_SIZE = 255"

text \<open>
  The end of every queue function: \<open>uv_queue_work\<close> answers \<open>ret\<close>; the request is handed over, or freed and the
  job flag cleared.
\<close>

definition submit :: "int \<Rightarrow> search_data \<Rightarrow> job_flags \<Rightarrow> int \<times> job_flags \<times> search_data option" where
  "submit ret d js = (if ret \<noteq> 0 then (- 1, job_done js, None) else (0, js, Some d))"

section \<open>The file cache\<close>

text \<open>
  The static variables: the entries of the current array that have been written, the length that is taken for
  valid, whether an array has been allocated, and how many arrays were lost without being freed.
\<close>

record file_cache =
  g_f_cache :: "file_info list"
  g_f_cache_len :: nat
  fc_allocated :: bool
  fc_leaked :: nat

definition init_cache :: file_cache where
  "init_cache = \<lparr> g_f_cache = [], g_f_cache_len = 0, fc_allocated = False, fc_leaked = 0 \<rparr>"

definition INITIAL_CACHE_SIZE :: nat where "INITIAL_CACHE_SIZE = 5000"

definition deinit_file :: "file_cache \<Rightarrow> file_cache" where
  "deinit_file c = c\<lparr> g_f_cache := [], fc_allocated := False \<rparr>"

text \<open>
  \<open>init_file\<close>: \<open>out\<close> is the output of the listing command, or \<open>None\<close> if \<open>popen\<close> fails. The result is the
  cache, the message sent, and whether an access was outside of an array.
\<close>

definition init_file :: "string \<Rightarrow> string option \<Rightarrow> int \<Rightarrow> file_cache \<Rightarrow> file_cache \<times> string option \<times> bool" where
  "init_file cmd out seq c =
     (let c = (if g_f_cache_len c > 0 then deinit_file c else c);
          c = c\<lparr> g_f_cache := [], fc_leaked := fc_leaked c + (if fc_allocated c then 1 else 0), fc_allocated := True \<rparr>
      in case out of
           None \<Rightarrow> (c, None, False)
         | Some text \<Rightarrow>
             let (files, _, oob) = load_lines_from_fp_to_file_info (cstr cmd = ''init_path'') INITIAL_CACHE_SIZE text
             in (c\<lparr> g_f_cache := files, g_f_cache_len := length files \<rparr>,
                 Some (send_res_from_file_info ''file'' files seq), oob))"

text \<open>
  What the worker thread does with a search over a cache: an entry that was never written is read if the
  length is larger than the array's written part, which is an error (\<open>None\<close>).
\<close>

definition search_cache :: "((file_info \<Rightarrow> file_info \<Rightarrow> int) \<Rightarrow> file_info list \<Rightarrow> file_info list) \<Rightarrow> (nat \<Rightarrow> bool) \<Rightarrow>
    string \<Rightarrow> search_data \<Rightarrow> (nat \<times> string option) option" where
  "search_cache qs cancel cmd d =
     (if sd_file_info_len d > length (sd_file_info d) then None
      else Some (start_fuzzy_response qs cancel (sd_value d) cmd (take (sd_file_info_len d) (sd_file_info d)) (sd_seq d)))"

text \<open>The worker function: the cache, the message, and whether the memory was respected.\<close>

definition fuzzy_file_search :: "((file_info \<Rightarrow> file_info \<Rightarrow> int) \<Rightarrow> file_info list \<Rightarrow> file_info list) \<Rightarrow> (nat \<Rightarrow> bool) \<Rightarrow>
    string option \<Rightarrow> search_data \<Rightarrow> file_cache \<Rightarrow> file_cache \<times> string option \<times> bool" where
  "fuzzy_file_search qs cancel out d c =
     (if cstr (sd_value d) = [] then
        (case init_file (sd_cmd d) out (sd_seq d) c of (c, msg, oob) \<Rightarrow> (c, msg, \<not> oob))
      else case search_cache qs cancel ''file'' d of
          None \<Rightarrow> (c, None, False)
        | Some (_, msg) \<Rightarrow> (c, msg, True))"

definition after_fuzzy_file_search :: "job_flags \<Rightarrow> job_flags" where
  "after_fuzzy_file_search js = job_done js"

text \<open>
  \<open>queue_search\<close>: the value returned, the flags, the queued request and whether a copy was longer
  than its array; the terminator written at \<open>strlen(value) + 1\<close> needs one byte more.
\<close>

definition queue_search :: "int \<Rightarrow> string \<Rightarrow> string \<Rightarrow> string \<Rightarrow> int \<Rightarrow> file_cache \<Rightarrow> job_flags \<Rightarrow>
    (int \<times> job_flags \<times> search_data option) \<times> bool" where
  "queue_search ret cmd value list_cmd seq c js =
     (let js = job_started js;
          d = empty_search_data\<lparr> sd_value := cstr value, sd_file_info_len := g_f_cache_len c, sd_file_info := g_f_cache c,
                sd_seq := seq, sd_cmd := cstr cmd, sd_list_cmd := cstr list_cmd \<rparr>
      in (submit ret d js,
          length (cstr value) + 2 > VALUE_SIZE \<or> length (cstr cmd) + 1 > CMD_SIZE \<or> length (cstr list_cmd) + 1 > LIST_CMD_SIZE))"

section \<open>Properties\<close>

definition cache_wf :: "file_cache \<Rightarrow> bool" where
  "cache_wf c \<longleftrightarrow> g_f_cache_len c = length (g_f_cache c)"

lemma cache_wf_init: "cache_wf init_cache"
  by (simp add: cache_wf_def init_cache_def)

text \<open>
  The length of the file cache is the number of its entries after a listing exactly if the listing command could be
  started or there was nothing in the cache: when \<open>popen\<close> fails, the old length stays with
  a new array that nothing was written to, and the next search reads it.
\<close>

lemma init_file_keeps_cache_length:
  "(cache_wf (fst (init_file cmd out seq c)) \<longleftrightarrow> out \<noteq> None \<or> g_f_cache_len c = 0) \<and>
   (search_cache qs cancel ''file'' (empty_search_data\<lparr> sd_value := v,
        sd_file_info := g_f_cache (fst (init_file cmd None seq c)),
        sd_file_info_len := g_f_cache_len (fst (init_file cmd None seq c)) \<rparr>) = None \<longleftrightarrow> 0 < g_f_cache_len c)"
  by (cases out) (auto simp: init_file_def cache_wf_def deinit_file_def search_cache_def empty_search_data_def split_beta Let_def)

text \<open>
  Every request to list or search files clears the job flag in the end or hands its data to the worker: when the
  work is queued the flag is set and the request carries the arguments and the cache, and when
  it is not, the flag is clear and nothing is queued. The request's arrays are not exceeded exactly if the
  value has at most 253 bytes, the command 31 and the listing command 254.
\<close>

lemma queue_search_spec:
  "case queue_search ret cmd value list_cmd seq c js of ((r, js', q), overrun) \<Rightarrow>
     (if ret = 0 then r = 0 \<and> is_job_ongoing js' \<and>
          map_option (\<lambda>d. (sd_cmd d, sd_value d, sd_list_cmd d, sd_file_info d, sd_file_info_len d, sd_seq d)) q =
            Some (cstr cmd, cstr value, cstr list_cmd, g_f_cache c, g_f_cache_len c, seq)
      else r = - 1 \<and> \<not> is_job_ongoing js' \<and> q = None) \<and>
     is_cancel_requested js' = is_cancel_requested js \<and>
     (overrun \<longleftrightarrow> \<not> (length (cstr value) \<le> 253 \<and> length (cstr cmd) \<le> 31 \<and> length (cstr list_cmd) \<le> 254))"
  by (auto simp: queue_search_def submit_def flag_defs empty_search_data_def Let_def
      VALUE_SIZE_def CMD_SIZE_def LIST_CMD_SIZE_def)

end
