(* ===== verification/Mru.thy ===== *)
theory Mru
  imports Search
begin

text \<open>
  The list of recently used files of \<open>src/src/mru.c\<close>: reading it, updating one entry and writing
  it back. A file is one line \<open>path:score\<close> per entry.
\<close>

section \<open>Numbers\<close>

definition c_isspace :: "char \<Rightarrow> bool" where
  "c_isspace c \<longleftrightarrow> c = CHR '' '' \<or> (9 \<le> (of_char c :: nat) \<and> (of_char c :: nat) \<le> 13)"

text \<open>
  \<open>atoi\<close>: white space, a sign, digits up to the first other byte. The standard leaves a value outside the range of
  \<open>int\<close> undefined; the value here is that of a \<open>strtol\<close> with 64 bits cut to 32.
\<close>

definition c_atoi :: "string \<Rightarrow> int" where
  "c_atoi s =
     (let s = dropWhile c_isspace (cstr s);
          neg = (case s of c # _ \<Rightarrow> c = CHR ''-'' | [] \<Rightarrow> False);
          s = (case s of c # r \<Rightarrow> if c = CHR ''-'' \<or> c = CHR ''+'' then r else s | [] \<Rightarrow> []);
          n = int (read_digits 0 s);
          v = (if neg then max (- n) (- (2 ^ 63)) else min n (2 ^ 63 - 1))
      in sint (word_of_int v :: 32 word))"

section \<open>Reading\<close>

definition MRU_CACHE_SIZE :: nat where "MRU_CACHE_SIZE = 100"

text \<open>
  Why loading does not come to a defined end: a byte is written behind the end of a buffer or of the array,
  or a line has no colon, so that its entry has no path.
\<close>

datatype mru_fault = MruOverflow | MruNoPath

text \<open>
  The variables of the loop: \<open>ml_cur\<close> is the entry being filled, if its path is known, \<open>ml_cap\<close> the static
  \<open>current_size\<close>. The counters are the lengths of the buffers.
\<close>

record mru_loop_state =
  ml_value_mode :: bool
  ml_key :: string
  ml_val :: string
  ml_done :: "file_info list"
  ml_cur :: "file_info option"
  ml_cap :: nat

text \<open>\<open>(char)fgetc(fp)\<close>: at the end of the file the byte 255, again and again.\<close>

definition c_fgetc :: "string \<Rightarrow> char \<times> string" where
  "c_fgetc s = (case s of [] \<Rightarrow> (CHR 0xFF, []) | c # r \<Rightarrow> (c, r))"

definition mru_entry :: "string \<Rightarrow> file_info \<Rightarrow> file_info" where
  "mru_entry key f = f\<lparr> file_path := key, file_name := get_file_name key, f_len := length (get_file_name key) \<rparr>"

text \<open>One iteration: a fault, the end of the loop or the next state.\<close>

datatype mru_step = MruFault mru_fault | MruEnd | MruNext mru_loop_state

definition mru_char :: "char \<Rightarrow> mru_loop_state \<Rightarrow> mru_step" where
  "mru_char c m =
     (if c = CHR '':'' then
        (if length (ml_key m) + 1 \<ge> PATH_MAX then MruFault MruOverflow
         else let cap = (if length (ml_done m) \<ge> ml_cap m then ml_cap m * 2 else ml_cap m)
              in if length (ml_done m) \<ge> cap then MruFault MruOverflow
                 else MruNext (m\<lparr> ml_value_mode := True, ml_cap := cap, ml_key := [],
                        ml_cur := Some (mru_entry (ml_key m) (case ml_cur m of None \<Rightarrow> zero_file_info | Some f \<Rightarrow> f)) \<rparr>))
      else if c = LF then
        (if length (ml_val m) \<ge> PATH_MAX \<or> length (ml_done m) \<ge> ml_cap m then MruFault MruOverflow
         else case ml_cur m of
             None \<Rightarrow> MruFault MruNoPath
           | Some f \<Rightarrow> MruNext (m\<lparr> ml_value_mode := False, ml_val := [], ml_cur := None,
                         ml_done := ml_done m @ [f\<lparr> mru_score := c_atoi (ml_val m) \<rparr>] \<rparr>))
      else if c = NUL then MruEnd
      else if \<not> ml_value_mode m then
        (if length (ml_key m) \<ge> PATH_MAX then MruFault MruOverflow else MruNext (m\<lparr> ml_key := ml_key m @ [c] \<rparr>))
      else
        (if length (ml_val m) \<ge> PATH_MAX then MruFault MruOverflow else MruNext (m\<lparr> ml_val := ml_val m @ [c] \<rparr>)))"

text \<open>What a byte other than colon, line feed and NUL does.\<close>

definition mru_put :: "char \<Rightarrow> mru_loop_state \<Rightarrow> mru_loop_state" where
  "mru_put c m = (if ml_value_mode m then m\<lparr> ml_val := ml_val m @ [c] \<rparr> else m\<lparr> ml_key := ml_key m @ [c] \<rparr>)"

definition mru_room :: "mru_loop_state \<Rightarrow> nat" where
  "mru_room m = (PATH_MAX - length (ml_key m)) + (PATH_MAX - length (ml_val m))"

lemma mru_char_plain: "c \<noteq> CHR '':'' \<Longrightarrow> c \<noteq> LF \<Longrightarrow> c \<noteq> NUL \<Longrightarrow>
    mru_char c m = (if length (if ml_value_mode m then ml_val m else ml_key m) \<ge> PATH_MAX then MruFault MruOverflow
      else MruNext (mru_put c m))"
  by (simp add: mru_char_def mru_put_def)

lemma mru_room_put: "c \<noteq> CHR '':'' \<Longrightarrow> c \<noteq> LF \<Longrightarrow> c \<noteq> NUL \<Longrightarrow> mru_char c m = MruNext m' \<Longrightarrow> mru_room m' < mru_room m"
  by (auto simp: mru_char_plain mru_put_def mru_room_def split: if_splits)

lemma mru_room_eof: "mru_char (CHR 0xFF) m = MruNext m' \<Longrightarrow> mru_room m' < mru_room m"
  by (rule mru_room_put) simp_all

function mru_loop :: "string \<Rightarrow> mru_loop_state \<Rightarrow> (mru_fault, mru_loop_state) sum" where
  "mru_loop s m =
     (case c_fgetc s of (c, r) \<Rightarrow>
        case mru_char c m of
          MruFault f \<Rightarrow> Inl f
        | MruEnd \<Rightarrow> Inr m
        | MruNext m' \<Rightarrow> mru_loop r m')"
  by pat_completeness auto
termination
  by (relation "measures [\<lambda>(s, _). length s, \<lambda>(_, m). mru_room m]")
    (auto simp: c_fgetc_def dest: mru_room_eof split: list.splits)

declare mru_loop.simps [simp del]

definition mru_start :: "nat \<Rightarrow> mru_loop_state" where
  "mru_start cap = \<lparr> ml_value_mode = False, ml_key = [], ml_val = [], ml_done = [], ml_cur = None, ml_cap = cap \<rparr>"

text \<open>\<open>load_mru_to_file_info\<close> for an array that is allocated first: the entries and the static size.\<close>

definition load_mru_to_file_info :: "nat \<Rightarrow> string \<Rightarrow> (mru_fault, file_info list \<times> nat) sum" where
  "load_mru_to_file_info cap s =
     (case mru_loop s (mru_start cap) of Inl f \<Rightarrow> Inl f | Inr m \<Rightarrow> Inr (ml_done m, ml_cap m))"

text \<open>Only a NUL byte ends the loop.\<close>

lemma mru_char_end: "mru_char c m = MruEnd \<Longrightarrow> c = NUL"
  by (auto simp: mru_char_def Let_def split: if_splits option.splits)

lemma mru_loop_needs_NUL: "mru_loop s m = Inr m' \<Longrightarrow> NUL \<in> set s"
proof (induction s m rule: mru_loop.induct)
  case (1 s m)
  obtain c r where c: "c_fgetc s = (c, r)" by (cases "c_fgetc s")
  show ?case
  proof (cases "mru_char c m")
    case (MruNext n)
    with 1 c have "NUL \<in> set r" by (simp add: mru_loop.simps [of s m])
    with c show ?thesis by (cases s) (auto simp: c_fgetc_def)
  next
    case MruEnd
    then have "c = NUL" by (rule mru_char_end)
    with c show ?thesis by (cases s) (auto simp: c_fgetc_def)
  next
    case (MruFault f)
    with 1 c show ?thesis by (simp add: mru_loop.simps [of s m])
  qed
qed

section \<open>Updating\<close>

definition mru_score_cmp :: "file_info \<Rightarrow> file_info \<Rightarrow> int" where
  "mru_score_cmp s1 s2 =
     (let v1 = mru_score s1; v2 = mru_score s2 in if v1 = v2 then 0 else if v1 > v2 then - 1 else 1)"

lemma mru_score_cmp_key: "mru_score_cmp = desc_compare mru_score"
  by (intro ext) (simp add: mru_score_cmp_def desc_compare_def Let_def)

text \<open>The loop that raises the score of every entry with the path, and the new entry if there is none.\<close>

definition raise_score :: "string \<Rightarrow> file_info list \<Rightarrow> file_info list" where
  "raise_score path fs = map (\<lambda>f. if cstr (file_path f) = path then f\<lparr> mru_score := mru_score f + 1 \<rparr> else f) fs"

definition update_mru :: "string \<Rightarrow> file_info list \<Rightarrow> file_info list" where
  "update_mru path fs =
     (if list_ex (\<lambda>f. cstr (file_path f) = path) fs then raise_score path fs
      else fs @ [zero_file_info\<lparr> mru_score := 1, file_path := path \<rparr>])"

definition mru_line :: "file_info \<Rightarrow> string" where
  "mru_line f = cstr (file_path f) @ '':'' @ decimal_int (mru_score f) @ [LF]"

text \<open>
  \<open>write_mru\<close>: \<open>content\<close> is what the file holds (\<open>None\<close> if it cannot be opened or created), \<open>writable\<close> the answer of the
  second \<open>fopen\<close>. The number of entries, the new content, if it was written, and the static \<open>current_size\<close>.
\<close>

definition write_mru :: "((file_info \<Rightarrow> file_info \<Rightarrow> int) \<Rightarrow> file_info list \<Rightarrow> file_info list) \<Rightarrow> nat \<Rightarrow> string option \<Rightarrow> bool \<Rightarrow>
    string \<Rightarrow> (mru_fault, nat \<times> string option \<times> nat) sum" where
  "write_mru qs cap content writable path =
     (case content of
        None \<Rightarrow> Inr (0, None, cap)
      | Some s \<Rightarrow>
          case load_mru_to_file_info cap s of
            Inl f \<Rightarrow> Inl f
          | Inr (fs, cap) \<Rightarrow>
              let fs = qs mru_score_cmp (update_mru (cstr path) fs)
              in if \<not> writable then Inr (0, None, cap)
                 else Inr (length fs, Some (concat (map mru_line fs)), cap))"

section \<open>The cache\<close>

record mru_cache =
  g_mru_cache :: "file_info list option"
  g_mru_len :: nat
  mru_size :: nat

definition init_mru_cache :: mru_cache where
  "init_mru_cache = \<lparr> g_mru_cache = None, g_mru_len = 0, mru_size = MRU_CACHE_SIZE \<rparr>"

definition deinit_mru :: "mru_cache \<Rightarrow> mru_cache" where
  "deinit_mru c = (if g_mru_cache c \<noteq> None then c\<lparr> g_mru_cache := None, g_mru_len := 0 \<rparr> else c)"

text \<open>
  \<open>init_mru\<close>: \<open>exists_file\<close> is the answer of \<open>access\<close>, \<open>content\<close> what is read if the file can be opened. The
  value returned, the cache and the message.
\<close>

definition init_mru :: "bool \<Rightarrow> string option \<Rightarrow> int \<Rightarrow> mru_cache \<Rightarrow> (mru_fault, int \<times> mru_cache \<times> string option) sum" where
  "init_mru exists_file content seq c =
     (let c = deinit_mru c
      in if \<not> exists_file then Inr (- 1, c, Some (send_res_from_file_info ''mru'' [] seq))
         else case content of
             None \<Rightarrow> Inr (- 1, c, None)
           | Some s \<Rightarrow>
               case load_mru_to_file_info (mru_size c) s of
                 Inl f \<Rightarrow> Inl f
               | Inr (fs, cap) \<Rightarrow>
                   Inr (int (length fs), \<lparr> g_mru_cache = Some fs, g_mru_len = length fs, mru_size = cap \<rparr>,
                        if fs \<noteq> [] then Some (send_res_from_file_info ''mru'' fs seq) else None))"

text \<open>The worker function; a search reads the cache that was current when it was queued.\<close>

definition fuzzy_mru_search :: "((file_info \<Rightarrow> file_info \<Rightarrow> int) \<Rightarrow> file_info list \<Rightarrow> file_info list) \<Rightarrow> (nat \<Rightarrow> bool) \<Rightarrow> bool \<Rightarrow>
    string option \<Rightarrow> search_data \<Rightarrow> mru_cache \<Rightarrow> (mru_fault, mru_cache \<times> string option) sum" where
  "fuzzy_mru_search qs cancel exists_file content d c =
     (if cstr (sd_value d) = [] then
        (case init_mru exists_file content (sd_seq d) c of Inl f \<Rightarrow> Inl f | Inr (_, c, msg) \<Rightarrow> Inr (c, msg))
      else case search_cache qs cancel ''mru'' d of
          None \<Rightarrow> Inl MruOverflow
        | Some (_, msg) \<Rightarrow> Inr (c, msg))"

definition after_fuzzy_mru_search :: "job_flags \<Rightarrow> job_flags" where
  "after_fuzzy_mru_search js = job_done js"

definition queue_mru_search :: "int \<Rightarrow> string \<Rightarrow> string \<Rightarrow> int \<Rightarrow> mru_cache \<Rightarrow> job_flags \<Rightarrow>
    (int \<times> job_flags \<times> search_data option) \<times> bool" where
  "queue_mru_search ret value mru_path seq c js =
     (let js = job_started js;
          d = empty_search_data\<lparr> sd_value := cstr value, sd_file_info_len := g_mru_len c,
                sd_file_info := (case g_mru_cache c of None \<Rightarrow> [] | Some fs \<Rightarrow> fs), sd_seq := seq, sd_mru_path := cstr mru_path \<rparr>
      in (submit ret d js, length (cstr value) + 2 > VALUE_SIZE \<or> length (cstr mru_path) + 1 > PATH_MAX))"


section \<open>Properties\<close>

lemma mru_line_no_NUL: "NUL \<notin> set (mru_line f)"
proof -
  have "NUL \<notin> set (decimal n)" for n by (rule decimal_no) (simp add: char_digit_def)
  then show ?thesis by (simp add: mru_line_def decimal_int_def)
qed

text \<open>
  What is written is never read back: \<open>write_mru\<close> writes no NUL byte, and a list without one cannot be loaded, because only
  that byte ends the loop and the end of the file is read as the byte 255 until a buffer overflows.
\<close>

lemma written_mru_is_not_readable:
  "case write_mru qs cap content writable path of
     Inl _ \<Rightarrow> True
   | Inr (n, text, _) \<Rightarrow> (case text of None \<Rightarrow> n = 0 | Some t \<Rightarrow> isl (load_mru_to_file_info cap' t))"
proof -
  have "isl (load_mru_to_file_info cap' (concat (map mru_line fs)))" for fs
    using mru_loop_needs_NUL [of "concat (map mru_line fs)" "mru_start cap'"] mru_line_no_NUL
    by (auto simp: load_mru_to_file_info_def split: sum.split)
  then show ?thesis by (simp add: write_mru_def Let_def split: option.split sum.split)
qed

subsection \<open>Lists with a terminator\<close>

definition mru_ok :: "file_info \<Rightarrow> bool" where
  "mru_ok f \<longleftrightarrow> list_all (\<lambda>c. c \<noteq> CHR '':'' \<and> c \<noteq> LF \<and> c \<noteq> NUL) (file_path f) \<and> length (file_path f) + 1 < PATH_MAX \<and>
     - (2 ^ 31) \<le> mru_score f \<and> mru_score f < 2 ^ 31"

lemma mru_loop_next: "mru_char c m = MruNext m' \<Longrightarrow> mru_loop (c # s) m = mru_loop s m'"
  by (subst mru_loop.simps) (simp add: c_fgetc_def)

lemma mru_loop_plain:
  "list_all (\<lambda>c. c \<noteq> CHR '':'' \<and> c \<noteq> LF \<and> c \<noteq> NUL) p \<Longrightarrow>
   length (if ml_value_mode m then ml_val m else ml_key m) + length p \<le> PATH_MAX \<Longrightarrow>
   mru_loop (p @ s) m = mru_loop s
     (if ml_value_mode m then m\<lparr> ml_val := ml_val m @ p \<rparr> else m\<lparr> ml_key := ml_key m @ p \<rparr>)"
proof (induction p arbitrary: m)
  case (Cons c p)
  have "mru_char c m = MruNext (mru_put c m)" using Cons.prems by (auto simp: mru_char_plain split: if_splits)
  from mru_loop_next [OF this] show ?case
    using Cons.IH [of "mru_put c m"] Cons.prems by (simp add: mru_put_def split: if_splits)
qed simp

lemma sint_int32: "- (2 ^ 31) \<le> n \<Longrightarrow> n < 2 ^ 31 \<Longrightarrow> sint (word_of_int n :: 32 word) = n"
  by (simp add: signed_of_int signed_take_bit_int_eq_self)

lemma c_atoi_decimal:
  assumes "- (2 ^ 31) \<le> n" "n < 2 ^ 31"
  shows "c_atoi (decimal_int n) = n"
proof -
  have d: "cstr (decimal_int n) = decimal_int n" for n
    using decimal_no [of NUL] by (intro cstr_id) (simp add: decimal_int_def char_digit_def)
  have w: "dropWhile c_isspace (decimal_int n) = decimal_int n" for n
  proof (cases "decimal_int n")
    case (Cons c r)
    then have "c \<in> set (decimal_int n)" by simp
    then have "c = CHR ''-'' \<or> char_digit c \<noteq> None"
      by (auto simp: decimal_int_def dest: decimal_digits split: if_splits)
    then have "\<not> c_isspace c" by (auto simp: c_isspace_def char_digit_def split: if_splits)
    with Cons show ?thesis by simp
  qed simp
  have h: "case decimal k of c # _ \<Rightarrow> c \<noteq> CHR ''-'' \<and> c \<noteq> CHR ''+'' | [] \<Rightarrow> True" for k
  proof (cases "decimal k")
    case (Cons c r)
    then have "char_digit c \<noteq> None" by (intro decimal_digits [of c k]) simp
    with Cons show ?thesis by (auto simp: char_digit_def split: if_splits)
  qed simp
  show ?thesis
  proof (cases "n < 0")
    case True
    with assms d [of n] w [of n] show ?thesis
      by (simp add: c_atoi_def Let_def) (simp add: decimal_int_def read_decimal_aux max_def sint_int32)
  next
    case False
    obtain c r where c: "decimal (nat n) = c # r" by (cases "decimal (nat n)") auto
    have "c \<noteq> CHR ''-''" "c \<noteq> CHR ''+''" using h [of "nat n"] c by auto
    moreover have "read_digits 0 (c # r) = nat n" using read_decimal_aux [of "nat n"] c by simp
    moreover have "decimal_int n = c # r" using False c by (simp add: decimal_int_def)
    ultimately show ?thesis using False assms d [of n] w [of n] sint_int32 [of n]
      by (simp add: c_atoi_def Let_def min_def del: read_digits.simps)
  qed
qed


lemma c_atoi_prefix:
  assumes "n < 2 ^ 31" "NUL \<notin> set r" "r = [] \<or> char_digit (hd r) = None"
  shows "c_atoi (decimal n @ r) = int n"
proof -
  obtain c s where c: "decimal n = c # s" by (cases "decimal n") auto
  have "NUL \<notin> set (decimal n)" by (rule decimal_no) (simp add: char_digit_def)
  with assms(2) have "cstr (decimal n @ r) = decimal n @ r" by simp
  moreover have "char_digit c \<noteq> None" using decimal_digits [of c n] c by simp
  then have "\<not> c_isspace c" "c \<noteq> CHR ''-''" "c \<noteq> CHR ''+''"
    by (auto simp: c_isspace_def char_digit_def split: if_splits)
  moreover have "read_digits 0 (decimal n @ r) = n" using assms(3) by (rule read_decimal)
  ultimately show ?thesis using assms(1) c sint_int32 [of "int n"]
    by (simp add: c_atoi_def Let_def min_def del: read_digits.simps)
qed

text \<open>The state at the beginning of a line, and the entry that a line becomes.\<close>

definition mru_at :: "file_info list \<Rightarrow> nat \<Rightarrow> mru_loop_state" where
  "mru_at fs cap = (mru_start cap)\<lparr> ml_done := fs \<rparr>"

definition mru_read :: "file_info \<Rightarrow> file_info" where
  "mru_read f = (mru_entry (file_path f) zero_file_info)\<lparr> mru_score := mru_score f \<rparr>"

definition mru_grow :: "nat \<Rightarrow> nat \<Rightarrow> nat" where
  "mru_grow n cap = (if n \<ge> cap then cap * 2 else cap)"

lemma decimal_int_plain: "list_all (\<lambda>c. c \<noteq> CHR '':'' \<and> c \<noteq> LF \<and> c \<noteq> NUL) (decimal_int n)"
  using decimal_no [of "CHR '':''"] decimal_no [of LF] decimal_no [of NUL]
  by (auto simp: list_all_iff decimal_int_def char_digit_def)

lemma length_decimal_int: "- (2 ^ 31) \<le> n \<Longrightarrow> n < 2 ^ 31 \<Longrightarrow> length (decimal_int n) \<le> 11"
proof -
  assume n: "- (2 ^ 31) \<le> n" "n < 2 ^ 31"
  have "length (decimal (nat \<bar>n\<bar>)) \<le> 10"
    by (rule length_decimal_less) (use n in \<open>simp_all add: nat_less_iff\<close>)
  then show ?thesis by (auto simp: decimal_int_def split: if_splits)
qed

lemma mru_loop_line:
  assumes "mru_ok f" "length fs \<le> cap" "0 < cap"
  shows "mru_loop (mru_line f @ s) (mru_at fs cap) = mru_loop s (mru_at (fs @ [mru_read f]) (mru_grow (length fs) cap))"
proof -
  let ?d = "decimal_int (mru_score f)"
  let ?cap = "mru_grow (length fs) cap"
  have p: "NUL \<notin> set (file_path f)" and l: "length (file_path f) + 1 < PATH_MAX"
    and a: "list_all (\<lambda>c. c \<noteq> CHR '':'' \<and> c \<noteq> LF \<and> c \<noteq> NUL) (file_path f)"
    and s: "c_atoi ?d = mru_score f" and d: "length ?d \<le> 11"
    using assms(1) c_atoi_decimal length_decimal_int by (auto simp: mru_ok_def list_all_iff)
  have room: "length fs < ?cap" using assms(2,3) by (auto simp: mru_grow_def)
  let ?m1 = "(mru_at fs cap)\<lparr> ml_key := file_path f \<rparr>"
  let ?m2 = "(mru_at fs ?cap)\<lparr> ml_value_mode := True, ml_cur := Some (mru_entry (file_path f) zero_file_info) \<rparr>"
  have "mru_loop (file_path f @ CHR '':'' # ?d @ LF # s) (mru_at fs cap) = mru_loop (CHR '':'' # ?d @ LF # s) ?m1"
    using l by (subst mru_loop_plain [OF a]) (simp_all add: mru_at_def mru_start_def)
  also have "mru_char (CHR '':'') ?m1 = MruNext ?m2"
    using l room by (auto simp: mru_char_def mru_at_def mru_start_def mru_grow_def Let_def)
  then have "mru_loop (CHR '':'' # ?d @ LF # s) ?m1 = mru_loop (?d @ LF # s) ?m2"
    by (rule mru_loop_next)
  also have "\<dots> = mru_loop (LF # s) (?m2\<lparr> ml_val := ?d \<rparr>)"
    using d by (subst mru_loop_plain [OF decimal_int_plain]) (simp_all add: mru_at_def mru_start_def PATH_MAX_def)
  also have "mru_char LF (?m2\<lparr> ml_val := ?d \<rparr>) = MruNext (mru_at (fs @ [mru_read f]) ?cap)"
    using d room s by (simp add: mru_char_def mru_at_def mru_start_def mru_read_def PATH_MAX_def)
  then have "mru_loop (LF # s) (?m2\<lparr> ml_val := ?d \<rparr>) = mru_loop s (mru_at (fs @ [mru_read f]) ?cap)"
    by (rule mru_loop_next)
  finally show ?thesis using p by (simp add: mru_line_def)
qed

lemma mru_loop_lines:
  "list_all mru_ok es \<Longrightarrow> length fs \<le> cap \<Longrightarrow> 0 < cap \<Longrightarrow>
   \<exists>cap'. mru_loop (concat (map mru_line es) @ s) (mru_at fs cap) = mru_loop s (mru_at (fs @ map mru_read es) cap')"
proof (induction es arbitrary: fs cap)
  case Nil
  then show ?case by auto
next
  case (Cons f es)
  have "length (fs @ [mru_read f]) \<le> mru_grow (length fs) cap" "0 < mru_grow (length fs) cap"
    using Cons.prems by (auto simp: mru_grow_def)
  from Cons.IH [OF _ this] Cons.prems show ?case by (auto simp: mru_loop_line)
qed

text \<open>
  A list that ends with a NUL byte is read back entry by entry: every entry gets its path, the name behind the last
  slash and its score, for any number of entries with paths without colon and line feed that fit the buffer
  and scores of 32 bits, whatever follows the NUL byte.
\<close>

lemma mru_list_roundtrip:
  assumes "list_all mru_ok fs" "0 < cap"
  shows "map_sum (\<lambda>f. f) fst (load_mru_to_file_info cap (concat (map mru_line fs) @ NUL # r)) = Inr (map mru_read fs)"
proof -
  obtain cap' where "mru_loop (concat (map mru_line fs) @ NUL # r) (mru_at [] cap) =
      mru_loop (NUL # r) (mru_at (map mru_read fs) cap')"
    using mru_loop_lines [OF assms(1), of "[]" cap "NUL # r"] assms(2) by auto
  moreover have "mru_at [] cap = mru_start cap" by (simp add: mru_at_def mru_start_def)
  moreover have "mru_loop (NUL # r) (mru_at (map mru_read fs) cap') = Inr (mru_at (map mru_read fs) cap')"
    by (subst mru_loop.simps) (simp add: c_fgetc_def mru_char_def)
  ultimately show ?thesis by (simp add: load_mru_to_file_info_def mru_at_def)
qed

lemma mru_list_roundtrip_witness:
  "map_sum (\<lambda>f. f) fst (load_mru_to_file_info 1 (concat (map mru_line
       [zero_file_info\<lparr> file_path := ''a/b'', mru_score := 12 \<rparr>, zero_file_info\<lparr> file_path := ''c'', mru_score := 1 \<rparr>]) @ NUL # ''x'')) =
   Inr (map mru_read [zero_file_info\<lparr> file_path := ''a/b'', mru_score := 12 \<rparr>, zero_file_info\<lparr> file_path := ''c'', mru_score := 1 \<rparr>])"
  by (rule mru_list_roundtrip) (simp_all add: mru_ok_def zero_file_info_def PATH_MAX_def)

lemma update_mru_scores:
  assumes "cstr path = path"
  shows "map_of (map (\<lambda>f. (cstr (file_path f), mru_score f)) (update_mru path fs)) =
    (map_of (map (\<lambda>f. (cstr (file_path f), mru_score f)) fs))
      (path \<mapsto> (case map_of (map (\<lambda>f. (cstr (file_path f), mru_score f)) fs) path of None \<Rightarrow> 1 | Some n \<Rightarrow> n + 1))"
proof -
  have n: "\<not> list_ex (\<lambda>f. cstr (file_path f) = path) fs \<Longrightarrow> map_of (map (\<lambda>f. (cstr (file_path f), mru_score f)) fs) path = None"
    by (auto simp: list_ex_iff map_of_eq_None_iff)
  have a: "map_of (map (\<lambda>f. (cstr (file_path f), mru_score f)) (raise_score path fs)) =
    (\<lambda>p. map_option (\<lambda>n. if p = path then n + 1 else n) (map_of (map (\<lambda>f. (cstr (file_path f), mru_score f)) fs) p))"
    by (induction fs) (auto simp: raise_score_def fun_eq_iff)
  show ?thesis
  proof (cases "list_ex (\<lambda>f. cstr (file_path f) = path) fs")
    case True
    then obtain n where "map_of (map (\<lambda>f. (cstr (file_path f), mru_score f)) fs) path = Some n"
      by (cases "map_of (map (\<lambda>f. (cstr (file_path f), mru_score f)) fs) path") (auto simp: list_ex_iff map_of_eq_None_iff image_image)
    with True a show ?thesis by (auto simp: update_mru_def fun_eq_iff option.map_ident split: option.split)
  next
    case False
    with n assms show ?thesis
      by (auto simp: update_mru_def fun_eq_iff zero_file_info_def map_add_def split: option.split)
  qed
qed

end
