(* ===== verification/Yank.thy ===== *)
theory Yank
  imports Search
begin

text \<open>
  The list of copied texts of \<open>src/src/yank.c\<close>: the files of a directory, each shown with the beginning of
  its first line, newest first.
\<close>

section \<open>The directory\<close>

text \<open>
  What the system calls answer for an entry: its name, whether it is a regular file and, if it can be
  opened, the time of its last change and the buffer that \<open>getline\<close> allocates, as long as the capacity it
  reports. The buffer begins with the line, followed by a NUL byte and whatever the memory held before.
\<close>

record yank_file =
  yf_mtime :: int
  yf_buffer :: string

record dir_entry =
  d_name :: string
  d_is_reg :: bool
  d_file :: "yank_file option"

definition YANK_CACHE_SIZE :: nat where "YANK_CACHE_SIZE = 100"
definition RESULT_LEN_MAX :: nat where "RESULT_LEN_MAX = PATH_MAX * 2"

text \<open>
  The text of an entry and the length \<open>snprintf\<close> returns: the capacity less one is taken for the length of the
  line, limited to 150; the escaped bytes are printed up to the first NUL byte.
\<close>

definition yank_text :: "string \<Rightarrow> string \<Rightarrow> string \<times> nat" where
  "yank_text name buffer =
     (let len = min (length buffer - 1) 150;
          line = take len buffer;
          escaped = fst (json_escape line);
          text = cstr name @ ''| '' @ cstr escaped
      in (take (RESULT_LEN_MAX - 1) text, length text))"

definition yank_entry :: "string \<Rightarrow> yank_file \<Rightarrow> file_info" where
  "yank_entry name f =
     (let (line, len) = yank_text name (yf_buffer f)
      in if len > 0
         then zero_file_info\<lparr> file_path := line, file_name := line, f_len := len, yank_score := yf_mtime f \<rparr>
         else zero_file_info)"

text \<open>\<open>int v1 = yank_score\<close>: the time is cut to 32 bits before it is compared.\<close>

definition int_of_time :: "int \<Rightarrow> int" where
  "int_of_time t = sint (word_of_int t :: 32 word)"

definition yank_score_cmp :: "file_info \<Rightarrow> file_info \<Rightarrow> int" where
  "yank_score_cmp s1 s2 =
     (let v1 = int_of_time (yank_score s1); v2 = int_of_time (yank_score s2)
      in if v1 = v2 then 0 else if v1 > v2 then - 1 else 1)"

lemma yank_score_cmp_key: "yank_score_cmp = desc_compare (\<lambda>f. int_of_time (yank_score f))"
  by (intro ext) (simp add: yank_score_cmp_def desc_compare_def Let_def)

text \<open>Whether \<open>json_escape\<close> writes behind its buffer for the line of a file.\<close>

definition yank_overrun :: "yank_file \<Rightarrow> bool" where
  "yank_overrun f = snd (json_escape (take (min (length (yf_buffer f) - 1) 150) (yf_buffer f)))"

text \<open>
  The loop over the directory with the entries so far, the static size and whether something was written outside the array or behind
  the buffer of an escaped line.
\<close>

primrec yank_loop :: "file_info list \<Rightarrow> nat \<Rightarrow> bool \<Rightarrow> dir_entry list \<Rightarrow> file_info list \<times> nat \<times> bool" where
  "yank_loop fs cap oob [] = (fs, cap, oob)"
| "yank_loop fs cap oob (e # es) =
     (let cap = (if length fs \<ge> cap then cap * 2 else cap)
      in case (if d_is_reg e then d_file e else None) of
           None \<Rightarrow> yank_loop fs cap oob es
         | Some f \<Rightarrow> yank_loop (fs @ [yank_entry (d_name e) f]) cap (oob \<or> length fs \<ge> cap \<or> yank_overrun f) es)"

text \<open>
  \<open>load_yank_to_file_info\<close>; \<open>None\<close> for the directory if it cannot be opened. The array is sorted without its last
  entry: \<open>qsort\<close> is given \<open>line_counter - 1\<close>, which is the largest \<open>size_t\<close> if nothing was found, so that it runs
  over the end of the array. That, and a line escaped out of its buffer, is \<open>None\<close>.
\<close>

definition load_yank_to_file_info :: "((file_info \<Rightarrow> file_info \<Rightarrow> int) \<Rightarrow> file_info list \<Rightarrow> file_info list) \<Rightarrow> nat \<Rightarrow>
    dir_entry list option \<Rightarrow> (file_info list \<times> nat) option" where
  "load_yank_to_file_info qs cap dir =
     (let (fs, cap, oob) = yank_loop [] cap False (case dir of None \<Rightarrow> [] | Some es \<Rightarrow> es)
      in if fs = [] \<or> oob then None
         else Some (qs yank_score_cmp (take (length fs - 1) fs) @ drop (length fs - 1) fs, cap))"

section \<open>The cache\<close>

record yank_cache =
  g_yank_cache :: "file_info list option"
  g_yank_len :: nat
  yank_size :: nat

definition init_yank_cache :: yank_cache where
  "init_yank_cache = \<lparr> g_yank_cache = None, g_yank_len = 0, yank_size = YANK_CACHE_SIZE \<rparr>"

definition deinit_yank :: "yank_cache \<Rightarrow> yank_cache" where
  "deinit_yank c = (if g_yank_cache c \<noteq> None then c\<lparr> g_yank_cache := None, g_yank_len := 0 \<rparr> else c)"

definition init_yank :: "((file_info \<Rightarrow> file_info \<Rightarrow> int) \<Rightarrow> file_info list \<Rightarrow> file_info list) \<Rightarrow> dir_entry list option \<Rightarrow> int \<Rightarrow>
    yank_cache \<Rightarrow> (int \<times> yank_cache \<times> string option) option" where
  "init_yank qs dir seq c =
     (let c = deinit_yank c
      in case load_yank_to_file_info qs (yank_size c) dir of
           None \<Rightarrow> None
         | Some (fs, cap) \<Rightarrow>
             Some (int (length fs), \<lparr> g_yank_cache = Some fs, g_yank_len = length fs, yank_size = cap \<rparr>,
                   if fs \<noteq> [] then Some (send_res_from_file_info ''yank'' fs seq) else None))"

definition fuzzy_yank_search :: "((file_info \<Rightarrow> file_info \<Rightarrow> int) \<Rightarrow> file_info list \<Rightarrow> file_info list) \<Rightarrow> (nat \<Rightarrow> bool) \<Rightarrow>
    dir_entry list option \<Rightarrow> search_data \<Rightarrow> yank_cache \<Rightarrow> (yank_cache \<times> string option) option" where
  "fuzzy_yank_search qs cancel dir d c =
     (if cstr (sd_value d) = [] then map_option (\<lambda>(_, c, msg). (c, msg)) (init_yank qs dir (sd_seq d) c)
      else map_option (\<lambda>(_, msg). (c, msg)) (search_cache qs cancel ''yank'' d))"

definition after_fuzzy_yank_search :: "job_flags \<Rightarrow> job_flags" where
  "after_fuzzy_yank_search js = job_done js"

definition queue_yank_search :: "int \<Rightarrow> string \<Rightarrow> string \<Rightarrow> int \<Rightarrow> yank_cache \<Rightarrow> job_flags \<Rightarrow>
    (int \<times> job_flags \<times> search_data option) \<times> bool" where
  "queue_yank_search ret value yank_path seq c js =
     (let js = job_started js;
          d = empty_search_data\<lparr> sd_value := cstr value, sd_file_info_len := g_yank_len c,
                sd_file_info := (case g_yank_cache c of None \<Rightarrow> [] | Some fs \<Rightarrow> fs), sd_seq := seq, sd_yank_path := cstr yank_path \<rparr>
      in (submit ret d js, length (cstr value) + 2 > VALUE_SIZE \<or> length (cstr yank_path) + 1 > PATH_MAX))"

section \<open>Properties\<close>

definition yank_entries :: "dir_entry list \<Rightarrow> file_info list" where
  "yank_entries es =
     List.map_filter (\<lambda>e. if d_is_reg e then map_option (yank_entry (d_name e)) (d_file e) else None) es"

definition yank_overruns :: "dir_entry list \<Rightarrow> bool" where
  "yank_overruns es = list_ex (\<lambda>e. case if d_is_reg e then d_file e else None of None \<Rightarrow> False | Some f \<Rightarrow> yank_overrun f) es"

lemma yank_loop_entries:
  "0 < cap \<Longrightarrow> length fs \<le> cap \<Longrightarrow> \<exists>cap'. yank_loop fs cap oob es = (fs @ yank_entries es, cap', oob \<or> yank_overruns es)"
proof (induction es arbitrary: fs cap oob)
  case Nil
  then show ?case by (simp add: yank_entries_def yank_overruns_def map_filter_simps)
next
  case (Cons e es)
  let ?cap = "if length fs \<ge> cap then cap * 2 else cap"
  have room: "0 < ?cap" "length fs \<le> ?cap" "length fs < ?cap" using Cons.prems by auto
  show ?case
  proof (cases "if d_is_reg e then d_file e else None")
    case None
    then have "yank_entries (e # es) = yank_entries es" "yank_overruns (e # es) = yank_overruns es"
      by (auto simp: yank_entries_def yank_overruns_def map_filter_simps split: if_splits)
    with None Cons.IH [OF room(1,2)] show ?thesis by (simp add: Let_def)
  next
    case (Some f)
    then have "yank_entries (e # es) = yank_entry (d_name e) f # yank_entries es"
        "yank_overruns (e # es) \<longleftrightarrow> yank_overrun f \<or> yank_overruns es"
      by (auto simp: yank_entries_def yank_overruns_def map_filter_simps split: if_splits)
    moreover have "length (fs @ [yank_entry (d_name e) f]) \<le> ?cap" "\<not> length fs \<ge> ?cap" using room by auto
    ultimately show ?thesis
      using Some Cons.IH [OF room(1), of "fs @ [yank_entry (d_name e) f]" "oob \<or> yank_overrun f"] by (simp add: Let_def)
  qed
qed

text \<open>
  The entries are the readable regular files of the directory, each once; all but the one found last are sorted, newest
  first by the lower 32 bits of the time, and the one found last stays at the end whatever its
  age. A directory without readable files, or none at all, makes the sort run over the end of the array, and a file whose line consists of
  bytes to escape only makes \<open>json_escape\<close> write behind its buffer.
\<close>

lemma yank_list_sorted_but_last:
  assumes "qsort_ok qs yank_score_cmp" "0 < cap"
  shows "case load_yank_to_file_info qs cap dir of
      None \<Rightarrow> yank_entries (case dir of None \<Rightarrow> [] | Some es \<Rightarrow> es) = [] \<or> yank_overruns (case dir of None \<Rightarrow> [] | Some es \<Rightarrow> es)
    | Some (fs, _) \<Rightarrow>
        yank_entries (case dir of None \<Rightarrow> [] | Some es \<Rightarrow> es) \<noteq> [] \<and>
        mset fs = mset (yank_entries (case dir of None \<Rightarrow> [] | Some es \<Rightarrow> es)) \<and>
        sorted_wrt (\<lambda>a b. int_of_time (yank_score a) \<ge> int_of_time (yank_score b)) (butlast fs) \<and>
        last fs = last (yank_entries (case dir of None \<Rightarrow> [] | Some es \<Rightarrow> es))"
proof -
  let ?es = "case dir of None \<Rightarrow> [] | Some es \<Rightarrow> es"
  let ?fs = "yank_entries ?es"
  obtain cap' where l: "yank_loop [] cap False ?es = (?fs, cap', yank_overruns ?es)"
    using yank_loop_entries [of cap "[]" False ?es] assms(2) by auto
  show ?thesis
  proof (cases "?fs = [] \<or> yank_overruns ?es")
    case True
    with l show ?thesis by (auto simp: load_yank_to_file_info_def)
  next
    case False
    then obtain xs x where x: "?fs = xs @ [x]" and ok: "\<not> yank_overruns ?es" by (cases ?fs rule: rev_cases) auto
    have m: "mset (qs yank_score_cmp xs) = mset xs" using assms(1) by (simp add: qsort_ok_def)
    have s: "sorted_wrt (\<lambda>a b. int_of_time (yank_score a) \<ge> int_of_time (yank_score b)) (qs yank_score_cmp xs)"
      using assms(1) unfolding yank_score_cmp_key by (rule qsort_ok_sorted)
    have "load_yank_to_file_info qs cap dir = Some (qs yank_score_cmp xs @ [x], cap')"
      using l x ok by (simp add: load_yank_to_file_info_def)
    with m s x show ?thesis by simp
  qed
qed

lemma yank_list_sorted_but_last_witness:
  "case load_yank_to_file_info insertion_qsort 100 (Some [\<lparr> d_name = ''a'', d_is_reg = True, d_file = None \<rparr>]) of
      None \<Rightarrow> yank_entries (case Some [\<lparr> d_name = ''a'', d_is_reg = True, d_file = None \<rparr>] of None \<Rightarrow> [] | Some es \<Rightarrow> es) = [] \<or>
        yank_overruns (case Some [\<lparr> d_name = ''a'', d_is_reg = True, d_file = None \<rparr>] of None \<Rightarrow> [] | Some es \<Rightarrow> es)
    | Some (fs, _) \<Rightarrow>
        yank_entries (case Some [\<lparr> d_name = ''a'', d_is_reg = True, d_file = None \<rparr>] of None \<Rightarrow> [] | Some es \<Rightarrow> es) \<noteq> [] \<and>
        mset fs = mset (yank_entries (case Some [\<lparr> d_name = ''a'', d_is_reg = True, d_file = None \<rparr>] of None \<Rightarrow> [] | Some es \<Rightarrow> es)) \<and>
        sorted_wrt (\<lambda>a b. int_of_time (yank_score a) \<ge> int_of_time (yank_score b)) (butlast fs) \<and>
        last fs = last (yank_entries (case Some [\<lparr> d_name = ''a'', d_is_reg = True, d_file = None \<rparr>] of None \<Rightarrow> [] | Some es \<Rightarrow> es))"
  by (rule yank_list_sorted_but_last) (simp_all add: yank_score_cmp_key qsort_ok_insertion)

text \<open>The bytes behind the line do not show, because escaping keeps the NUL byte and printing stops there.\<close>

lemma cstr_escape: "cstr (concat (map escape_char s)) = concat (map escape_char (cstr s))"
proof (induction s)
  case (Cons c s)
  show ?case
  proof (cases "c = NUL")
    case True
    then have "escape_char c = [NUL]" by (simp add: escape_char_def is_lead_def)
    with True show ?thesis by (simp add: cstr_def)
  next
    case False
    have "NUL \<notin> set (escape_char c)" using False by (simp add: escape_char_def)
    then have "cstr (escape_char c @ concat (map escape_char s)) = escape_char c @ cstr (concat (map escape_char s))"
      unfolding cstr_def by (subst takeWhile_append2) auto
    with Cons False show ?thesis by (simp add: cstr_def)
  qed
qed simp

lemma yank_text_line:
  assumes "NUL \<notin> set line" "NUL \<notin> set name" "length name + 303 \<le> RESULT_LEN_MAX"
  shows "fst (yank_text name (line @ NUL # junk)) = name @ ''| '' @ concat (map escape_char (take 150 line))"
proof -
  let ?len = "min (length (line @ NUL # junk) - 1) 150"
  have t: "cstr (take ?len (line @ NUL # junk)) = take 150 line"
  proof (cases "length line \<ge> 150")
    case True
    then have "?len = 150" by simp
    with True have "take ?len (line @ NUL # junk) = take 150 line" by simp
    moreover have "NUL \<notin> set (take 150 line)" using assms(1) by (auto dest: in_set_takeD)
    ultimately show ?thesis by simp
  next
    case False
    show ?thesis
    proof (cases "?len > length line")
      case True
      then obtain k where k: "?len = Suc (length line + k)" using less_imp_Suc_add by blast
      have "take ?len (line @ NUL # junk) = line @ NUL # take k junk" unfolding k by simp
      then have "cstr (take ?len (line @ NUL # junk)) = line" using cstr_append_NUL [OF assms(1)] by (simp only:)
      moreover have "take 150 line = line" using False by simp
      ultimately show ?thesis by (simp only:)
    next
      case n: False
      with False have "?len = length line" by auto
      with False assms(1) show ?thesis by (simp add: min_def split: if_splits)
    qed
  qed
  have "length (concat (map escape_char (take 150 line))) \<le> 2 * 150"
    using length_escape [of "take 150 line"] by auto
  with assms t show ?thesis by (simp add: yank_text_def json_escape_def Let_def cstr_escape)
qed

end
