(* ===== verification/Grep.thy ===== *)
theory Grep
  imports Search
begin

text \<open>
  Searching in files, \<open>src/src/grep.c\<close>: a shell command is started, its output is cut into
  lines and collected, and when it ends the lines are sent. The state is the context of the running child, if
  there is one; the lines of the context are in the string pool.
\<close>

section \<open>State\<close>

text \<open>\<open>pc_oob\<close> is not in the source: it says that \<open>json_escape\<close> has written behind its buffer.\<close>

record proc_ctx =
  pc_seq :: int
  pc_file_res :: "file_info list"
  pc_buf_size :: nat
  pc_oob :: bool

text \<open>
  \<open>gr_child\<close> is \<open>g_child_req\<close> with its context; \<open>gr_sent\<close> are the messages sent, \<open>gr_killed\<close> counts the interrupts sent to
  children, \<open>gr_aborted\<close> says that the assertion has failed, and \<open>gr_orphans\<close> are contexts of children that still run
  although the pointer to them was cleared.
\<close>

record grep_state =
  gr_child :: "proc_ctx option"
  gr_flags :: job_flags
  gr_sent :: "string list"
  gr_killed :: nat
  gr_aborted :: bool
  gr_orphans :: "proc_ctx list"

definition init_grep :: grep_state where
  "init_grep = \<lparr> gr_child = None, gr_flags = init_flags, gr_sent = [], gr_killed = 0, gr_aborted = False, gr_orphans = [] \<rparr>"

section \<open>The output of the child\<close>

text \<open>\<open>strtok_r\<close> with carriage return and line feed: the longest pieces without them that are not empty.\<close>

definition is_eol :: "char \<Rightarrow> bool" where "is_eol c \<longleftrightarrow> c = CR \<or> c = LF"

function tokens :: "string \<Rightarrow> string list" where
  "tokens s =
     (case dropWhile is_eol s of
        [] \<Rightarrow> []
      | c # r \<Rightarrow> (c # takeWhile (\<lambda>c. \<not> is_eol c) r) # tokens (dropWhile (\<lambda>c. \<not> is_eol c) r))"
  by pat_completeness auto
termination
proof (relation "measure length", goal_cases)
  case (2 s c r)
  then have "length (c # r) \<le> length s" by (metis length_dropWhile_le)
  moreover have "length (dropWhile (\<lambda>c. \<not> is_eol c) r) \<le> length r" by (rule length_dropWhile_le)
  ultimately show ?case by simp
qed simp

declare tokens.simps [simp del]

definition MAX_LINE :: nat where "MAX_LINE = 512"

text \<open>One line: too long ones are skipped; the array grows as needed.\<close>

definition grep_line :: "string \<Rightarrow> proc_ctx \<Rightarrow> proc_ctx" where
  "grep_line token ctx =
     (if min (length token) 600 > MAX_LINE then ctx
      else
        let size = (if length (pc_file_res ctx) \<ge> pc_buf_size ctx then pc_buf_size ctx * 2 else pc_buf_size ctx);
            (escaped, overrun) = json_escape (take 600 token)
        in ctx\<lparr> pc_buf_size := size,
             pc_file_res := pc_file_res ctx @ [zero_file_info\<lparr> file_path := cstr escaped, match_pos_flag := 0 \<rparr>],
             pc_oob := (pc_oob ctx \<or> overrun) \<rparr>)"

text \<open>The buffer ends with NUL bytes, unless all its 65536 bytes were read; the lines are those before the first.\<close>

definition handle_grep_out :: "job_flags \<Rightarrow> proc_ctx \<Rightarrow> string \<Rightarrow> proc_ctx" where
  "handle_grep_out js ctx input =
     (if is_cancel_requested js then ctx else foldl (\<lambda>ctx token. grep_line token ctx) ctx (tokens (cstr input)))"

definition read_pipe :: "string \<Rightarrow> grep_state \<Rightarrow> grep_state" where
  "read_pipe input g =
     (if input = [] then g
      else g\<lparr> gr_child := map_option (\<lambda>ctx. handle_grep_out (gr_flags g) ctx input) (gr_child g) \<rparr>)"

section \<open>Start, end and cancellation\<close>

definition SIGINT :: int where "SIGINT = 2"

definition on_proc_exit :: "int \<Rightarrow> proc_ctx \<Rightarrow> grep_state \<Rightarrow> grep_state" where
  "on_proc_exit term_signal ctx g =
     g\<lparr> gr_sent := gr_sent g @ (if term_signal \<noteq> SIGINT then [send_res_from_file_info ''grep'' (pc_file_res ctx) (pc_seq ctx)] else []),
        gr_child := None, gr_flags := job_done (gr_flags g) \<rparr>"

definition cancel_grep :: "grep_state \<Rightarrow> grep_state" where
  "cancel_grep g = (if gr_child g \<noteq> None then g\<lparr> gr_killed := gr_killed g + 1 \<rparr> else g)"

text \<open>
  \<open>queue_grep\<close> with the answers of \<open>uv_spawn\<close> and \<open>uv_read_start\<close>. The request for the new child is in \<open>g_child_req\<close> before it
  is started; neither failure clears the job flag.
\<close>

definition queue_grep :: "int \<Rightarrow> int \<Rightarrow> int \<Rightarrow> grep_state \<Rightarrow> int \<times> grep_state" where
  "queue_grep spawn read_start seq g =
     (let g = g\<lparr> gr_flags := job_started (gr_flags g) \<rparr>
      in if gr_child g \<noteq> None then (0, g\<lparr> gr_aborted := True \<rparr>)
         else
           let ctx = \<lparr> pc_seq = seq, pc_file_res = [], pc_buf_size = 100, pc_oob = False \<rparr>
           in if spawn \<noteq> 0 then (spawn, g\<lparr> gr_child := None \<rparr>)
              else if read_start \<noteq> 0 then (read_start, g\<lparr> gr_child := None, gr_orphans := gr_orphans g @ [ctx] \<rparr>)
              else (0, g\<lparr> gr_child := Some ctx \<rparr>))"

section \<open>Properties\<close>

definition grep_keep :: "string \<Rightarrow> bool" where
  "grep_keep token \<longleftrightarrow> length token \<le> MAX_LINE"

definition grep_result :: "string \<Rightarrow> file_info" where
  "grep_result token = zero_file_info\<lparr> file_path := concat (map escape_char token), match_pos_flag := 0 \<rparr>"

lemma grep_line_spec: "NUL \<notin> set token \<Longrightarrow> pc_file_res (grep_line token ctx) =
    pc_file_res ctx @ (if grep_keep token then [grep_result token] else [])"
proof -
  assume n: "NUL \<notin> set token"
  have "cstr (concat (map escape_char token)) = concat (map escape_char token)"
    using n by (intro cstr_id) (auto simp: escape_char_def split: if_splits)
  then show ?thesis
    by (simp add: grep_line_def grep_keep_def grep_result_def json_escape_def MAX_LINE_def Let_def)
qed

text \<open>A line that consists of bytes to escape only is terminated behind the buffer.\<close>

lemma grep_line_oob: "pc_oob (grep_line token ctx) \<longleftrightarrow> pc_oob ctx \<or> grep_keep token \<and> list_all needs_escape token"
proof -
  have "min (length token) 600 > MAX_LINE \<longleftrightarrow> \<not> grep_keep token" by (auto simp: grep_keep_def MAX_LINE_def)
  moreover have "take 600 token = token" if "grep_keep token" using that by (simp add: grep_keep_def MAX_LINE_def)
  ultimately show ?thesis using json_escape_spec [of token] by (auto simp: grep_line_def Let_def split_beta)
qed

lemma grep_lines_spec: "list_all (\<lambda>t. NUL \<notin> set t) ts \<Longrightarrow> pc_file_res (foldl (\<lambda>ctx token. grep_line token ctx) ctx ts) =
    pc_file_res ctx @ map grep_result (filter grep_keep ts)"
  by (induction ts arbitrary: ctx) (simp_all add: grep_line_spec)

lemma tokens_no_NUL: "NUL \<notin> set s \<Longrightarrow> list_all (\<lambda>t. NUL \<notin> set t) (tokens s)"
proof (induction s rule: tokens.induct)
  case (1 s)
  show ?case
  proof (cases "dropWhile is_eol s")
    case Nil
    then show ?thesis by (subst tokens.simps) (simp only: list.case list.pred_inject)
  next
    case (Cons c r)
    have "NUL \<notin> set (c # r)" using 1(2) set_dropWhileD [of NUL is_eol s] Cons by auto
    then have "NUL \<notin> set (c # takeWhile (\<lambda>c. \<not> is_eol c) r)" "NUL \<notin> set (dropWhile (\<lambda>c. \<not> is_eol c) r)"
      by (auto dest: set_takeWhileD set_dropWhileD)
    with 1(1) Cons show ?thesis by (subst tokens.simps) simp
  qed
qed

text \<open>The lines of a text whose lines are not empty are its tokens.\<close>

lemma tokens_lines: "list_all (\<lambda>l. l \<noteq> [] \<and> CR \<notin> set l \<and> LF \<notin> set l) ls \<Longrightarrow>
    tokens (concat (map (\<lambda>l. l @ [LF]) ls)) = ls"
proof (induction ls)
  case Nil
  then show ?case by (subst tokens.simps) simp
next
  case (Cons l ls)
  let ?r = "concat (map (\<lambda>l. l @ [LF]) ls)"
  obtain c r where l: "l = c # r" "\<not> is_eol c" using Cons.prems by (cases l) (auto simp: is_eol_def)
  have n: "x \<in> set l \<Longrightarrow> \<not> is_eol x" for x using Cons.prems by (auto simp: is_eol_def)
  have "tokens (l @ LF # ?r) = l # tokens (LF # ?r)"
    using n l by (subst tokens.simps) (auto simp: takeWhile_append dropWhile_append is_eol_def)
  also have "tokens (LF # ?r) = tokens ?r"
    by (subst (1 2) tokens.simps) (simp add: is_eol_def)
  finally show ?case using Cons by simp
qed

text \<open>
  The lines of the output are collected in order: a piece of output that holds whole lines adds, unless a cancel was requested,
  one entry for each line that is not empty and not longer than 512 bytes, with its text escaped for JSON.
\<close>

lemma grep_collects_lines:
  assumes "list_all (\<lambda>l. l \<noteq> [] \<and> CR \<notin> set l \<and> LF \<notin> set l \<and> NUL \<notin> set l) ls"
  shows "pc_file_res (handle_grep_out js ctx (concat (map (\<lambda>l. l @ [LF]) ls) @ NUL # junk)) =
    pc_file_res ctx @ (if is_cancel_requested js then [] else map grep_result (filter grep_keep ls))"
proof -
  let ?t = "concat (map (\<lambda>l. l @ [LF]) ls)"
  have "NUL \<notin> set ?t" using assms by (auto simp: list_all_iff)
  then have c: "cstr (?t @ NUL # junk) = ?t" by (rule cstr_append_NUL)
  have "tokens ?t = ls" by (rule tokens_lines) (use assms in \<open>auto simp: list_all_iff\<close>)
  with c show ?thesis using assms by (simp add: handle_grep_out_def grep_lines_spec list_all_iff)
qed

lemma grep_collects_lines_witness:
  "pc_file_res (handle_grep_out init_flags \<lparr> pc_seq = 1, pc_file_res = [], pc_buf_size = 100, pc_oob = False \<rparr>
      (concat (map (\<lambda>l. l @ [LF]) [''a.c:1:x'', ''b'']) @ NUL # ''zz'')) =
    pc_file_res \<lparr> pc_seq = 1, pc_file_res = [], pc_buf_size = 100, pc_oob = False \<rparr> @
      (if is_cancel_requested init_flags then [] else map grep_result (filter grep_keep [''a.c:1:x'', ''b'']))"
  by (rule grep_collects_lines) simp

text \<open>
  A search that cannot be started blocks the server: after \<open>queue_grep\<close> without a running child the job flag is set in
  every case, but a child that will clear it runs only if both calls succeed; and when a child ends, the flag
  is clear and its result was sent exactly if it was not interrupted.
\<close>

lemma failed_grep_keeps_job_flag:
  "is_job_ongoing (gr_flags (snd (queue_grep spawn read_start seq (g\<lparr> gr_child := None \<rparr>)))) \<and>
   (gr_child (snd (queue_grep spawn read_start seq (g\<lparr> gr_child := None \<rparr>))) \<noteq> None \<longleftrightarrow> spawn = 0 \<and> read_start = 0) \<and>
   \<not> is_job_ongoing (gr_flags (on_proc_exit sig ctx g)) \<and>
   length (gr_sent (on_proc_exit sig ctx g)) = length (gr_sent g) + (if sig = SIGINT then 0 else 1)"
  by (simp add: queue_grep_def on_proc_exit_def flag_defs Let_def)

end
