(* ===== verification/JsonIn.thy ===== *)
theory JsonIn
  imports Mru Yank Grep
begin

text \<open>
  The messages of the editor and what happens to them: \<open>handle_json_msg\<close> of
  \<open>src/src/json_msg_handler.c\<close>, the timer of \<open>src/src/timer.c\<close> that tries again while a job is running, and the
  server these make together with the worker thread and the grep child, as a transition system.
  The tokenizer jsmn is a parameter.
\<close>

section \<open>Tokens\<close>

datatype jsmntype = JSMN_UNDEFINED | JSMN_OBJECT | JSMN_ARRAY | JSMN_STRING | JSMN_PRIMITIVE

record jsmntok =
  tok_type :: jsmntype
  tok_start :: int
  tok_end :: int

definition zero_tok :: jsmntok where
  "zero_tok = \<lparr> tok_type = JSMN_UNDEFINED, tok_start = 0, tok_end = 0 \<rparr>"

definition MAX_JSON_TOKENS :: nat where "MAX_JSON_TOKENS = 128"
definition MAX_JSON_ELM_SIZE :: nat where "MAX_JSON_ELM_SIZE = PATH_MAX"

definition tok_len :: "jsmntok \<Rightarrow> int" where
  "tok_len t = tok_end t - tok_start t"

text \<open>\<open>json_eq\<close>, as whether it returns 0.\<close>

definition json_eq :: "string \<Rightarrow> jsmntok \<Rightarrow> string \<Rightarrow> bool" where
  "json_eq json t s \<longleftrightarrow>
     tok_type t = JSMN_STRING \<and> int (length s) = tok_len t \<and>
     take (nat (tok_len t)) (drop (nat (tok_start t)) json) = s"

text \<open>
  \<open>strncpy(buf, json + start, end - start)\<close> into an array of \<open>sz\<close> bytes that is zero behind the string it represents:
  what was behind the copied bytes stays. \<open>None\<close> is a copy that is longer than the array or leaves no terminator.
\<close>

definition copy_tok :: "nat \<Rightarrow> string \<Rightarrow> jsmntok \<Rightarrow> string \<Rightarrow> string option" where
  "copy_tok sz json t buf =
     (if tok_len t < 0 \<or> tok_start t < 0 \<or> nat (tok_len t) \<ge> sz then None
      else
        let n = nat (tok_len t); s = cstr (take n (drop (nat (tok_start t)) json))
        in Some (s @ replicate (n - length s) NUL @ drop n buf))"

record json_fields =
  js_cmd :: string
  js_value :: string
  js_mru_path :: string
  js_yank_path :: string
  js_list_cmd :: string
  js_seq :: int

definition empty_fields :: json_fields where
  "empty_fields =
     \<lparr> js_cmd = [], js_value = [], js_mru_path = [], js_yank_path = [], js_list_cmd = [], js_seq = 0 \<rparr>"

text \<open>The field that a key names.\<close>

definition set_field :: "string \<Rightarrow> jsmntok \<Rightarrow> jsmntok \<Rightarrow> json_fields \<Rightarrow> json_fields option option" where
  "set_field json t next_tok f =
     (let copy = copy_tok MAX_JSON_ELM_SIZE json next_tok
      in if json_eq json t ''cmd'' then Some (map_option (\<lambda>s. f\<lparr> js_cmd := s \<rparr>) (copy (js_cmd f)))
         else if json_eq json t ''value'' then Some (map_option (\<lambda>s. f\<lparr> js_value := s \<rparr>) (copy (js_value f)))
         else if json_eq json t ''mru_path'' then Some (map_option (\<lambda>s. f\<lparr> js_mru_path := s \<rparr>) (copy (js_mru_path f)))
         else if json_eq json t ''yank_path'' then Some (map_option (\<lambda>s. f\<lparr> js_yank_path := s \<rparr>) (copy (js_yank_path f)))
         else if json_eq json t ''list_cmd'' then Some (map_option (\<lambda>s. f\<lparr> js_list_cmd := s \<rparr>) (copy (js_list_cmd f)))
         else None)"

text \<open>
  The loop over the tokens: a key takes the token behind it, which for the last token of the array is outside
  of it; \<open>None\<close> is such an access, or a copy that does not fit. A number is the sequence number wherever it stands.
\<close>

fun json_loop :: "string \<Rightarrow> jsmntok list \<Rightarrow> json_fields \<Rightarrow> json_fields option" where
  "json_loop json [] f = Some f"
| "json_loop json (t # ts) f =
     (case set_field json t (case ts of [] \<Rightarrow> zero_tok | n # _ \<Rightarrow> n) f of
        Some r \<Rightarrow> (case ts of [] \<Rightarrow> None | _ # ts' \<Rightarrow> (case r of None \<Rightarrow> None | Some f' \<Rightarrow> json_loop json ts' f'))
      | None \<Rightarrow>
          if tok_type t = JSMN_PRIMITIVE then
            (case copy_tok 100 json t [] of None \<Rightarrow> None | Some s \<Rightarrow> json_loop json ts (f\<lparr> js_seq := c_atoi s \<rparr>))
          else json_loop json ts f)"

definition token_array :: "jsmntok list \<Rightarrow> jsmntok list" where
  "token_array toks = take MAX_JSON_TOKENS (toks @ replicate MAX_JSON_TOKENS zero_tok)"

section \<open>The server\<close>

datatype job_kind = FileJob | MruJob | YankJob

text \<open>
  The state: the sequence number, the grep child with the flags, the three caches, the work that was handed to the
  worker thread, the messages that wait for a timer, the messages sent, and whether the program
  has accessed memory it must not.
\<close>

record editor =
  current_seq :: int
  ed_grep :: grep_state
  ed_files :: file_cache
  ed_mru :: mru_cache
  ed_yank :: yank_cache
  ed_work :: "(job_kind \<times> search_data) list"
  ed_timers :: "string list"
  ed_out :: "string list"
  ed_fault :: bool

definition init_editor :: editor where
  "init_editor =
     \<lparr> current_seq = 0, ed_grep = init_grep, ed_files = init_cache, ed_mru = init_mru_cache, ed_yank = init_yank_cache,
       ed_work = [], ed_timers = [], ed_out = [], ed_fault = False \<rparr>"

abbreviation ed_flags :: "editor \<Rightarrow> job_flags" where
  "ed_flags e \<equiv> gr_flags (ed_grep e)"

text \<open>What the environment answers while a message is handled.\<close>

record json_env =
  je_jsmn :: "string \<Rightarrow> int \<times> jsmntok list"
  je_qsort :: "(file_info \<Rightarrow> file_info \<Rightarrow> int) \<Rightarrow> file_info list \<Rightarrow> file_info list"
  je_queue :: int
  je_spawn :: int
  je_read_start :: int
  je_mru_content :: "string option"
  je_mru_writable :: bool

definition set_flags :: "job_flags \<Rightarrow> editor \<Rightarrow> editor" where
  "set_flags js e = e\<lparr> ed_grep := (ed_grep e)\<lparr> gr_flags := js \<rparr> \<rparr>"

definition request_cancel :: "editor \<Rightarrow> editor" where
  "request_cancel e =
     (let g = cancel_grep (ed_grep e) in e\<lparr> ed_grep := g\<lparr> gr_flags := (gr_flags g)\<lparr> jf_cancel := True \<rparr> \<rparr> \<rparr>)"

text \<open>What a queue function did.\<close>

definition queued :: "job_kind \<Rightarrow> (int \<times> job_flags \<times> search_data option) \<times> bool \<Rightarrow> editor \<Rightarrow> editor" where
  "queued k r e =
     (case r of ((_, js, d), overrun) \<Rightarrow>
        (set_flags js e)\<lparr> ed_work := ed_work e @ (case d of None \<Rightarrow> [] | Some d \<Rightarrow> [(k, d)]), ed_fault := (ed_fault e \<or> overrun) \<rparr>)"

text \<open>The chain of comparisons with the command.\<close>

definition json_dispatch :: "json_env \<Rightarrow> json_fields \<Rightarrow> editor \<Rightarrow> editor" where
  "json_dispatch env f e =
     (let cmd = cstr (js_cmd f); seq = js_seq f; js = ed_flags e
      in if cmd = ''init_file'' \<or> cmd = ''file'' \<or> cmd = ''init_path'' \<or> cmd = ''path'' then
           queued FileJob (queue_search (je_queue env) cmd (js_value f) (js_list_cmd f) seq (ed_files e) js) e
         else if cmd = ''init_mru'' then
           queued MruJob (queue_mru_search (je_queue env) [] (js_mru_path f) seq (ed_mru e) js) e
         else if cmd = ''write_mru'' then
           (case write_mru (je_qsort env) (mru_size (ed_mru e)) (je_mru_content env) (je_mru_writable env) (js_value f) of
              Inl _ \<Rightarrow> e\<lparr> ed_fault := True \<rparr>
            | Inr (_, _, cap) \<Rightarrow> e\<lparr> ed_mru := (ed_mru e)\<lparr> mru_size := cap \<rparr> \<rparr>)
         else if cmd = ''mru'' then
           queued MruJob (queue_mru_search (je_queue env) (js_value f) (js_mru_path f) seq (ed_mru e) js) e
         else if cmd = ''grep'' then
           (case queue_grep (je_spawn env) (je_read_start env) seq (ed_grep e) of (_, g) \<Rightarrow> e\<lparr> ed_grep := g \<rparr>)
         else if cmd = ''init_yank'' then
           queued YankJob (queue_yank_search (je_queue env) [] (js_yank_path f) seq (ed_yank e) js) e
         else if cmd = ''yank'' then
           queued YankJob (queue_yank_search (je_queue env) (js_value f) (js_yank_path f) seq (ed_yank e) js) e
         else e)"

text \<open>\<open>timer_cond_schedule\<close> starts a timer that holds the message until there is no job.\<close>

definition timer_cond_schedule :: "string \<Rightarrow> editor \<Rightarrow> editor" where
  "timer_cond_schedule json e = e\<lparr> ed_timers := ed_timers e @ [json] \<rparr>"

definition handle_json_msg :: "json_env \<Rightarrow> string \<Rightarrow> editor \<Rightarrow> editor" where
  "handle_json_msg env json e =
     (let (ret, toks) = je_jsmn env json
      in if ret = 0 then e
         else case json_loop json (token_array toks) empty_fields of
             None \<Rightarrow> e\<lparr> ed_fault := True \<rparr>
           | Some f \<Rightarrow>
               if js_seq f \<ge> current_seq e then
                 let e = e\<lparr> current_seq := js_seq f \<rparr>
                 in if is_job_ongoing (ed_flags e) then timer_cond_schedule json (request_cancel e)
                    else json_dispatch env f e
               else e)"

text \<open>The callbacks of the timer: the condition, and the message when it holds.\<close>

definition job_ongoing_cb :: "editor \<Rightarrow> bool" where
  "job_ongoing_cb e \<longleftrightarrow> \<not> is_job_ongoing (ed_flags e)"

definition handle_json_msg_again_cb :: "json_env \<Rightarrow> string \<Rightarrow> editor \<Rightarrow> editor" where
  "handle_json_msg_again_cb env json e = handle_json_msg env json (set_flags (reset_cancel (ed_flags e)) e)"

text \<open>A tick of the timer at position \<open>i\<close>: it is removed when its message was handled.\<close>

definition timer_cb_internal :: "json_env \<Rightarrow> nat \<Rightarrow> editor \<Rightarrow> editor" where
  "timer_cb_internal env i e =
     (if job_ongoing_cb e then
        handle_json_msg_again_cb env (ed_timers e ! i) (e\<lparr> ed_timers := take i (ed_timers e) @ drop (i + 1) (ed_timers e) \<rparr>)
      else e)"

section \<open>The worker thread\<close>

text \<open>What the system calls of a job answer.\<close>

record work_env =
  we_qsort :: "(file_info \<Rightarrow> file_info \<Rightarrow> int) \<Rightarrow> file_info list \<Rightarrow> file_info list"
  we_cancel :: "nat \<Rightarrow> bool"
  we_listing :: "string option"
  we_mru_exists :: bool
  we_mru_content :: "string option"
  we_dir :: "dir_entry list option"

definition out_msg :: "string option \<Rightarrow> editor \<Rightarrow> editor" where
  "out_msg m e = e\<lparr> ed_out := ed_out e @ (case m of None \<Rightarrow> [] | Some t \<Rightarrow> [t]) \<rparr>"

definition run_job :: "work_env \<Rightarrow> job_kind \<Rightarrow> search_data \<Rightarrow> editor \<Rightarrow> editor" where
  "run_job env k d e =
     (case k of
        FileJob \<Rightarrow>
          (case fuzzy_file_search (we_qsort env) (we_cancel env) (we_listing env) d (ed_files e) of
             (c, msg, ok) \<Rightarrow> out_msg msg (e\<lparr> ed_files := c, ed_fault := (ed_fault e \<or> \<not> ok) \<rparr>))
      | MruJob \<Rightarrow>
          (case fuzzy_mru_search (we_qsort env) (we_cancel env) (we_mru_exists env) (we_mru_content env) d (ed_mru e) of
             Inl _ \<Rightarrow> e\<lparr> ed_fault := True \<rparr>
           | Inr (c, msg) \<Rightarrow> out_msg msg (e\<lparr> ed_mru := c \<rparr>))
      | YankJob \<Rightarrow>
          (case fuzzy_yank_search (we_qsort env) (we_cancel env) (we_dir env) d (ed_yank e) of
             None \<Rightarrow> e\<lparr> ed_fault := True \<rparr>
           | Some (c, msg) \<Rightarrow> out_msg msg (e\<lparr> ed_yank := c \<rparr>)))"

definition after_job :: "job_kind \<Rightarrow> editor \<Rightarrow> editor" where
  "after_job k e =
     set_flags (case k of FileJob \<Rightarrow> after_fuzzy_file_search (ed_flags e) | MruJob \<Rightarrow> after_fuzzy_mru_search (ed_flags e)
                | YankJob \<Rightarrow> after_fuzzy_yank_search (ed_flags e)) e"

section \<open>Steps\<close>

text \<open>Output of the child: a line that is escaped out of its buffer is a fault.\<close>

definition grep_read :: "string \<Rightarrow> editor \<Rightarrow> editor" where
  "grep_read input e =
     (let g = read_pipe input (ed_grep e)
      in e\<lparr> ed_grep := g, ed_fault := (case gr_child g of None \<Rightarrow> False | Some ctx \<Rightarrow> pc_oob ctx) \<rparr>)"

text \<open>
  The events of the loop. The job of a worker thread and the callback behind it are one step: a message that comes while the job runs
  finds the job flag set, so that it sets the sequence number, asks for cancellation and starts a timer, of which the job sees
  only the cancel flag, and what that answers to the job is an argument of the step. A run ends at its first fault in
  memory, behind which C promises nothing; what is proved of all reachable states says nothing of what follows a fault.
\<close>

inductive ed_step :: "editor \<Rightarrow> editor \<Rightarrow> bool" where
  message: "\<not> ed_fault e \<Longrightarrow> ed_step e (handle_json_msg env json e)"
| tick: "\<lbrakk>\<not> ed_fault e; i < length (ed_timers e)\<rbrakk> \<Longrightarrow> ed_step e (timer_cb_internal env i e)"
| work: "\<lbrakk>\<not> ed_fault e; ed_work e = xs @ (k, d) # ys\<rbrakk> \<Longrightarrow>
    ed_step e (after_job k (run_job wenv k d (e\<lparr> ed_work := xs @ ys \<rparr>)))"
| grep_output: "\<lbrakk>\<not> ed_fault e; gr_child (ed_grep e) \<noteq> None\<rbrakk> \<Longrightarrow>
    ed_step e (grep_read input e)"
| grep_exit: "\<lbrakk>\<not> ed_fault e; gr_child (ed_grep e) = Some ctx\<rbrakk> \<Longrightarrow>
    ed_step e (e\<lparr> ed_grep := on_proc_exit sig ctx (ed_grep e) \<rparr>)"
| orphan_exit: "\<lbrakk>\<not> ed_fault e; gr_orphans (ed_grep e) = xs @ ctx # ys\<rbrakk> \<Longrightarrow>
    ed_step e (e\<lparr> ed_grep := on_proc_exit sig ctx ((ed_grep e)\<lparr> gr_orphans := xs @ ys \<rparr>) \<rparr>)"

inductive_cases ed_stepE: "ed_step e e'"

text \<open>The number of jobs that run.\<close>

definition running :: "editor \<Rightarrow> nat" where
  "running e = length (ed_work e) + (if gr_child (ed_grep e) = None then 0 else 1) + length (gr_orphans (ed_grep e))"

definition one_job :: "editor \<Rightarrow> bool" where
  "one_job e \<longleftrightarrow> running e \<le> (if is_job_ongoing (ed_flags e) then 1 else 0) \<and> \<not> gr_aborted (ed_grep e)"

lemma one_job_init: "e = init_editor \<Longrightarrow> one_job e"
  by (simp add: one_job_def running_def init_editor_def init_grep_def init_flags_def flag_defs)

lemma queue_functions:
  "\<exists>js d o'. queue_search ret cmd value list_cmd seq c js0 = ((if ret = 0 then 0 else - 1, js, d), o') \<and>
      (d = None \<or> jf_job js) \<and> (jf_job js \<or> ret \<noteq> 0)"
  "\<exists>js d o'. queue_mru_search ret value mru_path seq m js0 = ((if ret = 0 then 0 else - 1, js, d), o') \<and>
      (d = None \<or> jf_job js) \<and> (jf_job js \<or> ret \<noteq> 0)"
  "\<exists>js d o'. queue_yank_search ret value yank_path seq y js0 = ((if ret = 0 then 0 else - 1, js, d), o') \<and>
      (d = None \<or> jf_job js) \<and> (jf_job js \<or> ret \<noteq> 0)"
  by (simp_all add: queue_search_def queue_mru_search_def queue_yank_search_def submit_def flag_defs Let_def)

lemma queued_one_job:
  assumes "one_job e" "\<not> is_job_ongoing (ed_flags e)" "d = None \<or> jf_job js"
  shows "one_job (queued k ((r, js, d), o') e)"
  using assms by (auto simp: queued_def one_job_def running_def set_flags_def is_job_ongoing_def split: option.split)

lemma dispatch_one_job:
  assumes "one_job e" "\<not> is_job_ongoing (ed_flags e)"
  shows "one_job (json_dispatch env f e)"
proof -
  have s: "one_job (queued FileJob (queue_search r cm v l s c js0) e)" for r cm v l s c js0
    using queue_functions(1) [of r cm v l s c js0] queued_one_job [OF assms] by metis
  have m: "one_job (queued MruJob (queue_mru_search r v l s c js0) e)" for r v l s c js0
    using queue_functions(2) [of r v l s c js0] queued_one_job [OF assms] by metis
  have y: "one_job (queued YankJob (queue_yank_search r v l s c js0) e)" for r v l s c js0
    using queue_functions(3) [of r v l s c js0] queued_one_job [OF assms] by metis
  have g: "one_job (e\<lparr> ed_grep := snd (queue_grep a b s (ed_grep e)) \<rparr>)" for a b s
    using assms by (auto simp: queue_grep_def one_job_def running_def flag_defs Let_def split: if_splits)
  have w: "one_job (e\<lparr> ed_fault := x \<rparr>)" "one_job (e\<lparr> ed_mru := c \<rparr>)" for x c
    using assms(1) by (simp_all add: one_job_def running_def)
  show ?thesis
    using s m y g w assms(1) by (simp add: json_dispatch_def Let_def split_beta split: sum.split)
qed


lemma request_cancel_simps [simp]:
  "running (request_cancel e) = running e" "is_job_ongoing (ed_flags (request_cancel e)) = is_job_ongoing (ed_flags e)"
  "gr_aborted (ed_grep (request_cancel e)) = gr_aborted (ed_grep e)" "current_seq (request_cancel e) = current_seq e"
  "ed_out (request_cancel e) = ed_out e" "gr_sent (ed_grep (request_cancel e)) = gr_sent (ed_grep e)"
  by (simp_all add: request_cancel_def running_def cancel_grep_def is_job_ongoing_def Let_def)

lemma timer_cond_schedule_simps [simp]:
  "running (timer_cond_schedule j e) = running e" "ed_grep (timer_cond_schedule j e) = ed_grep e"
  "current_seq (timer_cond_schedule j e) = current_seq e" "ed_out (timer_cond_schedule j e) = ed_out e"
  by (simp_all add: timer_cond_schedule_def running_def)

lemma grep_read_simps [simp]:
  "ed_work (grep_read input e) = ed_work e" "current_seq (grep_read input e) = current_seq e" "ed_out (grep_read input e) = ed_out e"
  "ed_timers (grep_read input e) = ed_timers e" "gr_sent (ed_grep (grep_read input e)) = gr_sent (ed_grep e)"
  by (simp_all add: grep_read_def read_pipe_def Let_def)

lemma editor_update_simps [simp]:
  "running (e\<lparr> current_seq := s \<rparr>) = running e" "running (e\<lparr> ed_fault := x \<rparr>) = running e"
  "running (e\<lparr> ed_timers := t \<rparr>) = running e"
  by (simp_all add: running_def)

lemma handle_one_job: "one_job e \<Longrightarrow> one_job (handle_json_msg env json e)"
proof -
  assume e: "one_job e"
  then have u: "one_job (e\<lparr> current_seq := s \<rparr>)" "one_job (e\<lparr> ed_fault := x \<rparr>)" for s x by (simp_all add: one_job_def)
  then have "one_job (timer_cond_schedule json (request_cancel (e\<lparr> current_seq := s \<rparr>)))" for s
    by (simp add: one_job_def)
  with e u dispatch_one_job [OF u(1)] show ?thesis
    by (simp add: handle_json_msg_def Let_def split_beta split: option.split)
qed

lemma run_job_simps [simp]:
  "ed_work (run_job env k d e) = ed_work e" "ed_grep (run_job env k d e) = ed_grep e"
  "current_seq (run_job env k d e) = current_seq e"
  by (simp_all add: run_job_def out_msg_def split: job_kind.split prod.split sum.split option.split)

lemma after_job_simps [simp]:
  "ed_work (after_job k e) = ed_work e" "gr_child (ed_grep (after_job k e)) = gr_child (ed_grep e)"
  "gr_orphans (ed_grep (after_job k e)) = gr_orphans (ed_grep e)" "current_seq (after_job k e) = current_seq e"
  "gr_aborted (ed_grep (after_job k e)) = gr_aborted (ed_grep e)"
  by (simp_all add: after_job_def set_flags_def)

lemma ed_step_one_job: "ed_step e e' \<Longrightarrow> one_job e \<Longrightarrow> one_job e'"
proof (induction rule: ed_step.induct)
  case (message e env json)
  then show ?case by (simp add: handle_one_job)
next
  case (tick e i env)
  have "one_job (set_flags (reset_cancel (ed_flags e)) (e\<lparr> ed_timers := t \<rparr>))" for t
    using tick by (simp add: one_job_def running_def set_flags_def flag_defs)
  then have "one_job (handle_json_msg_again_cb env j (e\<lparr> ed_timers := t \<rparr>))" for j t
    by (simp add: handle_json_msg_again_cb_def handle_one_job)
  with tick show ?case by (simp add: timer_cb_internal_def)
next
  case (work e xs k d ys wenv)
  then show ?case by (simp add: one_job_def running_def split: if_splits)
next
  case (grep_output e input)
  then show ?case by (auto simp: grep_read_def Let_def one_job_def running_def read_pipe_def split: if_splits)
next
  case (grep_exit e ctx sig)
  then show ?case by (simp add: one_job_def running_def on_proc_exit_def split: if_splits)
next
  case (orphan_exit e xs ctx ys sig)
  then show ?case by (simp add: one_job_def running_def on_proc_exit_def split: if_splits)
qed

interpretation editor: transition_system "\<lambda>e. e = init_editor" ed_step one_job
  by unfold_locales (auto intro: one_job_init ed_step_one_job)

text \<open>
  C22: At most one job runs at any time: whatever messages arrive, timers tick and calls fail, the queued work, the grep child
  and children that were given up are together at most one, none without the job flag, and
  the assertion in \<open>queue_grep\<close> never fails.
\<close>

lemma at_most_one_job:
  assumes "ed_step\<^sup>*\<^sup>* init_editor e"
  shows "length (ed_work e) + (if gr_child (ed_grep e) = None then 0 else 1) + length (gr_orphans (ed_grep e))
      \<le> (if is_job_ongoing (ed_flags e) then 1 else 0) \<and> \<not> gr_aborted (ed_grep e)"
proof -
  have "one_job e" using editor.inv_reachable assms by blast
  then show ?thesis by (simp add: one_job_def running_def)
qed

definition sample_env :: json_env where
  "sample_env =
     \<lparr> je_jsmn = (\<lambda>_. (0, [])), je_qsort = insertion_qsort, je_queue = 0, je_spawn = 0, je_read_start = 0,
       je_mru_content = None, je_mru_writable = True \<rparr>"

text \<open>The message \<open>cmd:grep\<close> with its tokens, which starts a child, and another one while the child runs.\<close>

definition grep_env :: json_env where
  "grep_env = sample_env\<lparr> je_jsmn := \<lambda>_. (3, [\<lparr> tok_type = JSMN_OBJECT, tok_start = 0, tok_end = 8 \<rparr>,
     \<lparr> tok_type = JSMN_STRING, tok_start = 0, tok_end = 3 \<rparr>, \<lparr> tok_type = JSMN_STRING, tok_start = 4, tok_end = 8 \<rparr>]) \<rparr>"

lemma json_loop_unused [simp]: "json_loop json (replicate n zero_tok) f = Some f"
proof (induction n)
  case (Suc n)
  then show ?case by (simp add: set_field_def json_eq_def zero_tok_def Let_def)
qed simp

lemma token_array_Cons: "length ts < MAX_JSON_TOKENS \<Longrightarrow>
    token_array ts = ts @ replicate (MAX_JSON_TOKENS - length ts) zero_tok"
  by (simp add: token_array_def)

definition grep_fields :: json_fields where
  "grep_fields = empty_fields\<lparr> js_cmd := ''grep'' \<rparr>"

lemma grep_message: "json_loop ''cmd:grep'' (token_array (snd (je_jsmn grep_env j))) empty_fields = Some grep_fields"
  by (simp add: grep_env_def token_array_Cons MAX_JSON_TOKENS_def set_field_def json_eq_def tok_len_def copy_tok_def MAX_JSON_ELM_SIZE_def
      PATH_MAX_def empty_fields_def grep_fields_def cstr_def Let_def)

definition grep_running :: editor where
  "grep_running = handle_json_msg grep_env ''cmd:grep'' init_editor"

definition after_grep :: editor where
  "after_grep = handle_json_msg grep_env ''cmd:grep'' grep_running"

lemma handle_grep: "0 = current_seq e \<Longrightarrow> handle_json_msg grep_env ''cmd:grep'' e =
    (if is_job_ongoing (ed_flags e) then timer_cond_schedule ''cmd:grep'' (request_cancel e) else json_dispatch grep_env grep_fields e)"
proof -
  assume seq: "0 = current_seq e"
  have "fst (je_jsmn grep_env ''cmd:grep'') = 3" "js_seq grep_fields = 0"
    by (simp_all add: grep_env_def grep_fields_def empty_fields_def)
  moreover have "e\<lparr> current_seq := 0 \<rparr> = e" using seq by simp
  ultimately show ?thesis
    unfolding handle_json_msg_def Let_def split_beta grep_message using seq by (simp only: option.case if_True) simp
qed

lemma grep_running_eq: "grep_running = init_editor\<lparr> ed_grep := snd (queue_grep 0 0 0 (ed_grep init_editor)) \<rparr>"
  unfolding grep_running_def
  by (subst handle_grep)
    (simp_all add: json_dispatch_def grep_fields_def empty_fields_def grep_env_def sample_env_def init_editor_def init_grep_def
      init_flags_def flag_defs Let_def split_beta cstr_def)

lemma grep_running_facts:
  "is_job_ongoing (ed_flags grep_running)" "gr_child (ed_grep grep_running) \<noteq> None" "current_seq grep_running = 0"
  "\<not> ed_fault grep_running" "ed_timers grep_running = []"
  unfolding grep_running_eq
  by (simp_all add: init_editor_def init_grep_def init_flags_def flag_defs queue_grep_def Let_def)

lemma after_grep_eq: "after_grep = timer_cond_schedule ''cmd:grep'' (request_cancel grep_running)"
  unfolding after_grep_def using handle_grep [of grep_running] grep_running_facts by simp

lemma after_grep_reachable: "ed_step\<^sup>*\<^sup>* init_editor after_grep"
proof -
  have "ed_step init_editor grep_running" unfolding grep_running_def by (rule message) (simp add: init_editor_def)
  moreover have "ed_step grep_running after_grep" unfolding after_grep_def by (rule message) (rule grep_running_facts)
  ultimately show ?thesis by (blast intro: rtranclp.rtrancl_into_rtrancl)
qed

lemma at_most_one_job_witness:
  "gr_child (ed_grep after_grep) \<noteq> None \<and> ed_timers after_grep = [''cmd:grep''] \<and>
   length (ed_work after_grep) + 1 + length (gr_orphans (ed_grep after_grep)) \<le> 1 \<and> \<not> gr_aborted (ed_grep after_grep)"
proof -
  have "gr_child (ed_grep after_grep) \<noteq> None" "ed_timers after_grep = [''cmd:grep'']"
    unfolding after_grep_eq using grep_running_facts
    by (simp_all add: timer_cond_schedule_def request_cancel_def cancel_grep_def Let_def)
  then show ?thesis using at_most_one_job [OF after_grep_reachable] by (auto split: if_splits)
qed

section \<open>The blocked server\<close>

definition blocked :: "editor \<Rightarrow> bool" where
  "blocked e \<longleftrightarrow> is_job_ongoing (ed_flags e) \<and> running e = 0"

lemma blocked_step:
  assumes "blocked e" "ed_step e e'"
  shows "blocked e' \<and> ed_out e' = ed_out e \<and> gr_sent (ed_grep e') = gr_sent (ed_grep e)"
  using assms(2,1)
proof (induction rule: ed_step.induct)
  case (message e env json)
  then show ?case by (simp add: handle_json_msg_def blocked_def Let_def split_beta split: option.split)
next
  case (tick e i env)
  then show ?case by (simp add: timer_cb_internal_def job_ongoing_cb_def blocked_def)
qed (auto simp: blocked_def running_def)

lemma blocked_steps: "ed_step\<^sup>*\<^sup>* e e' \<Longrightarrow> blocked e \<Longrightarrow>
    blocked e' \<and> ed_out e' = ed_out e \<and> gr_sent (ed_grep e') = gr_sent (ed_grep e)"
  by (induction rule: rtranclp_induct) (auto dest: blocked_step)

text \<open>
  A grep that cannot be started blocks the server for ever: from the state behind a failed \<open>uv_spawn\<close>, no
  sequence of messages, timer ticks and other events ever sends a message again, and the job flag stays set.
\<close>

lemma failed_grep_blocks_server:
  assumes "one_job e" "\<not> is_job_ongoing (ed_flags e)" "spawn \<noteq> 0"
    and "ed_step\<^sup>*\<^sup>* (e\<lparr> ed_grep := snd (queue_grep spawn read_start seq (ed_grep e)) \<rparr>) e'"
  shows "ed_out e' = ed_out e \<and> gr_sent (ed_grep e') = gr_sent (ed_grep e) \<and> is_job_ongoing (ed_flags e')"
proof -
  have "blocked (e\<lparr> ed_grep := snd (queue_grep spawn read_start seq (ed_grep e)) \<rparr>) \<and>
      gr_sent (snd (queue_grep spawn read_start seq (ed_grep e))) = gr_sent (ed_grep e)"
    using assms(1-3) by (auto simp: blocked_def one_job_def running_def queue_grep_def flag_defs Let_def split: if_splits)
  with blocked_steps [OF assms(4)] show ?thesis by (simp add: blocked_def)
qed

lemma failed_grep_blocks_server_witness:
  "ed_out (init_editor\<lparr> ed_grep := snd (queue_grep (- 2) 0 1 (ed_grep init_editor)) \<rparr>) = ed_out init_editor \<and>
   gr_sent (ed_grep (init_editor\<lparr> ed_grep := snd (queue_grep (- 2) 0 1 (ed_grep init_editor)) \<rparr>)) = gr_sent (ed_grep init_editor) \<and>
   is_job_ongoing (ed_flags (init_editor\<lparr> ed_grep := snd (queue_grep (- 2) 0 1 (ed_grep init_editor)) \<rparr>))"
proof (rule failed_grep_blocks_server [where spawn = "- 2" and read_start = 0 and seq = 1])
  show "one_job init_editor" by (simp add: one_job_init)
  show "\<not> is_job_ongoing (ed_flags init_editor)" by (simp add: init_editor_def init_grep_def init_flags_def flag_defs)
  show "(- 2 :: int) \<noteq> 0" by simp
qed simp

section \<open>The order of messages\<close>

lemma dispatch_seq [simp]: "current_seq (json_dispatch env f e) = current_seq e"
  by (simp add: json_dispatch_def queued_def set_flags_def Let_def split_beta split: sum.split)

lemma handle_seq: "current_seq e \<le> current_seq (handle_json_msg env json e)"
  by (auto simp: handle_json_msg_def Let_def split_beta split: option.split)

lemma ed_step_seq: "ed_step e e' \<Longrightarrow> current_seq e \<le> current_seq e'"
proof (induction rule: ed_step.induct)
  case (tick e i env)
  have "current_seq e \<le> current_seq (handle_json_msg_again_cb env j (e\<lparr> ed_timers := t \<rparr>))" for j t
    using handle_seq [of "set_flags (reset_cancel (ed_flags e)) (e\<lparr> ed_timers := t \<rparr>)" env j]
    by (simp add: handle_json_msg_again_cb_def set_flags_def)
  with tick show ?case by (simp add: timer_cb_internal_def)
qed (simp_all add: handle_seq)

text \<open>
  Messages take effect in the order of their numbers: the sequence number never decreases, and a message
  with a number below it changes nothing, also one that waited for a timer.
\<close>

lemma old_messages_are_dropped:
  assumes "ed_step\<^sup>*\<^sup>* e e'" "fst (je_jsmn env json) \<noteq> 0"
    and "json_loop json (token_array (snd (je_jsmn env json))) empty_fields = Some f" "js_seq f < current_seq e"
  shows "current_seq e \<le> current_seq e' \<and> handle_json_msg env json e' = e'"
proof -
  have "current_seq e \<le> current_seq e'"
    using assms(1) by (induction rule: rtranclp_induct) (auto dest: ed_step_seq)
  with assms(2-4) show ?thesis by (simp add: handle_json_msg_def split_beta)
qed

definition number_env :: json_env where
  "number_env = sample_env\<lparr> je_jsmn := (\<lambda>_. (1, [\<lparr> tok_type = JSMN_PRIMITIVE, tok_start = 0, tok_end = 1 \<rparr>])) \<rparr>"

lemma old_messages_are_dropped_witness:
  "current_seq (init_editor\<lparr> current_seq := 5 \<rparr>) \<le> current_seq (init_editor\<lparr> current_seq := 5 \<rparr>) \<and>
   handle_json_msg number_env ''3'' (init_editor\<lparr> current_seq := 5 \<rparr>) = init_editor\<lparr> current_seq := 5 \<rparr>"
proof (rule old_messages_are_dropped [where f = "empty_fields\<lparr> js_seq := 3 \<rparr>"])
  have a: "c_atoi ''3'' = 3" by code_simp
  show "json_loop ''3'' (token_array (snd (je_jsmn number_env ''3''))) empty_fields = Some (empty_fields\<lparr> js_seq := 3 \<rparr>)"
    by (simp add: number_env_def token_array_Cons MAX_JSON_TOKENS_def set_field_def json_eq_def copy_tok_def tok_len_def
        Let_def a)
qed (simp_all add: number_env_def empty_fields_def)

end
