(* ===== verification/VimInput.thy ===== *)
theory VimInput
  imports JsonIn
begin

text \<open>
  The input of the editor server, \<open>src/src/vim9-fuzzy.c\<close>: messages with a \<open>Content-Length\<close> header are
  read from standard input piece by piece and handed to \<open>handle_json_msg\<close>.
\<close>

section \<open>The reader\<close>

definition MAX_VIM_INPUT :: nat where "MAX_VIM_INPUT = 65536"

definition LENGTH_HEADER :: string where "LENGTH_HEADER = ''Content-Length: ''"

text \<open>The static variables of \<open>read_stdin\<close>; the counters are the lengths of the buffers.\<close>

record vim_reader =
  vr_line :: string
  vr_content_len :: int
  vr_start :: bool
  vr_json_line :: string

definition init_reader :: vim_reader where
  "init_reader = \<lparr> vr_line = [], vr_content_len = 0, vr_start = False, vr_json_line = [] \<rparr>"

text \<open>\<open>strstr\<close>: the text from the first occurrence.\<close>

fun c_strstr :: "string \<Rightarrow> string \<Rightarrow> string option" where
  "c_strstr [] needle = (if needle = [] then Some [] else None)"
| "c_strstr (c # s) needle = (if take (length needle) (c # s) = needle then Some (c # s) else c_strstr s needle)"

text \<open>The end of a line.\<close>

definition vim_line :: "vim_reader \<Rightarrow> vim_reader" where
  "vim_line r =
     (let line = cstr (vr_line r)
      in (case c_strstr line LENGTH_HEADER of
            Some sz \<Rightarrow> r\<lparr> vr_content_len := c_atoi (drop (length LENGTH_HEADER) sz) \<rparr>
          | None \<Rightarrow> if length line = 2 then r\<lparr> vr_start := True \<rparr> else r)\<lparr> vr_line := [] \<rparr>)"

text \<open>
  The loop over the bytes, the one at index \<open>nread\<close> included; \<open>prev\<close> is the byte before. The result is the state and the message, if
  one was complete, which ends the loop; \<open>None\<close> is a write behind a buffer.
\<close>

fun vim_loop :: "char option \<Rightarrow> string \<Rightarrow> vim_reader \<Rightarrow> (vim_reader \<times> string option) option" where
  "vim_loop prev [] r = Some (r, None)"
| "vim_loop prev (c # cs) r =
     (if length (vr_line r) \<ge> MAX_VIM_INPUT then None
      else
        let r' = r\<lparr> vr_line := vr_line r @ [c] \<rparr>
        in if c = LF \<and> prev = Some CR then
             (if length (vr_line r') \<ge> MAX_VIM_INPUT then None else vim_loop (Some c) cs (vim_line r'))
           else if vr_start r then
             (if length (vr_json_line r) \<ge> MAX_VIM_INPUT then None
              else if int (length (vr_json_line r)) = vr_content_len r then
                (if length (vr_json_line r) + 1 \<ge> MAX_VIM_INPUT then None else Some (init_reader, Some (vr_json_line r @ [c])))
              else vim_loop (Some c) cs (r'\<lparr> vr_json_line := vr_json_line r @ [c] \<rparr>))
           else vim_loop (Some c) cs r')"

text \<open>A call with the bytes that were read; the buffer is zero behind them. An error or the end of the input is \<open>None\<close>.\<close>

definition vim_read_stdin :: "string option \<Rightarrow> vim_reader \<Rightarrow> (vim_reader \<times> string option) option" where
  "vim_read_stdin data r =
     (case data of
        None \<Rightarrow> Some (r, None)
      | Some bytes \<Rightarrow> if length bytes \<ge> MAX_VIM_INPUT then None else vim_loop None (bytes @ [NUL]) r)"

text \<open>The server with its input.\<close>

definition vim_input :: "json_env \<Rightarrow> string option \<Rightarrow> vim_reader \<times> editor \<Rightarrow> vim_reader \<times> editor" where
  "vim_input env data s =
     (case vim_read_stdin data (fst s) of
        None \<Rightarrow> (fst s, (snd s)\<lparr> ed_fault := True \<rparr>)
      | Some (r, None) \<Rightarrow> (r, snd s)
      | Some (r, Some json) \<Rightarrow> (r, handle_json_msg env (cstr json) (snd s)))"

text \<open>
  \<open>main\<close>: the loop reads the terminal and waits for the signal, until \<open>on_signal\<close> stops it; the loop may
  be stopped from then on.
\<close>

record vim_server =
  vs_input :: "vim_reader \<times> editor"
  vs_stopped :: bool

definition vim_main :: vim_server where
  "vim_main = \<lparr> vs_input = (init_reader, init_editor), vs_stopped = False \<rparr>"

definition vim_on_signal :: "int \<Rightarrow> vim_server \<Rightarrow> vim_server" where
  "vim_on_signal signum s = (if signum = SIGINT then s\<lparr> vs_stopped := True \<rparr> else s)"

definition vim_on_read :: "json_env \<Rightarrow> string option \<Rightarrow> vim_server \<Rightarrow> vim_server" where
  "vim_on_read env data s = (if vs_stopped s then s else s\<lparr> vs_input := vim_input env data (vs_input s) \<rparr>)"

section \<open>Properties\<close>

text \<open>A message as the editor sends it.\<close>

definition vim_header :: "nat \<Rightarrow> string" where
  "vim_header n = LENGTH_HEADER @ decimal n @ [CR, LF, CR, LF]"

definition vim_body_ok :: "string \<Rightarrow> bool" where
  "vim_body_ok body \<longleftrightarrow> CR \<notin> set body \<and> LF \<notin> set body \<and> NUL \<notin> set body \<and> length body + 100 < MAX_VIM_INPUT"

text \<open>Bytes that are no line feed, before the body and in it.\<close>

lemma vim_loop_header:
  "LF \<notin> set s \<Longrightarrow> \<not> vr_start r \<Longrightarrow> length (vr_line r) + length s \<le> MAX_VIM_INPUT \<Longrightarrow>
   vim_loop prev (s @ rest) r = vim_loop (if s = [] then prev else Some (last s)) rest (r\<lparr> vr_line := vr_line r @ s \<rparr>)"
  by (induction s arbitrary: prev r) (auto simp: Let_def)

lemma vim_loop_body:
  "LF \<notin> set s \<Longrightarrow> vr_start r \<Longrightarrow> length (vr_line r) + length s \<le> MAX_VIM_INPUT \<Longrightarrow>
   length (vr_json_line r) + length s < MAX_VIM_INPUT \<Longrightarrow> int (length (vr_json_line r) + length s) \<le> vr_content_len r \<Longrightarrow>
   vim_loop prev (s @ rest) r = vim_loop (if s = [] then prev else Some (last s)) rest
     (r\<lparr> vr_line := vr_line r @ s, vr_json_line := vr_json_line r @ s \<rparr>)"
  by (induction s arbitrary: prev r) (auto simp: Let_def)

lemma c_strstr_hit: "take (length n) s = n \<Longrightarrow> c_strstr s n = Some s"
  by (cases s) auto

lemma c_strstr_prefix [simp]: "c_strstr (n @ s) n = Some (n @ s)"
  by (rule c_strstr_hit) simp

lemma vim_loop_crlf:
  "vim_loop (Some CR) (LF # rest) r =
     (if length (vr_line r) + 1 \<ge> MAX_VIM_INPUT then None
      else vim_loop (Some LF) rest (vim_line (r\<lparr> vr_line := vr_line r @ [LF] \<rparr>)))"
  by (simp add: Let_def)

lemma length_decimal_int32: "n < 2 ^ 31 \<Longrightarrow> length (decimal n) \<le> 10"
  by (rule length_decimal_less) simp_all

lemma vim_loop_start:
  assumes n: "n < 2 ^ 31"
  shows "vim_loop None (vim_header n @ rest) init_reader =
    vim_loop (Some LF) rest (init_reader\<lparr> vr_content_len := int n, vr_start := True \<rparr>)"
proof -
  let ?s = "LENGTH_HEADER @ decimal n @ [CR]"
  have lf: "LF \<notin> set (decimal n)" and nul: "NUL \<notin> set (decimal n)"
    by (rule decimal_no, simp add: char_digit_def)+
  have l: "length (decimal n) \<le> 10" by (rule length_decimal_int32 [OF n])
  have a: "c_atoi (decimal n @ [CR, LF]) = int n" by (rule c_atoi_prefix [OF n]) (simp_all add: char_digit_def)
  have c: "cstr (?s @ [LF]) = LENGTH_HEADER @ decimal n @ [CR, LF]" using nul by (simp add: LENGTH_HEADER_def)
  have "vim_loop None (vim_header n @ rest) init_reader =
      vim_loop (Some CR) (LF # CR # LF # rest) (init_reader\<lparr> vr_line := ?s \<rparr>)"
    using vim_loop_header [of ?s init_reader None "LF # CR # LF # rest"] lf l
    by (simp add: vim_header_def init_reader_def LENGTH_HEADER_def MAX_VIM_INPUT_def)
  also have "\<dots> = vim_loop (Some LF) (CR # LF # rest) (init_reader\<lparr> vr_content_len := int n \<rparr>)"
    using l c a by (simp add: vim_loop_crlf vim_line_def init_reader_def MAX_VIM_INPUT_def Let_def LENGTH_HEADER_def del: vim_loop.simps)
  also have "\<dots> = vim_loop (Some CR) (LF # rest) (init_reader\<lparr> vr_content_len := int n, vr_line := [CR] \<rparr>)"
    by (simp add: init_reader_def MAX_VIM_INPUT_def Let_def)
  also have "\<dots> = vim_loop (Some LF) rest (init_reader\<lparr> vr_content_len := int n, vr_start := True \<rparr>)"
    by (simp add: vim_loop_crlf vim_line_def init_reader_def MAX_VIM_INPUT_def LENGTH_HEADER_def Let_def del: vim_loop.simps)
  finally show ?thesis .
qed


lemma length_vim_header: "n < 2 ^ 31 \<Longrightarrow> length (vim_header n) \<le> 30"
  using length_decimal_int32 [of n] by (simp add: vim_header_def LENGTH_HEADER_def)

text \<open>The byte behind the body completes the message and becomes its last byte.\<close>

lemma vim_loop_message:
  assumes "vim_body_ok body"
  shows "vim_loop None (vim_header (length body) @ body @ x # xs) init_reader = Some (init_reader, Some (body @ [x]))"
proof -
  let ?r = "init_reader\<lparr> vr_content_len := int (length body), vr_start := True \<rparr>"
  let ?prev = "if body = [] then Some LF else Some (last body)"
  have b: "CR \<notin> set body" "LF \<notin> set body" "length body + 100 < MAX_VIM_INPUT"
    using assms by (simp_all add: vim_body_ok_def)
  then have n: "length body < 2 ^ 31" by (simp add: MAX_VIM_INPUT_def)
  have p: "?prev \<noteq> Some CR" using b(1) last_in_set [of body] by (cases "body = []") (simp, metis option.inject)
  have "vim_loop None (vim_header (length body) @ body @ x # xs) init_reader = vim_loop (Some LF) (body @ x # xs) ?r"
    by (rule vim_loop_start [OF n])
  also have "\<dots> = vim_loop ?prev (x # xs) (?r\<lparr> vr_line := body, vr_json_line := body \<rparr>)"
    using b vim_loop_body [of body ?r "Some LF" "x # xs"] by (simp add: init_reader_def)
  also have "\<dots> = Some (init_reader, Some (body @ [x]))"
    using b p by (simp add: init_reader_def Let_def)
  finally show ?thesis .
qed

text \<open>
  C26: A message that arrives in one piece is handled, but not what follows it: a reader between messages delivers a body of
  any length that fits the buffer once and is between messages again; if more bytes are in the piece, the first of them is appended
  to the message and the others are dropped, the next message included.
\<close>

lemma message_in_one_piece_is_handled:
  assumes "vim_body_ok body" "length (vim_header (length body) @ body @ rest) < MAX_VIM_INPUT"
  shows "vim_input env (Some (vim_header (length body) @ body @ rest)) (init_reader, e) =
    (init_reader, handle_json_msg env (body @ cstr (take 1 rest)) e)"
proof -
  obtain x xs where x: "rest @ [NUL] = x # xs" by (cases "rest @ [NUL]") auto
  have "cstr (body @ [x]) = body @ cstr (take 1 rest)"
    using assms(1) x cstr_append_NUL [of body "[]"] cstr_id [of "body @ [x]"]
    by (cases rest; cases "x = NUL") (auto simp: vim_body_ok_def cstr_def)
  moreover have "vim_read_stdin (Some (vim_header (length body) @ body @ rest)) init_reader = Some (init_reader, Some (body @ [x]))"
    using assms(2) vim_loop_message [OF assms(1), of x xs] x by (simp add: vim_read_stdin_def)
  ultimately show ?thesis by (simp add: vim_input_def)
qed

lemma message_in_one_piece_is_handled_witness:
  "vim_input number_env (Some (vim_header (length ''3'') @ ''3'' @ [])) (init_reader, init_editor) =
    (init_reader, handle_json_msg number_env (''3'' @ cstr (take 1 [])) init_editor)"
  by (rule message_in_one_piece_is_handled)
    (simp_all add: vim_body_ok_def MAX_VIM_INPUT_def vim_header_def LENGTH_HEADER_def decimal_rec)

text \<open>
  A message whose header arrives in a piece of its own is lost: the byte behind the piece is taken for the first byte
  of the body, so that an empty string is handled in its place when the body has arrived.
\<close>

lemma message_in_two_pieces_is_lost:
  assumes "vim_body_ok body" "body \<noteq> []"
  shows "vim_input env (Some body) (vim_input env (Some (vim_header (length body))) (init_reader, e)) =
    (init_reader, handle_json_msg env [] e)"
proof -
  let ?r = "init_reader\<lparr> vr_content_len := int (length body), vr_start := True \<rparr>"
  let ?r1 = "?r\<lparr> vr_line := [NUL], vr_json_line := [NUL] \<rparr>"
  have b: "LF \<notin> set body" "NUL \<notin> set body" "length body + 100 < MAX_VIM_INPUT"
    using assms by (simp_all add: vim_body_ok_def)
  then have n: "length body < 2 ^ 31" by (simp add: MAX_VIM_INPUT_def)
  have "vim_read_stdin (Some (vim_header (length body))) init_reader = vim_loop (Some LF) [NUL] ?r"
    using length_vim_header [OF n] vim_loop_start [OF n, of "[NUL]"] by (simp add: vim_read_stdin_def MAX_VIM_INPUT_def)
  also have "\<dots> = Some (?r1, None)" using assms(2) by (simp add: init_reader_def MAX_VIM_INPUT_def Let_def)
  finally have h: "vim_read_stdin (Some (vim_header (length body))) init_reader = Some (?r1, None)" .
  obtain xs x where x: "body = xs @ [x]" using assms(2) by (cases body rule: rev_cases) auto
  have "vim_loop None (xs @ x # [NUL]) ?r1 =
      vim_loop (if xs = [] then None else Some (last xs)) (x # [NUL]) (?r1\<lparr> vr_line := NUL # xs, vr_json_line := NUL # xs \<rparr>)"
    using b x vim_loop_body [of xs ?r1 None "x # [NUL]"] by (simp add: init_reader_def)
  also have "\<dots> = Some (init_reader, Some (NUL # body))"
    using b x by (auto simp add: init_reader_def Let_def)
  finally have "vim_read_stdin (Some body) ?r1 = Some (init_reader, Some (NUL # body))"
    using b x by (simp add: vim_read_stdin_def)
  with h show ?thesis by (simp add: vim_input_def cstr_def)
qed

lemma message_in_two_pieces_is_lost_witness:
  "vim_input number_env (Some ''3'') (vim_input number_env (Some (vim_header (length ''3''))) (init_reader, init_editor)) =
    (init_reader, handle_json_msg number_env [] init_editor)"
  by (rule message_in_two_pieces_is_lost) (simp_all add: vim_body_ok_def MAX_VIM_INPUT_def)

end
