(* ===== verification/BoyerMoore.thy ===== *)
theory BoyerMoore
  imports Prelude "HOL-Library.Sublist"
begin

text \<open>
  The substring search of \<open>ext/klib/kstring.c\<close>: the tables of \<open>ksBM_prep\<close> and the search of
  \<open>kmemmem\<close>, after Boyer and Moore. The variable \<open>g\<close> of the code, which may be -1, is represented by
  \<open>g + 1\<close>. Lengths and offsets are numbers without bound, where the code has \<open>int\<close>: its sums, such as \<open>i + m - 1 - f\<close>, can exceed an
  \<open>int\<close> for patterns of more than \<open>2 ^ 30\<close> bytes, and \<open>kstrstr\<close> and \<open>kstrnstr\<close> cut the results of \<open>strlen\<close> to it.
  What is proved is meant for texts and patterns below these bounds.
\<close>

section \<open>The tables\<close>

text \<open>\<open>preBmBc\<close>: how far the last occurrence of a byte is from the end of the pattern.\<close>

definition bm_bad_char :: "string \<Rightarrow> nat list" where
  "bm_bad_char pat =
     (let m = length pat
      in foldl (\<lambda>bc i. bc[of_char (pat ! i) := m - i - 1]) (replicate 256 m) [0..<m - 1])"

text \<open>The inner loop of \<open>suffixes\<close>, which compares backwards; \<open>off\<close> is \<open>m - 1 - f\<close>.\<close>

primrec scan_back :: "string \<Rightarrow> nat \<Rightarrow> nat \<Rightarrow> nat" where
  "scan_back pat off 0 = 0"
| "scan_back pat off (Suc g) = (if pat ! g = pat ! (g + off) then scan_back pat off g else Suc g)"

text \<open>The variables of \<open>suffixes\<close>; \<open>ss_g\<close> is \<open>g + 1\<close>, since \<open>g\<close> goes down to \<open>- 1\<close>.\<close>

record suff_state =
  ss_suff :: "nat list"
  ss_f :: nat
  ss_g :: nat

definition suffixes_step :: "string \<Rightarrow> nat \<Rightarrow> suff_state \<Rightarrow> suff_state" where
  "suffixes_step pat i st =
     (let m = length pat; f = ss_f st; g = ss_g st; suff = ss_suff st
      in if i \<ge> g \<and> suff ! (i + m - 1 - f) < i + 1 - g
         then st\<lparr> ss_suff := suff[i := suff ! (i + m - 1 - f)] \<rparr>
         else
           let g = (if i + 1 < g then i + 1 else g); f = i; g = scan_back pat (m - 1 - f) g
           in \<lparr> ss_suff = suff[i := f + 1 - g], ss_f = f, ss_g = g \<rparr>)"

text \<open>\<open>suffixes\<close>: from the last but one position down to the first.\<close>

definition bm_suffixes :: "string \<Rightarrow> nat list" where
  "bm_suffixes pat =
     (let m = length pat
      in ss_suff (foldl (\<lambda>st i. suffixes_step pat i st)
           \<lparr> ss_suff = (replicate m 0)[m - 1 := m], ss_f = 0, ss_g = m \<rparr> (rev [0..<m - 1])))"

text \<open>
  \<open>preBmGs\<close>: the first loop treats the prefixes that are suffixes, the second the suffixes within the
  pattern. The state of the first is the table and \<open>j\<close>.
\<close>

definition gs_fill :: "nat \<Rightarrow> nat \<Rightarrow> nat \<Rightarrow> nat list \<Rightarrow> nat list" where
  "gs_fill m v j gs = foldl (\<lambda>gs j. if gs ! j = m then gs[j := v] else gs) gs [j..<v]"

definition gs_prefix_step :: "nat \<Rightarrow> nat list \<Rightarrow> nat list \<times> nat \<Rightarrow> nat \<Rightarrow> nat list \<times> nat" where
  "gs_prefix_step m suff st i =
     (case st of (gs, j) \<Rightarrow>
        if suff ! i = i + 1 then (gs_fill m (m - 1 - i) j gs, max j (m - 1 - i)) else (gs, j))"

definition bm_good_suffix :: "string \<Rightarrow> nat list" where
  "bm_good_suffix pat =
     (let m = length pat; suff = bm_suffixes pat;
          gs = fst (foldl (gs_prefix_step m suff) (replicate m m, 0) (rev [0..<m]))
      in foldl (\<lambda>gs i. gs[m - 1 - suff ! i := m - 1 - i]) gs [0..<m - 1])"

text \<open>The array \<open>prep\<close>: the table of good suffixes, then that of bad bytes.\<close>

definition ksBM_prep :: "string \<Rightarrow> nat list" where
  "ksBM_prep pat = bm_good_suffix pat @ bm_bad_char pat"

section \<open>The search\<close>

text \<open>
  The loop of \<open>kmemmem\<close> at offset \<open>j\<close>: \<open>scan_at\<close> is \<open>i + 1\<close> when the comparison stops. Whether the loop ends is
  not clear from the code, so that it is a partial function.
\<close>

primrec scan_at :: "string \<Rightarrow> string \<Rightarrow> nat \<Rightarrow> nat \<Rightarrow> nat" where
  "scan_at pat str j 0 = 0"
| "scan_at pat str j (Suc i) = (if pat ! i = str ! (i + j) then scan_at pat str j i else Suc i)"

definition bm_shift :: "nat list \<Rightarrow> nat \<Rightarrow> char \<Rightarrow> nat \<Rightarrow> int" where
  "bm_shift prep m c i = max (int (prep ! (m + of_char c)) - int m + 1 + int i) (int (prep ! i))"

partial_function (option) kmemmem_loop :: "string \<Rightarrow> string \<Rightarrow> nat list \<Rightarrow> int \<Rightarrow> nat option option" where
  "kmemmem_loop str pat prep j =
     (if j \<le> int (length str) - int (length pat) then
        (case scan_at pat str (nat j) (length pat) of
           0 \<Rightarrow> Some (Some (nat j))
         | Suc i \<Rightarrow> kmemmem_loop str pat prep (j + bm_shift prep (length pat) (str ! (i + nat j)) i))
      else Some None)"

text \<open>
  The offset of the first occurrence, if there is one, with a table that was computed before or a new one. The table a caller
  gets back through \<open>_prep\<close> is the one that is used here. For an empty
  pattern \<open>ksBM_prep\<close> writes in front of its array, which is the outcome \<open>None\<close>.
\<close>

definition kmemmem :: "string \<Rightarrow> string \<Rightarrow> nat list option \<Rightarrow> nat option option" where
  "kmemmem str pat prep =
     (if pat = [] \<and> prep = None then None
      else kmemmem_loop str pat (case prep of None \<Rightarrow> ksBM_prep pat | Some p \<Rightarrow> p) 0)"

definition kstrstr :: "string \<Rightarrow> string \<Rightarrow> nat list option \<Rightarrow> nat option option" where
  "kstrstr str pat prep = kmemmem (cstr str) (cstr pat) prep"

definition kstrnstr :: "string \<Rightarrow> string \<Rightarrow> nat \<Rightarrow> nat list option \<Rightarrow> nat option option" where
  "kstrnstr str pat n prep = kmemmem (take n str) (cstr pat) prep"

section \<open>Suffix lengths\<close>

text \<open>The comparisons.\<close>

lemma scan_back_le: "scan_back pat off g \<le> g"
  by (induction g) auto

lemma scan_back_match: "scan_back pat off g \<le> k \<Longrightarrow> k < g \<Longrightarrow> pat ! k = pat ! (k + off)"
  by (induction g) (auto split: if_splits simp: less_Suc_eq)

lemma scan_back_stop: "0 < scan_back pat off g \<Longrightarrow> pat ! (scan_back pat off g - 1) \<noteq> pat ! (scan_back pat off g - 1 + off)"
  by (induction g) (auto split: if_splits)

lemma scan_back_unique:
  assumes "c \<le> g" "\<And>k. c \<le> k \<Longrightarrow> k < g \<Longrightarrow> pat ! k = pat ! (k + off)" "0 < c \<Longrightarrow> pat ! (c - 1) \<noteq> pat ! (c - 1 + off)"
  shows "scan_back pat off g = c"
  using assms(1,2)
proof (induction g)
  case (Suc g)
  show ?case
  proof (cases "c = Suc g")
    case True
    with assms(3) show ?thesis by simp
  next
    case False
    with Suc show ?thesis by (simp add: less_Suc_eq)
  qed
qed simp

text \<open>The length of the longest suffix of the pattern that ends at a position.\<close>

definition suffix_len :: "string \<Rightarrow> nat \<Rightarrow> nat" where
  "suffix_len pat i = i + 1 - scan_back pat (length pat - 1 - i) (i + 1)"

lemma suffix_len_le: "suffix_len pat i \<le> i + 1"
  by (simp add: suffix_len_def)

lemma suffix_len_match: "i < length pat \<Longrightarrow> t < suffix_len pat i \<Longrightarrow> pat ! (i - t) = pat ! (length pat - 1 - t)"
  using scan_back_match [of pat "length pat - 1 - i" "i + 1" "i - t"] by (auto simp: suffix_len_def)

lemma suffix_len_stop:
  assumes "i < length pat" "suffix_len pat i \<le> i"
  shows "pat ! (i - suffix_len pat i) \<noteq> pat ! (length pat - 1 - suffix_len pat i)"
proof -
  let ?c = "scan_back pat (length pat - 1 - i) (i + 1)"
  have c: "?c \<le> i + 1" by (rule scan_back_le)
  with assms(2) have "0 < ?c" unfolding suffix_len_def by linarith
  from scan_back_stop [OF this] have "pat ! (?c - 1) \<noteq> pat ! (?c - 1 + (length pat - 1 - i))" .
  moreover have "i - suffix_len pat i = ?c - 1" "length pat - 1 - suffix_len pat i = ?c - 1 + (length pat - 1 - i)"
    using c \<open>0 < ?c\<close> assms(1) unfolding suffix_len_def by linarith+
  ultimately show ?thesis by (simp only: simp_thms)
qed

lemma suffix_len_unique:
  assumes "i < length pat" "k \<le> i + 1" "\<And>t. t < k \<Longrightarrow> pat ! (i - t) = pat ! (length pat - 1 - t)"
    and "k \<le> i \<Longrightarrow> pat ! (i - k) \<noteq> pat ! (length pat - 1 - k)"
  shows "suffix_len pat i = k"
proof -
  let ?off = "length pat - 1 - i"
  have "scan_back pat ?off (i + 1) = i + 1 - k"
  proof (rule scan_back_unique)
    fix l assume l: "i + 1 - k \<le> l" "l < i + 1"
    then have "i - (i - l) = l" "length pat - 1 - (i - l) = l + ?off" using assms(1) by linarith+
    with assms(3) [of "i - l"] l show "pat ! l = pat ! (l + ?off)" by simp
  next
    assume "0 < i + 1 - k"
    then have "k \<le> i" "i + 1 - k - 1 = i - k" "i + 1 - k - 1 + ?off = length pat - 1 - k" using assms(1) by linarith+
    with assms(4) show "pat ! (i + 1 - k - 1) \<noteq> pat ! (i + 1 - k - 1 + ?off)" by (simp only: not_False_eq_True)
  qed simp
  with assms(2) show ?thesis by (simp add: suffix_len_def)
qed

text \<open>At least as long: all positions match.\<close>

lemma suffix_len_ge:
  assumes "i < length pat" "k \<le> i + 1" "\<And>t. t < k \<Longrightarrow> pat ! (i - t) = pat ! (length pat - 1 - t)"
  shows "k \<le> suffix_len pat i"
proof (rule ccontr)
  assume "\<not> k \<le> suffix_len pat i"
  then have "suffix_len pat i < k" "suffix_len pat i \<le> i" using assms(2) by linarith+
  with assms(3) suffix_len_stop [OF assms(1)] show False by blast
qed


text \<open>
  The invariant of \<open>suffixes\<close> when the positions from \<open>n\<close> are done: the window between \<open>g\<close> and \<open>f\<close> matches the end
  of the pattern.
\<close>

definition suff_inv :: "string \<Rightarrow> nat \<Rightarrow> suff_state \<Rightarrow> bool" where
  "suff_inv pat n st \<longleftrightarrow>
     (let m = length pat
      in length (ss_suff st) = m \<and> (\<forall>k. n \<le> k \<and> k < m \<longrightarrow> ss_suff st ! k = suffix_len pat k) \<and>
         (ss_g st = m \<or> n \<le> ss_f st \<and> ss_f st < m - 1 \<and> ss_g st \<le> ss_f st + 1 \<and>
            (\<forall>l. ss_g st \<le> l \<and> l \<le> ss_f st \<longrightarrow> pat ! l = pat ! (l + (m - 1 - ss_f st)))))"

lemma suff_invI:
  assumes "length suff = length pat" "\<And>k. n \<le> k \<Longrightarrow> k < length pat \<Longrightarrow> suff ! k = suffix_len pat k"
    and "n \<le> f" "f < length pat - 1" "g \<le> f + 1" "\<And>l. g \<le> l \<Longrightarrow> l \<le> f \<Longrightarrow> pat ! l = pat ! (l + (length pat - 1 - f))"
  shows "suff_inv pat n \<lparr> ss_suff = suff, ss_f = f, ss_g = g \<rparr>"
  unfolding suff_inv_def Let_def suff_state.select_convs using assms by blast

lemma suff_window:
  assumes inv: "suff_inv pat (Suc i) st" and "Suc i < length pat" "ss_g st \<le> i"
  defines "i' \<equiv> i + length pat - 1 - ss_f st"
  shows "i < i'" "i' < length pat" "ss_suff st ! i' = suffix_len pat i'"
    "\<And>t. ss_g st + t \<le> i \<Longrightarrow> pat ! (i - t) = pat ! (i' - t)"
proof -
  have f: "Suc i \<le> ss_f st" "ss_f st < length pat - 1"
    and w: "\<And>l. ss_g st \<le> l \<Longrightarrow> l \<le> ss_f st \<Longrightarrow> pat ! l = pat ! (l + (length pat - 1 - ss_f st))"
    and s: "\<And>k. Suc i \<le> k \<Longrightarrow> k < length pat \<Longrightarrow> ss_suff st ! k = suffix_len pat k"
    using inv assms(2,3) by (auto simp: suff_inv_def Let_def)
  show i: "i < i'" "i' < length pat" using f by (auto simp: i'_def)
  then show "ss_suff st ! i' = suffix_len pat i'" by (intro s) auto
  fix t assume t: "ss_g st + t \<le> i"
  then have "pat ! (i - t) = pat ! (i - t + (length pat - 1 - ss_f st))" using f by (intro w) auto
  moreover have "i - t + (length pat - 1 - ss_f st) = i' - t" using f t by (auto simp: i'_def)
  ultimately show "pat ! (i - t) = pat ! (i' - t)" by (simp only:)
qed

lemma suff_inv_step:
  assumes inv: "suff_inv pat (Suc i) st" and i: "Suc i < length pat"
  shows "suff_inv pat i (suffixes_step pat i st)"
proof -
  let ?m = "length pat"
  let ?i = "i + ?m - 1 - ss_f st"
  let ?g = "ss_g st"
  have len: "length (ss_suff st) = ?m" and old: "\<And>k. Suc i \<le> k \<Longrightarrow> k < ?m \<Longrightarrow> ss_suff st ! k = suffix_len pat k"
    using inv by (auto simp: suff_inv_def Let_def)
  show ?thesis
  proof (cases "i \<ge> ?g \<and> ss_suff st ! ?i < i + 1 - ?g")
    case True
    note w = suff_window [OF inv i]
    let ?k = "suffix_len pat ?i"
    have g: "?g \<le> i" and k: "ss_suff st ! ?i = ?k" "?g + ?k \<le> i" using True w(3) by auto
    have "suffix_len pat i = ?k"
    proof (rule suffix_len_unique)
      fix t assume t: "t < ?k"
      then have "pat ! (i - t) = pat ! (?i - t)" using w(4) [OF g] k by auto
      also have "\<dots> = pat ! (?m - 1 - t)" using suffix_len_match w(2) [OF g] t by blast
      finally show "pat ! (i - t) = pat ! (?m - 1 - t)" .
    next
      have "pat ! (i - ?k) = pat ! (?i - ?k)" using w(4) [OF g] k by auto
      moreover have "pat ! (?i - ?k) \<noteq> pat ! (?m - 1 - ?k)"
        by (rule suffix_len_stop [OF w(2) [OF g]]) (use k w(1) [OF g] in linarith)
      ultimately show "pat ! (i - ?k) \<noteq> pat ! (?m - 1 - ?k)" by simp
    qed (use i k in auto)
    with True k old len inv i show ?thesis
      by (auto simp: suff_inv_def suffixes_step_def Let_def nth_list_update le_eq_less_or_eq [of i] Suc_le_eq)
  next
    case False
    let ?g1 = "if i + 1 < ?g then i + 1 else ?g"
    let ?off = "?m - 1 - i"
    let ?c = "scan_back pat ?off ?g1"
    have c: "?c \<le> ?g1" by (rule scan_back_le)
    have match: "pat ! l = pat ! (l + ?off)" if l: "?c \<le> l" "l < i + 1" for l
    proof (cases "l < ?g1")
      case True
      with l(1) show ?thesis by (rule scan_back_match)
    next
      case l1: False
      then have g: "?g \<le> i" "?g \<le> l" using l by (auto split: if_splits)
      note w = suff_window [OF inv i g(1)]
      from False g w(3) have s: "i + 1 - ?g \<le> suffix_len pat ?i" by auto
      have t: "i - (i - l) = l" "?g + (i - l) \<le> i" "i - l < suffix_len pat ?i" using g l s by auto
      from w(4) [OF t(2)] t(1) have "pat ! l = pat ! (?i - (i - l))" by simp
      also have "\<dots> = pat ! (?m - 1 - (i - l))" by (rule suffix_len_match [OF w(2) t(3)])
      also have "?m - 1 - (i - l) = l + ?off" using i l by auto
      finally show ?thesis .
    qed
    have "scan_back pat ?off (i + 1) = ?c"
    proof (rule scan_back_unique)
      show "?c \<le> i + 1" using c by (simp split: if_splits)
    next
      fix l assume "?c \<le> l" "l < i + 1"
      then show "pat ! l = pat ! (l + ?off)" by (rule match)
    next
      assume "0 < ?c"
      then show "pat ! (?c - 1) \<noteq> pat ! (?c - 1 + ?off)" by (rule scan_back_stop)
    qed
    then have e: "suffix_len pat i = i + 1 - ?c" by (simp only: suffix_len_def)
    have step: "suffixes_step pat i st = \<lparr> ss_suff = (ss_suff st)[i := i + 1 - ?c], ss_f = i, ss_g = ?c \<rparr>"
      using False by (simp only: suffixes_step_def Let_def if_False)
    show ?thesis unfolding step
    proof (rule suff_invI)
      show "length ((ss_suff st)[i := i + 1 - ?c]) = ?m" using len by simp
      show "(ss_suff st)[i := i + 1 - ?c] ! k = suffix_len pat k" if "i \<le> k" "k < ?m" for k
        using that e old [of k] len by (cases "k = i") auto
      have "?g1 \<le> i + 1" by simp
      with c show "?c \<le> i + 1" by (rule order_trans)
      show "i < ?m - 1" using i by linarith
      show "pat ! l = pat ! (l + ?off)" if "?c \<le> l" "l \<le> i" for l
        using that(1) by (rule match) (use that(2) in linarith)
    qed simp
  qed
qed

lemma bm_suffixes_spec: "pat \<noteq> [] \<Longrightarrow> length (bm_suffixes pat) = length pat \<and>
    (\<forall>i<length pat. bm_suffixes pat ! i = suffix_len pat i)"
proof -
  assume ne: "pat \<noteq> []"
  let ?m = "length pat"
  let ?st = "\<lparr> ss_suff = (replicate ?m 0)[?m - 1 := ?m], ss_f = 0, ss_g = ?m \<rparr>"
  have m: "0 < ?m" using ne by simp
  have last: "suffix_len pat (?m - 1) = ?m"
    by (rule suffix_len_unique) (use m in \<open>simp_all add: Suc_diff_1 del: length_greater_0_conv\<close>)
  have init: "suff_inv pat (?m - 1) ?st"
  proof -
    have "(replicate ?m 0)[?m - 1 := ?m] ! k = suffix_len pat k" if "?m - 1 \<le> k" "k < ?m" for k
    proof -
      have "k = ?m - 1" using that by linarith
      with last m show ?thesis by simp
    qed
    then show ?thesis by (simp add: suff_inv_def Let_def)
  qed
  have "suff_inv pat (?m - 1 - d) (foldl (\<lambda>st i. suffixes_step pat i st) ?st (rev [?m - 1 - d..<?m - 1]))" if "d \<le> ?m - 1" for d
    using that
  proof (induction d)
    case 0
    with init show ?case by simp
  next
    case (Suc d)
    let ?i = "?m - 1 - Suc d"
    have i: "?m - 1 - d = Suc ?i" "Suc ?i < ?m \<or> Suc ?i = ?m" using Suc.prems by linarith+
    have "[?i..<?m - 1] = ?i # [Suc ?i..<?m - 1]" using Suc.prems by (intro upt_conv_Cons) linarith
    moreover have "Suc ?i < ?m" using Suc.prems by linarith
    moreover have "suff_inv pat (Suc ?i) (foldl (\<lambda>st i. suffixes_step pat i st) ?st (rev [Suc ?i..<?m - 1]))"
      using Suc i(1) by simp
    ultimately show ?case using suff_inv_step by (simp only: rev.simps foldl_append foldl.simps)
  qed
  from this [of "?m - 1"] show ?thesis by (auto simp: suff_inv_def bm_suffixes_def Let_def)
qed

section \<open>Shifts\<close>

text \<open>
  A shift by \<open>s\<close> is possible after a mismatch at \<open>i\<close>: the shifted pattern agrees with the part that
  matched and differs at the mismatch.
\<close>

definition can_shift :: "string \<Rightarrow> nat \<Rightarrow> nat \<Rightarrow> bool" where
  "can_shift pat i s \<longleftrightarrow>
     (\<forall>p. i < p \<and> p < length pat \<and> s \<le> p \<longrightarrow> pat ! (p - s) = pat ! p) \<and> (s \<le> i \<longrightarrow> pat ! (i - s) \<noteq> pat ! i)"

lemma gs_fill_loop:
  "length gs = m \<Longrightarrow> n \<le> m \<Longrightarrow>
   length (foldl (\<lambda>gs j. if gs ! j = m then gs[j := v] else gs) gs [j..<n]) = m \<and>
   (\<forall>k<m. foldl (\<lambda>gs j. if gs ! j = m then gs[j := v] else gs) gs [j..<n] ! k =
      (if j \<le> k \<and> k < n \<and> gs ! k = m then v else gs ! k))"
proof (induction n)
  case (Suc n)
  then show ?case by (cases "j \<le> n") (auto simp: nth_list_update less_Suc_eq)
qed simp

lemma gs_fill_spec: "length gs = m \<Longrightarrow> v \<le> m \<Longrightarrow> length (gs_fill m v j gs) = m \<and>
    (\<forall>k<m. gs_fill m v j gs ! k = (if j \<le> k \<and> k < v \<and> gs ! k = m then v else gs ! k))"
  unfolding gs_fill_def by (rule gs_fill_loop)

text \<open>The invariant of the first loop when the positions from \<open>n\<close> are done.\<close>

definition gs_inv :: "nat \<Rightarrow> nat list \<Rightarrow> nat \<Rightarrow> nat list \<times> nat \<Rightarrow> bool" where
  "gs_inv m suff n st \<longleftrightarrow>
     (case st of (gs, j) \<Rightarrow>
        length gs = m \<and> j \<le> m - n \<and> (\<forall>k<m. 0 < gs ! k) \<and> (\<forall>k<m. j \<le> k \<longrightarrow> gs ! k = m) \<and>
        (\<forall>k<j. k < m \<longrightarrow> gs ! k \<le> m - n) \<and>
        (\<forall>i k. n \<le> i \<and> i < m \<and> suff ! i = i + 1 \<and> k < m - 1 - i \<longrightarrow> gs ! k \<le> m - 1 - i))"

lemma gs_inv_step:
  assumes inv: "gs_inv m suff (Suc i) st" and i: "i < m"
  shows "gs_inv m suff i (gs_prefix_step m suff st i)"
proof -
  obtain gs j where st: "st = (gs, j)" by (cases st)
  have len: "length gs = m" and j: "j \<le> m - Suc i" and pos: "\<And>k. k < m \<Longrightarrow> 0 < gs ! k"
    and free: "\<And>k. k < m \<Longrightarrow> j \<le> k \<Longrightarrow> gs ! k = m" and low: "\<And>k. k < j \<Longrightarrow> k < m \<Longrightarrow> gs ! k \<le> m - Suc i"
    and bound: "\<And>i' k. Suc i \<le> i' \<Longrightarrow> i' < m \<Longrightarrow> suff ! i' = i' + 1 \<Longrightarrow> k < m - 1 - i' \<Longrightarrow> gs ! k \<le> m - 1 - i'"
    using inv by (auto simp: gs_inv_def st)
  show ?thesis
  proof (cases "suff ! i = i + 1")
    case True
    let ?v = "m - 1 - i"
    let ?gs = "gs_fill m ?v j gs"
    have l: "length ?gs = m" and n: "\<And>k. k < m \<Longrightarrow> ?gs ! k = (if j \<le> k \<and> k < ?v \<and> gs ! k = m then ?v else gs ! k)"
      using gs_fill_spec [OF len, of ?v j] by auto
    have new: "?gs ! k \<le> ?v" if "k < ?v" for k
      using that n [of k] free [of k] low [of k] i by (cases "j \<le> k") auto
    have old: "?gs ! k \<le> m - 1 - i'" if "Suc i \<le> i'" "i' < m" "suff ! i' = i' + 1" "k < m - 1 - i'" for i' k
    proof (cases "j \<le> k")
      case True
      then have "gs ! k = m" using that by (intro free) auto
      moreover have "gs ! k \<le> m - 1 - i'" by (rule bound [OF that])
      ultimately show ?thesis using that by linarith
    next
      case False
      with n [of k] bound [OF that] that show ?thesis by simp
    qed
    have st': "gs_prefix_step m suff st i = (?gs, max j ?v)" using True by (simp add: gs_prefix_step_def st)
    have "0 < ?gs ! k" if "k < m" for k using n [OF that] pos [OF that] by auto
    moreover have "?gs ! k = m" if "k < m" "max j ?v \<le> k" for k using n [OF that(1)] free that by auto
    moreover have "?gs ! k \<le> m - i" if "k < max j ?v" "k < m" for k
    proof (cases "k < ?v")
      case True
      with new [of k] show ?thesis by linarith
    next
      case v: False
      with that have "gs ! k \<le> m - Suc i" by (intro low) auto
      moreover have "?gs ! k = gs ! k" using n [OF that(2)] v by simp
      ultimately show ?thesis by linarith
    qed
    moreover have "?gs ! k \<le> m - 1 - i'" if "i \<le> i'" "i' < m" "suff ! i' = i' + 1" "k < m - 1 - i'" for i' k
      using that new old by (cases "i' = i") auto
    ultimately show ?thesis using l j i unfolding gs_inv_def st' by auto
  next
    case False
    have "gs ! k \<le> m - i" if "k < j" "k < m" for k using low [OF that] by linarith
    moreover have "gs ! k \<le> m - 1 - i'" if "i \<le> i'" "i' < m" "suff ! i' = i' + 1" "k < m - 1 - i'" for i' k
      using that False bound by (cases "i' = i") auto
    moreover have "j \<le> m - i" using j by linarith
    ultimately show ?thesis using len pos free False by (auto simp: gs_inv_def gs_prefix_step_def st)
  qed
qed

lemma gs_prefix_loop: "0 < m \<Longrightarrow> gs_inv m suff 0 (foldl (gs_prefix_step m suff) (replicate m m, 0) (rev [0..<m]))"
proof -
  assume m: "0 < m"
  have "gs_inv m suff (m - d) (foldl (gs_prefix_step m suff) (replicate m m, 0) (rev [m - d..<m]))" if "d \<le> m" for d
    using that
  proof (induction d)
    case 0
    with m show ?case by (simp add: gs_inv_def)
  next
    case (Suc d)
    let ?i = "m - Suc d"
    have i: "m - d = Suc ?i" "?i < m" using Suc.prems by linarith+
    then have "[?i..<m] = ?i # [Suc ?i..<m]" by (intro upt_conv_Cons)
    moreover have "gs_inv m suff (Suc ?i) (foldl (gs_prefix_step m suff) (replicate m m, 0) (rev [Suc ?i..<m]))"
      using Suc i(1) by simp
    ultimately show ?case using gs_inv_step [OF _ i(2)] by (simp only: rev.simps foldl_append foldl.simps)
  qed
  from this [of m] show ?thesis by simp
qed

text \<open>The second loop.\<close>

lemma gs_suffix_loop:
  fixes m :: nat
  assumes "length gs = m" "\<And>k. k < m \<Longrightarrow> 0 < gs ! k" "\<And>i. i < m \<Longrightarrow> suff ! i \<le> i + 1" "n \<le> m - 1"
  defines "res \<equiv> foldl (\<lambda>gs i. gs[m - 1 - suff ! i := m - 1 - i]) gs [0..<n]"
  shows "length res = m \<and> (\<forall>k<m. 0 < res ! k) \<and> (\<forall>i<n. res ! (m - 1 - suff ! i) \<le> m - 1 - i) \<and>
    (\<forall>k s. k < m \<and> k < s \<and> gs ! k \<le> s \<longrightarrow> res ! k \<le> s)"
  unfolding res_def using assms(4)
proof (induction n)
  case 0
  with assms show ?case by simp
next
  case (Suc n)
  let ?r = "foldl (\<lambda>gs i. gs[m - 1 - suff ! i := m - 1 - i]) gs [0..<n]"
  let ?k = "m - 1 - suff ! n"
  let ?r' = "?r[?k := m - 1 - n]"
  have IH: "length ?r = m" "\<And>k. k < m \<Longrightarrow> 0 < ?r ! k" "\<And>i. i < n \<Longrightarrow> ?r ! (m - 1 - suff ! i) \<le> m - 1 - i"
    "\<And>k s. k < m \<Longrightarrow> k < s \<Longrightarrow> gs ! k \<le> s \<Longrightarrow> ?r ! k \<le> s"
    using Suc by auto
  have k: "?k < m" "m - 1 - n \<le> ?k + 1" "0 < m - 1 - n" using assms(3) [of n] Suc.prems by linarith+
  have "0 < ?r' ! k" if "k < m" for k using IH(1) IH(2) [OF that] that k by (simp add: nth_list_update)
  moreover have "?r' ! (m - 1 - suff ! i) \<le> m - 1 - i" if "i < Suc n" for i
    using that IH(1,3) k(1) by (auto simp: nth_list_update less_Suc_eq)
  moreover have "?r' ! k' \<le> s" if "k' < m" "k' < s" "gs ! k' \<le> s" for k' s
    using IH(1) IH(4) [OF that] k that by (auto simp: nth_list_update)
  ultimately show ?case using IH(1) by simp
qed

lemma good_suffix_spec:
  assumes "pat \<noteq> []"
  shows "length (bm_good_suffix pat) = length pat" "\<And>k. k < length pat \<Longrightarrow> 0 < bm_good_suffix pat ! k"
    "\<And>k s. k < length pat \<Longrightarrow> 0 < s \<Longrightarrow> can_shift pat k s \<Longrightarrow> bm_good_suffix pat ! k \<le> s"
proof -
  let ?m = "length pat"
  let ?suff = "bm_suffixes pat"
  obtain gs j where p: "foldl (gs_prefix_step ?m ?suff) (replicate ?m ?m, 0) (rev [0..<?m]) = (gs, j)" by fastforce
  have m: "0 < ?m" using assms by simp
  have suff: "\<And>i. i < ?m \<Longrightarrow> ?suff ! i = suffix_len pat i" using bm_suffixes_spec [OF assms] by auto
  have g: "length gs = ?m" "\<And>k. k < ?m \<Longrightarrow> 0 < gs ! k"
    "\<And>i k. i < ?m \<Longrightarrow> ?suff ! i = i + 1 \<Longrightarrow> k < ?m - 1 - i \<Longrightarrow> gs ! k \<le> ?m - 1 - i"
    using gs_prefix_loop [OF m, of ?suff] by (auto simp: p gs_inv_def)
  have le: "\<And>i. i < ?m \<Longrightarrow> ?suff ! i \<le> i + 1" using suff suffix_len_le by simp
  have r: "bm_good_suffix pat = foldl (\<lambda>gs i. gs[?m - 1 - ?suff ! i := ?m - 1 - i]) gs [0..<?m - 1]"
    by (simp only: bm_good_suffix_def Let_def p fst_conv)
  note loop = gs_suffix_loop [OF g(1,2) le order_refl, folded r]
  show "length (bm_good_suffix pat) = ?m" "\<And>k. k < ?m \<Longrightarrow> 0 < bm_good_suffix pat ! k" using loop by auto
  fix k s assume k: "k < ?m" "0 < s" "can_shift pat k s"
  have top: "bm_good_suffix pat ! k \<le> t" if "k < t" "gs ! k \<le> t" for t using loop that k(1) by blast
  have le_m: "gs ! k \<le> ?m"
    using gs_prefix_loop [OF m, of ?suff] k(1) by (cases "k < j") (auto simp: p gs_inv_def)
  have agree: "pat ! (?m - 1 - s - t) = pat ! (?m - 1 - t)" if "k < ?m - 1 - t" "s \<le> ?m - 1 - t" for t
  proof -
    have "pat ! (?m - 1 - t - s) = pat ! (?m - 1 - t)" using k(3) that m unfolding can_shift_def by auto
    moreover have "?m - 1 - t - s = ?m - 1 - s - t" by linarith
    ultimately show ?thesis by simp
  qed
  consider "?m \<le> s" | "s < ?m" "s \<le> k" | "s < ?m" "k < s" by linarith
  then show "bm_good_suffix pat ! k \<le> s"
  proof cases
    case 1
    with k(1) le_m show ?thesis by (intro top) auto
  next
    case 2
    let ?i = "?m - 1 - s"
    have i: "?i < ?m" "?i < ?m - 1" "?m - 1 - ?i = s" using 2 k(2) m by linarith+
    have "suffix_len pat ?i = ?m - 1 - k"
    proof (rule suffix_len_unique [OF i(1)])
      show "?m - 1 - k \<le> ?i + 1" using 2 k(1) by linarith
      show "pat ! (?i - t) = pat ! (?m - 1 - t)" if "t < ?m - 1 - k" for t
        by (rule agree) (use that 2 in linarith)+
      have "?i - (?m - 1 - k) = k - s" "?m - 1 - (?m - 1 - k) = k" using k(1) 2 by linarith+
      then show "pat ! (?i - (?m - 1 - k)) \<noteq> pat ! (?m - 1 - (?m - 1 - k))"
        using k(3) 2 unfolding can_shift_def by simp
    qed
    then have "?suff ! ?i = ?m - 1 - k" using suff [OF i(1)] by simp
    moreover have "bm_good_suffix pat ! (?m - 1 - ?suff ! ?i) \<le> ?m - 1 - ?i" using loop i(2) by blast
    moreover have "?m - 1 - (?m - 1 - k) = k" using k(1) by linarith
    ultimately show ?thesis using i(3) by simp
  next
    case 3
    let ?i = "?m - 1 - s"
    have i: "?i < ?m" "?m - 1 - ?i = s" using 3 m by linarith+
    have "?i + 1 \<le> suffix_len pat ?i"
    proof (rule suffix_len_ge [OF i(1)])
      show "pat ! (?i - t) = pat ! (?m - 1 - t)" if "t < ?i + 1" for t
        by (rule agree) (use that 3 in linarith)+
    qed simp
    then have "?suff ! ?i = ?i + 1" using suff [OF i(1)] suffix_len_le [of pat ?i] by simp
    then have "gs ! k \<le> ?m - 1 - ?i" using 3 i by (intro g(3)) auto
    with 3 i(2) show ?thesis by (intro top) auto
  qed
qed

lemma char_index: "(of_char (c :: char) :: nat) < 256"
  using nat_of_char_less_256 by simp

lemma bad_char_loop:
  assumes "n \<le> length pat - 1"
  defines "bc \<equiv> foldl (\<lambda>bc i. bc[of_char (pat ! i) := length pat - i - 1]) (replicate 256 (length pat)) [0..<n]"
  shows "length bc = 256 \<and> (\<forall>p<n. bc ! of_char (pat ! p) \<le> length pat - p - 1) \<and> (\<forall>c<256. bc ! c \<le> length pat)"
  unfolding bc_def using assms(1)
proof (induction n)
  case (Suc n)
  then show ?case using char_index by (auto simp: nth_list_update less_Suc_eq)
qed simp

lemma bad_char_spec:
  "length (bm_bad_char pat) = 256"
  "p < length pat - 1 \<Longrightarrow> bm_bad_char pat ! of_char (pat ! p) \<le> length pat - p - 1"
  "bm_bad_char pat ! of_char c \<le> length pat"
  using bad_char_loop [of "length pat - 1" pat] char_index [of c] by (auto simp: bm_bad_char_def Let_def)

section \<open>The search finds the first occurrence\<close>

definition occurs :: "string \<Rightarrow> string \<Rightarrow> nat \<Rightarrow> bool" where
  "occurs pat str j \<longleftrightarrow> prefix pat (drop j str)"

lemma occurs_nth: "pat \<noteq> [] \<Longrightarrow> occurs pat str j \<longleftrightarrow>
    j + length pat \<le> length str \<and> (\<forall>k<length pat. str ! (j + k) = pat ! k)"
proof -
  assume ne: "pat \<noteq> []"
  have "occurs pat str j \<longleftrightarrow> length pat \<le> length str - j \<and> (\<forall>k<length pat. drop j str ! k = pat ! k)"
    unfolding occurs_def prefix_def
  proof
    assume "\<exists>zs. drop j str = pat @ zs"
    then obtain zs where z: "drop j str = pat @ zs" by blast
    have "length str - j = length pat + length zs" using arg_cong [OF z, of length] by simp
    with z show "length pat \<le> length str - j \<and> (\<forall>k<length pat. drop j str ! k = pat ! k)" by (simp add: nth_append)
  next
    assume a: "length pat \<le> length str - j \<and> (\<forall>k<length pat. drop j str ! k = pat ! k)"
    then have "take (length pat) (drop j str) = pat" by (intro nth_equalityI) auto
    then have "drop j str = pat @ drop (length pat) (drop j str)" by (metis append_take_drop_id)
    then show "\<exists>zs. drop j str = pat @ zs" by blast
  qed
  moreover have "length pat \<le> length str - j \<longleftrightarrow> j + length pat \<le> length str" using ne by (cases pat) auto
  ultimately show ?thesis by auto
qed

definition first_occurrence :: "string \<Rightarrow> string \<Rightarrow> nat option" where
  "first_occurrence pat str = find (occurs pat str) [0..<Suc (length str)]"

lemma first_occurrence_Some: "occurs pat str j \<Longrightarrow> j \<le> length str \<Longrightarrow> (\<And>k. k < j \<Longrightarrow> \<not> occurs pat str k) \<Longrightarrow>
    first_occurrence pat str = Some j"
  unfolding first_occurrence_def find_Some_iff by (intro exI [of _ j]) (auto simp: nth_append simp del: upt_Suc)

lemma first_occurrence_None: "(\<And>k. \<not> occurs pat str k) \<Longrightarrow> first_occurrence pat str = None"
  unfolding first_occurrence_def find_None_iff by blast

lemma scan_at_0: "scan_at pat str j n = 0 \<Longrightarrow> k < n \<Longrightarrow> str ! (j + k) = pat ! k"
  by (induction n) (auto split: if_splits simp: less_Suc_eq add.commute)

lemma scan_at_Suc: "scan_at pat str j n = Suc i \<Longrightarrow>
    i < n \<and> pat ! i \<noteq> str ! (j + i) \<and> (\<forall>k. i < k \<and> k < n \<longrightarrow> str ! (j + k) = pat ! k)"
  by (induction n) (auto split: if_splits simp: less_Suc_eq add.commute)

lemma bm_shift_prep: "i < length pat \<Longrightarrow> bm_shift (ksBM_prep pat) (length pat) c i =
    max (int (bm_bad_char pat ! of_char c) - int (length pat) + 1 + int i) (int (bm_good_suffix pat ! i))"
  using good_suffix_spec(1) [of pat] by (cases "pat = []") (simp_all add: bm_shift_def ksBM_prep_def nth_append)

text \<open>No occurrence is jumped over.\<close>

lemma bm_shift_safe:
  assumes ne: "pat \<noteq> []" and i: "i < length pat" "pat ! i \<noteq> str ! (j + i)"
    and match: "\<And>k. i < k \<Longrightarrow> k < length pat \<Longrightarrow> str ! (j + k) = pat ! k"
    and s: "0 < s" "int s < bm_shift (ksBM_prep pat) (length pat) (str ! (j + i)) i"
  shows "\<not> occurs pat str (j + s)"
proof
  let ?m = "length pat"
  assume "occurs pat str (j + s)"
  then have occ: "\<And>k. k < ?m \<Longrightarrow> str ! (j + s + k) = pat ! k" using occurs_nth [OF ne] by auto
  note gs = good_suffix_spec [OF ne]
  let ?c = "str ! (j + i)"
  from s(2) consider "int s < int (bm_bad_char pat ! of_char ?c) - int ?m + 1 + int i" | "s < bm_good_suffix pat ! i"
    unfolding bm_shift_prep [OF i(1)] less_max_iff_disj of_nat_less_iff by blast
  then show False
  proof cases
    case 1
    show False
    proof (cases "s \<le> i")
      case True
      then have "pat ! (i - s) = ?c" using occ [of "i - s"] i(1) by simp
      moreover have "i - s < ?m - 1" using s(1) i(1) True by linarith
      ultimately have "bm_bad_char pat ! of_char ?c \<le> ?m - (i - s) - 1" using bad_char_spec(2) [of "i - s" pat] by simp
      with 1 True i(1) show False by linarith
    next
      case False
      with 1 bad_char_spec(3) [of pat ?c] show False by linarith
    qed
  next
    case 2
    have "can_shift pat i s"
      unfolding can_shift_def
    proof (intro conjI allI impI)
      fix p assume p: "i < p \<and> p < ?m \<and> s \<le> p"
      then have "str ! (j + p) = pat ! p" by (intro match) auto
      moreover have "str ! (j + s + (p - s)) = pat ! (p - s)" using p by (intro occ) linarith
      ultimately show "pat ! (p - s) = pat ! p" using p by simp
    next
      assume "s \<le> i"
      then show "pat ! (i - s) \<noteq> pat ! i" using occ [of "i - s"] i by simp
    qed
    with gs(3) [OF i(1) s(1)] 2 show False by simp
  qed
qed

lemma kmemmem_loop_first:
  assumes ne: "pat \<noteq> []" and "\<And>k. k < j \<Longrightarrow> \<not> occurs pat str k"
  shows "kmemmem_loop str pat (ksBM_prep pat) (int j) = Some (first_occurrence pat str)"
  using assms(2)
proof (induction "length str - j" arbitrary: j rule: less_induct)
  case less
  let ?m = "length pat"
  show ?case
  proof (cases "j + ?m \<le> length str")
    case False
    have "\<not> occurs pat str k" for k using less.prems [of k] False occurs_nth [OF ne, of str k] by linarith
    then have "first_occurrence pat str = None" by (rule first_occurrence_None)
    moreover have "\<not> int j \<le> int (length str) - int ?m" using False by linarith
    ultimately show ?thesis by (subst kmemmem_loop.simps) simp
  next
    case True
    then have le: "int j \<le> int (length str) - int ?m" by linarith
    show ?thesis
    proof (cases "scan_at pat str j ?m")
      case 0
      then have "occurs pat str j" using occurs_nth [OF ne] True scan_at_0 by blast
      then have "first_occurrence pat str = Some j" using True less.prems by (intro first_occurrence_Some) auto
      with le 0 show ?thesis by (subst kmemmem_loop.simps) simp
    next
      case (Suc i)
      note scan = scan_at_Suc [OF Suc]
      define s where "s = bm_shift (ksBM_prep pat) ?m (str ! (i + j)) i"
      have "0 < bm_good_suffix pat ! i" using good_suffix_spec(2) [OF ne] scan by blast
      then have pos: "0 < s"
        using scan by (simp add: s_def bm_shift_prep less_max_iff_disj)
      have "\<not> occurs pat str k" if "k < j + nat s" for k
      proof -
        consider "k < j" | "k = j" | "j < k" by linarith
        then show ?thesis
        proof cases
          case 1
          then show ?thesis by (rule less.prems)
        next
          case 2
          with scan show ?thesis using occurs_nth [OF ne, of str j] by auto
        next
          case 3
          then have "0 < k - j" "k - j < nat s" "j + (k - j) = k" using that by linarith+
          with bm_shift_safe [OF ne, of i str j "k - j"] scan show ?thesis
            by (auto simp: s_def add.commute zless_nat_eq_int_zless)
        qed
      qed
      moreover have "length str - (j + nat s) < length str - j" using pos True ne by (cases pat) auto
      ultimately have "kmemmem_loop str pat (ksBM_prep pat) (int (j + nat s)) = Some (first_occurrence pat str)"
        by (intro less.hyps) auto
      moreover have "int (j + nat s) = int j + s" using pos by simp
      ultimately show ?thesis using le Suc by (subst kmemmem_loop.simps) (simp add: s_def)
    qed
  qed
qed

text \<open>
  C38: The search of Boyer and Moore returns, and finds the first occurrence: for every text and every pattern that is not empty, with the
  tables computed now or before, the loop ends, and its result is the first offset at which
  the pattern is a prefix of the rest of the text, or none.
\<close>

lemma kmemmem_finds_first:
  assumes "pat \<noteq> []"
  shows "kmemmem str pat None = Some (find (\<lambda>j. prefix pat (drop j str)) [0..<Suc (length str)]) \<and>
    kmemmem str pat (Some (ksBM_prep pat)) = kmemmem str pat None"
  using kmemmem_loop_first [OF assms, of 0 str] assms
  by (simp add: kmemmem_def first_occurrence_def occurs_def [abs_def] del: upt_Suc)

lemma kmemmem_finds_first_witness:
  "kmemmem ''abcdefgcdg'' ''cd'' None = Some (find (\<lambda>j. prefix ''cd'' (drop j ''abcdefgcdg'')) [0..<Suc (length ''abcdefgcdg'')]) \<and>
   kmemmem ''abcdefgcdg'' ''cd'' (Some (ksBM_prep ''cd'')) = kmemmem ''abcdefgcdg'' ''cd'' None"
  by (rule kmemmem_finds_first) simp

end
