(* ===== verification/KText.thy ===== *)
theory KText
  imports JsonOut
begin

text \<open>
  Cutting text with \<open>ext/klib/kstring.c\<close>: the tokenizer \<open>kstrtok\<close>, the splitter \<open>ksplit_core\<close>
  and the line reader \<open>kgetline\<close>; and what is left of \<open>kstring.h\<close>: the appends without a terminator and the accessors.
\<close>

section \<open>Splitting at separators\<close>

text \<open>The reference: the pieces between separators, empty ones included.\<close>

fun split_at :: "('a \<Rightarrow> bool) \<Rightarrow> 'a list \<Rightarrow> 'a list list" where
  "split_at P [] = [[]]"
| "split_at P (x # xs) = (if P x then [] # split_at P xs else (case split_at P xs of [] \<Rightarrow> [[x]] | y # ys \<Rightarrow> (x # y) # ys))"

lemma split_at_not_Nil [simp]: "split_at P xs \<noteq> []"
  by (induction xs) (auto split: list.split)

lemma split_at_takeWhile: "split_at P xs =
    takeWhile (\<lambda>x. \<not> P x) xs # (case dropWhile (\<lambda>x. \<not> P x) xs of [] \<Rightarrow> [] | _ # r \<Rightarrow> split_at P r)"
  by (induction xs) (auto split: list.split)

section \<open>The tokenizer\<close>

text \<open>
  \<open>ks_tokaux_t\<close>: the bit table, the single separator or -1, whether there are no more tokens, and the
  end of the token as an offset into the text.
\<close>

record ks_tokaux =
  ka_tab :: "u64 list"
  ka_sep :: int
  ka_finished :: bool
  ka_p :: nat

definition tab_set :: "u64 list \<Rightarrow> char \<Rightarrow> u64 list" where
  "tab_set tab c =
     (let b = of_char c :: nat in tab[b div 64 := or (tab ! (b div 64)) (push_bit (b mod 64) 1)])"

definition tab_has :: "u64 list \<Rightarrow> char \<Rightarrow> bool" where
  "tab_has tab c = (let b = of_char c :: nat in bit (tab ! (b div 64)) (b mod 64))"

text \<open>Setting up the table for a string of separators.\<close>

definition kstrtok_setup :: "string \<Rightarrow> ks_tokaux \<Rightarrow> ks_tokaux" where
  "kstrtok_setup sep aux =
     (case sep of
        _ # _ # _ \<Rightarrow> aux\<lparr> ka_finished := False, ka_sep := - 1, ka_tab := foldl tab_set [0, 0, 0, 0] sep \<rparr>
      | [c] \<Rightarrow> aux\<lparr> ka_finished := False, ka_sep := int (of_char c) \<rparr>
      | [] \<Rightarrow> aux\<lparr> ka_finished := False, ka_sep := 0 \<rparr>)"

definition is_token_end :: "ks_tokaux \<Rightarrow> char \<Rightarrow> bool" where
  "is_token_end aux c \<longleftrightarrow> (if ka_sep aux < 0 then tab_has (ka_tab aux) c else int (of_char c) = ka_sep aux)"

text \<open>
  \<open>kstrtok\<close> on a text: \<open>fresh\<close> says that the text is passed again, \<open>sep\<close> are the separators if they are
  passed. The result is the offset of the token.
\<close>

definition kstrtok :: "string \<Rightarrow> bool \<Rightarrow> string option \<Rightarrow> ks_tokaux \<Rightarrow> nat option \<times> ks_tokaux" where
  "kstrtok str fresh sep aux =
     (if sep \<noteq> None \<and> \<not> fresh \<and> ka_finished aux then (None, aux)
      else
        let aux = (case sep of None \<Rightarrow> aux | Some s \<Rightarrow> kstrtok_setup (cstr s) aux)
        in if ka_finished aux then (None, aux)
           else
             let start = (if fresh then 0 else ka_p aux + 1);
                 p = start + length (takeWhile (\<lambda>c. \<not> is_token_end aux c) (drop start (cstr str)))
             in (Some start, aux\<lparr> ka_p := p, ka_finished := (p \<ge> length (cstr str)) \<rparr>))"

text \<open>The loop \<open>for (p = kstrtok(s, sep, &aux); p; p = kstrtok(0, 0, &aux))\<close> with the tokens it sees.\<close>

definition token_text :: "string \<Rightarrow> nat \<Rightarrow> ks_tokaux \<Rightarrow> string" where
  "token_text str start aux = take (ka_p aux - start) (drop start (cstr str))"

partial_function (option) token_loop :: "string \<Rightarrow> nat option \<times> ks_tokaux \<Rightarrow> string list option" where
  "token_loop str r =
     (case fst r of
        None \<Rightarrow> Some []
      | Some start \<Rightarrow>
          Option.bind (token_loop str (kstrtok str False None (snd r))) (\<lambda>ts. Some (token_text str start (snd r) # ts)))"

definition all_tokens :: "string \<Rightarrow> string \<Rightarrow> ks_tokaux \<Rightarrow> string list option" where
  "all_tokens str sep aux = token_loop str (kstrtok str True (Some sep) aux)"

lemma char_div_64: "(of_char (c :: char) :: nat) div 64 < 4"
proof -
  have "(of_char c :: nat) < 256" using nat_of_char_less_256 by simp
  then show ?thesis by (simp add: div_less_iff_less_mult)
qed

lemma tab_set_has: "length tab = 4 \<Longrightarrow> tab_has (tab_set tab c) d \<longleftrightarrow> tab_has tab d \<or> d = c"
proof -
  assume l: "length tab = 4"
  let ?c = "of_char c :: nat" and ?d = "of_char d :: nat"
  have b: "?c div 64 < 4" "?d div 64 < 4" by (rule char_div_64)+
  have e: "d = c \<longleftrightarrow> ?d div 64 = ?c div 64 \<and> ?d mod 64 = ?c mod 64"
    by (metis div_mult_mod_eq of_char_eq_iff)
  show ?thesis
    using l b by (auto simp: tab_has_def tab_set_def Let_def e nth_list_update bit_or_iff bit_exp_iff possible_bit_def)
qed

lemma tab_of_seps: "length tab = 4 \<Longrightarrow> tab_has (foldl tab_set tab seps) d \<longleftrightarrow> tab_has tab d \<or> d \<in> set seps"
proof (induction seps arbitrary: tab)
  case (Cons c seps)
  then have "length (tab_set tab c) = 4" by (simp add: tab_set_def Let_def)
  with Cons show ?case by (auto simp: tab_set_has)
qed simp

lemma empty_tab: "\<not> tab_has [0, 0, 0, 0] d"
  using char_div_64 [of d] by (auto simp: tab_has_def Let_def nth_Cons' split: if_splits)

lemma setup_token_end: "c \<noteq> NUL \<Longrightarrow> is_token_end (kstrtok_setup sep aux) c \<longleftrightarrow> c \<in> set sep"
proof -
  assume c: "c \<noteq> NUL"
  show ?thesis
  proof (cases sep)
    case Nil
    have "(of_char c :: nat) \<noteq> of_char NUL" using c by (simp only: of_char_eq_iff not_False_eq_True)
    with Nil show ?thesis by (simp add: is_token_end_def kstrtok_setup_def)
  next
    case (Cons s ss)
    show ?thesis
    proof (cases ss)
      case Nil
      with Cons show ?thesis by (auto simp: is_token_end_def kstrtok_setup_def)
    next
      case (Cons a l)
      have "kstrtok_setup (s # a # l) aux =
          aux\<lparr> ka_finished := False, ka_sep := - 1, ka_tab := foldl tab_set [0, 0, 0, 0] (s # a # l) \<rparr>"
        by (simp add: kstrtok_setup_def)
      then have "is_token_end (kstrtok_setup (s # a # l) aux) c \<longleftrightarrow> c \<in> set (s # a # l)"
        using tab_of_seps [of "[0, 0, 0, 0]" "s # a # l" c] by (simp add: is_token_end_def empty_tab del: foldl.simps)
      with \<open>sep = s # ss\<close> Cons show ?thesis by simp
    qed
  qed
qed

lemma split_at_cong: "(\<And>x. x \<in> set xs \<Longrightarrow> P x = Q x) \<Longrightarrow> split_at P xs = split_at Q xs"
  by (induction xs) (auto split: list.split)

lemma token_end_update [simp]:
  "is_token_end (aux\<lparr> ka_p := p \<rparr>) = is_token_end aux" "is_token_end (aux\<lparr> ka_finished := f \<rparr>) = is_token_end aux"
  by (simp_all add: is_token_end_def fun_eq_iff)

text \<open>What \<open>kstrtok\<close> returns for a token that starts at an offset.\<close>

definition token_at :: "string \<Rightarrow> nat \<Rightarrow> ks_tokaux \<Rightarrow> nat option \<times> ks_tokaux" where
  "token_at str start aux =
     (let p = start + length (takeWhile (\<lambda>c. \<not> is_token_end aux c) (drop start (cstr str)))
      in (Some start, aux\<lparr> ka_p := p, ka_finished := (p \<ge> length (cstr str)) \<rparr>))"

lemma kstrtok_next: "kstrtok str False None aux = (if ka_finished aux then (None, aux) else token_at str (ka_p aux + 1) aux)"
  by (simp add: kstrtok_def token_at_def Let_def)

lemma token_loop_split:
  "start \<le> length (cstr str) \<Longrightarrow>
   token_loop str (token_at str start aux) = Some (split_at (is_token_end aux) (drop start (cstr str)))"
proof (induction "length (cstr str) - start" arbitrary: start aux rule: less_induct)
  case less
  let ?P = "is_token_end aux"
  let ?r = "drop start (cstr str)"
  let ?n = "length (takeWhile (\<lambda>c. \<not> ?P c) ?r)"
  let ?aux = "aux\<lparr> ka_p := start + ?n, ka_finished := (start + ?n \<ge> length (cstr str)) \<rparr>"
  have t: "token_at str start aux = (Some start, ?aux)" by (simp add: token_at_def Let_def)
  have tok: "token_text str start ?aux = takeWhile (\<lambda>c. \<not> ?P c) ?r"
    by (simp add: token_text_def takeWhile_eq_take [symmetric])
  have rest: "dropWhile (\<lambda>c. \<not> ?P c) ?r = drop (start + ?n) (cstr str)"
    by (simp add: dropWhile_eq_drop add.commute)
  show ?case
  proof (cases "start + ?n \<ge> length (cstr str)")
    case True
    then have "token_loop str (kstrtok str False None ?aux) = Some []"
      by (subst token_loop.simps) (simp add: kstrtok_next)
    moreover have "split_at ?P ?r = [takeWhile (\<lambda>c. \<not> ?P c) ?r]"
      using True unfolding split_at_takeWhile [of ?P ?r] rest by (simp only: drop_all list.case)
    ultimately show ?thesis using tok by (simp add: t token_loop.simps [of str "(Some start, ?aux)"])
  next
    case False
    let ?q = "start + ?n + 1"
    have "kstrtok str False None ?aux = token_at str ?q ?aux" using False by (simp add: kstrtok_next)
    moreover have "token_loop str (token_at str ?q ?aux) = Some (split_at (is_token_end ?aux) (drop ?q (cstr str)))"
      using False less.prems by (intro less.hyps) auto
    moreover have d: "drop (start + ?n) (cstr str) = cstr str ! (start + ?n) # drop ?q (cstr str)"
      using False Cons_nth_drop_Suc [of "start + ?n" "cstr str"] by simp
    have "split_at ?P ?r = takeWhile (\<lambda>c. \<not> ?P c) ?r # split_at ?P (drop ?q (cstr str))"
      by (subst split_at_takeWhile) (simp only: rest d list.case)
    with calculation show ?thesis using tok by (simp add: t token_loop.simps [of str "(Some start, ?aux)"])
  qed
qed

text \<open>
  The tokenizer splits at the separators: the usual loop over the tokens ends and sees the pieces of the text between bytes of
  the separator string, empty pieces included, in order; this holds for no, one and many separators, and
  whatever the auxiliary structure held before.
\<close>

lemma kstrtok_splits:
  "all_tokens str sep aux = Some (split_at (\<lambda>c. c \<in> set (cstr sep)) (cstr str))"
proof -
  let ?aux = "kstrtok_setup (cstr sep) aux"
  have "\<not> ka_finished ?aux" by (simp add: kstrtok_setup_def split: list.split)
  then have "kstrtok str True (Some sep) aux = token_at str 0 ?aux" by (simp add: kstrtok_def token_at_def Let_def)
  moreover have "split_at (is_token_end ?aux) (cstr str) = split_at (\<lambda>c. c \<in> set (cstr sep)) (cstr str)"
  proof (rule split_at_cong)
    fix c assume "c \<in> set (cstr str)"
    then have "c \<noteq> NUL" using NUL_not_in_cstr by metis
    then show "is_token_end ?aux c = (c \<in> set (cstr sep))" by (rule setup_token_end)
  qed
  ultimately show ?thesis using token_loop_split [of 0 str ?aux] by (simp add: all_tokens_def)
qed

section \<open>The splitter\<close>

definition c_isblank :: "char \<Rightarrow> bool" where
  "c_isblank c \<longleftrightarrow> c = CHR '' '' \<or> (9 \<le> (of_char c :: nat) \<and> (of_char c :: nat) \<le> 13)"

definition c_isgraph :: "char \<Rightarrow> bool" where
  "c_isgraph c \<longleftrightarrow> 33 \<le> (of_char c :: nat) \<and> (of_char c :: nat) \<le> 126"

text \<open>The variables of the loop of \<open>ksplit_core\<close>: the text, which is cut in place, the offsets, and their capacity.\<close>

record ksplit_state =
  kp_text :: string
  kp_offsets :: "nat list"
  kp_max :: nat
  kp_last_char :: char
  kp_last_start :: nat

text \<open>The end of a field; \<open>None\<close> if the array of offsets cannot grow.\<close>

definition ksplit_field :: "(nat \<Rightarrow> bool) \<Rightarrow> nat \<Rightarrow> ksplit_state \<Rightarrow> ksplit_state option" where
  "ksplit_field alloc i st =
     (let max = (if length (kp_offsets st) = kp_max st then (if kp_max st \<noteq> 0 then kp_max st * 2 else 2) else kp_max st)
      in if max \<noteq> kp_max st \<and> \<not> alloc max then None
         else Some (st\<lparr> kp_text := (kp_text st)[i := NUL], kp_max := max, kp_offsets := kp_offsets st @ [kp_last_start st] \<rparr>))"

definition ksplit_step :: "(nat \<Rightarrow> bool) \<Rightarrow> char \<Rightarrow> nat \<Rightarrow> ksplit_state \<Rightarrow> ksplit_state option" where
  "ksplit_step alloc delimiter i st =
     (let c = kp_text st ! i; last = kp_last_char st;
          is_end = (if delimiter = NUL then c_isblank c \<or> c = NUL else c = delimiter \<or> c = NUL);
          was_field = (if delimiter = NUL then c_isgraph last else last \<noteq> NUL \<and> last \<noteq> delimiter);
          was_gap = (if delimiter = NUL then c_isblank last \<or> last = NUL else last = delimiter \<or> last = NUL);
          st = (if is_end then (if was_field then ksplit_field alloc i st else Some st)
                else Some (if was_gap then st\<lparr> kp_last_start := i \<rparr> else st))
      in map_option (\<lambda>st. st\<lparr> kp_last_char := kp_text st ! i \<rparr>) st)"

primrec ksplit_loop :: "(nat \<Rightarrow> bool) \<Rightarrow> char \<Rightarrow> nat \<Rightarrow> nat \<Rightarrow> ksplit_state \<Rightarrow> ksplit_state option" where
  "ksplit_loop alloc delimiter i 0 st = Some st"
| "ksplit_loop alloc delimiter i (Suc n) st =
     Option.bind (ksplit_step alloc delimiter i st) (ksplit_loop alloc delimiter (i + 1) n)"

text \<open>\<open>ksplit\<close>: the text with its terminator afterwards, and the offsets.\<close>

definition ksplit_core :: "(nat \<Rightarrow> bool) \<Rightarrow> string \<Rightarrow> char \<Rightarrow> (string \<times> nat list) option" where
  "ksplit_core alloc s delimiter =
     map_option (\<lambda>st. (kp_text st, kp_offsets st))
       (ksplit_loop alloc delimiter 0 (length (cstr s) + 1)
          \<lparr> kp_text = cstr s @ [NUL], kp_offsets = [], kp_max = 0, kp_last_char = NUL, kp_last_start = 0 \<rparr>)"

text \<open>Which bytes end a field, and which make one, for a delimiter.\<close>

definition ends_field :: "char \<Rightarrow> char \<Rightarrow> bool" where
  "ends_field delimiter c \<longleftrightarrow> (if delimiter = NUL then c_isblank c else c = delimiter)"

definition in_field :: "char \<Rightarrow> char \<Rightarrow> bool" where
  "in_field delimiter c \<longleftrightarrow> (if delimiter = NUL then c_isgraph c else c \<noteq> NUL \<and> c \<noteq> delimiter)"

lemma field_bytes: "in_field d c \<Longrightarrow> \<not> ends_field d c \<and> c \<noteq> NUL" "\<not> in_field d NUL" "ends_field d c \<Longrightarrow> \<not> in_field d c"
  by (auto simp: in_field_def ends_field_def c_isgraph_def c_isblank_def)

lemma ksplit_step_eq:
  "ksplit_step alloc d i st =
     map_option (\<lambda>st. st\<lparr> kp_last_char := kp_text st ! i \<rparr>)
       (if ends_field d (kp_text st ! i) \<or> kp_text st ! i = NUL
        then (if in_field d (kp_last_char st) then ksplit_field alloc i st else Some st)
        else Some (if ends_field d (kp_last_char st) \<or> kp_last_char st = NUL then st\<lparr> kp_last_start := i \<rparr> else st))"
  by (cases "d = NUL") (simp_all add: ksplit_step_def Let_def ends_field_def in_field_def)

lemma ksplit_field_total: "\<exists>max. ksplit_field (\<lambda>_. True) i st =
    Some (st\<lparr> kp_text := (kp_text st)[i := NUL], kp_max := max, kp_offsets := kp_offsets st @ [kp_last_start st] \<rparr>)"
  by (auto simp only: ksplit_field_def Let_def not_True_eq_False simp_thms if_False)

text \<open>What the loop finds from position \<open>i\<close> on, where a field may be open.\<close>

definition fields_from :: "char \<Rightarrow> string option \<Rightarrow> string \<Rightarrow> string list" where
  "fields_from d open_text cs =
     (case open_text of
        None \<Rightarrow> filter (\<lambda>f. f \<noteq> []) (split_at (ends_field d) cs)
      | Some w \<Rightarrow> (w @ hd (split_at (ends_field d) cs)) # filter (\<lambda>f. f \<noteq> []) (tl (split_at (ends_field d) cs)))"

definition open_field :: "char \<Rightarrow> nat \<Rightarrow> ksplit_state \<Rightarrow> string option" where
  "open_field d i st =
     (if in_field d (kp_last_char st) then Some (take (i - kp_last_start st) (drop (kp_last_start st) (kp_text st))) else None)"

definition ksplit_ok :: "char \<Rightarrow> nat \<Rightarrow> string \<Rightarrow> ksplit_state \<Rightarrow> bool" where
  "ksplit_ok d i cs st \<longleftrightarrow>
     length (kp_text st) = i + length cs + 1 \<and> drop i (kp_text st) = cs @ [NUL] \<and>
     (if in_field d (kp_last_char st)
      then kp_last_start st < i \<and> NUL \<notin> set (take (i - kp_last_start st) (drop (kp_last_start st) (kp_text st)))
      else ends_field d (kp_last_char st) \<or> kp_last_char st = NUL)"

lemma fields_from_Cons:
  "ends_field d c \<Longrightarrow> fields_from d None (c # cs) = fields_from d None cs"
  "ends_field d c \<Longrightarrow> fields_from d (Some w) (c # cs) = w # fields_from d None cs"
  "\<not> ends_field d c \<Longrightarrow> fields_from d None (c # cs) = fields_from d (Some [c]) cs"
  "\<not> ends_field d c \<Longrightarrow> fields_from d (Some w) (c # cs) = fields_from d (Some (w @ [c])) cs"
  by (auto simp: fields_from_def split: list.split)


lemma field_text:
  assumes "a < i" "i \<le> length t" "take (Suc i) t' = take i t @ [NUL]" "NUL \<notin> set (take (i - a) (drop a t))"
  shows "cstr (drop a t') = take (i - a) (drop a t)"
proof -
  have "t' = take i t @ NUL # drop (Suc i) t'" using append_take_drop_id [of "Suc i" t'] assms(3) by simp
  then have "drop a t' = drop a (take i t) @ NUL # drop (Suc i) t'" using assms(1,2)
    by (metis drop_append length_take min.absorb2 diff_is_0_eq drop0 less_imp_le)
  then have "drop a t' = take (i - a) (drop a t) @ NUL # drop (Suc i) t'" by (simp only: drop_take)
  then show ?thesis by (simp only: cstr_append_NUL [OF assms(4)])
qed

lemma drop_nth: "drop i t = c # cs \<Longrightarrow> i < length t \<and> t ! i = c \<and> drop (Suc i) t = cs"
  by (metis drop_all drop_Suc hd_drop_conv_nth linorder_not_le list.sel(1,3) neq_Nil_conv tl_drop)

lemma take_Suc_conv: "drop i t = c # cs \<Longrightarrow> take (Suc i) t = take i t @ [c]"
  using drop_nth [of i t c cs] by (simp add: take_Suc_conv_app_nth)

text \<open>One step from a state between or within fields.\<close>

lemma ksplit_step_gap:
  assumes "ksplit_ok d i (c # cs) st" "\<not> in_field d (kp_last_char st)" "ends_field d c"
  shows "\<exists>st1. ksplit_step (\<lambda>_. True) d i st = Some st1 \<and> ksplit_ok d (Suc i) cs st1 \<and> open_field d (Suc i) st1 = None \<and>
    kp_text st1 = kp_text st \<and> kp_offsets st1 = kp_offsets st"
proof -
  have t: "i < length (kp_text st)" "kp_text st ! i = c" "drop (Suc i) (kp_text st) = cs @ [NUL]"
    using assms(1) drop_nth [of i "kp_text st" c "cs @ [NUL]"] by (auto simp: ksplit_ok_def)
  then have "ksplit_step (\<lambda>_. True) d i st = Some (st\<lparr> kp_last_char := c \<rparr>)"
    using assms by (simp add: ksplit_step_eq)
  moreover have "ksplit_ok d (Suc i) cs (st\<lparr> kp_last_char := c \<rparr>)"
    using assms t field_bytes(3) [OF assms(3)] by (simp add: ksplit_ok_def)
  ultimately show ?thesis using field_bytes(3) [OF assms(3)] by (auto simp: open_field_def)
qed

lemma ksplit_step_end:
  assumes "ksplit_ok d i cs' st" "in_field d (kp_last_char st)" "cs' @ [NUL] = c # cs" "ends_field d c \<or> c = NUL"
  shows "\<exists>st1. ksplit_step (\<lambda>_. True) d i st = Some st1 \<and> kp_last_char st1 = NUL \<and>
    kp_text st1 = (kp_text st)[i := NUL] \<and> kp_offsets st1 = kp_offsets st @ [kp_last_start st]"
proof -
  have t: "i < length (kp_text st)" "kp_text st ! i = c"
    using assms(1,3) drop_nth [of i "kp_text st" c cs] by (auto simp: ksplit_ok_def)
  obtain max where f: "ksplit_field (\<lambda>_. True) i st =
      Some (st\<lparr> kp_text := (kp_text st)[i := NUL], kp_max := max, kp_offsets := kp_offsets st @ [kp_last_start st] \<rparr>)"
    using ksplit_field_total by blast
  then show ?thesis using assms(2,4) t by (simp add: ksplit_step_eq)
qed

lemma ksplit_step_field:
  assumes "ksplit_ok d i (c # cs) st" "in_field d c"
  shows "\<exists>st1. ksplit_step (\<lambda>_. True) d i st = Some st1 \<and> ksplit_ok d (Suc i) cs st1 \<and>
    open_field d (Suc i) st1 = Some ((case open_field d i st of None \<Rightarrow> [] | Some w \<Rightarrow> w) @ [c]) \<and>
    kp_text st1 = kp_text st \<and> kp_offsets st1 = kp_offsets st"
proof -
  have t: "i < length (kp_text st)" "kp_text st ! i = c" "drop (Suc i) (kp_text st) = cs @ [NUL]"
    using assms(1) drop_nth [of i "kp_text st" c "cs @ [NUL]"] by (auto simp: ksplit_ok_def)
  note c = field_bytes(1) [OF assms(2)]
  have ext: "take (Suc i - a) (drop a (kp_text st)) = take (i - a) (drop a (kp_text st)) @ [c]" if "a \<le> i" for a
    using that t by (simp add: Suc_diff_le take_Suc_conv_app_nth)
  show ?thesis
  proof (cases "in_field d (kp_last_char st)")
    case True
    then have l: "\<not> ends_field d (kp_last_char st)" "kp_last_char st \<noteq> NUL" using field_bytes(1) by blast+
    have "ksplit_step (\<lambda>_. True) d i st = Some (st\<lparr> kp_last_char := c \<rparr>)" using c l t by (simp add: ksplit_step_eq)
    with True assms t c ext [of "kp_last_start st"] show ?thesis by (auto simp: ksplit_ok_def open_field_def)
  next
    case False
    then have "ends_field d (kp_last_char st) \<or> kp_last_char st = NUL" using assms(1) by (simp add: ksplit_ok_def)
    then have "ksplit_step (\<lambda>_. True) d i st = Some (st\<lparr> kp_last_start := i, kp_last_char := c \<rparr>)"
      using c t by (auto simp: ksplit_step_eq)
    with False assms t c ext [of i] show ?thesis by (auto simp: ksplit_ok_def open_field_def)
  qed
qed


lemma ksplit_loop_fields:
  assumes "list_all (\<lambda>c. ends_field d c \<or> in_field d c) cs" "NUL \<notin> set cs" "ksplit_ok d i cs st"
  shows "\<exists>st' offs. ksplit_loop (\<lambda>_. True) d i (length cs + 1) st = Some st' \<and>
    take i (kp_text st') = take i (kp_text st) \<and>
    kp_offsets st' = kp_offsets st @ offs \<and>
    map (\<lambda>a. cstr (drop a (kp_text st'))) offs = fields_from d (open_field d i st) cs"
  using assms
proof (induction cs arbitrary: i st)
  case Nil
  have t: "i < length (kp_text st)" "kp_text st ! i = NUL" "drop i (kp_text st) = NUL # []"
    using Nil.prems(3) drop_nth [of i "kp_text st" NUL "[]"] by (auto simp: ksplit_ok_def)
  show ?case
  proof (cases "in_field d (kp_last_char st)")
    case True
    obtain st1 where st1: "ksplit_step (\<lambda>_. True) d i st = Some st1" "kp_text st1 = (kp_text st)[i := NUL]"
      "kp_offsets st1 = kp_offsets st @ [kp_last_start st]"
      using ksplit_step_end [OF Nil.prems(3) True, of NUL "[]"] by auto
    have "(kp_text st)[i := NUL] = kp_text st" using t by (metis list_update_id)
    moreover have "cstr (drop (kp_last_start st) (kp_text st)) = take (i - kp_last_start st) (drop (kp_last_start st) (kp_text st))"
      using True Nil.prems(3) t take_Suc_conv [OF t(3)] by (intro field_text) (auto simp: ksplit_ok_def)
    ultimately show ?thesis using True st1 by (simp add: fields_from_def open_field_def)
  next
    case False
    then have "ksplit_step (\<lambda>_. True) d i st = Some (st\<lparr> kp_last_char := NUL \<rparr>)" using t by (simp add: ksplit_step_eq)
    with False show ?thesis by (simp add: fields_from_def open_field_def)
  qed
next
  case (Cons c cs)
  have cs: "list_all (\<lambda>c. ends_field d c \<or> in_field d c) cs" "NUL \<notin> set cs" "c \<noteq> NUL" using Cons.prems by auto
  have dr: "drop i (kp_text st) = c # cs @ [NUL]" using Cons.prems(3) by (simp add: ksplit_ok_def)
  note t = drop_nth [OF dr]
  have prefix: "take i t' = take i (kp_text st)" if "take (Suc i) t' = take (Suc i) t1" "take i t1 = take i (kp_text st)" for t' t1
    using arg_cong [OF that(1), of "take i"] that(2) by simp
  have follow: "\<exists>st' offs. ksplit_loop (\<lambda>_. True) d i (length (c # cs) + 1) st = Some st' \<and>
      take i (kp_text st') = take i (kp_text st) \<and> kp_offsets st' = kp_offsets st @ offs \<and>
      map (\<lambda>a. cstr (drop a (kp_text st'))) offs = fields_from d (open_field d (Suc i) st1) cs"
    if step: "ksplit_step (\<lambda>_. True) d i st = Some st1" and ok: "ksplit_ok d (Suc i) cs st1"
      and kt: "kp_text st1 = kp_text st" and ko: "kp_offsets st1 = kp_offsets st" for st1
  proof -
    obtain st' offs where st': "ksplit_loop (\<lambda>_. True) d (Suc i) (length cs + 1) st1 = Some st'"
      "take (Suc i) (kp_text st') = take (Suc i) (kp_text st1)" "kp_offsets st' = kp_offsets st1 @ offs"
      "map (\<lambda>a. cstr (drop a (kp_text st'))) offs = fields_from d (open_field d (Suc i) st1) cs"
      using Cons.IH [OF cs(1,2) ok] by blast
    have "take i (kp_text st') = take i (kp_text st)" by (rule prefix [OF st'(2)]) (simp add: kt)
    moreover have "ksplit_loop (\<lambda>_. True) d i (length (c # cs) + 1) st = Some st'" using step st'(1) by simp
    ultimately show ?thesis using st'(3,4) ko by (intro exI [of _ st'] exI [of _ offs]) (simp del: ksplit_loop.simps)
  qed
  show ?case
  proof (cases "in_field d c")
    case True
    from ksplit_step_field [OF Cons.prems(3) True] obtain st1 where st1: "ksplit_step (\<lambda>_. True) d i st = Some st1"
      "ksplit_ok d (Suc i) cs st1" "open_field d (Suc i) st1 = Some ((case open_field d i st of None \<Rightarrow> [] | Some w \<Rightarrow> w) @ [c])"
      "kp_text st1 = kp_text st" "kp_offsets st1 = kp_offsets st" by blast
    have "fields_from d (open_field d (Suc i) st1) cs = fields_from d (open_field d i st) (c # cs)"
      using st1(3) fields_from_Cons(3,4) field_bytes(1) [OF True] by (simp split: option.split)
    then show ?thesis using follow [OF st1(1,2,4,5)] by simp
  next
    case False
    then have e: "ends_field d c" using Cons.prems(1) by simp
    show ?thesis
    proof (cases "in_field d (kp_last_char st)")
      case gap: False
      from ksplit_step_gap [OF Cons.prems(3) gap e] obtain st1 where st1: "ksplit_step (\<lambda>_. True) d i st = Some st1"
        "ksplit_ok d (Suc i) cs st1" "open_field d (Suc i) st1 = None" "kp_text st1 = kp_text st" "kp_offsets st1 = kp_offsets st"
        by blast
      have "fields_from d None (c # cs) = fields_from d None cs" using e by (rule fields_from_Cons)
      moreover have "open_field d i st = None" using gap by (simp add: open_field_def)
      ultimately show ?thesis using follow [OF st1(1,2,4,5)] st1(3) by simp
    next
      case field: True
      let ?a = "kp_last_start st"
      let ?w = "take (i - ?a) (drop ?a (kp_text st))"
      from ksplit_step_end [OF Cons.prems(3) field, of c "cs @ [NUL]"] e obtain st1
        where st1: "ksplit_step (\<lambda>_. True) d i st = Some st1" "kp_last_char st1 = NUL"
          "kp_text st1 = (kp_text st)[i := NUL]" "kp_offsets st1 = kp_offsets st @ [?a]" by auto
      have ok: "ksplit_ok d (Suc i) cs st1" "open_field d (Suc i) st1 = None"
        using Cons.prems(3) st1 t field_bytes(2) by (auto simp: ksplit_ok_def open_field_def)
      obtain st' offs where st': "ksplit_loop (\<lambda>_. True) d (Suc i) (length cs + 1) st1 = Some st'"
        "take (Suc i) (kp_text st') = take (Suc i) (kp_text st1)" "kp_offsets st' = kp_offsets st1 @ offs"
        "map (\<lambda>a. cstr (drop a (kp_text st'))) offs = fields_from d None cs"
        using Cons.IH [OF cs(1,2) ok(1)] ok(2) by auto
      have pre: "take (Suc i) (kp_text st') = take i (kp_text st) @ [NUL]"
        using st'(2) st1(3) t by (simp add: take_Suc_conv_app_nth)
      have "cstr (drop ?a (kp_text st')) = ?w"
        using Cons.prems(3) field t pre by (intro field_text) (auto simp: ksplit_ok_def)
      moreover have "take i (kp_text st') = take i (kp_text st)" by (rule prefix [OF st'(2)]) (simp add: st1(3))
      moreover have "ksplit_loop (\<lambda>_. True) d i (length (c # cs) + 1) st = Some st'" using st1(1) st'(1) by simp
      moreover have "fields_from d (open_field d i st) (c # cs) = ?w # fields_from d None cs"
        using field fields_from_Cons(2) [OF e] by (simp add: open_field_def)
      ultimately show ?thesis using st'(3,4) st1(4)
        by (intro exI [of _ st'] exI [of _ "?a # offs"]) (simp del: ksplit_loop.simps)
    qed
  qed
qed

text \<open>
  The splitter finds the fields: with a delimiter they are the pieces between the delimiters that are not empty, without one
  the words between white space of a text of printable bytes and white space; the
  offsets point to them in order and each ends with a NUL byte in the text that was cut in place.
\<close>

lemma ksplit_finds_fields:
  assumes "list_all (\<lambda>c. ends_field d c \<or> in_field d c) (cstr s)"
  shows "map_option (\<lambda>(t, offs). map (\<lambda>a. cstr (drop a t)) offs) (ksplit_core (\<lambda>_. True) s d) =
    Some (filter (\<lambda>f. f \<noteq> []) (split_at (ends_field d) (cstr s)))"
proof -
  let ?st = "\<lparr> kp_text = cstr s @ [NUL], kp_offsets = [], kp_max = 0, kp_last_char = NUL, kp_last_start = 0 \<rparr>"
  have "ksplit_ok d 0 (cstr s) ?st" using field_bytes(2) by (simp add: ksplit_ok_def)
  from ksplit_loop_fields [OF assms NUL_not_in_cstr this] show ?thesis
    using field_bytes(2) by (auto simp: ksplit_core_def fields_from_def open_field_def)
qed

lemma ksplit_finds_fields_witness:
  "map_option (\<lambda>(t, offs). map (\<lambda>a. cstr (drop a t)) offs) (ksplit_core (\<lambda>_. True) ''a::bc'' (CHR '':'')) =
    Some (filter (\<lambda>f. f \<noteq> []) (split_at (ends_field (CHR '':'')) (cstr ''a::bc'')))"
  by (rule ksplit_finds_fields) (simp add: ends_field_def in_field_def)

section \<open>The line reader\<close>

text \<open>
  \<open>kgetline\<close> with \<open>fgets\<close> as the function that is passed: the loop with the content of the string, its capacity and
  the rest of the input. The allocation does not fail.
\<close>

definition line_room :: "nat \<Rightarrow> nat \<Rightarrow> nat" where
  "line_room l m = (if m - l < 200 then unat (kroundup32 (of_nat (m + 200))) else m)"

partial_function (option) kgetline_loop :: "nat \<Rightarrow> string \<Rightarrow> nat \<Rightarrow> string \<Rightarrow> (string \<times> nat \<times> string) option" where
  "kgetline_loop l0 s m input =
     (if length s = l0 \<or> last s \<noteq> LF then
        (let m = line_room (length s) m
         in case c_fgets (m - length s) input of
              None \<Rightarrow> Some (s, m, input)
            | Some (line, rest) \<Rightarrow> kgetline_loop l0 (s @ cstr line) m rest)
      else Some (s, m, input))"

definition strip_eol :: "nat \<Rightarrow> string \<Rightarrow> string" where
  "strip_eol l0 s =
     (if length s > l0 \<and> last s = LF then
        let s = butlast s in if length s > l0 \<and> last s = CR then butlast s else s
      else s)"

definition kgetline :: "string \<Rightarrow> nat \<Rightarrow> string \<Rightarrow> (int \<times> string \<times> string) option" where
  "kgetline s m input =
     map_option (\<lambda>(t, _, rest). if length t = length s then (- 1, t, rest) else (0, strip_eol (length s) t, rest))
       (kgetline_loop (length s) s m input)"

lemma unat_of_nat_small: "n < 2 ^ 31 \<Longrightarrow> unat (of_nat n :: u64) = n"
  by (simp add: unsigned_of_nat take_bit_nat_eq_self)

lemma unat_pow2_small: "k \<le> 32 \<Longrightarrow> unat (2 ^ k :: u64) = 2 ^ k"
proof -
  assume "k \<le> 32"
  then have "(2::nat) ^ k < 2 ^ 64" by (intro power_strict_increasing) auto
  then have "unat (of_nat (2 ^ k) :: u64) = 2 ^ k" by (simp only: unat_of_nat) simp
  then show ?thesis by simp
qed

lemma line_room_bounds:
  assumes "l \<le> m" "m \<le> l + 200 \<or> m \<le> b" "2 * (l + 400) \<le> b" "b < 2 ^ 31"
  shows "l + 200 \<le> line_room l m" "line_room l m \<le> b"
proof -
  have "l + 200 \<le> line_room l m \<and> line_room l m \<le> b"
  proof (cases "m - l < 200")
    case True
    let ?x = "of_nat (m + 200) :: u64"
    have x: "m + 200 < l + 400" "m + 200 < 2 ^ 31" using True assms by (auto simp: less_diff_conv2)
    then have u: "unat ?x = m + 200" by (intro unat_of_nat_small) simp
    have "0 < ?x" "?x \<le> 2 ^ 32" using x u by (simp_all add: word_less_nat_alt word_le_nat_alt)
    from kroundup32_least_power [OF this] obtain k where k: "k \<le> 32" "kroundup32 ?x = 2 ^ k" "m + 200 \<le> 2 ^ k" "2 ^ (k - 1) < m + 200"
      unfolding u by auto
    have "k \<noteq> 0" using k(3) by (cases k) auto
    then have "(2::nat) ^ k = 2 * 2 ^ (k - 1)" by (cases k) simp_all
    moreover have "unat (2 ^ k :: u64) = 2 ^ k" using k(1) by (simp add: unat_pow2_small)
    ultimately show ?thesis using True k x assms(1,3) by (simp add: line_room_def)
  next
    case False
    with assms show ?thesis by (auto simp: line_room_def)
  qed
  then show "l + 200 \<le> line_room l m" "line_room l m \<le> b" by auto
qed

lemma c_fgets_within:
  assumes "LF \<notin> set l" "n \<le> length l + 1" "0 < n"
  shows "c_fgets n (l @ LF # rest) = Some (take (n - 1) l, drop (n - 1) l @ LF # rest)"
proof -
  have "takeWhile (\<lambda>c. c \<noteq> LF) (l @ LF # rest) = l" using assms(1) by (subst takeWhile_append2) auto
  then show ?thesis using assms(2,3) by (auto simp: c_fgets_def Let_def min_def)
qed

lemma c_fgets_whole:
  assumes "LF \<notin> set l" "length l + 1 < n"
  shows "c_fgets n (l @ LF # rest) = Some (l @ [LF], rest)"
proof -
  have "takeWhile (\<lambda>c. c \<noteq> LF) (l @ LF # rest) = l" using assms(1) by (subst takeWhile_append2) auto
  then show ?thesis using assms(2) by (simp add: c_fgets_def Let_def)
qed

text \<open>One line of any length is read in pieces of at least 199 bytes.\<close>

lemma kgetline_loop_line:
  assumes "LF \<notin> set l" "NUL \<notin> set l" "length s = l0 \<or> last s \<noteq> LF" "l0 \<le> length s" "length s \<le> m"
    and "m \<le> b" "2 * (length s + length l + 400) \<le> b" "b < 2 ^ 31"
  shows "\<exists>m'. kgetline_loop l0 s m (l @ LF # rest) = Some (s @ l @ [LF], m', rest)"
  using assms
proof (induction "length l" arbitrary: l s m rule: less_induct)
  case less
  let ?m = "line_room (length s) m"
  have r: "length s + 200 \<le> ?m" "?m \<le> b" using line_room_bounds [of "length s" m b] less.prems by auto
  show ?case
  proof (cases "length l + 1 < ?m - length s")
    case True
    have "cstr (l @ [LF]) = l @ [LF]" using less.prems(2) by simp
    moreover have "kgetline_loop l0 (s @ l @ [LF]) ?m rest = Some (s @ l @ [LF], ?m, rest)"
      using less.prems(4) by (subst kgetline_loop.simps) simp
    ultimately show ?thesis
      using less.prems(3) c_fgets_whole [OF less.prems(1) True] by (subst kgetline_loop.simps) (simp add: Let_def)
  next
    case False
    let ?k = "?m - length s - 1"
    have k: "?m - length s \<le> length l + 1" "0 < ?m - length s" "0 < ?k" "?k \<le> length l" using False r by linarith+
    let ?s = "s @ take ?k l"
    have mem: "x \<in> set l" if "x \<in> set (take ?k l) \<or> x \<in> set (drop ?k l)" for x
      using that set_take_subset [of ?k l] set_drop_subset [of ?k l] by auto
    have t: "take ?k l \<noteq> []" using k(3,4) by (cases l) auto
    then have last: "last ?s = last (take ?k l)" by simp
    have "last (take ?k l) \<in> set l" using last_in_set [OF t] mem by blast
    then have "last ?s \<noteq> LF" using less.prems(1) unfolding last by metis
    then have "\<exists>m'. kgetline_loop l0 ?s ?m (drop ?k l @ LF # rest) = Some (?s @ drop ?k l @ [LF], m', rest)"
      using less.prems mem k r by (intro less.hyps) auto
    then obtain m' where "kgetline_loop l0 ?s ?m (drop ?k l @ LF # rest) = Some (?s @ drop ?k l @ [LF], m', rest)" by blast
    moreover have "?s @ drop ?k l @ [LF] = s @ l @ [LF]" by (metis append_assoc append_take_drop_id)
    ultimately have loop: "kgetline_loop l0 ?s ?m (drop ?k l @ LF # rest) = Some (s @ l @ [LF], m', rest)" by (simp only:)
    have c: "cstr (take ?k l) = take ?k l" using mem less.prems(2) by (intro cstr_id) blast
    have "kgetline_loop l0 s m (l @ LF # rest) = Some (s @ l @ [LF], m', rest)"
      using less.prems(3)
      by (subst kgetline_loop.simps) (simp only: Let_def c_fgets_within [OF less.prems(1) k(1,2)] option.case prod.case c loop if_True)
    then show ?thesis by blast
  qed
qed

text \<open>
  However long the line is, \<open>kgetline\<close> appends it without its line feed, and without a carriage return before it, and
  leaves the input at the next line.
\<close>

theorem kgetline_reads_line:
  assumes "LF \<notin> set l" "NUL \<notin> set l" "length s \<le> m" "m < 2 ^ 31" "length s + length l + 400 < 2 ^ 30"
  shows "kgetline s m (l @ LF # rest) = Some (0, s @ (if l \<noteq> [] \<and> last l = CR then butlast l else l), rest)"
proof -
  let ?b = "max m (2 * (length s + length l + 400))"
  obtain m' where "kgetline_loop (length s) s m (l @ LF # rest) = Some (s @ l @ [LF], m', rest)"
    using kgetline_loop_line [of l s "length s" m ?b] assms by auto
  then show ?thesis by (auto simp: kgetline_def strip_eol_def Let_def butlast_append)
qed

theorem kgetline_reads_line_witness:
  "kgetline ''x'' 1 ((''ab'' @ [CR]) @ LF # ''rest'') =
    Some (0, ''x'' @ (if ''ab'' @ [CR] \<noteq> [] \<and> last (''ab'' @ [CR]) = CR then butlast (''ab'' @ [CR]) else ''ab'' @ [CR]), ''rest'')"
  by (rule kgetline_reads_line) simp_all

lemma kgetline_eof: "length s \<le> m \<Longrightarrow> kgetline s m [] = Some (- 1, s, [])"
  by (simp add: kgetline_def kgetline_loop.simps c_fgets_def Let_def)

section \<open>Bytes without a terminator, and the accessors\<close>

text \<open>
  \<open>kputsn_\<close> and \<open>kputc_\<close> append bytes and leave the buffer unterminated. What holds of the buffer then is the part of
  \<open>kwf\<close> that does not speak of the terminator.
\<close>

definition kputsn_raw :: "(u64 \<Rightarrow> bool) \<Rightarrow> string \<Rightarrow> nat \<Rightarrow> kstring \<Rightarrow> int \<times> kstring" where
  "kputsn_raw alloc p l k =
     (let n = of_nat l;
          (fine, k) = (if ks_l k + n > ks_m k then ks_grow alloc (ks_l k + n) k else (True, k))
      in if \<not> fine then (- 1, k)
         else let k = ks_store (ks_l k) (take l p) k in (int l, k\<lparr> ks_l := ks_l k + n \<rparr>))"

definition kputc_raw :: "(u64 \<Rightarrow> bool) \<Rightarrow> char \<Rightarrow> kstring \<Rightarrow> int \<times> kstring" where
  "kputc_raw alloc c k =
     (let (fine, k) = (if ks_l k + 1 > ks_m k then ks_grow alloc (ks_l k + 1) k else (True, k))
      in if \<not> fine then (- 1, k)
         else let k = ks_store (ks_l k) [c] k in (1, k\<lparr> ks_l := ks_l k + 1 \<rparr>))"

definition ks_str :: "kstring \<Rightarrow> char mem option" where
  "ks_str k = (if ks_cap k = 0 then None else Some (ks_buf k))"

definition ks_len :: "kstring \<Rightarrow> u64" where
  "ks_len k = ks_l k"

definition ksprintf :: "(u64 \<Rightarrow> bool) \<Rightarrow> string \<Rightarrow> kstring \<Rightarrow> int \<times> kstring" where
  "ksprintf alloc formatted k = kvsprintf alloc formatted k"

text \<open>\<open>ksplit\<close> of an allocated string: the number of fields and the array of their offsets.\<close>

definition ksplit :: "(nat \<Rightarrow> bool) \<Rightarrow> kstring \<Rightarrow> char \<Rightarrow> int \<times> nat list option" where
  "ksplit alloc k delimiter =
     (case ksplit_core alloc (mem_read (ks_buf k) (ks_cap k)) delimiter of
        None \<Rightarrow> (0, None)
      | Some (_, offs) \<Rightarrow> (int (length offs), Some offs))"

definition kraw :: "kstring \<Rightarrow> bool" where
  "kraw k \<longleftrightarrow> \<not> ks_oob k \<and> unat (ks_m k) = ks_cap k \<and> unat (ks_l k) \<le> ks_cap k"

lemma kwf_kraw: "kwf k \<Longrightarrow> kraw k"
  by (auto simp: kwf_def kraw_def split: if_splits)

lemma kputc_raw_kputsn_raw: "snd (kputc_raw alloc c k) = snd (kputsn_raw alloc [c] 1 k)"
  by (simp add: kputc_raw_def kputsn_raw_def Let_def split: prod.split)

lemma kputsn_raw_appends:
  assumes "kraw k" "0 < length p" "unat (ks_l k) + length p < 2 ^ 31"
  shows "\<exists>k'. kputsn_raw (\<lambda>_. True) p (length p) k = (int (length p), k') \<and> kraw k' \<and>
    mem_read (ks_buf k') (unat (ks_l k')) = mem_read (ks_buf k) (unat (ks_l k)) @ p"
proof -
  define n where "n = (of_nat (length p) :: u64)"
  have un: "unat n = length p" unfolding n_def using assms(3) by (intro unat_of_nat_small) simp
  have l: "unat (ks_l k + n) = unat (ks_l k) + length p" using un assms(3) by (subst unat_sum_small) auto
  obtain k1 where k1: "(if ks_l k + n > ks_m k then ks_grow (\<lambda>_. True) (ks_l k + n) k else (True, k)) = (True, k1)"
      "ks_l k1 = ks_l k" "ks_buf k1 = ks_buf k" "ks_oob k1 = ks_oob k" "unat (ks_m k1) = ks_cap k1"
      "unat (ks_l k) + length p \<le> ks_cap k1"
  proof (cases "ks_l k + n > ks_m k")
    case True
    define m where "m = kroundup32 (ks_l k + n)"
    have "unat (ks_l k + n) \<le> unat m"
      unfolding m_def using assms(2,3) l by (intro kroundup32_bounds) (auto simp: word_less_nat_alt)
    then show thesis using True l
      by (intro that [of "k\<lparr> ks_m := m, ks_cap := unat m \<rparr>"]) (auto simp: ks_grow_def Let_def m_def)
  next
    case False
    then have "unat (ks_l k + n) \<le> unat (ks_m k)" by (simp add: word_le_nat_alt not_less)
    with False assms(1) l show thesis by (intro that [of k]) (auto simp: kraw_def)
  qed
  let ?k = "(ks_store (ks_l k) p k1)\<lparr> ks_l := ks_l k + n \<rparr>"
  have "kputsn_raw (\<lambda>_. True) p (length p) k = (int (length p), ?k)"
    unfolding kputsn_raw_def Let_def n_def [symmetric] k1(1) prod.case by (simp add: k1(2) ks_store_def)
  moreover have "kraw ?k" using assms(1) k1 l by (auto simp: kraw_def ks_store_def)
  moreover have "mem_read (ks_buf ?k) (unat (ks_l ?k)) = mem_read (ks_buf k) (unat (ks_l k)) @ p"
    using l k1(3) by (simp add: ks_store_def mem_read_copy_at)
  ultimately show ?thesis by blast
qed

text \<open>The fields of a well formed string are those of its content.\<close>

lemma kwf_cstr:
  assumes "kwf k" "kabs k = Some d"
  shows "cstr (mem_read (ks_buf k) (ks_cap k)) = cstr d"
proof -
  let ?l = "unat (ks_l k)"
  have l: "?l < ks_cap k" "ks_buf k ?l = NUL" "d = mem_read (ks_buf k) ?l"
    using assms by (auto simp: kwf_def kabs_def split: if_splits)
  then have "[0..<ks_cap k] = [0..<?l] @ ?l # [Suc ?l..<ks_cap k]"
    by (metis less_imp_le_nat upt_conv_Cons upt_add_eq_append le_add_diff_inverse zero_le)
  then have "mem_read (ks_buf k) (ks_cap k) = d @ NUL # map (ks_buf k) [Suc ?l..<ks_cap k]"
    using l by (simp add: mem_read_def)
  then show ?thesis by (cases "NUL \<in> set d") (simp_all add: cstr_append_NUL, simp add: cstr_def)
qed

lemma ksplit_content:
  assumes "kwf k" "kabs k = Some d"
  shows "ksplit alloc k delimiter =
    (case ksplit_core alloc d delimiter of None \<Rightarrow> (0, None) | Some (_, offs) \<Rightarrow> (int (length offs), Some offs))"
  by (simp add: ksplit_def ksplit_core_def kwf_cstr [OF assms])

end
