(* ===== verification/EndToEnd.thy ===== *)
theory EndToEnd
  imports Server
begin

text \<open>
  The way of a request through the whole server, from the bytes a client writes to the values it reads back:
  framing, decoding, queue, worker with its tasks, callback, packing and framing of the response.
\<close>

section \<open>Into the queue\<close>






section \<open>Out of the queue\<close>










section \<open>An instance\<close>

text \<open>A byte format for the packing calls, with numbers in unary, and a client that reads it.\<close>

definition sample_nat :: "nat \<Rightarrow> byte list" where
  "sample_nat n = replicate n 1 @ [0]"




lemma length_sample_nat [simp]: "length (sample_nat n) = Suc n"
  by (simp add: sample_nat_def)






end
