(* ===== verification/KHash.thy ===== *)
theory KHash
  imports KString Bits
begin

text \<open>
  The hash table of klib (\<open>src/ext/klib/khash.h\<close>), which \<open>src/src/magit_server.c\<close> includes. The functions are the bodies of the
  macro \<open>__KHASH_IMPL\<close> for a map, with the hash function as an argument and equality of keys for \<open>__hash_equal\<close>. Indices,
  sizes and the flag words have their 32 bits; a \<open>keys\<close> or \<open>vals\<close> array is a function
  from offsets, whose values before the first write are arbitrary. Whether \<open>malloc\<close> and \<open>realloc\<close> succeed are
  arguments.
\<close>

unbundle bit_operations_syntax

section \<open>Flags\<close>

text \<open>Two bits per bucket, sixteen buckets per word: 2 for an empty bucket, 1 for a deleted one.\<close>

definition flag_shift :: "u32 \<Rightarrow> nat" where
  "flag_shift i = unat (push_bit 1 (i AND 0xF))"

definition flag_word :: "u32 \<Rightarrow> nat" where
  "flag_word i = unat (drop_bit 4 i)"

definition ac_isempty :: "u32 list \<Rightarrow> u32 \<Rightarrow> bool" where
  "ac_isempty flag i \<longleftrightarrow> drop_bit (flag_shift i) (flag ! flag_word i) AND 2 \<noteq> 0"

definition ac_isdel :: "u32 list \<Rightarrow> u32 \<Rightarrow> bool" where
  "ac_isdel flag i \<longleftrightarrow> drop_bit (flag_shift i) (flag ! flag_word i) AND 1 \<noteq> 0"

definition ac_iseither :: "u32 list \<Rightarrow> u32 \<Rightarrow> bool" where
  "ac_iseither flag i \<longleftrightarrow> drop_bit (flag_shift i) (flag ! flag_word i) AND 3 \<noteq> 0"

definition ac_set_isempty_false :: "u32 list \<Rightarrow> u32 \<Rightarrow> u32 list" where
  "ac_set_isempty_false flag i = flag[flag_word i := flag ! flag_word i AND NOT (push_bit (flag_shift i) 2)]"

definition ac_set_isboth_false :: "u32 list \<Rightarrow> u32 \<Rightarrow> u32 list" where
  "ac_set_isboth_false flag i = flag[flag_word i := flag ! flag_word i AND NOT (push_bit (flag_shift i) 3)]"

definition ac_set_isdel_true :: "u32 list \<Rightarrow> u32 \<Rightarrow> u32 list" where
  "ac_set_isdel_true flag i = flag[flag_word i := flag ! flag_word i OR push_bit (flag_shift i) 1]"

definition ac_fsize :: "u32 \<Rightarrow> nat" where
  "ac_fsize m = (if m < 16 then 1 else unat (drop_bit 4 m))"

text \<open>\<open>memset (flags, 0xaa, ...)\<close>: every bucket is empty.\<close>

definition fresh_flags :: "u32 \<Rightarrow> u32 list" where
  "fresh_flags m = replicate (ac_fsize m) 0xAAAAAAAA"

section \<open>The table\<close>

record ('k, 'v) khash =
  n_buckets :: u32
  kh_size :: u32
  n_occupied :: u32
  upper_bound :: u32
  kh_flags :: "u32 list"
  kh_keys :: "'k mem"
  kh_vals :: "'v mem"

definition kh_init :: "'k mem \<Rightarrow> 'v mem \<Rightarrow> ('k, 'v) khash" where
  "kh_init ks vs = \<lparr> n_buckets = 0, kh_size = 0, n_occupied = 0, upper_bound = 0, kh_flags = [], kh_keys = ks, kh_vals = vs \<rparr>"

definition kh_clear :: "('k, 'v) khash \<Rightarrow> ('k, 'v) khash" where
  "kh_clear h =
     (if kh_flags h \<noteq> [] then h\<lparr> kh_flags := fresh_flags (n_buckets h), kh_size := 0, n_occupied := 0 \<rparr> else h)"

text \<open>
  \<open>(khint_t)(n * __ac_HASH_UPPER + 0.5)\<close> for a power of two: the exact value is at least a hundredth away from an integer, which
  is far more than the error of the \<open>double\<close>.
\<close>

definition kh_upper :: "u32 \<Rightarrow> u32" where
  "kh_upper n = of_nat ((77 * unat n + 50) div 100)"

definition kh_roundup32 :: "u32 \<Rightarrow> u32" where
  "kh_roundup32 x =
     (let x = x - 1; x = x OR drop_bit 1 x; x = x OR drop_bit 2 x; x = x OR drop_bit 4 x;
          x = x OR drop_bit 8 x; x = x OR drop_bit 16 x
      in x + 1)"

subsection \<open>Lookup\<close>

text \<open>Bucket \<open>i\<close> neither ends the search nor holds the key.\<close>

definition kh_passes :: "('k, 'v) khash \<Rightarrow> 'k \<Rightarrow> u32 \<Rightarrow> bool" where
  "kh_passes h key i \<longleftrightarrow> \<not> ac_isempty (kh_flags h) i \<and> (ac_isdel (kh_flags h) i \<or> kh_keys h (unat i) \<noteq> key)"

partial_function (option) kh_get_loop :: "('k, 'v) khash \<Rightarrow> 'k \<Rightarrow> u32 \<Rightarrow> u32 \<Rightarrow> u32 \<Rightarrow> u32 option" where
  "kh_get_loop h key start i step =
     (if kh_passes h key i then
        let step = step + 1; i = (i + step) AND (n_buckets h - 1)
        in if i = start then Some (n_buckets h) else kh_get_loop h key start i step
      else Some (if ac_iseither (kh_flags h) i then n_buckets h else i))"

definition kh_get :: "('k \<Rightarrow> u32) \<Rightarrow> ('k, 'v) khash \<Rightarrow> 'k \<Rightarrow> u32 option" where
  "kh_get hash h key =
     (if n_buckets h \<noteq> 0 then
        let i = hash key AND (n_buckets h - 1) in kh_get_loop h key i i 0
      else Some 0)"

subsection \<open>Resizing\<close>

text \<open>The search for an empty bucket of the new table.\<close>

partial_function (option) kh_probe :: "u32 list \<Rightarrow> u32 \<Rightarrow> u32 \<Rightarrow> u32 \<Rightarrow> u32 option" where
  "kh_probe flags msk i step =
     (if ac_isempty flags i then Some i
      else let step = step + 1 in kh_probe flags msk ((i + step) AND msk) step)"

text \<open>The kick-out process with an element in hand; the arrays of the table are used for the old and the new one.\<close>

partial_function (option) kh_kick ::
    "('k \<Rightarrow> u32) \<Rightarrow> u32 \<Rightarrow> 'k \<Rightarrow> 'v \<Rightarrow> ('k, 'v) khash \<Rightarrow> u32 list \<Rightarrow> (('k, 'v) khash \<times> u32 list) option" where
  "kh_kick hash msk key val h new_flags =
     Option.bind (kh_probe new_flags msk (hash key AND msk) 0) (\<lambda>i.
       let new_flags = ac_set_isempty_false new_flags i;
           h' = h\<lparr> kh_keys := (kh_keys h)(unat i := key), kh_vals := (kh_vals h)(unat i := val) \<rparr>
       in if i < n_buckets h \<and> \<not> ac_iseither (kh_flags h) i then
            kh_kick hash msk (kh_keys h (unat i)) (kh_vals h (unat i))
              (h'\<lparr> kh_flags := ac_set_isdel_true (kh_flags h) i \<rparr>) new_flags
          else Some (h', new_flags))"

definition kh_rehash_step ::
    "('k \<Rightarrow> u32) \<Rightarrow> u32 \<Rightarrow> u32 \<Rightarrow> ('k, 'v) khash \<times> u32 list \<Rightarrow> (('k, 'v) khash \<times> u32 list) option" where
  "kh_rehash_step hash msk j st =
     (case st of (h, new_flags) \<Rightarrow>
        if \<not> ac_iseither (kh_flags h) j then
          kh_kick hash msk (kh_keys h (unat j)) (kh_vals h (unat j))
            (h\<lparr> kh_flags := ac_set_isdel_true (kh_flags h) j \<rparr>) new_flags
        else Some (h, new_flags))"

fun kh_rehash ::
    "('k \<Rightarrow> u32) \<Rightarrow> u32 \<Rightarrow> u32 \<Rightarrow> nat \<Rightarrow> ('k, 'v) khash \<times> u32 list \<Rightarrow> (('k, 'v) khash \<times> u32 list) option" where
  "kh_rehash hash msk j 0 st = Some st"
| "kh_rehash hash msk j (Suc n) st = Option.bind (kh_rehash_step hash msk j st) (kh_rehash hash msk (j + 1) n)"

text \<open>The answers of \<open>kmalloc\<close> for the flags and of \<open>krealloc\<close> for keys and values; shrinking always succeeds.\<close>

record kh_allocs =
  flags_ok :: bool
  keys_ok :: bool
  vals_ok :: bool

definition kh_resize ::
    "('k \<Rightarrow> u32) \<Rightarrow> kh_allocs \<Rightarrow> ('k, 'v) khash \<Rightarrow> u32 \<Rightarrow> (int \<times> ('k, 'v) khash) option" where
  "kh_resize hash al h new_n =
     (let new_n = kh_roundup32 new_n; new_n = (if new_n < 4 then 4 else new_n)
      in if kh_size h \<ge> kh_upper new_n then Some (0, h)
         else if \<not> flags_ok al \<or> (n_buckets h < new_n \<and> (\<not> keys_ok al \<or> \<not> vals_ok al)) then Some (- 1, h)
         else
           map_option (\<lambda>(h, new_flags). (0,
               h\<lparr> kh_flags := new_flags, n_buckets := new_n, n_occupied := kh_size h, upper_bound := kh_upper new_n \<rparr>))
             (kh_rehash hash (new_n - 1) 0 (unat (n_buckets h)) (h, fresh_flags new_n)))"

subsection \<open>Insertion and deletion\<close>

text \<open>The search of \<open>kh_put\<close> with the last deleted bucket it has seen: where it ends, that bucket, and \<open>x\<close>.\<close>

partial_function (option) kh_put_loop ::
    "('k, 'v) khash \<Rightarrow> 'k \<Rightarrow> u32 \<Rightarrow> u32 \<Rightarrow> u32 \<Rightarrow> u32 \<Rightarrow> (u32 \<times> u32 \<times> u32) option" where
  "kh_put_loop h key start i site step =
     (if kh_passes h key i then
        let site = (if ac_isdel (kh_flags h) i then i else site); step = step + 1; i = (i + step) AND (n_buckets h - 1)
        in if i = start then Some (i, site, site) else kh_put_loop h key start i site step
      else Some (i, site, n_buckets h))"

text \<open>The bucket for a key.\<close>

definition kh_put_bucket :: "('k \<Rightarrow> u32) \<Rightarrow> ('k, 'v) khash \<Rightarrow> 'k \<Rightarrow> u32 option" where
  "kh_put_bucket hash h key =
     (let i = hash key AND (n_buckets h - 1)
      in if ac_isempty (kh_flags h) i then Some i
         else
           map_option (\<lambda>(i, site, x).
               if x = n_buckets h then if ac_isempty (kh_flags h) i \<and> site \<noteq> n_buckets h then site else i
               else x)
             (kh_put_loop h key i i (n_buckets h) 0))"

definition kh_put_at :: "('k, 'v) khash \<Rightarrow> 'k \<Rightarrow> u32 \<Rightarrow> int \<times> ('k, 'v) khash" where
  "kh_put_at h key x =
     (if ac_isempty (kh_flags h) x then
        (1, h\<lparr> kh_keys := (kh_keys h)(unat x := key), kh_flags := ac_set_isboth_false (kh_flags h) x,
               kh_size := kh_size h + 1, n_occupied := n_occupied h + 1 \<rparr>)
      else if ac_isdel (kh_flags h) x then
        (2, h\<lparr> kh_keys := (kh_keys h)(unat x := key), kh_flags := ac_set_isboth_false (kh_flags h) x,
               kh_size := kh_size h + 1 \<rparr>)
      else (0, h))"

text \<open>The iterator, the extra return code, and the table.\<close>

definition kh_put ::
    "('k \<Rightarrow> u32) \<Rightarrow> kh_allocs \<Rightarrow> ('k, 'v) khash \<Rightarrow> 'k \<Rightarrow> (u32 \<times> int \<times> ('k, 'v) khash) option" where
  "kh_put hash al h key =
     Option.bind
       (if n_occupied h \<ge> upper_bound h then
          kh_resize hash al h (if n_buckets h > push_bit 1 (kh_size h) then n_buckets h - 1 else n_buckets h + 1)
        else Some (0, h))
       (\<lambda>(r, h).
          if r < 0 then Some (n_buckets h, - 1, h)
          else map_option (\<lambda>x. case kh_put_at h key x of (ret, h) \<Rightarrow> (x, ret, h)) (kh_put_bucket hash h key))"

definition kh_del :: "('k, 'v) khash \<Rightarrow> u32 \<Rightarrow> ('k, 'v) khash" where
  "kh_del h x =
     (if x \<noteq> n_buckets h \<and> \<not> ac_iseither (kh_flags h) x then
        h\<lparr> kh_flags := ac_set_isdel_true (kh_flags h) x, kh_size := kh_size h - 1 \<rparr>
      else h)"

subsection \<open>Iterators\<close>

definition kh_exist :: "('k, 'v) khash \<Rightarrow> u32 \<Rightarrow> bool" where
  "kh_exist h x \<longleftrightarrow> \<not> ac_iseither (kh_flags h) x"

definition kh_key :: "('k, 'v) khash \<Rightarrow> u32 \<Rightarrow> 'k" where
  "kh_key h x = kh_keys h (unat x)"

definition kh_val :: "('k, 'v) khash \<Rightarrow> u32 \<Rightarrow> 'v" where
  "kh_val h x = kh_vals h (unat x)"

text \<open>The assignment \<open>kh_val(h, x) = v\<close>.\<close>

definition kh_set_val :: "u32 \<Rightarrow> 'v \<Rightarrow> ('k, 'v) khash \<Rightarrow> ('k, 'v) khash" where
  "kh_set_val x v h = h\<lparr> kh_vals := (kh_vals h)(unat x := v) \<rparr>"

text \<open>What \<open>kh_foreach\<close> hands to its code, in order.\<close>

definition kh_foreach :: "('k, 'v) khash \<Rightarrow> ('k \<times> 'v) list" where
  "kh_foreach h = map (\<lambda>i. (kh_key h (of_nat i), kh_val h (of_nat i)))
     (filter (\<lambda>i. kh_exist h (of_nat i)) [0..<unat (n_buckets h)])"

section \<open>Hash functions\<close>

definition kh_int64_hash_func :: "u64 \<Rightarrow> u32" where
  "kh_int64_hash_func key = ucast (drop_bit 33 key XOR key XOR push_bit 11 key)"

text \<open>A \<open>char\<close> is signed.\<close>

definition char_khint :: "char \<Rightarrow> u32" where
  "char_khint c = (let b = of_char c :: int in word_of_int (if b \<ge> 128 then b - 256 else b))"

definition X31_hash_string :: "string \<Rightarrow> u32" where
  "X31_hash_string s = (case cstr s of [] \<Rightarrow> 0 | c # cs \<Rightarrow> foldl (\<lambda>h c. push_bit 5 h - h + char_khint c) (char_khint c) cs)"

definition Wang_hash :: "u32 \<Rightarrow> u32" where
  "Wang_hash key =
     (let key = key + NOT (push_bit 15 key); key = key XOR drop_bit 10 key; key = key + push_bit 3 key;
          key = key XOR drop_bit 6 key; key = key + NOT (push_bit 11 key)
      in key XOR drop_bit 16 key)"

section \<open>Flags as an array\<close>

lemma flag_word_nat: "flag_word i = unat i div 16"
  by (simp add: flag_word_def drop_bit_eq_div unat_div_distrib)

lemma flag_shift_nat: "flag_shift i = 2 * (unat i mod 16)"
proof -
  have "i AND 0xF = i mod 16" using take_bit_eq_mask [of 4 i] by (simp add: take_bit_eq_mod mask_eq_exp_minus_1)
  then have a: "unat (i AND 0xF) = unat i mod 16" by (simp add: unat_mod_distrib)
  have "unat (push_bit 1 (i AND 0xF)) = 2 * (unat i mod 16)"
    unfolding push_bit_eq_mult by (simp add: unat_word_ariths a)
  then show ?thesis by (simp add: flag_shift_def)
qed

lemma and_bit_tests: "(w AND 1 \<noteq> 0) = bit w 0" "(w AND 2 \<noteq> 0) = bit w 1" "(w AND 3 \<noteq> 0) = (bit w 0 \<or> bit w 1)" for w :: u32
proof -
  show 1: "(w AND 1 \<noteq> 0) = bit w 0" by (simp add: bit_iff_and_push_bit_not_eq_0)
  show 2: "(w AND 2 \<noteq> 0) = bit w 1" by (simp add: bit_iff_and_push_bit_not_eq_0)
  have "w AND 3 = (w AND 1) OR (w AND 2)" unfolding bit.conj_disj_distrib [symmetric] by simp
  with 1 2 show "(w AND 3 \<noteq> 0) = (bit w 0 \<or> bit w 1)" by (metis or_eq_0_iff)
qed

text \<open>The two bits of a bucket.\<close>

definition flag_bit :: "u32 list \<Rightarrow> u32 \<Rightarrow> nat \<Rightarrow> bool" where
  "flag_bit fl i b \<longleftrightarrow> bit (fl ! (unat i div 16)) (2 * (unat i mod 16) + b)"

lemma flag_tests:
  "ac_isempty fl i = flag_bit fl i 1" "ac_isdel fl i = flag_bit fl i 0" "ac_iseither fl i = (flag_bit fl i 0 \<or> flag_bit fl i 1)"
  by (simp_all add: ac_isempty_def ac_isdel_def ac_iseither_def and_bit_tests flag_bit_def flag_word_nat flag_shift_nat
      bit_drop_bit_eq del: One_nat_def)

lemma flag_place:
  assumes "b < 2" "c < 2" "unat i div 16 = unat j div 16" "2 * (unat i mod 16) + b = 2 * (unat j mod 16) + c"
  shows "i = j \<and> b = c"
proof -
  have half: "(2 * x + b) div 2 = x" "(2 * x + c) div 2 = x" for x using assms(1,2) by simp_all
  have m: "unat i mod 16 = unat j mod 16" using arg_cong [OF assms(4), of "\<lambda>x. x div 2"] by (simp only: half)
  then have "unat i = unat j" using assms(3) div_mult_mod_eq [of "unat i" 16] div_mult_mod_eq [of "unat j" 16] by linarith
  then show ?thesis using m assms(4) by (simp add: word_unat_eq_iff)
qed

lemma flag_bit_update:
  assumes "unat i div 16 < length fl" "b < 2"
  shows "flag_bit (fl[flag_word i := w]) j b =
    (if unat j div 16 = unat i div 16 then bit w (2 * (unat j mod 16) + b) else flag_bit fl j b)"
  using assms by (simp add: flag_bit_def flag_word_nat)

lemma bit_3: "bit (3 :: u32) n \<longleftrightarrow> n = 0 \<or> n = 1" and bit_2: "bit (2 :: u32) n \<longleftrightarrow> n = 1"
proof -
  show "bit (3 :: u32) n \<longleftrightarrow> n = 0 \<or> n = 1" by (cases n) (auto simp: bit_numeral_rec bit_1_iff)
  show "bit (2 :: u32) n \<longleftrightarrow> n = 1" by (cases n) (auto simp: bit_numeral_rec bit_1_iff)
qed

lemma flag_bit_and_not:
  assumes "unat i div 16 < length fl" "b < 2"
  shows "flag_bit (fl[flag_word i := fl ! flag_word i AND NOT (push_bit (flag_shift i) w)]) j b \<longleftrightarrow>
    flag_bit fl j b \<and> \<not> (unat j div 16 = unat i div 16 \<and> 2 * (unat i mod 16) \<le> 2 * (unat j mod 16) + b \<and>
      bit w (2 * (unat j mod 16) + b - 2 * (unat i mod 16)))"
proof -
  have "2 * (unat j mod 16) + b < 32" using assms(2) mod_less_divisor [of 16 "unat j"] by linarith
  then show ?thesis
    using assms by (auto simp: flag_bit_update) (auto simp: bit_simps flag_word_nat flag_shift_nat flag_bit_def)
qed

lemma flag_offset:
  assumes "unat j div 16 = unat i div 16" "b < 2" "c < 2"
  shows "2 * (unat i mod 16) \<le> 2 * (unat j mod 16) + b \<and> 2 * (unat j mod 16) + b - 2 * (unat i mod 16) = c \<longleftrightarrow> i = j \<and> b = c"
proof
  assume "2 * (unat i mod 16) \<le> 2 * (unat j mod 16) + b \<and> 2 * (unat j mod 16) + b - 2 * (unat i mod 16) = c"
  then have "2 * (unat i mod 16) + c = 2 * (unat j mod 16) + b" by linarith
  then show "i = j \<and> b = c" using flag_place [of c b i j] assms by auto
qed simp

lemma flag_set:
  assumes "unat i div 16 < length fl" "b < 2"
  shows "flag_bit (ac_set_isempty_false fl i) j b \<longleftrightarrow> flag_bit fl j b \<and> \<not> (j = i \<and> b = 1)"
    and "flag_bit (ac_set_isboth_false fl i) j b \<longleftrightarrow> flag_bit fl j b \<and> j \<noteq> i"
    and "flag_bit (ac_set_isdel_true fl i) j b \<longleftrightarrow> flag_bit fl j b \<or> (j = i \<and> b = 0)"
proof -
  show "flag_bit (ac_set_isempty_false fl i) j b \<longleftrightarrow> flag_bit fl j b \<and> \<not> (j = i \<and> b = 1)"
    unfolding ac_set_isempty_false_def flag_bit_and_not [OF assms] bit_2
    using flag_offset [of j i b 1] assms(2) by auto
  show "flag_bit (ac_set_isboth_false fl i) j b \<longleftrightarrow> flag_bit fl j b \<and> j \<noteq> i"
    unfolding ac_set_isboth_false_def flag_bit_and_not [OF assms] bit_3
    using flag_offset [of j i b 0] flag_offset [of j i b 1] assms(2) by (auto simp: less_2_cases_iff)
  have "2 * (unat j mod 16) + b < 32" using assms(2) mod_less_divisor [of 16 "unat j"] by linarith
  then have "flag_bit (ac_set_isdel_true fl i) j b \<longleftrightarrow> flag_bit fl j b \<or> (unat j div 16 = unat i div 16 \<and>
      2 * (unat i mod 16) \<le> 2 * (unat j mod 16) + b \<and> 2 * (unat j mod 16) + b - 2 * (unat i mod 16) = 0)"
    using assms unfolding ac_set_isdel_true_def
    by (auto simp: flag_bit_update) (auto simp: bit_simps flag_word_nat flag_shift_nat flag_bit_def bit_1_iff)
  then show "flag_bit (ac_set_isdel_true fl i) j b \<longleftrightarrow> flag_bit fl j b \<or> (j = i \<and> b = 0)"
    using flag_offset [of j i b 0] assms(2) by auto
qed

lemma length_flag_set [simp]:
  "length (ac_set_isempty_false fl i) = length fl" "length (ac_set_isboth_false fl i) = length fl"
  "length (ac_set_isdel_true fl i) = length fl"
  by (simp_all add: ac_set_isempty_false_def ac_set_isboth_false_def ac_set_isdel_true_def)

lemma bit_aaaaaaaa: "k < 32 \<Longrightarrow> bit (0xAAAAAAAA :: u32) k \<longleftrightarrow> odd k"
proof -
  assume "k < 32"
  then have "k \<in> set [0..<32]" by simp
  moreover have "\<forall>k\<in>set [0..<32]. bit (0xAAAAAAAA :: u32) k \<longleftrightarrow> odd k" by (simp add: upt_rec bit_numeral_rec bit_1_iff)
  ultimately show ?thesis by blast
qed

text \<open>A bucket index within the flag array.\<close>

lemma fsize_room: "i < n \<Longrightarrow> unat i div 16 < ac_fsize n"
  if "n < 16 \<or> unat n mod 16 = 0"
proof -
  assume "i < n"
  then have "unat i < unat n" by (simp add: word_less_nat_alt)
  with that show ?thesis by (auto simp: ac_fsize_def drop_bit_eq_div unat_div_distrib word_less_nat_alt)
qed

lemma length_fresh_flags [simp]: "length (fresh_flags n) = ac_fsize n"
  by (simp add: fresh_flags_def)

lemma fresh_flag_bit: "i < n \<Longrightarrow> n < 16 \<or> unat n mod 16 = 0 \<Longrightarrow> b < 2 \<Longrightarrow> flag_bit (fresh_flags n) i b \<longleftrightarrow> b = 1"
proof -
  assume a: "i < n" "n < 16 \<or> unat n mod 16 = 0" "b < 2"
  have "2 * (unat i mod 16) + b < 32" using a(3) mod_less_divisor [of 16 "unat i"] by linarith
  from bit_aaaaaaaa [OF this] have "flag_bit (fresh_flags n) i b \<longleftrightarrow> odd (2 * (unat i mod 16) + b)"
    unfolding flag_bit_def fresh_flags_def nth_replicate [OF fsize_room [OF a(2,1)]] .
  then show ?thesis using a(3) by (auto simp: less_2_cases_iff)
qed

section \<open>Probing\<close>

text \<open>Tables have a power of two of buckets; the buckets probed are at triangular distances.\<close>

definition pow2_size :: "u32 \<Rightarrow> bool" where
  "pow2_size n \<longleftrightarrow> (\<exists>m. 2 \<le> m \<and> m \<le> 31 \<and> n = 2 ^ m)"

definition tri :: "nat \<Rightarrow> nat" where
  "tri s = s * (s + 1) div 2"

definition probe :: "u32 \<Rightarrow> u32 \<Rightarrow> nat \<Rightarrow> u32" where
  "probe n k s = (k + of_nat (tri s)) AND (n - 1)"

lemma tri_Suc: "tri (Suc s) = tri s + Suc s"
  by (simp add: tri_def)

lemma tri_diff: "2 * tri t = t * (t + 1)"
  by (simp add: tri_def)

lemma pow2_sizeE:
  assumes "pow2_size n"
  obtains m where "2 \<le> m" "m \<le> 31" "unat n = 2 ^ m" "n - 1 = mask m"
proof -
  from assms obtain m where m: "2 \<le> m" "m \<le> 31" "n = 2 ^ m" by (auto simp: pow2_size_def)
  have "(2::nat) ^ m < 2 ^ 32" using m(2) by (intro power_strict_increasing) auto
  then have "unat (of_nat (2 ^ m) :: u32) = 2 ^ m" by (simp only: unat_of_nat) simp
  then have "unat n = 2 ^ m" using m(3) by simp
  with m that show thesis by (simp add: mask_eq_exp_minus_1)
qed

lemma pow2_size_flags: "pow2_size n \<Longrightarrow> n < 16 \<or> unat n mod 16 = 0"
proof (erule pow2_sizeE)
  fix m :: nat assume m: "2 \<le> m" "unat n = 2 ^ m"
  show ?thesis
  proof (cases "m < 4")
    case True
    then have "unat n < 2 ^ 4" unfolding m(2) by (intro power_strict_increasing) auto
    then show ?thesis by (simp add: word_less_nat_alt)
  next
    case False
    then have "(2::nat) ^ m = 2 ^ 4 * 2 ^ (m - 4)" by (metis power_add le_add_diff_inverse not_less)
    then show ?thesis by (simp add: m(2))
  qed
qed

lemma and_size_nat:
  assumes "pow2_size n" "unat n = 2 ^ m"
  shows "unat (x AND (n - 1)) = unat x mod 2 ^ m"
proof -
  from assms(1) obtain m' where m: "m' \<le> 31" "unat n = 2 ^ m'" "n - 1 = mask m'" by (rule pow2_sizeE)
  then have "m' = m" using assms(2) by simp
  then show ?thesis
    unfolding m(3) take_bit_eq_mask [symmetric] unsigned_take_bit_eq by (simp only: take_bit_eq_mod)
qed

lemma and_size_less:
  assumes "pow2_size n"
  shows "x AND (n - 1) < n"
proof -
  from assms obtain m where "unat n = 2 ^ m" by (rule pow2_sizeE)
  with and_size_nat [OF assms this] show ?thesis by (simp add: word_less_nat_alt)
qed

lemma probe_nat:
  assumes "pow2_size n" "unat n = 2 ^ m"
  shows "unat (probe n k s) = (unat k + tri s) mod 2 ^ m"
proof -
  from assms(1) obtain m' where m: "m' \<le> 31" "unat n = 2 ^ m'" by (rule pow2_sizeE)
  then have "m \<le> 31" using assms(2) by simp
  have "unat (probe n k s) = unat (k + of_nat (tri s)) mod 2 ^ m"
    unfolding probe_def by (rule and_size_nat [OF assms])
  also have "unat (k + of_nat (tri s)) = (unat k + tri s) mod 2 ^ 32" by (simp add: unat_word_ariths unat_of_nat mod_simps)
  also have "\<dots> mod 2 ^ m = (unat k + tri s) mod 2 ^ m"
    using \<open>m \<le> 31\<close> by (intro mod_mod_cancel le_imp_power_dvd) simp
  finally show ?thesis .
qed

lemma probe_less: "pow2_size n \<Longrightarrow> probe n k s < n"
  by (simp add: probe_def and_size_less)

text \<open>The probed buckets are different until all have been seen.\<close>

lemma tri_mono: "s \<le> t \<Longrightarrow> tri s \<le> tri t"
  unfolding tri_def by (intro div_le_mono mult_le_mono) simp_all

lemma tri_inj:
  assumes "s < t" "t < 2 ^ m"
  shows "\<not> 2 ^ m dvd tri t - tri s"
proof
  assume "2 ^ m dvd tri t - tri s"
  then have "2 * 2 ^ m dvd 2 * (tri t - tri s)" by (rule mult_dvd_mono [OF dvd_refl])
  moreover have "2 * (tri t - tri s) = (t - s) * (t + s + 1)"
  proof -
    obtain d where d: "t = s + d" using assms(1) by (metis less_imp_add_positive)
    have "2 * tri t = 2 * tri s + d * (s + d + s + 1)" unfolding tri_diff d by (simp add: algebra_simps)
    then show ?thesis by (simp add: d diff_mult_distrib2)
  qed
  ultimately have dvd: "2 ^ Suc m dvd (t - s) * (t + s + 1)" by simp
  show False
  proof (cases "even (t - s)")
    case True
    then have "odd (t + s + 1)" using assms(1) by simp
    then have "coprime (2 ^ Suc m) (t + s + 1)" by (meson coprime_left_2_iff_odd coprime_power_left_iff)
    from coprime_dvd_mult_left_iff [OF this, of "t - s"] dvd have "2 ^ Suc m dvd t - s" by blast
    then have "2 ^ Suc m \<le> t - s" using assms(1) by (intro dvd_imp_le) simp_all
    with assms show False by simp
  next
    case False
    then have "coprime (2 ^ Suc m) (t - s)" by (meson coprime_left_2_iff_odd coprime_power_left_iff)
    from coprime_dvd_mult_right_iff [OF this, of "t + s + 1"] dvd have "2 ^ Suc m dvd t + s + 1" by blast
    then have "2 ^ Suc m \<le> t + s + 1" by (rule dvd_imp_le) simp
    with assms show False by simp
  qed
qed

lemma probe_inj:
  assumes "pow2_size n"
  shows "inj_on (probe n k) {..<unat n}"
proof (rule linorder_inj_onI)
  fix s t assume st: "s < t" "s \<in> {..<unat n}" "t \<in> {..<unat n}"
  from assms obtain m where m: "unat n = 2 ^ m" by (rule pow2_sizeE)
  show "probe n k s \<noteq> probe n k t"
  proof
    assume "probe n k s = probe n k t"
    then have "(unat k + tri s) mod 2 ^ m = (unat k + tri t) mod 2 ^ m" using probe_nat [OF assms m] by metis
    moreover have "unat k + tri s \<le> unat k + tri t" using tri_mono [of s t] st(1) by simp
    ultimately have "2 ^ m dvd (unat k + tri t) - (unat k + tri s)" by (metis mod_eq_dvd_iff_nat)
    with tri_inj [OF st(1)] st(3) m show False by simp
  qed
qed auto

lemma unat_of_nat32: "s < 2 ^ 32 \<Longrightarrow> unat (of_nat s :: u32) = s"
  by (simp add: unsigned_of_nat take_bit_nat_eq_self)

lemma unat_less32: "unat (n :: u32) < 2 ^ 32"
  using unsigned_less [of n] by simp

lemma card_below: "card {i. i < n} = unat n" for n :: u32
proof -
  have "{i. i < n} = of_nat ` {..<unat n}"
  proof (intro set_eqI iffI)
    fix i assume "i \<in> {i. i < n}"
    then show "i \<in> of_nat ` {..<unat n}" by (intro image_eqI [of _ _ "unat i"]) (simp_all add: word_less_nat_alt)
  next
    fix i assume "i \<in> (of_nat :: nat \<Rightarrow> u32) ` {..<unat n}"
    then obtain s where "i = of_nat s" "s < unat n" by auto
    then show "i \<in> {i. i < n}" using unat_less32 [of n] by (simp add: word_less_nat_alt unat_of_nat32)
  qed
  moreover have "inj_on (of_nat :: nat \<Rightarrow> u32) {..<unat n}"
    using unat_less32 [of n] by (intro inj_on_inverseI [of _ unat]) (auto intro: unat_of_nat32)
  ultimately show ?thesis by (simp add: card_image)
qed

lemma finite_below [simp]: "finite {i. i < n}" for n :: u32
  by simp

lemma probe_surj:
  assumes "pow2_size n" "i < n"
  shows "\<exists>s < unat n. probe n k s = i"
proof -
  have "probe n k ` {..<unat n} \<subseteq> {i. i < n}" using probe_less [OF assms(1)] by auto
  moreover have "card (probe n k ` {..<unat n}) = card {i. i < n}"
    using card_image [OF probe_inj [OF assms(1)], of k] by (simp add: card_below)
  ultimately have "probe n k ` {..<unat n} = {i. i < n}" by (intro card_subset_eq) auto
  with assms(2) have "i \<in> probe n k ` {..<unat n}" by simp
  then show ?thesis by auto
qed

lemma probe_0: "probe n k 0 = k AND (n - 1)"
  by (simp add: probe_def tri_def)

lemma probe_Suc:
  assumes "pow2_size n"
  shows "(probe n k s + (of_nat s + 1)) AND (n - 1) = probe n k (Suc s)"
proof -
  from assms obtain m where m: "m \<le> 31" "unat n = 2 ^ m" "n - 1 = mask m" by (rule pow2_sizeE)
  have 32: "x mod 2 ^ 32 mod 2 ^ m = x mod 2 ^ m" for x :: nat
    using m(1) by (intro mod_mod_cancel le_imp_power_dvd) simp
  have "unat ((probe n k s + (of_nat s + 1)) AND (n - 1)) = unat (probe n k s + of_nat (Suc s)) mod 2 ^ m"
    using and_size_nat [OF assms m(2)] by (simp add: add.commute)
  also have "\<dots> = (unat (probe n k s) + Suc s) mod 2 ^ 32 mod 2 ^ m"
    by (simp only: unat_word_ariths unat_of_nat mod_simps) simp
  also have "\<dots> = unat (probe n k (Suc s))"
    unfolding 32 probe_nat [OF assms m(2)] by (simp only: mod_add_left_eq tri_Suc add.assoc)
  finally show ?thesis by (simp only: word_unat_eq_iff)
qed

section \<open>The invariant\<close>

text \<open>The buckets in use, and those that were ever used.\<close>

definition live :: "('k, 'v) khash \<Rightarrow> u32 set" where
  "live h = {i. i < n_buckets h \<and> kh_exist h i}"

definition used :: "u32 list \<Rightarrow> u32 \<Rightarrow> u32 set" where
  "used fl n = {i. i < n \<and> \<not> ac_isempty fl i}"

text \<open>Bucket \<open>i\<close> is found from the hash value \<open>k\<close> before an empty one.\<close>

definition reached :: "u32 list \<Rightarrow> u32 \<Rightarrow> u32 \<Rightarrow> u32 \<Rightarrow> bool" where
  "reached fl n k i \<longleftrightarrow> (\<exists>s. i = probe n k s \<and> (\<forall>t < s. \<not> ac_isempty fl (probe n k t)))"

text \<open>
  A table that has never been filled has no arrays. In the others the number of buckets is a power of two, the counters count, at least
  one bucket is empty, no key occurs twice, and every key is reached from its hash value.
\<close>

definition kh_ok :: "('k \<Rightarrow> u32) \<Rightarrow> ('k, 'v) khash \<Rightarrow> bool" where
  "kh_ok hash h \<longleftrightarrow>
     (if n_buckets h = 0 then kh_size h = 0 \<and> n_occupied h = 0 \<and> upper_bound h = 0 \<and> kh_flags h = []
      else pow2_size (n_buckets h) \<and> length (kh_flags h) = ac_fsize (n_buckets h) \<and>
        upper_bound h = kh_upper (n_buckets h) \<and>
        unat (kh_size h) = card (live h) \<and> unat (n_occupied h) = card (used (kh_flags h) (n_buckets h)) \<and>
        n_occupied h \<le> upper_bound h \<and> inj_on (kh_key h) (live h) \<and>
        (\<forall>i\<in>live h. reached (kh_flags h) (n_buckets h) (hash (kh_key h i)) i))"

text \<open>The map that a table stands for.\<close>

definition kh_map :: "('k, 'v) khash \<Rightarrow> 'k \<Rightarrow> 'v option" where
  "kh_map h = map_of (kh_foreach h)"

lemma live_used: "live h \<subseteq> used (kh_flags h) (n_buckets h)"
  by (auto simp: live_def used_def kh_exist_def flag_tests)

lemma finite_live [simp]: "finite (live h)" and finite_used [simp]: "finite (used fl n)"
  by simp_all

lemma set_kh_foreach: "set (kh_foreach h) = (\<lambda>i. (kh_key h i, kh_val h i)) ` live h"
proof (intro equalityI subsetI)
  fix x assume "x \<in> set (kh_foreach h)"
  then obtain i where i: "i < unat (n_buckets h)" "kh_exist h (of_nat i)" "x = (kh_key h (of_nat i), kh_val h (of_nat i))"
    by (auto simp: kh_foreach_def)
  moreover have "(of_nat i :: u32) < n_buckets h"
    using i(1) unat_less32 [of "n_buckets h"] by (simp add: word_less_nat_alt unat_of_nat32)
  ultimately show "x \<in> (\<lambda>i. (kh_key h i, kh_val h i)) ` live h" by (auto simp: live_def)
next
  fix x assume "x \<in> (\<lambda>i. (kh_key h i, kh_val h i)) ` live h"
  then obtain i where "i < n_buckets h" "kh_exist h i" "x = (kh_key h i, kh_val h i)" by (auto simp: live_def)
  then show "x \<in> set (kh_foreach h)"
    by (auto simp: kh_foreach_def word_less_nat_alt intro!: image_eqI [of _ _ "unat i"])
qed

lemma kh_foreach_keys: "map fst (kh_foreach h) = map (kh_key h) (map of_nat (filter (\<lambda>i. kh_exist h (of_nat i)) [0..<unat (n_buckets h)]))"
  by (simp add: kh_foreach_def)

lemma distinct_kh_foreach:
  assumes "inj_on (kh_key h) (live h)"
  shows "distinct (map fst (kh_foreach h))"
proof -
  let ?is = "filter (\<lambda>i. kh_exist h (of_nat i)) [0..<unat (n_buckets h)]"
  have small: "i \<in> set ?is \<Longrightarrow> i < 2 ^ 32" for i using unat_less32 [of "n_buckets h"] by auto
  then have "inj_on (of_nat :: nat \<Rightarrow> u32) (set ?is)" by (intro inj_on_inverseI [of _ unat]) (auto intro: unat_of_nat32)
  then have "distinct (map of_nat ?is :: u32 list)" by (simp add: distinct_map)
  moreover have "set (map of_nat ?is) \<subseteq> live h"
    using small by (auto simp: live_def word_less_nat_alt unat_of_nat32)
  ultimately show ?thesis
    unfolding kh_foreach_keys distinct_map using inj_on_subset [OF assms] by blast
qed

lemma kh_map_eq:
  assumes "inj_on (kh_key h) (live h)"
  shows "kh_map h k = Some v \<longleftrightarrow> (\<exists>i\<in>live h. kh_key h i = k \<and> kh_val h i = v)"
  using distinct_kh_foreach [OF assms] unfolding kh_map_def by (auto simp: set_kh_foreach)

lemma kh_map_live: "inj_on (kh_key h) (live h) \<Longrightarrow> i \<in> live h \<Longrightarrow> kh_map h (kh_key h i) = Some (kh_val h i)"
  by (auto simp: kh_map_eq)

lemma kh_map_None: "kh_map h k = None \<longleftrightarrow> (\<forall>i\<in>live h. kh_key h i \<noteq> k)"
proof -
  have "kh_map h k = None \<longleftrightarrow> k \<notin> fst ` set (kh_foreach h)" unfolding kh_map_def by (rule map_of_eq_None_iff)
  also have "fst ` set (kh_foreach h) = kh_key h ` live h" unfolding set_kh_foreach by (simp add: image_image)
  finally show ?thesis by auto
qed

lemma pow2_upper:
  assumes "pow2_size n"
  shows "unat (kh_upper n) = (77 * unat n + 50) div 100" "kh_upper n < n" "4 \<le> unat n" "unat n \<le> 2 ^ 31"
proof -
  from assms obtain m where m: "2 \<le> m" "m \<le> 31" "unat n = 2 ^ m" by (rule pow2_sizeE)
  have "(2::nat) ^ 2 \<le> 2 ^ m" "(2::nat) ^ m \<le> 2 ^ 31" using m(1,2) by (simp_all only: power_increasing)
  then show 4: "4 \<le> unat n" "unat n \<le> 2 ^ 31" by (simp_all add: m(3))
  show u: "unat (kh_upper n) = (77 * unat n + 50) div 100"
    using 4(2) unfolding kh_upper_def by (intro unat_of_nat32) simp
  show "kh_upper n < n" using 4 by (simp add: word_less_nat_alt u)
qed

text \<open>Every probe sequence meets an empty bucket.\<close>

lemma empty_exists:
  assumes "pow2_size n" "card (used fl n) < unat n"
  shows "\<exists>s < unat n. ac_isempty fl (probe n k s)"
proof -
  have "used fl n \<noteq> {i. i < n}"
  proof
    assume "used fl n = {i. i < n}"
    with assms(2) show False by (simp only: card_below less_irrefl)
  qed
  then obtain i where "i < n" "ac_isempty fl i" by (auto simp: used_def)
  moreover from probe_surj [OF assms(1) this(1)] obtain s where "s < unat n" "probe n k s = i" by blast
  ultimately show ?thesis by auto
qed

lemma first_such:
  assumes "\<exists>s<(n::nat). P s"
  obtains s where "s < n" "P s" "\<And>t. t < s \<Longrightarrow> \<not> P t"
proof -
  from assms obtain s0 where "s0 < n" "P s0" by blast
  then have "P (LEAST s. P s)" "(LEAST s. P s) < n" using LeastI [of P s0] Least_le [of P s0] by simp_all
  then show thesis by (intro that [of "LEAST s. P s"]) (auto dest: not_less_Least)
qed

section \<open>Lookup\<close>

text \<open>The searches stop at the first probed bucket at which they can.\<close>

lemma probe_not_start:
  assumes "pow2_size n" "0 < s" "s < unat n"
  shows "probe n k s \<noteq> probe n k 0"
  using probe_inj [OF assms(1)] assms(2,3) by (metis inj_on_eq_iff lessThan_iff less_trans not_less_iff_gr_or_eq)

lemma kh_get_loop_stops:
  assumes "pow2_size (n_buckets h)" "s0 < unat (n_buckets h)" "\<not> kh_passes h key (probe (n_buckets h) k s0)"
    and "\<And>t. t < s0 \<Longrightarrow> kh_passes h key (probe (n_buckets h) k t)" "s \<le> s0"
  shows "kh_get_loop h key (probe (n_buckets h) k 0) (probe (n_buckets h) k s) (of_nat s) =
    Some (if ac_iseither (kh_flags h) (probe (n_buckets h) k s0) then n_buckets h else probe (n_buckets h) k s0)"
  using assms(5)
proof (induction "s0 - s" arbitrary: s)
  case 0
  then show ?case using assms(3) by (subst kh_get_loop.simps) simp
next
  case (Suc d)
  then have s: "s < s0" by simp
  have "probe (n_buckets h) k (Suc s) \<noteq> probe (n_buckets h) k 0"
    using s assms(2) by (intro probe_not_start [OF assms(1)]) simp_all
  moreover have "kh_get_loop h key (probe (n_buckets h) k 0) (probe (n_buckets h) k (Suc s)) (of_nat (Suc s)) =
    Some (if ac_iseither (kh_flags h) (probe (n_buckets h) k s0) then n_buckets h else probe (n_buckets h) k s0)"
    using Suc s by (intro Suc.hyps) simp_all
  ultimately show ?case
    using assms(4) [OF s] probe_Suc [OF assms(1), of k s]
    by (subst kh_get_loop.simps) (simp add: Let_def add.commute)
qed

lemma kh_ok_sized:
  assumes "kh_ok hash h" "n_buckets h \<noteq> 0"
  shows "pow2_size (n_buckets h)" "length (kh_flags h) = ac_fsize (n_buckets h)" "upper_bound h = kh_upper (n_buckets h)"
    "unat (kh_size h) = card (live h)" "unat (n_occupied h) = card (used (kh_flags h) (n_buckets h))"
    "n_occupied h \<le> upper_bound h" "inj_on (kh_key h) (live h)"
    "\<And>i. i \<in> live h \<Longrightarrow> reached (kh_flags h) (n_buckets h) (hash (kh_key h i)) i"
    "card (used (kh_flags h) (n_buckets h)) < unat (n_buckets h)"
proof -
  show a: "pow2_size (n_buckets h)" "length (kh_flags h) = ac_fsize (n_buckets h)" "upper_bound h = kh_upper (n_buckets h)"
    "unat (kh_size h) = card (live h)" "unat (n_occupied h) = card (used (kh_flags h) (n_buckets h))"
    "n_occupied h \<le> upper_bound h" "inj_on (kh_key h) (live h)"
    "\<And>i. i \<in> live h \<Longrightarrow> reached (kh_flags h) (n_buckets h) (hash (kh_key h i)) i"
    using assms(1) unfolding kh_ok_def if_not_P [OF assms(2)] by blast+
  have "n_occupied h < n_buckets h" using a(3,6) pow2_upper(2) [OF a(1)] by simp
  then show "card (used (kh_flags h) (n_buckets h)) < unat (n_buckets h)" by (simp add: word_less_nat_alt a(5))
qed

lemma kh_ok_inj: "kh_ok hash h \<Longrightarrow> inj_on (kh_key h) (live h)"
  by (cases "n_buckets h = 0") (simp_all add: kh_ok_def live_def)

text \<open>The first bucket at which a search for a key stops, and what that says.\<close>

lemma search_stop:
  assumes "kh_ok hash h" "n_buckets h \<noteq> 0"
  obtains s where "s < unat (n_buckets h)" "\<not> kh_passes h key (probe (n_buckets h) (hash key) s)"
    "\<And>t. t < s \<Longrightarrow> kh_passes h key (probe (n_buckets h) (hash key) t)"
    "\<And>i. i \<in> live h \<Longrightarrow> kh_key h i = key \<Longrightarrow> i = probe (n_buckets h) (hash key) s"
proof -
  let ?p = "probe (n_buckets h) (hash key)"
  note ok = kh_ok_sized [OF assms]
  have "\<exists>s < unat (n_buckets h). \<not> kh_passes h key (?p s)"
    using empty_exists [OF ok(1,9), of "hash key"] by (auto simp: kh_passes_def)
  then obtain s where s: "s < unat (n_buckets h)" "\<not> kh_passes h key (?p s)" "\<And>t. t < s \<Longrightarrow> \<not> \<not> kh_passes h key (?p t)"
    by (rule first_such) blast
  have "i = ?p s" if i: "i \<in> live h" "kh_key h i = key" for i
  proof -
    obtain s' where s': "i = ?p s'" "\<forall>t < s'. \<not> ac_isempty (kh_flags h) (?p t)"
      using ok(8) [OF i(1)] i(2) by (auto simp: reached_def)
    have stop: "\<not> kh_passes h key i" using i by (auto simp: kh_passes_def live_def kh_exist_def kh_key_def flag_tests)
    have "\<not> s' < s" using stop s(3) s'(1) by auto
    moreover have "i = ?p s" if "s < s'"
    proof -
      have "\<not> ac_isempty (kh_flags h) (?p s)" using s'(2) that by blast
      then have "?p s \<in> live h" "kh_key h (?p s) = key"
        using s(2) probe_less [OF ok(1), of "hash key" s] by (auto simp: kh_passes_def live_def kh_exist_def kh_key_def flag_tests)
      then show ?thesis using i ok(7) by (metis inj_on_eq_iff)
    qed
    ultimately show ?thesis using s'(1) by (metis linorder_neqE_nat)
  qed
  with s that show thesis by blast
qed

lemma kh_get_finds:
  assumes "kh_ok hash h"
  shows "\<exists>i. kh_get hash h key = Some i \<and>
    (if \<exists>i\<in>live h. kh_key h i = key then i \<in> live h \<and> kh_key h i = key else i = n_buckets h)"
proof (cases "n_buckets h = 0")
  case True
  then show ?thesis by (simp add: kh_get_def live_def)
next
  case False
  let ?p = "probe (n_buckets h) (hash key)"
  obtain s where s: "s < unat (n_buckets h)" "\<not> kh_passes h key (?p s)" "\<And>t. t < s \<Longrightarrow> kh_passes h key (?p t)"
      "\<And>i. i \<in> live h \<Longrightarrow> kh_key h i = key \<Longrightarrow> i = ?p s"
    using search_stop [OF assms False] by blast
  note ok = kh_ok_sized [OF assms False]
  have "kh_get hash h key = Some (if ac_iseither (kh_flags h) (?p s) then n_buckets h else ?p s)"
    using kh_get_loop_stops [OF ok(1) s(1-3), of 0] False by (simp add: kh_get_def Let_def probe_0)
  moreover have "?p s \<in> live h \<and> kh_key h (?p s) = key" if "\<not> ac_iseither (kh_flags h) (?p s)"
    using s(2) that probe_less [OF ok(1)] by (auto simp: kh_passes_def live_def kh_exist_def kh_key_def flag_tests)
  moreover have "\<not> (\<exists>i\<in>live h. kh_key h i = key)" if "ac_iseither (kh_flags h) (?p s)"
    using s(4) that by (auto simp: live_def kh_exist_def)
  ultimately show ?thesis by (intro exI [of _ "if ac_iseither (kh_flags h) (?p s) then n_buckets h else ?p s"]) auto
qed

section \<open>Deletion\<close>

lemma live_flags: "live h = {i. i < n_buckets h \<and> \<not> flag_bit (kh_flags h) i 0 \<and> \<not> flag_bit (kh_flags h) i 1}"
  and used_flags: "used fl n = {i. i < n \<and> \<not> flag_bit fl i 1}"
  by (auto simp: live_def used_def kh_exist_def flag_tests)

lemma kh_del_ok:
  assumes "kh_ok hash h" "x \<in> live h"
  shows "kh_ok hash (kh_del h x) \<and> kh_map (kh_del h x) = (kh_map h)(kh_key h x := None)"
proof -
  have x: "x < n_buckets h" "kh_exist h x" using assms(2) by (simp_all add: live_def)
  then have n0: "n_buckets h \<noteq> 0" by auto
  note ok = kh_ok_sized [OF assms(1) n0]
  have room: "unat x div 16 < length (kh_flags h)" using fsize_room [OF pow2_size_flags [OF ok(1)] x(1)] ok(2) by simp
  let ?h = "kh_del h x"
  have h: "?h = h\<lparr> kh_flags := ac_set_isdel_true (kh_flags h) x, kh_size := kh_size h - 1 \<rparr>"
    using x by (auto simp: kh_del_def kh_exist_def)
  have l: "live ?h = live h - {x}" by (auto simp: h live_flags flag_set [OF room])
  have u: "used (kh_flags ?h) (n_buckets h) = used (kh_flags h) (n_buckets h)" by (auto simp: h used_flags flag_set [OF room])
  have e: "ac_isempty (kh_flags ?h) i = ac_isempty (kh_flags h) i" for i by (simp add: h flag_tests flag_set [OF room])
  have k: "kh_key ?h = kh_key h" "kh_val ?h = kh_val h" "n_buckets ?h = n_buckets h" "n_occupied ?h = n_occupied h"
      "upper_bound ?h = upper_bound h"
    by (simp_all add: h kh_key_def kh_val_def fun_eq_iff)
  have "0 < card (live h)" using assms(2) by (auto simp: card_gt_0_iff)
  then have "unat (kh_size h - 1) = card (live h) - 1" using ok(4) by (subst unat_minus_one) auto
  then have c: "unat (kh_size ?h) = card (live ?h)" using assms(2) unfolding l by (simp add: h)
  have inj: "inj_on (kh_key ?h) (live ?h)" unfolding k l by (rule inj_on_subset [OF ok(7)]) blast
  have "kh_ok hash ?h"
    unfolding kh_ok_def k if_not_P [OF n0] using ok(1,3,5,6,8) ok(2) c inj unfolding u k l
    by (auto simp: h reached_def e[unfolded h, simplified])
  moreover have "kh_map ?h = (kh_map h)(kh_key h x := None)"
  proof
    fix key
    show "kh_map ?h key = ((kh_map h)(kh_key h x := None)) key"
    proof (cases "kh_map ?h key")
      case None
      then have "\<forall>i\<in>live h - {x}. kh_key h i \<noteq> key" unfolding kh_map_None k l .
      then have "key \<noteq> kh_key h x \<Longrightarrow> kh_map h key = None" unfolding kh_map_None by blast
      with None show ?thesis by simp
    next
      case (Some v)
      then obtain i where i: "i \<in> live h" "i \<noteq> x" "kh_key h i = key" "kh_val h i = v"
        using kh_map_eq [OF inj] unfolding k l by blast
      then have "key \<noteq> kh_key h x" using ok(7) assms(2) by (auto simp: inj_on_eq_iff)
      moreover have "kh_map h key = Some v" using kh_map_eq [OF ok(7)] i by blast
      ultimately show ?thesis using Some by simp
    qed
  qed
  ultimately show ?thesis by blast
qed

section \<open>Insertion\<close>

lemma kh_put_loop_stops:
  assumes "pow2_size (n_buckets h)" "s0 < unat (n_buckets h)" "\<not> kh_passes h key (probe (n_buckets h) k s0)"
    and "\<And>t. t < s0 \<Longrightarrow> kh_passes h key (probe (n_buckets h) k t)" "s \<le> s0"
  shows "\<exists>site'. kh_put_loop h key (probe (n_buckets h) k 0) (probe (n_buckets h) k s) site (of_nat s) =
      Some (probe (n_buckets h) k s0, site', n_buckets h) \<and>
    (site' = site \<or> (\<exists>t < s0. site' = probe (n_buckets h) k t \<and> ac_isdel (kh_flags h) site'))"
  using assms(5)
proof (induction "s0 - s" arbitrary: s site)
  case 0
  then show ?case using assms(3) by (subst kh_put_loop.simps) simp
next
  case (Suc d)
  then have s: "s < s0" by simp
  have n: "probe (n_buckets h) k (Suc s) \<noteq> probe (n_buckets h) k 0"
    using s assms(2) by (intro probe_not_start [OF assms(1)]) simp_all
  have d: "d = s0 - Suc s" using Suc.hyps(2) by simp
  let ?site = "if ac_isdel (kh_flags h) (probe (n_buckets h) k s) then probe (n_buckets h) k s else site"
  obtain site' where site': "kh_put_loop h key (probe (n_buckets h) k 0) (probe (n_buckets h) k (Suc s)) ?site (of_nat (Suc s)) =
      Some (probe (n_buckets h) k s0, site', n_buckets h)"
    "site' = ?site \<or> (\<exists>t < s0. site' = probe (n_buckets h) k t \<and> ac_isdel (kh_flags h) site')"
    using Suc.hyps(1) [OF d Suc_leI [OF s], of ?site] by blast
  have "kh_put_loop h key (probe (n_buckets h) k 0) (probe (n_buckets h) k s) site (of_nat s) =
      Some (probe (n_buckets h) k s0, site', n_buckets h)"
    using assms(4) [OF s] probe_Suc [OF assms(1), of k s] n site'(1)
    by (subst kh_put_loop.simps) (simp add: Let_def add.commute)
  moreover have "site' = site \<or> (\<exists>t < s0. site' = probe (n_buckets h) k t \<and> ac_isdel (kh_flags h) site')"
    using site'(2) s by (auto split: if_splits)
  ultimately show ?case by blast
qed

text \<open>The bucket for a key holds it, or is free although the key is nowhere; the search passes no empty bucket before.\<close>

lemma kh_put_bucket_finds:
  assumes "kh_ok hash h" "n_buckets h \<noteq> 0"
  shows "\<exists>x. kh_put_bucket hash h key = Some x \<and> x < n_buckets h \<and> reached (kh_flags h) (n_buckets h) (hash key) x \<and>
    (if ac_iseither (kh_flags h) x then \<forall>i\<in>live h. kh_key h i \<noteq> key else kh_key h x = key)"
proof -
  let ?p = "probe (n_buckets h) (hash key)"
  obtain s where s: "s < unat (n_buckets h)" "\<not> kh_passes h key (?p s)" "\<And>t. t < s \<Longrightarrow> kh_passes h key (?p t)"
      "\<And>i. i \<in> live h \<Longrightarrow> kh_key h i = key \<Longrightarrow> i = ?p s"
    using search_stop [OF assms] by blast
  note ok = kh_ok_sized [OF assms]
  have less: "?p t < n_buckets h" for t by (rule probe_less [OF ok(1)])
  have before: "\<not> ac_isempty (kh_flags h) (?p t)" if "t < s" for t using s(3) [OF that] by (simp add: kh_passes_def)
  have reach: "reached (kh_flags h) (n_buckets h) (hash key) (?p t)" if "t \<le> s" for t
    unfolding reached_def using before that by (intro exI [of _ t]) auto
  have absent: "\<forall>i\<in>live h. kh_key h i \<noteq> key" if "ac_isempty (kh_flags h) (?p s)"
    using s(4) that by (auto simp: live_flags flag_tests)
  have stop: "if ac_iseither (kh_flags h) (?p s) then \<forall>i\<in>live h. kh_key h i \<noteq> key else kh_key h (?p s) = key"
    using s(2) absent by (auto simp: kh_passes_def kh_key_def flag_tests)
  show ?thesis
  proof (cases "ac_isempty (kh_flags h) (?p 0)")
    case True
    then have "s = 0" using before by (metis gr0I)
    then show ?thesis using True stop [unfolded \<open>s = 0\<close>] reach [of 0] less [of 0]
      by (intro exI [of _ "?p 0"]) (simp add: kh_put_bucket_def Let_def probe_0)
  next
    case False
    obtain site where site: "kh_put_loop h key (?p 0) (?p 0) (n_buckets h) 0 = Some (?p s, site, n_buckets h)"
      "site = n_buckets h \<or> (\<exists>t < s. site = ?p t \<and> ac_isdel (kh_flags h) site)"
      using kh_put_loop_stops [OF ok(1) s(1-3), of 0 "n_buckets h"] by auto
    let ?x = "if ac_isempty (kh_flags h) (?p s) \<and> site \<noteq> n_buckets h then site else ?p s"
    have "kh_put_bucket hash h key = Some ?x"
      using False site(1) by (simp add: kh_put_bucket_def Let_def probe_0)
    moreover have "?x < n_buckets h" using site(2) less by auto
    moreover have "reached (kh_flags h) (n_buckets h) (hash key) ?x" using site(2) reach by auto
    moreover have "if ac_iseither (kh_flags h) ?x then \<forall>i\<in>live h. kh_key h i \<noteq> key else kh_key h ?x = key"
      using stop absent site(2) by (auto simp: flag_tests)
    ultimately show ?thesis by blast
  qed
qed

lemma reached_mono: "reached fl n k i \<Longrightarrow> (\<And>j. ac_isempty fl' j \<Longrightarrow> ac_isempty fl j) \<Longrightarrow> reached fl' n k i"
  unfolding reached_def by blast

text \<open>Taking a free bucket for a new key.\<close>

definition kh_take :: "('k, 'v) khash \<Rightarrow> 'k \<Rightarrow> u32 \<Rightarrow> ('k, 'v) khash" where
  "kh_take h key x = h\<lparr> kh_keys := (kh_keys h)(unat x := key), kh_flags := ac_set_isboth_false (kh_flags h) x,
     kh_size := kh_size h + 1, n_occupied := (if ac_isempty (kh_flags h) x then n_occupied h + 1 else n_occupied h) \<rparr>"

lemma kh_put_at_take: "kh_put_at h key x =
    (if ac_iseither (kh_flags h) x then (if ac_isempty (kh_flags h) x then 1 else 2, kh_take h key x) else (0, h))"
  by (auto simp: kh_put_at_def kh_take_def flag_tests)

lemma kh_set_val_ok: "kh_ok hash (kh_set_val x v h) = kh_ok hash h" "live (kh_set_val x v h) = live h"
    "kh_key (kh_set_val x v h) = kh_key h" "n_buckets (kh_set_val x v h) = n_buckets h"
proof -
  show l: "live (kh_set_val x v h) = live h" by (simp add: kh_set_val_def live_flags)
  show k: "kh_key (kh_set_val x v h) = kh_key h" by (simp add: kh_set_val_def kh_key_def fun_eq_iff)
  show n: "n_buckets (kh_set_val x v h) = n_buckets h" by (simp add: kh_set_val_def)
  show "kh_ok hash (kh_set_val x v h) = kh_ok hash h" unfolding kh_ok_def l k n by (simp add: kh_set_val_def)
qed

lemma kh_val_set_val: "kh_val (kh_set_val x v h) i = (if i = x then v else kh_val h i)"
  by (auto simp: kh_val_def kh_set_val_def word_unat_eq_iff)

lemma kh_map_set_val:
  assumes "inj_on (kh_key h) (live h)" "x \<in> live h"
  shows "kh_map (kh_set_val x v h) = (kh_map h)(kh_key h x \<mapsto> v)"
proof
  fix key
  have inj: "inj_on (kh_key (kh_set_val x v h)) (live (kh_set_val x v h))" using assms(1) by (simp add: kh_set_val_ok)
  show "kh_map (kh_set_val x v h) key = ((kh_map h)(kh_key h x \<mapsto> v)) key"
  proof (cases "\<exists>i\<in>live h. kh_key h i = key")
    case False
    then have "kh_map h key = None" "kh_map (kh_set_val x v h) key = None" "key \<noteq> kh_key h x"
      using assms(2) by (auto simp: kh_map_None kh_set_val_ok)
    then show ?thesis by simp
  next
    case True
    then obtain i where i: "i \<in> live h" "kh_key h i = key" by blast
    have "kh_map (kh_set_val x v h) key = Some (if i = x then v else kh_val h i)"
      using kh_map_live [OF inj, of i] i by (simp add: kh_set_val_ok kh_val_set_val)
    moreover have "kh_map h key = Some (kh_val h i)" using kh_map_live [OF assms(1) i(1)] i(2) by simp
    moreover have "i = x \<longleftrightarrow> key = kh_key h x" using assms i by (metis inj_on_eq_iff)
    ultimately show ?thesis by simp
  qed
qed

lemma kh_take_fields:
  assumes "unat x div 16 < length (kh_flags h)" "x < n_buckets h"
  shows "n_buckets (kh_take h key x) = n_buckets h" "upper_bound (kh_take h key x) = upper_bound h"
    "length (kh_flags (kh_take h key x)) = length (kh_flags h)"
    "kh_val (kh_take h key x) = kh_val h" "kh_key (kh_take h key x) i = (if i = x then key else kh_key h i)"
    "live (kh_take h key x) = insert x (live h)"
    "used (kh_flags (kh_take h key x)) (n_buckets h) = insert x (used (kh_flags h) (n_buckets h))"
    "ac_isempty (kh_flags (kh_take h key x)) j \<Longrightarrow> ac_isempty (kh_flags h) j"
  using assms(2)
  by (auto simp: kh_take_def kh_val_def kh_key_def fun_eq_iff word_unat_eq_iff live_flags used_flags flag_tests
      flag_set [OF assms(1)])

lemma kh_take_ok:
  assumes "kh_ok hash h" "x < n_buckets h" "ac_iseither (kh_flags h) x" "reached (kh_flags h) (n_buckets h) (hash key) x"
    "\<forall>i\<in>live h. kh_key h i \<noteq> key" "n_occupied h < upper_bound h"
  shows "kh_ok hash (kh_take h key x) \<and> kh_map (kh_set_val x v (kh_take h key x)) = (kh_map h)(key \<mapsto> v)"
proof -
  have n0: "n_buckets h \<noteq> 0" using assms(2) by auto
  note ok = kh_ok_sized [OF assms(1) n0]
  have room: "unat x div 16 < length (kh_flags h)" using fsize_room [OF pow2_size_flags [OF ok(1)] assms(2)] ok(2) by simp
  note f = kh_take_fields [OF room assms(2)]
  let ?h = "kh_take h key x"
  have x: "x \<notin> live h" using assms(3) by (auto simp: live_def kh_exist_def)
  have inj: "inj_on (kh_key ?h) (live ?h)" using ok(7) assms(5) x unfolding f(6) by (auto simp: f(5) inj_on_def)
  have small: "card (live h) < 2 ^ 31" "unat (n_occupied h) + 1 < 2 ^ 32"
    using card_mono [OF finite_used live_used [of h]] ok(9) pow2_upper(4) [OF ok(1)] ok(5) by simp_all
  have "unat (kh_size h + 1) = unat (kh_size h) + 1" using small(1) ok(4) by (simp add: unat_word_ariths)
  then have "unat (kh_size ?h) = card (live ?h)" using x ok(4) unfolding f(6) by (simp add: kh_take_def)
  moreover have "unat (n_occupied ?h) = card (used (kh_flags ?h) (n_buckets h)) \<and> n_occupied ?h \<le> upper_bound h"
  proof (cases "ac_isempty (kh_flags h) x")
    case True
    then have "x \<notin> used (kh_flags h) (n_buckets h)" by (simp add: used_def)
    moreover have "unat (n_occupied h + 1) = unat (n_occupied h) + 1" using small(2) by (simp add: unat_word_ariths)
    moreover have "n_occupied ?h = n_occupied h + 1" using True by (simp add: kh_take_def)
    ultimately show ?thesis using assms(6) ok(5) unfolding f(7) by (simp add: word_le_nat_alt word_less_nat_alt)
  next
    case False
    then have "insert x (used (kh_flags h) (n_buckets h)) = used (kh_flags h) (n_buckets h)" using assms(2) by (auto simp: used_def)
    then show ?thesis using False ok(5,6) unfolding f(7) by (simp add: kh_take_def)
  qed
  moreover have "reached (kh_flags ?h) (n_buckets h) (hash (kh_key ?h i)) i" if "i \<in> live ?h" for i
    using that assms(4) ok(8) unfolding f(6) by (auto simp: f(5) intro: reached_mono [OF _ f(8)])
  ultimately have "kh_ok hash ?h"
    unfolding kh_ok_def f(1,2,3) if_not_P [OF n0] using ok(1-3) inj by blast
  moreover have "kh_map (kh_set_val x v ?h) key' = ((kh_map h)(key \<mapsto> v)) key'" for key'
  proof (cases "key' = key")
    case True
    then show ?thesis using kh_map_set_val [OF inj, of x v] by (simp add: f(5,6))
  next
    case False
    have "kh_map ?h key' = kh_map h key'"
    proof (cases "\<exists>i\<in>live h. kh_key h i = key'")
      case True
      then obtain i where i: "i \<in> live h" "kh_key h i = key'" by blast
      then have "kh_key ?h i = key'" "i \<in> live ?h" using x by (auto simp: f(5,6))
      then show ?thesis using kh_map_live [OF inj, of i] kh_map_live [OF ok(7) i(1)] i(2) by (simp add: f(4))
    next
      case none: False
      then have "kh_map h key' = None" "kh_map ?h key' = None" using False by (auto simp: kh_map_None f(5,6))
      then show ?thesis by simp
    qed
    then show ?thesis using kh_map_set_val [OF inj, of x v] False by (simp add: f(5,6))
  qed
  ultimately show ?thesis by (auto simp: fun_eq_iff)
qed

lemma kh_put_at_ok:
  assumes "kh_ok hash h" "n_buckets h \<noteq> 0" "n_occupied h < upper_bound h"
  shows "\<exists>x ret h'. map_option (\<lambda>x. case kh_put_at h key x of (ret, h) \<Rightarrow> (x, ret, h)) (kh_put_bucket hash h key) = Some (x, ret, h') \<and>
    kh_ok hash h' \<and> unat (kh_size h') \<le> unat (kh_size h) + 1 \<and> x < n_buckets h' \<and>
    kh_map (kh_set_val x v h') = (kh_map h)(key \<mapsto> v) \<and> (if kh_map h key = None then ret \<in> {1, 2} else ret = 0 \<and> h' = h)"
proof -
  obtain x where x: "kh_put_bucket hash h key = Some x" "x < n_buckets h" "reached (kh_flags h) (n_buckets h) (hash key) x"
      "if ac_iseither (kh_flags h) x then \<forall>i\<in>live h. kh_key h i \<noteq> key else kh_key h x = key"
    using kh_put_bucket_finds [OF assms(1,2)] by blast
  note ok = kh_ok_sized [OF assms(1,2)]
  show ?thesis
  proof (cases "ac_iseither (kh_flags h) x")
    case True
    then have a: "\<forall>i\<in>live h. kh_key h i \<noteq> key" using x(4) by simp
    then have "kh_map h key = None" by (simp add: kh_map_None)
    moreover have "n_buckets (kh_take h key x) = n_buckets h" by (simp add: kh_take_def)
    moreover have "unat (kh_size (kh_take h key x)) \<le> unat (kh_size h) + 1" by (simp add: kh_take_def unat_word_ariths)
    ultimately show ?thesis
      using True x(1,2) kh_take_ok [OF assms(1) x(2) True x(3) a assms(3), of v] by (simp add: kh_put_at_take)
  next
    case False
    then have l: "x \<in> live h" "kh_key h x = key" using x(2,4) by (simp_all add: live_def kh_exist_def)
    then have "kh_map h key \<noteq> None" using kh_map_live [OF ok(7)] by fastforce
    then show ?thesis
      using False x(1,2) assms(1) kh_map_set_val [OF ok(7) l(1), of v] l(2) by (simp add: kh_put_at_take)
  qed
qed

section \<open>Resizing\<close>

text \<open>
  While a table is rehashed: \<open>old\<close> are the buckets of the old table whose elements still wait, \<open>new\<close> those of the new one
  that are taken. The elements are in these buckets, and some in hand.
\<close>

definition rehash_ok ::
    "('k \<Rightarrow> u32) \<Rightarrow> ('k, 'v) khash \<Rightarrow> u32 \<Rightarrow> ('k \<times> 'v) set \<Rightarrow> ('k, 'v) khash \<Rightarrow> u32 list \<Rightarrow> bool" where
  "rehash_ok hash h0 n hand h fl \<longleftrightarrow>
     n_buckets h = n_buckets h0 \<and> kh_size h = kh_size h0 \<and> length (kh_flags h) = length (kh_flags h0) \<and>
     length fl = ac_fsize n \<and> (\<forall>i<n. \<not> ac_isdel fl i) \<and>
     live h \<inter> used fl n = {} \<and> inj_on (kh_key h) (live h \<union> used fl n) \<and>
     finite hand \<and> inj_on fst hand \<and> fst ` hand \<inter> kh_key h ` (live h \<union> used fl n) = {} \<and>
     (\<lambda>i. (kh_key h i, kh_val h i)) ` (live h \<union> used fl n) \<union> hand = set (kh_foreach h0) \<and>
     card (live h) + card (used fl n) + card hand = unat (kh_size h0) \<and>
     (\<forall>i\<in>used fl n. reached fl n (hash (kh_key h i)) i)"

lemma kh_probe_stops:
  assumes "pow2_size n" "ac_isempty fl (probe n k s0)" "\<And>t. t < s0 \<Longrightarrow> \<not> ac_isempty fl (probe n k t)" "s \<le> s0"
  shows "kh_probe fl (n - 1) (probe n k s) (of_nat s) = Some (probe n k s0)"
  using assms(4)
proof (induction "s0 - s" arbitrary: s)
  case 0
  then show ?case using assms(2) by (subst kh_probe.simps) simp
next
  case (Suc d)
  then have s: "s < s0" by simp
  have d: "d = s0 - Suc s" using Suc.hyps(2) by simp
  show ?case
    using assms(3) [OF s] probe_Suc [OF assms(1), of k s] Suc.hyps(1) [OF d Suc_leI [OF s]]
    by (subst kh_probe.simps) (simp add: Let_def add.commute)
qed

lemma kh_probe_finds:
  assumes "pow2_size n" "card (used fl n) < unat n"
  shows "\<exists>i. kh_probe fl (n - 1) (k AND (n - 1)) 0 = Some i \<and> i < n \<and> ac_isempty fl i \<and> reached fl n k i"
proof -
  obtain s where s: "s < unat n" "ac_isempty fl (probe n k s)" "\<And>t. t < s \<Longrightarrow> \<not> ac_isempty fl (probe n k t)"
    using first_such [OF empty_exists [OF assms, of k]] by blast
  have "kh_probe fl (n - 1) (probe n k 0) (of_nat 0) = Some (probe n k s)" by (rule kh_probe_stops [OF assms(1) s(2,3)]) simp_all
  then show ?thesis
    using s probe_less [OF assms(1)] by (intro exI [of _ "probe n k s"]) (auto simp: reached_def probe_0)
qed

text \<open>One element is put into the new table, and the old element of its bucket, if there is one, taken in hand.\<close>

definition kh_place :: "('k, 'v) khash \<Rightarrow> u32 \<Rightarrow> 'k \<Rightarrow> 'v \<Rightarrow> ('k, 'v) khash" where
  "kh_place h i key val = h\<lparr> kh_keys := (kh_keys h)(unat i := key), kh_vals := (kh_vals h)(unat i := val) \<rparr>"

lemma kh_place_fields:
  "n_buckets (kh_place h i key val) = n_buckets h" "kh_size (kh_place h i key val) = kh_size h"
  "kh_flags (kh_place h i key val) = kh_flags h" "live (kh_place h i key val) = live h"
  "kh_key (kh_place h i key val) j = (if j = i then key else kh_key h j)"
  "kh_val (kh_place h i key val) j = (if j = i then val else kh_val h j)"
  by (auto simp: kh_place_def live_flags kh_key_def kh_val_def word_unat_eq_iff)

definition kh_mark :: "('k, 'v) khash \<Rightarrow> u32 \<Rightarrow> ('k, 'v) khash" where
  "kh_mark h i = h\<lparr> kh_flags := ac_set_isdel_true (kh_flags h) i \<rparr>"

lemma kh_place_mark: "kh_place (kh_mark h i) i key val =
    h\<lparr> kh_keys := (kh_keys h)(unat i := key), kh_vals := (kh_vals h)(unat i := val),
       kh_flags := ac_set_isdel_true (kh_flags h) i \<rparr>"
  by (cases h) (simp add: kh_place_def kh_mark_def)

lemma kh_mark_fields:
  assumes "unat i div 16 < length (kh_flags h)"
  shows "live (kh_mark h i) = live h - {i}"
  by (auto simp: kh_mark_def live_flags flag_set [OF assms])

lemma kh_mark_same:
  "n_buckets (kh_mark h i) = n_buckets h" "kh_size (kh_mark h i) = kh_size h"
  "length (kh_flags (kh_mark h i)) = length (kh_flags h)" "kh_key (kh_mark h i) = kh_key h" "kh_val (kh_mark h i) = kh_val h"
  by (simp_all add: kh_mark_def kh_key_def kh_val_def fun_eq_iff)

lemma used_set_false:
  assumes "unat i div 16 < length fl" "i < n"
  shows "used (ac_set_isempty_false fl i) n = insert i (used fl n)" "ac_isdel (ac_set_isempty_false fl i) j = ac_isdel fl j"
    "ac_isempty (ac_set_isempty_false fl i) j \<Longrightarrow> ac_isempty fl j"
  using assms(2) by (auto simp: used_flags flag_tests flag_set [OF assms(1)])

lemma rehash_okD:
  assumes "rehash_ok hash h0 n hand h fl"
  shows "n_buckets h = n_buckets h0" "kh_size h = kh_size h0" "length (kh_flags h) = length (kh_flags h0)"
    "length fl = ac_fsize n" "\<forall>i<n. \<not> ac_isdel fl i" "live h \<inter> used fl n = {}" "inj_on (kh_key h) (live h \<union> used fl n)"
    "finite hand" "inj_on fst hand" "fst ` hand \<inter> kh_key h ` (live h \<union> used fl n) = {}"
    "(\<lambda>i. (kh_key h i, kh_val h i)) ` (live h \<union> used fl n) \<union> hand = set (kh_foreach h0)"
    "card (live h) + card (used fl n) + card hand = unat (kh_size h0)"
    "\<forall>i\<in>used fl n. reached fl n (hash (kh_key h i)) i"
  using assms unfolding rehash_ok_def by blast+

text \<open>Putting an element in hand into bucket \<open>i\<close>, which is empty in the new table.\<close>

lemma rehash_place:
  assumes "rehash_ok hash h0 n (insert (key, val) hand) h fl" "(key, val) \<notin> hand" "i < n" "ac_isempty fl i"
    "reached fl n (hash key) i" "unat i div 16 < length fl" "i \<notin> live h"
  shows "rehash_ok hash h0 n hand (kh_place h i key val) (ac_set_isempty_false fl i)"
proof -
  note u = used_set_false [OF assms(6,3)] and p = kh_place_fields [of h i key val] and r = rehash_okD [OF assms(1)]
  let ?S = "live h \<union> used fl n"
  have i: "i \<notin> used fl n" "i \<notin> ?S" using assms(4,7) by (auto simp: used_def)
  then have same: "j \<in> ?S \<Longrightarrow> kh_key (kh_place h i key val) j = kh_key h j \<and> kh_val (kh_place h i key val) j = kh_val h j" for j
    by (auto simp: p(5,6))
  have S: "live h \<union> insert i (used fl n) = insert i ?S" by auto
  have k1: "key \<notin> kh_key h ` ?S" using r(10) by auto
  have k2: "key \<notin> fst ` hand"
  proof
    assume "key \<in> fst ` hand"
    then obtain x where x: "x \<in> hand" "key = fst x" by blast
    have "x = (key, val)" by (rule inj_onD [OF r(9)]) (use x in simp_all)
    with x(1) assms(2) show False by simp
  qed
  have "inj_on (kh_key (kh_place h i key val)) (insert i ?S)"
    using r(7) k1 i(2) same by (auto simp: inj_on_def p(5))
  moreover have "finite hand \<and> inj_on fst hand" using r(8,9) by auto
  moreover have "fst ` hand \<inter> kh_key (kh_place h i key val) ` insert i ?S = {}"
    using r(10) k2 i(2) same by (auto simp: p(5))
  moreover have "(\<lambda>j. (kh_key (kh_place h i key val) j, kh_val (kh_place h i key val) j)) ` insert i ?S \<union> hand = set (kh_foreach h0)"
    unfolding r(11) [symmetric] using i(2) by (auto simp: p(5,6) image_iff)
  moreover have "card (live h) + card (insert i (used fl n)) + card hand = unat (kh_size h0)" using r(8,12) i(1) assms(2) by simp
  moreover have "reached (ac_set_isempty_false fl i) n (hash (kh_key (kh_place h i key val) j)) j" if "j \<in> insert i (used fl n)" for j
    using that r(13) assms(5) i(1) by (auto simp: p(5) intro: reached_mono [OF _ u(3)])
  ultimately show ?thesis
    unfolding rehash_ok_def p(1-4) u(1) S using r(1-6) assms(7) by (auto simp: u(2))
qed

text \<open>Taking the element of an old bucket in hand.\<close>

lemma rehash_mark:
  assumes "rehash_ok hash h0 n hand h fl" "i \<in> live h" "unat i div 16 < length (kh_flags h)"
  shows "rehash_ok hash h0 n (insert (kh_key h i, kh_val h i) hand) (kh_mark h i) fl" "(kh_key h i, kh_val h i) \<notin> hand"
proof -
  note m = kh_mark_fields [OF assms(3)] kh_mark_same [of h i] and r = rehash_okD [OF assms(1)]
  let ?S = "live h \<union> used fl n"
  have i: "i \<notin> used fl n" using r(6) assms(2) by auto
  then have S: "live h - {i} \<union> used fl n = ?S - {i}" by auto
  show k: "(kh_key h i, kh_val h i) \<notin> hand" using r(10) assms(2) by force
  have "inj_on (kh_key h) (?S - {i})" by (rule inj_on_diff [OF r(7)])
  moreover have "finite (insert (kh_key h i, kh_val h i) hand) \<and> inj_on fst (insert (kh_key h i, kh_val h i) hand)"
    using r(8-10) assms(2) by auto
  moreover have "fst ` insert (kh_key h i, kh_val h i) hand \<inter> kh_key h ` (?S - {i}) = {}"
    using r(7,10) assms(2) by (auto simp: inj_on_def)
  moreover have "(\<lambda>i. (kh_key h i, kh_val h i)) ` (?S - {i}) \<union> insert (kh_key h i, kh_val h i) hand = set (kh_foreach h0)"
    unfolding r(11) [symmetric] using assms(2) by auto
  moreover have "card (live h - {i}) + card (used fl n) + card (insert (kh_key h i, kh_val h i) hand) = unat (kh_size h0)"
    using r(8,12) k assms(2) card_Suc_Diff1 [OF finite_live assms(2)] by simp
  ultimately show "rehash_ok hash h0 n (insert (kh_key h i, kh_val h i) hand) (kh_mark h i) fl"
    unfolding rehash_ok_def m S using r(1-6,13) by auto
qed

lemma rehash_room:
  assumes "rehash_ok hash h0 n hand h fl" "hand \<noteq> {}" "unat (kh_size h0) < unat n"
  shows "card (used fl n) < unat n"
proof -
  have "0 < card hand" using rehash_okD(8) [OF assms(1)] assms(2) by (simp add: card_gt_0_iff)
  then show ?thesis using rehash_okD(12) [OF assms(1)] assms(3) by simp
qed

lemma kh_kick_ok:
  assumes "rehash_ok hash h0 n {(key, val)} h fl" "pow2_size n" "unat (kh_size h0) < unat n"
    "\<And>i. i < n_buckets h0 \<Longrightarrow> unat i div 16 < length (kh_flags h0)"
  shows "\<exists>h' fl'. kh_kick hash (n - 1) key val h fl = Some (h', fl') \<and> rehash_ok hash h0 n {} h' fl' \<and> live h' \<subseteq> live h"
  using assms(1)
proof (induction "card (live h)" arbitrary: key val h fl rule: less_induct)
  case less
  note r = rehash_okD [OF less.prems]
  obtain i where i: "kh_probe fl (n - 1) (hash key AND (n - 1)) 0 = Some i" "i < n" "ac_isempty fl i" "reached fl n (hash key) i"
    using kh_probe_finds [OF assms(2) rehash_room [OF less.prems _ assms(3)]] by blast
  have fl: "unat i div 16 < length fl" using fsize_room [OF pow2_size_flags [OF assms(2)] i(2)] r(4) by simp
  show ?case
  proof (cases "i \<in> live h")
    case True
    then have room: "unat i div 16 < length (kh_flags h)" using assms(4) r(1,3) by (simp add: live_def)
    let ?h = "kh_place (kh_mark h i) i key val" and ?fl = "ac_set_isempty_false fl i"
    note m = rehash_mark [OF less.prems True room] and l = kh_mark_fields [OF room]
    have "rehash_ok hash h0 n {(kh_key h i, kh_val h i)} ?h ?fl"
    proof (rule rehash_place)
      show "rehash_ok hash h0 n (insert (key, val) {(kh_key h i, kh_val h i)}) (kh_mark h i) fl"
        using m(1) by (simp add: insert_commute)
      show "(key, val) \<notin> {(kh_key h i, kh_val h i)}" using m(2) by auto
      show "i \<notin> live (kh_mark h i)" by (simp add: l)
    qed (fact i fl)+
    moreover have live: "live ?h = live h - {i}" by (simp add: kh_place_fields l)
    moreover have "card (live ?h) < card (live h)" unfolding live using True by (intro card_Diff1_less) simp_all
    ultimately obtain h' fl' where h': "kh_kick hash (n - 1) (kh_key h i) (kh_val h i) ?h ?fl = Some (h', fl')"
        "rehash_ok hash h0 n {} h' fl'" "live h' \<subseteq> live h - {i}"
      using less.hyps [of ?h "kh_key h i" "kh_val h i" ?fl] by auto
    have "kh_kick hash (n - 1) key val h fl = kh_kick hash (n - 1) (kh_key h i) (kh_val h i) ?h ?fl"
      using True i(1) by (subst kh_kick.simps)
        (simp add: Let_def live_def kh_exist_def kh_key_def kh_val_def kh_place_mark)
    with h' show ?thesis by auto
  next
    case False
    have "rehash_ok hash h0 n {} (kh_place h i key val) (ac_set_isempty_false fl i)"
      by (rule rehash_place) (use less.prems i fl False in simp_all)
    moreover have "kh_kick hash (n - 1) key val h fl = Some (kh_place h i key val, ac_set_isempty_false fl i)"
      using False i(1) by (subst kh_kick.simps) (auto simp: Let_def live_def kh_exist_def kh_place_def)
    ultimately show ?thesis by (simp add: kh_place_fields)
  qed
qed

lemma kh_rehash_step_ok:
  assumes "rehash_ok hash h0 n {} h fl" "pow2_size n" "unat (kh_size h0) < unat n"
    "\<And>i. i < n_buckets h0 \<Longrightarrow> unat i div 16 < length (kh_flags h0)" "j < n_buckets h0"
  shows "\<exists>h' fl'. kh_rehash_step hash (n - 1) j (h, fl) = Some (h', fl') \<and> rehash_ok hash h0 n {} h' fl' \<and> live h' \<subseteq> live h - {j}"
proof (cases "j \<in> live h")
  case True
  note r = rehash_okD [OF assms(1)]
  have room: "unat j div 16 < length (kh_flags h)" using assms(4,5) r(3) by simp
  obtain h' fl' where "kh_kick hash (n - 1) (kh_key h j) (kh_val h j) (kh_mark h j) fl = Some (h', fl')"
      "rehash_ok hash h0 n {} h' fl'" "live h' \<subseteq> live h - {j}"
    using kh_kick_ok [OF rehash_mark(1) [OF assms(1) True room] assms(2-4)] by (auto simp: kh_mark_fields [OF room])
  then show ?thesis using True by (simp add: kh_rehash_step_def live_def kh_exist_def kh_key_def kh_val_def kh_mark_def)
next
  case False
  then show ?thesis
    using assms(1,5) rehash_okD(1) [OF assms(1)] by (auto simp: kh_rehash_step_def live_def kh_exist_def)
qed

lemma kh_rehash_ok:
  assumes "rehash_ok hash h0 n {} h fl" "pow2_size n" "unat (kh_size h0) < unat n"
    "\<And>i. i < n_buckets h0 \<Longrightarrow> unat i div 16 < length (kh_flags h0)" "unat j + c = unat (n_buckets h0)"
    "\<And>i. i \<in> live h \<Longrightarrow> j \<le> i"
  shows "\<exists>h' fl'. kh_rehash hash (n - 1) j c (h, fl) = Some (h', fl') \<and> rehash_ok hash h0 n {} h' fl' \<and> live h' = {}"
  using assms(1,5,6)
proof (induction c arbitrary: j h fl)
  case 0
  then have "j = n_buckets h0" by (simp add: word_unat_eq_iff)
  then have "live h = {}" using "0.prems"(3) rehash_okD(1) [OF "0.prems"(1)] by (force simp: live_def)
  with "0.prems" show ?case by simp
next
  case (Suc c)
  have j: "j < n_buckets h0" using Suc.prems(2) by (simp add: word_less_nat_alt)
  have j1: "unat (j + 1) = unat j + 1" using Suc.prems(2) unat_less32 [of "n_buckets h0"] by (simp add: unat_word_ariths)
  obtain h' fl' where s: "kh_rehash_step hash (n - 1) j (h, fl) = Some (h', fl')" "rehash_ok hash h0 n {} h' fl'" "live h' \<subseteq> live h - {j}"
    using kh_rehash_step_ok [OF Suc.prems(1) assms(2-4) j] by blast
  have "j + 1 \<le> i" if "i \<in> live h'" for i
  proof -
    have "j \<le> i" "i \<noteq> j" using that s(3) Suc.prems(3) by auto
    then have "unat j < unat i" by (simp add: word_le_nat_alt word_unat_eq_iff)
    then show ?thesis by (simp add: word_le_nat_alt j1)
  qed
  moreover have "unat (j + 1) + c = unat (n_buckets h0)" using Suc.prems(2) j1 by simp
  ultimately obtain h'' fl'' where "kh_rehash hash (n - 1) (j + 1) c (h', fl') = Some (h'', fl'')" "rehash_ok hash h0 n {} h'' fl''" "live h'' = {}"
    using Suc.IH [OF s(2)] by blast
  with s(1) show ?case by simp
qed

text \<open>The number of buckets that is chosen.\<close>

lemma ucast_smear_step: "ucast (x OR drop_bit n x :: u32) = (ucast x :: u64) OR drop_bit n (ucast x)"
  by (rule bit_eqI) (auto simp: bit_simps dest: bit_imp_le_length)

lemma unat_ucast_64: "unat (ucast (x :: u32) :: u64) = unat x"
proof -
  have "unat x < 2 ^ 64" using unat_less32 [of x] by simp
  then show ?thesis by (simp add: unsigned_ucast_eq take_bit_nat_eq_self)
qed

lemma kh_roundup32_power:
  assumes "0 < x" "x \<le> 2 ^ 31"
  shows "\<exists>k\<le>31. kh_roundup32 x = 2 ^ k \<and> unat x \<le> 2 ^ k \<and> (1 < unat x \<longrightarrow> 2 ^ (k - 1) < unat x)"
proof -
  define z where "z = (let x = x - 1; x = x OR drop_bit 1 x; x = x OR drop_bit 2 x; x = x OR drop_bit 4 x;
      x = x OR drop_bit 8 x in x OR drop_bit 16 x)"
  let ?x = "ucast x :: u64"
  have ux: "unat ?x = unat x" by (rule unat_ucast_64)
  have x: "unat x \<noteq> 0" "unat x \<le> 2 ^ 31" using assms by (auto simp: word_le_nat_alt word_less_nat_alt)
  have n0: "x \<noteq> 0" "?x \<noteq> 0" using x(1) ux by (auto simp: word_unat_eq_iff)
  have "unat (ucast (x - 1) :: u64) = unat (?x - 1)"
    unfolding unat_ucast_64 unat_minus_one [OF n0(1)] unat_minus_one [OF n0(2)] ux ..
  then have "ucast (x - 1) = ?x - 1" by (simp only: word_unat_eq_iff)
  then have z: "ucast z = smear (?x - 1)" by (simp only: z_def smear_def Let_def ucast_smear_step)
  have "0 < ?x" "?x \<le> 2 ^ 32" using x ux by (simp_all add: word_less_nat_alt word_le_nat_alt)
  from smear_mask [OF this] obtain k where k: "smear (?x - 1) = mask k" "unat x \<le> 2 ^ k" "k \<le> 32" "1 < unat x \<longrightarrow> 2 ^ (k - 1) < unat x"
    unfolding ux by blast
  have zk: "unat z = unat (mask k :: u64)" unfolding k(1) [symmetric] z [symmetric] by (rule unat_ucast_64 [symmetric])
  have k31: "k \<le> 31"
  proof (rule ccontr)
    assume "\<not> k \<le> 31"
    then have "k = 32" using k(3) by simp
    have "unat x \<noteq> 1"
    proof
      assume "unat x = 1"
      then have "?x = 1" using ux by (simp add: word_unat_eq_iff)
      then have "smear (?x - 1) = 0" by (simp add: smear_def)
      then show False using k(1) \<open>k = 32\<close> by (simp add: mask_eq_exp_minus_1)
    qed
    then have "2 ^ 31 < unat x" using k(4) x(1) \<open>k = 32\<close> by simp
    with x(2) show False by simp
  qed
  have p: "(2::nat) ^ k \<le> 2 ^ 31" using k31 by (simp only: power_increasing)
  have "(mask k :: u64) = of_nat (2 ^ k - 1)" by (simp add: mask_eq_exp_minus_1 of_nat_diff)
  moreover have "(2::nat) ^ k - 1 < 2 ^ LENGTH(64)" using p by simp
  ultimately have "unat z = 2 ^ k - 1" unfolding zk by (simp only: unat_of_nat mod_less)
  moreover have "kh_roundup32 x = z + 1" by (simp add: kh_roundup32_def z_def Let_def)
  ultimately have "unat (kh_roundup32 x) = 2 ^ k" using p by (simp add: unat_word_ariths)
  moreover have "unat (2 ^ k :: u32) = 2 ^ k"
  proof -
    have "unat (of_nat (2 ^ k) :: u32) = 2 ^ k" using p by (intro unat_of_nat32) simp
    then show ?thesis by simp
  qed
  ultimately have "kh_roundup32 x = 2 ^ k" by (simp add: word_unat_eq_iff)
  with k(2,4) k31 show ?thesis by blast
qed

definition kh_new_size :: "u32 \<Rightarrow> u32" where
  "kh_new_size n = (let n = kh_roundup32 n in if n < 4 then 4 else n)"

lemma kh_new_size_pow2:
  assumes "0 < x" "x \<le> 2 ^ 31"
  shows "pow2_size (kh_new_size x)" "unat x \<le> unat (kh_new_size x)" "pow2_size n \<Longrightarrow> unat x \<le> unat n \<Longrightarrow> unat (kh_new_size x) \<le> unat n"
proof -
  obtain k where k: "k \<le> 31" "kh_roundup32 x = 2 ^ k" "unat x \<le> 2 ^ k" "1 < unat x \<longrightarrow> 2 ^ (k - 1) < unat x"
    using kh_roundup32_power [OF assms] by blast
  have p: "(2::nat) ^ k \<le> 2 ^ 31" using k(1) by (simp only: power_increasing)
  have u: "unat (2 ^ k :: u32) = 2 ^ k"
  proof -
    have "unat (of_nat (2 ^ k) :: u32) = 2 ^ k" using p by (intro unat_of_nat32) simp
    then show ?thesis by simp
  qed
  have "4 = (2 :: u32) ^ 2" by simp
  then have 4: "pow2_size 4" unfolding pow2_size_def by (intro exI [of _ 2]) simp
  show "pow2_size (kh_new_size x)"
  proof (cases "kh_roundup32 x < 4")
    case False
    then have "(2::nat) ^ 2 \<le> 2 ^ k" using k(2) u by (simp add: word_less_nat_alt)
    then have "2 \<le> k" by (rule power_le_imp_le_exp [rotated]) simp
    then show ?thesis using False k(1,2) by (auto simp: kh_new_size_def pow2_size_def)
  qed (simp add: kh_new_size_def 4)
  show "unat x \<le> unat (kh_new_size x)" using k(2,3) u by (auto simp: kh_new_size_def word_less_nat_alt)
  assume n: "pow2_size n" "unat x \<le> unat n"
  from n(1) obtain m where m: "2 \<le> m" "unat n = 2 ^ m" by (rule pow2_sizeE)
  show "unat (kh_new_size x) \<le> unat n"
  proof (cases "unat x = 1")
    case True
    then have "x = 1" by (simp add: word_unat_eq_iff)
    then show ?thesis using pow2_upper(3) [OF n(1)] by (simp add: kh_new_size_def kh_roundup32_def)
  next
    case False
    then have "1 < unat x" using assms(1) by (simp add: word_less_nat_alt)
    then have "(2::nat) ^ (k - 1) < 2 ^ m" using k(4) n(2) m(2) by linarith
    then have "k - 1 < m" by (rule power_less_imp_less_exp [rotated]) simp
    then have "(2::nat) ^ k \<le> 2 ^ m" by (intro power_increasing) simp_all
    then show ?thesis using k(2) u m(2) pow2_upper(3) [OF n(1)] by (simp add: kh_new_size_def Let_def)
  qed
qed

text \<open>The start and the end of rehashing.\<close>

lemma kh_ok_room: "kh_ok hash h \<Longrightarrow> i < n_buckets h \<Longrightarrow> unat i div 16 < length (kh_flags h)"
  using kh_ok_sized(1,2) fsize_room pow2_size_flags by (metis word_not_simps(1))

lemma rehash_start:
  assumes "kh_ok hash h" "pow2_size n"
  shows "rehash_ok hash h n {} h (fresh_flags n)"
proof -
  note f = pow2_size_flags [OF assms(2)]
  have u: "used (fresh_flags n) n = {}" using fresh_flag_bit [OF _ f] by (auto simp: used_flags)
  have d: "\<forall>i<n. \<not> ac_isdel (fresh_flags n) i" using fresh_flag_bit [OF _ f] by (auto simp: flag_tests)
  have s: "unat (kh_size h) = card (live h)"
  proof (cases "n_buckets h = 0")
    case True
    then show ?thesis using assms(1) by (simp add: kh_ok_def live_def)
  qed (use kh_ok_sized(4) [OF assms(1)] in blast)
  show ?thesis using kh_ok_inj [OF assms(1)] d s by (simp add: rehash_ok_def u set_kh_foreach)
qed

definition kh_resized :: "('k, 'v) khash \<Rightarrow> u32 list \<Rightarrow> u32 \<Rightarrow> ('k, 'v) khash" where
  "kh_resized h fl n = h\<lparr> kh_flags := fl, n_buckets := n, n_occupied := kh_size h, upper_bound := kh_upper n \<rparr>"

lemma rehash_end:
  assumes "rehash_ok hash h0 n {} h fl" "live h = {}" "pow2_size n" "kh_size h0 < kh_upper n" "inj_on (kh_key h0) (live h0)"
  shows "kh_ok hash (kh_resized h fl n) \<and> kh_map (kh_resized h fl n) = kh_map h0"
proof -
  note r = rehash_okD [OF assms(1)]
  let ?h = "kh_resized h fl n"
  have k: "n_buckets ?h = n" "kh_size ?h = kh_size h0" "n_occupied ?h = kh_size h0" "upper_bound ?h = kh_upper n" "kh_flags ?h = fl"
      "kh_key ?h = kh_key h" "kh_val ?h = kh_val h"
    using r(2) by (simp_all add: kh_resized_def kh_key_def kh_val_def fun_eq_iff)
  have l: "live ?h = used fl n" using r(5) by (auto simp: live_def used_def kh_exist_def k flag_tests)
  have n0: "n \<noteq> 0" using pow2_upper(3) [OF assms(3)] by auto
  have inj: "inj_on (kh_key ?h) (live ?h)" using r(7) assms(2) unfolding k l by simp
  have "kh_ok hash ?h"
    unfolding kh_ok_def k(1-5) if_not_P [OF n0] k(6) l
    using r(4,7,12,13) assms(2-4) by simp
  moreover have "kh_map ?h = kh_map h0"
  proof -
    have "set (kh_foreach ?h) = set (kh_foreach h0)"
      using r(11) assms(2) unfolding set_kh_foreach [of ?h] k l by simp
    then show ?thesis
      unfolding kh_map_def using distinct_kh_foreach [OF inj] distinct_kh_foreach [OF assms(5)] map_of_inject_set by blast
  qed
  ultimately show ?thesis by blast
qed

lemma kh_resize_unfold:
  "kh_resize hash al h x =
     (if kh_size h \<ge> kh_upper (kh_new_size x) then Some (0, h)
      else if \<not> flags_ok al \<or> (n_buckets h < kh_new_size x \<and> (\<not> keys_ok al \<or> \<not> vals_ok al)) then Some (- 1, h)
      else map_option (\<lambda>(h, fl). (0, kh_resized h fl (kh_new_size x)))
        (kh_rehash hash (kh_new_size x - 1) 0 (unat (n_buckets h)) (h, fresh_flags (kh_new_size x))))"
  unfolding kh_resize_def kh_new_size_def kh_resized_def Let_def by (rule refl)

definition memory_ok :: "kh_allocs \<Rightarrow> bool" where
  "memory_ok al \<longleftrightarrow> flags_ok al \<and> keys_ok al \<and> vals_ok al"

text \<open>
  What \<open>kh_resize\<close> guarantees: it returns, the table stays well formed and means the same map; if there is memory and the elements fit, it has
  the new size and no deleted bucket.
\<close>

lemma kh_resize_ok:
  assumes "kh_ok hash h" "0 < x" "x \<le> 2 ^ 31"
  shows "\<exists>ret h'. kh_resize hash al h x = Some (ret, h') \<and> kh_ok hash h' \<and> kh_map h' = kh_map h \<and> kh_size h' = kh_size h \<and>
    (ret = 0 \<or> ret = - 1 \<and> h' = h \<and> \<not> memory_ok al) \<and>
    (ret = 0 \<and> kh_size h < kh_upper (kh_new_size x) \<longrightarrow> n_buckets h' = kh_new_size x \<and> n_occupied h' = kh_size h)"
proof -
  let ?n = "kh_new_size x"
  note n = kh_new_size_pow2 [OF assms(2,3)]
  show ?thesis
  proof (cases "kh_size h \<ge> kh_upper ?n \<or> \<not> flags_ok al \<or> (n_buckets h < ?n \<and> (\<not> keys_ok al \<or> \<not> vals_ok al))")
    case True
    then show ?thesis using assms(1) by (auto simp: kh_resize_unfold not_le memory_ok_def)
  next
    case False
    then have size: "kh_size h < kh_upper ?n" by (simp add: not_le)
    then have "unat (kh_size h) < unat ?n" using pow2_upper(2) [OF n(1)] by (simp add: word_less_nat_alt)
    from kh_rehash_ok [OF rehash_start [OF assms(1) n(1)] n(1) this kh_ok_room [OF assms(1)], of 0 "unat (n_buckets h)"]
    obtain h' fl' where h': "kh_rehash hash (?n - 1) 0 (unat (n_buckets h)) (h, fresh_flags ?n) = Some (h', fl')"
        "rehash_ok hash h ?n {} h' fl'" "live h' = {}"
      by auto
    have "kh_resize hash al h x = Some (0, kh_resized h' fl' ?n)" using False h'(1) by (auto simp: kh_resize_unfold not_le)
    moreover have "kh_ok hash (kh_resized h' fl' ?n) \<and> kh_map (kh_resized h' fl' ?n) = kh_map h"
      by (rule rehash_end [OF h'(2,3) n(1) size kh_ok_inj [OF assms(1)]])
    ultimately show ?thesis using rehash_okD(2) [OF h'(2)] by (auto simp: kh_resized_def)
  qed
qed

text \<open>How much an insertion can enlarge the table.\<close>

definition kh_put_bound :: "('k, 'v) khash \<Rightarrow> nat" where
  "kh_put_bound h = max 4 (max (unat (n_buckets h)) (4 * unat (kh_size h)))"

text \<open>The sizes that \<open>kh_put\<close> asks for: the same again when many buckets are deleted, otherwise twice as many.\<close>

lemma pow2_size_double: "pow2_size n \<Longrightarrow> unat n \<le> 2 ^ 30 \<Longrightarrow> pow2_size (2 * n) \<and> unat (2 * n) = 2 * unat n"
proof -
  assume n: "pow2_size n" "unat n \<le> 2 ^ 30"
  then obtain m where m: "2 \<le> m" "m \<le> 31" "n = 2 ^ m" by (auto simp: pow2_size_def)
  have "(2::nat) ^ m < 2 ^ 32" using m(2) by (intro power_strict_increasing) auto
  then have "unat (of_nat (2 ^ m) :: u32) = 2 ^ m" by (simp only: unat_of_nat) simp
  then have "(2::nat) ^ m \<le> 2 ^ 30" using n(2) m(3) by simp
  then have "m \<le> 30" by (rule power_le_imp_le_exp [rotated]) simp
  then have "pow2_size (2 * n)" using m unfolding pow2_size_def by (intro exI [of _ "Suc m"]) simp
  then show ?thesis using n(2) by (simp add: unat_word_ariths)
qed

lemma kh_put_size:
  assumes "n = 0 \<or> pow2_size n" "unat size' \<le> unat n" "n \<noteq> 0 \<Longrightarrow> unat size' \<le> (77 * unat n + 50) div 100" "unat n \<le> 2 ^ 30"
  defines "x \<equiv> if unat n > 2 * unat size' then n - 1 else n + 1"
  shows "0 < x" "x \<le> 2 ^ 31" "size' < kh_upper (kh_new_size x)" "unat (kh_new_size x) \<le> max 4 (max (unat n) (4 * unat size'))"
proof -
  have "0 < x \<and> x \<le> 2 ^ 31 \<and> size' < kh_upper (kh_new_size x) \<and> unat (kh_new_size x) \<le> max 4 (max (unat n) (4 * unat size'))"
  proof (cases "unat n > 2 * unat size'")
    case True
    then have p: "pow2_size n" using assms(1) by auto
    note n4 = pow2_upper(3) [OF p]
    have "n \<noteq> 0" using n4 by auto
    then have x: "unat x = unat n - 1" using True by (simp add: x_def unat_minus_one)
    have r: "0 < x" "x \<le> 2 ^ 31" using x n4 assms(4) by (simp_all add: word_less_nat_alt word_le_nat_alt)
    note new = kh_new_size_pow2 [OF r]
    have le: "unat (kh_new_size x) \<le> unat n" using new(3) [OF p] x by simp
    have "2 * unat size' \<le> unat (kh_new_size x)" "4 \<le> unat (kh_new_size x)" using new(2) x True pow2_upper(3) [OF new(1)] by linarith+
    then have "unat size' < (77 * unat (kh_new_size x) + 50) div 100" by linarith
    then show ?thesis using r le pow2_upper(1) [OF new(1)] by (simp add: word_less_nat_alt)
  next
    case False
    show ?thesis
    proof (cases "n = 0")
      case True
      then have "size' = 0" using assms(2) by (simp add: word_unat_eq_iff)
      then have "x = 1" using True by (simp add: x_def)
      moreover have "kh_new_size 1 = 4" by (simp add: kh_new_size_def kh_roundup32_def)
      ultimately show ?thesis using \<open>size' = 0\<close> by (simp add: kh_upper_def)
    next
      case n0: False
      then have p: "pow2_size n" using assms(1) by blast
      note n4 = pow2_upper(3) [OF p] and d = pow2_size_double [OF p assms(4)]
      have x: "unat x = unat n + 1" using False assms(4) by (simp add: x_def unat_word_ariths)
      have r: "0 < x" "x \<le> 2 ^ 31" using x n4 assms(4) by (simp_all add: word_less_nat_alt word_le_nat_alt)
      note new = kh_new_size_pow2 [OF r]
      have le: "unat (kh_new_size x) \<le> 2 * unat n" using new(3) [of "2 * n"] d x n4 by simp
      obtain a b where ab: "unat n = 2 ^ a" "unat (kh_new_size x) = 2 ^ b" using p new(1) by (metis pow2_sizeE)
      have "(2::nat) ^ a < 2 ^ b" using new(2) x ab by linarith
      then have "a < b" by (rule power_less_imp_less_exp [rotated]) simp
      then have "(2::nat) ^ Suc a \<le> 2 ^ b" by (intro power_increasing) simp_all
      then have "2 * unat n \<le> unat (kh_new_size x)" by (simp add: ab)
      then have "unat size' < (77 * unat (kh_new_size x) + 50) div 100" using assms(3) [OF n0] n4 by linarith
      then show ?thesis using r le False pow2_upper(1) [OF new(1)] by (simp add: word_less_nat_alt)
    qed
  qed
  then show "0 < x" "x \<le> 2 ^ 31" "size' < kh_upper (kh_new_size x)" "unat (kh_new_size x) \<le> max 4 (max (unat n) (4 * unat size'))"
    by blast+
qed

lemma kh_put_resize:
  assumes "kh_ok hash h" "unat (n_buckets h) \<le> 2 ^ 30"
  shows "\<exists>ret h'. (if n_occupied h \<ge> upper_bound h then
          kh_resize hash al h (if n_buckets h > push_bit 1 (kh_size h) then n_buckets h - 1 else n_buckets h + 1)
        else Some (0, h)) = Some (ret, h') \<and> kh_ok hash h' \<and> kh_map h' = kh_map h \<and> unat (n_buckets h') \<le> kh_put_bound h \<and>
    kh_size h' = kh_size h \<and> (ret = - 1 \<and> h' = h \<and> \<not> memory_ok al \<or> ret = 0 \<and> n_buckets h' \<noteq> 0 \<and> n_occupied h' < upper_bound h')"
proof (cases "n_occupied h \<ge> upper_bound h")
  case False
  then have "n_buckets h \<noteq> 0" using assms(1) by (auto simp: kh_ok_def)
  then show ?thesis
    using False assms(1) unfolding if_not_P [OF False] by (intro exI [of _ 0] exI [of _ h]) (simp add: kh_put_bound_def not_le)
next
  case True
  let ?n = "n_buckets h"
  define x where "x = (if ?n > push_bit 1 (kh_size h) then ?n - 1 else ?n + 1)"
  have n: "?n = 0 \<or> pow2_size ?n" using kh_ok_sized(1) [OF assms(1)] by blast
  have size: "unat (kh_size h) \<le> unat ?n" "?n \<noteq> 0 \<Longrightarrow> unat (kh_size h) \<le> (77 * unat ?n + 50) div 100"
  proof -
    show s: "unat (kh_size h) \<le> (77 * unat ?n + 50) div 100" if "?n \<noteq> 0"
    proof -
      note ok = kh_ok_sized [OF assms(1) that]
      have "unat (kh_size h) \<le> unat (n_occupied h)" unfolding ok(4,5) by (rule card_mono [OF finite_used live_used])
      also have "\<dots> \<le> unat (kh_upper ?n)" using ok(3,6) by (simp add: word_le_nat_alt)
      finally show ?thesis using pow2_upper(1) [OF ok(1)] by simp
    qed
    show "unat (kh_size h) \<le> unat ?n"
    proof (cases "?n = 0")
      case True
      then show ?thesis using assms(1) by (simp add: kh_ok_def)
    next
      case False
      then have "4 \<le> unat ?n" using n pow2_upper(3) by blast
      then show ?thesis using s [OF False] by linarith
    qed
  qed
  have double: "unat (push_bit 1 (kh_size h)) = 2 * unat (kh_size h)"
    using size(1) assms(2) unfolding push_bit_eq_mult by (simp add: unat_word_ariths)
  have xe: "x = (if unat ?n > 2 * unat (kh_size h) then ?n - 1 else ?n + 1)" unfolding x_def by (simp only: word_less_nat_alt double)
  have x: "0 < x" "x \<le> 2 ^ 31" "kh_size h < kh_upper (kh_new_size x)" "unat (kh_new_size x) \<le> kh_put_bound h"
    unfolding xe kh_put_bound_def by (rule kh_put_size [OF n size assms(2)], assumption?)+
  obtain ret h' where h': "kh_resize hash al h x = Some (ret, h')" "kh_ok hash h'" "kh_map h' = kh_map h" "ret = 0 \<or> ret = - 1 \<and> h' = h \<and> \<not> memory_ok al"
      "kh_size h' = kh_size h" "ret = 0 \<Longrightarrow> n_buckets h' = kh_new_size x \<and> n_occupied h' = kh_size h"
    using kh_resize_ok [OF assms(1) x(1,2), of al] x(3) by blast
  have p: "pow2_size (kh_new_size x)" by (rule kh_new_size_pow2(1) [OF x(1,2)])
  have "n_buckets h' \<noteq> 0 \<and> n_occupied h' < upper_bound h'" if "ret = 0"
  proof -
    have n': "n_buckets h' \<noteq> 0" using h'(6) [OF that] pow2_upper(3) [OF p] by auto
    then show ?thesis using h'(6) [OF that] kh_ok_sized(3) [OF h'(2)] x(3) by simp
  qed
  moreover have "unat (n_buckets h') \<le> kh_put_bound h"
    using h'(4,6) x(4) by (auto simp: kh_put_bound_def)
  ultimately show ?thesis using True h' unfolding x_def [symmetric] by auto
qed

lemma kh_put_ok:
  assumes "kh_ok hash h" "unat (n_buckets h) \<le> 2 ^ 30"
  shows "\<exists>x ret h'. kh_put hash al h key = Some (x, ret, h') \<and> kh_ok hash h' \<and> unat (n_buckets h') \<le> kh_put_bound h \<and>
    unat (kh_size h') \<le> unat (kh_size h) + 1 \<and>
    (ret = - 1 \<and> h' = h \<and> \<not> memory_ok al \<or>
     ret \<noteq> - 1 \<and> x < n_buckets h' \<and> kh_map (kh_set_val x v h') = (kh_map h)(key \<mapsto> v) \<and>
     (if kh_map h key = None then ret \<in> {1, 2} else ret = 0))"
proof -
  obtain r h1 where h1: "(if n_occupied h \<ge> upper_bound h then
          kh_resize hash al h (if n_buckets h > push_bit 1 (kh_size h) then n_buckets h - 1 else n_buckets h + 1)
        else Some (0, h)) = Some (r, h1)" "kh_ok hash h1" "kh_map h1 = kh_map h" "unat (n_buckets h1) \<le> kh_put_bound h"
      "kh_size h1 = kh_size h" "r = - 1 \<and> h1 = h \<and> \<not> memory_ok al \<or> r = 0 \<and> n_buckets h1 \<noteq> 0 \<and> n_occupied h1 < upper_bound h1"
    using kh_put_resize [OF assms] by blast
  show ?thesis
  proof (cases "r = - 1")
    case True
    then have "kh_put hash al h key = Some (n_buckets h1, - 1, h1)" unfolding kh_put_def h1(1) by simp
    then show ?thesis using True h1 by auto
  next
    case False
    then have r: "r = 0" "n_buckets h1 \<noteq> 0" "n_occupied h1 < upper_bound h1" using h1(6) by auto
    obtain x ret h' where p: "map_option (\<lambda>x. case kh_put_at h1 key x of (ret, h) \<Rightarrow> (x, ret, h)) (kh_put_bucket hash h1 key) = Some (x, ret, h')"
        "kh_ok hash h'" "unat (kh_size h') \<le> unat (kh_size h1) + 1" "x < n_buckets h'" "kh_map (kh_set_val x v h') = (kh_map h1)(key \<mapsto> v)"
        "if kh_map h1 key = None then ret \<in> {1, 2} else ret = 0 \<and> h' = h1"
      using kh_put_at_ok [OF h1(2) r(2,3)] by blast
    have "kh_put hash al h key = Some (x, ret, h')" unfolding kh_put_def h1(1) using p(1) by (simp add: r(1))
    moreover have "n_buckets h' = n_buckets h1"
      using p(1) by (auto simp: kh_put_at_take kh_take_def split: if_splits)
    ultimately show ?thesis using p h1(3-5) by (auto split: if_splits)
  qed
qed

definition kh_memory :: kh_allocs where
  "kh_memory = \<lparr> flags_ok = True, keys_ok = True, vals_ok = True \<rparr>"

lemma kh_clear_ok:
  assumes "kh_ok hash h"
  shows "kh_ok hash (kh_clear h) \<and> kh_map (kh_clear h) = Map.empty"
proof (cases "n_buckets h = 0")
  case True
  then have "kh_clear h = h" "live h = {}" using assms by (simp_all add: kh_ok_def kh_clear_def live_def)
  then show ?thesis using assms by (simp add: kh_map_None fun_eq_iff)
next
  case False
  note ok = kh_ok_sized [OF assms False] and f = pow2_size_flags [OF ok(1)]
  have "0 < n_buckets h" using False word_neq_0_conv by blast
  from fsize_room [OF f this] have "kh_flags h \<noteq> []" using ok(2) by auto
  then have c: "kh_clear h = h\<lparr> kh_flags := fresh_flags (n_buckets h), kh_size := 0, n_occupied := 0 \<rparr>" by (simp add: kh_clear_def)
  have u: "used (fresh_flags (n_buckets h)) (n_buckets h) = {}" using fresh_flag_bit [OF _ f] by (auto simp: used_flags)
  then have l: "live (kh_clear h) = {}" using live_used [of "kh_clear h"] by (simp add: c)
  have "kh_ok hash (kh_clear h)" using ok(1,3) False unfolding kh_ok_def l by (simp add: c u)
  then show ?thesis by (simp add: kh_map_None fun_eq_iff l)
qed

section \<open>A table in use\<close>

text \<open>
  The operations as the users of the table write them: \<open>k = kh_put(h, key, &ret); kh_val(h, k) = v\<close>,
  \<open>k = kh_get(h, key); kh_del(h, k)\<close>, the test \<open>k != kh_end(h)\<close> before reading, and \<open>kh_clear\<close>.
\<close>

datatype ('k, 'v) kh_op = Put 'k 'v | Del 'k | Get 'k | Clear

fun kh_exec :: "('k \<Rightarrow> u32) \<Rightarrow> ('k, 'v) kh_op \<Rightarrow> ('k, 'v) khash \<Rightarrow> ('v option \<times> ('k, 'v) khash) option" where
  "kh_exec hash (Put key v) h =
     map_option (\<lambda>(x, ret, h). (None, if ret = - 1 then h else kh_set_val x v h)) (kh_put hash kh_memory h key)"
| "kh_exec hash (Del key) h = map_option (\<lambda>x. (None, kh_del h x)) (kh_get hash h key)"
| "kh_exec hash (Get key) h = map_option (\<lambda>x. (if x = n_buckets h then None else Some (kh_val h x), h)) (kh_get hash h key)"
| "kh_exec hash Clear h = Some (None, kh_clear h)"

fun kh_run :: "('k \<Rightarrow> u32) \<Rightarrow> ('k, 'v) kh_op list \<Rightarrow> ('k, 'v) khash \<Rightarrow> ('v option list \<times> ('k, 'v) khash) option" where
  "kh_run hash [] h = Some ([], h)"
| "kh_run hash (p # ps) h =
     Option.bind (kh_exec hash p h) (\<lambda>(r, h). map_option (\<lambda>(rs, h). (r # rs, h)) (kh_run hash ps h))"

text \<open>The same operations on a map.\<close>

fun map_exec :: "('k, 'v) kh_op \<Rightarrow> ('k \<rightharpoonup> 'v) \<Rightarrow> 'v option \<times> ('k \<rightharpoonup> 'v)" where
  "map_exec (Put key v) m = (None, m(key \<mapsto> v))"
| "map_exec (Del key) m = (None, m(key := None))"
| "map_exec (Get key) m = (m key, m)"
| "map_exec Clear m = (None, Map.empty)"

fun map_run :: "('k, 'v) kh_op list \<Rightarrow> ('k \<rightharpoonup> 'v) \<Rightarrow> 'v option list \<times> ('k \<rightharpoonup> 'v)" where
  "map_run [] m = ([], m)"
| "map_run (p # ps) m = (case map_exec p m of (r, m) \<Rightarrow> case map_run ps m of (rs, m) \<Rightarrow> (r # rs, m))"

text \<open>\<open>b\<close> bounds the number of elements, and through it the number of buckets.\<close>

definition kh_within :: "nat \<Rightarrow> ('k, 'v) khash \<Rightarrow> bool" where
  "kh_within b h \<longleftrightarrow> unat (kh_size h) \<le> b \<and> unat (n_buckets h) \<le> max 4 (4 * b)"

lemma kh_lookup:
  assumes "kh_ok hash h"
  shows "\<exists>x. kh_get hash h key = Some x \<and> (if x = n_buckets h then kh_map h key = None
    else x \<in> live h \<and> kh_key h x = key \<and> kh_map h key = Some (kh_val h x))"
proof -
  obtain x where x: "kh_get hash h key = Some x"
      "if \<exists>i\<in>live h. kh_key h i = key then x \<in> live h \<and> kh_key h x = key else x = n_buckets h"
    using kh_get_finds [OF assms] by blast
  show ?thesis
  proof (cases "\<exists>i\<in>live h. kh_key h i = key")
    case True
    then have l: "x \<in> live h" "kh_key h x = key" using x(2) by simp_all
    then have "x \<noteq> n_buckets h" by (auto simp: live_def)
    then show ?thesis using x(1) l kh_map_live [OF kh_ok_inj [OF assms] l(1)] by auto
  next
    case False
    then show ?thesis using x by (simp add: kh_map_None)
  qed
qed

lemma kh_del_keeps:
  assumes "kh_ok hash h" "x \<in> live h"
  shows "n_buckets (kh_del h x) = n_buckets h \<and> unat (kh_size (kh_del h x)) \<le> unat (kh_size h)"
proof -
  have n0: "n_buckets h \<noteq> 0" using assms(2) by (auto simp: live_def)
  have "0 < card (live h)" using assms(2) by (auto simp: card_gt_0_iff)
  then have "kh_size h \<noteq> 0" using kh_ok_sized(4) [OF assms(1) n0] by auto
  then show ?thesis by (simp add: kh_del_def unat_minus_one)
qed

lemma kh_exec_ok:
  assumes "kh_ok hash h" "kh_within b h" "b < 2 ^ 28"
  shows "\<exists>h'. kh_exec hash p h = Some (fst (map_exec p (kh_map h)), h') \<and> kh_ok hash h' \<and>
    kh_map h' = snd (map_exec p (kh_map h)) \<and> kh_within (Suc b) h'"
proof -
  have n: "unat (n_buckets h) \<le> 2 ^ 30" using assms(2,3) by (simp add: kh_within_def max_def split: if_splits)
  have w: "kh_within (Suc b) h" using assms(2) by (auto simp: kh_within_def)
  show ?thesis
  proof (cases p)
    case (Put key v)
    obtain x ret h' where p: "kh_put hash kh_memory h key = Some (x, ret, h')" "kh_ok hash h'" "unat (n_buckets h') \<le> kh_put_bound h"
        "unat (kh_size h') \<le> unat (kh_size h) + 1" "ret \<noteq> - 1" "kh_map (kh_set_val x v h') = (kh_map h)(key \<mapsto> v)"
      using kh_put_ok [OF assms(1) n, of kh_memory key v] by (auto simp: memory_ok_def kh_memory_def)
    have "kh_within (Suc b) (kh_set_val x v h')"
      using p(3,4) assms(2) by (auto simp: kh_within_def kh_put_bound_def kh_set_val_def)
    then show ?thesis using Put p by (simp add: kh_set_val_ok)
  next
    case (Del key)
    obtain x where x: "kh_get hash h key = Some x" "if x = n_buckets h then kh_map h key = None
        else x \<in> live h \<and> kh_key h x = key \<and> kh_map h key = Some (kh_val h x)"
      using kh_lookup [OF assms(1)] by blast
    show ?thesis
    proof (cases "x = n_buckets h")
      case True
      then have "kh_del h x = h" "kh_map h key = None" using x(2) by (simp_all add: kh_del_def)
      then show ?thesis using Del x(1) assms(1) w by (auto simp: fun_eq_iff)
    next
      case False
      then have l: "x \<in> live h" "kh_key h x = key" using x(2) by simp_all
      have "kh_within (Suc b) (kh_del h x)" using kh_del_keeps [OF assms(1) l(1)] w by (auto simp: kh_within_def)
      then show ?thesis using Del x(1) kh_del_ok [OF assms(1) l(1)] l(2) by simp
    qed
  next
    case (Get key)
    obtain x where "kh_get hash h key = Some x" "if x = n_buckets h then kh_map h key = None
        else x \<in> live h \<and> kh_key h x = key \<and> kh_map h key = Some (kh_val h x)"
      using kh_lookup [OF assms(1)] by blast
    then show ?thesis using Get assms(1) w by (intro exI [of _ h]) (auto split: if_splits)
  next
    case Clear
    have "kh_within (Suc b) (kh_clear h)" using w by (auto simp: kh_within_def kh_clear_def)
    then show ?thesis using Clear kh_clear_ok [OF assms(1)] by simp
  qed
qed

lemma kh_run_ok:
  "kh_ok hash h \<Longrightarrow> kh_within b h \<Longrightarrow> b + length ps \<le> 2 ^ 28 \<Longrightarrow>
   \<exists>h'. kh_run hash ps h = Some (fst (map_run ps (kh_map h)), h') \<and> kh_ok hash h' \<and> kh_map h' = snd (map_run ps (kh_map h))"
proof (induction ps arbitrary: h b)
  case (Cons p ps)
  obtain h1 where h1: "kh_exec hash p h = Some (fst (map_exec p (kh_map h)), h1)" "kh_ok hash h1"
      "kh_map h1 = snd (map_exec p (kh_map h))" "kh_within (Suc b) h1"
    using kh_exec_ok [OF Cons.prems(1,2)] Cons.prems(3) by fastforce
  obtain h2 where "kh_run hash ps h1 = Some (fst (map_run ps (kh_map h1)), h2)" "kh_ok hash h2" "kh_map h2 = snd (map_run ps (kh_map h1))"
    using Cons.IH [OF h1(2,4)] Cons.prems(3) by auto
  with h1 show ?case by (auto split: prod.splits)
qed simp

text \<open>
  C28: The hash table implements a map. For every hash function, however badly it spreads the keys, and every sequence of at most \<open>2 ^ 28\<close>
  insertions, deletions, lookups and clearings of a new table, with memory for its growth, every operation returns, each lookup
  gives what the map of the same operations holds, and the table stands for that map at the end. So probing always
  ends, deleted buckets hide nothing, and the in-place rehashing loses no element.
\<close>

theorem khash_behaves_as_map:
  assumes "length ps \<le> 2 ^ 28"
  shows "\<exists>h. kh_run hash ps (kh_init ks vs) = Some (fst (map_run ps Map.empty), h) \<and> kh_map h = snd (map_run ps Map.empty)"
proof -
  have "kh_ok hash (kh_init ks vs)" by (simp add: kh_ok_def kh_init_def)
  moreover have "kh_map (kh_init ks vs) = Map.empty" by (simp add: kh_map_None fun_eq_iff live_def kh_init_def)
  moreover have "kh_within 0 (kh_init ks vs)" by (simp add: kh_within_def kh_init_def)
  ultimately show ?thesis using kh_run_ok [of hash "kh_init ks vs" 0 ps] assms by auto
qed

theorem khash_behaves_as_map_witness:
  "\<exists>h. kh_run (\<lambda>_. 7) [Put ''a'' (1::nat), Put ''b'' 2, Del ''a'', Get ''a'', Get ''b''] (kh_init (\<lambda>_. []) (\<lambda>_. 0))
      = Some ([None, None, None, None, Some 2], h)"
  using khash_behaves_as_map [of "[Put ''a'' (1::nat), Put ''b'' 2, Del ''a'', Get ''a'', Get ''b'']" "\<lambda>_. 7" "\<lambda>_. []" "\<lambda>_. 0"] by auto

end
