(* ===== verification/KThread.thy ===== *)
theory KThread
  imports Prelude "HOL-Library.Multiset"
begin

text \<open>
  The parallel loop of klib (\<open>src/ext/klib/kthread.c\<close>): \<open>kt_for\<close> and its workers as a step relation on the shared counters, with
  every access to them a step of its own. A \<open>long\<close> has 64 bits. The loop body \<open>func\<close> is an
  argument of the program, of which the calls are recorded.
\<close>

section \<open>The steps of a worker\<close>

definition LONG_MAX :: int where
  "LONG_MAX = 2 ^ 63 - 1"

text \<open>The addition of \<open>__sync_fetch_and_add\<close>, which wraps around.\<close>

definition long_add :: "int \<Rightarrow> int \<Rightarrow> int" where
  "long_add x y = sint (word_of_int (x + y) :: 64 word)"

text \<open>
  Where a worker is: before taking an index of its own or calling the body with it; in the search for the smallest counter, with
  \<open>i\<close>, \<open>min\<close> and \<open>min_i\<close>, or before the second read of a counter that was smaller; before calling the body
  with a stolen index; at its end. \<open>Wild\<close> is the access to \<open>w[-1]\<close> when no counter was below \<open>LONG_MAX\<close>.
\<close>

datatype job_pc = Own | OwnCall int | Scan nat int int | Take nat | StealCall int | Finish | Wild

definition scan_start :: job_pc where
  "scan_start = Scan 0 LONG_MAX (- 1)"

fun steal_work :: "nat \<Rightarrow> int \<Rightarrow> int list \<Rightarrow> job_pc \<Rightarrow> int list \<times> job_pc" where
  "steal_work T n w (Scan i mn min_i) =
     (if i < T then (w, if mn > w ! i then Take i else Scan (Suc i) mn min_i)
      else if min_i < 0 then (w, Wild)
      else
        let k = w ! nat min_i; r = (if k \<ge> n then - 1 else k)
        in (w[nat min_i := long_add k (int T)], if r \<ge> 0 then StealCall r else Finish))"
| "steal_work T n w (Take i) = (w, Scan (Suc i) (w ! i) (int i))"
| "steal_work T n w pc = (w, pc)"

fun ktf_worker :: "nat \<Rightarrow> int \<Rightarrow> nat \<Rightarrow> int list \<Rightarrow> job_pc \<Rightarrow> int list \<times> job_pc" where
  "ktf_worker T n me w Own =
     (w[me := long_add (w ! me) (int T)], if w ! me \<ge> n then scan_start else OwnCall (w ! me))"
| "ktf_worker T n me w (OwnCall i) = (w, Own)"
| "ktf_worker T n me w (StealCall i) = (w, scan_start)"
| "ktf_worker T n me w pc = steal_work T n w pc"

text \<open>The index with which the next step calls the body.\<close>

fun job_call :: "job_pc \<Rightarrow> int list" where
  "job_call (OwnCall i) = [i]"
| "job_call (StealCall i) = [i]"
| "job_call _ = []"

section \<open>The loop\<close>

datatype ktf_main = Spawning nat | Joining_at nat

record ktf_state =
  kf_main :: ktf_main
  kf_w :: "int list"
  kf_threads :: "job_pc option list"
  kf_calls :: "(int \<times> nat) list"

definition ktf_init :: "nat \<Rightarrow> ktf_state" where
  "ktf_init T = \<lparr> kf_main = Spawning 0, kf_w = map int [0..<T], kf_threads = replicate T None, kf_calls = [] \<rparr>"

inductive ktf_step :: "nat \<Rightarrow> int \<Rightarrow> ktf_state \<Rightarrow> ktf_state \<Rightarrow> bool" for T n where
  spawn: "kf_main s = Spawning k \<Longrightarrow> k < T \<Longrightarrow>
    ktf_step T n s (s\<lparr> kf_main := Spawning (Suc k), kf_threads := (kf_threads s)[k := Some Own] \<rparr>)"
| spawned: "kf_main s = Spawning T \<Longrightarrow> ktf_step T n s (s\<lparr> kf_main := Joining_at 0 \<rparr>)"
| joined: "kf_main s = Joining_at k \<Longrightarrow> k < T \<Longrightarrow> kf_threads s ! k = Some Finish \<Longrightarrow>
    ktf_step T n s (s\<lparr> kf_main := Joining_at (Suc k) \<rparr>)"
| work: "i < T \<Longrightarrow> kf_threads s ! i = Some pc \<Longrightarrow> pc \<noteq> Finish \<Longrightarrow> pc \<noteq> Wild \<Longrightarrow> ktf_worker T n i (kf_w s) pc = (w, pc') \<Longrightarrow>
    ktf_step T n s (s\<lparr> kf_w := w, kf_threads := (kf_threads s)[i := Some pc'],
      kf_calls := kf_calls s @ map (\<lambda>x. (x, i)) (job_call pc) \<rparr>)"

definition ktf_returned :: "nat \<Rightarrow> ktf_state \<Rightarrow> bool" where
  "ktf_returned T s \<longleftrightarrow> kf_main s = Joining_at T"

text \<open>The calls that \<open>kt_for\<close> may have made when it returns.\<close>

definition kt_for :: "int \<Rightarrow> int \<Rightarrow> (int \<times> nat) list \<Rightarrow> bool" where
  "kt_for n_threads n calls \<longleftrightarrow>
     (if n_threads > 1 then
        \<exists>s. (ktf_step (nat n_threads) n)\<^sup>*\<^sup>* (ktf_init (nat n_threads)) s \<and> ktf_returned (nat n_threads) s \<and> calls = kf_calls s
      else calls = map (\<lambda>j. (int j, 0)) [0..<nat n])"

section \<open>The indices that are taken\<close>

lemma long_add_small: "- (2 ^ 63) \<le> x + y \<Longrightarrow> x + y < 2 ^ 63 \<Longrightarrow> long_add x y = x + y"
  unfolding long_add_def sint_sbintrunc' by (rule signed_take_bit_int_eq_self) simp_all

text \<open>Changing one entry of a list changes one term of a sum over it.\<close>

lemma sum_nth_update:
  fixes f :: "'a \<Rightarrow> 'b :: comm_monoid_add"
  assumes "i < length xs"
  shows "(\<Sum>t<length xs. f (xs[i := x] ! t)) + f (xs ! i) = (\<Sum>t<length xs. f (xs ! t)) + f x"
proof -
  have r: "(\<Sum>t<length xs. f (ys ! t)) = f (ys ! i) + (\<Sum>t\<in>{..<length xs} - {i}. f (ys ! t))" for ys
    using assms by (simp add: sum.remove)
  have "(\<Sum>t\<in>{..<length xs} - {i}. f (xs[i := x] ! t)) = (\<Sum>t\<in>{..<length xs} - {i}. f (xs ! t))"
    by (rule sum.cong) auto
  with r [of "xs[i := x]"] r [of xs] assms show ?thesis by (simp add: ac_simps)
qed

definition taken :: "nat \<Rightarrow> int \<Rightarrow> int list \<Rightarrow> int set" where
  "taken T n w = {i. 0 \<le> i \<and> i < n \<and> i < w ! nat (i mod int T)}"

definition counters_ok :: "nat \<Rightarrow> int list \<Rightarrow> bool" where
  "counters_ok T w \<longleftrightarrow> length w = T \<and> (\<forall>j<T. w ! j mod int T = int j \<and> int j \<le> w ! j)"

lemma finite_taken [simp]: "finite (taken T n w)"
  by (rule finite_subset [of _ "{0..<n}"]) (auto simp: taken_def)

lemma counters_ok_update:
  assumes "counters_ok T w" "j < T"
  shows "counters_ok T (w[j := w ! j + int T])"
proof -
  have "0 < int T" using assms(2) by simp
  then show ?thesis using assms by (auto simp: counters_ok_def nth_list_update)
qed

lemma taken_update:
  assumes ok: "counters_ok T w" and j: "j < T"
  shows "taken T n (w[j := w ! j + int T]) = taken T n w \<union> (if w ! j < n then {w ! j} else {})" "w ! j \<notin> taken T n w"
proof -
  have w: "length w = T" "w ! j mod int T = int j" "0 \<le> w ! j" using ok j by (auto simp: counters_ok_def)
  have same: "i = w ! j" if "i mod int T = int j" "w ! j \<le> i" "i < w ! j + int T" for i
  proof -
    have "(i - w ! j) mod int T = 0" using mod_diff_eq [of i "int T" "w ! j"] that(1) w(2) by simp
    moreover have "(i - w ! j) mod int T = i - w ! j" using that by (intro mod_pos_pos_trivial) auto
    ultimately show ?thesis by simp
  qed
  have nm: "nat (i mod int T) = j \<longleftrightarrow> i mod int T = int j" for i :: int
    using j by (metis int_nat_eq nat_int of_nat_0_less_iff less_nat_zero_code not_gr_zero pos_mod_sign)
  show "w ! j \<notin> taken T n w" using w by (simp add: taken_def)
  show "taken T n (w[j := w ! j + int T]) = taken T n w \<union> (if w ! j < n then {w ! j} else {})"
  proof (rule set_eqI)
    fix i
    show "i \<in> taken T n (w[j := w ! j + int T]) \<longleftrightarrow> i \<in> taken T n w \<union> (if w ! j < n then {w ! j} else {})"
    proof (cases "i mod int T = int j")
      case True
      then have r: "nat (i mod int T) = j" by simp
      show ?thesis unfolding taken_def mem_Collect_eq Un_iff r using same [OF True] w j by (cases "i < w ! j") auto
    next
      case False
      then have "i \<noteq> w ! j" using w by auto
      then show ?thesis using False nm [of i] by (simp add: taken_def nth_list_update)
    qed
  qed
qed

section \<open>The invariant of the workers\<close>

fun past_own :: "job_pc \<Rightarrow> bool" where
  "past_own Own = False"
| "past_own (OwnCall i) = False"
| "past_own _ = True"

fun job_pc_ok :: "nat \<Rightarrow> job_pc \<Rightarrow> bool" where
  "job_pc_ok T (Scan i mn min_i) \<longleftrightarrow> i \<le> T \<and> (if i = 0 then mn = LONG_MAX \<and> min_i = - 1 else 0 \<le> min_i \<and> min_i < int T)"
| "job_pc_ok T (Take i) \<longleftrightarrow> i < T"
| "job_pc_ok T Wild \<longleftrightarrow> False"
| "job_pc_ok T _ \<longleftrightarrow> True"

text \<open>How many of its fetches have found no index.\<close>

fun misses :: "job_pc \<Rightarrow> nat" where
  "misses Own = 0"
| "misses (OwnCall i) = 0"
| "misses Finish = 2"
| "misses _ = 1"

definition jobs_inv :: "nat \<Rightarrow> int \<Rightarrow> int list \<Rightarrow> job_pc list \<Rightarrow> int list \<Rightarrow> bool" where
  "jobs_inv T n w js calls \<longleftrightarrow> length js = T \<and> counters_ok T w \<and>
     mset calls + (\<Sum>t<T. mset (job_call (js ! t))) = mset_set (taken T n w) \<and>
     (\<forall>t<T. (past_own (js ! t) \<longrightarrow> n \<le> w ! t) \<and> job_pc_ok T (js ! t)) \<and>
     (\<forall>j<T. w ! j < max n 0 + int T * (1 + int (\<Sum>t<T. misses (js ! t))))"

text \<open>The size of the loop leaves room for the counters to run over its end.\<close>

definition ktf_room :: "nat \<Rightarrow> int \<Rightarrow> bool" where
  "ktf_room T n \<longleftrightarrow> n + 2 * int T * (int T + 1) < 2 ^ 63 \<and> 2 * int T * (int T + 1) < 2 ^ 63"

lemma misses_le: "misses pc \<le> 2" by (cases pc) auto

lemma counters_bound:
  assumes inv: "jobs_inv T n w js calls" and room: "ktf_room T n" and j: "j < T"
  shows "0 \<le> w ! j" "w ! j + int T < 2 ^ 63" "w ! j < LONG_MAX" "long_add (w ! j) (int T) = w ! j + int T"
proof -
  let ?F = "\<Sum>t<T. misses (js ! t)"
  have "?F \<le> (\<Sum>t<T. 2)" by (rule sum_mono) (rule misses_le)
  also have "\<dots> = 2 * T" by simp
  finally have F: "int ?F \<le> 2 * int T" by linarith
  show "0 \<le> w ! j" using inv j by (fastforce simp: jobs_inv_def counters_ok_def)
  have "w ! j < max n 0 + int T * (1 + int ?F)" using inv j by (simp add: jobs_inv_def)
  also have "\<dots> \<le> max n 0 + int T * (1 + 2 * int T)" using F by (intro add_left_mono mult_left_mono) simp_all
  finally have "w ! j + int T < max n 0 + 2 * int T * (int T + 1)" by (simp add: algebra_simps)
  also have "\<dots> \<le> 2 ^ 63" using room by (auto simp: ktf_room_def max_def)
  finally show b: "w ! j + int T < 2 ^ 63" .
  show "w ! j < LONG_MAX" using b j by (simp add: LONG_MAX_def)
  show "long_add (w ! j) (int T) = w ! j + int T" using b \<open>0 \<le> w ! j\<close> by (intro long_add_small) simp_all
qed

text \<open>A step that takes no index.\<close>

lemma jobs_inv_move:
  assumes inv: "jobs_inv T n w js calls" and t: "t < T"
    and new: "past_own pc \<Longrightarrow> past_own (js ! t)" "job_pc_ok T pc" "misses pc = misses (js ! t)"
    and calls: "mset calls' + mset (job_call pc) = mset calls + mset (job_call (js ! t))"
  shows "jobs_inv T n w (js[t := pc]) calls'"
proof -
  have len: "length js = T" using inv by (simp add: jobs_inv_def)
  have m: "(\<Sum>i<T. misses (js[t := pc] ! i)) = (\<Sum>i<T. misses (js ! i))"
    using sum_nth_update [of t js misses pc] new(3) t by (simp add: len)
  let ?A = "\<Sum>i<T. mset (job_call (js[t := pc] ! i))" and ?S = "\<Sum>i<T. mset (job_call (js ! i))"
  have "?A + mset (job_call (js ! t)) = ?S + mset (job_call pc)"
    using sum_nth_update [of t js "\<lambda>x. mset (job_call x)" pc] t by (simp add: len)
  then have "(mset calls' + ?A) + mset (job_call (js ! t)) = mset calls' + (?S + mset (job_call pc))" by (simp add: add.assoc)
  also have "\<dots> = (mset calls' + mset (job_call pc)) + ?S" by (simp only: ac_simps)
  also have "\<dots> = (mset calls + ?S) + mset (job_call (js ! t))" unfolding calls by (simp only: ac_simps)
  finally have "mset calls' + ?A = mset calls + ?S" by simp
  moreover have "\<forall>i<T. (past_own (js[t := pc] ! i) \<longrightarrow> n \<le> w ! i) \<and> job_pc_ok T (js[t := pc] ! i)"
    using inv new(1,2) t by (auto simp: jobs_inv_def nth_list_update)
  ultimately show ?thesis using inv by (simp add: jobs_inv_def m)
qed

text \<open>A fetch from counter \<open>j\<close>.\<close>

lemma jobs_inv_fetch:
  assumes inv: "jobs_inv T n w js calls" and t: "t < T" "j < T" and old: "job_call (js ! t) = []"
    and new: "job_call pc = (if w ! j < n then [w ! j] else [])" "job_pc_ok T pc"
      "misses pc = misses (js ! t) + (if w ! j < n then 0 else 1)" "past_own pc \<Longrightarrow> past_own (js ! t) \<or> (n \<le> w ! j \<and> t = j)"
  shows "jobs_inv T n (w[j := w ! j + int T]) (js[t := pc]) calls"
proof -
  have len: "length js = T" "counters_ok T w" "length w = T" using inv by (auto simp: jobs_inv_def counters_ok_def)
  have m: "(\<Sum>i<T. misses (js[t := pc] ! i)) = (\<Sum>i<T. misses (js ! i)) + (if w ! j < n then 0 else 1)"
    using sum_nth_update [of t js misses pc] new(3) t by (simp add: len split: if_splits)
  have "(\<Sum>i<T. mset (job_call (js[t := pc] ! i))) = (\<Sum>i<T. mset (job_call (js ! i))) + mset (job_call pc)"
    using sum_nth_update [of t js "\<lambda>x. mset (job_call x)" pc] t old by (simp add: len)
  moreover have "mset_set (taken T n (w[j := w ! j + int T])) = mset_set (taken T n w) + mset (job_call pc)"
    using taken_update [OF len(2) t(2), of n] new(1) by (simp add: add.commute)
  ultimately have c: "mset calls + (\<Sum>i<T. mset (job_call (js[t := pc] ! i))) = mset_set (taken T n (w[j := w ! j + int T]))"
    using inv by (simp add: jobs_inv_def)
  have p: "(past_own (js[t := pc] ! i) \<longrightarrow> n \<le> w[j := w ! j + int T] ! i) \<and> job_pc_ok T (js[t := pc] ! i)" if "i < T" for i
    using inv new(2,4) t that len by (auto simp: jobs_inv_def nth_list_update)
  have b: "w[j := w ! j + int T] ! i < max n 0 + int T * (1 + int (\<Sum>i<T. misses (js[t := pc] ! i)))" if "i < T" for i
  proof -
    have w: "w ! i < max n 0 + int T * (1 + int (\<Sum>t<T. misses (js ! t)))" if "i < T" for i
      using inv that by (simp add: jobs_inv_def)
    show ?thesis
    proof (cases "w ! j < n")
      case True
      then have "w ! j + int T < max n 0 + int T * (1 + int (\<Sum>t<T. misses (js ! t)))"
        by (smt (verit, best) mult_le_cancel_left1 of_nat_0_le_iff)
      then show ?thesis using w [OF that] True that by (cases "i = j") (simp_all add: m len del: of_nat_sum)
    next
      case False
      then show ?thesis using w [OF that] w [OF t(2)] that by (cases "i = j") (simp_all add: m len algebra_simps del: of_nat_sum)
    qed
  qed
  show ?thesis unfolding jobs_inv_def using len c p b counters_ok_update [OF len(2) t(2)] by simp
qed

lemma jobs_inv_step:
  assumes inv: "jobs_inv T n w js calls" and room: "ktf_room T n" and t: "t < T" and step: "ktf_worker T n t w (js ! t) = (w', pc)"
  shows "jobs_inv T n w' (js[t := pc]) (calls @ job_call (js ! t))"
proof -
  note cb = counters_bound [OF inv room]
  have T: "0 < T" using t by simp
  have ok: "job_pc_ok T (js ! t)" "past_own (js ! t) \<Longrightarrow> n \<le> w ! t" using inv t by (simp_all add: jobs_inv_def)
  show ?thesis
  proof (cases "js ! t")
    case Own
    then show ?thesis
      using jobs_inv_fetch [OF inv t t, of pc] step cb [OF t] by (auto simp: scan_start_def split: if_splits)
  next
    case (OwnCall i)
    then show ?thesis using jobs_inv_move [OF inv t, of pc "calls @ [i]"] step by auto
  next
    case (StealCall i)
    then show ?thesis using jobs_inv_move [OF inv t, of pc "calls @ [i]"] step by (auto simp: scan_start_def)
  next
    case (Take i)
    then show ?thesis using jobs_inv_move [OF inv t, of pc calls] step ok by auto
  next
    case (Scan i mn min_i)
    show ?thesis
    proof (cases "i < T")
      case True
      with Scan show ?thesis
        using jobs_inv_move [OF inv t, of pc calls] step ok cb [OF True] by (auto split: if_splits)
    next
      case False
      then have mi: "0 \<le> min_i" "nat min_i < T" using ok Scan T by (auto split: if_splits)
      then show ?thesis
        using jobs_inv_fetch [OF inv t mi(2), of pc] step cb [OF mi(2)] Scan False by (auto simp: Let_def split: if_splits)
    qed
  next
    case Finish
    then show ?thesis using inv step by (simp add: list_update_id [of js t, unfolded Finish])
  next
    case Wild
    then show ?thesis using ok by simp
  qed
qed

section \<open>The invariant of the loop\<close>

definition job_of :: "job_pc option \<Rightarrow> job_pc" where
  "job_of th = (case th of None \<Rightarrow> Own | Some pc \<Rightarrow> pc)"

lemma job_of_simps [simp]: "job_of None = Own" "job_of (Some pc) = pc"
  by (simp_all add: job_of_def)

definition ktf_main_ok :: "nat \<Rightarrow> ktf_main \<Rightarrow> job_pc option list \<Rightarrow> bool" where
  "ktf_main_ok T m ths \<longleftrightarrow>
     (case m of
        Spawning k \<Rightarrow> k \<le> T \<and> (\<forall>i<T. ths ! i = None \<longleftrightarrow> k \<le> i)
      | Joining_at k \<Rightarrow> k \<le> T \<and> (\<forall>i<T. ths ! i \<noteq> None) \<and> (\<forall>i<k. ths ! i = Some Finish))"

definition ktf_inv :: "nat \<Rightarrow> int \<Rightarrow> ktf_state \<Rightarrow> bool" where
  "ktf_inv T n s \<longleftrightarrow> length (kf_threads s) = T \<and> ktf_main_ok T (kf_main s) (kf_threads s) \<and>
     jobs_inv T n (kf_w s) (map job_of (kf_threads s)) (map fst (kf_calls s)) \<and> (\<forall>c\<in>set (kf_calls s). snd c < T)"

lemma jobs_inv_start:
  assumes "0 < T"
  shows "jobs_inv T n (map int [0..<T]) (replicate T Own) []"
proof -
  have "counters_ok T (map int [0..<T])" by (simp add: counters_ok_def)
  moreover have "taken T n (map int [0..<T]) = {}"
  proof -
    have "int (nat (i mod int T)) \<le> i" if "0 \<le> i" for i using assms that by (simp add: zmod_le_nonneg_dividend)
    then show ?thesis using assms by (fastforce simp: taken_def nat_less_iff)
  qed
  ultimately show ?thesis by (auto simp: jobs_inv_def max_def)
qed

lemma ktf_inv_init: "0 < T \<Longrightarrow> ktf_inv T n (ktf_init T)"
  using jobs_inv_start [of T n] by (simp add: ktf_inv_def ktf_init_def ktf_main_ok_def map_replicate_const)

lemma ktf_inv_step:
  assumes room: "ktf_room T n" and inv: "ktf_inv T n s" and step: "ktf_step T n s t"
  shows "ktf_inv T n t"
  using step
proof cases
  case (spawn k)
  then have "kf_threads s ! k = None" "length (kf_threads s) = T" using inv by (auto simp: ktf_inv_def ktf_main_ok_def)
  moreover from this spawn have "map job_of ((kf_threads s)[k := Some Own]) = map job_of (kf_threads s)"
    by (auto intro!: nth_equalityI simp: nth_list_update)
  ultimately show ?thesis using inv spawn by (auto simp: ktf_inv_def ktf_main_ok_def nth_list_update)
next
  case spawned
  then show ?thesis using inv by (auto simp: ktf_inv_def ktf_main_ok_def)
next
  case (joined k)
  then show ?thesis using inv by (auto simp: ktf_inv_def ktf_main_ok_def less_Suc_eq)
next
  case (work i pc w pc')
  have len: "length (kf_threads s) = T" using inv by (simp add: ktf_inv_def)
  have "jobs_inv T n w ((map job_of (kf_threads s))[i := pc']) (map fst (kf_calls s) @ job_call pc)"
    using jobs_inv_step [OF _ room work(2), of "kf_w s" "map job_of (kf_threads s)"] inv work len by (simp add: ktf_inv_def)
  moreover have "ktf_main_ok T (kf_main s) ((kf_threads s)[i := Some pc'])"
    using inv work len by (auto simp: ktf_inv_def ktf_main_ok_def nth_list_update split: ktf_main.splits)
  ultimately show ?thesis using inv work len by (auto simp: ktf_inv_def map_update comp_def)
qed

section \<open>Every run ends\<close>

fun job_left :: "nat \<Rightarrow> job_pc \<Rightarrow> nat" where
  "job_left T Own = 2 * T + 4"
| "job_left T (OwnCall i) = 2 * T + 5"
| "job_left T (Scan i mn min_i) = 2 * (T - i) + 2"
| "job_left T (Take i) = 2 * (T - i) + 1"
| "job_left T (StealCall i) = 2 * T + 3"
| "job_left T Finish = 0"
| "job_left T Wild = 0"

definition thread_remaining :: "nat \<Rightarrow> job_pc option \<Rightarrow> nat" where
  "thread_remaining T th = (case th of None \<Rightarrow> 2 * T + 5 | Some pc \<Rightarrow> job_left T pc)"

definition indices_left :: "nat \<Rightarrow> int \<Rightarrow> int list \<Rightarrow> nat" where
  "indices_left T n w = nat n - card (taken T n w)"

definition ktf_left :: "nat \<Rightarrow> int \<Rightarrow> ktf_state \<Rightarrow> nat" where
  "ktf_left T n s =
     (case kf_main s of Spawning k \<Rightarrow> 2 * T + 1 - k | Joining_at k \<Rightarrow> T - k) +
     indices_left T n (kf_w s) * (2 * T + 2) + (\<Sum>t<T. thread_remaining T (kf_threads s ! t))"

lemma indices_left_update:
  assumes "counters_ok T w" "j < T"
  shows "indices_left T n (w[j := w ! j + int T]) + (if w ! j < n then 1 else 0) = indices_left T n w"
proof -
  have "card (taken T n (w[j := w ! j + int T])) = card (taken T n w) + (if w ! j < n then 1 else 0)"
    using taken_update [OF assms, of n] by simp
  moreover have "card (taken T n (w[j := w ! j + int T])) \<le> card {0..<n}"
    by (rule card_mono) (auto simp: taken_def)
  ultimately show ?thesis by (auto simp: indices_left_def)
qed

text \<open>A step of a worker makes its own distance or the number of free indices smaller.\<close>

lemma worker_step_left:
  assumes inv: "jobs_inv T n w js calls" and room: "ktf_room T n" and t: "t < T" "js ! t \<noteq> Finish" "js ! t \<noteq> Wild"
    and step: "ktf_worker T n t w (js ! t) = (w', pc)"
  shows "indices_left T n w' * (2 * T + 2) + job_left T pc < indices_left T n w * (2 * T + 2) + job_left T (js ! t)"
proof -
  note cb = counters_bound [OF inv room]
  have ok: "job_pc_ok T (js ! t)" "counters_ok T w" using inv t by (simp_all add: jobs_inv_def)
  note il = indices_left_update [OF ok(2), of _ n]
  show ?thesis
  proof (cases "js ! t")
    case Own
    then show ?thesis
      using step cb [OF t(1)] by (auto simp: scan_start_def il [OF t(1), symmetric] split: if_splits)
  next
    case (Scan i mn min_i)
    show ?thesis
    proof (cases "i < T")
      case False
      then have mi: "0 \<le> min_i" "nat min_i < T" "i = T" using ok Scan t by (auto split: if_splits)
      then show ?thesis using step cb [OF mi(2)] Scan by (auto simp: Let_def il [OF mi(2), symmetric] split: if_splits)
    qed (use step Scan in \<open>auto split: if_splits\<close>)
  qed (use step ok t in \<open>auto simp: scan_start_def\<close>)
qed

lemma ktf_step_left:
  assumes room: "ktf_room T n" and inv: "ktf_inv T n s" and step: "ktf_step T n s t"
  shows "ktf_left T n t < ktf_left T n s"
  using step
proof cases
  case (spawn k)
  then have "kf_threads s ! k = None" "length (kf_threads s) = T" using inv by (auto simp: ktf_inv_def ktf_main_ok_def)
  then show ?thesis
    using spawn sum_nth_update [of k "kf_threads s" "thread_remaining T" "Some Own"]
    by (simp add: ktf_left_def thread_remaining_def)
next
  case (work i pc w pc')
  have len: "length (kf_threads s) = T" using inv by (simp add: ktf_inv_def)
  have "indices_left T n w * (2 * T + 2) + job_left T pc' < indices_left T n (kf_w s) * (2 * T + 2) + job_left T pc"
    using worker_step_left [OF _ room work(2), of "kf_w s" "map job_of (kf_threads s)" "map fst (kf_calls s)" w pc'] inv work len by (simp add: ktf_inv_def)
  then show ?thesis
    using work len sum_nth_update [of i "kf_threads s" "thread_remaining T" "Some pc'"]
    by (simp add: ktf_left_def thread_remaining_def)
qed (auto simp: ktf_left_def)

lemma ktf_progress:
  assumes inv: "ktf_inv T n s" and nr: "\<not> ktf_returned T s"
  shows "\<exists>t. ktf_step T n s t"
proof (cases "kf_main s")
  case (Spawning k)
  then show ?thesis
    using inv ktf_step.spawn [of s k T n] ktf_step.spawned [of s T n] by (cases "k < T") (auto simp: ktf_inv_def ktf_main_ok_def)
next
  case (Joining_at k)
  then obtain pc where k: "k < T" "kf_threads s ! k = Some pc" "length (kf_threads s) = T"
    using inv nr by (fastforce simp: ktf_inv_def ktf_main_ok_def ktf_returned_def)
  have "job_pc_ok T pc" using inv k by (auto simp: ktf_inv_def jobs_inv_def)
  then have "pc \<noteq> Wild" by auto
  show ?thesis
  proof (cases "pc = Finish")
    case True
    then show ?thesis using ktf_step.joined [of s k T n] Joining_at k by blast
  next
    case False
    obtain w pc' where "ktf_worker T n k (kf_w s) pc = (w, pc')" by fastforce
    then show ?thesis using ktf_step.work [of k T s pc n w pc'] k False \<open>pc \<noteq> Wild\<close> by blast
  qed
qed

interpretation ktf: terminating_system "\<lambda>s. 0 < T \<and> ktf_room T n \<and> s = ktf_init T" "ktf_step T n" "\<lambda>s. ktf_room T n \<and> ktf_inv T n s"
    "ktf_left T n" "ktf_returned T" for T n
  by unfold_locales (auto intro: ktf_inv_init ktf_inv_step ktf_step_left ktf_progress)

text \<open>When all workers have finished, each of them has found its counter past the end.\<close>

lemma jobs_inv_finished:
  assumes inv: "jobs_inv T n w js calls" and fin: "\<And>t. t < T \<Longrightarrow> js ! t = Finish" and T: "0 < T"
  shows "mset calls = mset_set {0..<n}"
proof -
  have "(\<Sum>t<T. mset (job_call (js ! t))) = {#}" using fin by (intro sum.neutral) auto
  moreover have "taken T n w = {0..<n}"
  proof -
    have w: "n \<le> w ! t" if "t < T" for t using inv fin [OF that] that by (auto simp: jobs_inv_def)
    have "nat (i mod int T) < T" for i using T by (simp add: nat_less_iff)
    then have "i < w ! nat (i mod int T)" if "i < n" for i using w that by (meson less_le_trans)
    then show ?thesis by (auto simp: taken_def)
  qed
  ultimately show ?thesis using inv by (simp add: jobs_inv_def)
qed

lemma ktf_returned_calls:
  assumes inv: "ktf_inv T n s" and r: "ktf_returned T s" and T: "0 < T"
  shows "mset (map fst (kf_calls s)) = mset_set {0..<n}"
proof (rule jobs_inv_finished [OF _ _ T])
  show "jobs_inv T n (kf_w s) (map job_of (kf_threads s)) (map fst (kf_calls s))" using inv by (simp add: ktf_inv_def)
  show "map job_of (kf_threads s) ! t = Finish" if "t < T" for t
    using inv r that by (simp add: ktf_inv_def ktf_main_ok_def ktf_returned_def)
qed

lemma ktf_left_init: "ktf_left T n (ktf_init T) = 2 * T + 1 + (nat n - card (taken T n (map int [0..<T]))) * (2 * T + 2) + T * (2 * T + 5)"
  by (simp add: ktf_left_def ktf_init_def thread_remaining_def indices_left_def)

text \<open>
  C6: The parallel loop. However its threads are scheduled, down to the single reads and additions of the counters, every run of
  \<open>kt_for\<close> ends, within a number of steps that is known beforehand, only by returning; it can return, and then the body
  has been called exactly once with each index from 0 to \<open>n - 1\<close>, by a thread number below the number of threads. Stealing with stale
  reads of the counters loses and repeats nothing, and never accesses \<open>w[-1]\<close>. The counters must have room for the
  overrun: \<open>n + 2 T (T + 1)\<close> is below \<open>2 ^ 63\<close>.
\<close>

theorem kt_for_calls_each_index_once:
  assumes "ktf_room (nat T) n"
  shows "(\<exists>calls. kt_for T n calls) \<and>
    (\<forall>calls. kt_for T n calls \<longrightarrow> mset (map fst calls) = mset_set {0..<n} \<and> (\<forall>c\<in>set calls. int (snd c) < max 1 T)) \<and>
    (1 < T \<longrightarrow> (\<forall>m s. (ktf_step (nat T) n ^^ m) (ktf_init (nat T)) s \<longrightarrow>
       m \<le> (nat T + nat n) * (2 * nat T + 2) + 5 * nat T + 1 \<and> (ktf_returned (nat T) s \<or> (\<exists>t. ktf_step (nat T) n s t))))"
proof (cases "1 < T")
  case False
  have "set (map int [0..<nat n]) = {0..<n}" by (auto simp: image_int_atLeastLessThan)
  then have "mset (map int [0..<nat n]) = mset_set {0..<n}"
    using mset_set_set [of "map int [0..<nat n]"] by (simp add: distinct_map)
  with False show ?thesis by (simp add: kt_for_def comp_def)
next
  case True
  let ?T = "nat T"
  have start: "0 < ?T \<and> ktf_room ?T n \<and> ktf_init ?T = ktf_init ?T" using True assms by simp
  have inv: "ktf_room ?T n \<and> ktf_inv ?T n (ktf_init ?T)" using True assms ktf_inv_init by simp
  have "mset (map fst calls) = mset_set {0..<n} \<and> (\<forall>c\<in>set calls. int (snd c) < max 1 T)" if calls: "kt_for T n calls" for calls
  proof -
    obtain s where s: "(ktf_step ?T n)\<^sup>*\<^sup>* (ktf_init ?T) s" "ktf_returned ?T s" "calls = kf_calls s"
      using calls True by (auto simp: kt_for_def)
    have "ktf_inv ?T n s" using ktf.inv_reachable [OF start s(1)] by simp
    then show ?thesis using ktf_returned_calls [OF _ s(2)] s(3) True by (auto simp: ktf_inv_def zless_nat_eq_int_zless)
  qed
  moreover have "\<exists>calls. kt_for T n calls" using ktf.completes [OF inv] True by (auto simp: kt_for_def)
  moreover have "m \<le> (?T + nat n) * (2 * ?T + 2) + 5 * ?T + 1 \<and> (ktf_returned ?T s \<or> (\<exists>t. ktf_step ?T n s t))"
    if run: "(ktf_step ?T n ^^ m) (ktf_init ?T) s" for m s
  proof -
    have "(nat n - card (taken ?T n (map int [0..<?T]))) * (2 * ?T + 2) \<le> nat n * (2 * ?T + 2)" by (rule mult_le_mono1) simp
    then have "ktf_left ?T n (ktf_init ?T) \<le> (?T + nat n) * (2 * ?T + 2) + 5 * ?T + 1"
      unfolding ktf_left_init by (simp add: algebra_simps)
    then show ?thesis
      using ktf.run_bounded [OF run inv] ktf.progress [OF ktf.inv_reachable [OF start relpowp_imp_rtranclp [OF run]]] by auto
  qed
  ultimately show ?thesis by blast
qed

theorem kt_for_calls_each_index_once_witness:
  "\<exists>calls. kt_for 2 3 calls \<and> mset (map fst calls) = {#0, 1, 2#}"
proof -
  have "ktf_room (nat 2) 3" by (simp add: ktf_room_def)
  moreover have "{0..<3} = {0, 1, 2 :: int}" by auto
  ultimately show ?thesis using kt_for_calls_each_index_once [of 2 3] by auto
qed

end
