(* ===== verification/KPipeline.thy ===== *)
theory KPipeline
  imports KThread
begin

text \<open>
  The pipeline of klib (\<open>kt_pipeline\<close> of \<open>src/ext/klib/kthread.c\<close>): workers that take chunks through a sequence of steps, with the
  mutex and the condition variable as parts of the state. A waiting worker may also wake up by itself, as POSIX
  allows. The counter of chunks is a number without the bound of its \<open>int64_t\<close>; \<open>func\<close> is an argument, which takes the shared
  data, the step and the data of the chunk (\<open>None\<close> is a null pointer) and gives new data and the changed shared data.
\<close>

section \<open>Workers\<close>

text \<open>
  The places of a worker: not created yet; at the head of its loop; before the first lock; in the test, with the mutex; waiting,
  and woken without the mutex; allowed to go on, with the mutex; in the call; before the second lock; in the
  update, and before the second unlock, both with the mutex; at its end.
\<close>

datatype ktp_pc = PUnborn | PLoop | PLock | PTest | PWait | PWoken | PGo | PCall | PRelock | PUpdate | PLeave | PExit

record 'd ktp_worker_t =
  kw_step :: nat
  kw_index :: nat
  kw_data :: "'d option"
  kw_pc :: ktp_pc

record ('s, 'd) ktp =
  kp_main :: ktf_main
  kp_index :: nat
  kp_mutex :: "nat option"
  kp_workers :: "'d ktp_worker_t list"
  kp_shared :: 's
  kp_calls :: "(nat \<times> nat) list"

text \<open>Another worker with a smaller index is doing the same step or an earlier one.\<close>

definition ktp_blocked :: "nat \<Rightarrow> 'd ktp_worker_t list \<Rightarrow> bool" where
  "ktp_blocked me ws \<longleftrightarrow>
     (\<exists>i<length ws. i \<noteq> me \<and> kw_step (ws ! i) \<le> kw_step (ws ! me) \<and> kw_index (ws ! i) < kw_index (ws ! me))"

definition cond_broadcast :: "'d ktp_worker_t list \<Rightarrow> 'd ktp_worker_t list" where
  "cond_broadcast ws = map (\<lambda>w. if kw_pc w = PWait then w\<lparr> kw_pc := PWoken \<rparr> else w) ws"

definition next_step :: "nat \<Rightarrow> 'd ktp_worker_t \<Rightarrow> nat" where
  "next_step S w = (if Suc (kw_step w) = S \<or> kw_data w \<noteq> None then Suc (kw_step w) mod S else S)"

text \<open>The move of worker \<open>me\<close> to another place.\<close>

definition ktp_go :: "nat \<Rightarrow> ktp_pc \<Rightarrow> nat option \<Rightarrow> ('s, 'd) ktp \<Rightarrow> ('s, 'd) ktp" where
  "ktp_go me pc m s = s\<lparr> kp_workers := (kp_workers s)[me := (kp_workers s ! me)\<lparr> kw_pc := pc \<rparr>], kp_mutex := m \<rparr>"

definition ktp_call :: "('s \<Rightarrow> nat \<Rightarrow> 'd option \<Rightarrow> 'd option \<times> 's) \<Rightarrow> nat \<Rightarrow> ('s, 'd) ktp \<Rightarrow> ('s, 'd) ktp" where
  "ktp_call func me s =
     (let w = kp_workers s ! me
      in case func (kp_shared s) (kw_step w) (if kw_step w \<noteq> 0 then kw_data w else None) of
           (d, sh) \<Rightarrow> s\<lparr> kp_workers := (kp_workers s)[me := w\<lparr> kw_data := d, kw_pc := PRelock \<rparr>], kp_shared := sh,
             kp_calls := kp_calls s @ [(kw_step w, kw_index w)] \<rparr>)"

definition ktp_update :: "nat \<Rightarrow> nat \<Rightarrow> ('s, 'd) ktp \<Rightarrow> ('s, 'd) ktp" where
  "ktp_update S me s =
     (let w = kp_workers s ! me; k = next_step S w;
          w' = w\<lparr> kw_step := k, kw_index := if k = 0 then kp_index s else kw_index w, kw_pc := PLeave \<rparr>
      in s\<lparr> kp_workers := cond_broadcast ((kp_workers s)[me := w']), kp_index := if k = 0 then Suc (kp_index s) else kp_index s \<rparr>)"

text \<open>The next step of worker \<open>me\<close>, if it has one.\<close>

definition ktp_worker :: "('s \<Rightarrow> nat \<Rightarrow> 'd option \<Rightarrow> 'd option \<times> 's) \<Rightarrow> nat \<Rightarrow> nat \<Rightarrow> ('s, 'd) ktp \<Rightarrow> ('s, 'd) ktp option" where
  "ktp_worker func S me s =
     (let w = kp_workers s ! me; lock = (\<lambda>pc. if kp_mutex s = None then Some (ktp_go me pc (Some me) s) else None)
      in case kw_pc w of
           PLoop \<Rightarrow> Some (ktp_go me (if kw_step w < S then PLock else PExit) (kp_mutex s) s)
         | PLock \<Rightarrow> lock PTest
         | PTest \<Rightarrow> Some (if ktp_blocked me (kp_workers s) then ktp_go me PWait None s else ktp_go me PGo (kp_mutex s) s)
         | PWoken \<Rightarrow> lock PTest
         | PGo \<Rightarrow> Some (ktp_go me PCall None s)
         | PCall \<Rightarrow> Some (ktp_call func me s)
         | PRelock \<Rightarrow> lock PUpdate
         | PUpdate \<Rightarrow> Some (ktp_update S me s)
         | PLeave \<Rightarrow> Some (ktp_go me PLoop None s)
         | _ \<Rightarrow> None)"

section \<open>The pipeline\<close>

definition ktp_threads :: "int \<Rightarrow> nat" where
  "ktp_threads n_threads = (if n_threads < 1 then 1 else nat n_threads)"

definition ktp_init :: "nat \<Rightarrow> 's \<Rightarrow> ('s, 'd) ktp" where
  "ktp_init n sh = \<lparr> kp_main = Spawning 0, kp_index = n, kp_mutex = None,
     kp_workers = map (\<lambda>i. \<lparr> kw_step = 0, kw_index = i, kw_data = None, kw_pc = PUnborn \<rparr>) [0..<n], kp_shared = sh, kp_calls = [] \<rparr>"

inductive ktp_step :: "('s \<Rightarrow> nat \<Rightarrow> 'd option \<Rightarrow> 'd option \<times> 's) \<Rightarrow> nat \<Rightarrow> nat \<Rightarrow> ('s, 'd) ktp \<Rightarrow> ('s, 'd) ktp \<Rightarrow> bool"
  for func n S where
  spawn: "kp_main s = Spawning k \<Longrightarrow> k < n \<Longrightarrow>
    ktp_step func n S s ((ktp_go k PLoop (kp_mutex s) s)\<lparr> kp_main := Spawning (Suc k) \<rparr>)"
| spawned: "kp_main s = Spawning n \<Longrightarrow> ktp_step func n S s (s\<lparr> kp_main := Joining_at 0 \<rparr>)"
| joined: "kp_main s = Joining_at k \<Longrightarrow> k < n \<Longrightarrow> kw_pc (kp_workers s ! k) = PExit \<Longrightarrow>
    ktp_step func n S s (s\<lparr> kp_main := Joining_at (Suc k) \<rparr>)"
| work: "i < n \<Longrightarrow> ktp_worker func S i s = Some t \<Longrightarrow> ktp_step func n S s t"

text \<open>Steps with spurious wake-ups.\<close>

inductive ktp_any :: "('s \<Rightarrow> nat \<Rightarrow> 'd option \<Rightarrow> 'd option \<times> 's) \<Rightarrow> nat \<Rightarrow> nat \<Rightarrow> ('s, 'd) ktp \<Rightarrow> ('s, 'd) ktp \<Rightarrow> bool"
  for func n S where
  step: "ktp_step func n S s t \<Longrightarrow> ktp_any func n S s t"
| spurious: "i < n \<Longrightarrow> kw_pc (kp_workers s ! i) = PWait \<Longrightarrow> ktp_any func n S s (ktp_go i PWoken (kp_mutex s) s)"

definition ktp_returned :: "nat \<Rightarrow> ('s, 'd) ktp \<Rightarrow> bool" where
  "ktp_returned n s \<longleftrightarrow> kp_main s = Joining_at n"

section \<open>The invariant of the synchronisation\<close>

definition holds_mutex :: "ktp_pc \<Rightarrow> bool" where
  "holds_mutex pc \<longleftrightarrow> pc = PTest \<or> pc = PGo \<or> pc = PUpdate \<or> pc = PLeave"

definition admitted :: "ktp_pc \<Rightarrow> bool" where
  "admitted pc \<longleftrightarrow> pc = PGo \<or> pc = PCall \<or> pc = PRelock \<or> pc = PUpdate"

definition worker_ok :: "nat \<Rightarrow> nat \<Rightarrow> 'd ktp_worker_t list \<Rightarrow> bool" where
  "worker_ok S i ws \<longleftrightarrow>
     kw_step (ws ! i) \<le> S \<and>
     (kw_pc (ws ! i) = PExit \<longrightarrow> kw_step (ws ! i) = S) \<and>
     (kw_pc (ws ! i) = PWait \<longrightarrow> ktp_blocked i ws) \<and>
     (kw_pc (ws ! i) \<in> {PLock, PTest, PWait, PWoken, PGo, PCall, PRelock, PUpdate} \<longrightarrow> kw_step (ws ! i) < S) \<and>
     (admitted (kw_pc (ws ! i)) \<longrightarrow> \<not> ktp_blocked i ws)"

definition ktp_main_ok :: "nat \<Rightarrow> ktf_main \<Rightarrow> 'd ktp_worker_t list \<Rightarrow> bool" where
  "ktp_main_ok n m ws \<longleftrightarrow>
     (case m of
        Spawning k \<Rightarrow> k \<le> n \<and> (\<forall>i<n. kw_pc (ws ! i) = PUnborn \<longleftrightarrow> k \<le> i)
      | Joining_at k \<Rightarrow> k \<le> n \<and> (\<forall>i<n. kw_pc (ws ! i) \<noteq> PUnborn) \<and> (\<forall>i<k. kw_pc (ws ! i) = PExit))"

definition ktp_inv :: "nat \<Rightarrow> nat \<Rightarrow> ('s, 'd) ktp \<Rightarrow> bool" where
  "ktp_inv n S s \<longleftrightarrow> length (kp_workers s) = n \<and> distinct (map kw_index (kp_workers s)) \<and>
     (\<forall>w\<in>set (kp_workers s). kw_index w < kp_index s) \<and>
     (\<forall>i<n. (kp_mutex s = Some i) = holds_mutex (kw_pc (kp_workers s ! i))) \<and> (\<forall>i. kp_mutex s = Some i \<longrightarrow> i < n) \<and>
     (\<forall>i<n. worker_ok S i (kp_workers s)) \<and> ktp_main_ok n (kp_main s) (kp_workers s)"

text \<open>A change of places leaves steps and indices.\<close>

lemma ktp_go_simps [simp]:
  "kp_main (ktp_go i pc m s) = kp_main s" "kp_index (ktp_go i pc m s) = kp_index s" "kp_mutex (ktp_go i pc m s) = m"
  "kp_shared (ktp_go i pc m s) = kp_shared s" "kp_calls (ktp_go i pc m s) = kp_calls s"
  "kp_workers (ktp_go i pc m s) = (kp_workers s)[i := (kp_workers s ! i)\<lparr> kw_pc := pc \<rparr>]"
  by (simp_all add: ktp_go_def)

lemma go_nth:
  "i < length ws \<Longrightarrow> ws[me := (ws ! me)\<lparr> kw_pc := pc \<rparr>] ! i = (if i = me then (ws ! me)\<lparr> kw_pc := pc \<rparr> else ws ! i)"
  by (simp add: nth_list_update)

lemma map_update_same: "f x = f (xs ! i) \<Longrightarrow> map f (xs[i := x]) = map f xs"
  by (cases "i < length xs") (auto simp: map_update intro!: nth_equalityI simp: nth_list_update)

lemma go_same:
  "map kw_index (ws[me := (ws ! me)\<lparr> kw_pc := pc \<rparr>]) = map kw_index ws"
  "map kw_step (ws[me := (ws ! me)\<lparr> kw_pc := pc \<rparr>]) = map kw_step ws"
  "map kw_data (ws[me := (ws ! me)\<lparr> kw_pc := pc \<rparr>]) = map kw_data ws"
  by (rule map_update_same, simp)+

text \<open>Blocking depends on steps and indices only.\<close>

lemma blocked_cong:
  assumes "map kw_index ws' = map kw_index ws" "map kw_step ws' = map kw_step ws" "i < length ws"
  shows "ktp_blocked i ws' = ktp_blocked i ws"
proof -
  have l: "length ws' = length ws" using map_eq_imp_length_eq [OF assms(1)] .
  have "kw_index (ws' ! j) = kw_index (ws ! j)" "kw_step (ws' ! j) = kw_step (ws ! j)" if "j < length ws" for j
    using assms(1,2) that l by (metis nth_map)+
  then show ?thesis using assms(3) l by (auto simp: ktp_blocked_def)
qed

lemma blocked_go [simp]:
  "i < length ws \<Longrightarrow> ktp_blocked i (ws[me := (ws ! me)\<lparr> kw_pc := pc \<rparr>]) = ktp_blocked i ws"
  by (rule blocked_cong) (simp_all add: go_same)

lemma ktp_inv_init: "ktp_inv n S (ktp_init n sh)"
  by (auto simp: ktp_inv_def ktp_init_def holds_mutex_def worker_ok_def admitted_def ktp_main_ok_def comp_def)

text \<open>A move of one worker that keeps the invariant.\<close>

lemma ktp_inv_go:
  assumes inv: "ktp_inv n S s" and i: "i < n" and pc: "worker_ok S i ((kp_workers s)[i := (kp_workers s ! i)\<lparr> kw_pc := pc \<rparr>])"
    and m: "m = (if holds_mutex pc then Some i else if holds_mutex (kw_pc (kp_workers s ! i)) then None else kp_mutex s)"
      "holds_mutex pc \<Longrightarrow> kp_mutex s = None \<or> kp_mutex s = Some i"
    and main: "pc \<noteq> PUnborn" "kw_pc (kp_workers s ! i) \<noteq> PUnborn" "kw_pc (kp_workers s ! i) \<noteq> PExit"
  shows "ktp_inv n S (ktp_go i pc m s)"
proof -
  have len: "length (kp_workers s) = n" using inv by (simp add: ktp_inv_def)
  have ok: "worker_ok S j (kp_workers (ktp_go i pc m s))" if "j < n" for j
    using inv pc that len by (cases "j = i") (auto simp: ktp_inv_def worker_ok_def)
  have own: "(kp_mutex s = Some j) = holds_mutex (kw_pc (kp_workers s ! j))" if "j < n" for j
    using inv that by (simp add: ktp_inv_def)
  have mu: "(m = Some j) = holds_mutex (kw_pc (kp_workers (ktp_go i pc m s) ! j))" if "j < n" for j
    using that len i m own [OF i] own [OF that] by (cases "j = i") (auto simp: nth_list_update)
  have "ktp_main_ok n (kp_main s) (kp_workers (ktp_go i pc m s))"
    using inv i len main by (auto simp: ktp_inv_def ktp_main_ok_def nth_list_update split: ktf_main.splits)
  moreover have "distinct (map kw_index (kp_workers (ktp_go i pc m s)))" using inv by (simp add: ktp_inv_def go_same)
  moreover have "\<forall>w\<in>set (kp_workers (ktp_go i pc m s)). kw_index w < kp_index s"
    using inv i len by (auto simp: ktp_inv_def dest!: set_update_subset_insert [THEN subsetD])
  moreover have "j < n" if "m = Some j" for j
    using inv that m i by (auto simp: ktp_inv_def split: if_splits)
  ultimately show ?thesis using len ok mu by (simp add: ktp_inv_def)
qed

lemma ktp_inv_call:
  assumes inv: "ktp_inv n S s" and i: "i < n" and pc: "kw_pc (kp_workers s ! i) = PCall"
  shows "ktp_inv n S (ktp_call func i s)"
proof -
  obtain d sh where f: "func (kp_shared s) (kw_step (kp_workers s ! i)) (if kw_step (kp_workers s ! i) \<noteq> 0 then kw_data (kp_workers s ! i) else None) = (d, sh)"
    by fastforce
  let ?w = "(kp_workers s ! i)\<lparr> kw_data := d, kw_pc := PRelock \<rparr>"
  have len: "length (kp_workers s) = n" using inv by (simp add: ktp_inv_def)
  have c: "ktp_call func i s = s\<lparr> kp_workers := (kp_workers s)[i := ?w], kp_shared := sh,
      kp_calls := kp_calls s @ [(kw_step (kp_workers s ! i), kw_index (kp_workers s ! i))] \<rparr>"
    using f by (simp add: ktp_call_def Let_def)
  have same: "map kw_index ((kp_workers s)[i := ?w]) = map kw_index (kp_workers s)" "map kw_step ((kp_workers s)[i := ?w]) = map kw_step (kp_workers s)"
    by (rule map_update_same, simp)+
  have "worker_ok S j ((kp_workers s)[i := ?w])" if "j < n" for j
    using inv that len pc blocked_cong [OF same, of j]
    by (cases "j = i") (auto simp: ktp_inv_def worker_ok_def admitted_def)
  moreover have "ktp_main_ok n (kp_main s) ((kp_workers s)[i := ?w])"
    using inv i len pc by (auto simp: ktp_inv_def ktp_main_ok_def nth_list_update split: ktf_main.splits)
  moreover have "(kp_mutex s = Some j) = holds_mutex (kw_pc ((kp_workers s)[i := ?w] ! j))" if "j < n" for j
    using inv that len i pc by (cases "j = i") (auto simp: ktp_inv_def holds_mutex_def)
  moreover have "\<forall>w\<in>set ((kp_workers s)[i := ?w]). kw_index w < kp_index s"
    using inv i len by (auto simp: ktp_inv_def dest!: set_update_subset_insert [THEN subsetD])
  ultimately show ?thesis using inv len by (simp add: ktp_inv_def c same)
qed

text \<open>
  The update of a worker that was admitted: its step grows or its chunk is a new one, so that it blocks nobody it did not
  block before.
\<close>

lemma broadcast_nth [simp]:
  "length (cond_broadcast ws) = length ws"
  "i < length ws \<Longrightarrow> cond_broadcast ws ! i = (if kw_pc (ws ! i) = PWait then (ws ! i)\<lparr> kw_pc := PWoken \<rparr> else ws ! i)"
  by (simp_all add: cond_broadcast_def)

lemma broadcast_same [simp]:
  "map kw_index (cond_broadcast ws) = map kw_index ws" "map kw_step (cond_broadcast ws) = map kw_step ws"
  "map kw_data (cond_broadcast ws) = map kw_data ws"
  by (simp_all add: cond_broadcast_def)

lemma next_step_cases:
  assumes "kw_step w < S"
  obtains (new) "next_step S w = 0" "Suc (kw_step w) = S" | (stop) "next_step S w = S" "Suc (kw_step w) < S" "kw_data w = None"
    | (further) "next_step S w = Suc (kw_step w)" "Suc (kw_step w) < S" "kw_data w \<noteq> None"
  using assms by (cases "Suc (kw_step w) = S"; cases "kw_data w") (auto simp: next_step_def)

lemma ktp_inv_update:
  assumes inv: "ktp_inv n S s" and i: "i < n" and pc: "kw_pc (kp_workers s ! i) = PUpdate"
  shows "ktp_inv n S (ktp_update S i s)"
proof -
  let ?w = "kp_workers s ! i" let ?k = "next_step S ?w"
  let ?v = "?w\<lparr> kw_step := ?k, kw_index := if ?k = 0 then kp_index s else kw_index ?w, kw_pc := PLeave \<rparr>"
  let ?ws = "(kp_workers s)[i := ?v]"
  have len: "length (kp_workers s) = n" and idx: "kw_index (kp_workers s ! j) < kp_index s" if "j < n" for j
    using inv that by (auto simp: ktp_inv_def)
  have lt: "kw_step ?w < S" using inv i pc by (auto simp: ktp_inv_def worker_ok_def)
  have u: "ktp_update S i s = s\<lparr> kp_workers := cond_broadcast ?ws, kp_index := if ?k = 0 then Suc (kp_index s) else kp_index s \<rparr>"
    by (simp add: ktp_update_def Let_def)
  have kS: "?k \<le> S" "kw_step ?w < ?k \<or> ?k = 0" using lt by (cases rule: next_step_cases; auto)+
  have len: "length (kp_workers s) = n" using inv by (simp add: ktp_inv_def)
  have nb: "\<not> ktp_blocked j ?ws" if j: "j < n" "j \<noteq> i" "\<not> ktp_blocked j (kp_workers s)" for j
  proof
    assume "ktp_blocked j ?ws"
    then obtain x where x: "x < n" "x \<noteq> j" "kw_step (?ws ! x) \<le> kw_step (kp_workers s ! j)" "kw_index (?ws ! x) < kw_index (kp_workers s ! j)"
      using j len by (auto simp: ktp_blocked_def)
    have "x = i" using j x len by (cases "x = i") (auto simp: ktp_blocked_def)
    then have "kw_step ?w \<le> kw_step (kp_workers s ! j)" "kw_index ?w < kw_index (kp_workers s ! j)"
      using x idx [OF j(1)] kS len i by (auto split: if_splits)
    then show False using j i len by (auto simp: ktp_blocked_def)
  qed
  have bc: "ktp_blocked j (cond_broadcast ?ws) = ktp_blocked j ?ws" if "j < n" for j
    using that len by (intro blocked_cong) simp_all
  have "worker_ok S j (cond_broadcast ?ws)" if "j < n" for j
  proof (cases "j = i")
    case True
    then show ?thesis using that len kS by (auto simp: worker_ok_def admitted_def)
  next
    case False
    then show ?thesis using inv that len nb [OF that False] bc [OF that] by (auto simp: ktp_inv_def worker_ok_def admitted_def)
  qed
  moreover have "ktp_main_ok n (kp_main s) (cond_broadcast ?ws)"
    using inv i len pc by (auto simp: ktp_inv_def ktp_main_ok_def nth_list_update split: ktf_main.splits)
  moreover have "(kp_mutex s = Some j) = holds_mutex (kw_pc (cond_broadcast ?ws ! j))" if "j < n" for j
    using inv that len i pc by (cases "j = i") (auto simp: ktp_inv_def holds_mutex_def)
  moreover have "distinct (map kw_index ?ws)"
  proof (cases "?k = 0")
    case True
    have "kp_index s \<notin> set (map kw_index (kp_workers s))" using inv by (auto simp: ktp_inv_def)
    then show ?thesis using inv i len True by (auto simp: ktp_inv_def map_update distinct_list_update dest: in_set_butlastD)
  next
    case False
    then have "map kw_index ?ws = map kw_index (kp_workers s)" by (intro map_update_same) simp
    then show ?thesis using inv by (simp add: ktp_inv_def)
  qed
  moreover have "kw_index (cond_broadcast ?ws ! j) < (if ?k = 0 then Suc (kp_index s) else kp_index s)" if "j < n" for j
    using idx [OF that] that len by (cases "j = i") (auto simp: less_Suc_eq)
  then have "\<forall>w\<in>set (cond_broadcast ?ws). kw_index w < (if ?k = 0 then Suc (kp_index s) else kp_index s)"
    using len by (auto simp: in_set_conv_nth simp del: broadcast_nth(2))
  ultimately show ?thesis using inv len by (simp add: ktp_inv_def u)
qed

lemma ktp_inv_worker:
  assumes inv: "ktp_inv n S s" and i: "i < n" and step: "ktp_worker func S i s = Some t"
  shows "ktp_inv n S t"
proof -
  let ?w = "kp_workers s ! i"
  have len: "length (kp_workers s) = n" using inv by (simp add: ktp_inv_def)
  have ok: "worker_ok S i (kp_workers s)" and own: "(kp_mutex s = Some i) = holds_mutex (kw_pc ?w)" using inv i by (auto simp: ktp_inv_def)
  note go = ktp_inv_go [OF inv i] and defs = ktp_worker_def Let_def worker_ok_def holds_mutex_def admitted_def
  show ?thesis
  proof (cases "kw_pc ?w")
    case PCall
    then show ?thesis using step ktp_inv_call [OF inv i, of func] by (simp add: ktp_worker_def Let_def)
  next
    case PUpdate
    then show ?thesis using step ktp_inv_update [OF inv i] by (simp add: ktp_worker_def Let_def)
  next
    case PLoop
    then show ?thesis using step go [of PLock "kp_mutex s"] go [of PExit "kp_mutex s"] ok own len i by (auto simp: defs split: if_splits)
  next
    case PTest
    then show ?thesis using step go [of PWait None] go [of PGo "kp_mutex s"] ok own len i by (auto simp: defs split: if_splits)
  next
    case PLock
    then show ?thesis using step go [of PTest "Some i"] ok len i by (auto simp: defs split: if_splits)
  next
    case PWoken
    then show ?thesis using step go [of PTest "Some i"] ok len i by (auto simp: defs split: if_splits)
  next
    case PRelock
    then show ?thesis using step go [of PUpdate "Some i"] ok len i by (auto simp: defs split: if_splits)
  next
    case PGo
    then show ?thesis using step go [of PCall None] ok own len i by (auto simp: defs split: if_splits)
  next
    case PLeave
    then show ?thesis using step go [of PLoop None] ok own len i by (auto simp: defs split: if_splits)
  qed (use step in \<open>simp_all add: ktp_worker_def Let_def\<close>)
qed

lemma ktp_inv_step:
  assumes "ktp_inv n S s" "ktp_any func n S s t"
  shows "ktp_inv n S t"
  using assms(2)
proof cases
  case step
  from this show ?thesis
  proof cases
    case (spawn k)
    let ?ws = "(kp_workers s)[k := (kp_workers s ! k)\<lparr> kw_pc := PLoop \<rparr>]"
    have len: "length (kp_workers s) = n" using assms(1) by (simp add: ktp_inv_def)
    have pc: "kw_pc (kp_workers s ! k) = PUnborn" using assms(1) spawn by (auto simp: ktp_inv_def ktp_main_ok_def)
    have "worker_ok S j ?ws" if "j < n" for j
      using assms(1) that len spawn by (cases "j = k") (auto simp: ktp_inv_def worker_ok_def admitted_def)
    moreover have "ktp_main_ok n (Spawning (Suc k)) ?ws"
      using assms(1) spawn len pc by (auto simp: ktp_inv_def ktp_main_ok_def nth_list_update)
    moreover have "(kp_mutex s = Some j) = holds_mutex (kw_pc (?ws ! j))" if "j < n" for j
      using assms(1) that len spawn pc by (cases "j = k") (auto simp: ktp_inv_def holds_mutex_def)
    moreover have "\<forall>w\<in>set ?ws. kw_index w < kp_index s"
      using assms(1) spawn len by (auto simp: ktp_inv_def dest!: set_update_subset_insert [THEN subsetD])
    ultimately show ?thesis using assms(1) spawn len by (simp add: ktp_inv_def go_same)
  next
    case spawned
    then show ?thesis using assms(1) by (auto simp: ktp_inv_def ktp_main_ok_def)
  next
    case (joined k)
    then show ?thesis using assms(1) by (auto simp: ktp_inv_def ktp_main_ok_def less_Suc_eq)
  next
    case (work i)
    then show ?thesis using ktp_inv_worker [OF assms(1)] by blast
  qed
next
  case (spurious i)
  then show ?thesis
    using assms(1) ktp_inv_go [OF assms(1), of i PWoken "kp_mutex s"] by (auto simp: ktp_inv_def worker_ok_def holds_mutex_def admitted_def)
qed

section \<open>The order of the calls\<close>

text \<open>Step, chunk and data of a worker, and whether the call of the step has been made.\<close>

definition called :: "'d ktp_worker_t \<Rightarrow> bool" where
  "called w \<longleftrightarrow> kw_pc w = PRelock \<or> kw_pc w = PUpdate"

definition worker_view :: "'d ktp_worker_t \<Rightarrow> nat \<times> nat \<times> bool \<times> 'd option" where
  "worker_view w = (kw_step w, kw_index w, called w, kw_data w)"

definition stage_log :: "nat \<Rightarrow> (nat \<times> nat) list \<Rightarrow> nat list" where
  "stage_log k calls = map snd (filter (\<lambda>c. fst c = k) calls)"

definition chunk_log :: "nat \<Rightarrow> (nat \<times> nat) list \<Rightarrow> nat list" where
  "chunk_log a calls = map fst (filter (\<lambda>c. snd c = a) calls)"

definition calls_ok :: "nat \<Rightarrow> (nat \<times> nat \<times> bool \<times> 'd option) set \<Rightarrow> nat \<Rightarrow> (nat \<times> nat) list \<Rightarrow> bool" where
  "calls_ok S V N calls \<longleftrightarrow>
     (\<forall>(k, a)\<in>set calls. k < S \<and> a < N \<and> (\<forall>(st, ix, c, d)\<in>V. ix < a \<longrightarrow> k < st)) \<and>
     (\<forall>(st, ix, c, d)\<in>V. st < S \<longrightarrow> (\<forall>k. (k, ix) \<in> set calls \<longleftrightarrow> k < st + (if c then 1 else 0))) \<and>
     (\<forall>a<N. (\<forall>(st, ix, c, d)\<in>V. ix \<noteq> a) \<longrightarrow> (\<forall>k<S. (k, a) \<in> set calls)) \<and>
     (\<forall>k. sorted_wrt (<) (stage_log k calls)) \<and> (\<forall>a. \<exists>m. chunk_log a calls = [0..<m]) \<and>
     (\<forall>(st, ix, c, d)\<in>V. 0 < st \<longrightarrow> (0, ix) \<in> set calls)"

definition worker_views :: "('s, 'd) ktp \<Rightarrow> (nat \<times> nat \<times> bool \<times> 'd option) set" where
  "worker_views s = worker_view ` set (kp_workers s)"

lemma worker_view_simps [simp]:
  "worker_view (w\<lparr> kw_data := d, kw_pc := PRelock \<rparr>) = (kw_step w, kw_index w, True, d)"
  "worker_view (w\<lparr> kw_step := k, kw_index := a, kw_pc := PLeave \<rparr>) = (k, a, False, kw_data w)"
  "worker_view (w\<lparr> kw_pc := pc \<rparr>) = (kw_step w, kw_index w, pc = PRelock \<or> pc = PUpdate, kw_data w)"
  by (simp_all add: worker_view_def called_def)

lemma stage_log_append: "stage_log k (calls @ [(j, a)]) = stage_log k calls @ (if j = k then [a] else [])"
  by (simp add: stage_log_def)

lemma chunk_log_append: "chunk_log a (calls @ [(k, b)]) = chunk_log a calls @ (if a = b then [k] else [])"
  by (simp add: chunk_log_def)

lemma set_chunk_log: "set (chunk_log a calls) = {k. (k, a) \<in> set calls}"
  by (auto simp: chunk_log_def image_iff)

lemma set_stage_log: "a \<in> set (stage_log k calls) \<longleftrightarrow> (k, a) \<in> set calls"
  by (auto simp: stage_log_def image_iff)

lemma views_go:
  assumes "i < length (kp_workers s)" "(pc = PRelock \<or> pc = PUpdate) = called (kp_workers s ! i)"
  shows "worker_views (ktp_go i pc m s) = worker_views s"
proof -
  have "map worker_view (kp_workers (ktp_go i pc m s)) = map worker_view (kp_workers s)"
    unfolding ktp_go_simps by (rule map_update_same) (use assms in \<open>simp add: worker_view_def called_def\<close>)
  then show ?thesis unfolding worker_views_def by (metis list.set_map)
qed

text \<open>The views after one worker has changed; the others have other indices.\<close>

lemma views_update:
  assumes "distinct (map kw_index ws)" "i < length ws"
  shows "worker_view ` set (ws[i := w]) = insert (worker_view w) {v \<in> worker_view ` set ws. fst (snd v) \<noteq> kw_index (ws ! i)}"
proof -
  have "inj_on kw_index (set ws)" using assms(1) by (simp add: distinct_map)
  then have "{v \<in> set ws. kw_index v \<noteq> kw_index (ws ! i)} = set ws - {ws ! i}" using assms(2) by (auto dest: inj_onD)
  then have "set (ws[i := w]) = insert w {v \<in> set ws. kw_index v \<noteq> kw_index (ws ! i)}"
    using assms set_update_distinct [of ws i w] by (simp add: distinct_map)
  then show ?thesis by (auto simp: worker_view_def)
qed

lemma views_index: "v \<in> worker_views s \<Longrightarrow> ktp_inv n S s \<Longrightarrow> fst (snd v) < kp_index s"
  by (auto simp: ktp_inv_def worker_views_def worker_view_def)

text \<open>A step is a call, an update, or leaves everything but the places.\<close>

lemma ktp_any_cases:
  assumes inv: "ktp_inv n S s" and step: "ktp_any func n S s t"
  obtains (quiet) "worker_views t = worker_views s" "kp_index t = kp_index s" "kp_calls t = kp_calls s" "kp_shared t = kp_shared s"
    | (call) i where "i < n" "kw_pc (kp_workers s ! i) = PCall" "t = ktp_call func i s"
    | (update) i where "i < n" "kw_pc (kp_workers s ! i) = PUpdate" "t = ktp_update S i s"
  using step
proof cases
  case step
  from this show thesis
  proof cases
    case (spawn k)
    then have "kw_pc (kp_workers s ! k) = PUnborn" using inv by (auto simp: ktp_inv_def ktp_main_ok_def)
    then show thesis
      using quiet spawn inv views_go [of k s PLoop "kp_mutex s"] by (simp add: called_def ktp_inv_def worker_views_def)
  next
    case spawned
    then show thesis using quiet by (simp add: worker_views_def)
  next
    case (joined k)
    then show thesis using quiet by (simp add: worker_views_def)
  next
    case (work i)
    have len: "i < length (kp_workers s)" using inv work by (simp add: ktp_inv_def)
    note v = views_go [OF len]
    show thesis
    proof (cases "kw_pc (kp_workers s ! i)")
      case PCall
      then show thesis using call [of i] work by (simp add: ktp_worker_def Let_def)
    next
      case PUpdate
      then show thesis using update [of i] work by (simp add: ktp_worker_def Let_def)
    qed (use work v quiet in \<open>auto simp: ktp_worker_def Let_def called_def split: if_splits\<close>)
  qed
next
  case (spurious i)
  then show thesis using quiet inv views_go [of i s PWoken "kp_mutex s"] by (simp add: called_def ktp_inv_def)
qed

text \<open>The views after a call and after an update.\<close>

lemma ktp_call_views:
  assumes inv: "ktp_inv n S s" and i: "i < n" and w: "w = kp_workers s ! i"
    and f: "func (kp_shared s) (kw_step w) (if kw_step w \<noteq> 0 then kw_data w else None) = (d, sh)"
  shows "worker_views (ktp_call func i s) =
      insert (kw_step w, kw_index w, True, d) {v \<in> worker_views s. fst (snd v) \<noteq> kw_index w}"
    "kp_index (ktp_call func i s) = kp_index s" "kp_shared (ktp_call func i s) = sh"
    "kp_calls (ktp_call func i s) = kp_calls s @ [(kw_step w, kw_index w)]"
  using f [unfolded w] views_update [of "kp_workers s" i "(kp_workers s ! i)\<lparr> kw_data := d, kw_pc := PRelock \<rparr>"] inv i
  unfolding w by (simp_all add: ktp_call_def Let_def ktp_inv_def worker_views_def)

lemma broadcast_views: "worker_view ` set (cond_broadcast ws) = worker_view ` set ws"
proof -
  have "worker_view (if kw_pc w = PWait then w\<lparr> kw_pc := PWoken \<rparr> else w) = worker_view w" for w :: "'a ktp_worker_t"
    by (simp add: worker_view_def called_def)
  then have "(worker_view \<circ> (\<lambda>w. if kw_pc w = PWait then w\<lparr> kw_pc := PWoken \<rparr> else w)) = (worker_view :: 'a ktp_worker_t \<Rightarrow> _)"
    by (simp add: fun_eq_iff del: worker_view_simps)
  then show ?thesis by (simp only: cond_broadcast_def set_map image_comp)
qed

lemma ktp_update_views:
  assumes inv: "ktp_inv n S s" and i: "i < n" and w: "w = kp_workers s ! i"
  shows "worker_views (ktp_update S i s) =
      insert (next_step S w, if next_step S w = 0 then kp_index s else kw_index w, False, kw_data w)
        {v \<in> worker_views s. fst (snd v) \<noteq> kw_index w}"
    "kp_index (ktp_update S i s) = (if next_step S w = 0 then Suc (kp_index s) else kp_index s)"
    "kp_calls (ktp_update S i s) = kp_calls s" "kp_shared (ktp_update S i s) = kp_shared s"
  using views_update [of "kp_workers s" i "(kp_workers s ! i)\<lparr> kw_step := next_step S (kp_workers s ! i),
      kw_index := if next_step S (kp_workers s ! i) = 0 then kp_index s else kw_index (kp_workers s ! i), kw_pc := PLeave \<rparr>"] inv i
  unfolding w by (simp_all add: ktp_update_def Let_def ktp_inv_def broadcast_views worker_views_def)

text \<open>What the worker that calls knows of the others.\<close>

lemma not_blocked_views:
  assumes inv: "ktp_inv n S s" and i: "i < n" and nb: "\<not> ktp_blocked i (kp_workers s)"
    and v: "(st, ix, c, d) \<in> worker_views s" "ix < kw_index (kp_workers s ! i)"
  shows "kw_step (kp_workers s ! i) < st"
  using nb v inv i by (auto simp: ktp_blocked_def worker_views_def worker_view_def ktp_inv_def in_set_conv_nth not_le)

lemma own_view:
  assumes "ktp_inv n S s" "i < n"
  shows "worker_view (kp_workers s ! i) \<in> worker_views s"
  using assms by (simp add: ktp_inv_def worker_views_def)

lemma same_view:
  assumes inv: "ktp_inv n S s" and i: "i < n" and v: "(st, ix, c, d) \<in> worker_views s" "ix = kw_index (kp_workers s ! i)"
  shows "(st, ix, c, d) = worker_view (kp_workers s ! i)"
proof -
  obtain w where w: "w \<in> set (kp_workers s)" "(st, ix, c, d) = worker_view w" using v(1) by (auto simp: worker_views_def)
  have "inj_on kw_index (set (kp_workers s))" using inv by (simp add: ktp_inv_def distinct_map)
  moreover have "kw_index w = kw_index (kp_workers s ! i)" "kp_workers s ! i \<in> set (kp_workers s)"
    using w(2) v(2) inv i by (simp_all add: worker_view_def ktp_inv_def)
  ultimately show ?thesis using w by (auto dest: inj_onD)
qed

definition ktp_hist :: "nat \<Rightarrow> nat \<Rightarrow> ('s, 'd) ktp \<Rightarrow> bool" where
  "ktp_hist n S s \<longleftrightarrow> ktp_inv n S s \<and> calls_ok S (worker_views s) (kp_index s) (kp_calls s)"

lemma calls_okD:
  assumes "calls_ok S V N calls"
  shows "(k, a) \<in> set calls \<Longrightarrow> k < S \<and> a < N" "(k, a) \<in> set calls \<Longrightarrow> (st, ix, c, d) \<in> V \<Longrightarrow> ix < a \<Longrightarrow> k < st"
    "(st, ix, c, d) \<in> V \<Longrightarrow> st < S \<Longrightarrow> (k, ix) \<in> set calls \<longleftrightarrow> k < st + (if c then 1 else 0)"
    "a < N \<Longrightarrow> (\<And>st ix c d. (st, ix, c, d) \<in> V \<Longrightarrow> ix \<noteq> a) \<Longrightarrow> k < S \<Longrightarrow> (k, a) \<in> set calls" "sorted_wrt (<) (stage_log k calls)"
    "\<exists>m. chunk_log a calls = [0..<m]" "(st, ix, c, d) \<in> V \<Longrightarrow> 0 < st \<Longrightarrow> (0, ix) \<in> set calls"
proof -
  note ok = assms [unfolded calls_ok_def]
  note first = bspec [OF conjunct1 [OF ok], of "(k, a)"]
  show "(k, a) \<in> set calls \<Longrightarrow> k < S \<and> a < N" using first by simp
  show "(k, a) \<in> set calls \<Longrightarrow> (st, ix, c, d) \<in> V \<Longrightarrow> ix < a \<Longrightarrow> k < st" using first by fastforce
  show "(st, ix, c, d) \<in> V \<Longrightarrow> st < S \<Longrightarrow> (k, ix) \<in> set calls \<longleftrightarrow> k < st + (if c then 1 else 0)"
    using bspec [OF conjunct1 [OF conjunct2 [OF ok]], of "(st, ix, c, d)"] by simp
  show "a < N \<Longrightarrow> (\<And>st ix c d. (st, ix, c, d) \<in> V \<Longrightarrow> ix \<noteq> a) \<Longrightarrow> k < S \<Longrightarrow> (k, a) \<in> set calls"
    using spec [OF conjunct1 [OF conjunct2 [OF conjunct2 [OF ok]]], of a] by fast
  show "sorted_wrt (<) (stage_log k calls)" "\<exists>m. chunk_log a calls = [0..<m]" using ok by simp_all
  show "(st, ix, c, d) \<in> V \<Longrightarrow> 0 < st \<Longrightarrow> (0, ix) \<in> set calls"
    using bspec [OF conjunct2 [OF conjunct2 [OF conjunct2 [OF conjunct2 [OF conjunct2 [OF ok]]]]], of "(st, ix, c, d)"] by simp
qed

lemma hist_call:
  assumes h: "ktp_hist n S s" and i: "i < n" and pc: "kw_pc (kp_workers s ! i) = PCall"
  shows "ktp_hist n S (ktp_call func i s)"
proof -
  define w where "w = kp_workers s ! i"
  have inv: "ktp_inv n S s" and c: "calls_ok S (worker_views s) (kp_index s) (kp_calls s)" using h by (auto simp: ktp_hist_def)
  note cD = calls_okD [OF c]
  obtain d sh where f: "func (kp_shared s) (kw_step w) (if kw_step w \<noteq> 0 then kw_data w else None) = (d, sh)" by fastforce
  note v = ktp_call_views [where func = func, OF inv i w_def f]
  have ok: "worker_ok S i (kp_workers s)" using inv i by (simp add: ktp_inv_def)
  have st: "kw_step w < S" and nb: "\<not> ktp_blocked i (kp_workers s)" using ok pc by (simp_all add: worker_ok_def admitted_def w_def)
  have own: "(kw_step w, kw_index w, False, kw_data w) \<in> worker_views s"
    using own_view [OF inv i] pc by (simp add: worker_view_def called_def w_def)
  have before: "(k, kw_index w) \<in> set (kp_calls s) \<longleftrightarrow> k < kw_step w" for k using cD(3) [OF own st] by simp
  have N: "kw_index w < kp_index s" using inv i by (simp add: ktp_inv_def w_def)
  have less: "a < kw_index w" if "(kw_step w, a) \<in> set (kp_calls s)" for a
    using cD(2) [OF that own] before [of "kw_step w"] that by (cases a "kw_index w" rule: linorder_cases) auto
  have "calls_ok S (worker_views (ktp_call func i s)) (kp_index s) (kp_calls s @ [(kw_step w, kw_index w)])"
    unfolding calls_ok_def
  proof (intro conjI)
    show "\<forall>(k, a)\<in>set (kp_calls s @ [(kw_step w, kw_index w)]).
        k < S \<and> a < kp_index s \<and> (\<forall>(st, ix, c, d)\<in>worker_views (ktp_call func i s). ix < a \<longrightarrow> k < st)"
      using cD(1,2) own st N not_blocked_views [OF inv i nb] by (auto simp: v(1) w_def [symmetric])
    show "\<forall>(st, ix, c, d)\<in>worker_views (ktp_call func i s). st < S \<longrightarrow>
        (\<forall>k. (k, ix) \<in> set (kp_calls s @ [(kw_step w, kw_index w)]) \<longleftrightarrow> k < st + (if c then 1 else 0))"
      using cD(3) before by (auto simp: v(1) less_Suc_eq)
    show "\<forall>a<kp_index s. (\<forall>(st, ix, c, d)\<in>worker_views (ktp_call func i s). ix \<noteq> a) \<longrightarrow>
        (\<forall>k<S. (k, a) \<in> set (kp_calls s @ [(kw_step w, kw_index w)]))"
      using cD(4) by (auto simp: v(1)) blast
    show "\<forall>k. sorted_wrt (<) (stage_log k (kp_calls s @ [(kw_step w, kw_index w)]))"
      using cD(5) less by (auto simp: stage_log_append sorted_wrt_append set_stage_log)
    show "\<forall>a. \<exists>m. chunk_log a (kp_calls s @ [(kw_step w, kw_index w)]) = [0..<m]"
    proof
      fix a
      obtain m where m: "chunk_log a (kp_calls s) = [0..<m]" using cD(6) by blast
      show "\<exists>m. chunk_log a (kp_calls s @ [(kw_step w, kw_index w)]) = [0..<m]"
      proof (cases "a = kw_index w")
        case True
        then have "{0..<m} = {k. k < kw_step w}" using set_chunk_log [of a "kp_calls s"] before unfolding m by simp
        then have "m = kw_step w" by (metis atLeast0LessThan lessThan_def lessThan_eq_iff)
        then show ?thesis using m True by (intro exI [of _ "Suc m"]) (simp add: chunk_log_append)
      qed (use m in \<open>auto simp: chunk_log_append\<close>)
    qed
    show "\<forall>(st, ix, c, d)\<in>worker_views (ktp_call func i s). 0 < st \<longrightarrow> (0, ix) \<in> set (kp_calls s @ [(kw_step w, kw_index w)])"
      using cD(7) own by (auto simp: v(1))
  qed
  then show ?thesis using ktp_inv_call [OF inv i pc, of func] v by (simp add: ktp_hist_def)
qed

lemma hist_update:
  assumes h: "ktp_hist n S s" and i: "i < n" and pc: "kw_pc (kp_workers s ! i) = PUpdate"
  shows "ktp_hist n S (ktp_update S i s)"
proof -
  define w where "w = kp_workers s ! i"
  have inv: "ktp_inv n S s" and c: "calls_ok S (worker_views s) (kp_index s) (kp_calls s)" using h by (auto simp: ktp_hist_def)
  note cD = calls_okD [OF c]
  note v = ktp_update_views [OF inv i w_def]
  have ok: "worker_ok S i (kp_workers s)" using inv i by (simp add: ktp_inv_def)
  have st: "kw_step w < S" using ok pc by (simp add: worker_ok_def w_def)
  have own: "(kw_step w, kw_index w, True, kw_data w) \<in> worker_views s"
    using own_view [OF inv i] pc by (simp add: worker_view_def called_def w_def)
  have before: "(k, kw_index w) \<in> set (kp_calls s) \<longleftrightarrow> k < Suc (kw_step w)" for k using cD(3) [OF own st] by simp
  have fresh: "(k, kp_index s) \<notin> set (kp_calls s)" for k using cD(1) by fastforce
  have "calls_ok S (worker_views (ktp_update S i s)) (kp_index (ktp_update S i s)) (kp_calls s)"
    unfolding calls_ok_def
  proof (intro conjI)
    show "\<forall>(k, a)\<in>set (kp_calls s). k < S \<and> a < kp_index (ktp_update S i s) \<and>
        (\<forall>(st, ix, c, d)\<in>worker_views (ktp_update S i s). ix < a \<longrightarrow> k < st)"
    proof (clarify, intro conjI ballI)
      fix k a assume ka: "(k, a) \<in> set (kp_calls s)"
      show "k < S" "a < kp_index (ktp_update S i s)" using cD(1) [OF ka] by (auto simp: v(2))
      fix x assume "x \<in> worker_views (ktp_update S i s)"
      then show "case x of (st, ix, c, d) \<Rightarrow> ix < a \<longrightarrow> k < st"
        using cD(1,2) [OF ka] own st by (cases rule: next_step_cases [OF st]) (auto simp: v(1) less_Suc_eq)
    qed
    show "\<forall>(st, ix, c, d)\<in>worker_views (ktp_update S i s). st < S \<longrightarrow>
        (\<forall>k. (k, ix) \<in> set (kp_calls s) \<longleftrightarrow> k < st + (if c then 1 else 0))"
      using cD(3) before fresh by (cases rule: next_step_cases [OF st]) (auto simp: v(1))
    show "\<forall>a<kp_index (ktp_update S i s). (\<forall>(st, ix, c, d)\<in>worker_views (ktp_update S i s). ix \<noteq> a) \<longrightarrow>
        (\<forall>k<S. (k, a) \<in> set (kp_calls s))"
    proof (intro allI impI)
      fix a k assume a: "a < kp_index (ktp_update S i s)" "\<forall>(st, ix, c, d)\<in>worker_views (ktp_update S i s). ix \<noteq> a" and k: "k < S"
      show "(k, a) \<in> set (kp_calls s)"
      proof (cases "a = kw_index w")
        case True
        then show ?thesis using a k before by (cases rule: next_step_cases [OF st]) (auto simp: v(1))
      next
        case False
        have "ix \<noteq> a" if "(st, ix, c, d) \<in> worker_views s" for st ix c d
        proof
          assume "ix = a"
          then have "(st, ix, c, d) \<in> worker_views (ktp_update S i s)" using that False by (simp add: v(1))
          with a(2) \<open>ix = a\<close> show False by blast
        qed
        moreover have "a < kp_index s" using a by (auto simp: v(1,2) less_Suc_eq split: if_splits)
        ultimately show ?thesis using cD(4) k by blast
      qed
    qed
    show "\<forall>k. sorted_wrt (<) (stage_log k (kp_calls s))" using cD(5) by blast
    show "\<forall>a. \<exists>m. chunk_log a (kp_calls s) = [0..<m]" using cD(6) by blast
    show "\<forall>(st, ix, c, d)\<in>worker_views (ktp_update S i s). 0 < st \<longrightarrow> (0, ix) \<in> set (kp_calls s)"
      using cD(7) before by (auto simp: v(1))
  qed
  then show ?thesis using ktp_inv_update [OF inv i pc] v by (simp add: ktp_hist_def)
qed

lemma hist_step:
  assumes h: "ktp_hist n S s" and step: "ktp_any func n S s t"
  shows "ktp_hist n S t"
proof -
  have inv: "ktp_inv n S s" using h by (simp add: ktp_hist_def)
  from inv step show ?thesis
  proof (cases rule: ktp_any_cases)
    case quiet
    then show ?thesis using h ktp_inv_step [OF inv step] by (simp add: ktp_hist_def)
  qed (use hist_call hist_update h in auto)
qed

lemma hist_init: "ktp_hist n S (ktp_init n sh :: ('s, 'd) ktp)"
proof -
  have "worker_views (ktp_init n sh :: ('s, 'd) ktp) = (\<lambda>i. (0, i, False, None)) ` {..<n}"
    by (simp add: worker_views_def ktp_init_def worker_view_def called_def image_image atLeast0LessThan)
  moreover have "kp_calls (ktp_init n sh :: ('s, 'd) ktp) = []" "kp_index (ktp_init n sh :: ('s, 'd) ktp) = n" by (simp_all add: ktp_init_def)
  ultimately show ?thesis
    using ktp_inv_init [of n S sh] by (auto simp: ktp_hist_def calls_ok_def stage_log_def chunk_log_def intro: exI [of _ 0])
qed

interpretation ktp_order: transition_system "\<lambda>s. \<exists>sh. s = ktp_init n sh" "ktp_any func n S" "ktp_hist n S" for func n S
  by unfold_locales (auto intro: hist_init hist_step)

section \<open>The sequential pipeline\<close>

text \<open>
  A body whose step \<open>k\<close> uses only its own part of the shared data, the chunks taken through the steps one after
  the other, and what reaches step \<open>k\<close> of each chunk.
\<close>

definition stepwise :: "(nat \<Rightarrow> 't \<Rightarrow> 'd option \<Rightarrow> 'd option \<times> 't) \<Rightarrow> (nat \<Rightarrow> 't) \<Rightarrow> nat \<Rightarrow> 'd option \<Rightarrow> 'd option \<times> (nat \<Rightarrow> 't)" where
  "stepwise g sh k d = (case g k (sh k) d of (d', u) \<Rightarrow> (d', sh(k := u)))"

fun seq_chunk :: "(nat \<Rightarrow> 't \<Rightarrow> 'd option \<Rightarrow> 'd option \<times> 't) \<Rightarrow> nat \<Rightarrow> nat \<Rightarrow> 'd option \<Rightarrow> (nat \<Rightarrow> 't) \<Rightarrow> nat \<Rightarrow> 't" where
  "seq_chunk g k 0 d sh = sh"
| "seq_chunk g k (Suc m) d sh =
     (case stepwise g sh k d of (None, sh) \<Rightarrow> sh | (Some x, sh) \<Rightarrow> seq_chunk g (Suc k) m (Some x) sh)"

primrec seq_pipeline :: "(nat \<Rightarrow> 't \<Rightarrow> 'd option \<Rightarrow> 'd option \<times> 't) \<Rightarrow> nat \<Rightarrow> (nat \<Rightarrow> 't) \<Rightarrow> nat \<Rightarrow> nat \<Rightarrow> 't" where
  "seq_pipeline g S sh 0 = sh"
| "seq_pipeline g S sh (Suc N) = seq_chunk g 0 S None (seq_pipeline g S sh N)"

primrec stage_state :: "('t \<Rightarrow> 'd option \<Rightarrow> 'd option \<times> 't) \<Rightarrow> 't \<Rightarrow> (nat \<Rightarrow> 'd option option) \<Rightarrow> nat \<Rightarrow> 't" where
  "stage_state f u inp 0 = u"
| "stage_state f u inp (Suc a) = (case inp a of None \<Rightarrow> stage_state f u inp a | Some d \<Rightarrow> snd (f (stage_state f u inp a) d))"

primrec chunk_in :: "(nat \<Rightarrow> 't \<Rightarrow> 'd option \<Rightarrow> 'd option \<times> 't) \<Rightarrow> (nat \<Rightarrow> 't) \<Rightarrow> nat \<Rightarrow> nat \<Rightarrow> 'd option option" where
  "chunk_in g sh 0 = (\<lambda>a. Some None)"
| "chunk_in g sh (Suc k) = (\<lambda>a. case chunk_in g sh k a of None \<Rightarrow> None
     | Some d \<Rightarrow> map_option Some (fst (g k (stage_state (g k) (sh k) (chunk_in g sh k) a) d)))"

abbreviation stage :: "(nat \<Rightarrow> 't \<Rightarrow> 'd option \<Rightarrow> 'd option \<times> 't) \<Rightarrow> (nat \<Rightarrow> 't) \<Rightarrow> nat \<Rightarrow> nat \<Rightarrow> 't" where
  "stage g sh k \<equiv> stage_state (g k) (sh k) (chunk_in g sh k)"

lemma chunk_ended: "chunk_in g sh k a = None \<Longrightarrow> k \<le> j \<Longrightarrow> chunk_in g sh j a = None"
  by (induction j) (auto simp: le_Suc_eq)

lemma stage_skip: "m \<le> n \<Longrightarrow> (\<And>a. m \<le> a \<Longrightarrow> a < n \<Longrightarrow> inp a = None) \<Longrightarrow> stage_state f u inp n = stage_state f u inp m"
  by (induction n) (auto simp: le_Suc_eq)

lemma seq_chunk_stages:
  assumes "chunk_in g sh k N = Some d" "\<And>j. j < k \<Longrightarrow> cur j = stage g sh j (Suc N)" "\<And>j. k \<le> j \<Longrightarrow> j < k + m \<Longrightarrow> cur j = stage g sh j N"
    "\<And>j. k + m \<le> j \<Longrightarrow> cur j = sh j"
  shows "seq_chunk g k m d cur = (\<lambda>j. if j < k + m then stage g sh j (Suc N) else sh j)"
  using assms
proof (induction m arbitrary: k d cur)
  case 0
  then show ?case by auto
next
  case (Suc m)
  obtain d' u where f: "g k (stage g sh k N) d = (d', u)" by fastforce
  have c: "cur k = stage g sh k N" using Suc.prems(3) by simp
  have u: "u = stage g sh k (Suc N)" using f Suc.prems(1) by simp
  show ?case
  proof (cases d')
    case None
    then have "chunk_in g sh (Suc k) N = None" using f Suc.prems(1) by simp
    then have "stage g sh j (Suc N) = stage g sh j N" if "k < j" for j using chunk_ended [of g sh "Suc k" N j] that by simp
    then have "(cur(k := u)) j = (if j < k + Suc m then stage g sh j (Suc N) else sh j)" for j
      using Suc.prems(2-4) [of j] u by (cases j k rule: linorder_cases) (auto simp del: stage_state.simps)
    then show ?thesis using None f c by (auto simp: stepwise_def)
  next
    case (Some x)
    then have "chunk_in g sh (Suc k) N = Some (Some x)" using f Suc.prems(1) by simp
    then have "seq_chunk g (Suc k) m (Some x) (cur(k := u)) = (\<lambda>j. if j < Suc k + m then stage g sh j (Suc N) else sh j)"
      using Suc.prems(2-4) u by (intro Suc.IH) (auto simp: less_Suc_eq simp del: stage_state.simps)
    then show ?thesis using Some f c by (simp add: stepwise_def del: stage_state.simps)
  qed
qed

lemma seq_pipeline_stages: "seq_pipeline g S sh N = (\<lambda>k. if k < S then stage g sh k N else sh k)"
proof (induction N)
  case (Suc N)
  then show ?case
    using seq_chunk_stages [of g sh 0 N None "seq_pipeline g S sh N" S] by (simp del: stage_state.simps)
qed (simp add: fun_eq_iff)

section \<open>The pipeline computes what the sequential one does\<close>

definition log_end :: "nat \<Rightarrow> (nat \<times> nat) list \<Rightarrow> nat" where
  "log_end k calls = (let l = stage_log k calls in if l = [] then 0 else Suc (last l))"

definition values_ok :: "(nat \<Rightarrow> 't \<Rightarrow> 'd option \<Rightarrow> 'd option \<times> 't) \<Rightarrow> (nat \<Rightarrow> 't) \<Rightarrow> nat \<Rightarrow> (nat \<Rightarrow> 't, 'd) ktp \<Rightarrow> bool" where
  "values_ok g sh S s \<longleftrightarrow>
     (\<forall>(st, ix, c, d)\<in>worker_views s.
        if st < S then
          (if c then \<exists>e. chunk_in g sh st ix = Some e \<and> fst (g st (stage g sh st ix) e) = d
           else chunk_in g sh st ix = Some (if st \<noteq> 0 then d else None))
        else \<forall>k<S. (k, ix) \<notin> set (kp_calls s) \<longrightarrow> chunk_in g sh k ix = None) \<and>
     (\<forall>k. kp_shared s k = (if k < S then stage g sh k (log_end k (kp_calls s)) else sh k))"

lemma values_okD:
  assumes "values_ok g sh S s"
  shows "(st, ix, True, d) \<in> worker_views s \<Longrightarrow> st < S \<Longrightarrow> \<exists>e. chunk_in g sh st ix = Some e \<and> fst (g st (stage g sh st ix) e) = d"
    "(st, ix, False, d) \<in> worker_views s \<Longrightarrow> st < S \<Longrightarrow> chunk_in g sh st ix = Some (if st \<noteq> 0 then d else None)"
    "(st, ix, c, d) \<in> worker_views s \<Longrightarrow> S \<le> st \<Longrightarrow> k < S \<Longrightarrow> (k, ix) \<notin> set (kp_calls s) \<Longrightarrow> chunk_in g sh k ix = None"
    "kp_shared s k = (if k < S then stage g sh k (log_end k (kp_calls s)) else sh k)"
proof -
  note ok = assms [unfolded values_ok_def]
  show "(st, ix, True, d) \<in> worker_views s \<Longrightarrow> st < S \<Longrightarrow> \<exists>e. chunk_in g sh st ix = Some e \<and> fst (g st (stage g sh st ix) e) = d"
    using bspec [OF conjunct1 [OF ok], of "(st, ix, True, d)"] by simp
  show "(st, ix, False, d) \<in> worker_views s \<Longrightarrow> st < S \<Longrightarrow> chunk_in g sh st ix = Some (if st \<noteq> 0 then d else None)"
    using bspec [OF conjunct1 [OF ok], of "(st, ix, False, d)"] by simp
  show "(st, ix, c, d) \<in> worker_views s \<Longrightarrow> S \<le> st \<Longrightarrow> k < S \<Longrightarrow> (k, ix) \<notin> set (kp_calls s) \<Longrightarrow> chunk_in g sh k ix = None"
    using bspec [OF conjunct1 [OF ok], of "(st, ix, c, d)"] by simp
  show "kp_shared s k = (if k < S then stage g sh k (log_end k (kp_calls s)) else sh k)" using ok by simp
qed

lemma sorted_wrt_last: "sorted_wrt (<) xs \<Longrightarrow> x \<in> set xs \<Longrightarrow> x \<le> last xs" for x :: nat
  by (induction xs) (auto, metis last_in_set less_imp_le)

lemma after_log_end:
  assumes "calls_ok S V N calls" "log_end k calls \<le> a"
  shows "(k, a) \<notin> set calls"
  using assms(2) sorted_wrt_last [OF calls_okD(5) [OF assms(1)], of a k] set_stage_log [of a k calls]
  by (auto simp: log_end_def Let_def split: if_splits)

text \<open>Chunks before a bound that every worker has passed have been through the step or have ended.\<close>

lemma stage_caught_up:
  assumes h: "ktp_hist n S s" and v: "values_ok g sh S s" and k: "k < S" and b: "b \<le> kp_index s" "log_end k (kp_calls s) \<le> b"
    and past: "\<And>st ix c d. (st, ix, c, d) \<in> worker_views s \<Longrightarrow> ix < b \<Longrightarrow> k < st"
  shows "stage g sh k (log_end k (kp_calls s)) = stage g sh k b"
proof (rule stage_skip [symmetric, OF b(2)])
  fix a assume a: "log_end k (kp_calls s) \<le> a" "a < b"
  have c: "calls_ok S (worker_views s) (kp_index s) (kp_calls s)" using h by (simp add: ktp_hist_def)
  have na: "(k, a) \<notin> set (kp_calls s)" by (rule after_log_end [OF c a(1)])
  obtain st ct d where w: "(st, a, ct, d) \<in> worker_views s"
    using calls_okD(4) [OF c _ _ k, of a] na a b by (metis less_le_trans)
  show "chunk_in g sh k a = None"
  proof (cases "st < S")
    case True
    then show ?thesis using calls_okD(3) [OF c w True, of k] past [OF w a(2)] na by simp
  next
    case False
    then show ?thesis using values_okD(3) [OF v w _ k na] by simp
  qed
qed

lemma values_call:
  assumes h: "ktp_hist n S s" and vo: "values_ok g sh S s" and i: "i < n" and pc: "kw_pc (kp_workers s ! i) = PCall"
  shows "values_ok g sh S (ktp_call (stepwise g) i s)"
proof -
  define w where "w = kp_workers s ! i"
  define e where "e = (if kw_step w \<noteq> 0 then kw_data w else None)"
  obtain d u where f: "g (kw_step w) (kp_shared s (kw_step w)) e = (d, u)" by fastforce
  have inv: "ktp_inv n S s" and c: "calls_ok S (worker_views s) (kp_index s) (kp_calls s)" using h by (auto simp: ktp_hist_def)
  have "stepwise g (kp_shared s) (kw_step w) (if kw_step w \<noteq> 0 then kw_data w else None) = (d, (kp_shared s)(kw_step w := u))"
    unfolding stepwise_def e_def [symmetric] using f by simp
  note v = ktp_call_views [where func = "stepwise g", OF inv i w_def this]
  have ok: "worker_ok S i (kp_workers s)" using inv i by (simp add: ktp_inv_def)
  have st: "kw_step w < S" and nb: "\<not> ktp_blocked i (kp_workers s)" using ok pc by (simp_all add: worker_ok_def admitted_def w_def)
  have own: "(kw_step w, kw_index w, False, kw_data w) \<in> worker_views s"
    using own_view [OF inv i] pc by (simp add: worker_view_def called_def w_def)
  have "(kw_step w, kw_index w) \<notin> set (kp_calls s)" using calls_okD(3) [OF c own st] by simp
  then have le: "log_end (kw_step w) (kp_calls s) \<le> kw_index w"
  proof -
    have "a < kw_index w" if "(kw_step w, a) \<in> set (kp_calls s)" for a
      using calls_okD(2) [OF c that own] calls_okD(3) [OF c own st, of "kw_step w"] that
      by (cases a "kw_index w" rule: linorder_cases) auto
    then show ?thesis
      using last_in_set [of "stage_log (kw_step w) (kp_calls s)"] by (auto simp: log_end_def Let_def set_stage_log Suc_le_eq)
  qed
  have ix: "kw_index w < kp_index s" using inv i by (simp add: ktp_inv_def w_def)
  have now: "kp_shared s (kw_step w) = stage g sh (kw_step w) (kw_index w)"
    using values_okD(4) [OF vo, of "kw_step w"] st stage_caught_up [OF h vo st _ le] ix not_blocked_views [OF inv i nb]
    by (simp add: w_def)
  have e: "chunk_in g sh (kw_step w) (kw_index w) = Some e" using values_okD(2) [OF vo own st] by (simp add: e_def)
  have u: "u = stage g sh (kw_step w) (Suc (kw_index w))" and d: "fst (g (kw_step w) (stage g sh (kw_step w) (kw_index w)) e) = d"
    using f e now by simp_all
  have end_eq: "log_end k (kp_calls s @ [(kw_step w, kw_index w)]) = (if k = kw_step w then Suc (kw_index w) else log_end k (kp_calls s))" for k
    by (simp add: log_end_def stage_log_append)
  show ?thesis
    unfolding values_ok_def v
  proof (intro conjI ballI allI)
    fix k show "((kp_shared s)(kw_step w := u)) k =
        (if k < S then stage g sh k (log_end k (kp_calls s @ [(kw_step w, kw_index w)])) else sh k)"
      using values_okD(4) [OF vo, of k] u st by (simp add: end_eq del: stage_state.simps)
  next
    fix x assume x: "x \<in> insert (kw_step w, kw_index w, True, d) {v \<in> worker_views s. fst (snd v) \<noteq> kw_index w}"
    obtain st' ix' c' d' where x': "x = (st', ix', c', d')" by (cases x)
    show "case x of (st, ix, c, d) \<Rightarrow>
        if st < S then (if c then \<exists>e. chunk_in g sh st ix = Some e \<and> fst (g st (stage g sh st ix) e) = d
          else chunk_in g sh st ix = Some (if st \<noteq> 0 then d else None))
        else \<forall>k<S. (k, ix) \<notin> set (kp_calls s @ [(kw_step w, kw_index w)]) \<longrightarrow> chunk_in g sh k ix = None"
    proof (cases "x = (kw_step w, kw_index w, True, d)")
      case True
      then show ?thesis using e d st by simp
    next
      case False
      then have m: "(st', ix', c', d') \<in> worker_views s" using x unfolding x' by auto
      show ?thesis using values_okD(1,2) [OF vo, of st' ix' d'] values_okD(3) [OF vo m] m unfolding x' by (cases c') auto
    qed
  qed
qed

lemma values_update:
  assumes h: "ktp_hist n S s" and vo: "values_ok g sh S s" and i: "i < n" and pc: "kw_pc (kp_workers s ! i) = PUpdate"
  shows "values_ok g sh S (ktp_update S i s)"
proof -
  define w where "w = kp_workers s ! i"
  have inv: "ktp_inv n S s" and c: "calls_ok S (worker_views s) (kp_index s) (kp_calls s)" using h by (auto simp: ktp_hist_def)
  note v = ktp_update_views [OF inv i w_def]
  have ok: "worker_ok S i (kp_workers s)" using inv i by (simp add: ktp_inv_def)
  have st: "kw_step w < S" using ok pc by (simp add: worker_ok_def w_def)
  have own: "(kw_step w, kw_index w, True, kw_data w) \<in> worker_views s"
    using own_view [OF inv i] pc by (simp add: worker_view_def called_def w_def)
  have before: "(k, kw_index w) \<in> set (kp_calls s) \<longleftrightarrow> k < Suc (kw_step w)" for k using calls_okD(3) [OF c own st] by simp
  have out: "chunk_in g sh (Suc (kw_step w)) (kw_index w) = map_option Some (kw_data w)" using values_okD(1) [OF vo own st] by auto
  have rest: "chunk_in g sh k (kw_index w) = None" if "kw_data w = None" "(k, kw_index w) \<notin> set (kp_calls s)" for k
    using chunk_ended [of g sh "Suc (kw_step w)" "kw_index w" k] out that before [of k] by simp
  show ?thesis
    unfolding values_ok_def v
  proof (intro conjI ballI allI)
    fix k show "kp_shared s k = (if k < S then stage g sh k (log_end k (kp_calls s)) else sh k)" using values_okD(4) [OF vo] .
  next
    fix x assume x: "x \<in> insert (next_step S w, if next_step S w = 0 then kp_index s else kw_index w, False, kw_data w)
        {v \<in> worker_views s. fst (snd v) \<noteq> kw_index w}"
    obtain st' ix' c' d' where x': "x = (st', ix', c', d')" by (cases x)
    show "case x of (st, ix, c, d) \<Rightarrow>
        if st < S then (if c then \<exists>e. chunk_in g sh st ix = Some e \<and> fst (g st (stage g sh st ix) e) = d
          else chunk_in g sh st ix = Some (if st \<noteq> 0 then d else None))
        else \<forall>k<S. (k, ix) \<notin> set (kp_calls s) \<longrightarrow> chunk_in g sh k ix = None"
    proof (cases "x \<in> worker_views s")
      case True
      then have m: "(st', ix', c', d') \<in> worker_views s" using x' by simp
      show ?thesis using values_okD(1,2) [OF vo, of st' ix' d'] values_okD(3) [OF vo m] m unfolding x' by (cases c') auto
    next
      case False
      then have xe: "x = (next_step S w, if next_step S w = 0 then kp_index s else kw_index w, False, kw_data w)" using x by simp
      from st show ?thesis unfolding xe
      proof (cases rule: next_step_cases)
        case stop
        then show "case (next_step S w, if next_step S w = 0 then kp_index s else kw_index w, False, kw_data w) of (st, ix, c, d) \<Rightarrow>
            if st < S then (if c then \<exists>e. chunk_in g sh st ix = Some e \<and> fst (g st (stage g sh st ix) e) = d
              else chunk_in g sh st ix = Some (if st \<noteq> 0 then d else None))
            else \<forall>k<S. (k, ix) \<notin> set (kp_calls s) \<longrightarrow> chunk_in g sh k ix = None"
          using rest by auto
      qed (use out st in \<open>auto simp del: chunk_in.simps(2)\<close>)
    qed
  qed
qed

definition ktp_good :: "(nat \<Rightarrow> 't \<Rightarrow> 'd option \<Rightarrow> 'd option \<times> 't) \<Rightarrow> (nat \<Rightarrow> 't) \<Rightarrow> nat \<Rightarrow> nat \<Rightarrow> (nat \<Rightarrow> 't, 'd) ktp \<Rightarrow> bool" where
  "ktp_good g sh n S s \<longleftrightarrow> ktp_hist n S s \<and> values_ok g sh S s"

lemma good_step:
  assumes h: "ktp_good g sh n S s" and step: "ktp_any (stepwise g) n S s t"
  shows "ktp_good g sh n S t"
proof -
  have hist: "ktp_hist n S s" and inv: "ktp_inv n S s" and v: "values_ok g sh S s" using h by (auto simp: ktp_good_def ktp_hist_def)
  from inv step have "values_ok g sh S t"
  proof (cases rule: ktp_any_cases)
    case quiet
    show ?thesis using v unfolding values_ok_def quiet .
  qed (use values_call values_update hist v in auto)
  then show ?thesis using hist_step [OF hist step] by (simp add: ktp_good_def)
qed

lemma good_init: "ktp_good g sh n S (ktp_init n sh)"
proof -
  have "worker_views (ktp_init n sh :: (nat \<Rightarrow> 'a, 'b) ktp) = (\<lambda>i. (0, i, False, None)) ` {..<n}"
    by (simp add: worker_views_def ktp_init_def worker_view_def called_def image_image atLeast0LessThan)
  then show ?thesis using hist_init [of n S sh]
    by (auto simp: ktp_good_def values_ok_def) (auto simp: ktp_init_def log_end_def stage_log_def)
qed

interpretation ktp_values: transition_system "\<lambda>s. s = ktp_init n sh" "ktp_any (stepwise g) n S" "ktp_good g sh n S" for g sh n S
  by unfold_locales (auto intro: good_init good_step)

text \<open>When all workers have ended.\<close>

lemma ended_shared:
  assumes good: "ktp_good g sh n S s" and r: "ktp_returned n s"
  shows "kp_shared s = seq_pipeline g S sh (kp_index s)"
proof -
  have hist: "ktp_hist n S s" and inv: "ktp_inv n S s" and v: "values_ok g sh S s" and c: "calls_ok S (worker_views s) (kp_index s) (kp_calls s)"
    using good by (auto simp: ktp_good_def ktp_hist_def)
  have "kw_pc (kp_workers s ! i) = PExit" "worker_ok S i (kp_workers s)" if "i < n" for i
    using inv r that by (auto simp: ktp_inv_def ktp_main_ok_def ktp_returned_def)
  then have st: "st = S" if "(st, ix, ct, d) \<in> worker_views s" for st ix ct d
    using that inv by (auto simp: worker_views_def worker_view_def in_set_conv_nth worker_ok_def ktp_inv_def)
  have "log_end k (kp_calls s) \<le> kp_index s" for k
    using last_in_set [of "stage_log k (kp_calls s)"] calls_okD(1) [OF c, of k]
    by (auto simp: log_end_def Let_def set_stage_log Suc_le_eq)
  then have "stage g sh k (log_end k (kp_calls s)) = stage g sh k (kp_index s)" if "k < S" for k
    by (rule stage_caught_up [OF hist v that order_refl]) (use st that in blast)
  then have "kp_shared s k = (if k < S then stage g sh k (kp_index s) else sh k)" for k using values_okD(4) [OF v, of k] by simp
  then show ?thesis unfolding seq_pipeline_stages by (simp add: fun_eq_iff)
qed

section \<open>Progress\<close>

text \<open>A worker that has a place to go and the mutex, if it needs it, can move.\<close>

lemma worker_enabled:
  assumes "kw_pc (kp_workers s ! i) \<notin> {PUnborn, PWait, PExit}"
    "kw_pc (kp_workers s ! i) \<in> {PLock, PWoken, PRelock} \<Longrightarrow> kp_mutex s = None"
  shows "\<exists>t. ktp_worker func S i s = Some t"
  using assms by (cases "kw_pc (kp_workers s ! i)") (simp_all add: ktp_worker_def Let_def)

text \<open>Of the waiting workers the one with the smallest index waits for a worker that can move.\<close>

lemma waiting_for:
  assumes inv: "ktp_inv n S s" and i: "i < n" "kw_pc (kp_workers s ! i) = PWait"
  shows "\<exists>j<n. kw_pc (kp_workers s ! j) \<noteq> PWait \<and> kw_pc (kp_workers s ! j) \<noteq> PExit"
  using i
proof (induction "kw_index (kp_workers s ! i)" arbitrary: i rule: less_induct)
  case less
  then have "ktp_blocked i (kp_workers s)" "kw_step (kp_workers s ! i) < S" using inv by (auto simp: ktp_inv_def worker_ok_def)
  then obtain j where j: "j < n" "kw_step (kp_workers s ! j) < S" "kw_index (kp_workers s ! j) < kw_index (kp_workers s ! i)"
    using inv by (auto simp: ktp_blocked_def ktp_inv_def)
  moreover have "worker_ok S j (kp_workers s)" using inv j by (simp add: ktp_inv_def)
  then have "kw_pc (kp_workers s ! j) \<noteq> PExit" using j by (auto simp: worker_ok_def)
  ultimately show ?case using less.hyps by blast
qed

lemma ktp_progress:
  assumes inv: "ktp_inv n S s" and nr: "\<not> ktp_returned n s"
  shows "\<exists>t. ktp_step func n S s t"
proof (cases "kp_main s")
  case (Spawning k)
  then have "k \<le> n" using inv by (simp add: ktp_inv_def ktp_main_ok_def)
  then show ?thesis
    using ktp_step.spawn [OF Spawning, of n func S] ktp_step.spawned [of s n func S] Spawning by (cases "k = n") auto
next
  case (Joining_at k)
  then have k: "k < n" and born: "kw_pc (kp_workers s ! i) \<noteq> PUnborn" if "i < n" for i
    using inv nr that by (auto simp: ktp_inv_def ktp_main_ok_def ktp_returned_def)
  have kn: "k < n" using inv nr Joining_at by (auto simp: ktp_inv_def ktp_main_ok_def ktp_returned_def)
  show ?thesis
  proof (cases "kw_pc (kp_workers s ! k) = PExit")
    case True
    then show ?thesis using ktp_step.joined [OF Joining_at kn] by blast
  next
    case nx: False
    have "\<exists>i<n. \<exists>t. ktp_worker func S i s = Some t"
    proof (cases "kp_mutex s")
      case (Some i)
      then have i: "i < n" "holds_mutex (kw_pc (kp_workers s ! i))" using inv by (auto simp: ktp_inv_def)
      then have "kw_pc (kp_workers s ! i) \<notin> {PUnborn, PWait, PExit, PLock, PWoken, PRelock}" by (auto simp: holds_mutex_def)
      then show ?thesis using worker_enabled [of s i func S] i by blast
    next
      case None
      obtain j where j: "j < n" "kw_pc (kp_workers s ! j) \<noteq> PWait" "kw_pc (kp_workers s ! j) \<noteq> PExit"
        using waiting_for [OF inv kn] kn nx by blast
      then show ?thesis using worker_enabled [of s j func S] born None by blast
    qed
    then show ?thesis by (blast intro: ktp_step.work)
  qed
qed

text \<open>The first step leaves out no chunk.\<close>

lemma no_chunk_left_out:
  assumes c: "calls_ok S V N calls" and ab: "a < b" "(0, b) \<in> set calls"
  shows "(0, a) \<in> set calls"
proof (rule ccontr)
  assume na: "(0, a) \<notin> set calls"
  have b: "0 < S" "b < N" using calls_okD(1) [OF c ab(2)] by auto
  then obtain st ct d where w: "(st, a, ct, d) \<in> V" using calls_okD(4) [OF c _ _ b(1), of a] na ab(1) by (metis less_trans)
  then show False using calls_okD(2) [OF c ab(2) w ab(1)] calls_okD(7) [OF c w] na by simp
qed

lemma first_step_log:
  assumes c: "calls_ok S V N calls"
  shows "stage_log 0 calls = [0..<log_end 0 calls]"
proof -
  note s = calls_okD(5) [OF c, of 0]
  have "a < log_end 0 calls" if "a \<in> set (stage_log 0 calls)" for a
    using sorted_wrt_last [OF s that] that by (auto simp: log_end_def Let_def)
  moreover have "a \<in> set (stage_log 0 calls)" if "a < log_end 0 calls" for a
    using that last_in_set [of "stage_log 0 calls"] no_chunk_left_out [OF c, of a "last (stage_log 0 calls)"]
    by (auto simp: log_end_def Let_def set_stage_log less_Suc_eq split: if_splits)
  ultimately have "set (stage_log 0 calls) = set [0..<log_end 0 calls]" by auto
  moreover have "sorted (stage_log 0 calls)" "distinct (stage_log 0 calls)" using s strict_sorted_iff by blast+
  ultimately show ?thesis by (intro sorted_distinct_set_unique) simp_all
qed

text \<open>
  C8: The order of a pipeline. For any body and any schedule, spurious wake-ups included, no two workers are in a call of the same step;
  each step is called for the chunks in increasing order, without gaps; each chunk goes through the steps 0, 1, 2 and so on; and
  unless the pipeline has returned some step is possible, so that no worker waits for ever for a signal that was lost.
\<close>

theorem kt_pipeline_order:
  assumes "(ktp_any func n S)\<^sup>*\<^sup>* (ktp_init n sh) s"
  shows "(\<forall>i<n. \<forall>j<n. kw_pc (kp_workers s ! i) = PCall \<and> kw_pc (kp_workers s ! j) = PCall \<and>
      kw_step (kp_workers s ! i) = kw_step (kp_workers s ! j) \<longrightarrow> i = j) \<and>
    (\<forall>k. sorted_wrt (<) (stage_log k (kp_calls s))) \<and> (\<exists>m. stage_log 0 (kp_calls s) = [0..<m]) \<and>
    (\<forall>a. \<exists>m. chunk_log a (kp_calls s) = [0..<m]) \<and> (ktp_returned n s \<or> (\<exists>t. ktp_step func n S s t))"
proof (intro conjI)
  have h: "ktp_hist n S s" using ktp_order.inv_reachable [OF _ assms] by blast
  then have inv: "ktp_inv n S s" and c: "calls_ok S (worker_views s) (kp_index s) (kp_calls s)" by (simp_all add: ktp_hist_def)
  show "\<forall>i<n. \<forall>j<n. kw_pc (kp_workers s ! i) = PCall \<and> kw_pc (kp_workers s ! j) = PCall \<and>
      kw_step (kp_workers s ! i) = kw_step (kp_workers s ! j) \<longrightarrow> i = j"
  proof (intro allI impI, elim conjE)
    fix i j assume ij: "i < n" "j < n" "kw_pc (kp_workers s ! i) = PCall" "kw_pc (kp_workers s ! j) = PCall"
      "kw_step (kp_workers s ! i) = kw_step (kp_workers s ! j)"
    have len: "length (kp_workers s) = n" and d: "distinct (map kw_index (kp_workers s))" using inv by (simp_all add: ktp_inv_def)
    have "\<not> ktp_blocked i (kp_workers s)" "\<not> ktp_blocked j (kp_workers s)"
      using inv ij by (auto simp: ktp_inv_def worker_ok_def admitted_def)
    then have "i = j \<or> kw_index (kp_workers s ! i) = kw_index (kp_workers s ! j)"
      using ij len by (auto simp: ktp_blocked_def) (metis order_refl nat_neq_iff)
    then show "i = j" using nth_eq_iff_index_eq [OF d, of i j] ij len by auto
  qed
  show "\<forall>k. sorted_wrt (<) (stage_log k (kp_calls s))" "\<forall>a. \<exists>m. chunk_log a (kp_calls s) = [0..<m]"
    using calls_okD(5,6) [OF c] by blast+
  show "\<exists>m. stage_log 0 (kp_calls s) = [0..<m]" using first_step_log [OF c] by blast
  show "ktp_returned n s \<or> (\<exists>t. ktp_step func n S s t)" using ktp_progress [OF inv] by blast
qed

text \<open>With two workers, two steps and a body that keeps returning data, after the first call.\<close>

definition busy_body :: "unit \<Rightarrow> nat \<Rightarrow> nat option \<Rightarrow> nat option \<times> unit" where
  "busy_body u k d = (Some k, ())"

definition busy_steps :: "(unit, nat) ktp" where
  "busy_steps = \<lparr> kp_main = Spawning 1, kp_index = 2, kp_mutex = None,
     kp_workers = [\<lparr> kw_step = 0, kw_index = 0, kw_data = Some 0, kw_pc = PRelock \<rparr>, \<lparr> kw_step = 0, kw_index = 1, kw_data = None, kw_pc = PUnborn \<rparr>],
     kp_shared = (), kp_calls = [(0, 0)] \<rparr>"

text \<open>The workers that move, in order.\<close>

fun run_workers :: "('s \<Rightarrow> nat \<Rightarrow> 'd option \<Rightarrow> 'd option \<times> 's) \<Rightarrow> nat \<Rightarrow> nat \<Rightarrow> nat list \<Rightarrow> ('s, 'd) ktp \<Rightarrow> ('s, 'd) ktp option" where
  "run_workers func n S [] s = Some s"
| "run_workers func n S (i # is) s = (if i < n then Option.bind (ktp_worker func S i s) (run_workers func n S is) else None)"

lemma run_workers_steps: "run_workers func n S is s = Some t \<Longrightarrow> (ktp_any func n S)\<^sup>*\<^sup>* s t"
proof (induction "is" arbitrary: s)
  case (Cons i "is")
  then obtain u where u: "i < n" "ktp_worker func S i s = Some u" "run_workers func n S is u = Some t"
    by (auto split: if_splits bind_splits)
  then have "ktp_any func n S s u" by (blast intro: ktp_any.step ktp_step.work)
  with Cons.IH [OF u(3)] show ?case by (rule converse_rtranclp_into_rtranclp [rotated])
qed simp

lemma busy_reachable: "(ktp_any busy_body 2 2)\<^sup>*\<^sup>* (ktp_init 2 ()) busy_steps"
proof -
  let ?s = "(ktp_go 0 PLoop None (ktp_init 2 ()))\<lparr> kp_main := Spawning 1 \<rparr> :: (unit, nat) ktp"
  have "ktp_any busy_body 2 2 (ktp_init 2 ()) ?s"
    using ktp_step.spawn [of "ktp_init 2 ()" 0 2 busy_body 2] by (intro ktp_any.step) (simp add: ktp_init_def)
  moreover have "run_workers busy_body 2 2 [0, 0, 0, 0, 0] ?s = Some busy_steps" by code_simp
  ultimately show ?thesis by (blast intro: converse_rtranclp_into_rtranclp run_workers_steps)
qed

theorem kt_pipeline_order_witness:
  "stage_log 0 (kp_calls busy_steps) = [0] \<and> (ktp_returned 2 busy_steps \<or> (\<exists>t. ktp_step busy_body 2 2 busy_steps t))"
  using kt_pipeline_order [OF busy_reachable] by (simp add: busy_steps_def stage_log_def)

section \<open>Every run ends with the input\<close>

text \<open>From chunk \<open>M\<close> on the first step, called in order, returns a null pointer.\<close>

definition input_ends :: "(nat \<Rightarrow> 't \<Rightarrow> 'd option \<Rightarrow> 'd option \<times> 't) \<Rightarrow> (nat \<Rightarrow> 't) \<Rightarrow> nat \<Rightarrow> bool" where
  "input_ends g sh M \<longleftrightarrow> (\<forall>a\<ge>M. chunk_in g sh 1 a = None)"

text \<open>Then a chunk that nobody holds any more was part of the input.\<close>

definition ktp_fed :: "(nat \<Rightarrow> 't \<Rightarrow> 'd option \<Rightarrow> 'd option \<times> 't) \<Rightarrow> (nat \<Rightarrow> 't) \<Rightarrow> nat \<Rightarrow> nat \<Rightarrow> nat \<Rightarrow> (nat \<Rightarrow> 't, 'd) ktp \<Rightarrow> bool" where
  "ktp_fed g sh n S M s \<longleftrightarrow> ktp_good g sh n S s \<and>
     (\<forall>a<kp_index s. (\<forall>(st, ix, c, d)\<in>worker_views s. ix \<noteq> a) \<longrightarrow> a < M)"

lemma fed_init: "ktp_fed g sh n S M (ktp_init n sh)"
proof -
  have "worker_views (ktp_init n sh :: (nat \<Rightarrow> 'a, 'b) ktp) = (\<lambda>i. (0, i, False, None)) ` {..<n}"
    by (simp add: worker_views_def ktp_init_def worker_view_def called_def image_image atLeast0LessThan)
  moreover have "kp_index (ktp_init n sh :: (nat \<Rightarrow> 'a, 'b) ktp) = n" by (simp add: ktp_init_def)
  ultimately show ?thesis using good_init [of g sh n S] by (auto simp: ktp_fed_def)
qed

lemma fed_step:
  assumes S: "1 < S" and ends: "input_ends g sh M" and fed: "ktp_fed g sh n S M s" and step: "ktp_any (stepwise g) n S s t"
  shows "ktp_fed g sh n S M t"
proof -
  have good: "ktp_good g sh n S s" and inv: "ktp_inv n S s" and v: "values_ok g sh S s"
    using fed by (auto simp: ktp_fed_def ktp_good_def ktp_hist_def)
  have old: "a < M" if "a < kp_index s" "\<And>st ix c d. (st, ix, c, d) \<in> worker_views s \<Longrightarrow> ix \<noteq> a" for a
    using fed that unfolding ktp_fed_def by fast
  from inv step have "\<forall>a<kp_index t. (\<forall>(st, ix, c, d)\<in>worker_views t. ix \<noteq> a) \<longrightarrow> a < M"
  proof (cases rule: ktp_any_cases)
    case quiet
    then show ?thesis using fed unfolding ktp_fed_def quiet by simp
  next
    case (call i)
    define w where "w = kp_workers s ! i"
    obtain d u where "stepwise g (kp_shared s) (kw_step w) (if kw_step w \<noteq> 0 then kw_data w else None) = (d, u)" by fastforce
    note vw = ktp_call_views [where func = "stepwise g", OF inv call(1) w_def this]
    show ?thesis using old unfolding call(3) vw by fastforce
  next
    case (update i)
    define w where "w = kp_workers s ! i"
    note vw = ktp_update_views [OF inv update(1) w_def]
    have st: "kw_step w < S" using inv update by (auto simp: ktp_inv_def worker_ok_def w_def)
    have own: "(kw_step w, kw_index w, True, kw_data w) \<in> worker_views s"
      using own_view [OF inv update(1)] update(2) by (simp add: worker_view_def called_def w_def)
    show ?thesis
    proof (intro allI impI)
      fix a assume a: "a < kp_index t" "\<forall>(st, ix, c, d)\<in>worker_views t. ix \<noteq> a"
      have views: "(st, ix, c, d) \<in> worker_views s \<Longrightarrow> ix = a \<Longrightarrow> ix = kw_index w" for st ix c d
        using a(2) unfolding update(3) vw by fastforce
      have an: "a < kp_index s" using a unfolding update(3) vw by (auto simp: less_Suc_eq split: if_splits)
      show "a < M"
      proof (cases "a = kw_index w")
        case False
        then show ?thesis using old [OF an] views by blast
      next
        case True
        then have "next_step S w = 0" using a(2) unfolding update(3) vw by (auto split: if_splits)
        with st have "kw_step w \<noteq> 0" using S by (cases rule: next_step_cases) auto
        moreover have "chunk_in g sh (kw_step w) (kw_index w) \<noteq> None" using values_okD(1) [OF v own st] by auto
        ultimately have "chunk_in g sh 1 a \<noteq> None"
          using chunk_ended [of g sh 1 a "kw_step w"] True by (metis One_nat_def Suc_leI not_gr0)
        then show ?thesis using ends by (auto simp: input_ends_def not_le)
      qed
    qed
  qed
  then show ?thesis using good_step [OF good step] by (simp add: ktp_fed_def)
qed

lemma fed_index:
  assumes "ktp_fed g sh n S M s"
  shows "kp_index s \<le> n + M"
proof -
  let ?own = "kw_index ` set (kp_workers s)"
  have inv: "ktp_inv n S s" using assms by (simp add: ktp_fed_def ktp_good_def ktp_hist_def)
  have "a \<in> ?own \<or> a < M" if "a < kp_index s" for a
    using assms that by (fastforce simp: ktp_fed_def worker_views_def worker_view_def)
  then have "{..<kp_index s} \<subseteq> ?own \<union> {..<M}" by auto
  then have "card {..<kp_index s} \<le> card (?own \<union> {..<M})" by (intro card_mono) auto
  also have "\<dots> \<le> card ?own + card {..<M}" by (rule card_Un_le)
  also have "card ?own \<le> n" using inv card_image_le [of "set (kp_workers s)" kw_index] card_length [of "kp_workers s"]
    by (simp add: ktp_inv_def)
  finally show ?thesis by simp
qed

fun place_left :: "nat \<Rightarrow> ktp_pc \<Rightarrow> nat" where
  "place_left n PUnborn = 7"
| "place_left n PLoop = 6"
| "place_left n PLock = 5"
| "place_left n PTest = 4"
| "place_left n PWait = 3"
| "place_left n PWoken = 5"
| "place_left n PGo = 3"
| "place_left n PCall = 2"
| "place_left n PRelock = 9 + 2 * n"
| "place_left n PUpdate = 8 + 2 * n"
| "place_left n PLeave = 7"
| "place_left n PExit = 0"

definition ktp_left :: "nat \<Rightarrow> nat \<Rightarrow> nat \<Rightarrow> ('s, 'd) ktp \<Rightarrow> nat" where
  "ktp_left n S M s =
     (case kp_main s of Spawning k \<Rightarrow> 2 * n + 1 - k | Joining_at k \<Rightarrow> n - k) +
     ((n + M) * S - card (set (kp_calls s))) * (2 * n + 8) + (\<Sum>i<n. place_left n (kw_pc (kp_workers s ! i)))"

lemma go_left:
  assumes "length ws = n" "i < n" "place_left n pc < place_left n (kw_pc (ws ! i))"
  shows "(\<Sum>j<n. place_left n (kw_pc (ws[i := (ws ! i)\<lparr> kw_pc := pc \<rparr>] ! j))) < (\<Sum>j<n. place_left n (kw_pc (ws ! j)))"
  using sum_nth_update [of i ws "\<lambda>w. place_left n (kw_pc w)" "(ws ! i)\<lparr> kw_pc := pc \<rparr>"] assms by simp

lemma broadcast_left:
  assumes "length ws = n"
  shows "(\<Sum>j<n. place_left n (kw_pc (cond_broadcast ws ! j))) \<le> (\<Sum>j<n. place_left n (kw_pc (ws ! j))) + 2 * n"
proof -
  have "(\<Sum>j<n. place_left n (kw_pc (cond_broadcast ws ! j))) \<le> (\<Sum>j<n. place_left n (kw_pc (ws ! j)) + 2)"
    using assms by (intro sum_mono) auto
  also have "\<dots> = (\<Sum>j<n. place_left n (kw_pc (ws ! j))) + 2 * n" unfolding sum.distrib by simp
  finally show ?thesis .
qed

lemma call_left:
  assumes fed: "ktp_fed g sh n S M s" and i: "i < n" and pc: "kw_pc (kp_workers s ! i) = PCall"
  shows "ktp_left n S M (ktp_call (stepwise g) i s) < ktp_left n S M s"
proof -
  define w where "w = kp_workers s ! i"
  have inv: "ktp_inv n S s" and c: "calls_ok S (worker_views s) (kp_index s) (kp_calls s)"
    using fed by (auto simp: ktp_fed_def ktp_good_def ktp_hist_def)
  obtain d u where f: "stepwise g (kp_shared s) (kw_step w) (if kw_step w \<noteq> 0 then kw_data w else None) = (d, u)" by fastforce
  have t: "ktp_call (stepwise g) i s = s\<lparr> kp_workers := (kp_workers s)[i := w\<lparr> kw_data := d, kw_pc := PRelock \<rparr>], kp_shared := u,
      kp_calls := kp_calls s @ [(kw_step w, kw_index w)] \<rparr>"
    using f unfolding ktp_call_def Let_def w_def by simp
  have st: "kw_step w < S" "kw_index w < kp_index s" and len: "length (kp_workers s) = n"
    using inv i pc by (auto simp: ktp_inv_def worker_ok_def w_def)
  have own: "(kw_step w, kw_index w, False, kw_data w) \<in> worker_views s"
    using own_view [OF inv i] pc by (simp add: worker_view_def called_def w_def)
  have new: "(kw_step w, kw_index w) \<notin> set (kp_calls s)" using calls_okD(3) [OF c own st(1)] by simp
  have "insert (kw_step w, kw_index w) (set (kp_calls s)) \<subseteq> {..<S} \<times> {..<n + M}"
    using calls_okD(1) [OF c] st fed_index [OF fed] by fastforce
  then have "card (insert (kw_step w, kw_index w) (set (kp_calls s))) \<le> card ({..<S} \<times> {..<n + M})" by (intro card_mono) simp_all
  then have "card (set (kp_calls s)) < (n + M) * S" using new by (simp add: card_cartesian_product mult.commute)
  then have k: "(n + M) * S - card (set (kp_calls s)) = Suc ((n + M) * S - Suc (card (set (kp_calls s))))" by simp
  have "(\<Sum>j<n. place_left n (kw_pc ((kp_workers s)[i := w\<lparr> kw_data := d, kw_pc := PRelock \<rparr>] ! j))) + 2 =
      (\<Sum>j<n. place_left n (kw_pc (kp_workers s ! j))) + (9 + 2 * n)"
    using sum_nth_update [of i "kp_workers s" "\<lambda>w. place_left n (kw_pc w)" "w\<lparr> kw_data := d, kw_pc := PRelock \<rparr>"] i len pc
    by (simp add: w_def)
  then show ?thesis using new unfolding ktp_left_def t k by simp
qed

lemma update_left:
  assumes inv: "ktp_inv n S s" and i: "i < n" and pc: "kw_pc (kp_workers s ! i) = PUpdate"
  shows "ktp_left n S M (ktp_update S i s) < ktp_left n S M s"
proof -
  define w where "w = kp_workers s ! i"
  define w' where "w' = w\<lparr> kw_step := next_step S w, kw_index := if next_step S w = 0 then kp_index s else kw_index w, kw_pc := PLeave \<rparr>"
  have len: "length (kp_workers s) = n" using inv by (simp add: ktp_inv_def)
  have t: "kp_workers (ktp_update S i s) = cond_broadcast ((kp_workers s)[i := w'])" "kp_main (ktp_update S i s) = kp_main s"
    "kp_calls (ktp_update S i s) = kp_calls s"
    by (simp_all add: ktp_update_def Let_def w_def w'_def)
  have "(\<Sum>j<n. place_left n (kw_pc ((kp_workers s)[i := w'] ! j))) + (8 + 2 * n) = (\<Sum>j<n. place_left n (kw_pc (kp_workers s ! j))) + 7"
    using sum_nth_update [of i "kp_workers s" "\<lambda>w. place_left n (kw_pc w)" w'] i len pc by (simp add: w'_def)
  then show ?thesis using broadcast_left [of "(kp_workers s)[i := w']" n] len unfolding ktp_left_def t by simp
qed

lemma fed_left:
  assumes fed: "ktp_fed g sh n S M s" and step: "ktp_step (stepwise g) n S s t"
  shows "ktp_left n S M t < ktp_left n S M s"
proof -
  have inv: "ktp_inv n S s" using fed by (simp add: ktp_fed_def ktp_good_def ktp_hist_def)
  then have len: "length (kp_workers s) = n" by (simp add: ktp_inv_def)
  have go: "ktp_left n S M (ktp_go i pc m s) < ktp_left n S M s" if "i < n" "place_left n pc < place_left n (kw_pc (kp_workers s ! i))" for i pc m
    using go_left [OF len that] by (simp add: ktp_left_def)
  from step show ?thesis
  proof cases
    case (spawn k)
    then have "kw_pc (kp_workers s ! k) = PUnborn" using inv by (auto simp: ktp_inv_def ktp_main_ok_def)
    then show ?thesis using go_left [OF len, of k PLoop] spawn by (simp add: ktp_left_def)
  next
    case (work i)
    show ?thesis
    proof (cases "kw_pc (kp_workers s ! i)")
      case PCall
      then show ?thesis using call_left [OF fed work(1)] work(2) by (simp add: ktp_worker_def Let_def)
    next
      case PUpdate
      then show ?thesis using update_left [OF inv work(1)] work(2) by (simp add: ktp_worker_def Let_def)
    qed (use work go [OF work(1)] in \<open>auto simp: ktp_worker_def Let_def split: if_splits\<close>)
  qed (simp_all add: ktp_left_def)
qed

interpretation ktp_ends: terminating_system "\<lambda>s. 1 < S \<and> input_ends g sh M \<and> s = ktp_init n sh" "ktp_step (stepwise g) n S"
    "\<lambda>s. 1 < S \<and> input_ends g sh M \<and> ktp_fed g sh n S M s" "ktp_left n S M" "ktp_returned n" for S g sh M n
proof unfold_locales
  show "\<exists>t. ktp_step (stepwise g) n S s t" if "1 < S \<and> input_ends g sh M \<and> ktp_fed g sh n S M s" "\<not> ktp_returned n s" for s
    using ktp_progress [OF _ that(2)] that(1) by (simp add: ktp_fed_def ktp_good_def ktp_hist_def)
qed (auto intro: fed_init fed_step ktp_any.step fed_left)

lemma ktp_left_init: "ktp_left n S M (ktp_init n sh) = 2 * n + 1 + (n + M) * S * (2 * n + 8) + 7 * n"
  by (simp add: ktp_left_def ktp_init_def)

section \<open>Which chunks the workers take\<close>

text \<open>
  A chunk is cut short when one of its steps before the last returns a null pointer. Workers that have ended hold such chunks,
  a chunk that nobody holds has been through all steps, and somebody holds the newest one.
\<close>

definition cut_short :: "(nat \<Rightarrow> 't \<Rightarrow> 'd option \<Rightarrow> 'd option \<times> 't) \<Rightarrow> nat \<Rightarrow> (nat \<Rightarrow> 't) \<Rightarrow> nat \<Rightarrow> bool" where
  "cut_short g S sh a \<longleftrightarrow> Option.is_none (chunk_in g sh (S - 1) a)"

definition chunks_cut :: "(nat \<Rightarrow> 't \<Rightarrow> 'd option \<Rightarrow> 'd option \<times> 't) \<Rightarrow> nat \<Rightarrow> (nat \<Rightarrow> 't) \<Rightarrow> nat \<Rightarrow> nat" where
  "chunks_cut g S sh N = length (filter (cut_short g S sh) [0..<N])"

definition held_chunks :: "(nat \<times> nat \<times> bool \<times> 'd option) set \<Rightarrow> nat set" where
  "held_chunks V = (\<lambda>v. fst (snd v)) ` V"

lemma held_own: "worker_view w \<in> V \<Longrightarrow>
  held_chunks (insert (st, ix, c, d) {v \<in> V. fst (snd v) \<noteq> kw_index w}) = insert ix (held_chunks V - {kw_index w})"
  by (auto simp: held_chunks_def)

lemma held_index: "worker_view w \<in> V \<Longrightarrow> insert (kw_index w) (held_chunks V - {kw_index w}) = held_chunks V"
  by (force simp: held_chunks_def worker_view_def)

definition ktp_taken :: "(nat \<Rightarrow> 't \<Rightarrow> 'd option \<Rightarrow> 'd option \<times> 't) \<Rightarrow> (nat \<Rightarrow> 't) \<Rightarrow> nat \<Rightarrow> nat \<Rightarrow> (nat \<Rightarrow> 't, 'd) ktp \<Rightarrow> bool" where
  "ktp_taken g sh n S s \<longleftrightarrow> ktp_good g sh n S s \<and>
     (\<forall>v\<in>worker_views s. fst v = S \<longrightarrow> cut_short g S sh (fst (snd v))) \<and>
     (\<forall>a<kp_index s. a \<in> held_chunks (worker_views s) \<or> \<not> cut_short g S sh a) \<and>
     0 < kp_index s \<and> kp_index s - 1 \<in> held_chunks (worker_views s)"

lemma taken_init:
  assumes "0 < n" "0 < S"
  shows "ktp_taken g sh n S (ktp_init n sh)"
proof -
  have v: "worker_views (ktp_init n sh :: (nat \<Rightarrow> 'a, 'b) ktp) = (\<lambda>i. (0, i, False, None)) ` {..<n}"
    by (simp add: worker_views_def ktp_init_def worker_view_def called_def image_image atLeast0LessThan)
  have N: "kp_index (ktp_init n sh :: (nat \<Rightarrow> 'a, 'b) ktp) = n" by (simp add: ktp_init_def)
  show ?thesis
    using good_init [of g sh n S] assms unfolding ktp_taken_def v N by (simp add: image_image held_chunks_def)
qed

lemma taken_after_update:
  assumes taken: "ktp_taken g sh n S s" and i: "i < n" and pc: "kw_pc (kp_workers s ! i) = PUpdate"
    and good: "ktp_good g sh n S (ktp_update S i s)"
  shows "ktp_taken g sh n S (ktp_update S i s)"
proof -
  define w where "w = kp_workers s ! i"
  let ?H = "held_chunks (worker_views s)"
  have inv: "ktp_inv n S s" and v: "values_ok g sh S s"
    and ended: "\<forall>v\<in>worker_views s. fst v = S \<longrightarrow> cut_short g S sh (fst (snd v))"
    and left: "\<forall>a<kp_index s. a \<in> ?H \<or> \<not> cut_short g S sh a"
    and N: "0 < kp_index s" and newest: "kp_index s - 1 \<in> ?H"
    using taken by (auto simp: ktp_taken_def ktp_good_def ktp_hist_def)
  note vw = ktp_update_views [OF inv i w_def]
  have st: "kw_step w < S" using inv i pc by (auto simp: ktp_inv_def worker_ok_def w_def)
  have mine: "worker_view w \<in> worker_views s" using own_view [OF inv i] by (simp add: w_def)
  then have own: "(kw_step w, kw_index w, True, kw_data w) \<in> worker_views s"
    using pc by (simp add: worker_view_def called_def w_def)
  have out: "chunk_in g sh (Suc (kw_step w)) (kw_index w) = map_option Some (kw_data w)" using values_okD(1) [OF v own st] by auto
  note held = held_own [OF mine] held_index [OF mine]
  have views: "v \<in> worker_views s \<or> v = (S, kw_index w, False, kw_data w)" if "v \<in> worker_views (ktp_update S i s)" "fst v = S" for v
    using that st by (cases rule: next_step_cases [OF st]) (auto simp: vw)
  from st show ?thesis
  proof (cases rule: next_step_cases)
    case new
    then have whole: "\<not> cut_short g S sh (kw_index w)" using values_okD(1) [OF v own st] by (auto simp: cut_short_def Option.is_none_def)
    have "\<forall>v\<in>worker_views (ktp_update S i s). fst v = S \<longrightarrow> cut_short g S sh (fst (snd v))" using ended new st by (auto simp: vw)
    moreover have "\<forall>a<Suc (kp_index s). a \<in> insert (kp_index s) (?H - {kw_index w}) \<or> \<not> cut_short g S sh a"
      using left whole by (simp add: less_Suc_eq) blast
    ultimately show ?thesis using good new unfolding ktp_taken_def vw(2) by (simp add: vw(1) held(1))
  next
    case stop
    then have "chunk_in g sh (S - 1) (kw_index w) = None" using out chunk_ended [of g sh "Suc (kw_step w)" "kw_index w" "S - 1"] by simp
    then have "cut_short g S sh (kw_index w)" by (simp add: cut_short_def)
    then have "\<forall>v\<in>worker_views (ktp_update S i s). fst v = S \<longrightarrow> cut_short g S sh (fst (snd v))"
      using ended views by (metis fst_conv snd_conv)
    then show ?thesis using good left N newest stop unfolding ktp_taken_def vw(2) by (simp add: vw(1) held)
  next
    case further
    then have "\<forall>v\<in>worker_views (ktp_update S i s). fst v = S \<longrightarrow> cut_short g S sh (fst (snd v))" using ended by (auto simp: vw)
    then show ?thesis using good left N newest further unfolding ktp_taken_def vw(2) by (simp add: vw(1) held)
  qed
qed

lemma taken_step:
  assumes taken: "ktp_taken g sh n S s" and step: "ktp_any (stepwise g) n S s t"
  shows "ktp_taken g sh n S t"
proof -
  have good: "ktp_good g sh n S s" and inv: "ktp_inv n S s" using taken by (auto simp: ktp_taken_def ktp_good_def ktp_hist_def)
  have good': "ktp_good g sh n S t" by (rule good_step [OF good step])
  from inv step show ?thesis
  proof (cases rule: ktp_any_cases)
    case quiet
    then show ?thesis using taken good' unfolding ktp_taken_def quiet by simp
  next
    case (call i)
    define w where "w = kp_workers s ! i"
    obtain d u where "stepwise g (kp_shared s) (kw_step w) (if kw_step w \<noteq> 0 then kw_data w else None) = (d, u)" by fastforce
    note vw = ktp_call_views [where func = "stepwise g", OF inv call(1) w_def this]
    have mine: "worker_view w \<in> worker_views s" using own_view [OF inv call(1)] by (simp add: w_def)
    have "kw_step w < S" using inv call by (auto simp: ktp_inv_def worker_ok_def w_def)
    then have "\<forall>v\<in>worker_views t. fst v = S \<longrightarrow> cut_short g S sh (fst (snd v))"
      using taken by (auto simp: call(3) vw(1) ktp_taken_def)
    then show ?thesis
      using taken good' unfolding ktp_taken_def by (simp add: call(3) vw(1,2) held_own [OF mine] held_index [OF mine])
  next
    case (update i)
    then show ?thesis using taken_after_update [OF taken update(1,2)] good' by simp
  qed
qed

text \<open>When all workers have ended, each holds a chunk that was cut short, and no other chunk was.\<close>

lemma taken_ended:
  assumes taken: "ktp_taken g sh n S s" and r: "ktp_returned n s"
  shows "chunks_cut g S sh (kp_index s) = n" "\<forall>N<kp_index s. chunks_cut g S sh N < n"
proof -
  have inv: "ktp_inv n S s" and ended: "\<forall>v\<in>worker_views s. fst v = S \<longrightarrow> cut_short g S sh (fst (snd v))"
    and left: "\<forall>a<kp_index s. a \<in> held_chunks (worker_views s) \<or> \<not> cut_short g S sh a"
    and newest: "0 < kp_index s" "kp_index s - 1 \<in> held_chunks (worker_views s)"
    using taken by (auto simp: ktp_taken_def ktp_good_def ktp_hist_def)
  have "kw_pc (kp_workers s ! i) = PExit" "worker_ok S i (kp_workers s)" if "i < n" for i
    using inv r that by (auto simp: ktp_inv_def ktp_main_ok_def ktp_returned_def)
  then have "fst v = S" if "v \<in> worker_views s" for v
    using that inv by (auto simp: worker_views_def worker_view_def in_set_conv_nth worker_ok_def ktp_inv_def)
  then have cut: "cut_short g S sh a" if "a \<in> held_chunks (worker_views s)" for a
    using ended that unfolding held_chunks_def by blast
  have held: "held_chunks (worker_views s) = set (map kw_index (kp_workers s))"
    by (simp add: held_chunks_def worker_views_def image_image worker_view_def)
  have count: "chunks_cut g S sh N = card {a. a < N \<and> cut_short g S sh a}" for N
    unfolding chunks_cut_def length_filter_conv_card by (intro arg_cong [of _ _ card]) auto
  have "a < kp_index s" if "a \<in> held_chunks (worker_views s)" for a
    using that inv unfolding held by (auto simp: ktp_inv_def)
  then have all: "{a. a < kp_index s \<and> cut_short g S sh a} = held_chunks (worker_views s)" using left cut by blast
  show whole: "chunks_cut g S sh (kp_index s) = n"
    using inv distinct_card [of "map kw_index (kp_workers s)"] unfolding count all held by (simp add: ktp_inv_def)
  show "\<forall>N<kp_index s. chunks_cut g S sh N < n"
  proof (intro allI impI)
    fix N assume N: "N < kp_index s"
    then have "kp_index s - 1 \<in> {a. a < kp_index s \<and> cut_short g S sh a} - {a. a < N \<and> cut_short g S sh a}"
      using cut [OF newest(2)] by simp
    then have "{a. a < N \<and> cut_short g S sh a} \<subset> {a. a < kp_index s \<and> cut_short g S sh a}" using N
      by (intro psubsetI subsetI) (simp, blast)
    then show "chunks_cut g S sh N < n" unfolding whole [symmetric] count by (intro psubset_card_mono) auto
  qed
qed

text \<open>
  C7: The pipeline equals a loop. Let each step use only its own part of the shared data, let there be at least two steps, and let the
  first step, called for one chunk after the other, return a null pointer from chunk \<open>M\<close> on. Then \<open>kt_pipeline\<close>
  on \<open>n\<close> threads returns: without spurious wake-ups after a bounded number of steps, and after them at any
  time. Whenever it has returned, the shared data are what the chunks \<open>0 \<dots> N - 1\<close> leave when they are taken through the
  steps one after the other, and \<open>N\<close> is where a loop stops after the \<open>n\<close>-th chunk that a null pointer cut short before its
  last step: the chunks before \<open>N\<close> contain exactly \<open>n\<close> of these, and those before any smaller number fewer. So the
  schedule decides nothing, and an input that ends only at \<open>M\<close> is read to its end.
\<close>

theorem kt_pipeline_computes_loop:
  assumes "1 < S" "input_ends g sh M" "n = ktp_threads n_threads"
  shows "(\<forall>m s. (ktp_step (stepwise g) n S ^^ m) (ktp_init n sh) s \<longrightarrow> m \<le> 9 * n + 1 + (n + M) * S * (2 * n + 8)) \<and>
    (\<forall>s. (ktp_any (stepwise g) n S)\<^sup>*\<^sup>* (ktp_init n sh) s \<longrightarrow>
       (\<exists>t. (ktp_step (stepwise g) n S)\<^sup>*\<^sup>* s t \<and> ktp_returned n t) \<and>
       (ktp_returned n s \<longrightarrow> (\<exists>N\<le>n + M. kp_shared s = seq_pipeline g S sh N \<and>
          chunks_cut g S sh N = n \<and> (\<forall>N'<N. chunks_cut g S sh N' < n))))"
proof (intro conjI allI impI)
  fix m s assume run: "(ktp_step (stepwise g) n S ^^ m) (ktp_init n sh) s"
  show "m \<le> 9 * n + 1 + (n + M) * S * (2 * n + 8)"
    using ktp_ends.run_bounded [where sh = sh and M = M, OF run] assms(1,2) fed_init [of g sh n S M] unfolding ktp_left_init by simp
next
  fix s assume s: "(ktp_any (stepwise g) n S)\<^sup>*\<^sup>* (ktp_init n sh) s"
  have fed: "ktp_fed g sh n S M s"
    using s by (induction rule: rtranclp_induct) (auto intro: fed_init fed_step [OF assms(1,2)])
  then show "\<exists>t. (ktp_step (stepwise g) n S)\<^sup>*\<^sup>* s t \<and> ktp_returned n t"
    using ktp_ends.completes assms(1,2) by blast
  have n: "0 < n" and S: "0 < S" using assms(1,3) by (auto simp: ktp_threads_def)
  have taken: "ktp_taken g sh n S s"
    using s by (induction rule: rtranclp_induct) (auto intro: taken_init [OF n S] taken_step)
  show "\<exists>N\<le>n + M. kp_shared s = seq_pipeline g S sh N \<and> chunks_cut g S sh N = n \<and> (\<forall>N'<N. chunks_cut g S sh N' < n)"
    if "ktp_returned n s"
    using ended_shared [of g sh n S s] fed_index [OF fed] taken_ended [OF taken that] fed that
    by (intro exI [of _ "kp_index s"]) (simp add: ktp_fed_def)
qed

lemma steps_any: "(ktp_step func n S)\<^sup>*\<^sup>* s t \<Longrightarrow> (ktp_any func n S)\<^sup>*\<^sup>* s t"
  by (induction rule: rtranclp_induct) (auto intro: rtranclp.rtrancl_into_rtrancl ktp_any.step)

text \<open>A reader of two numbers and a step that adds them up.\<close>

definition sum_body :: "nat \<Rightarrow> nat list \<Rightarrow> nat option \<Rightarrow> nat option \<times> nat list" where
  "sum_body k u d =
     (if k = 0 then (case u of [] \<Rightarrow> (None, []) | x # xs \<Rightarrow> (Some x, xs))
      else (None, [(case u of [] \<Rightarrow> 0 | x # _ \<Rightarrow> x) + the d]))"

definition sum_input :: "nat \<Rightarrow> nat list" where
  "sum_input k = (if k = 0 then [3, 4] else [])"

lemma sum_state: "stage_state (sum_body 0) xs (\<lambda>_. Some None) a = drop a xs"
  by (induction a) (auto simp: sum_body_def drop_Suc tl_drop [symmetric] split: list.splits)

lemma sum_ends: "input_ends sum_body sum_input 2"
proof -
  have "drop a [3, 4 :: nat] = []" if "2 \<le> a" for a using that by simp
  then show ?thesis by (simp add: input_ends_def sum_state) (simp add: sum_body_def sum_input_def)
qed

lemma sum_cut: "cut_short sum_body 2 sum_input a \<longleftrightarrow> 2 \<le> a"
proof -
  have "a = 0 \<or> a = 1 \<or> 2 \<le> a" by arith
  moreover have "cut_short sum_body 2 sum_input a \<longleftrightarrow> drop a [3, 4 :: nat] = []"
    by (cases "drop a [3, 4 :: nat]")
      (simp_all add: cut_short_def sum_state del: drop_eq_Nil, simp_all add: sum_body_def sum_input_def del: drop_eq_Nil)
  ultimately show ?thesis by auto
qed

lemma sum_count: "chunks_cut sum_body 2 sum_input N = N - 2"
  by (induction N) (auto simp: chunks_cut_def sum_cut)

theorem kt_pipeline_computes_loop_witness:
  "\<exists>s. (ktp_any (stepwise sum_body) 3 2)\<^sup>*\<^sup>* (ktp_init 3 sum_input) s \<and> ktp_returned 3 s \<and> kp_shared s 0 = [] \<and> kp_shared s 1 = [7]"
proof -
  have n: "3 = ktp_threads 3" and S: "1 < (2 :: nat)" by (simp_all add: ktp_threads_def)
  note loop = conjunct2 [OF kt_pipeline_computes_loop [OF S sum_ends n]]
  obtain t where t: "(ktp_step (stepwise sum_body) 3 2)\<^sup>*\<^sup>* (ktp_init 3 sum_input) t" "ktp_returned 3 t"
    using loop by blast
  with loop steps_any [OF t(1)] obtain N where N: "kp_shared t = seq_pipeline sum_body 2 sum_input N" "N - 2 = 3"
    unfolding sum_count by blast
  then have "N = Suc (Suc (Suc (Suc (Suc 0))))" by simp
  then have "kp_shared t 0 = []" "kp_shared t 1 = [7]"
    unfolding N(1) by (simp_all add: stepwise_def sum_body_def sum_input_def numeral_2_eq_2)
  then show ?thesis using t(2) steps_any [OF t(1)] by blast
qed

section \<open>A pipeline of one step\<close>

text \<open>With one step the worker starts over whatever the body returns, so that no worker ever ends.\<close>

lemma single_step_goes_on:
  assumes step: "ktp_any func n (Suc 0) s t" and inv: "ktp_inv n (Suc 0) s" and first: "\<And>v. v \<in> worker_views s \<Longrightarrow> fst v = 0"
    and v: "v \<in> worker_views t"
  shows "fst v = 0"
  using inv step
proof (cases rule: ktp_any_cases)
  case quiet
  then show ?thesis using first v by simp
next
  case (call i)
  define w where "w = kp_workers s ! i"
  obtain d u where f: "func (kp_shared s) (kw_step w) (if kw_step w \<noteq> 0 then kw_data w else None) = (d, u)" by fastforce
  have "kw_step w = 0" using first [OF own_view [OF inv call(1)]] by (simp add: worker_view_def w_def)
  then show ?thesis using v first [of v] ktp_call_views(1) [where func = func, OF inv call(1) w_def f] unfolding call(3) by auto
next
  case (update i)
  define w where "w = kp_workers s ! i"
  have "next_step (Suc 0) w = 0" using first [OF own_view [OF inv update(1)]] by (simp add: worker_view_def w_def next_step_def)
  then show ?thesis using v first [of v] ktp_update_views(1) [OF inv update(1) w_def] unfolding update(3) by auto
qed

lemma kt_pipeline_single_step_never_returns:
  assumes "(ktp_any func n 1)\<^sup>*\<^sup>* (ktp_init n sh) s" "0 < n"
  shows "\<not> ktp_returned n s"
proof
  assume r: "ktp_returned n s"
  have "ktp_inv n 1 s \<and> (\<forall>v\<in>worker_views s. fst v = 0)"
    using assms(1)
  proof (induction rule: rtranclp_induct)
    case base
    then show ?case using ktp_inv_init by (auto simp: worker_views_def worker_view_def ktp_init_def)
  next
    case (step s t)
    then show ?case using single_step_goes_on [of func n s t] ktp_inv_step [of n 1 s func t] by auto
  qed
  moreover have "kw_pc (kp_workers s ! 0) = PExit" "worker_ok 1 0 (kp_workers s)"
    using calculation r assms(2) by (auto simp: ktp_inv_def ktp_main_ok_def ktp_returned_def)
  then have "kw_step (kp_workers s ! 0) = 1" by (simp add: worker_ok_def)
  ultimately show False using own_view [of n 1 s 0] assms(2) by (auto simp: worker_view_def)
qed

end
