(* ===== verification/KPool.thy ===== *)
theory KPool
  imports KThread
begin

text \<open>
  The thread pool of klib (\<open>kt_forpool_init\<close>, \<open>kt_forpool\<close> and \<open>kt_forpool_destroy\<close> of \<open>src/ext/klib/kthread.c\<close>) with more than one
  thread, used by one caller for the loops \<open>ns\<close>, one after the other, and then destroyed. Every access to the shared fields,
  with and without the mutex, is a step. The body of a loop is its number, from 1, which the field \<open>func\<close> holds.
\<close>

section \<open>State and steps\<close>

text \<open>
  A worker: not created; before the lock at the head of its loop; before it lowers \<open>n_pending\<close>, before the signal, before
  \<open>action = 0\<close>, before the test, before the second read of \<open>action\<close> and before the unlock, all with the mutex; waiting;
  woken without the mutex; at its jobs; at its end.
\<close>

datatype fp_pc = WUnborn | WLock | WDec | WSignal | WReset | WTest | WWait | WWoken | WRead | WUnlock int | WJob job_pc | WExit

text \<open>
  The caller: creating threads; in loop \<open>r\<close> (0 is the initialisation) before the lock, the broadcast and the test of
  \<open>n_pending\<close>, waiting and woken, before the unlock; in \<open>kt_forpool\<close> before the assignments to \<open>n\<close>, \<open>func\<close>, \<open>n_pending\<close>, and to \<open>w[i].i\<close>
  and \<open>w[i].action\<close>; in \<open>kt_forpool_destroy\<close> before \<open>w[i].action = -1\<close>, the broadcast and the joins.
\<close>

datatype fp_main_pc = MSpawn nat | MLock nat | MBcast nat | MTest nat | MWait nat | MWoken nat | MUnlock nat
  | MSetN nat | MSetFunc nat | MSetPending nat | MSetIndex nat nat | MSetAction nat nat | MKill nat | MKillBcast | MJoin nat

record fp_state =
  fp_main :: fp_main_pc
  fp_n :: int
  fp_func :: nat
  fp_pending :: int
  fp_i :: "int list"
  fp_action :: "int list"
  fp_workers :: "fp_pc list"
  fp_mutex :: "nat option"
  fp_calls :: "(nat \<times> int \<times> nat) list"

definition kt_forpool_init :: "nat \<Rightarrow> fp_state" where
  "kt_forpool_init T = \<lparr> fp_main = MSpawn 0, fp_n = 0, fp_func = 0, fp_pending = int T, fp_i = replicate T 0, fp_action = replicate T 0,
     fp_workers = replicate T WUnborn, fp_mutex = None, fp_calls = [] \<rparr>"

definition fp_go :: "nat \<Rightarrow> fp_pc \<Rightarrow> fp_state \<Rightarrow> fp_state" where
  "fp_go i pc s = s\<lparr> fp_workers := (fp_workers s)[i := pc] \<rparr>"

definition fp_broadcast :: "fp_state \<Rightarrow> fp_state" where
  "fp_broadcast s = s\<lparr> fp_workers := map (\<lambda>pc. if pc = WWait then WWoken else pc) (fp_workers s) \<rparr>"

definition fp_signal :: "fp_state \<Rightarrow> fp_state" where
  "fp_signal s = s\<lparr> fp_main := (case fp_main s of MWait r \<Rightarrow> MWoken r | m \<Rightarrow> m) \<rparr>"

definition kt_fp_worker :: "nat \<Rightarrow> nat \<Rightarrow> fp_state \<Rightarrow> fp_state option" where
  "kt_fp_worker T i s =
     (let lock = (\<lambda>pc. if fp_mutex s = None then Some ((fp_go i pc s)\<lparr> fp_mutex := Some i \<rparr>) else None)
      in case fp_workers s ! i of
           WLock \<Rightarrow> lock WDec
         | WDec \<Rightarrow> Some ((fp_go i (if fp_pending s - 1 = 0 then WSignal else WReset) s)\<lparr> fp_pending := fp_pending s - 1 \<rparr>)
         | WSignal \<Rightarrow> Some (fp_signal (fp_go i WReset s))
         | WReset \<Rightarrow> Some ((fp_go i WTest s)\<lparr> fp_action := (fp_action s)[i := 0] \<rparr>)
         | WTest \<Rightarrow> Some (if fp_action s ! i = 0 then (fp_go i WWait s)\<lparr> fp_mutex := None \<rparr> else fp_go i WRead s)
         | WWoken \<Rightarrow> lock WTest
         | WRead \<Rightarrow> Some (fp_go i (WUnlock (fp_action s ! i)) s)
         | WUnlock a \<Rightarrow> Some ((fp_go i (if a < 0 then WExit else WJob Own) s)\<lparr> fp_mutex := None \<rparr>)
         | WJob Finish \<Rightarrow> Some (fp_go i WLock s)
         | WJob Wild \<Rightarrow> None
         | WJob pc \<Rightarrow> (case ktf_worker T (fp_n s) i (fp_i s) pc of
             (w, pc') \<Rightarrow> Some ((fp_go i (WJob pc') s)\<lparr> fp_i := w, fp_calls := fp_calls s @ map (\<lambda>x. (fp_func s, x, i)) (job_call pc) \<rparr>))
         | _ \<Rightarrow> None)"

definition fp_next :: "int list \<Rightarrow> nat \<Rightarrow> fp_main_pc" where
  "fp_next ns r = (if r < length ns then MSetN (Suc r) else MKill 0)"

text \<open>The caller, who takes the mutex as number \<open>T\<close>.\<close>

definition kt_forpool :: "nat \<Rightarrow> int list \<Rightarrow> fp_state \<Rightarrow> fp_state option" where
  "kt_forpool T ns s =
     (let lock = (\<lambda>m. if fp_mutex s = None then Some (s\<lparr> fp_main := m, fp_mutex := Some T \<rparr>) else None)
      in case fp_main s of
           MSpawn k \<Rightarrow> Some (if k < T then (fp_go k WLock s)\<lparr> fp_main := MSpawn (Suc k) \<rparr> else s\<lparr> fp_main := MLock 0 \<rparr>)
         | MLock r \<Rightarrow> lock (if r = 0 then MTest 0 else MBcast r)
         | MBcast r \<Rightarrow> Some ((fp_broadcast s)\<lparr> fp_main := MTest r \<rparr>)
         | MTest r \<Rightarrow> Some (if fp_pending s \<noteq> 0 then s\<lparr> fp_main := MWait r, fp_mutex := None \<rparr> else s\<lparr> fp_main := MUnlock r \<rparr>)
         | MWait r \<Rightarrow> None
         | MWoken r \<Rightarrow> lock (MTest r)
         | MUnlock r \<Rightarrow> Some (s\<lparr> fp_main := fp_next ns r, fp_mutex := None \<rparr>)
         | MSetN r \<Rightarrow> Some (s\<lparr> fp_main := MSetFunc r, fp_n := ns ! (r - 1) \<rparr>)
         | MSetFunc r \<Rightarrow> Some (s\<lparr> fp_main := MSetPending r, fp_func := r \<rparr>)
         | MSetPending r \<Rightarrow> Some (s\<lparr> fp_main := MSetIndex r 0, fp_pending := int T \<rparr>)
         | MSetIndex r i \<Rightarrow> Some (s\<lparr> fp_main := MSetAction r i, fp_i := (fp_i s)[i := int i] \<rparr>)
         | MSetAction r i \<Rightarrow> Some (s\<lparr> fp_main := (if Suc i < T then MSetIndex r (Suc i) else MLock r), fp_action := (fp_action s)[i := 1] \<rparr>)
         | MKill i \<Rightarrow> Some (s\<lparr> fp_main := (if Suc i < T then MKill (Suc i) else MKillBcast), fp_action := (fp_action s)[i := - 1] \<rparr>)
         | MKillBcast \<Rightarrow> Some ((fp_broadcast s)\<lparr> fp_main := MJoin 0 \<rparr>)
         | MJoin i \<Rightarrow> if i < T \<and> fp_workers s ! i = WExit then Some (s\<lparr> fp_main := MJoin (Suc i) \<rparr>) else None)"

inductive fp_step :: "nat \<Rightarrow> int list \<Rightarrow> fp_state \<Rightarrow> fp_state \<Rightarrow> bool" for T ns where
  caller: "kt_forpool T ns s = Some t \<Longrightarrow> fp_step T ns s t"
| worker: "i < T \<Longrightarrow> kt_fp_worker T i s = Some t \<Longrightarrow> fp_step T ns s t"

definition fp_done :: "nat \<Rightarrow> fp_state \<Rightarrow> bool" where
  "fp_done T s \<longleftrightarrow> fp_main s = MJoin T"

text \<open>With spurious wake-ups of the workers, which POSIX allows.\<close>

inductive fp_any :: "nat \<Rightarrow> int list \<Rightarrow> fp_state \<Rightarrow> fp_state \<Rightarrow> bool" for T ns where
  step: "fp_step T ns s t \<Longrightarrow> fp_any T ns s t"
| spurious: "i < T \<Longrightarrow> fp_workers s ! i = WWait \<Longrightarrow> fp_any T ns s (fp_go i WWoken s)"

section \<open>A spurious wake-up repeats an index\<close>

text \<open>Who moves next: the caller, a worker, or a worker that wakes up by itself.\<close>

datatype fp_mover = Caller | Wk nat | Wakes nat

fun fp_run :: "nat \<Rightarrow> int list \<Rightarrow> fp_mover list \<Rightarrow> fp_state \<Rightarrow> fp_state option" where
  "fp_run T ns [] s = Some s"
| "fp_run T ns (m # ms) s =
     (case m of
        Caller \<Rightarrow> Option.bind (kt_forpool T ns s) (fp_run T ns ms)
      | Wk i \<Rightarrow> if i < T then Option.bind (kt_fp_worker T i s) (fp_run T ns ms) else None
      | Wakes i \<Rightarrow> if i < T \<and> fp_workers s ! i = WWait then fp_run T ns ms (fp_go i WWoken s) else None)"

lemma fp_run_any: "fp_run T ns ms s = Some t \<Longrightarrow> (fp_any T ns)\<^sup>*\<^sup>* s t"
proof (induction ms arbitrary: s)
  case (Cons m ms)
  then obtain u where "fp_any T ns s u" "fp_run T ns ms u = Some t"
    by (auto split: fp_mover.splits if_splits bind_splits intro: fp_any.intros fp_step.intros)
  with Cons.IH show ?case by (meson converse_rtranclp_into_rtranclp)
qed simp

definition spurious_run :: "fp_mover list" where
  "spurious_run = replicate 3 Caller @ replicate 4 (Wk 0) @ replicate 5 (Wk 1) @ replicate 8 Caller @
     [Wakes 0] @ replicate 13 (Wk 0)"

lemma spurious_run_repeats:
  "\<exists>s. (fp_any 2 [1])\<^sup>*\<^sup>* (kt_forpool_init 2) s \<and> fp_calls s = [(1, 0, 0), (1, 0, 0)]"
proof -
  have "map_option fp_calls (fp_run 2 [1] spurious_run (kt_forpool_init 2)) = Some [(1, 0, 0), (1, 0, 0)]" by code_simp
  then obtain t where "fp_run 2 [1] spurious_run (kt_forpool_init 2) = Some t" "fp_calls t = [(1, 0, 0), (1, 0, 0)]" by auto
  then show ?thesis using fp_run_any by blast
qed

section \<open>The invariant\<close>

fun w_holds :: "fp_pc \<Rightarrow> bool" where
  "w_holds WDec = True" | "w_holds WSignal = True" | "w_holds WReset = True" | "w_holds WTest = True" | "w_holds WRead = True"
| "w_holds (WUnlock a) = True" | "w_holds _ = False"

fun m_holds :: "fp_main_pc \<Rightarrow> bool" where
  "m_holds (MBcast r) = True" | "m_holds (MTest r) = True" | "m_holds (MUnlock r) = True" | "m_holds _ = False"

text \<open>The worker has not lowered \<open>n_pending\<close> in this loop; \<open>a\<close> is its \<open>action\<close>.\<close>

fun counted :: "fp_pc \<Rightarrow> int \<Rightarrow> bool" where
  "counted WSignal a = False" | "counted WReset a = False" | "counted WWait a = False" | "counted WExit a = False"
| "counted WTest a = (a \<noteq> 0)" | "counted _ a = True"

text \<open>Its place in the jobs of the loop.\<close>

fun job_view :: "fp_pc \<Rightarrow> int \<Rightarrow> job_pc" where
  "job_view WWoken a = Own" | "job_view WRead a = Own" | "job_view (WUnlock x) a = Own" | "job_view WTest a = (if a \<noteq> 0 then Own else Finish)"
| "job_view (WJob pc) a = pc" | "job_view _ a = Finish"

fun loop_pc_ok :: "nat \<Rightarrow> fp_pc \<Rightarrow> int \<Rightarrow> bool" where
  "loop_pc_ok r WWait a = (a = 0)"
| "loop_pc_ok r WUnborn a = (r = 0 \<and> a = 0)"
| "loop_pc_ok r WExit a = False"
| "loop_pc_ok r WWoken a = (0 < r \<and> a = 1)"
| "loop_pc_ok r WRead a = (0 < r \<and> a = 1)"
| "loop_pc_ok r (WUnlock x) a = (0 < r \<and> x = 1 \<and> a = 1)"
| "loop_pc_ok r (WJob pc) a = (0 < r \<and> a \<in> {0, 1})"
| "loop_pc_ok r pc a = (a \<in> {0, 1} \<and> (r = 0 \<longrightarrow> a = 0))"

definition calls_of :: "nat \<Rightarrow> (nat \<times> int \<times> nat) list \<Rightarrow> int list" where
  "calls_of r calls = map (fst \<circ> snd) (filter (\<lambda>c. fst c = r) calls)"

definition views :: "nat \<Rightarrow> fp_pc list \<Rightarrow> int list \<Rightarrow> job_pc list" where
  "views T pcs acts = map (\<lambda>i. job_view (pcs ! i) (acts ! i)) [0..<T]"

definition pending_of :: "nat \<Rightarrow> fp_pc list \<Rightarrow> int list \<Rightarrow> int" where
  "pending_of T pcs acts = (\<Sum>i<T. if counted (pcs ! i) (acts ! i) then 1 else 0)"

text \<open>While the caller waits for loop \<open>r\<close>.\<close>

definition looping :: "nat \<Rightarrow> int list \<Rightarrow> nat \<Rightarrow> fp_state \<Rightarrow> bool" where
  "looping T ns r s \<longleftrightarrow> fp_pending s = pending_of T (fp_workers s) (fp_action s) \<and>
     (\<forall>i<T. loop_pc_ok r (fp_workers s ! i) (fp_action s ! i)) \<and>
     (0 < r \<longrightarrow> r \<le> length ns \<and> fp_func s = r \<and> fp_n s = ns ! (r - 1) \<and>
       jobs_inv T (fp_n s) (fp_i s) (views T (fp_workers s) (fp_action s)) (calls_of r (fp_calls s)))"

definition resting :: "nat \<Rightarrow> nat \<Rightarrow> int \<Rightarrow> fp_state \<Rightarrow> bool" where
  "resting T k v s \<longleftrightarrow> (\<forall>i<T. fp_workers s ! i = WWait \<and> fp_action s ! i = (if i < k then v else 0))"

text \<open>What the caller has set up for loop \<open>r\<close>.\<close>

definition preparing :: "int list \<Rightarrow> nat \<Rightarrow> fp_state \<Rightarrow> bool" where
  "preparing ns r s \<longleftrightarrow> 0 < r \<and> r \<le> length ns"

definition prepared :: "nat \<Rightarrow> int list \<Rightarrow> nat \<Rightarrow> nat \<Rightarrow> fp_state \<Rightarrow> bool" where
  "prepared T ns r k s \<longleftrightarrow> preparing ns r s \<and> fp_n s = ns ! (r - 1) \<and> fp_func s = r \<and> fp_pending s = int T \<and> (\<forall>i<k. fp_i s ! i = int i)"

definition phase_ok :: "nat \<Rightarrow> int list \<Rightarrow> fp_state \<Rightarrow> bool" where
  "phase_ok T ns s \<longleftrightarrow>
     (case fp_main s of
        MSpawn k \<Rightarrow> k \<le> T \<and> looping T ns 0 s \<and> (\<forall>i<T. fp_workers s ! i = WUnborn \<longleftrightarrow> k \<le> i)
      | MLock r \<Rightarrow> if r = 0 then looping T ns 0 s \<and> (\<forall>i<T. fp_workers s ! i \<noteq> WUnborn) else resting T T 1 s \<and> prepared T ns r T s
      | MBcast r \<Rightarrow> resting T T 1 s \<and> prepared T ns r T s
      | MTest r \<Rightarrow> looping T ns r s \<and> (\<forall>i<T. fp_workers s ! i \<noteq> WUnborn)
      | MWait r \<Rightarrow> looping T ns r s \<and> (\<forall>i<T. fp_workers s ! i \<noteq> WUnborn) \<and> (fp_pending s = 0 \<longrightarrow> (\<exists>i<T. fp_workers s ! i = WSignal))
      | MWoken r \<Rightarrow> looping T ns r s \<and> (\<forall>i<T. fp_workers s ! i \<noteq> WUnborn)
      | MUnlock r \<Rightarrow> resting T 0 0 s \<and> r \<le> length ns
      | MSetN r \<Rightarrow> resting T 0 0 s \<and> preparing ns r s
      | MSetFunc r \<Rightarrow> resting T 0 0 s \<and> preparing ns r s \<and> fp_n s = ns ! (r - 1)
      | MSetPending r \<Rightarrow> resting T 0 0 s \<and> preparing ns r s \<and> fp_n s = ns ! (r - 1) \<and> fp_func s = r
      | MSetIndex r k \<Rightarrow> k < T \<and> resting T k 1 s \<and> prepared T ns r k s
      | MSetAction r k \<Rightarrow> k < T \<and> resting T k 1 s \<and> prepared T ns r (Suc k) s
      | MKill k \<Rightarrow> k < T \<and> resting T k (- 1) s
      | MKillBcast \<Rightarrow> resting T T (- 1) s
      | MJoin k \<Rightarrow> k \<le> T \<and> (\<forall>i<k. fp_workers s ! i = WExit) \<and>
          (\<forall>i<T. fp_action s ! i = - 1 \<and> fp_workers s ! i \<in> {WWoken, WTest, WRead, WUnlock (- 1), WExit}))"

fun loops_done :: "nat \<Rightarrow> fp_main_pc \<Rightarrow> nat" where
  "loops_done N (MSpawn k) = 0" | "loops_done N (MLock r) = r - 1" | "loops_done N (MBcast r) = r - 1" | "loops_done N (MTest r) = r - 1"
| "loops_done N (MWait r) = r - 1" | "loops_done N (MWoken r) = r - 1" | "loops_done N (MUnlock r) = r" | "loops_done N (MSetN r) = r - 1"
| "loops_done N (MSetFunc r) = r - 1" | "loops_done N (MSetPending r) = r - 1" | "loops_done N (MSetIndex r k) = r - 1"
| "loops_done N (MSetAction r k) = r - 1" | "loops_done N _ = N"

fun loops_begun :: "nat \<Rightarrow> fp_main_pc \<Rightarrow> nat" where
  "loops_begun N (MTest r) = r" | "loops_begun N (MWait r) = r" | "loops_begun N (MWoken r) = r" | "loops_begun N m = loops_done N m"

definition fp_calls_ok :: "nat \<Rightarrow> int list \<Rightarrow> fp_state \<Rightarrow> bool" where
  "fp_calls_ok T ns s \<longleftrightarrow>
     (\<forall>r. 0 < r \<and> r \<le> loops_done (length ns) (fp_main s) \<longrightarrow> mset (calls_of r (fp_calls s)) = mset_set {0..<ns ! (r - 1)}) \<and>
     (\<forall>r x i. (r, x, i) \<in> set (fp_calls s) \<longrightarrow> 0 < r \<and> r \<le> loops_begun (length ns) (fp_main s) \<and> i < T)"

definition fp_inv :: "nat \<Rightarrow> int list \<Rightarrow> fp_state \<Rightarrow> bool" where
  "fp_inv T ns s \<longleftrightarrow> length (fp_workers s) = T \<and> length (fp_action s) = T \<and> length (fp_i s) = T \<and>
     (\<forall>i<T. (fp_mutex s = Some i) = w_holds (fp_workers s ! i)) \<and> (fp_mutex s = Some T) = m_holds (fp_main s) \<and>
     (\<forall>i. fp_mutex s = Some i \<longrightarrow> i \<le> T) \<and> phase_ok T ns s \<and> fp_calls_ok T ns s"

lemma fp_inv_init: "fp_inv T ns (kt_forpool_init T)"
proof -
  have "pending_of T (replicate T WUnborn) (replicate T 0) = int T" by (simp add: pending_of_def)
  then show ?thesis by (simp add: fp_inv_def kt_forpool_init_def phase_ok_def looping_def fp_calls_ok_def calls_of_def)
qed

lemma sum_point:
  fixes f f' :: "nat \<Rightarrow> 'b :: comm_monoid_add"
  assumes "i < T" "\<And>j. j < T \<Longrightarrow> j \<noteq> i \<Longrightarrow> f' j = f j"
  shows "(\<Sum>j<T. f' j) + f i = (\<Sum>j<T. f j) + f' i"
proof -
  have "(\<Sum>j\<in>{..<T} - {i}. f' j) = (\<Sum>j\<in>{..<T} - {i}. f j)" using assms by (intro sum.cong) auto
  then show ?thesis using assms(1) by (simp add: sum.remove [of _ i] ac_simps)
qed

lemma pending_update:
  assumes "i < T" "length pcs = T" "length acts = T"
  shows "pending_of T (pcs[i := pc]) (acts[i := a]) =
    pending_of T pcs acts - (if counted (pcs ! i) (acts ! i) then 1 else 0) + (if counted pc a then 1 else 0)"
  using sum_point [of i T "\<lambda>j. if counted (pcs[i := pc] ! j) (acts[i := a] ! j) then 1 else (0 :: int)"
      "\<lambda>j. if counted (pcs ! j) (acts ! j) then 1 else 0"] assms
  by (simp add: pending_of_def)

lemma job_views_update:
  assumes "i < T" "length pcs = T" "length acts = T"
  shows "views T (pcs[i := pc]) (acts[i := a]) = (views T pcs acts)[i := job_view pc a]"
  using assms by (intro nth_equalityI) (auto simp: views_def nth_list_update)

lemma views_nth [simp]: "i < T \<Longrightarrow> views T pcs acts ! i = job_view (pcs ! i) (acts ! i)" "length (views T pcs acts) = T"
  by (simp_all add: views_def)

text \<open>A worker changes place without a change of its view.\<close>

lemma looping_move:
  assumes l: "looping T ns r s" and i: "i < T" "length (fp_workers s) = T" "length (fp_action s) = T"
    and t: "fp_workers t = (fp_workers s)[i := pc]" "fp_action t = (fp_action s)[i := a]" "fp_i t = fp_i s" "fp_n t = fp_n s"
      "fp_func t = fp_func s" "fp_calls t = fp_calls s"
    and pend: "fp_pending t = fp_pending s - (if counted (fp_workers s ! i) (fp_action s ! i) then 1 else 0) + (if counted pc a then 1 else 0)"
    and ok: "loop_pc_ok r pc a" "job_view pc a = job_view (fp_workers s ! i) (fp_action s ! i)"
  shows "looping T ns r t"
proof -
  have "views T (fp_workers t) (fp_action t) = views T (fp_workers s) (fp_action s)"
    unfolding t job_views_update [OF i] ok(2) using i by (simp add: list_update_same_conv)
  moreover have "loop_pc_ok r (fp_workers t ! j) (fp_action t ! j)" if "j < T" for j
    using l ok(1) that i by (cases "j = i") (auto simp: looping_def t)
  moreover have "fp_pending t = pending_of T (fp_workers t) (fp_action t)"
    unfolding pend t pending_update [OF i, of pc a] using l by (simp add: looping_def)
  ultimately show ?thesis using l by (auto simp: looping_def t(3-6) simp del: One_nat_def)
qed

text \<open>A worker at its jobs.\<close>

lemma calls_of_append: "calls_of r (calls @ map (\<lambda>x. (q, x, i)) xs) = calls_of r calls @ (if q = r then xs else [])"
  by (simp add: calls_of_def comp_def filter_map)

lemma looping_job:
  assumes l: "looping T ns r s" and i: "i < T" "length (fp_workers s) = T" "length (fp_action s) = T"
    and room: "\<forall>n\<in>set ns. ktf_room T n" and pc: "fp_workers s ! i = WJob pc" and step: "ktf_worker T (fp_n s) i (fp_i s) pc = (w, pc')"
  shows "looping T ns r ((fp_go i (WJob pc') s)\<lparr> fp_i := w, fp_calls := fp_calls s @ map (\<lambda>x. (fp_func s, x, i)) (job_call pc) \<rparr>)"
proof -
  have r: "0 < r" "r \<le> length ns" "fp_func s = r" "fp_n s = ns ! (r - 1)"
      "jobs_inv T (fp_n s) (fp_i s) (views T (fp_workers s) (fp_action s)) (calls_of r (fp_calls s))" "loop_pc_ok r (WJob pc) (fp_action s ! i)"
    using l i pc by (auto simp: looping_def)
  have "ktf_room T (fp_n s)" using room r by simp
  from jobs_inv_step [OF r(5) this i(1)] step i pc
  have "jobs_inv T (fp_n s) w ((views T (fp_workers s) (fp_action s))[i := pc']) (calls_of r (fp_calls s) @ job_call pc)" by simp
  moreover have "views T ((fp_workers s)[i := WJob pc']) (fp_action s) = (views T (fp_workers s) (fp_action s))[i := pc']"
    using job_views_update [OF i, of "WJob pc'" "fp_action s ! i"] by simp
  moreover have "pending_of T ((fp_workers s)[i := WJob pc']) (fp_action s) = pending_of T (fp_workers s) (fp_action s)"
    using pending_update [OF i, of "WJob pc'" "fp_action s ! i"] pc by simp
  moreover have "loop_pc_ok r ((fp_workers s)[i := WJob pc'] ! j) (fp_action s ! j)" if "j < T" for j
    using l that i r(1,6) by (cases "j = i") (auto simp: looping_def)
  ultimately show ?thesis using l r by (simp add: looping_def fp_go_def calls_of_append)
qed

lemma looping_worker:
  assumes l: "looping T ns r s" and i: "i < T" "length (fp_workers s) = T" "length (fp_action s) = T"
    and room: "\<forall>n\<in>set ns. ktf_room T n" and step: "kt_fp_worker T i s = Some t"
  shows "looping T ns r t"
proof -
  have ok: "loop_pc_ok r (fp_workers s ! i) (fp_action s ! i)" using l i by (simp add: looping_def)
  note move = looping_move [OF l i] and defs = kt_fp_worker_def fp_go_def fp_signal_def Let_def
  have same: "fp_action s = (fp_action s)[i := fp_action s ! i]" by simp
  show ?thesis
  proof (cases "fp_workers s ! i")
    case WLock
    then show ?thesis using step ok by (intro move [of _ WDec "fp_action s ! i"]) (auto simp: defs split: if_splits)
  next
    case WDec
    show ?thesis
    proof (cases "fp_pending s - 1 = 0")
      case True
      then show ?thesis using WDec step ok by (intro move [of _ WSignal "fp_action s ! i"]) (auto simp: defs split: if_splits)
    next
      case False
      then show ?thesis using WDec step ok by (intro move [of _ WReset "fp_action s ! i"]) (auto simp: defs split: if_splits)
    qed
  next
    case WSignal
    then show ?thesis using step ok by (intro move [of _ WReset "fp_action s ! i"]) (auto simp: defs split: if_splits)
  next
    case WReset
    then show ?thesis using step ok by (intro move [of _ WTest 0]) (auto simp: defs split: if_splits)
  next
    case WTest
    show ?thesis
    proof (cases "fp_action s ! i = 0")
      case True
      moreover have "(fp_action s)[i := 0] = fp_action s" using True list_update_id [of "fp_action s" i] by simp
      ultimately show ?thesis using WTest step ok by (intro move [of _ WWait 0]) (auto simp: defs split: if_splits)
    next
      case False
      then have a: "fp_action s ! i = 1" using ok WTest by auto
      then have "(fp_action s)[i := 1] = fp_action s" using list_update_id [of "fp_action s" i] by simp
      then show ?thesis using WTest step ok a by (intro move [of _ WRead 1]) (auto simp: defs split: if_splits)
    qed
  next
    case WWoken
    then have a: "fp_action s ! i = 1" using ok by auto
    then have "(fp_action s)[i := 1] = fp_action s" using list_update_id [of "fp_action s" i] by simp
    then show ?thesis using WWoken step ok a by (intro move [of _ WTest 1]) (auto simp: defs split: if_splits)
  next
    case WRead
    then have a: "fp_action s ! i = 1" using ok by auto
    then have "(fp_action s)[i := 1] = fp_action s" using list_update_id [of "fp_action s" i] by simp
    then show ?thesis using WRead step ok a by (intro move [of _ "WUnlock 1" 1]) (auto simp: defs split: if_splits)
  next
    case (WUnlock x)
    then have a: "fp_action s ! i = 1" using ok by auto
    then have "(fp_action s)[i := 1] = fp_action s" using list_update_id [of "fp_action s" i] by simp
    then show ?thesis using WUnlock step ok a by (intro move [of _ "WJob Own" 1]) (auto simp: defs split: if_splits)
  next
    case (WJob pc)
    show ?thesis
    proof (cases "pc = Finish")
      case True
      then show ?thesis using WJob step ok by (intro move [of _ WLock "fp_action s ! i"]) (auto simp: defs split: if_splits)
    next
      case False
      obtain w pc' where j: "ktf_worker T (fp_n s) i (fp_i s) pc = (w, pc')" by fastforce
      have "t = (fp_go i (WJob pc') s)\<lparr> fp_i := w, fp_calls := fp_calls s @ map (\<lambda>x. (fp_func s, x, i)) (job_call pc) \<rparr>"
        using step WJob False j by (cases pc) (auto simp: kt_fp_worker_def Let_def)
      then show ?thesis using looping_job [OF l i room WJob j] by simp
    qed
  qed (use step in \<open>simp_all add: kt_fp_worker_def Let_def\<close>)
qed

text \<open>The shape of a step of a worker: its new place, the mutex, the caller, the calls.\<close>

definition lock_move :: "nat \<Rightarrow> fp_pc \<Rightarrow> fp_pc \<Rightarrow> nat option \<Rightarrow> nat option \<Rightarrow> bool" where
  "lock_move i pc pc' m m' \<longleftrightarrow> w_holds pc = w_holds pc' \<and> m' = m \<or> \<not> w_holds pc \<and> w_holds pc' \<and> m = None \<and> m' = Some i \<or>
     w_holds pc \<and> \<not> w_holds pc' \<and> m' = None"

lemma worker_shape:
  assumes step: "kt_fp_worker T i s = Some t"
  obtains pc' xs where "fp_workers t = (fp_workers s)[i := pc']" "fp_workers s ! i \<notin> {WUnborn, WWait, WExit}" "pc' \<noteq> WUnborn"
    "lock_move i (fp_workers s ! i) pc' (fp_mutex s) (fp_mutex t)" "length (fp_action t) = length (fp_action s)" "length (fp_i t) = length (fp_i s)"
    "fp_main t = (if fp_workers s ! i = WSignal then fp_main (fp_signal s) else fp_main s)"
    "fp_pending t = fp_pending s \<or> fp_pending t \<noteq> 0 \<or> pc' = WSignal"
    "fp_calls t = fp_calls s @ map (\<lambda>x. (fp_func s, x, i)) xs" "xs = [] \<or> (\<exists>pc. fp_workers s ! i = WJob pc)"
proof -
  note defs = kt_fp_worker_def fp_go_def fp_signal_def Let_def lock_move_def
  show thesis
  proof (cases "fp_workers s ! i")
    case WLock
    then show thesis using step by (intro that [of WDec "[]"]) (auto simp: defs split: if_splits)
  next
    case WDec
    then show thesis using step by (intro that [of "if fp_pending s - 1 = 0 then WSignal else WReset" "[]"]) (auto simp: defs split: if_splits)
  next
    case WSignal
    then show thesis using step by (intro that [of WReset "[]"]) (auto simp: defs split: if_splits)
  next
    case WReset
    then show thesis using step by (intro that [of WTest "[]"]) (auto simp: defs split: if_splits)
  next
    case WTest
    then show thesis using step by (intro that [of "if fp_action s ! i = 0 then WWait else WRead" "[]"]) (auto simp: defs split: if_splits)
  next
    case WWoken
    then show thesis using step by (intro that [of WTest "[]"]) (auto simp: defs split: if_splits)
  next
    case WRead
    then show thesis using step by (intro that [of "WUnlock (fp_action s ! i)" "[]"]) (auto simp: defs split: if_splits)
  next
    case (WUnlock a)
    then show thesis using step by (intro that [of "if a < 0 then WExit else WJob Own" "[]"]) (auto simp: defs split: if_splits)
  next
    case (WJob pc)
    show thesis
    proof (cases "pc = Finish")
      case True
      then show thesis using step WJob by (intro that [of WLock "[]"]) (auto simp: defs split: if_splits)
    next
      case False
      obtain w pc' where j: "ktf_worker T (fp_n s) i (fp_i s) pc = (w, pc')" by fastforce
      have "length w = length (fp_i s)" using j by (cases pc) (auto simp: Let_def split: if_splits)
      moreover have "t = (fp_go i (WJob pc') s)\<lparr> fp_i := w, fp_calls := fp_calls s @ map (\<lambda>x. (fp_func s, x, i)) (job_call pc) \<rparr>"
        using step WJob False j by (cases pc) (auto simp: kt_fp_worker_def Let_def)
      ultimately show thesis using WJob by (intro that [of "WJob pc'" "job_call pc"]) (simp_all add: fp_go_def lock_move_def)
    qed
  qed (use step in \<open>simp_all add: kt_fp_worker_def Let_def\<close>)
qed

lemma fp_inv_worker:
  assumes inv: "fp_inv T ns s" and room: "\<forall>n\<in>set ns. ktf_room T n" and i: "i < T" and step: "kt_fp_worker T i s = Some t"
  shows "fp_inv T ns t"
proof -
  have len: "length (fp_workers s) = T" "length (fp_action s) = T" "length (fp_i s) = T" and ph: "phase_ok T ns s" and co: "fp_calls_ok T ns s"
    and mu: "\<And>j. j < T \<Longrightarrow> (fp_mutex s = Some j) = w_holds (fp_workers s ! j)" "(fp_mutex s = Some T) = m_holds (fp_main s)"
      "\<And>j. fp_mutex s = Some j \<Longrightarrow> j \<le> T"
    using inv by (auto simp: fp_inv_def)
  obtain pc' xs where t: "fp_workers t = (fp_workers s)[i := pc']" "fp_workers s ! i \<notin> {WUnborn, WWait, WExit}" "pc' \<noteq> WUnborn"
    "lock_move i (fp_workers s ! i) pc' (fp_mutex s) (fp_mutex t)" "length (fp_action t) = length (fp_action s)" "length (fp_i t) = length (fp_i s)"
    "fp_main t = (if fp_workers s ! i = WSignal then fp_main (fp_signal s) else fp_main s)"
    "fp_pending t = fp_pending s \<or> fp_pending t \<noteq> 0 \<or> pc' = WSignal"
    "fp_calls t = fp_calls s @ map (\<lambda>x. (fp_func s, x, i)) xs" "xs = [] \<or> (\<exists>pc. fp_workers s ! i = WJob pc)"
    by (rule worker_shape [OF step])
  have mh: "m_holds (fp_main t) = m_holds (fp_main s)" and d: "loops_done (length ns) (fp_main t) = loops_done (length ns) (fp_main s)"
    "loops_begun (length ns) (fp_main t) = loops_begun (length ns) (fp_main s)"
    unfolding t(7) by (cases "fp_main s"; simp add: fp_signal_def)+
  have m1: "(fp_mutex t = Some j) = w_holds (fp_workers t ! j)" if "j < T" for j
    using t(4) mu(1) [OF that] mu(1) [OF i] that i len by (cases "j = i") (auto simp: lock_move_def t(1))
  have m2: "(fp_mutex t = Some T) = m_holds (fp_main t)" "\<And>j. fp_mutex t = Some j \<Longrightarrow> j \<le> T"
    using t(4) mu(1) [OF i] mu(2,3) i unfolding mh by (auto simp: lock_move_def)
  note lw = looping_worker [OF _ i len(1,2) room step]
  have born: "\<And>j. j < T \<Longrightarrow> (fp_workers t ! j = WUnborn) = (fp_workers s ! j = WUnborn)" using t(1-3) i len by (auto simp: nth_list_update)
  have ph': "phase_ok T ns t \<and> (xs = [] \<or> (\<exists>r. 0 < r \<and> fp_func s = r \<and> loops_done (length ns) (fp_main s) = r - 1 \<and> loops_begun (length ns) (fp_main s) = r))"
  proof (cases "fp_main s")
    case (MSpawn k)
    then show ?thesis using ph lw [of 0] born t(7,10) i by (auto simp: phase_ok_def looping_def fp_signal_def)
  next
    case (MLock r)
    then show ?thesis using ph lw [of 0] born t(2,7,10) i by (auto simp: phase_ok_def looping_def resting_def fp_signal_def split: if_splits)
  next
    case (MTest r)
    then show ?thesis using ph lw [of r] born t(7,10) i by (auto simp: phase_ok_def looping_def fp_signal_def)
  next
    case (MWait r)
    then have l: "looping T ns r s" and b: "\<forall>j<T. fp_workers s ! j \<noteq> WUnborn" and z: "fp_pending s = 0 \<Longrightarrow> \<exists>j<T. fp_workers s ! j = WSignal"
      using ph by (auto simp: phase_ok_def)
    have "fp_workers s ! i = WSignal \<or> (fp_pending t = 0 \<longrightarrow> (\<exists>j<T. fp_workers t ! j = WSignal))"
      using t(8) z i len by (auto simp: t(1) nth_list_update)
    then show ?thesis
      using MWait lw [OF l] b born t(7,10) l i by (auto simp: phase_ok_def fp_signal_def looping_def)
  next
    case (MWoken r)
    then show ?thesis using ph lw [of r] born t(7,10) i by (auto simp: phase_ok_def looping_def fp_signal_def)
  next
    case (MJoin k)
    then have j: "k \<le> T" "\<And>j. j < k \<Longrightarrow> fp_workers s ! j = WExit" "\<And>j. j < T \<Longrightarrow> fp_action s ! j = - 1"
        "\<And>j. j < T \<Longrightarrow> fp_workers s ! j \<in> {WWoken, WTest, WRead, WUnlock (- 1), WExit}"
      using ph by (auto simp: phase_ok_def)
    have new: "fp_action t = fp_action s \<and> fp_workers t ! i \<in> {WWoken, WTest, WRead, WUnlock (- 1), WExit} \<and> fp_main t = fp_main s"
      using j(3,4) [OF i] t(2) step i len by (auto simp: kt_fp_worker_def fp_go_def Let_def split: if_splits)
    have "\<not> i < k" using j(2) t(2) by auto
    then have "\<And>j. j < k \<Longrightarrow> fp_workers t ! j = WExit" using j(2) t(1) by simp
    moreover have "fp_workers t ! j \<in> {WWoken, WTest, WRead, WUnlock (- 1), WExit}" if "j < T" for j
      using new j(4) [OF that] t(1) by (cases "j = i") simp_all
    ultimately have "phase_ok T ns t" using j(1,3) new MJoin by (simp add: phase_ok_def)
    moreover have "xs = []" using t(10) j(4) [OF i] by auto
    ultimately show ?thesis by simp
  qed (use ph t(2) i in \<open>auto simp: phase_ok_def resting_def\<close>)
  have "fp_calls_ok T ns t"
  proof (cases "xs = []")
    case True
    then show ?thesis using co by (simp add: fp_calls_ok_def d t(9))
  next
    case False
    then obtain r where r: "0 < r" "fp_func s = r" "loops_done (length ns) (fp_main s) = r - 1" "loops_begun (length ns) (fp_main s) = r" using ph' by auto
    then have "calls_of q (fp_calls t) = calls_of q (fp_calls s)" if "q \<le> r - 1" for q
      using that r(1,2) by (auto simp: t(9) calls_of_append)
    then show ?thesis using co r i by (auto simp: fp_calls_ok_def d) (auto simp: t(9))
  qed
  then show ?thesis using len t(1,5,6) m1 m2 ph' by (simp add: fp_inv_def)
qed

subsection \<open>Steps of the caller\<close>

text \<open>The workers at the beginning of a loop.\<close>

lemma looping_start:
  assumes rest: "resting T T 1 s" and prep: "prepared T ns r T s" and len: "length (fp_workers s) = T" "length (fp_i s) = T"
    and T: "0 < T" and none: "calls_of r (fp_calls s) = []"
  shows "looping T ns r (fp_broadcast s)"
proof -
  have w: "fp_workers (fp_broadcast s) ! i = WWoken" "fp_action (fp_broadcast s) ! i = 1" if "i < T" for i
    using rest that len by (simp_all add: resting_def fp_broadcast_def)
  have "pending_of T (fp_workers (fp_broadcast s)) (fp_action (fp_broadcast s)) = int T" using w by (simp add: pending_of_def)
  moreover have "views T (fp_workers (fp_broadcast s)) (fp_action (fp_broadcast s)) = replicate T Own"
    by (rule nth_equalityI) (simp_all add: w)
  moreover have "fp_i s = map int [0..<T]" using prep len by (intro nth_equalityI) (simp_all add: prepared_def)
  ultimately show ?thesis
    using prep jobs_inv_start [OF T, of "ns ! (r - 1)"] w none by (simp add: looping_def prepared_def preparing_def) (simp add: fp_broadcast_def)
qed

text \<open>When \<open>n_pending\<close> is 0 and the caller has the mutex, all workers wait and the loop is done.\<close>

lemma looping_end:
  assumes l: "looping T ns r s" and z: "fp_pending s = 0" and nh: "\<And>i. i < T \<Longrightarrow> \<not> w_holds (fp_workers s ! i)" and T: "0 < T"
  shows "resting T 0 0 s \<and> (0 < r \<longrightarrow> mset (calls_of r (fp_calls s)) = mset_set {0..<ns ! (r - 1)})"
proof -
  have ok: "loop_pc_ok r (fp_workers s ! i) (fp_action s ! i)" if "i < T" for i using l that by (simp add: looping_def)
  have "(\<Sum>i<T. if counted (fp_workers s ! i) (fp_action s ! i) then 1 else 0 :: int) = 0"
    using l z by (simp add: looping_def pending_of_def)
  then have nc: "\<not> counted (fp_workers s ! i) (fp_action s ! i)" if "i < T" for i
    using that by (subst (asm) sum_nonneg_eq_0_iff) (auto split: if_splits)
  have w: "fp_workers s ! i = WWait \<and> fp_action s ! i = 0" if "i < T" for i
    using ok [OF that] nc [OF that] nh [OF that] by (cases "fp_workers s ! i") auto
  then have "views T (fp_workers s) (fp_action s) ! i = Finish" if "i < T" for i using that by simp
  then have "mset (calls_of r (fp_calls s)) = mset_set {0..<ns ! (r - 1)}" if "0 < r"
    using l that jobs_inv_finished [OF _ _ T] by (auto simp: looping_def)
  then show ?thesis using w by (simp add: resting_def)
qed

lemma no_calls_yet: "fp_calls_ok T ns s \<Longrightarrow> loops_begun (length ns) (fp_main s) < r \<Longrightarrow> calls_of r (fp_calls s) = []"
  by (fastforce simp: fp_calls_ok_def calls_of_def filter_empty_conv)

lemma fp_inv_caller:
  assumes inv: "fp_inv T ns s" and T: "1 < T" and step: "kt_forpool T ns s = Some t"
  shows "fp_inv T ns t"
proof -
  have len: "length (fp_workers s) = T" "length (fp_action s) = T" "length (fp_i s) = T" and ph: "phase_ok T ns s" and co: "fp_calls_ok T ns s"
    and mu: "\<And>j. j < T \<Longrightarrow> (fp_mutex s = Some j) = w_holds (fp_workers s ! j)" "(fp_mutex s = Some T) = m_holds (fp_main s)"
      "\<And>j. fp_mutex s = Some j \<Longrightarrow> j \<le> T"
    using inv by (auto simp: fp_inv_def)
  note defs = kt_forpool_def Let_def fp_go_def fp_broadcast_def fp_inv_def phase_ok_def fp_calls_ok_def
  have nh: "\<not> w_holds (fp_workers s ! i)" if "fp_mutex s = None \<or> fp_mutex s = Some T" "i < T" for i
    using mu(1) [OF that(2)] that by auto
  show ?thesis
  proof (cases "fp_main s")
    case (MSpawn k)
    show ?thesis
    proof (cases "k < T")
      case True
      have l: "looping T ns 0 s" and u: "fp_workers s ! k = WUnborn" using ph MSpawn True by (auto simp: phase_ok_def)
      have "looping T ns 0 ((fp_go k WLock s)\<lparr> fp_main := MSpawn (Suc k) \<rparr>)"
        using l u True len by (intro looping_move [OF l True len(1,2), of _ WLock "fp_action s ! k"]) (auto simp: fp_go_def looping_def)
      then show ?thesis
        using step MSpawn True len ph co mu mu(1) [OF True] u by (auto simp: defs nth_list_update split: if_splits)
    next
      case False
      then show ?thesis using step MSpawn len ph co mu by (auto simp: defs looping_def)
    qed
  next
    case (MLock r)
    then show ?thesis using step len ph co mu nh T by (auto simp: defs looping_def resting_def prepared_def preparing_def split: if_splits)
  next
    case (MBcast r)
    have "calls_of r (fp_calls s) = []" using no_calls_yet [OF co, of r] ph MBcast by (auto simp: phase_ok_def prepared_def preparing_def)
    then have "looping T ns r (fp_broadcast s)"
      using looping_start [of T s ns r] ph MBcast len T by (simp add: phase_ok_def)
    moreover have "q \<le> r" if "(q, x, i) \<in> set (fp_calls s)" for q x i
      using co that MBcast by (auto simp: fp_calls_ok_def dest!: spec)
    ultimately show ?thesis
      using step MBcast len ph co mu by (auto simp: defs looping_def resting_def)
  next
    case (MTest r)
    show ?thesis
    proof (cases "fp_pending s = 0")
      case True
      have l: "looping T ns r s" and m: "fp_mutex s = Some T" using ph mu MTest by (auto simp: phase_ok_def)
      have e: "resting T 0 0 s" "0 < r \<Longrightarrow> mset (calls_of r (fp_calls s)) = mset_set {0..<ns ! (r - 1)}" "r \<le> length ns"
        using looping_end [OF l True] nh m T l by (auto simp: looping_def)
      have t: "t = s\<lparr> fp_main := MUnlock r \<rparr>" using step MTest True by (simp add: kt_forpool_def Let_def)
      have "mset (calls_of q (fp_calls s)) = mset_set {0..<ns ! (q - 1)}" if "0 < q" "q \<le> r" for q
        using co e(2) MTest that by (cases "q = r") (auto simp: fp_calls_ok_def)
      then have "fp_calls_ok T ns t" using co MTest by (simp add: fp_calls_ok_def t)
      then show ?thesis using len mu e MTest m t by (simp add: fp_inv_def phase_ok_def resting_def)
    next
      case False
      then show ?thesis using step MTest len ph co mu T by (auto simp: defs looping_def split: if_splits)
    qed
  next
    case (MWait r)
    then show ?thesis using step by (simp add: kt_forpool_def Let_def)
  next
    case (MWoken r)
    then show ?thesis using step len ph co mu nh T by (auto simp: defs looping_def split: if_splits)
  next
    case (MUnlock r)
    then show ?thesis using step len ph co mu nh T
      by (auto simp: defs resting_def preparing_def fp_next_def split: if_splits)
  next
    case (MSetN r)
    then show ?thesis using step len ph co mu by (auto simp: defs resting_def preparing_def)
  next
    case (MSetFunc r)
    then show ?thesis using step len ph co mu by (auto simp: defs resting_def preparing_def)
  next
    case (MSetPending r)
    then show ?thesis using step len ph co mu T by (auto simp: defs resting_def preparing_def prepared_def)
  next
    case (MSetIndex r k)
    then show ?thesis using step len ph co mu by (auto simp: defs resting_def preparing_def prepared_def less_Suc_eq nth_list_update)
  next
    case (MSetAction r k)
    have p: "k < T" "resting T k 1 s" "prepared T ns r (Suc k) s" and m: "fp_mutex s \<noteq> Some T" using ph mu(2) MSetAction by (simp_all add: phase_ok_def)
    have t: "t = s\<lparr> fp_main := (if Suc k < T then MSetIndex r (Suc k) else MLock r), fp_action := (fp_action s)[k := 1] \<rparr>"
      using step MSetAction by (simp add: kt_forpool_def Let_def)
    have r: "resting T (Suc k) 1 t" using p(1,2) len by (auto simp: resting_def t nth_list_update)
    have q: "prepared T ns r (Suc k) t" "0 < r" using p(3) by (simp_all add: prepared_def preparing_def t)
    have "phase_ok T ns t"
    proof (cases "Suc k < T")
      case False
      then have "Suc k = T" using p(1) by simp
      then show ?thesis using r q by (simp add: phase_ok_def t)
    qed (use r q in \<open>simp add: phase_ok_def t\<close>)
    moreover have "fp_calls_ok T ns t" using co MSetAction by (auto simp: fp_calls_ok_def t)
    ultimately show ?thesis using len mu m by (simp add: fp_inv_def t)
  next
    case (MKill k)
    have p: "k < T" "resting T k (- 1) s" and m: "fp_mutex s \<noteq> Some T" using ph mu(2) MKill by (simp_all add: phase_ok_def)
    have t: "t = s\<lparr> fp_main := (if Suc k < T then MKill (Suc k) else MKillBcast), fp_action := (fp_action s)[k := - 1] \<rparr>"
      using step MKill by (simp add: kt_forpool_def Let_def)
    have r: "resting T (Suc k) (- 1) t" using p len by (auto simp: resting_def t nth_list_update)
    have "phase_ok T ns t"
    proof (cases "Suc k < T")
      case False
      then have "Suc k = T" using p(1) by simp
      then show ?thesis using r by (simp add: phase_ok_def t)
    qed (use r in \<open>simp add: phase_ok_def t\<close>)
    moreover have "fp_calls_ok T ns t" using co MKill by (auto simp: fp_calls_ok_def t)
    ultimately show ?thesis using len mu m by (simp add: fp_inv_def t)
  next
    case MKillBcast
    then show ?thesis using step len ph co mu by (auto simp: defs resting_def)
  next
    case (MJoin k)
    then show ?thesis using step len ph co mu by (auto simp: defs less_Suc_eq split: if_splits)
  qed
qed

lemma fp_inv_step: "fp_inv T ns s \<Longrightarrow> 1 < T \<Longrightarrow> \<forall>n\<in>set ns. ktf_room T n \<Longrightarrow> fp_step T ns s t \<Longrightarrow> fp_inv T ns t"
  by (erule fp_step.cases) (auto intro: fp_inv_caller fp_inv_worker)

end
