(* ===== verification/KPoolRuns.thy ===== *)
theory KPoolRuns
  imports KPool
begin

text \<open>
  The runs of the thread pool of \<open>KPool\<close>: no deadlock, a measure that every step of the caller and of a worker lowers, and
  with them what a pool does from \<open>kt_forpool_init\<close> to the end of \<open>kt_forpool_destroy\<close>.
\<close>

section \<open>Progress\<close>

lemma worker_moves:
  assumes "fp_workers s ! i \<notin> {WUnborn, WWait, WExit, WJob Wild}" "fp_workers s ! i \<in> {WLock, WWoken} \<Longrightarrow> fp_mutex s = None"
  shows "\<exists>t. kt_fp_worker T i s = Some t"
proof (cases "fp_workers s ! i")
  case (WJob pc)
  obtain w pc' where "ktf_worker T (fp_n s) i (fp_i s) pc = (w, pc')" by fastforce
  then show ?thesis using WJob assms(1) by (cases pc) (simp_all add: kt_fp_worker_def Let_def del: ktf_worker.simps)
qed (use assms in \<open>simp_all add: kt_fp_worker_def Let_def\<close>)

lemma fp_progress:
  assumes inv: "fp_inv T ns s" and nd: "\<not> fp_done T s"
  shows "\<exists>t. fp_step T ns s t"
proof -
  have ph: "phase_ok T ns s" and mu: "\<And>j. j < T \<Longrightarrow> (fp_mutex s = Some j) = w_holds (fp_workers s ! j)"
      "(fp_mutex s = Some T) = m_holds (fp_main s)" "\<And>j. fp_mutex s = Some j \<Longrightarrow> j \<le> T"
    using inv by (auto simp: fp_inv_def)
  have wk: "\<exists>t. fp_step T ns s t" if "i < T" "fp_workers s ! i \<notin> {WUnborn, WWait, WExit, WJob Wild}"
      "fp_workers s ! i \<in> {WLock, WWoken} \<Longrightarrow> fp_mutex s = None" for i
    using worker_moves [OF that(2,3)] that(1) by (blast intro: fp_step.worker)
  have caller: "\<exists>t. fp_step T ns s t" if "kt_forpool T ns s \<noteq> None" using that by (blast intro: fp_step.caller)
  consider (worker) i where "fp_mutex s = Some i" "i < T" | (main) "fp_mutex s = Some T" | (free) "fp_mutex s = None"
    using mu(3) by (cases "fp_mutex s") (auto simp: le_less)
  then show ?thesis
  proof cases
    case worker
    then have "w_holds (fp_workers s ! i)" using mu(1) by simp
    then show ?thesis by (intro wk [OF worker(2)]) auto
  next
    case main
    then have "m_holds (fp_main s)" using mu(2) by simp
    then show ?thesis by (intro caller) (cases "fp_main s"; simp add: kt_forpool_def Let_def)
  next
    case free
    show ?thesis
    proof (cases "fp_main s")
      case (MWait r)
      then have l: "looping T ns r s" and b: "\<And>i. i < T \<Longrightarrow> fp_workers s ! i \<noteq> WUnborn" using ph by (auto simp: phase_ok_def)
      have "fp_pending s \<noteq> 0"
      proof
        assume "fp_pending s = 0"
        then obtain i where "i < T" "fp_workers s ! i = WSignal" using ph MWait by (auto simp: phase_ok_def)
        then show False using mu(1) [of i] free by simp
      qed
      then have "pending_of T (fp_workers s) (fp_action s) \<noteq> 0" using l by (simp add: looping_def)
      then obtain i where i: "i < T" "counted (fp_workers s ! i) (fp_action s ! i)"
        unfolding pending_of_def by (metis (mono_tags, lifting) lessThan_iff sum.neutral)
      have "fp_workers s ! i \<noteq> WJob Wild"
      proof
        assume w: "fp_workers s ! i = WJob Wild"
        have "loop_pc_ok r (fp_workers s ! i) (fp_action s ! i)" using l i by (simp add: looping_def)
        then have "job_pc_ok T (views T (fp_workers s) (fp_action s) ! i)" using l i w by (auto simp: looping_def jobs_inv_def)
        then show False using i w by simp
      qed
      moreover have "fp_workers s ! i \<noteq> WWait" "fp_workers s ! i \<noteq> WExit" using i by auto
      ultimately show ?thesis using wk [OF i(1)] b [OF i(1)] free by blast
    next
      case (MJoin k)
      then have k: "k < T" using ph nd by (auto simp: phase_ok_def fp_done_def)
      then show ?thesis
      proof (cases "fp_workers s ! k = WExit")
        case False
        then show ?thesis using ph MJoin k free by (intro wk [OF k]) (auto simp: phase_ok_def)
      qed (use MJoin k in \<open>intro caller, simp add: kt_forpool_def Let_def\<close>)
    qed (intro caller, simp add: kt_forpool_def Let_def free)+
  qed
qed

section \<open>Every run ends\<close>

definition wake_cost :: "nat \<Rightarrow> nat" where
  "wake_cost T = T * (2 * T + 20)"

fun fp_pc_left :: "nat \<Rightarrow> fp_pc \<Rightarrow> int \<Rightarrow> nat" where
  "fp_pc_left T WUnborn a = 12" | "fp_pc_left T WLock a = 11" | "fp_pc_left T WDec a = 10" | "fp_pc_left T WSignal a = 9"
| "fp_pc_left T WReset a = 5" | "fp_pc_left T WTest a = (if a = 0 then 4 else 2 * T + 19)" | "fp_pc_left T WWait a = 3"
| "fp_pc_left T WWoken a = 2 * T + 20" | "fp_pc_left T WRead a = 2 * T + 18" | "fp_pc_left T (WUnlock x) a = 2 * T + 17"
| "fp_pc_left T (WJob pc) a = job_left T pc + 12" | "fp_pc_left T WExit a = 0"

definition loop_cost :: "nat \<Rightarrow> int \<Rightarrow> nat" where
  "loop_cost T n = wake_cost T + 2 * T + 11 + nat n * (2 * T + 2)"

definition rest_cost :: "nat \<Rightarrow> int list \<Rightarrow> nat \<Rightarrow> nat" where
  "rest_cost T ns r = sum_list (map (loop_cost T) (drop r ns)) + wake_cost T + 2 * T + 2"

fun fp_main_left :: "nat \<Rightarrow> int list \<Rightarrow> int list \<Rightarrow> fp_main_pc \<Rightarrow> nat" where
  "fp_main_left T ns w (MSpawn k) = 5 + (T - k) + rest_cost T ns 0"
| "fp_main_left T ns w (MLock r) = (if r = 0 then 4 else wake_cost T + 7 + nat (ns ! (r - 1)) * (2 * T + 2)) + rest_cost T ns r"
| "fp_main_left T ns w (MBcast r) = wake_cost T + 6 + nat (ns ! (r - 1)) * (2 * T + 2) + rest_cost T ns r"
| "fp_main_left T ns w (MTest r) = 3 + (if r = 0 then 0 else indices_left T (ns ! (r - 1)) w * (2 * T + 2)) + rest_cost T ns r"
| "fp_main_left T ns w (MWait r) = 2 + (if r = 0 then 0 else indices_left T (ns ! (r - 1)) w * (2 * T + 2)) + rest_cost T ns r"
| "fp_main_left T ns w (MWoken r) = 4 + (if r = 0 then 0 else indices_left T (ns ! (r - 1)) w * (2 * T + 2)) + rest_cost T ns r"
| "fp_main_left T ns w (MUnlock r) = 1 + rest_cost T ns r"
| "fp_main_left T ns w (MSetN r) = wake_cost T + 2 * T + 11 + nat (ns ! (r - 1)) * (2 * T + 2) + rest_cost T ns r"
| "fp_main_left T ns w (MSetFunc r) = wake_cost T + 2 * T + 10 + nat (ns ! (r - 1)) * (2 * T + 2) + rest_cost T ns r"
| "fp_main_left T ns w (MSetPending r) = wake_cost T + 2 * T + 9 + nat (ns ! (r - 1)) * (2 * T + 2) + rest_cost T ns r"
| "fp_main_left T ns w (MSetIndex r i) = wake_cost T + 2 * (T - i) + 8 + nat (ns ! (r - 1)) * (2 * T + 2) + rest_cost T ns r"
| "fp_main_left T ns w (MSetAction r i) = wake_cost T + 2 * (T - i) + 7 + nat (ns ! (r - 1)) * (2 * T + 2) + rest_cost T ns r"
| "fp_main_left T ns w (MKill i) = wake_cost T + T + 2 + (T - i)"
| "fp_main_left T ns w MKillBcast = wake_cost T + T + 1"
| "fp_main_left T ns w (MJoin i) = T - i"

definition workers_left :: "nat \<Rightarrow> fp_pc list \<Rightarrow> int list \<Rightarrow> nat" where
  "workers_left T pcs acts = (\<Sum>i<T. fp_pc_left T (pcs ! i) (acts ! i))"

definition fp_left :: "nat \<Rightarrow> int list \<Rightarrow> fp_state \<Rightarrow> nat" where
  "fp_left T ns s = fp_main_left T ns (fp_i s) (fp_main s) + workers_left T (fp_workers s) (fp_action s)"

lemma rest_cost_Suc: "r < length ns \<Longrightarrow> rest_cost T ns r = loop_cost T (ns ! r) + rest_cost T ns (Suc r)"
  by (simp add: rest_cost_def flip: Cons_nth_drop_Suc)

lemma workers_left_update:
  assumes "i < T" "length pcs = T" "length acts = T"
  shows "workers_left T (pcs[i := pc]) (acts[i := a]) + fp_pc_left T (pcs ! i) (acts ! i) = workers_left T pcs acts + fp_pc_left T pc a"
  using sum_point [of i T "\<lambda>j. fp_pc_left T (pcs[i := pc] ! j) (acts[i := a] ! j)" "\<lambda>j. fp_pc_left T (pcs ! j) (acts ! j)"] assms
  by (simp add: workers_left_def)

text \<open>The action of a waiting worker does not matter.\<close>

lemma workers_left_rest:
  assumes "\<And>i. i < T \<Longrightarrow> pcs ! i = WWait"
  shows "workers_left T pcs acts = 3 * T"
  using assms by (simp add: workers_left_def)

lemma workers_left_broadcast:
  assumes "length (fp_workers s) = T" "\<And>i. i < T \<Longrightarrow> fp_workers s ! i = WWait"
  shows "workers_left T (fp_workers (fp_broadcast s)) acts = wake_cost T"
  using assms by (simp add: workers_left_def fp_broadcast_def wake_cost_def)

lemma indices_left_le: "indices_left T n w \<le> nat n"
  by (simp add: indices_left_def)

lemma caller_left:
  assumes inv: "fp_inv T ns s" and T: "1 < T" and step: "kt_forpool T ns s = Some t"
  shows "fp_left T ns t < fp_left T ns s"
proof -
  have len: "length (fp_workers s) = T" "length (fp_action s) = T" and ph: "phase_ok T ns s" using inv by (auto simp: fp_inv_def)
  note defs = kt_forpool_def Let_def fp_left_def
  show ?thesis
  proof (cases "fp_main s")
    case (MSpawn k)
    show ?thesis
    proof (cases "k < T")
      case True
      then have "fp_workers s ! k = WUnborn" using ph MSpawn by (simp add: phase_ok_def)
      then show ?thesis using step MSpawn True workers_left_update [OF True len, of WLock "fp_action s ! k"]
        by (auto simp: defs fp_go_def)
    qed (use step MSpawn in \<open>auto simp: defs\<close>)
  next
    case (MBcast r)
    then have "resting T T 1 s" "0 < r" using ph by (auto simp: phase_ok_def prepared_def preparing_def)
    then have w: "\<And>i. i < T \<Longrightarrow> fp_workers s ! i = WWait" by (simp add: resting_def)
    have "indices_left T (ns ! (r - 1)) (fp_i s) * (2 * T + 2) \<le> nat (ns ! (r - 1)) * (2 * T + 2)"
      using indices_left_le by (rule mult_le_mono1)
    then show ?thesis
      using step MBcast workers_left_broadcast [OF len(1) w, of "fp_action s"] \<open>0 < r\<close>
      by (auto simp: defs) (auto simp: fp_broadcast_def)
  next
    case (MUnlock r)
    then show ?thesis using step rest_cost_Suc [of r ns T] ph
      by (auto simp: defs fp_next_def phase_ok_def loop_cost_def rest_cost_def)
  next
    case (MSetAction r k)
    then have w: "\<And>i. i < T \<Longrightarrow> fp_workers s ! i = WWait" and k: "k < T" using ph by (auto simp: phase_ok_def resting_def)
    then show ?thesis using step MSetAction T workers_left_rest [OF w] by (auto simp: defs prepared_def preparing_def split: if_splits)
  next
    case (MKill k)
    then have w: "\<And>i. i < T \<Longrightarrow> fp_workers s ! i = WWait" and k: "k < T" using ph by (auto simp: phase_ok_def resting_def)
    then show ?thesis using step MKill workers_left_rest [OF w] by (auto simp: defs)
  next
    case MKillBcast
    then have w: "\<And>i. i < T \<Longrightarrow> fp_workers s ! i = WWait" using ph by (auto simp: phase_ok_def resting_def)
    then show ?thesis using step MKillBcast workers_left_broadcast [OF len(1) w, of "fp_action s"]
      by (auto simp: defs) (auto simp: fp_broadcast_def)
  qed (use step ph T in \<open>auto simp: defs phase_ok_def split: if_splits\<close>)
qed

lemma fp_left_move:
  assumes i: "i < T" "length (fp_workers s) = T" "length (fp_action s) = T"
    and t: "fp_workers t = (fp_workers s)[i := pc]" "fp_action t = (fp_action s)[i := a]"
    and less: "fp_main_left T ns (fp_i t) (fp_main t) + fp_pc_left T pc a
      < fp_main_left T ns (fp_i s) (fp_main s) + fp_pc_left T (fp_workers s ! i) (fp_action s ! i)"
  shows "fp_left T ns t < fp_left T ns s"
  using workers_left_update [OF i, of pc a] less by (simp add: fp_left_def t)

text \<open>A worker is at its jobs only while the caller waits.\<close>

lemma job_phase:
  assumes "phase_ok T ns s" "i < T" "fp_workers s ! i = WJob pc"
  obtains r where "0 < r" "looping T ns r s" "fp_main s \<in> {MTest r, MWait r, MWoken r}"
proof -
  have l: "\<not> looping T ns 0 s"
  proof
    assume "looping T ns 0 s"
    then have "loop_pc_ok 0 (fp_workers s ! i) (fp_action s ! i)" using assms(2) by (simp add: looping_def)
    then show False using assms(3) by simp
  qed
  have r: "\<not> resting T k v s" for k v
  proof
    assume "resting T k v s"
    then have "fp_workers s ! i = WWait" using assms(2) by (simp add: resting_def)
    then show False using assms(3) by simp
  qed
  have w: "fp_workers s ! i \<noteq> WUnborn" "fp_workers s ! i \<notin> {WWoken, WTest, WRead, WUnlock (- 1), WExit}" using assms(3) by simp_all
  have "r \<noteq> 0" if "looping T ns r s" for r using that l by metis
  with that have that': "thesis" if "looping T ns r s" "fp_main s \<in> {MTest r, MWait r, MWoken r}" for r using that by simp
  show thesis
  proof (cases "fp_main s")
    case (MLock r)
    then show thesis using assms(1) l r by (simp add: phase_ok_def split: if_splits)
  next
    case (MTest r)
    then show thesis using assms(1) by (intro that' [of r]) (simp_all add: phase_ok_def)
  next
    case (MWait r)
    then show thesis using assms(1) by (intro that' [of r]) (simp_all add: phase_ok_def)
  next
    case (MWoken r)
    then show thesis using assms(1) by (intro that' [of r]) (simp_all add: phase_ok_def)
  next
    case (MJoin k)
    then have "fp_workers s ! i \<in> {WWoken, WTest, WRead, WUnlock (- 1), WExit}" using assms(1,2) by (simp add: phase_ok_def)
    then show thesis using w(2) by simp
  qed (use assms(1) l r in \<open>simp_all add: phase_ok_def\<close>)
qed

lemma signal_left: "fp_main_left T ns w (fp_main (fp_signal s)) \<le> fp_main_left T ns w (fp_main s) + 2"
proof (cases "\<exists>r. fp_main s = MWait r")
  case True
  then show ?thesis by (auto simp: fp_signal_def)
next
  case False
  then have "fp_main (fp_signal s) = fp_main s" by (simp add: fp_signal_def split: fp_main_pc.splits)
  then show ?thesis by simp
qed

lemma job_left_step:
  assumes inv: "fp_inv T ns s" and room: "\<forall>n\<in>set ns. ktf_room T n" and i: "i < T" and pc: "fp_workers s ! i = WJob pc" "pc \<noteq> Finish" "pc \<noteq> Wild"
    and step: "ktf_worker T (fp_n s) i (fp_i s) pc = (w, pc')"
    and t: "fp_workers t = (fp_workers s)[i := WJob pc']" "fp_action t = fp_action s" "fp_i t = w" "fp_main t = fp_main s"
  shows "fp_left T ns t < fp_left T ns s"
proof -
  have len: "length (fp_workers s) = T" "length (fp_action s) = T" and ph: "phase_ok T ns s" using inv by (simp_all add: fp_inv_def)
  obtain r where r: "0 < r" "looping T ns r s" "fp_main s \<in> {MTest r, MWait r, MWoken r}" by (rule job_phase [OF ph i pc(1)])
  then have j: "jobs_inv T (fp_n s) (fp_i s) (views T (fp_workers s) (fp_action s)) (calls_of r (fp_calls s))" and n: "fp_n s = ns ! (r - 1)" "r \<le> length ns"
    by (auto simp: looping_def)
  have "ktf_room T (fp_n s)" using room r(1) n by simp
  from worker_step_left [OF j this i] i pc step
  have "indices_left T (fp_n s) w * (2 * T + 2) + job_left T pc' < indices_left T (fp_n s) (fp_i s) * (2 * T + 2) + job_left T pc" by simp
  then have "fp_main_left T ns w (fp_main s) + fp_pc_left T (WJob pc') a < fp_main_left T ns (fp_i s) (fp_main s) + fp_pc_left T (WJob pc) a" for a
    using r n by auto
  then show ?thesis
    using fp_left_move [OF i len, of t "WJob pc'" "fp_action s ! i" ns] by (simp add: t pc)
qed

lemma worker_left:
  assumes inv: "fp_inv T ns s" and room: "\<forall>n\<in>set ns. ktf_room T n" and i: "i < T" and step: "kt_fp_worker T i s = Some t"
  shows "fp_left T ns t < fp_left T ns s"
proof -
  have len: "length (fp_workers s) = T" "length (fp_action s) = T" using inv by (simp_all add: fp_inv_def)
  note move = fp_left_move [OF i len] and defs = kt_fp_worker_def fp_go_def Let_def
  show ?thesis
  proof (cases "fp_workers s ! i")
    case WLock
    then show ?thesis using step by (intro move [of _ WDec "fp_action s ! i"]) (auto simp: defs split: if_splits)
  next
    case WDec
    then show ?thesis
      using step by (intro move [of _ "if fp_pending s - 1 = 0 then WSignal else WReset" "fp_action s ! i"]) (auto simp: defs)
  next
    case WSignal
    then have t: "t = fp_signal (fp_go i WReset s)" using step by (simp add: defs)
    have "fp_main t = fp_main (fp_signal s)" "fp_i t = fp_i s" by (simp_all add: t fp_signal_def fp_go_def)
    then show ?thesis
      using WSignal signal_left [of T ns "fp_i s" s] by (intro move [of _ WReset "fp_action s ! i"]) (simp_all add: t fp_signal_def fp_go_def)
  next
    case WReset
    then show ?thesis using step by (intro move [of _ WTest 0]) (auto simp: defs)
  next
    case WTest
    then show ?thesis
      using step by (intro move [of _ "if fp_action s ! i = 0 then WWait else WRead" "fp_action s ! i"]) (auto simp: defs)
  next
    case WWoken
    then show ?thesis using step by (intro move [of _ WTest "fp_action s ! i"]) (auto simp: defs split: if_splits)
  next
    case WRead
    then show ?thesis using step by (intro move [of _ "WUnlock (fp_action s ! i)" "fp_action s ! i"]) (auto simp: defs)
  next
    case (WUnlock a)
    then show ?thesis using step by (intro move [of _ "if a < 0 then WExit else WJob Own" "fp_action s ! i"]) (auto simp: defs)
  next
    case (WJob pc)
    show ?thesis
    proof (cases "pc = Finish \<or> pc = Wild")
      case True
      then show ?thesis using step WJob by (intro move [of _ WLock "fp_action s ! i"]) (auto simp: defs)
    next
      case False
      obtain w pc' where j: "ktf_worker T (fp_n s) i (fp_i s) pc = (w, pc')" by fastforce
      have "t = (fp_go i (WJob pc') s)\<lparr> fp_i := w, fp_calls := fp_calls s @ map (\<lambda>x. (fp_func s, x, i)) (job_call pc) \<rparr>"
        using step WJob False j by (cases pc) (auto simp: kt_fp_worker_def Let_def)
      then show ?thesis using False by (intro job_left_step [OF inv room i WJob _ _ j]) (simp_all add: fp_go_def)
    qed
  qed (use step in \<open>simp_all add: kt_fp_worker_def Let_def\<close>)
qed

interpretation fp: terminating_system "\<lambda>s. 1 < T \<and> (\<forall>n\<in>set ns. ktf_room T n) \<and> s = kt_forpool_init T" "fp_step T ns"
  "\<lambda>s. 1 < T \<and> (\<forall>n\<in>set ns. ktf_room T n) \<and> fp_inv T ns s" "fp_left T ns" "fp_done T" for T ns
proof unfold_locales
  show "fp_left T ns t < fp_left T ns s" if "1 < T \<and> (\<forall>n\<in>set ns. ktf_room T n) \<and> fp_inv T ns s" "fp_step T ns s t" for s t
    using that(2,1) by cases (auto intro: caller_left worker_left)
qed (auto simp: fp_inv_init intro: fp_inv_step fp_progress)

text \<open>
  C5: The thread pool. A pool of more than one thread that is created, given the loops \<open>ns\<close> one after the other and destroyed, when no
  thread wakes up from a condition variable by itself: however its threads are scheduled, it does not deadlock and
  every run ends, with \<open>kt_forpool_destroy\<close> returning; then, for each loop, its body has been called exactly once with
  each of its indices, by a thread number below the number of threads, and with nothing else. The shared fields that the caller
  sets up without the mutex are read by no worker of the loop before.
\<close>

theorem kt_forpool_runs_each_loop_once:
  assumes "1 < T" "\<forall>n\<in>set ns. ktf_room T n"
  shows "(\<exists>s. (fp_step T ns)\<^sup>*\<^sup>* (kt_forpool_init T) s \<and> fp_done T s) \<and>
    (\<forall>m s. (fp_step T ns ^^ m) (kt_forpool_init T) s \<longrightarrow> m \<le> fp_left T ns (kt_forpool_init T) \<and> (fp_done T s \<or> (\<exists>t. fp_step T ns s t))) \<and>
    (\<forall>s. (fp_step T ns)\<^sup>*\<^sup>* (kt_forpool_init T) s \<longrightarrow> fp_done T s \<longrightarrow>
       (\<forall>r<length ns. mset (calls_of (Suc r) (fp_calls s)) = mset_set {0..<ns ! r}) \<and>
       (\<forall>(r, x, i)\<in>set (fp_calls s). 0 < r \<and> r \<le> length ns \<and> i < T))"
proof -
  have init: "1 < T \<and> (\<forall>n\<in>set ns. ktf_room T n) \<and> kt_forpool_init T = kt_forpool_init T" using assms by simp
  note inv = fp.inv_init [OF init]
  have reach: "fp_inv T ns s" if "(fp_step T ns)\<^sup>*\<^sup>* (kt_forpool_init T) s" for s
    using fp.inv_reachable [OF init that] by simp
  have "m \<le> fp_left T ns (kt_forpool_init T) \<and> (fp_done T s \<or> (\<exists>t. fp_step T ns s t))" if "(fp_step T ns ^^ m) (kt_forpool_init T) s" for m s
    using fp.run_bounded [OF that inv] fp_progress [OF reach [OF relpowp_imp_rtranclp [OF that]]] by auto
  moreover have "(\<forall>r<length ns. mset (calls_of (Suc r) (fp_calls s)) = mset_set {0..<ns ! r}) \<and>
       (\<forall>(r, x, i)\<in>set (fp_calls s). 0 < r \<and> r \<le> length ns \<and> i < T)" if "(fp_step T ns)\<^sup>*\<^sup>* (kt_forpool_init T) s" "fp_done T s" for s
    using reach [OF that(1)] that(2) by (auto simp: fp_inv_def fp_calls_ok_def fp_done_def)
  ultimately show ?thesis using fp.completes [OF inv] by blast
qed

theorem kt_forpool_runs_each_loop_once_witness:
  "\<exists>s. (fp_step 2 [1, 2])\<^sup>*\<^sup>* (kt_forpool_init 2) s \<and> mset (calls_of 1 (fp_calls s)) = {#0#} \<and> mset (calls_of 2 (fp_calls s)) = {#0, 1#}"
proof -
  have "\<forall>n\<in>set [1, 2 :: int]. ktf_room 2 n" by (simp add: ktf_room_def)
  from kt_forpool_runs_each_loop_once [OF _ this]
  obtain s where s: "(fp_step 2 [1, 2])\<^sup>*\<^sup>* (kt_forpool_init 2) s"
      "\<forall>r<2. mset (calls_of (Suc r) (fp_calls s)) = mset_set {0..<[1, 2] ! r}" by fastforce
  have "{0..<2} = {0, 1 :: int}" "{0..<1} = {0 :: int}" by auto
  then have "mset (calls_of 1 (fp_calls s)) = {#0#} \<and> mset (calls_of 2 (fp_calls s)) = {#0, 1#}"
    using s(2) [rule_format, of 0] s(2) [rule_format, of 1] by (simp add: numeral_2_eq_2)
  with s(1) show ?thesis by blast
qed

end
