(* ===== verification/KDq.thy ===== *)
theory KDq
  imports Prelude
begin

text \<open>
  The double-ended queue of klib (\<open>src/ext/klib/kdq.h\<close>), a ring buffer in a block of a power of two. The bit fields
  \<open>front:58\<close> and \<open>bits:6\<close> and the 64 bits of \<open>count\<close> are kept by remainders. The block is a function from offsets with the number of
  elements it has room for; \<open>malloc\<close> and \<open>realloc\<close> succeed. A pointer to an element is its offset.
\<close>

unbundle bit_operations_syntax

section \<open>The queue\<close>

record 'a kdq =
  q_front :: nat
  q_bits :: nat
  q_count :: nat
  q_mask :: nat
  q_a :: "'a mem"
  q_room :: nat

definition kdq_init :: "'a mem \<Rightarrow> 'a kdq" where
  "kdq_init a = \<lparr> q_front = 0, q_bits = 2, q_count = 0, q_mask = 2 ^ 2 - 1, q_a = a, q_room = 2 ^ 2 \<rparr>"

definition set_front :: "nat \<Rightarrow> 'a kdq \<Rightarrow> 'a kdq" where
  "set_front x q = q\<lparr> q_front := x mod 2 ^ 58 \<rparr>"

definition set_count :: "nat \<Rightarrow> 'a kdq \<Rightarrow> 'a kdq" where
  "set_count x q = q\<lparr> q_count := x mod 2 ^ 64 \<rparr>"

text \<open>\<open>memmove\<close> inside the block.\<close>

definition mem_move :: "nat \<Rightarrow> nat \<Rightarrow> nat \<Rightarrow> 'a mem \<Rightarrow> 'a mem" where
  "mem_move dst from n a = (\<lambda>i. if dst \<le> i \<and> i < dst + n then a (from + (i - dst)) else a i)"

lemma mem_move_in: "i < n \<Longrightarrow> mem_move dst from n a (dst + i) = a (from + i)"
  and mem_move_out: "i < dst \<or> dst + n \<le> i \<Longrightarrow> mem_move dst from n a i = a i"
  by (auto simp: mem_move_def)

text \<open>The loop over \<open>i\<close> with at most \<open>n\<close> turns left: the first power of two above \<open>c\<close>.\<close>

fun bits_above :: "nat \<Rightarrow> nat \<Rightarrow> nat \<Rightarrow> nat" where
  "bits_above c i 0 = i"
| "bits_above c i (Suc n) = (if 2 ^ i > c then i else bits_above c (Suc i) n)"

definition kdq_resize :: "'a kdq \<Rightarrow> nat \<Rightarrow> nat \<times> 'a kdq" where
  "kdq_resize q new_bits =
     (let old_size = 2 ^ q_bits q;
          new_bits = (if 2 ^ new_bits < q_count q then bits_above (q_count q) 0 64 else new_bits);
          new_size = 2 ^ new_bits
      in if new_bits = q_bits q then (q_bits q, q)
         else
           let q = (if new_bits > q_bits q then q\<lparr> q_room := 2 ^ new_bits \<rparr> else q);
               q = (if q_front q + q_count q \<le> old_size then
                      if q_front q + q_count q > new_size then
                        q\<lparr> q_a := mem_move 0 new_size (q_front q + q_count q - new_size) (q_a q) \<rparr>
                      else q
                    else
                      set_front (new_size - (old_size - q_front q))
                        (q\<lparr> q_a := mem_move (new_size - (old_size - q_front q)) (q_front q) (old_size - q_front q) (q_a q) \<rparr>));
               q = q\<lparr> q_bits := new_bits mod 2 ^ 6, q_mask := 2 ^ (new_bits mod 2 ^ 6) - 1 \<rparr>;
               q = (if new_bits < q_bits q then q\<lparr> q_room := 2 ^ new_bits \<rparr> else q)
           in (q_bits q, q))"

definition kdq_full :: "'a kdq \<Rightarrow> 'a kdq" where
  "kdq_full q = (if q_count q = 2 ^ q_bits q then snd (kdq_resize q (q_bits q + 1)) else q)"

definition kdq_pushp :: "'a kdq \<Rightarrow> nat \<times> 'a kdq" where
  "kdq_pushp q = (let q = kdq_full q in ((q_count q + q_front q) AND q_mask q, set_count (q_count q + 1) q))"

definition kdq_push :: "'a kdq \<Rightarrow> 'a \<Rightarrow> 'a kdq" where
  "kdq_push q v =
     (let q = kdq_full q; q' = set_count (q_count q + 1) q in q'\<lparr> q_a := (q_a q)((q_count q + q_front q) AND q_mask q := v) \<rparr>)"

definition kdq_unshiftp :: "'a kdq \<Rightarrow> nat \<times> 'a kdq" where
  "kdq_unshiftp q =
     (let q = kdq_full q; q = set_count (q_count q + 1) q;
          q = set_front (if q_front q \<noteq> 0 then q_front q - 1 else 2 ^ q_bits q - 1) q
      in (q_front q, q))"

definition kdq_unshift :: "'a kdq \<Rightarrow> 'a \<Rightarrow> 'a kdq" where
  "kdq_unshift q v = (case kdq_unshiftp q of (p, q) \<Rightarrow> q\<lparr> q_a := (q_a q)(p := v) \<rparr>)"

definition kdq_pop :: "'a kdq \<Rightarrow> nat option \<times> 'a kdq" where
  "kdq_pop q =
     (if q_count q \<noteq> 0 then
        let q = set_count (q_count q - 1) q in (Some ((q_count q + q_front q) AND q_mask q), q)
      else (None, q))"

definition kdq_shift :: "'a kdq \<Rightarrow> nat option \<times> 'a kdq" where
  "kdq_shift q =
     (if q_count q = 0 then (None, q)
      else
        let d = q_front q; q = set_front (q_front q + 1) q; q = set_front (q_front q AND q_mask q) q
        in (Some d, set_count (q_count q - 1) q))"

text \<open>The accessors; \<open>kdq_size\<close> is the field \<open>count\<close>.\<close>

definition kdq_first :: "'a kdq \<Rightarrow> 'a" where
  "kdq_first q = q_a q (q_front q)"

definition kdq_last :: "'a kdq \<Rightarrow> 'a" where
  "kdq_last q = q_a q ((q_front q + q_count q - 1) AND q_mask q)"

definition kdq_at :: "'a kdq \<Rightarrow> nat \<Rightarrow> 'a" where
  "kdq_at q i = q_a q ((q_front q + i) AND q_mask q)"

section \<open>Content and invariant\<close>

definition kdq_ok :: "'a kdq \<Rightarrow> bool" where
  "kdq_ok q \<longleftrightarrow> q_bits q \<le> 57 \<and> q_mask q = 2 ^ q_bits q - 1 \<and> q_front q < 2 ^ q_bits q \<and> q_count q \<le> 2 ^ q_bits q \<and>
     2 ^ q_bits q \<le> q_room q"

definition kdq_content :: "'a kdq \<Rightarrow> 'a list" where
  "kdq_content q = map (\<lambda>i. q_a q ((q_front q + i) mod 2 ^ q_bits q)) [0..<q_count q]"

lemma and_mask_mod: "x AND (2 ^ b - Suc 0) = x mod 2 ^ b" for x :: nat
  by (metis One_nat_def mask_eq_exp_minus_1 take_bit_eq_mask take_bit_eq_mod)

lemma kdq_ok_init: "kdq_ok (kdq_init a)" "kdq_content (kdq_init a) = []"
  by (simp_all add: kdq_ok_def kdq_init_def kdq_content_def)

lemma kdq_content_size [simp]: "length (kdq_content q) = q_count q"
  by (simp add: kdq_content_def)

lemma kdq_content_nth: "i < q_count q \<Longrightarrow> kdq_content q ! i = q_a q ((q_front q + i) mod 2 ^ q_bits q)"
  by (simp add: kdq_content_def)

lemma kdq_content_eqI:
  assumes "q_count q' = q_count q"
    "\<And>i. i < q_count q \<Longrightarrow> q_a q' ((q_front q' + i) mod 2 ^ q_bits q') = q_a q ((q_front q + i) mod 2 ^ q_bits q)"
  shows "kdq_content q' = kdq_content q"
  by (rule nth_equalityI) (simp_all add: assms kdq_content_nth)

lemma bits_above_spec: "c < 2 ^ (i + n) \<Longrightarrow> c < 2 ^ bits_above c i n \<and> i \<le> bits_above c i n \<and> bits_above c i n \<le> i + n \<and>
    (\<forall>j. i \<le> j \<and> j < bits_above c i n \<longrightarrow> 2 ^ j \<le> c)"
proof (induction n arbitrary: i)
  case (Suc n)
  show ?case
  proof (cases "c < 2 ^ i")
    case False
    with Suc.IH [of "Suc i"] Suc.prems have IH: "c < 2 ^ bits_above c (Suc i) n" "Suc i \<le> bits_above c (Suc i) n" "bits_above c (Suc i) n \<le> i + Suc n"
      "\<And>j. Suc i \<le> j \<Longrightarrow> j < bits_above c (Suc i) n \<Longrightarrow> 2 ^ j \<le> c" by simp_all
    have "2 ^ j \<le> c" if "i \<le> j" "j < bits_above c (Suc i) n" for j
      using IH(4) [of j] that False by (cases "j = i") simp_all
    with IH False show ?thesis by simp
  qed simp
qed simp

text \<open>
  A resize keeps the content if the front is inside of the new block or the content is wrapped around. It always is when the
  block grows.
\<close>

lemma kdq_resize_keeps:
  assumes ok: "kdq_ok q" and nb: "nb \<le> 57" "q_count q \<le> 2 ^ nb" and front: "q_front q < 2 ^ nb \<or> 2 ^ q_bits q < q_front q + q_count q"
  shows "kdq_content (snd (kdq_resize q nb)) = kdq_content q \<and> kdq_ok (snd (kdq_resize q nb)) \<and>
    q_bits (snd (kdq_resize q nb)) = nb \<and> q_count (snd (kdq_resize q nb)) = q_count q"
proof -
  let ?old = "2 ^ q_bits q :: nat" and ?new = "2 ^ nb :: nat" and ?f = "q_front q" and ?c = "q_count q"
  have q: "?f < ?old" "?c \<le> ?old" "?old \<le> q_room q" "q_bits q \<le> 57" using ok by (simp_all add: kdq_ok_def)
  have m: "nb mod 64 = nb" using nb by simp
  have small: "?new < 2 ^ 58" using nb(1) power_strict_increasing [of nb 58 "2 :: nat"] by simp
  have room: "?new \<le> (if nb > q_bits q then ?new else q_room q)"
  proof (cases "nb > q_bits q")
    case False
    then have "?new \<le> ?old" by simp
    then show ?thesis using q(3) False by (simp only: if_False)
  qed simp
  show ?thesis
  proof (cases "nb = q_bits q")
    case True
    then show ?thesis using ok nb by (simp add: kdq_resize_def Let_def)
  next
    case ne: False
    show ?thesis
    proof (cases "?f + ?c \<le> ?old")
      case unwrapped: True
      then have f: "?f < ?new" using front by simp
      let ?a = "if ?f + ?c > ?new then mem_move 0 ?new (?f + ?c - ?new) (q_a q) else q_a q"
      have r: "snd (kdq_resize q nb) = q\<lparr> q_room := if nb > q_bits q then ?new else q_room q, q_a := ?a, q_bits := nb, q_mask := ?new - 1 \<rparr>"
        using ne unwrapped nb(2) m by (simp add: kdq_resize_def Let_def)
      have "?a ((?f + i) mod ?new) = q_a q ((?f + i) mod ?old)" if i: "i < ?c" for i
      proof (cases "?f + i < ?new")
        case True
        then show ?thesis using i unwrapped nb(2) by (auto simp: mem_move_def)
      next
        case False
        then have "(?f + i) mod ?new = ?f + i - ?new" using i f nb(2) by (simp add: mod_if)
        then show ?thesis using False i unwrapped by (auto simp: mem_move_def)
      qed
      then have "kdq_content (snd (kdq_resize q nb)) = kdq_content q" unfolding r by (intro kdq_content_eqI) simp_all
      moreover have "kdq_ok (snd (kdq_resize q nb))"
        using q nb f room unfolding r by (simp add: kdq_ok_def)
      ultimately show ?thesis unfolding r by simp
    next
      case wrapped: False
      let ?t = "?old - ?f" let ?s = "?new - ?t"
      have t: "?t \<le> ?c" "?t \<le> ?new" "?s < 2 ^ 58" "0 < ?t" using wrapped nb(2) small q by auto
      have r: "snd (kdq_resize q nb) = q\<lparr> q_front := ?s, q_room := if nb > q_bits q then ?new else q_room q,
          q_a := mem_move ?s ?f ?t (q_a q), q_bits := nb, q_mask := ?new - 1 \<rparr>"
        using ne wrapped nb(2) m t by (simp add: kdq_resize_def Let_def set_front_def)
      have "mem_move ?s ?f ?t (q_a q) ((?s + i) mod ?new) = q_a q ((?f + i) mod ?old)" if i: "i < ?c" for i
      proof (cases "i < ?t")
        case True
        then have "?s + i < ?new" "?f + i < ?old" using t q by auto
        then show ?thesis using mem_move_in [OF True] by simp
      next
        case False
        then have "?s + i = ?new + (i - ?t)" "?f + i = ?old + (i - ?t)" "i - ?t < ?new" "i - ?t < ?old" "i - ?t < ?s"
          using t q i nb(2) by auto
        then show ?thesis by (simp add: mem_move_out)
      qed
      then have "kdq_content (snd (kdq_resize q nb)) = kdq_content q" unfolding r by (intro kdq_content_eqI) simp_all
      moreover have "kdq_ok (snd (kdq_resize q nb))"
        using q nb t room unfolding r by (simp add: kdq_ok_def)
      ultimately show ?thesis unfolding r by simp
    qed
  qed
qed

text \<open>For a size that is too small it takes the first power of two above the number of elements.\<close>

definition kdq_bits :: "'a kdq \<Rightarrow> nat \<Rightarrow> nat" where
  "kdq_bits q nb = (if 2 ^ nb < q_count q then bits_above (q_count q) 0 64 else nb)"

lemma kdq_resize_bits: "kdq_resize q nb = kdq_resize q (kdq_bits q nb)"
proof (cases "2 ^ nb < q_count q")
  case True
  show ?thesis
  proof (cases "q_count q < 2 ^ 64")
    case True
    with \<open>2 ^ nb < q_count q\<close> bits_above_spec [of "q_count q" 0 64] show ?thesis by (simp add: kdq_resize_def kdq_bits_def)
  next
    case False
    then show ?thesis using \<open>2 ^ nb < q_count q\<close> by (auto simp: kdq_resize_def kdq_bits_def Let_def)
  qed
qed (simp add: kdq_bits_def)

text \<open>
  A resize to any size keeps the elements and their order, unless the content lies in one piece whose start is
  beyond the new size.
\<close>

theorem kdq_resize_keeps_content:
  assumes "kdq_ok q" "nb \<le> 57" "q_count q < 2 ^ 57" "q_front q < 2 ^ kdq_bits q nb \<or> 2 ^ q_bits q < q_front q + q_count q"
  shows "kdq_content (snd (kdq_resize q nb)) = kdq_content q \<and> kdq_ok (snd (kdq_resize q nb)) \<and>
    q_bits (snd (kdq_resize q nb)) = kdq_bits q nb"
proof -
  have "kdq_bits q nb \<le> 57 \<and> q_count q \<le> 2 ^ kdq_bits q nb"
  proof (cases "2 ^ nb < q_count q")
    case True
    have s: "q_count q < 2 ^ bits_above (q_count q) 0 64" "\<And>j. j < bits_above (q_count q) 0 64 \<Longrightarrow> 2 ^ j \<le> q_count q"
      using bits_above_spec [of "q_count q" 0 64] assms(3) by simp_all
    have "bits_above (q_count q) 0 64 \<le> 57" using s(2) [of 57] assms(3) by (cases "57 < bits_above (q_count q) 0 64") auto
    then show ?thesis using s(1) True by (simp add: kdq_bits_def)
  qed (use assms(2) in \<open>simp add: kdq_bits_def\<close>)
  then show ?thesis using kdq_resize_keeps [OF assms(1), of "kdq_bits q nb"] assms(4) kdq_resize_bits [of q nb] by simp
qed

text \<open>A queue with room for sixteen elements whose three elements start at offset 12, and one where they start at 2.\<close>

definition queue_from :: "nat \<Rightarrow> nat kdq" where
  "queue_from f = \<lparr> q_front = f, q_bits = 4, q_count = 3, q_mask = 15, q_a = (\<lambda>i. i), q_room = 16 \<rparr>"

theorem kdq_resize_keeps_content_witness:
  "kdq_content (snd (kdq_resize (queue_from 2) 2)) = [2, 3, 4]"
proof -
  have "kdq_ok (queue_from 2)" "q_front (queue_from 2) < 2 ^ kdq_bits (queue_from 2) 2" "q_count (queue_from 2) < 2 ^ 57" "(2 :: nat) \<le> 57"
    by (simp_all add: kdq_ok_def queue_from_def kdq_bits_def)
  moreover have "kdq_content (queue_from 2) = [2, 3, 4]" by code_simp
  ultimately show ?thesis using kdq_resize_keeps_content [of "queue_from 2" 2] by simp
qed

text \<open>Shrinking to a quarter moves the elements to the wrong offsets.\<close>

lemma kdq_resize_loses_elements:
  "kdq_ok (queue_from 12) \<and> kdq_content (queue_from 12) = [12, 13, 14] \<and> kdq_content (snd (kdq_resize (queue_from 12) 2)) = [4, 5, 6]"
proof -
  have "kdq_ok (queue_from 12)" by (simp add: kdq_ok_def queue_from_def)
  moreover have "kdq_content (queue_from 12) = [12, 13, 14]" "kdq_content (snd (kdq_resize (queue_from 12) 2)) = [4, 5, 6]" by code_simp+
  ultimately show ?thesis by simp
qed

text \<open>The block is never made smaller: the test compares the new size with itself.\<close>

lemma kdq_resize_keeps_room:
  assumes "nb < 64" "2 ^ nb \<ge> q_count q"
  shows "q_room (snd (kdq_resize q nb)) = (if nb > q_bits q then 2 ^ nb else q_room q)"
  using assms by (auto simp: kdq_resize_def Let_def set_front_def)

section \<open>The interface of a deque\<close>

text \<open>\<open>inv r\<close> leaves room for \<open>r\<close> more insertions. A removal gives the element and the queue.\<close>

locale deque =
  fixes inv :: "nat \<Rightarrow> 'q \<Rightarrow> bool"
    and content :: "'q \<Rightarrow> 'a list"
    and push :: "'q \<Rightarrow> 'a \<Rightarrow> 'q"
    and unshift :: "'q \<Rightarrow> 'a \<Rightarrow> 'q"
    and pop :: "'q \<Rightarrow> 'a option \<times> 'q"
    and shift :: "'q \<Rightarrow> 'a option \<times> 'q"
  assumes push_inv: "inv (Suc r) q \<Longrightarrow> inv r (push q x)"
    and push_content: "inv (Suc r) q \<Longrightarrow> content (push q x) = content q @ [x]"
    and unshift_inv: "inv (Suc r) q \<Longrightarrow> inv r (unshift q x)"
    and unshift_content: "inv (Suc r) q \<Longrightarrow> content (unshift q x) = x # content q"
    and pop_inv: "inv (Suc r) q \<Longrightarrow> inv r (snd (pop q))"
    and pop_content: "inv (Suc r) q \<Longrightarrow> pop q = (y, q') \<Longrightarrow>
      (if content q = [] then y = None \<and> content q' = [] else y = Some (last (content q)) \<and> content q' = butlast (content q))"
    and shift_inv: "inv (Suc r) q \<Longrightarrow> inv r (snd (shift q))"
    and shift_content: "inv (Suc r) q \<Longrightarrow> shift q = (y, q') \<Longrightarrow>
      (if content q = [] then y = None \<and> content q' = [] else y = Some (hd (content q)) \<and> content q' = tl (content q))"

datatype 'a dq_op = Push 'a | Unshift 'a | Pop | Shift

fun dq_run :: "('q \<Rightarrow> 'a \<Rightarrow> 'q) \<Rightarrow> ('q \<Rightarrow> 'a \<Rightarrow> 'q) \<Rightarrow> ('q \<Rightarrow> 'a option \<times> 'q) \<Rightarrow> ('q \<Rightarrow> 'a option \<times> 'q) \<Rightarrow> 'a dq_op list \<Rightarrow> 'q \<Rightarrow>
    'a option list \<times> 'q" where
  "dq_run push unshift pop shift [] q = ([], q)"
| "dq_run push unshift pop shift (p # ps) q =
     (case (case p of Push x \<Rightarrow> (None, push q x) | Unshift x \<Rightarrow> (None, unshift q x) | Pop \<Rightarrow> pop q | Shift \<Rightarrow> shift q) of
        (y, q) \<Rightarrow> case dq_run push unshift pop shift ps q of (ys, q) \<Rightarrow> (y # ys, q))"

text \<open>The same on a list.\<close>

definition list_dq_run :: "'a dq_op list \<Rightarrow> 'a list \<Rightarrow> 'a option list \<times> 'a list" where
  "list_dq_run = dq_run (\<lambda>xs x. xs @ [x]) (\<lambda>xs x. x # xs)
     (\<lambda>xs. if xs = [] then (None, []) else (Some (last xs), butlast xs)) (\<lambda>xs. if xs = [] then (None, []) else (Some (hd xs), tl xs))"

context deque
begin

lemma run_refines:
  "inv (length ps + r) q \<Longrightarrow> dq_run push unshift pop shift ps q = (ys, q') \<Longrightarrow>
     list_dq_run ps (content q) = (ys, content q') \<and> inv r q'"
proof (induction ps arbitrary: q ys)
  case Nil
  then show ?case by (simp add: list_dq_run_def)
next
  case (Cons p ps)
  define op where "op = (case p of Push x \<Rightarrow> (None, push q x) | Unshift x \<Rightarrow> (None, unshift q x) | Pop \<Rightarrow> pop q | Shift \<Rightarrow> shift q)"
  obtain y q1 zs where o: "op = (y, q1)" "dq_run push unshift pop shift ps q1 = (zs, q')" "ys = y # zs"
    using Cons.prems(2) unfolding op_def [symmetric] dq_run.simps by (auto split: prod.splits)
  have inv: "inv (Suc (length ps + r)) q" using Cons.prems(1) by simp
  have one: "inv (length ps + r) q1 \<and> list_dq_run [p] (content q) = ([y], content q1)"
  proof (cases p)
    case (Push x)
    then show ?thesis using o(1) push_inv [OF inv] push_content [OF inv] by (auto simp: op_def list_dq_run_def)
  next
    case (Unshift x)
    then show ?thesis using o(1) unshift_inv [OF inv] unshift_content [OF inv] by (auto simp: op_def list_dq_run_def)
  next
    case Pop
    then show ?thesis using o(1) pop_inv [OF inv] pop_content [OF inv, of y q1] by (auto simp: op_def list_dq_run_def split: if_splits)
  next
    case Shift
    then show ?thesis using o(1) shift_inv [OF inv] shift_content [OF inv, of y q1] by (auto simp: op_def list_dq_run_def split: if_splits)
  qed
  have seq: "list_dq_run (p # ps) l = (case list_dq_run [p] l of (ys, l) \<Rightarrow> case list_dq_run ps l of (zs, l) \<Rightarrow> (ys @ zs, l))" for l
    by (simp add: list_dq_run_def split: prod.splits)
  from Cons.IH [OF conjunct1 [OF one] o(2)] one o(3) show ?case by (simp add: seq)
qed

end

section \<open>The ring buffer is a deque\<close>

text \<open>The client reads the element at the offset that it gets.\<close>

definition kdq_take :: "nat option \<times> 'a kdq \<Rightarrow> 'a option \<times> 'a kdq" where
  "kdq_take r = (map_option (q_a (snd r)) (fst r), snd r)"

definition kdq_inv :: "nat \<Rightarrow> 'a kdq \<Rightarrow> bool" where
  "kdq_inv r q \<longleftrightarrow> kdq_ok q \<and> q_count q + r \<le> 2 ^ 57"

lemma kdq_full_room:
  assumes "kdq_inv (Suc r) q"
  shows "kdq_ok (kdq_full q) \<and> kdq_content (kdq_full q) = kdq_content q \<and> q_count (kdq_full q) = q_count q \<and>
    q_count q < 2 ^ q_bits (kdq_full q)"
proof (cases "q_count q = 2 ^ q_bits q")
  case True
  have ok: "kdq_ok q" using assms by (simp add: kdq_inv_def)
  have "q_count q < 2 ^ 57" using assms by (simp add: kdq_inv_def)
  then have b: "q_bits q < 57" unfolding True by (rule power_less_imp_less_exp [rotated]) simp
  have "q_front q < 2 ^ (q_bits q + 1)" using ok by (simp add: kdq_ok_def)
  moreover have "q_count q \<le> 2 ^ (q_bits q + 1)" using True by simp
  ultimately have r: "kdq_content (snd (kdq_resize q (q_bits q + 1))) = kdq_content q \<and> kdq_ok (snd (kdq_resize q (q_bits q + 1))) \<and>
      q_bits (snd (kdq_resize q (q_bits q + 1))) = q_bits q + 1 \<and> q_count (snd (kdq_resize q (q_bits q + 1))) = q_count q"
    using b by (intro kdq_resize_keeps [OF ok]) simp_all
  have "kdq_full q = snd (kdq_resize q (q_bits q + 1))" using True by (simp only: kdq_full_def if_True simp_thms)
  then show ?thesis using r True by simp
next
  case False
  then show ?thesis using assms by (auto simp: kdq_inv_def kdq_full_def kdq_ok_def)
qed

lemma kdq_small:
  assumes "kdq_ok q"
  shows "q_front q < 2 ^ 57" "q_count q \<le> 2 ^ 57"
proof -
  have "(2 :: nat) ^ q_bits q \<le> 2 ^ 57" using assms by (intro power_increasing) (simp_all add: kdq_ok_def)
  then show "q_front q < 2 ^ 57" "q_count q \<le> 2 ^ 57" using assms unfolding kdq_ok_def by linarith+
qed

lemma kdq_push_spec:
  assumes "kdq_inv (Suc r) q"
  shows "kdq_inv r (kdq_push q x) \<and> kdq_content (kdq_push q x) = kdq_content q @ [x]"
proof -
  define p where "p = kdq_full q"
  note full = kdq_full_room [OF assms, folded p_def]
  have ok: "kdq_ok p" using full by simp
  have k: "q_mask p = 2 ^ q_bits p - 1" "q_front p < 2 ^ q_bits p" using ok by (simp_all add: kdq_ok_def)
  have c: "Suc (q_count p) mod 2 ^ 64 = Suc (q_count p)" using kdq_small [OF ok] by simp
  have r: "kdq_push q x = p\<lparr> q_count := Suc (q_count p), q_a := (q_a p)((q_front p + q_count p) mod 2 ^ q_bits p := x) \<rparr>"
    using c by (simp add: kdq_push_def Let_def set_count_def k(1) and_mask_mod add.commute flip: p_def)
  have ne: "(q_front p + i) mod 2 ^ q_bits p \<noteq> (q_front p + q_count p) mod 2 ^ q_bits p" if "i < q_count p" for i
    using that full k by (auto simp: mod_if)
  have "kdq_content (kdq_push q x) = kdq_content p @ [x]"
    unfolding r by (rule nth_equalityI) (auto simp: nth_append kdq_content_nth ne less_Suc_eq)
  moreover have "kdq_inv r (kdq_push q x)" using assms full unfolding r by (auto simp: kdq_inv_def kdq_ok_def)
  ultimately show ?thesis using full by simp
qed

lemma kdq_unshift_spec:
  assumes "kdq_inv (Suc r) q"
  shows "kdq_inv r (kdq_unshift q x) \<and> kdq_content (kdq_unshift q x) = x # kdq_content q"
proof -
  define p where "p = kdq_full q"
  note full = kdq_full_room [OF assms, folded p_def]
  have ok: "kdq_ok p" using full by simp
  define f where "f = (if q_front p \<noteq> 0 then q_front p - 1 else 2 ^ q_bits p - 1)"
  have k: "q_mask p = 2 ^ q_bits p - 1" "q_front p < 2 ^ q_bits p" "q_bits p \<le> 57" using ok by (simp_all add: kdq_ok_def)
  have c: "Suc (q_count p) mod 2 ^ 64 = Suc (q_count p)" using kdq_small [OF ok] by simp
  have "(2 :: nat) ^ q_bits p \<le> 2 ^ 57" using k(3) by (intro power_increasing) simp_all
  then have f: "f < 2 ^ q_bits p" "f mod 2 ^ 58 = f" "(f + 1) mod 2 ^ q_bits p = q_front p" using k by (auto simp: f_def)
  have r: "kdq_unshift q x = p\<lparr> q_count := Suc (q_count p), q_front := f, q_a := (q_a p)(f := x) \<rparr>"
    using c f(2) unfolding f_def
    by (cases "q_front p = 0") (simp_all add: kdq_unshift_def kdq_unshiftp_def Let_def set_count_def set_front_def flip: p_def)
  have at: "Suc (f + i) mod 2 ^ q_bits p = (q_front p + i) mod 2 ^ q_bits p" for i
    using f(3) mod_add_left_eq [of "f + 1" "2 ^ q_bits p" i] by simp
  have ne: "(q_front p + i) mod 2 ^ q_bits p \<noteq> f" if "i < q_count p" for i
    using that full k by (auto simp: f_def mod_if)
  have "kdq_content (kdq_unshift q x) = x # kdq_content p"
    unfolding r using f(1) by (intro nth_equalityI) (auto simp: nth_Cons kdq_content_nth at ne split: nat.splits)
  moreover have "kdq_inv r (kdq_unshift q x)" using assms full f unfolding r by (auto simp: kdq_inv_def kdq_ok_def)
  ultimately show ?thesis using full by simp
qed

lemma kdq_pop_spec:
  assumes "kdq_inv (Suc r) q" "kdq_take (kdq_pop q) = (y, q')"
  shows "kdq_inv r q' \<and>
    (if kdq_content q = [] then y = None \<and> kdq_content q' = [] else y = Some (last (kdq_content q)) \<and> kdq_content q' = butlast (kdq_content q))"
proof (cases "q_count q")
  case 0
  then show ?thesis using assms by (auto simp: kdq_pop_def kdq_take_def kdq_content_def kdq_inv_def)
next
  case (Suc n)
  have ok: "kdq_ok q" using assms(1) by (simp add: kdq_inv_def)
  have "n mod 2 ^ 64 = n" using kdq_small(2) [OF ok] Suc by simp
  then have r: "q' = q\<lparr> q_count := n \<rparr>" "y = Some (q_a q ((q_front q + n) mod 2 ^ q_bits q))"
    using assms(2) Suc ok by (auto simp: kdq_pop_def kdq_take_def set_count_def Let_def kdq_ok_def and_mask_mod add.commute)
  have "kdq_content q = kdq_content q' @ [q_a q ((q_front q + n) mod 2 ^ q_bits q)]"
    unfolding r(1) kdq_content_def by (simp add: Suc)
  then show ?thesis using r assms(1) Suc by (auto simp: kdq_inv_def kdq_ok_def)
qed

lemma kdq_shift_spec:
  assumes "kdq_inv (Suc r) q" "kdq_take (kdq_shift q) = (y, q')"
  shows "kdq_inv r q' \<and>
    (if kdq_content q = [] then y = None \<and> kdq_content q' = [] else y = Some (hd (kdq_content q)) \<and> kdq_content q' = tl (kdq_content q))"
proof (cases "q_count q")
  case 0
  then show ?thesis using assms by (auto simp: kdq_shift_def kdq_take_def kdq_content_def kdq_inv_def)
next
  case (Suc n)
  have ok: "kdq_ok q" using assms(1) by (simp add: kdq_inv_def)
  let ?f = "(q_front q + 1) mod 2 ^ q_bits q"
  have k: "q_front q < 2 ^ q_bits q" "q_mask q = 2 ^ q_bits q - 1" using ok by (simp_all add: kdq_ok_def)
  have s: "n mod 2 ^ 64 = n" "(q_front q + 1) mod 2 ^ 58 = q_front q + 1" "?f mod 2 ^ 58 = ?f"
    using kdq_small [OF ok] Suc k(1) by (auto simp: mod_if)
  then have r: "q' = q\<lparr> q_front := ?f, q_count := n \<rparr>" "y = Some (q_a q (q_front q))"
    using assms(2) Suc k(2) by (auto simp: kdq_shift_def kdq_take_def set_count_def set_front_def Let_def and_mask_mod)
  have "kdq_content q = q_a q (q_front q) # kdq_content q'"
  proof (rule nth_equalityI)
    fix i assume "i < length (kdq_content q)"
    then show "kdq_content q ! i = (q_a q (q_front q) # kdq_content q') ! i"
      unfolding r(1) using k(1) Suc by (cases i) (simp_all add: kdq_content_nth mod_simps)
  qed (simp add: r(1) Suc)
  then show ?thesis using r assms(1) Suc k(1) by (auto simp: kdq_inv_def kdq_ok_def)
qed

interpretation kdq: deque kdq_inv kdq_content kdq_push kdq_unshift "\<lambda>q. kdq_take (kdq_pop q)" "\<lambda>q. kdq_take (kdq_shift q)"
proof unfold_locales
  fix r and q :: "'a kdq" and x y q'
  assume inv: "kdq_inv (Suc r) q"
  show "kdq_inv r (kdq_push q x)" "kdq_content (kdq_push q x) = kdq_content q @ [x]" using kdq_push_spec [OF inv] by blast+
  show "kdq_inv r (kdq_unshift q x)" "kdq_content (kdq_unshift q x) = x # kdq_content q" using kdq_unshift_spec [OF inv] by blast+
  show "kdq_inv r (snd (kdq_take (kdq_pop q)))" "kdq_inv r (snd (kdq_take (kdq_shift q)))"
    using kdq_pop_spec [OF inv prod.collapse [symmetric]] kdq_shift_spec [OF inv prod.collapse [symmetric]] by blast+
  show "kdq_take (kdq_pop q) = (y, q') \<Longrightarrow>
      (if kdq_content q = [] then y = None \<and> kdq_content q' = [] else y = Some (last (kdq_content q)) \<and> kdq_content q' = butlast (kdq_content q))"
    using kdq_pop_spec [OF inv] by blast
  show "kdq_take (kdq_shift q) = (y, q') \<Longrightarrow>
      (if kdq_content q = [] then y = None \<and> kdq_content q' = [] else y = Some (hd (kdq_content q)) \<and> kdq_content q' = tl (kdq_content q))"
    using kdq_shift_spec [OF inv] by blast
qed

text \<open>
  C30: The ring buffer is a double-ended queue: any sequence of pushes and removals at both ends of a new queue gives what it gives on a
  list, and leaves that list as the content, seen through \<open>kdq_at\<close>, \<open>kdq_first\<close> and \<open>kdq_last\<close>; every element lies inside the block.
\<close>

theorem kdq_is_deque:
  assumes "length ps \<le> 2 ^ 57"
  shows "\<exists>q. dq_run kdq_push kdq_unshift (\<lambda>q. kdq_take (kdq_pop q)) (\<lambda>q. kdq_take (kdq_shift q)) ps (kdq_init a) =
      (fst (list_dq_run ps []), q) \<and> map (kdq_at q) [0..<q_count q] = snd (list_dq_run ps []) \<and>
    (0 < q_count q \<longrightarrow> kdq_first q = hd (snd (list_dq_run ps [])) \<and> kdq_last q = last (snd (list_dq_run ps []))) \<and>
    q_front q < q_room q \<and> (\<forall>i. (q_front q + i) AND q_mask q < q_room q)"
proof -
  obtain ys q where r: "dq_run kdq_push kdq_unshift (\<lambda>q. kdq_take (kdq_pop q)) (\<lambda>q. kdq_take (kdq_shift q)) ps (kdq_init a) = (ys, q)"
    by fastforce
  have "kdq_inv (length ps + 0) (kdq_init a)" using assms kdq_ok_init by (simp add: kdq_inv_def) (simp add: kdq_init_def)
  from kdq.run_refines [OF this r] have l: "list_dq_run ps [] = (ys, kdq_content q)" and ok: "kdq_ok q"
    by (simp_all add: kdq_ok_init kdq_inv_def)
  have k: "q_mask q = 2 ^ q_bits q - Suc 0" "q_front q < 2 ^ q_bits q" "2 ^ q_bits q \<le> q_room q" using ok by (simp_all add: kdq_ok_def)
  have "map (kdq_at q) [0..<q_count q] = kdq_content q" by (simp add: kdq_at_def kdq_content_def k(1) and_mask_mod)
  moreover have "kdq_first q = hd (kdq_content q) \<and> kdq_last q = last (kdq_content q)" if "0 < q_count q"
    using that k(2) by (simp add: kdq_first_def kdq_last_def kdq_content_def hd_map last_map k(1) and_mask_mod)
  moreover have "x AND q_mask q < q_room q" for x
    unfolding k(1) and_mask_mod by (rule less_le_trans [OF _ k(3)]) simp
  ultimately show ?thesis using r l k(2,3) by auto
qed

theorem kdq_is_deque_witness:
  "\<exists>q. dq_run kdq_push kdq_unshift (\<lambda>q. kdq_take (kdq_pop q)) (\<lambda>q. kdq_take (kdq_shift q))
      [Push 1, Unshift 2, Push 3, Unshift 4, Push 5, Pop, Shift] (kdq_init (\<lambda>_. 0)) = ([None, None, None, None, None, Some (5 :: nat), Some 4], q) \<and>
    map (kdq_at q) [0..<q_count q] = [2, 1, 3]"
proof -
  let ?ps = "[Push 1, Unshift 2, Push 3, Unshift 4, Push 5, Pop, Shift] :: nat dq_op list"
  have l: "list_dq_run ?ps [] = ([None, None, None, None, None, Some 5, Some 4], [2, 1, 3])" by code_simp
  have "length ?ps \<le> 2 ^ 57" by simp
  from kdq_is_deque [OF this, of "\<lambda>_. 0"] show ?thesis
    unfolding l fst_conv snd_conv by (elim exE conjE) (rule exI, rule conjI, assumption+)
qed

end
