(* ===== verification/Arrays.thy ===== *)
theory Arrays
  imports Prelude "HOL-Library.Monad_Syntax"
begin

text \<open>
  Arrays of the C code whose accesses are checked: a read or a write outside of the array makes the result \<open>None\<close>. Orders given by a
  comparison macro, and what it means to sort by one.
\<close>

section \<open>Checked accesses\<close>

definition aget :: "'a list \<Rightarrow> nat \<Rightarrow> 'a option" where
  "aget a i = (if i < length a then Some (a ! i) else None)"

definition aput :: "'a list \<Rightarrow> nat \<Rightarrow> 'a \<Rightarrow> 'a list option" where
  "aput a i x = (if i < length a then Some (a[i := x]) else None)"

definition aswap :: "'a list \<Rightarrow> nat \<Rightarrow> nat \<Rightarrow> 'a list option" where
  "aswap a i j = do { x \<leftarrow> aget a i; y \<leftarrow> aget a j; a \<leftarrow> aput a i y; aput a j x }"

named_theorems array_simps

lemma aget_in [array_simps]: "i < length a \<Longrightarrow> aget a i = Some (a ! i)"
  by (simp add: aget_def)

lemma aput_in [array_simps]: "i < length a \<Longrightarrow> aput a i x = Some (a[i := x])"
  by (simp add: aput_def)

lemma aswap_in [array_simps]: "i < length a \<Longrightarrow> j < length a \<Longrightarrow> aswap a i j = Some (a[i := a ! j, j := a ! i])"
  by (simp add: aswap_def array_simps)

lemma mset_list_swap: "i < length a \<Longrightarrow> j < length a \<Longrightarrow> mset (a[i := a ! j, j := a ! i]) = mset a"
  using mset_swap [of j a i] by simp

text \<open>The part of an array from \<open>i\<close> to before \<open>e\<close>.\<close>

definition slice :: "'a list \<Rightarrow> nat \<Rightarrow> nat \<Rightarrow> 'a list" where
  "slice a i e = take (e - i) (drop i a)"

lemma slice_empty [simp]: "e \<le> i \<Longrightarrow> slice a i e = []"
  by (simp add: slice_def)

lemma slice_Cons: "i < e \<Longrightarrow> e \<le> length a \<Longrightarrow> slice a i e = a ! i # slice a (Suc i) e"
  using Cons_nth_drop_Suc [of i a] by (simp add: slice_def take_Cons' flip: Cons_nth_drop_Suc)

lemma length_slice [simp]: "e \<le> length a \<Longrightarrow> length (slice a i e) = e - i"
  by (simp add: slice_def)

section \<open>Orders\<close>

text \<open>A strict weak order, as the sorting routines expect it of the comparison \<open>lt\<close>.\<close>

locale comparison =
  fixes lt :: "'a \<Rightarrow> 'a \<Rightarrow> bool"
  assumes lt_asym: "lt x y \<Longrightarrow> \<not> lt y x"
    and lt_weak: "lt x z \<Longrightarrow> lt x y \<or> lt y z"

definition sorted_by :: "('a \<Rightarrow> 'a \<Rightarrow> bool) \<Rightarrow> 'a list \<Rightarrow> bool" where
  "sorted_by lt xs \<longleftrightarrow> sorted_wrt (\<lambda>x y. \<not> lt y x) xs"

lemma sorted_by_Nil [simp]: "sorted_by lt []"
  by (simp add: sorted_by_def)

lemma sorted_by_Cons [simp]: "sorted_by lt (x # xs) \<longleftrightarrow> (\<forall>y\<in>set xs. \<not> lt y x) \<and> sorted_by lt xs"
  by (simp add: sorted_by_def)

lemma sorted_by_append [simp]: "sorted_by lt (xs @ ys) \<longleftrightarrow> sorted_by lt xs \<and> sorted_by lt ys \<and> (\<forall>x\<in>set xs. \<forall>y\<in>set ys. \<not> lt y x)"
  by (simp add: sorted_by_def sorted_wrt_append)

definition tied :: "('a \<Rightarrow> 'a \<Rightarrow> bool) \<Rightarrow> 'a \<Rightarrow> 'a \<Rightarrow> bool" where
  "tied lt x y \<longleftrightarrow> \<not> lt x y \<and> \<not> lt y x"

text \<open>Sorted, with the elements that compare equal in their old order.\<close>

definition stably_sorts :: "('a \<Rightarrow> 'a \<Rightarrow> bool) \<Rightarrow> 'a list \<Rightarrow> 'a list \<Rightarrow> bool" where
  "stably_sorts lt xs ys \<longleftrightarrow> sorted_by lt ys \<and> (\<forall>x. filter (tied lt x) ys = filter (tied lt x) xs)"

definition sorts :: "('a \<Rightarrow> 'a \<Rightarrow> bool) \<Rightarrow> 'a list \<Rightarrow> 'a list \<Rightarrow> bool" where
  "sorts lt xs ys \<longleftrightarrow> sorted_by lt ys \<and> mset ys = mset xs"

context comparison
begin

lemma lt_irrefl [simp]: "\<not> lt x x"
  using lt_asym by blast

lemma lt_trans: "lt x y \<Longrightarrow> lt y z \<Longrightarrow> lt x z"
  using lt_weak lt_asym by blast

lemma le_trans: "\<not> lt y x \<Longrightarrow> \<not> lt z y \<Longrightarrow> \<not> lt z x"
  using lt_weak by blast

lemma tied_refl [simp]: "tied lt x x"
  by (simp add: tied_def)

lemma tied_lt: "tied lt x y \<Longrightarrow> lt y z \<Longrightarrow> \<not> tied lt x z" "tied lt x y \<Longrightarrow> lt z y \<Longrightarrow> \<not> tied lt x z"
  using lt_weak by (auto simp: tied_def)

lemma stably_sorts_mset: "stably_sorts lt xs ys \<Longrightarrow> mset ys = mset xs"
proof (rule multiset_eqI)
  fix x
  assume "stably_sorts lt xs ys"
  then have "count (mset (filter (tied lt x) ys)) x = count (mset (filter (tied lt x) xs)) x" by (simp add: stably_sorts_def)
  then show "count (mset ys) x = count (mset xs) x" by (simp del: count_mset)
qed

lemma stably_sorts_sorts: "stably_sorts lt xs ys \<Longrightarrow> sorts lt xs ys"
  using stably_sorts_mset by (simp add: sorts_def) (simp add: stably_sorts_def)

end

text \<open>The comparisons \<open>ks_lt_generic\<close> and \<open>ks_lt_str\<close> of \<open>ext/klib/ksort.h\<close>; \<open>strcmp\<close> compares bytes as unsigned numbers.\<close>

definition ks_lt_generic :: "'a :: linorder \<Rightarrow> 'a \<Rightarrow> bool" where
  "ks_lt_generic a b \<longleftrightarrow> a < b"

fun c_strcmp :: "string \<Rightarrow> string \<Rightarrow> int" where
  "c_strcmp [] [] = 0"
| "c_strcmp [] (c # s) = - 1"
| "c_strcmp (c # s) [] = 1"
| "c_strcmp (c # s) (d # t) = (if c = d then c_strcmp s t else if (of_char c :: nat) < of_char d then - 1 else 1)"

definition ks_lt_str :: "string \<Rightarrow> string \<Rightarrow> bool" where
  "ks_lt_str a b \<longleftrightarrow> c_strcmp (cstr a) (cstr b) < 0"

interpretation lt_generic: comparison ks_lt_generic
  by unfold_locales (auto simp: ks_lt_generic_def)

lemma strcmp_asym: "c_strcmp s t < 0 \<Longrightarrow> \<not> c_strcmp t s < 0"
  by (induction s t rule: c_strcmp.induct) (auto split: if_splits)

lemma strcmp_weak: "c_strcmp s u < 0 \<Longrightarrow> c_strcmp s t < 0 \<or> c_strcmp t u < 0"
proof (induction s u arbitrary: t rule: c_strcmp.induct)
  case (2 c u)
  then show ?case by (cases t) auto
next
  case (4 c s d u)
  show ?case
  proof (cases t)
    case (Cons e t')
    then show ?thesis using 4 by (auto split: if_splits)
  qed simp
qed auto

interpretation lt_str: comparison ks_lt_str
  by unfold_locales (use strcmp_asym strcmp_weak in \<open>auto simp: ks_lt_str_def\<close>)

end
