(* ===== verification/KSort.thy ===== *)
theory KSort
  imports Arrays
begin

text \<open>
  The sorting routines of \<open>src/ext/klib/ksort.h\<close> that take a comparison: insertion sort and merge sort. An array is a list, a pointer
  into it an index; its length is far below \<open>2 ^ 62\<close>, so that the index arithmetic does not wrap around.
\<close>

section \<open>Insertion sort\<close>

primrec insert_back :: "('a \<Rightarrow> 'a \<Rightarrow> bool) \<Rightarrow> nat \<Rightarrow> 'a list \<Rightarrow> 'a list option" where
  "insert_back lt 0 a = Some a"
| "insert_back lt (Suc j) a =
     do { x \<leftarrow> aget a (Suc j); y \<leftarrow> aget a j;
          if lt x y then do { a \<leftarrow> aswap a (Suc j) j; insert_back lt j a } else Some a }"

function insert_loop :: "('a \<Rightarrow> 'a \<Rightarrow> bool) \<Rightarrow> nat \<Rightarrow> nat \<Rightarrow> 'a list \<Rightarrow> 'a list option" where
  "insert_loop lt n i a = (if i < n then do { a \<leftarrow> insert_back lt i a; insert_loop lt n (Suc i) a } else Some a)"
  by auto
termination by (relation "measure (\<lambda>(lt, n, i, a). n - i)") auto

declare insert_loop.simps [simp del]

definition ks_insertsort :: "('a \<Rightarrow> 'a \<Rightarrow> bool) \<Rightarrow> 'a list \<Rightarrow> 'a list option" where
  "ks_insertsort lt a = insert_loop lt (length a) 1 a"

text \<open>What the inner loop does: the element goes behind the last one that is not greater.\<close>

definition insert_right :: "('a \<Rightarrow> 'a \<Rightarrow> bool) \<Rightarrow> 'a \<Rightarrow> 'a list \<Rightarrow> 'a list" where
  "insert_right lt x xs = rev (dropWhile (lt x) (rev xs)) @ x # rev (takeWhile (lt x) (rev xs))"

lemma insert_right_snoc: "insert_right lt x (xs @ [y]) = (if lt x y then insert_right lt x xs @ [y] else xs @ [y, x])"
  by (simp add: insert_right_def)

lemma insert_right_Nil [simp]: "insert_right lt x [] = [x]"
  by (simp add: insert_right_def)

lemma length_insert_right [simp]: "length (insert_right lt x xs) = Suc (length xs)"
  by (induction xs rule: rev_induct) (simp_all add: insert_right_snoc)

lemma set_insert_right [simp]: "set (insert_right lt x xs) = insert x (set xs)"
  by (induction xs rule: rev_induct) (auto simp: insert_right_snoc)

lemma insert_back_right: "j < length a \<Longrightarrow> insert_back lt j a = Some (insert_right lt (a ! j) (take j a) @ drop (Suc j) a)"
proof (induction j arbitrary: a)
  case 0
  then show ?case using Cons_nth_drop_Suc [of 0 a] by simp
next
  case (Suc j)
  define b where "b = a[Suc j := a ! j, j := a ! Suc j]"
  have b: "b ! j = a ! Suc j" "take j b = take j a" "drop (Suc j) b = a ! j # drop (Suc (Suc j)) a" "length b = length a"
    using Suc.prems by (simp_all add: b_def drop_update_swap Cons_nth_drop_Suc [symmetric])
  have t: "take (Suc j) a = take j a @ [a ! j]" using Suc.prems by (simp add: take_Suc_conv_app_nth)
  show ?case
  proof (cases "lt (a ! Suc j) (a ! j)")
    case True
    then have "insert_back lt (Suc j) a = insert_back lt j b" using Suc.prems by (simp add: array_simps b_def)
    also have "\<dots> = Some (insert_right lt (b ! j) (take j b) @ drop (Suc j) b)" using Suc.prems by (intro Suc.IH) (simp add: b_def)
    finally show ?thesis using True by (simp add: b t insert_right_snoc)
  next
    case False
    have "a = take (Suc (Suc j)) a @ drop (Suc (Suc j)) a" by simp
    also have "take (Suc (Suc j)) a = take j a @ [a ! j, a ! Suc j]" using Suc.prems by (simp add: take_Suc_conv_app_nth)
    finally show ?thesis using Suc.prems False by (simp add: array_simps t insert_right_snoc)
  qed
qed

context comparison
begin

lemma sorted_insert_right: "sorted_by lt xs \<Longrightarrow> sorted_by lt (insert_right lt x xs)"
proof (induction xs rule: rev_induct)
  case (snoc y xs)
  have "\<not> lt x z" if "z \<in> set xs" "\<not> lt x y" for z using that snoc.prems le_trans by auto
  then show ?case using snoc lt_asym by (auto simp: insert_right_snoc)
qed simp

lemma filter_insert_right: "filter (tied lt z) (insert_right lt x xs) = filter (tied lt z) (xs @ [x])"
proof (induction xs rule: rev_induct)
  case (snoc y xs)
  then show ?case using tied_lt(1) [of z x y] by (auto simp: insert_right_snoc)
qed simp

lemma insert_loop_sorts:
  assumes "length a = n" "sorted_by lt (take i a)"
  shows "\<exists>b. insert_loop lt n i a = Some b \<and> stably_sorts lt a b"
  using assms
proof (induction "n - i" arbitrary: i a)
  case 0
  then show ?case by (simp add: insert_loop.simps stably_sorts_def)
next
  case (Suc d)
  define b where "b = insert_right lt (a ! i) (take i a) @ drop (Suc i) a"
  have i: "i < length a" using Suc.hyps(2) Suc.prems(1) by simp
  have b: "insert_back lt i a = Some b" "length b = n" "take (Suc i) b = insert_right lt (a ! i) (take i a)"
    using insert_back_right [OF i] i Suc.prems(1) by (simp_all add: b_def)
  have "filter (tied lt x) b = filter (tied lt x) (take i a @ a ! i # drop (Suc i) a)" for x
    by (simp add: b_def filter_insert_right)
  then have f: "filter (tied lt x) b = filter (tied lt x) a" for x using id_take_nth_drop [OF i] by simp
  have "sorted_by lt (take (Suc i) b)" using sorted_insert_right [OF Suc.prems(2)] by (simp add: b(3))
  moreover have "d = n - Suc i" using Suc.hyps(2) by simp
  ultimately obtain c where "insert_loop lt n (Suc i) b = Some c" "stably_sorts lt b c"
    using Suc.hyps(1) [of "Suc i" b] b(2) by blast
  then show ?case using i Suc.prems(1) b(1) f by (subst insert_loop.simps) (auto simp: stably_sorts_def)
qed

lemma insertsort_sorts: "\<exists>b. ks_insertsort lt a = Some b \<and> stably_sorts lt a b"
proof -
  have "sorted_by lt (take 1 a)" by (cases a) simp_all
  then show ?thesis using insert_loop_sorts [of a "length a" 1] by (simp add: ks_insertsort_def)
qed

end

section \<open>Merge sort\<close>

function merge_while :: "('a \<Rightarrow> 'a \<Rightarrow> bool) \<Rightarrow> 'a list \<Rightarrow> nat \<Rightarrow> nat \<Rightarrow> nat \<Rightarrow> nat \<Rightarrow> nat \<Rightarrow> 'a list \<Rightarrow> (nat \<times> nat \<times> nat \<times> 'a list) option" where
  "merge_while lt a ea eb j k p b =
     (if j < ea \<and> k < eb then
        do { y \<leftarrow> aget a k; x \<leftarrow> aget a j;
             if lt y x then do { b \<leftarrow> aput b p y; merge_while lt a ea eb j (Suc k) (Suc p) b }
             else do { b \<leftarrow> aput b p x; merge_while lt a ea eb (Suc j) k (Suc p) b } }
      else Some (j, k, p, b))"
  by auto
termination by (relation "measure (\<lambda>(lt, a, ea, eb, j, k, p, b). (ea - j) + (eb - k))") auto

function copy_while :: "'a list \<Rightarrow> nat \<Rightarrow> nat \<Rightarrow> nat \<Rightarrow> 'a list \<Rightarrow> (nat \<times> 'a list) option" where
  "copy_while a e j p b =
     (if j < e then do { x \<leftarrow> aget a j; b \<leftarrow> aput b p x; copy_while a e (Suc j) (Suc p) b } else Some (p, b))"
  by auto
termination by (relation "measure (\<lambda>(a, e, j, p, b). e - j)") auto

definition merge_run :: "('a \<Rightarrow> 'a \<Rightarrow> bool) \<Rightarrow> nat \<Rightarrow> nat \<Rightarrow> nat \<Rightarrow> 'a list \<Rightarrow> 'a list \<Rightarrow> 'a list option" where
  "merge_run lt n step i a b =
     (let (ea, eb) = (if n < i + step then (n, 0) else (i + step, if n < i + 2 * step then n else i + 2 * step))
      in do { (j, k, p, b) \<leftarrow> merge_while lt a ea eb i (i + step) i b;
              (p, b) \<leftarrow> copy_while a ea j p b;
              (p, b) \<leftarrow> copy_while a eb k p b;
              Some b })"

function merge_pass :: "('a \<Rightarrow> 'a \<Rightarrow> bool) \<Rightarrow> nat \<Rightarrow> nat \<Rightarrow> nat \<Rightarrow> 'a list \<Rightarrow> 'a list \<Rightarrow> 'a list option" where
  "merge_pass lt n shift i a b =
     (if i < n then do { b \<leftarrow> merge_run lt n (2 ^ shift) i a b; merge_pass lt n shift (i + 2 * 2 ^ shift) a b } else Some b)"
  by auto
termination by (relation "measure (\<lambda>(lt, n, shift, i, a, b). n - i)") (auto intro!: diff_less_mono2)

function pair_pass :: "('a \<Rightarrow> 'a \<Rightarrow> bool) \<Rightarrow> nat \<Rightarrow> nat \<Rightarrow> nat \<Rightarrow> 'a list \<Rightarrow> 'a list \<Rightarrow> 'a list option" where
  "pair_pass lt n i p a b =
     (if i < n then
        if i = n - 1 then do { x \<leftarrow> aget a i; b \<leftarrow> aput b p x; pair_pass lt n (i + 2) (p + 1) a b }
        else do { y \<leftarrow> aget a (i + 1); x \<leftarrow> aget a i;
                  b \<leftarrow> aput b p (if lt y x then y else x);
                  b \<leftarrow> aput b (p + 1) (if lt y x then x else y);
                  pair_pass lt n (i + 2) (p + 2) a b }
      else Some b)"
  by auto
termination by (relation "measure (\<lambda>(lt, n, i, p, a, b). n - i)") auto

declare merge_while.simps [simp del] copy_while.simps [simp del] merge_pass.simps [simp del] pair_pass.simps [simp del]

text \<open>The arrays \<open>a2[0]\<close> and \<open>a2[1]\<close>, of which number \<open>curr\<close> holds the data.\<close>

function merge_levels :: "('a \<Rightarrow> 'a \<Rightarrow> bool) \<Rightarrow> nat \<Rightarrow> nat \<Rightarrow> nat \<Rightarrow> 'a list \<Rightarrow> 'a list \<Rightarrow> (nat \<times> 'a list \<times> 'a list) option" where
  "merge_levels lt n shift cur x y =
     (if 2 ^ shift < n then
        let a = (if cur = 0 then x else y); b = (if cur = 0 then y else x)
        in do { b \<leftarrow> (if shift = 0 then pair_pass lt n 0 0 a b else merge_pass lt n shift 0 a b);
                if cur = 0 then merge_levels lt n (Suc shift) 1 x b else merge_levels lt n (Suc shift) 0 b y }
      else Some (cur, x, y))"
  by auto
termination by (relation "measure (\<lambda>(lt, n, shift, cur, x, y). n - 2 ^ shift)") (auto intro!: diff_less_mono2)

declare merge_levels.simps [simp del]

text \<open>The working space is given by the caller or allocated; the routine does not use its contents.\<close>

definition ks_mergesort :: "('a \<Rightarrow> 'a \<Rightarrow> bool) \<Rightarrow> 'a list \<Rightarrow> 'a list \<Rightarrow> 'a list option" where
  "ks_mergesort lt array temp =
     do { (cur, x, y) \<leftarrow> merge_levels lt (length array) 0 0 array temp;
          if cur = 1 then do { (p, x) \<leftarrow> copy_while y (length array) 0 0 x; Some x } else Some x }"

text \<open>The same on lists: the merge of two runs, and a pass over runs of length \<open>w\<close>.\<close>

fun merge_runs :: "('a \<Rightarrow> 'a \<Rightarrow> bool) \<Rightarrow> 'a list \<Rightarrow> 'a list \<Rightarrow> 'a list" where
  "merge_runs lt (x # xs) (y # ys) = (if lt y x then y # merge_runs lt (x # xs) ys else x # merge_runs lt xs (y # ys))"
| "merge_runs lt xs [] = xs"
| "merge_runs lt [] ys = ys"

lemma merge_runs_Nil [simp]: "merge_runs lt [] ys = ys"
  by (cases ys) simp_all

lemma length_merge_runs [simp]: "length (merge_runs lt xs ys) = length xs + length ys"
  by (induction lt xs ys rule: merge_runs.induct) simp_all

lemma set_merge_runs [simp]: "set (merge_runs lt xs ys) = set xs \<union> set ys"
  by (induction lt xs ys rule: merge_runs.induct) auto

function merge_all :: "('a \<Rightarrow> 'a \<Rightarrow> bool) \<Rightarrow> nat \<Rightarrow> 'a list \<Rightarrow> 'a list" where
  "merge_all lt w xs = (if xs = [] \<or> w = 0 then [] else merge_runs lt (take w xs) (take w (drop w xs)) @ merge_all lt w (drop (2 * w) xs))"
  by auto
termination by (relation "measure (\<lambda>(lt, w, xs). length xs)") auto

function runs :: "('a \<Rightarrow> 'a \<Rightarrow> bool) \<Rightarrow> nat \<Rightarrow> 'a list \<Rightarrow> bool" where
  "runs lt w xs = (if xs = [] \<or> w = 0 then True else sorted_by lt (take w xs) \<and> runs lt w (drop w xs))"
  by auto
termination by (relation "measure (\<lambda>(lt, w, xs). length xs)") auto

declare merge_all.simps [simp del] runs.simps [simp del]

lemma copy_while_slice:
  "e \<le> length a \<Longrightarrow> p + (e - j) \<le> length b \<Longrightarrow>
    copy_while a e j p b = Some (p + (e - j), take p b @ slice a j e @ drop (p + (e - j)) b)"
proof (induction a e j p b rule: copy_while.induct)
  case (1 a e j p b)
  show ?case
  proof (cases "j < e")
    case True
    then have "copy_while a e j p b = copy_while a e (Suc j) (Suc p) (b[p := a ! j])"
      using "1.prems" by (subst copy_while.simps) (simp add: array_simps)
    also have "\<dots> = Some (Suc p + (e - Suc j), take (Suc p) (b[p := a ! j]) @ slice a (Suc j) e @ drop (Suc p + (e - Suc j)) (b[p := a ! j]))"
      using True "1.prems" by (intro "1.IH") (simp_all add: array_simps)
    finally show ?thesis using True "1.prems" by (simp add: take_Suc_conv_app_nth slice_Cons Suc_diff_Suc)
  qed (subst copy_while.simps, simp)
qed

text \<open>The merging loop followed by the two copies.\<close>

lemma merge_while_runs:
  assumes "ea \<le> length a" "eb \<le> length a" "p + (ea - j) + (eb - k) \<le> length b"
  shows "do { (j, k, p, b) \<leftarrow> merge_while lt a ea eb j k p b; (p, b) \<leftarrow> copy_while a ea j p b; (p, b) \<leftarrow> copy_while a eb k p b; Some b } =
    Some (take p b @ merge_runs lt (slice a j ea) (slice a k eb) @ drop (p + (ea - j) + (eb - k)) b)"
  using assms
proof (induction lt a ea eb j k p b rule: merge_while.induct)
  case (1 lt a ea eb j k p b)
  show ?case
  proof (cases "j < ea \<and> k < eb")
    case True
    have sl: "slice a j ea = a ! j # slice a (Suc j) ea" "slice a k eb = a ! k # slice a (Suc k) eb"
      using True "1.prems" by (simp_all add: slice_Cons)
    have pb: "p < length b" using True "1.prems"(3) by linarith
    have g: "aget a k = Some (a ! k)" "aget a j = Some (a ! j)" "aput b p x = Some (b[p := x])" for x
      using True "1.prems"(1,2) pb by (simp_all add: array_simps)
    define N where "N = p + (ea - j) + (eb - k)"
    have N: "Suc p + (ea - j) + (eb - Suc k) = N" "Suc p + (ea - Suc j) + (eb - k) = N" "p < N" "N \<le> length b"
      using True "1.prems"(3) by (simp_all add: N_def) linarith+
    have tk: "take (Suc p) (b[p := x]) = take p b @ [x]" "drop N (b[p := x]) = drop N b" for x
      using pb N(3) by (simp_all add: take_Suc_conv_app_nth)
    show ?thesis
    proof (cases "lt (a ! k) (a ! j)")
      case less: True
      have "merge_while lt a ea eb j k p b = merge_while lt a ea eb j (Suc k) (Suc p) (b[p := a ! k])"
        using True less by (subst merge_while.simps) (simp add: g)
      then show ?thesis
        using "1.IH"(1) [OF True g(1,2) less g(3)] less "1.prems"(1,2) N(4) unfolding N(1) by (simp add: sl(1) tk) (simp add: sl N_def)
    next
      case notless: False
      have "merge_while lt a ea eb j k p b = merge_while lt a ea eb (Suc j) k (Suc p) (b[p := a ! j])"
        using True notless by (subst merge_while.simps) (simp add: g)
      then show ?thesis
        using "1.IH"(2) [OF True g(1,2) notless g(3)] notless "1.prems"(1,2) N(4) unfolding N(2) by (simp add: sl(2) tk) (simp add: sl N_def)
    qed
  next
    case False
    then have e: "merge_while lt a ea eb j k p b = Some (j, k, p, b)" by (subst merge_while.simps) auto
    show ?thesis
    proof (cases "j < ea")
      case True
      then have "eb \<le> k" using False by simp
      then show ?thesis using "1.prems" True by (simp add: e copy_while_slice) 
    next
      case False
      then show ?thesis using "1.prems" by (simp add: e copy_while_slice)
    qed
  qed
qed

lemma merge_run_spec:
  assumes "n \<le> length a" "n \<le> length b" "i < n"
  shows "merge_run lt n step i a b =
    Some (take i b @ merge_runs lt (take step (drop i (take n a))) (take step (drop (i + step) (take n a))) @ drop (min n (i + 2 * step)) b)"
proof (cases "n < i + step")
  case True
  then have "slice a i n = take step (drop i (take n a))" "take step (drop (i + step) (take n a)) = []"
    using assms by (simp_all add: slice_def drop_take)
  then show ?thesis
    using True assms merge_while_runs [of n a 0 i i "i + step" b lt] by (simp add: merge_run_def split_beta)
next
  case False
  define e where "e = min n (i + 2 * step)"
  have "e - (i + step) = min step (n - (i + step))" "min step (n - i) = step" using False by (simp_all add: e_def)
  then have "slice a i (i + step) = take step (drop i (take n a))" "slice a (i + step) e = take step (drop (i + step) (take n a))"
    using False by (simp_all add: slice_def drop_take)
  moreover have "i + step \<le> e" "e \<le> n" using False by (simp_all add: e_def)
  moreover have "(if n < i + 2 * step then n else i + 2 * step) = e" by (simp add: e_def)
  ultimately show ?thesis
    using False assms merge_while_runs [of "i + step" a e i i "i + step" b lt]
    by (simp add: merge_run_def split_beta e_def [symmetric])
qed

lemma merge_pass_all:
  "n \<le> length a \<Longrightarrow> n \<le> length b \<Longrightarrow>
    merge_pass lt n shift i a b = Some (take (min i n) b @ merge_all lt (2 ^ shift) (drop i (take n a)) @ drop n b)"
proof (induction lt n shift i a b rule: merge_pass.induct)
  case (1 lt n shift i a b)
  let ?w = "2 ^ shift :: nat"
  show ?case
  proof (cases "i < n")
    case True
    define m where "m = merge_runs lt (take ?w (drop i (take n a))) (take ?w (drop (i + ?w) (take n a)))"
    define e where "e = min n (i + 2 * ?w)"
    define c where "c = take i b @ m @ drop e b"
    have run: "merge_run lt n ?w i a b = Some c" using merge_run_spec [OF "1.prems" True] by (simp add: c_def e_def m_def)
    have "i + (min (n - i) w + min (n - (i + w)) w) = min n (i + 2 * w)" for w
      using True unfolding min_def by (auto split: if_splits)
    from this [of ?w] have "i + length m = e" using "1.prems" by (simp add: m_def e_def)
    then have lm: "length (take i b @ m) = e" "i \<le> e" using True "1.prems"(2) by simp_all
    have "e \<le> n" "min (i + 2 * ?w) n = e" by (simp_all add: e_def)
    then have c: "length c = length b" "drop n c = drop n b" "take (min (i + 2 * ?w) n) c = take i b @ m"
      using lm "1.prems"(2) unfolding c_def append_assoc [symmetric] by simp_all
    have ne: "drop i (take n a) \<noteq> []" using True "1.prems" by simp
    have "merge_pass lt n shift i a b = merge_pass lt n shift (i + 2 * ?w) a c" using True run by (subst merge_pass.simps) simp
    also have "\<dots> = Some (take (min (i + 2 * ?w) n) c @ merge_all lt ?w (drop (i + 2 * ?w) (take n a)) @ drop n c)"
      using "1.prems" c(1) by (intro "1.IH" [OF True run]) simp_all
    finally show ?thesis
      using True ne unfolding c(2,3) by (simp add: m_def merge_all.simps [of lt ?w "drop i (take n a)"] ac_simps)
  next
    case False
    then show ?thesis using "1.prems" by (subst merge_pass.simps) (simp add: merge_all.simps)
  qed
qed

lemma pair_pass_all:
  assumes "n \<le> length a" "n \<le> length b"
  shows "pair_pass lt n i i a b = Some (take (min i n) b @ merge_all lt 1 (drop i (take n a)) @ drop n b)"
  using assms(2)
proof (induction "n - i" arbitrary: i b rule: less_induct)
  case less
  consider (over) "n \<le> i" | (last) "i = n - 1" "i < n" | (pair) "i + 1 < n" by linarith
  then show ?case
  proof cases
    case over
    then show ?thesis using less.prems assms(1) by (subst pair_pass.simps) (simp add: merge_all.simps)
  next
    case last
    have "drop i (take n a) = [a ! i]" using last assms(1) by (subst Cons_nth_drop_Suc [symmetric]) simp_all
    then have m: "merge_all lt 1 (drop i (take n a)) = [a ! i]" by (simp add: merge_all.simps)
    have "pair_pass lt n i i a b = pair_pass lt n (i + 2) (i + 1) a (b[i := a ! i])"
      using last assms(1) less.prems by (subst pair_pass.simps) (simp add: array_simps)
    also have "\<dots> = Some (b[i := a ! i])" using last by (subst pair_pass.simps) simp
    also have "b[i := a ! i] = take i b @ [a ! i] @ drop n b" using last less.prems by (simp add: upd_conv_take_nth_drop)
    finally show ?thesis using last m by simp
  next
    case pair
    define c where "c = b[i := if lt (a ! (i + 1)) (a ! i) then a ! (i + 1) else a ! i, i + 1 := if lt (a ! (i + 1)) (a ! i) then a ! i else a ! (i + 1)]"
    have d: "drop i (take n a) = a ! i # a ! (i + 1) # drop (i + 2) (take n a)"
      using pair assms(1) by (simp add: Cons_nth_drop_Suc [symmetric])
    have c: "take (i + 2) c = take i b @ merge_runs lt [a ! i] [a ! (i + 1)]" "drop n c = drop n b" "length c = length b"
      using pair less.prems by (simp_all add: c_def take_Suc_conv_app_nth)
    have "i \<noteq> n - 1" using pair by simp
    then have "pair_pass lt n i i a b = pair_pass lt n (i + 2) (i + 2) a c"
      using pair assms(1) less.prems by (subst pair_pass.simps) (simp add: array_simps c_def)
    also have "\<dots> = Some (take (min (i + 2) n) c @ merge_all lt 1 (drop (i + 2) (take n a)) @ drop n c)"
      using pair less.prems c(3) by (intro less.hyps) simp_all
    also have "min (i + 2) n = i + 2" using pair by simp
    finally have r: "pair_pass lt n i i a b = Some (take (i + 2) c @ merge_all lt 1 (drop (i + 2) (take n a)) @ drop n c)" .
    have "merge_all lt 1 (x # y # r) = merge_runs lt [x] [y] @ merge_all lt 1 r" for x y r
      by (subst merge_all.simps) (simp add: numeral_2_eq_2)
    then show ?thesis using pair unfolding r c(1,2) d by (simp add: min_def)
  qed
qed

lemma runs_one: "runs lt 1 xs"
proof (induction xs)
  case (Cons x xs)
  then show ?case by (subst runs.simps) simp
qed (simp add: runs.simps)

lemma runs_whole: "length xs \<le> w \<Longrightarrow> runs lt w xs \<Longrightarrow> sorted_by lt xs"
  by (cases "xs = []") (auto simp: runs.simps [of lt w xs] split: if_splits)

context comparison
begin

lemma sorted_merge_runs: "sorted_by lt xs \<Longrightarrow> sorted_by lt ys \<Longrightarrow> sorted_by lt (merge_runs lt xs ys)"
proof (induction "length xs + length ys" arbitrary: xs ys)
  case (Suc n)
  show ?case
  proof (cases xs; cases ys)
    fix x xs' y ys'
    assume e: "xs = x # xs'" "ys = y # ys'"
    show ?thesis
    proof (cases "lt y x")
      case True
      have "\<not> lt z y" if "z \<in> set xs" for z using that e(1) Suc.prems(1) True lt_asym le_trans by (metis list.set_cases set_ConsD sorted_by_Cons)
      then show ?thesis using Suc e True by auto
    next
      case False
      have "\<not> lt z x" if "z \<in> set ys" for z using that e(2) Suc.prems(2) False le_trans by auto
      then show ?thesis using Suc e False by auto
    qed
  qed (use Suc.prems in auto)
qed simp

lemma filter_merge_runs:
  "sorted_by lt xs \<Longrightarrow> filter (tied lt z) (merge_runs lt xs ys) = filter (tied lt z) (xs @ ys)"
proof (induction "length xs + length ys" arbitrary: xs ys)
  case (Suc n)
  show ?case
  proof (cases xs; cases ys)
    fix x xs' y ys'
    assume e: "xs = x # xs'" "ys = y # ys'"
    show ?thesis
    proof (cases "lt y x")
      case True
      have "\<not> tied lt z u" if "tied lt z y" "u \<in> set xs" for u
      proof -
        have "lt y u" using True that(2) e(1) Suc.prems lt_weak by auto
        then show ?thesis using that(1) tied_lt by blast
      qed
      then have "filter (tied lt z) xs = []" if "tied lt z y" using that by (auto simp: filter_empty_conv)
      moreover have "filter (tied lt z) (merge_runs lt xs ys') = filter (tied lt z) (xs @ ys')" using Suc e(2) by simp
      ultimately show ?thesis using e True by auto
    next
      case False
      then show ?thesis using Suc e by simp
    qed
  qed simp_all
qed simp

lemma merge_all_runs: "0 < w \<Longrightarrow> runs lt w xs \<Longrightarrow>
    runs lt (2 * w) (merge_all lt w xs) \<and> length (merge_all lt w xs) = length xs \<and>
    (\<forall>z. filter (tied lt z) (merge_all lt w xs) = filter (tied lt z) xs)"
proof (induction "length xs" arbitrary: xs rule: less_induct)
  case less
  show ?case
  proof (cases "xs = []")
    case True
    then show ?thesis by (simp add: merge_all.simps runs.simps)
  next
    case False
    let ?m = "merge_runs lt (take w xs) (take w (drop w xs))" and ?r = "merge_all lt w (drop (2 * w) xs)"
    have r: "merge_all lt w xs = ?m @ ?r" using False less.prems(1) by (subst merge_all.simps) simp
    have s: "sorted_by lt (take w xs)" "runs lt w (drop w xs)" using False less.prems by (simp_all add: runs.simps [of lt w xs])
    then have s': "sorted_by lt (take w (drop w xs))" "runs lt w (drop (2 * w) xs)"
      using less.prems(1) by (auto simp: runs.simps [of lt w "drop w xs"] mult_2 add.commute runs.simps [of lt w "[]"] split: if_splits)
    have ih: "runs lt (2 * w) ?r" "length ?r = length xs - 2 * w" "\<And>z. filter (tied lt z) ?r = filter (tied lt z) (drop (2 * w) xs)"
      using less.hyps [OF _ less.prems(1) s'(2)] False less.prems(1) by simp_all
    have lm: "length ?m = min (length xs) (2 * w)" by simp
    have "sorted_by lt ?m" using s(1) s'(1) by (rule sorted_merge_runs)
    moreover have "take (2 * w) (?m @ ?r) = ?m \<and> drop (2 * w) (?m @ ?r) = ?r"
    proof (cases "length xs \<le> 2 * w")
      case True
      then have "?r = []" using ih(2) by simp
      then show ?thesis using True lm by simp
    qed (use lm in simp)
    ultimately have "runs lt (2 * w) (?m @ ?r)" using ih(1) by (subst runs.simps) metis
    moreover have "filter (tied lt z) (?m @ ?r) = filter (tied lt z) xs" for z
    proof -
      have "xs = take w xs @ take w (drop w xs) @ drop (2 * w) xs" by (simp add: mult_2 flip: drop_drop)
      then show ?thesis using filter_merge_runs [OF s(1)] ih(3) by (metis append.assoc filter_append)
    qed
    ultimately show ?thesis using lm ih(2) unfolding r by simp
  qed
qed

lemma merge_levels_sorts:
  assumes "length x \<ge> n" "length y \<ge> n" "cur \<in> {0, 1}" "runs lt (2 ^ shift) (take n (if cur = 0 then x else y))"
  shows "\<exists>cur' x' y'. merge_levels lt n shift cur x y = Some (cur', x', y') \<and> cur' \<in> {0, 1} \<and> length x' = length x \<and> length y' = length y \<and>
    stably_sorts lt (take n (if cur = 0 then x else y)) (take n (if cur' = 0 then x' else y'))"
  using assms
proof (induction "n - 2 ^ shift" arbitrary: shift cur x y rule: less_induct)
  case less
  define a where "a = (if cur = 0 then x else y)"
  define b where "b = (if cur = 0 then y else x)"
  show ?case
  proof (cases "2 ^ shift < n")
    case False
    then have "sorted_by lt (take n a)" using less.prems runs_whole [of "take n a" "2 ^ shift" lt] by (simp add: a_def)
    then show ?thesis using False less.prems(3) by (subst merge_levels.simps) (simp add: stably_sorts_def a_def)
  next
    case True
    have len: "n \<le> length a" "n \<le> length b" using less.prems by (simp_all add: a_def b_def)
    define c where "c = merge_all lt (2 ^ shift) (take n a) @ drop n b"
    have pass: "(if shift = 0 then pair_pass lt n 0 0 a b else merge_pass lt n shift 0 a b) = Some c"
      using pair_pass_all [OF len, of lt 0] merge_pass_all [OF len, of lt shift 0] by (simp add: c_def)
    have m: "runs lt (2 ^ Suc shift) (take n c)" "length c = length b" "\<And>z. filter (tied lt z) (take n c) = filter (tied lt z) (take n a)"
      using merge_all_runs [of "2 ^ shift" "take n a"] less.prems(4) len by (simp_all add: a_def c_def)
    have d: "n - 2 ^ Suc shift < n - 2 ^ shift" using True by (intro diff_less_mono2) simp_all
    show ?thesis
    proof (cases "cur = 0")
      case True
      then have ab: "a = x" "b = y" by (simp_all add: a_def b_def)
      have "merge_levels lt n shift cur x y = merge_levels lt n (Suc shift) 1 x c"
        using \<open>2 ^ shift < n\<close> True pass unfolding ab by (subst merge_levels.simps) simp
      then show ?thesis using less.hyps [OF d, of x c 1] less.prems(1,2) m True by (simp add: stably_sorts_def a_def b_def)
    next
      case False
      then have ab: "a = y" "b = x" by (simp_all add: a_def b_def)
      have "merge_levels lt n shift cur x y = merge_levels lt n (Suc shift) 0 c y"
        using \<open>2 ^ shift < n\<close> False pass unfolding ab by (subst merge_levels.simps) simp
      then show ?thesis using less.hyps [OF d, of c y 0] less.prems(1,2) m False by (simp add: stably_sorts_def a_def b_def)
    qed
  qed
qed

lemma mergesort_sorts:
  assumes "length a \<le> length temp"
  shows "\<exists>b. ks_mergesort lt a temp = Some b \<and> stably_sorts lt a b"
proof -
  let ?n = "length a"
  obtain c x y where r: "merge_levels lt ?n 0 0 a temp = Some (c, x, y)" "c \<in> {0, 1}" "length x = ?n" "length y = length temp"
      "stably_sorts lt a (take ?n (if c = 0 then x else y))"
    using merge_levels_sorts [of ?n a temp 0 0] assms runs_one [of lt a] by auto
  then show ?thesis
    using assms copy_while_slice [of ?n y 0 0 x] by (auto simp: ks_mergesort_def slice_def)
qed

end

text \<open>
  C33: Insertion sort and merge sort are stable sorting routines for every comparison that is a strict weak order: they end, access nothing outside of
  the arrays, and leave the elements in order, those that compare equal in their old order. The second array of merge sort needs as many
  elements; what it holds does not matter.
\<close>

theorem ks_mergesort_stable:
  assumes "comparison lt" "length a \<le> length temp"
  shows "(\<exists>b. ks_mergesort lt a temp = Some b \<and> stably_sorts lt a b) \<and> (\<exists>b. ks_insertsort lt a = Some b \<and> stably_sorts lt a b)"
  using comparison.mergesort_sorts [OF assms] comparison.insertsort_sorts [OF assms(1), of a] by blast

theorem ks_mergesort_stable_witness:
  "\<exists>b. ks_mergesort ks_lt_str [''b'', ''ab'', ''a''] [[], [], []] = Some b \<and> mset b = mset [''b'', ''ab'', ''a''] \<and> sorted_by ks_lt_str b"
proof -
  have "length [''b'', ''ab'', ''a''] \<le> length [[], [], [] :: string]" by simp
  from ks_mergesort_stable [OF lt_str.comparison_axioms this]
  obtain b where b: "ks_mergesort ks_lt_str [''b'', ''ab'', ''a''] [[], [], []] = Some b" "stably_sorts ks_lt_str [''b'', ''ab'', ''a''] b" by blast
  from lt_str.stably_sorts_sorts [OF b(2)] b(1) show ?thesis unfolding sorts_def by blast
qed

end
