(* ===== verification/KHeapsort.thy ===== *)
theory KHeapsort
  imports Arrays
begin

text \<open>
  The heap routines of \<open>src/ext/klib/ksort.h\<close>: \<open>ks_heapadjust\<close>, \<open>ks_heapmake\<close> and \<open>ks_heapsort\<close>.
\<close>

section \<open>Operations\<close>

function heap_down :: "('a \<Rightarrow> 'a \<Rightarrow> bool) \<Rightarrow> nat \<Rightarrow> 'a \<Rightarrow> nat \<Rightarrow> nat \<Rightarrow> 'a list \<Rightarrow> (nat \<times> 'a list) option" where
  "heap_down lt n tmp i k l =
     (let k = 2 * k + 1
      in if k < n then
           do { k \<leftarrow> (if k \<noteq> n - 1 then do { x \<leftarrow> aget l k; y \<leftarrow> aget l (k + 1); Some (if lt x y then k + 1 else k) } else Some k);
                x \<leftarrow> aget l k;
                if lt x tmp then Some (i, l) else do { l \<leftarrow> aput l i x; heap_down lt n tmp k k l } }
         else Some (i, l))"
  by auto
termination by (relation "measure (\<lambda>(lt, n, tmp, i, k, l). n - k)") (auto split: if_splits bind_splits)

declare heap_down.simps [simp del]

definition ks_heapadjust :: "('a \<Rightarrow> 'a \<Rightarrow> bool) \<Rightarrow> nat \<Rightarrow> nat \<Rightarrow> 'a list \<Rightarrow> 'a list option" where
  "ks_heapadjust lt i n l = do { tmp \<leftarrow> aget l i; (i, l) \<leftarrow> heap_down lt n tmp i i l; aput l i tmp }"

text \<open>The loop of \<open>ks_heapmake\<close> from \<open>i - 1\<close> down to 0.\<close>

primrec heapmake_from :: "('a \<Rightarrow> 'a \<Rightarrow> bool) \<Rightarrow> nat \<Rightarrow> nat \<Rightarrow> 'a list \<Rightarrow> 'a list option" where
  "heapmake_from lt n 0 l = Some l"
| "heapmake_from lt n (Suc i) l = do { l \<leftarrow> ks_heapadjust lt i n l; heapmake_from lt n i l }"

definition ks_heapmake :: "('a \<Rightarrow> 'a \<Rightarrow> bool) \<Rightarrow> 'a list \<Rightarrow> 'a list option" where
  "ks_heapmake lt l = heapmake_from lt (length l) (length l div 2) l"

primrec heapsort_from :: "('a \<Rightarrow> 'a \<Rightarrow> bool) \<Rightarrow> nat \<Rightarrow> 'a list \<Rightarrow> 'a list option" where
  "heapsort_from lt 0 l = Some l"
| "heapsort_from lt (Suc i) l = do { l \<leftarrow> aswap l 0 (Suc i); l \<leftarrow> ks_heapadjust lt 0 (Suc i) l; heapsort_from lt i l }"

text \<open>The counter of \<open>ks_heapsort\<close> starts at \<open>lsize - 1\<close>, which wraps around for an empty array.\<close>

definition ks_heapsort :: "('a \<Rightarrow> 'a \<Rightarrow> bool) \<Rightarrow> 'a list \<Rightarrow> 'a list option" where
  "ks_heapsort lt l = heapsort_from lt (if l = [] then 2 ^ 64 - 1 else length l - 1) l"

section \<open>Heaps\<close>

text \<open>No element of the first \<open>n\<close> is greater than its parent, as far as the parent is not before \<open>m\<close>.\<close>

definition heap :: "('a \<Rightarrow> 'a \<Rightarrow> bool) \<Rightarrow> nat \<Rightarrow> nat \<Rightarrow> 'a list \<Rightarrow> bool" where
  "heap lt m n l \<longleftrightarrow> (\<forall>c p. c < n \<and> (c = 2 * p + 1 \<or> c = 2 * p + 2) \<and> m \<le> p \<longrightarrow> \<not> lt (l ! p) (l ! c))"

text \<open>The same but for the children of \<open>i\<close>, which are not greater than the parent of \<open>i\<close>.\<close>

definition heap_but :: "('a \<Rightarrow> 'a \<Rightarrow> bool) \<Rightarrow> nat \<Rightarrow> nat \<Rightarrow> nat \<Rightarrow> 'a list \<Rightarrow> bool" where
  "heap_but lt m n i l \<longleftrightarrow>
     (\<forall>c p. c < n \<and> (c = 2 * p + 1 \<or> c = 2 * p + 2) \<and> m \<le> p \<and> p \<noteq> i \<longrightarrow> \<not> lt (l ! p) (l ! c)) \<and>
     (\<forall>c q. c < n \<and> (c = 2 * i + 1 \<or> c = 2 * i + 2) \<and> (i = 2 * q + 1 \<or> i = 2 * q + 2) \<and> m \<le> q \<longrightarrow> \<not> lt (l ! q) (l ! c))"

lemma heapD: "heap lt m n l \<Longrightarrow> c < n \<Longrightarrow> c = 2 * p + 1 \<or> c = 2 * p + 2 \<Longrightarrow> m \<le> p \<Longrightarrow> \<not> lt (l ! p) (l ! c)"
  by (auto simp: heap_def)

lemma heap_butD:
  "heap_but lt m n i l \<Longrightarrow> c < n \<Longrightarrow> c = 2 * p + 1 \<or> c = 2 * p + 2 \<Longrightarrow> m \<le> p \<Longrightarrow> p \<noteq> i \<Longrightarrow> \<not> lt (l ! p) (l ! c)"
  "heap_but lt m n i l \<Longrightarrow> c < n \<Longrightarrow> c = 2 * i + 1 \<or> c = 2 * i + 2 \<Longrightarrow> i = 2 * q + 1 \<or> i = 2 * q + 2 \<Longrightarrow> m \<le> q \<Longrightarrow> \<not> lt (l ! q) (l ! c)"
  by (auto simp: heap_but_def)

context comparison
begin

lemma heap_max: "heap lt 0 n l \<Longrightarrow> c < n \<Longrightarrow> \<not> lt (l ! 0) (l ! c)"
proof (induction c rule: less_induct)
  case (less c)
  show ?case
  proof (cases "c = 0")
    case False
    define p where "p = (c - 1) div 2"
    have p: "c = 2 * p + 1 \<or> c = 2 * p + 2" "p < c" using False by (auto simp: p_def)
    then have "\<not> lt (l ! 0) (l ! p)" using less by simp
    moreover have "\<not> lt (l ! p) (l ! c)" using heapD [OF less.prems p(1)] by simp
    ultimately show ?thesis using le_trans by blast
  qed simp
qed

text \<open>The larger child moves up, unless it is less than the element \<open>tmp\<close> that belongs into the gap.\<close>

lemma heap_swap:
  assumes hb: "heap_but lt m n i l" and n: "n \<le> length l" and k: "k < n" "k = 2 * i + 1 \<or> k = 2 * i + 2"
    and big: "\<And>c. c < n \<Longrightarrow> c = 2 * i + 1 \<or> c = 2 * i + 2 \<Longrightarrow> \<not> lt (l ! k) (l ! c)" and up: "\<not> lt (l ! k) (l ! i)"
  shows "heap_but lt m n k (l[i := l ! k, k := l ! i])"
proof -
  let ?l = "l[i := l ! k, k := l ! i]"
  have i: "i < k" "i < length l" "k < length l" using k n by auto
  have nth: "?l ! j = (if j = k then l ! i else if j = i then l ! k else l ! j)" if "j < n" for j
    using that i n by (simp add: nth_list_update)
  have par: "p < c" if "c = 2 * p + 1 \<or> c = 2 * p + 2" for c p :: nat using that by auto
  have "\<not> lt (?l ! p) (?l ! c)" if c: "c < n" "c = 2 * p + 1 \<or> c = 2 * p + 2" "m \<le> p" "p \<noteq> k" for c p
  proof (cases "p = i")
    case True
    then have "?l ! p = l ! k" "?l ! c = (if c = k then l ! i else l ! c)" using nth [of p] nth [of c] c i par [OF c(2)] by auto
    then show ?thesis using big [of c] up c True by auto
  next
    case False
    have old: "\<not> lt (l ! p) (l ! c)" using heap_butD(1) [OF hb c(1-3) False] .
    show ?thesis
    proof (cases "c = i")
      case True
      then have "\<not> lt (l ! p) (l ! k)" using heap_butD(2) [OF hb k(1,2), of p] c by auto
      then show ?thesis using nth [of p] nth [of c] True False c i par [OF c(2)] by auto
    next
      case ci: False
      have "c \<noteq> k" using k(2) c(2) False by auto
      then show ?thesis using old nth [of p] nth [of c] ci False c par [OF c(2)] by auto
    qed
  qed
  moreover have "\<not> lt (?l ! q) (?l ! c)" if c: "c < n" "c = 2 * k + 1 \<or> c = 2 * k + 2" "k = 2 * q + 1 \<or> k = 2 * q + 2" "m \<le> q" for c q
  proof -
    have q: "q = i" using k(2) c(3) by auto
    then have "m \<le> k" using c(4) i by simp
    then have "\<not> lt (l ! k) (l ! c)" using heap_butD(1) [OF hb c(1,2)] i by simp
    then show ?thesis using nth [of q] nth [of c] q c i par [OF c(2)] by auto
  qed
  ultimately show ?thesis by (auto simp: heap_but_def)
qed

lemma heap_but_close:
  assumes hb: "heap_but lt m n i l" and top: "\<And>c. c < n \<Longrightarrow> c = 2 * i + 1 \<or> c = 2 * i + 2 \<Longrightarrow> \<not> lt (l ! i) (l ! c)"
  shows "heap lt m n l"
  unfolding heap_def
proof (intro allI impI)
  fix c p
  assume c: "c < n \<and> (c = 2 * p + 1 \<or> c = 2 * p + 2) \<and> m \<le> p"
  then show "\<not> lt (l ! p) (l ! c)" using heap_butD(1) [OF hb, of c p] top [of c] by (cases "p = i") auto
qed

lemma heap_down_ok:
  assumes "n \<le> length l" "i < n" "heap_but lt m n i (l[i := tmp])"
  shows "\<exists>j l'. heap_down lt n tmp i i l = Some (j, l') \<and> j < n \<and> length l' = length l \<and> drop n l' = drop n l \<and>
    mset (l'[j := tmp]) = mset (l[i := tmp]) \<and> heap lt m n (l'[j := tmp])"
  using assms
proof (induction "n - i" arbitrary: i l rule: less_induct)
  case less
  let ?l = "l[i := tmp]"
  show ?case
  proof (cases "2 * i + 1 < n")
    case False
    then have "heap lt m n ?l" using less.prems by (intro heap_but_close) auto
    then show ?thesis using False less.prems by (subst heap_down.simps) simp
  next
    case True
    define k where "k = (if 2 * i + 1 \<noteq> n - 1 \<and> lt (l ! (2 * i + 1)) (l ! (2 * i + 2)) then 2 * i + 2 else 2 * i + 1)"
    have k: "k < n" "k = 2 * i + 1 \<or> k = 2 * i + 2" "i < k" using True by (auto simp: k_def)
    have big: "\<not> lt (?l ! k) (?l ! c)" if "c < n" "c = 2 * i + 1 \<or> c = 2 * i + 2" for c
      using that True lt_asym by (auto simp: k_def)
    have kl: "?l ! k = l ! k" "?l ! i = tmp" using k less.prems by simp_all
    have sel: "(if 2 * i + 1 \<noteq> n - 1 then do { x \<leftarrow> aget l (2 * i + 1); y \<leftarrow> aget l (2 * i + 1 + 1); Some (if lt x y then 2 * i + 1 + 1 else 2 * i + 1) }
        else Some (2 * i + 1)) = Some k"
      using True less.prems(1) by (simp add: array_simps k_def)
    have step: "heap_down lt n tmp i i l = (if lt (l ! k) tmp then Some (i, l) else heap_down lt n tmp k k (l[i := l ! k]))"
      using True k less.prems by (subst heap_down.simps) (simp add: sel array_simps Let_def del: One_nat_def)
    show ?thesis
    proof (cases "lt (l ! k) tmp")
      case lt: True
      have "\<not> lt (?l ! i) (?l ! c)" if "c < n" "c = 2 * i + 1 \<or> c = 2 * i + 2" for c
      proof -
        have "\<not> lt (?l ! k) (?l ! c)" using big [OF that] .
        then show ?thesis using lt lt_trans lt_asym kl by metis
      qed
      then have "heap lt m n ?l" using heap_but_close [OF less.prems(3)] by blast
      then show ?thesis using step lt less.prems by simp
    next
      case False
      define l1 where "l1 = l[i := l ! k]"
      have l1: "l1[k := tmp] = ?l[i := ?l ! k, k := ?l ! i]" using k kl by (simp add: l1_def)
      have "heap_but lt m n k (l1[k := tmp])"
        unfolding l1 using big False kl less.prems(1) k by (intro heap_swap [OF less.prems(3)]) simp_all
      moreover have "mset (l1[k := tmp]) = mset ?l" unfolding l1 using k less.prems by (intro mset_list_swap) simp_all
      moreover have "n - k < n - i" "n \<le> length l1" "drop n l1 = drop n l" "length l1 = length l" using k less.prems by (simp_all add: l1_def)
      ultimately obtain j l' where "heap_down lt n tmp k k l1 = Some (j, l')" "j < n" "length l' = length l" "drop n l' = drop n l"
          "mset (l'[j := tmp]) = mset ?l" "heap lt m n (l'[j := tmp])"
        using less.hyps [of k l1] k(1) by auto
      then show ?thesis using step False by (simp add: l1_def)
    qed
  qed
qed

lemma heapadjust_ok:
  assumes "n \<le> length l" "i < n" "heap_but lt m n i l"
  shows "\<exists>l'. ks_heapadjust lt i n l = Some l' \<and> length l' = length l \<and> drop n l' = drop n l \<and> mset l' = mset l \<and> heap lt m n l'"
proof -
  have "l[i := l ! i] = l" by simp
  with heap_down_ok [of n l i m "l ! i"] assms obtain j l' where "heap_down lt n (l ! i) i i l = Some (j, l')" "j < n" "length l' = length l"
      "drop n l' = drop n l" "mset (l'[j := l ! i]) = mset l" "heap lt m n (l'[j := l ! i])" by auto
  then show ?thesis using assms by (intro exI [of _ "l'[j := l ! i]"]) (simp add: ks_heapadjust_def array_simps)
qed

lemma heapmake_from_ok:
  "n = length l \<Longrightarrow> i \<le> n div 2 \<Longrightarrow> heap lt i n l \<Longrightarrow>
    \<exists>l'. heapmake_from lt n i l = Some l' \<and> mset l' = mset l \<and> heap lt 0 n l'"
proof (induction i arbitrary: l)
  case (Suc i)
  have "heap_but lt i n i l"
    unfolding heap_but_def
  proof (intro conjI allI impI)
    fix c p
    assume "c < n \<and> (c = 2 * p + 1 \<or> c = 2 * p + 2) \<and> i \<le> p \<and> p \<noteq> i"
    then show "\<not> lt (l ! p) (l ! c)" using heapD [OF Suc.prems(3), of c p] by auto
  qed auto
  moreover have "i < n" "n \<le> length l" using Suc.prems by auto
  ultimately obtain l' where l': "ks_heapadjust lt i n l = Some l'" "length l' = length l" "mset l' = mset l" "heap lt i n l'"
    using heapadjust_ok [of n l i i] by auto
  then show ?case using Suc.IH [of l'] Suc.prems by auto
qed simp

lemma heapmake_ok: "\<exists>l'. ks_heapmake lt l = Some l' \<and> mset l' = mset l \<and> heap lt 0 (length l) l'"
proof -
  have "heap lt (length l div 2) (length l) l" by (auto simp: heap_def)
  then show ?thesis using heapmake_from_ok [of "length l" l "length l div 2"] by (simp add: ks_heapmake_def)
qed

lemma heapsort_from_ok:
  assumes "i < length l" "heap lt 0 (Suc i) l" "sorted_by lt (drop (Suc i) l)"
    "\<forall>x\<in>set (take (Suc i) l). \<forall>y\<in>set (drop (Suc i) l). \<not> lt y x"
  shows "\<exists>l'. heapsort_from lt i l = Some l' \<and> sorts lt l l'"
  using assms
proof (induction i arbitrary: l)
  case 0
  then have "sorted_by lt (l ! 0 # drop 1 l)" by (cases l) auto
  moreover have "l ! 0 # drop 1 l = l" using 0(1) by (cases l) auto
  ultimately show ?case by (metis heapsort_from.simps(1) sorts_def)
next
  case (Suc i)
  define n where "n = Suc i"
  define l1 where "l1 = l[0 := l ! n, n := l ! 0]"
  have n: "n < length l" "0 < n" using Suc.prems(1) by (simp_all add: n_def)
  have l1: "aswap l 0 n = Some l1" "length l1 = length l" "mset l1 = mset l" using n aswap_in [of 0 l n] mset_list_swap [of 0 l n] by (cases "l = []"; simp add: l1_def)+
  have nth: "l1 ! j = l ! j" if "0 < j" "j < n" for j using that n by (simp add: l1_def)
  have "heap_but lt 0 n 0 l1"
    unfolding heap_but_def
  proof (intro conjI allI impI)
    fix c p
    assume c: "c < n \<and> (c = 2 * p + 1 \<or> c = 2 * p + 2) \<and> 0 \<le> p \<and> p \<noteq> 0"
    then show "\<not> lt (l1 ! p) (l1 ! c)" using heapD [OF Suc.prems(2), of c p] nth [of p] nth [of c] by (auto simp: n_def)
  qed auto
  then obtain l2 where l2: "ks_heapadjust lt 0 n l1 = Some l2" "length l2 = length l" "drop n l2 = drop n l1" "mset l2 = mset l" "heap lt 0 n l2"
    using heapadjust_ok [of n l1 0 0] n l1 by auto
  have d: "drop n l2 = l ! 0 # drop (Suc n) l" unfolding l2(3) using n by (simp add: l1_def Cons_nth_drop_Suc [symmetric])
  have dl: "drop n l = l ! n # drop (Suc n) l" using n by (simp add: Cons_nth_drop_Suc)
  have "mset (take n l2) + mset (drop n l2) = mset (take (Suc n) l) + mset (drop (Suc n) l)"
    using l2(4) by (simp flip: mset_append)
  then have "mset (take (Suc n) l) = mset (take n l2) + {#l ! 0#}" by (simp add: d)
  then have s: "insert (l ! 0) (set (take n l2)) = set (take (Suc n) l)" by (metis add_mset_add_single set_mset_add_mset_insert set_mset_mset)
  have "\<not> lt (l ! 0) x" if x: "x \<in> set (take (Suc n) l)" for x
  proof -
    obtain c where "c < Suc n" "x = l ! c" using x by (auto simp: in_set_conv_nth)
    then show ?thesis using heap_max [OF Suc.prems(2)] by (simp add: n_def)
  qed
  then have "\<forall>x\<in>set (take n l2). \<forall>y\<in>set (drop n l2). \<not> lt y x" "sorted_by lt (drop n l2)"
    using Suc.prems(3,4) s unfolding d by (auto simp: n_def)
  then obtain l' where "heapsort_from lt i l2 = Some l'" "sorts lt l2 l'"
    using Suc.IH [of l2] l2 n by (auto simp: n_def)
  then show ?case using l1 l2 by (auto simp: n_def sorts_def)
qed

lemma heapsort_ok:
  assumes "l \<noteq> []" "heap lt 0 (length l) l"
  shows "\<exists>l'. ks_heapsort lt l = Some l' \<and> sorts lt l l'"
  using assms heapsort_from_ok [of "length l - 1" l] by (simp add: ks_heapsort_def)

end

lemma heapsort_empty: "ks_heapsort lt [] = None"
proof -
  have "heapsort_from lt i [] = None" if "0 < i" for i using that by (cases i) (simp_all add: aswap_def aget_def)
  from this [of "2 ^ 64 - 1"] show ?thesis by (simp add: ks_heapsort_def)
qed

text \<open>
  C35: Heap sort. For every strict weak order \<open>ks_heapmake\<close> makes a heap of the array, and \<open>ks_heapsort\<close> makes a sorted array
  of a heap that is not empty; neither accesses anything outside of the array. For an empty array the counter wraps around and the first exchange is outside.
\<close>

theorem ks_heapsort_sorts:
  assumes "comparison lt"
  shows "\<exists>h. ks_heapmake lt a = Some h \<and> mset h = mset a \<and> heap lt 0 (length a) h \<and>
    (if a = [] then ks_heapsort lt h = None else \<exists>b. ks_heapsort lt h = Some b \<and> sorts lt a b)"
proof -
  obtain h where h: "ks_heapmake lt a = Some h" "mset h = mset a" "heap lt 0 (length a) h" using comparison.heapmake_ok [OF assms] by blast
  have len: "length h = length a" using h(2) by (metis size_mset)
  then have "h = [] \<longleftrightarrow> a = []" by auto
  then show ?thesis
    using h len heapsort_empty [of lt] comparison.heapsort_ok [OF assms, of h] by (cases "a = []") (simp_all add: sorts_def)
qed

theorem ks_heapsort_sorts_witness:
  "\<exists>h b. ks_heapmake ks_lt_generic [2, 3, 1 :: nat] = Some h \<and> ks_heapsort ks_lt_generic h = Some b \<and> sorts ks_lt_generic [2, 3, 1] b"
  using ks_heapsort_sorts [OF lt_generic.comparison_axioms, of "[2, 3, 1 :: nat]"] by auto

end
