(* ===== verification/KCombsort.thy ===== *)
theory KCombsort
  imports KSort
begin

text \<open>
  \<open>ks_combsort\<close> and \<open>ks_shuffle\<close> of \<open>src/ext/klib/ksort.h\<close>. The division of the gap by the constant \<open>shrink_factor\<close> in floating point is
  the function \<open>shrink\<close>, the successive values of \<open>(int)(drand48() * i)\<close> are \<open>draw\<close>.
\<close>

section \<open>Comb sort\<close>

text \<open>One pass: \<open>i\<close> goes up to before \<open>m = n - gap\<close>.\<close>

function comb_pass :: "('a \<Rightarrow> 'a \<Rightarrow> bool) \<Rightarrow> nat \<Rightarrow> nat \<Rightarrow> nat \<Rightarrow> bool \<Rightarrow> 'a list \<Rightarrow> (bool \<times> 'a list) option" where
  "comb_pass lt gap m i do_swap a =
     (if i < m then
        do { y \<leftarrow> aget a (i + gap); x \<leftarrow> aget a i;
             if lt y x then do { a \<leftarrow> aswap a i (i + gap); comb_pass lt gap m (Suc i) True a }
             else comb_pass lt gap m (Suc i) do_swap a }
      else Some (do_swap, a))"
  by auto
termination by (relation "measure (\<lambda>(lt, gap, m, i, s, a). m - i)") auto

declare comb_pass.simps [simp del]

definition next_gap :: "(nat \<Rightarrow> nat) \<Rightarrow> nat \<Rightarrow> nat" where
  "next_gap shrink gap = (if gap > 2 then let g = shrink gap in if g = 9 \<or> g = 10 then 11 else g else gap)"

partial_function (option) comb_loop :: "('a \<Rightarrow> 'a \<Rightarrow> bool) \<Rightarrow> (nat \<Rightarrow> nat) \<Rightarrow> nat \<Rightarrow> nat \<Rightarrow> 'a list \<Rightarrow> (nat \<times> 'a list) option" where
  "comb_loop lt shrink n gap a =
     (let gap = next_gap shrink gap
      in do { (do_swap, a) \<leftarrow> comb_pass lt gap (n - gap) 0 False a;
              if do_swap \<or> gap > 2 then comb_loop lt shrink n gap a else Some (gap, a) })"

definition ks_combsort :: "('a \<Rightarrow> 'a \<Rightarrow> bool) \<Rightarrow> (nat \<Rightarrow> nat) \<Rightarrow> 'a list \<Rightarrow> 'a list option" where
  "ks_combsort lt shrink a = do { (gap, a) \<leftarrow> comb_loop lt shrink (length a) (length a) a; if gap \<noteq> 1 then ks_insertsort lt a else Some a }"

text \<open>
  What is used of the division: the quotient by 1.247\<dots> is at most 0.81 of the gap. The decimal constant of the source has the
  property.
\<close>

definition gap_shrinks :: "(nat \<Rightarrow> nat) \<Rightarrow> bool" where
  "gap_shrinks shrink \<longleftrightarrow> (\<forall>g>2. 100 * shrink g \<le> 81 * g)"

definition decimal_shrink :: "nat \<Rightarrow> nat" where
  "decimal_shrink g = g * 10000000000000000000000000000000 div 12473309501039786540366528676643"

lemma decimal_shrinks: "gap_shrinks decimal_shrink"
proof -
  have "100 * (g * 10000000000000000000000000000000 div 12473309501039786540366528676643) \<le> 81 * g" for g :: nat
    by (simp add: div_le_dividend)
  then show ?thesis by (simp add: gap_shrinks_def decimal_shrink_def)
qed

lemma next_gap_less: "gap_shrinks shrink \<Longrightarrow> 2 < gap \<Longrightarrow> next_gap shrink gap < gap"
  by (auto simp: gap_shrinks_def next_gap_def Let_def dest!: spec [of _ gap])

lemma next_gap_le: "gap_shrinks shrink \<Longrightarrow> next_gap shrink gap \<le> gap"
  using next_gap_less [of shrink gap] by (cases "2 < gap") (auto simp: next_gap_def)

text \<open>
  The number of smaller elements is the rank of an element. A swap of the pass raises the sum of the ranks, each multiplied by
  its place.
\<close>

definition rank :: "('a \<Rightarrow> 'a \<Rightarrow> bool) \<Rightarrow> 'a multiset \<Rightarrow> 'a \<Rightarrow> nat" where
  "rank lt M x = size (filter_mset (\<lambda>y. lt y x) M)"

definition weight :: "('a \<Rightarrow> 'a \<Rightarrow> bool) \<Rightarrow> 'a list \<Rightarrow> nat" where
  "weight lt a = (\<Sum>i<length a. i * rank lt (mset a) (a ! i))"

lemma rank_le: "rank lt (mset a) x \<le> length a"
  using size_filter_mset_lesseq [of _ "mset a"] by (simp add: rank_def)

lemma weight_le: "weight lt a \<le> length a * (length a * length a)"
proof -
  have "weight lt a \<le> (\<Sum>i<length a. length a * length a)"
    unfolding weight_def using rank_le [of lt a] by (intro sum_mono mult_le_mono) simp_all
  then show ?thesis by simp
qed

context comparison
begin

lemma rank_less:
  assumes "lt y x" "y \<in># M"
  shows "rank lt M y < rank lt M x"
proof -
  have "filter_mset (\<lambda>z. lt z y) M \<subset># filter_mset (\<lambda>z. lt z x) M"
  proof (rule subset_mset.le_neq_trans)
    show "filter_mset (\<lambda>z. lt z y) M \<subseteq># filter_mset (\<lambda>z. lt z x) M"
      by (rule filter_mset_mono_strong) (use lt_trans assms(1) in auto)
    show "filter_mset (\<lambda>z. lt z y) M \<noteq> filter_mset (\<lambda>z. lt z x) M" using assms by (metis lt_irrefl mem_Collect_eq set_mset_filter)
  qed
  then show ?thesis unfolding rank_def by (rule mset_subset_size)
qed

lemma weight_swap:
  assumes "i < j" "j < length a" "lt (a ! j) (a ! i)"
  shows "weight lt a < weight lt (a[i := a ! j, j := a ! i])"
proof -
  let ?b = "a[i := a ! j, j := a ! i]" and ?r = "rank lt (mset a)"
  have m: "mset ?b = mset a" using assms by (intro mset_list_swap) simp_all
  have "?r (a ! j) < ?r (a ! i)" using assms by (intro rank_less) simp_all
  then obtain d where d: "?r (a ! i) = ?r (a ! j) + d" "0 < d" using less_imp_add_positive by metis
  have split: "(\<Sum>k<length a. f k) = f i + f j + (\<Sum>k\<in>{..<length a} - {i} - {j}. f k)" for f :: "nat \<Rightarrow> nat"
    using assms by (simp add: sum.remove [of "{..<length a}" i] sum.remove [of "{..<length a} - {i}" j])
  have rest: "(\<Sum>k\<in>{..<length a} - {i} - {j}. k * ?r (?b ! k)) = (\<Sum>k\<in>{..<length a} - {i} - {j}. k * ?r (a ! k))"
    by (intro sum.cong) auto
  have "i * d < j * d" using assms(1) d(2) by simp
  then have "i * ?r (a ! i) + j * ?r (a ! j) < i * ?r (a ! j) + j * ?r (a ! i)" unfolding d(1) by (simp add: algebra_simps)
  moreover have "?b ! i = a ! j" "?b ! j = a ! i" using assms by simp_all
  ultimately show ?thesis
    unfolding weight_def m length_list_update split [of "\<lambda>k. k * ?r (a ! k)"] split [of "\<lambda>k. k * ?r (?b ! k)"] rest by simp
qed

lemma comb_pass_ok:
  "m + gap \<le> length a \<Longrightarrow>
    \<exists>s b. comb_pass lt gap m i do_swap a = Some (s, b) \<and> mset b = mset a \<and> weight lt a \<le> weight lt b \<and>
      (if s then do_swap \<or> weight lt a < weight lt b else \<not> do_swap \<and> b = a \<and> (\<forall>k. i \<le> k \<and> k < m \<longrightarrow> \<not> lt (a ! (k + gap)) (a ! k)))"
proof (induction "m - i" arbitrary: i do_swap a)
  case 0
  then show ?case by (subst comb_pass.simps) auto
next
  case (Suc d)
  then have i: "i < m" "i + gap < length a" "d = m - Suc i" by auto
  show ?case
  proof (cases "lt (a ! (i + gap)) (a ! i)")
    case True
    then have "0 < gap" by (cases "gap = 0") simp_all
    define c where "c = a[i := a ! (i + gap), i + gap := a ! i]"
    have c: "aswap a i (i + gap) = Some c" "mset c = mset a" "length c = length a" using i by (simp_all add: array_simps c_def mset_list_swap)
    have w: "weight lt a < weight lt c" unfolding c_def using i True \<open>0 < gap\<close> by (intro weight_swap) simp_all
    obtain s b where "comb_pass lt gap m (Suc i) True c = Some (s, b)" "mset b = mset c" "weight lt c \<le> weight lt b" "s"
      using Suc.hyps(1) [OF i(3), of c True] Suc.prems c(3) by (auto split: if_splits)
    then show ?thesis using i True c w by (subst comb_pass.simps) (auto simp: array_simps)
  next
    case False
    obtain s b where "comb_pass lt gap m (Suc i) do_swap a = Some (s, b)" "mset b = mset a" "weight lt a \<le> weight lt b"
        "if s then do_swap \<or> weight lt a < weight lt b else \<not> do_swap \<and> b = a \<and> (\<forall>k. Suc i \<le> k \<and> k < m \<longrightarrow> \<not> lt (a ! (k + gap)) (a ! k))"
      using Suc.hyps(1) [OF i(3), of a do_swap] Suc.prems by auto
    moreover have "comb_pass lt gap m i do_swap a = comb_pass lt gap m (Suc i) do_swap a"
      using i False by (subst comb_pass.simps) (simp add: array_simps)
    ultimately show ?thesis using False by (auto simp: le_Suc_eq less_eq_Suc_le split: if_splits) (metis Suc_leI le_neq_implies_less)
  qed
qed

lemma adjacent_sorted:
  assumes "\<And>k. Suc k < length a \<Longrightarrow> \<not> lt (a ! Suc k) (a ! k)"
  shows "sorted_by lt a"
proof -
  have "transp (\<lambda>x y. \<not> lt y x)" using le_trans by (auto intro: transpI)
  then show ?thesis unfolding sorted_by_def using assms by (simp add: sorted_wrt_iff_nth_Suc_transp)
qed

lemma comb_loop_ok:
  assumes "gap_shrinks shrink"
  shows "gap \<le> length a \<Longrightarrow> \<exists>g b. comb_loop lt shrink (length a) gap a = Some (g, b) \<and> mset b = mset a \<and> (g = 1 \<longrightarrow> sorted_by lt b)"
proof (induction "gap * Suc (length a * (length a * length a)) + (length a * (length a * length a) - weight lt a)" arbitrary: gap a rule: less_induct)
  case less
  define g where "g = next_gap shrink gap"
  define N where "N = length a * (length a * length a)"
  have g: "g \<le> gap" "2 < gap \<Longrightarrow> g < gap" using next_gap_le [OF assms] next_gap_less [OF assms] by (simp_all add: g_def)
  then have "length a - g + g \<le> length a" using less.prems by simp
  from comb_pass_ok [OF this, of 0 False] obtain s b where p: "comb_pass lt g (length a - g) 0 False a = Some (s, b)" "mset b = mset a"
      "if s then weight lt a < weight lt b else b = a \<and> (\<forall>k. k < length a - g \<longrightarrow> \<not> lt (a ! (k + g)) (a ! k))" "weight lt a \<le> weight lt b"
    by (fastforce split: if_splits)
  have len: "length b = length a" using p(2) by (metis size_mset)
  then have w: "weight lt b \<le> N" using weight_le [of lt b] by (simp add: N_def)
  have unfold: "comb_loop lt shrink (length a) gap a = (if s \<or> g > 2 then comb_loop lt shrink (length b) g b else Some (g, b))"
    using p(1) by (subst comb_loop.simps) (simp add: g_def [symmetric] Let_def len)
  show ?case
  proof (cases "s \<or> g > 2")
    case True
    have "g * Suc N + (N - weight lt b) < gap * Suc N + (N - weight lt a)"
    proof (cases "g < gap")
      case True
      then have "Suc g * Suc N \<le> gap * Suc N" by (intro mult_le_mono1) simp
      then show ?thesis by simp
    next
      case False
      then have "g = gap" "s" using g True by auto
      then show ?thesis using p(3) w by simp
    qed
    then have "\<exists>h c. comb_loop lt shrink (length b) g b = Some (h, c) \<and> mset c = mset b \<and> (h = 1 \<longrightarrow> sorted_by lt c)"
      using less.prems g(1) len by (intro less.hyps) (simp_all add: N_def)
    then show ?thesis using True p(2) unfolding unfold by simp
  next
    case False
    then have "sorted_by lt b" if "g = 1" using p(3) that adjacent_sorted [of a] by auto
    then show ?thesis using False p(2) unfolding unfold by simp
  qed
qed

lemma combsort_ok:
  assumes "gap_shrinks shrink"
  shows "\<exists>b. ks_combsort lt shrink a = Some b \<and> sorts lt a b"
proof -
  obtain g b where "comb_loop lt shrink (length a) (length a) a = Some (g, b)" "mset b = mset a" "g = 1 \<longrightarrow> sorted_by lt b"
    using comb_loop_ok [OF assms, of "length a" a] by auto
  moreover obtain c where "ks_insertsort lt b = Some c" "sorts lt b c" using insertsort_sorts stably_sorts_sorts by metis
  ultimately show ?thesis by (auto simp: ks_combsort_def sorts_def)
qed

end

section \<open>Shuffle\<close>

primrec shuffle_from :: "(nat \<Rightarrow> nat) \<Rightarrow> nat \<Rightarrow> 'a list \<Rightarrow> 'a list option" where
  "shuffle_from draw 0 a = Some a"
| "shuffle_from draw (Suc i) a = (if Suc i > 1 then do { a \<leftarrow> aswap a (draw (Suc i)) i; shuffle_from draw i a } else Some a)"

definition ks_shuffle :: "(nat \<Rightarrow> nat) \<Rightarrow> 'a list \<Rightarrow> 'a list option" where
  "ks_shuffle draw a = shuffle_from draw (length a) a"

text \<open>\<open>drand48\<close> returns a number of the interval from 0 to before 1.\<close>

lemma shuffle_from_ok: "\<forall>i>0. draw i < i \<Longrightarrow> i \<le> length a \<Longrightarrow> \<exists>b. shuffle_from draw i a = Some b \<and> mset b = mset a \<and> drop i b = drop i a"
proof (induction i arbitrary: a)
  case (Suc i)
  show ?case
  proof (cases "i = 0")
    case False
    have d: "draw (Suc i) < length a" "draw (Suc i) \<le> i" "i < length a" using Suc.prems by (auto simp: less_Suc_eq_le intro: less_le_trans)
    define b where "b = a[draw (Suc i) := a ! i, i := a ! draw (Suc i)]"
    have b: "aswap a (draw (Suc i)) i = Some b" "mset b = mset a" "length b = length a" "drop (Suc i) b = drop (Suc i) a"
      using d by (simp_all add: array_simps b_def mset_list_swap)
    obtain c where c: "shuffle_from draw i b = Some c" "mset c = mset b" "drop i c = drop i b" using Suc.IH [of b] Suc.prems b(3) by auto
    have "drop (Suc i) c = drop 1 (drop i c)" by simp
    also have "\<dots> = drop (Suc i) a" unfolding c(3) using b(4) by simp
    finally show ?thesis using False b c by simp
  qed (use Suc.prems in auto)
qed auto

end
