(* ===== verification/KSelect.thy ===== *)
theory KSelect
  imports Arrays
begin

text \<open>
  \<open>ks_ksmall\<close> of \<open>src/ext/klib/ksort.h\<close>: the selection of the element of rank \<open>kk\<close> (from 0, less than the length). The pointers are indices; a
  read outside of the array, also by a scan that runs past its end, gives \<open>None\<close>, and so does a loop that does not end.
\<close>

section \<open>Operations\<close>

text \<open>\<open>do ++ll; while (lt(*ll, p))\<close> and \<open>do --hh; while (lt(p, *hh))\<close>.\<close>

function scan_up :: "('a \<Rightarrow> 'a \<Rightarrow> bool) \<Rightarrow> 'a \<Rightarrow> 'a list \<Rightarrow> nat \<Rightarrow> nat option" where
  "scan_up lt p a ll = do { x \<leftarrow> aget a (Suc ll); if lt x p then scan_up lt p a (Suc ll) else Some (Suc ll) }"
  by auto
termination by (relation "measure (\<lambda>(lt, p, a, ll). length a - ll)") (auto simp: aget_def split: if_splits)

declare scan_up.simps [simp del]

primrec scan_down :: "('a \<Rightarrow> 'a \<Rightarrow> bool) \<Rightarrow> 'a \<Rightarrow> 'a list \<Rightarrow> nat \<Rightarrow> nat option" where
  "scan_down lt p a 0 = None"
| "scan_down lt p a (Suc hh) = do { x \<leftarrow> aget a hh; if lt p x then scan_down lt p a hh else Some hh }"

text \<open>The loop that exchanges elements on the wrong sides of \<open>p\<close>, which is the element at \<open>low\<close>.\<close>

partial_function (option) small_part :: "('a \<Rightarrow> 'a \<Rightarrow> bool) \<Rightarrow> 'a \<Rightarrow> nat \<Rightarrow> nat \<Rightarrow> 'a list \<Rightarrow> (nat \<times> nat \<times> 'a list) option" where
  "small_part lt p ll hh a =
     do { ll \<leftarrow> scan_up lt p a ll;
          hh \<leftarrow> scan_down lt p a hh;
          if hh < ll then Some (ll, hh, a) else do { a \<leftarrow> aswap a ll hh; small_part lt p ll hh a } }"

definition swap_if :: "('a \<Rightarrow> 'a \<Rightarrow> bool) \<Rightarrow> nat \<Rightarrow> nat \<Rightarrow> 'a list \<Rightarrow> 'a list option" where
  "swap_if lt i j a = do { x \<leftarrow> aget a i; y \<leftarrow> aget a j; if lt x y then aswap a i j else Some a }"

text \<open>The median of three elements goes to \<open>low\<close>, the least of them to \<open>low + 1\<close> and the greatest to \<open>high\<close>.\<close>

definition small_pivot :: "('a \<Rightarrow> 'a \<Rightarrow> bool) \<Rightarrow> nat \<Rightarrow> nat \<Rightarrow> 'a list \<Rightarrow> 'a list option" where
  "small_pivot lt low high a =
     (let mid = low + (high - low) div 2
      in do { a \<leftarrow> swap_if lt high mid a;
              a \<leftarrow> swap_if lt high low a;
              a \<leftarrow> swap_if lt low mid a;
              aswap a mid (low + 1) })"

partial_function (option) small_loop :: "('a \<Rightarrow> 'a \<Rightarrow> bool) \<Rightarrow> nat \<Rightarrow> nat \<Rightarrow> nat \<Rightarrow> 'a list \<Rightarrow> ('a \<times> 'a list) option" where
  "small_loop lt k low high a =
     (if high \<le> low then do { x \<leftarrow> aget a k; Some (x, a) }
      else if high = low + 1 then do { a \<leftarrow> swap_if lt high low a; x \<leftarrow> aget a k; Some (x, a) }
      else
        do { a \<leftarrow> small_pivot lt low high a;
             p \<leftarrow> aget a low;
             (ll, hh, a) \<leftarrow> small_part lt p (low + 1) high a;
             a \<leftarrow> aswap a low hh;
             small_loop lt k (if hh \<le> k then ll else low) (if hh \<ge> k then hh - 1 else high) a })"

text \<open>The element, and what the array holds afterwards.\<close>

definition ks_ksmall :: "('a \<Rightarrow> 'a \<Rightarrow> bool) \<Rightarrow> 'a list \<Rightarrow> nat \<Rightarrow> ('a \<times> 'a list) option" where
  "ks_ksmall lt a kk = small_loop lt kk 0 (length a - 1) a"

section \<open>Scans\<close>

lemma scan_up_stops:
  "ll < u \<Longrightarrow> u < length a \<Longrightarrow> \<not> lt (a ! u) p \<Longrightarrow>
    \<exists>m. scan_up lt p a ll = Some m \<and> ll < m \<and> m \<le> u \<and> \<not> lt (a ! m) p \<and> (\<forall>x. ll < x \<and> x < m \<longrightarrow> lt (a ! x) p)"
proof (induction "u - ll" arbitrary: ll)
  case (Suc d)
  show ?case
  proof (cases "lt (a ! Suc ll) p")
    case True
    then have "Suc ll < u" using Suc.prems by (cases "Suc ll = u") auto
    moreover have "d = u - Suc ll" using Suc.hyps(2) by simp
    ultimately obtain m where m: "scan_up lt p a (Suc ll) = Some m" "Suc ll < m" "m \<le> u" "\<not> lt (a ! m) p" "\<forall>x. Suc ll < x \<and> x < m \<longrightarrow> lt (a ! x) p"
      using Suc.hyps(1) [of "Suc ll"] Suc.prems(2,3) by blast
    have "scan_up lt p a ll = Some m" using True m(1) Suc.prems by (subst scan_up.simps) (simp add: array_simps)
    then show ?thesis using m True by (metis Suc_lessD Suc_lessI)
  next
    case False
    have "scan_up lt p a ll = Some (Suc ll)" using False Suc.prems by (subst scan_up.simps) (simp add: array_simps)
    then show ?thesis using False Suc.prems by auto
  qed
qed simp

lemma scan_down_stops:
  "v < hh \<Longrightarrow> hh \<le> length a \<Longrightarrow> \<not> lt p (a ! v) \<Longrightarrow>
    \<exists>m. scan_down lt p a hh = Some m \<and> v \<le> m \<and> m < hh \<and> \<not> lt p (a ! m) \<and> (\<forall>x. m < x \<and> x < hh \<longrightarrow> lt p (a ! x))"
proof (induction hh)
  case (Suc hh)
  show ?case
  proof (cases "lt p (a ! hh)")
    case True
    then have "v < hh" using Suc.prems by (cases "v = hh") auto
    then obtain m where "scan_down lt p a hh = Some m" "v \<le> m" "m < hh" "\<not> lt p (a ! m)" "\<forall>x. m < x \<and> x < hh \<longrightarrow> lt p (a ! x)"
      using Suc by auto
    then show ?thesis using True Suc.prems by (intro exI [of _ m]) (auto simp: array_simps less_Suc_eq)
  next
    case False
    then show ?thesis using Suc.prems by (intro exI [of _ hh]) (auto simp: array_simps)
  qed
qed simp

text \<open>The outside of the range \<open>l\<close> to \<open>h\<close> is the same, the inside a permutation.\<close>

definition same_but :: "nat \<Rightarrow> nat \<Rightarrow> 'a list \<Rightarrow> 'a list \<Rightarrow> bool" where
  "same_but l h a b \<longleftrightarrow> length b = length a \<and> mset b = mset a \<and> (\<forall>x. x < l \<or> h < x \<longrightarrow> b ! x = a ! x) \<and>
     (\<forall>x. l \<le> x \<and> x \<le> h \<longrightarrow> (\<exists>y. l \<le> y \<and> y \<le> h \<and> b ! x = a ! y))"

lemma same_but_refl [simp]: "same_but l h a a"
  by (auto simp: same_but_def)

lemma same_but_trans: "same_but l h a b \<Longrightarrow> same_but l h b c \<Longrightarrow> same_but l h a c"
  unfolding same_but_def by (metis)

lemma same_but_swap:
  assumes "l \<le> i" "i \<le> h" "l \<le> j" "j \<le> h" "h < length a"
  shows "same_but l h a (a[i := a ! j, j := a ! i])"
proof -
  have "\<exists>y. l \<le> y \<and> y \<le> h \<and> a[i := a ! j, j := a ! i] ! x = a ! y" if "l \<le> x" "x \<le> h" for x
    using assms that by (intro exI [of _ "if x = j then i else if x = i then j else x"]) (simp add: nth_list_update)
  moreover have "mset (a[i := a ! j, j := a ! i]) = mset a" using assms by (intro mset_list_swap) simp_all
  ultimately show ?thesis using assms by (auto simp: same_but_def nth_list_update)
qed

lemma swap_if_in:
  "i < length a \<Longrightarrow> j < length a \<Longrightarrow> swap_if lt i j a = Some (if lt (a ! i) (a ! j) then a[i := a ! j, j := a ! i] else a)"
  by (simp add: swap_if_def array_simps)

context comparison
begin

lemma small_part_ok:
  assumes "l < ll" "ll \<le> hh" "hh \<le> h" "h < length a" "ll < hh \<or> l + 1 < ll \<and> hh < h"
    "\<And>x. l < x \<Longrightarrow> x \<le> ll \<Longrightarrow> \<not> lt p (a ! x)" "\<And>x. hh \<le> x \<Longrightarrow> x \<le> h \<Longrightarrow> \<not> lt (a ! x) p"
  shows "\<exists>ll' hh' b. small_part lt p ll hh a = Some (ll', hh', b) \<and> same_but (l + 1) h a b \<and> l < hh' \<and> hh' < ll' \<and> ll' \<le> h \<and>
    (\<forall>x. l < x \<and> x < ll' \<longrightarrow> \<not> lt p (b ! x)) \<and> (\<forall>x. hh' < x \<and> x \<le> h \<longrightarrow> \<not> lt (b ! x) p)"
  using assms
proof (induction hh arbitrary: ll a rule: less_induct)
  case (less hh)
  define u where "u = (if ll < hh then hh else hh + 1)"
  define v where "v = (if ll < hh then ll else ll - 1)"
  have uv: "ll < u" "u \<le> h" "hh \<le> u" "l < v" "v \<le> ll" "v < hh" using less.prems(1-5) by (auto simp: u_def v_def)
  have su: "\<not> lt (a ! u) p" "\<not> lt p (a ! v)" using less.prems(6,7) uv by auto
  obtain m where m: "scan_up lt p a ll = Some m" "ll < m" "m \<le> u" "\<not> lt (a ! m) p" "\<forall>x. ll < x \<and> x < m \<longrightarrow> lt (a ! x) p"
    using scan_up_stops [of ll u a lt p] uv su(1) less.prems(4) by auto
  obtain w where w: "scan_down lt p a hh = Some w" "v \<le> w" "w < hh" "\<not> lt p (a ! w)" "\<forall>x. w < x \<and> x < hh \<longrightarrow> lt p (a ! x)"
    using scan_down_stops [of v hh a lt p] uv su(2) less.prems(3,4) by auto
  have low: "\<not> lt p (a ! x)" if "l < x" "x < m" for x using less.prems(6) [of x] m(5) that lt_asym by (cases "x \<le> ll") auto
  have up: "\<not> lt (a ! x) p" if "w < x" "x \<le> h" for x using less.prems(7) [of x] w(5) that lt_asym by (cases "hh \<le> x") auto
  have unfold: "small_part lt p ll hh a = (if w < m then Some (m, w, a) else do { a \<leftarrow> aswap a m w; small_part lt p m w a })"
    by (subst small_part.simps) (simp add: m(1) w(1))
  show ?case
  proof (cases "w < m")
    case True
    then show ?thesis using low up uv m w by (intro exI [of _ m] exI [of _ w] exI [of _ a]) (simp add: unfold)
  next
    case False
    define b where "b = a[m := a ! w, w := a ! m]"
    have i: "m < length a" "w < length a" "w \<le> h" "l + 1 \<le> m" using False w(3) less.prems(1,3,4) m(2) by auto
    have sb: "same_but (l + 1) h a b" unfolding b_def using i False less.prems(4) by (intro same_but_swap) auto
    have nth: "b ! x = (if x = w then a ! m else if x = m then a ! w else a ! x)" if "x \<le> h" for x
      using that i less.prems(4) by (auto simp: b_def nth_list_update)
    have "\<not> lt p (b ! x)" if "l < x" "x \<le> m" for x
      using low [of x] w(4) that False i nth [of x] m(4) low by (cases "x = m") (auto simp: b_def nth_list_update)
    moreover have "\<not> lt (b ! x) p" if "w \<le> x" "x \<le> h" for x
      using up [of x] m(4) that False nth [of x] by (cases "x = w") auto
    moreover have "m < w \<or> l + 1 < m \<and> w < h" using False less.prems(1,3) m(2) w(3) by auto
    ultimately have "\<exists>ll' hh' c. small_part lt p m w b = Some (ll', hh', c) \<and> same_but (l + 1) h b c \<and> l < hh' \<and> hh' < ll' \<and> ll' \<le> h \<and>
        (\<forall>x. l < x \<and> x < ll' \<longrightarrow> \<not> lt p (c ! x)) \<and> (\<forall>x. hh' < x \<and> x \<le> h \<longrightarrow> \<not> lt (c ! x) p)"
      using False i less.prems(4) w(3) sb by (intro less.IH) (auto simp: same_but_def)
    moreover have "small_part lt p ll hh a = small_part lt p m w b" using False i by (simp add: unfold array_simps b_def)
    ultimately show ?thesis using same_but_trans [OF sb] by metis
  qed
qed

lemma small_pivot_ok:
  assumes "l + 2 \<le> h" "h < length a"
  shows "\<exists>b. small_pivot lt l h a = Some b \<and> same_but l h a b \<and> \<not> lt (b ! l) (b ! (l + 1)) \<and> \<not> lt (b ! h) (b ! l)"
proof -
  define m where "m = l + (h - l) div 2"
  have m: "l < m" "m < h" using assms by (auto simp: m_def)
  define a1 where "a1 = (if lt (a ! h) (a ! m) then a[h := a ! m, m := a ! h] else a)"
  define a2 where "a2 = (if lt (a1 ! h) (a1 ! l) then a1[h := a1 ! l, l := a1 ! h] else a1)"
  define a3 where "a3 = (if lt (a2 ! l) (a2 ! m) then a2[l := a2 ! m, m := a2 ! l] else a2)"
  define b where "b = a3[m := a3 ! (l + 1), l + 1 := a3 ! m]"
  have len: "length a1 = length a" "length a2 = length a" "length a3 = length a" by (simp_all add: a1_def a2_def a3_def)
  have s1: "same_but l h a a1" using m assms by (auto simp: a1_def intro: same_but_swap)
  have s2: "same_but l h a1 a2" using m assms len by (auto simp: a2_def intro: same_but_swap)
  have s3: "same_but l h a2 a3" using m assms len by (auto simp: a3_def intro: same_but_swap)
  have s4: "same_but l h a3 b" unfolding b_def using m assms len by (intro same_but_swap) auto
  have n1: "a1 ! h = (if lt (a ! h) (a ! m) then a ! m else a ! h)" "a1 ! m = (if lt (a ! h) (a ! m) then a ! h else a ! m)"
    using m assms by (simp_all add: a1_def)
  have n2: "a2 ! h = (if lt (a1 ! h) (a1 ! l) then a1 ! l else a1 ! h)" "a2 ! l = (if lt (a1 ! h) (a1 ! l) then a1 ! h else a1 ! l)" "a2 ! m = a1 ! m"
    using m assms len by (simp_all add: a2_def)
  have n3: "a3 ! h = a2 ! h" "a3 ! l = (if lt (a2 ! l) (a2 ! m) then a2 ! m else a2 ! l)" "a3 ! m = (if lt (a2 ! l) (a2 ! m) then a2 ! l else a2 ! m)"
    using m assms len by (simp_all add: a3_def)
  have c1: "\<not> lt (a1 ! h) (a1 ! m)" unfolding n1 using lt_asym by simp
  have t: "\<not> lt (a1 ! l) (a1 ! m)" if "lt (a1 ! h) (a1 ! l)" using lt_trans [OF that] c1 by blast
  have c2: "\<not> lt (a2 ! h) (a2 ! m)" "\<not> lt (a2 ! h) (a2 ! l)" unfolding n2 using c1 t lt_asym [of "a1 ! h" "a1 ! l"] by simp_all
  have "\<not> lt (a3 ! h) (a3 ! l)" "\<not> lt (a3 ! l) (a3 ! m)" unfolding n3 using c2 lt_asym [of "a2 ! l" "a2 ! m"] by simp_all
  then have "\<not> lt (b ! l) (b ! (l + 1))" "\<not> lt (b ! h) (b ! l)" using m assms len by (auto simp: b_def nth_list_update)
  moreover have "small_pivot lt l h a = Some b"
    using m assms len by (simp add: small_pivot_def m_def [symmetric] Let_def swap_if_in a1_def [symmetric] a2_def [symmetric] a3_def [symmetric] array_simps b_def)
  moreover have "same_but l h a b" using s1 s2 s3 s4 same_but_trans by blast
  ultimately show ?thesis by blast
qed

text \<open>The element at \<open>k\<close> is where it belongs.\<close>

definition placed :: "nat \<Rightarrow> 'a list \<Rightarrow> bool" where
  "placed k a \<longleftrightarrow> (\<forall>i<k. \<not> lt (a ! k) (a ! i)) \<and> (\<forall>j. k < j \<and> j < length a \<longrightarrow> \<not> lt (a ! j) (a ! k))"

definition select_inv :: "nat \<Rightarrow> nat \<Rightarrow> nat \<Rightarrow> 'a list \<Rightarrow> bool" where
  "select_inv k l h a \<longleftrightarrow> h < length a \<and> (\<forall>i j. i < l \<and> l \<le> j \<and> j \<le> h \<longrightarrow> \<not> lt (a ! j) (a ! i)) \<and>
     (\<forall>i j. l \<le> i \<and> i \<le> h \<and> h < j \<and> j < length a \<longrightarrow> \<not> lt (a ! j) (a ! i)) \<and> (k < l \<or> h < k \<longrightarrow> placed k a)"

lemma placed_inside:
  assumes inv: "select_inv k l h a" and k: "l \<le> k \<Longrightarrow> k \<le> h \<Longrightarrow> (\<forall>i. l \<le> i \<and> i < k \<longrightarrow> \<not> lt (a ! k) (a ! i)) \<and> (\<forall>j. k < j \<and> j \<le> h \<longrightarrow> \<not> lt (a ! j) (a ! k))"
  shows "placed k a"
proof (cases "k < l \<or> h < k")
  case False
  have A: "\<And>i. i < l \<Longrightarrow> \<not> lt (a ! k) (a ! i)" and B: "\<And>j. h < j \<Longrightarrow> j < length a \<Longrightarrow> \<not> lt (a ! j) (a ! k)"
    using inv False by (auto simp: select_inv_def)
  show ?thesis unfolding placed_def
  proof (intro conjI allI impI)
    fix i
    assume "i < k"
    then show "\<not> lt (a ! k) (a ! i)" using A [of i] k False by (cases "i < l") auto
  next
    fix j
    assume "k < j \<and> j < length a"
    then show "\<not> lt (a ! j) (a ! k)" using B [of j] k False by (cases "h < j") auto
  qed
qed (use inv in \<open>simp add: select_inv_def\<close>)

lemma select_inv_perm:
  assumes inv: "select_inv k l h a" and sb: "same_but l h a b" and k: "k < length a"
  shows "select_inv k l h b"
proof -
  have len: "length b = length a" and out: "\<And>x. x < l \<or> h < x \<Longrightarrow> b ! x = a ! x"
    and inn: "\<And>x. l \<le> x \<Longrightarrow> x \<le> h \<Longrightarrow> \<exists>y. l \<le> y \<and> y \<le> h \<and> b ! x = a ! y"
    using sb by (auto simp: same_but_def)
  have A: "\<not> lt (b ! j) (b ! i)" if "i < l" "l \<le> j" "j \<le> h" for i j
    using inn [OF that(2,3)] out [of i] that(1) inv by (auto simp: select_inv_def)
  have B: "\<not> lt (b ! j) (b ! i)" if "l \<le> i" "i \<le> h" "h < j" "j < length b" for i j
    using inn [OF that(1,2)] out [of j] that(3,4) len inv by (auto simp: select_inv_def)
  have "placed k b" if "k < l \<or> h < k"
  proof -
    have p: "placed k a" and bk: "b ! k = a ! k" using inv that out by (auto simp: select_inv_def)
    have ex: "\<exists>y. b ! x = a ! y \<and> (x < k \<longleftrightarrow> y < k) \<and> (k < x \<longleftrightarrow> k < y) \<and> y < length a" if "x < length a" for x
    proof (cases "x < l \<or> h < x")
      case False
      then obtain y where "l \<le> y" "y \<le> h" "b ! x = a ! y" using inn [of x] by auto
      then show ?thesis using \<open>k < l \<or> h < k\<close> False inv by (intro exI [of _ y]) (auto simp: select_inv_def)
    qed (use out that in blast)
    show ?thesis unfolding placed_def bk len
    proof (intro conjI allI impI)
      fix i
      assume "i < k"
      then show "\<not> lt (a ! k) (b ! i)" using ex [of i] p k by (auto simp: placed_def)
    next
      fix j
      assume "k < j \<and> j < length a"
      then show "\<not> lt (b ! j) (a ! k)" using ex [of j] p by (auto simp: placed_def)
    qed
  qed
  with A B len inv show ?thesis by (auto simp: select_inv_def)
qed

lemma select_inv_split:
  assumes inv: "select_inv k l h a" and w: "l < w" "w < m" "m \<le> h"
    and low: "\<And>x. l \<le> x \<Longrightarrow> x < m \<Longrightarrow> \<not> lt p (a ! x)" and up: "\<And>x. w \<le> x \<Longrightarrow> x \<le> h \<Longrightarrow> \<not> lt (a ! x) p"
  shows "select_inv k (if w \<le> k then m else l) (if w \<ge> k then w - 1 else h) a"
proof -
  have h: "h < length a" and A: "\<And>i j. i < l \<Longrightarrow> l \<le> j \<Longrightarrow> j \<le> h \<Longrightarrow> \<not> lt (a ! j) (a ! i)"
    and B: "\<And>i j. l \<le> i \<Longrightarrow> i \<le> h \<Longrightarrow> h < j \<Longrightarrow> j < length a \<Longrightarrow> \<not> lt (a ! j) (a ! i)" and P: "k < l \<or> h < k \<Longrightarrow> placed k a"
    using inv by (auto simp: select_inv_def)
  have mid: "\<not> lt (a ! j) (a ! i)" if "l \<le> i" "i < m" "w \<le> j" "j \<le> h" for i j
    using low [OF that(1,2)] up [OF that(3,4)] le_trans by blast
  have mid': "placed k a" if "w \<le> k" "k < m"
    unfolding placed_def
  proof (intro conjI allI impI)
    fix i
    assume "i < k"
    then show "\<not> lt (a ! k) (a ! i)" using A [of i k] mid [of i k] that w by (cases "i < l") auto
  next
    fix j
    assume "k < j \<and> j < length a"
    then show "\<not> lt (a ! j) (a ! k)" using B [of k j] mid [of k j] that w by (cases "h < j") auto
  qed
  consider "w < k" | "k < w" | "k = w" by linarith
  then show ?thesis
  proof cases
    case 1
    have "\<not> lt (a ! j) (a ! i)" if "i < m" "m \<le> j" "j \<le> h" for i j using A [of i j] mid [of i j] that w by (cases "i < l") auto
    then show ?thesis using 1 B P mid' w h by (auto simp: select_inv_def not_less)
  next
    case 2
    have "\<not> lt (a ! j) (a ! i)" if "l \<le> i" "i < w" "w \<le> j" "j < length a" for i j
      using B [of i j] mid [of i j] that w by (cases "h < j") auto
    then show ?thesis using 2 A P w h by (auto simp: select_inv_def)
  next
    case 3
    then show ?thesis using mid' w h by (auto simp: select_inv_def)
  qed
qed

lemma small_loop_ok:
  assumes "select_inv k l h a" "k < length a"
  shows "\<exists>b. small_loop lt k l h a = Some (b ! k, b) \<and> mset b = mset a \<and> placed k b"
  using assms
proof (induction "Suc h - l" arbitrary: l h a rule: less_induct)
  case less
  have h: "h < length a" using less.prems by (simp add: select_inv_def)
  consider (small) "h \<le> l" | (two) "h = l + 1" | (more) "l + 2 \<le> h" by linarith
  then show ?case
  proof cases
    case small
    then have "placed k a" by (intro placed_inside [OF less.prems(1)]) auto
    then show ?thesis using small less.prems by (subst small_loop.simps) (simp add: array_simps)
  next
    case two
    define b where "b = (if lt (a ! h) (a ! l) then a[h := a ! l, l := a ! h] else a)"
    have sb: "same_but l h a b" using two h by (cases "lt (a ! h) (a ! l)") (simp_all add: b_def same_but_swap)
    have inv: "select_inv k l h b" by (rule select_inv_perm [OF less.prems(1) sb less.prems(2)])
    have len: "length b = length a" "mset b = mset a" using sb by (auto simp: same_but_def)
    have "\<not> lt (b ! h) (b ! l)" using two h lt_asym by (auto simp: b_def)
    then have "placed k b" using two by (intro placed_inside [OF inv]) (auto simp: le_Suc_eq less_Suc_eq le_less)
    moreover have "swap_if lt h l a = Some b" using two h by (simp add: swap_if_in b_def)
    then have "small_loop lt k l h a = Some (b ! k, b)"
      using two less.prems(2) len by (subst small_loop.simps) (simp add: array_simps)
    ultimately show ?thesis using len by simp
  next
    case more
    obtain b where b: "small_pivot lt l h a = Some b" "same_but l h a b" "\<not> lt (b ! l) (b ! (l + 1))" "\<not> lt (b ! h) (b ! l)"
      using small_pivot_ok [OF more h] by blast
    define p where "p = b ! l"
    have lb: "length b = length a" using b(2) by (simp add: same_but_def)
    have "\<exists>ll' hh' c. small_part lt p (l + 1) h b = Some (ll', hh', c) \<and> same_but (l + 1) h b c \<and> l < hh' \<and> hh' < ll' \<and> ll' \<le> h \<and>
        (\<forall>x. l < x \<and> x < ll' \<longrightarrow> \<not> lt p (c ! x)) \<and> (\<forall>x. hh' < x \<and> x \<le> h \<longrightarrow> \<not> lt (c ! x) p)"
    proof (rule small_part_ok)
      show "\<not> lt p (b ! x)" if "l < x" "x \<le> l + 1" for x using that b(3) by (simp add: p_def le_Suc_eq)
      show "\<not> lt (b ! x) p" if "h \<le> x" "x \<le> h" for x using that b(4) by (simp add: p_def)
    qed (use more h lb in auto)
    then obtain m w c where c: "small_part lt p (l + 1) h b = Some (m, w, c)" "same_but (l + 1) h b c" "l < w" "w < m" "m \<le> h"
        "\<forall>x. l < x \<and> x < m \<longrightarrow> \<not> lt p (c ! x)" "\<forall>x. w < x \<and> x \<le> h \<longrightarrow> \<not> lt (c ! x) p" by blast
    have lc: "length c = length a" "c ! l = p" using c(2) lb by (simp_all add: same_but_def p_def)
    have "same_but l h b c" using c(2) more unfolding same_but_def by (metis Suc_eq_plus1 Suc_leD le_antisym less_Suc_eq not_less order_refl le_SucI less_or_eq_imp_le)
    moreover define d where "d = c[l := c ! w, w := c ! l]"
    moreover have "same_but l h c d" unfolding d_def using c more h lc by (intro same_but_swap) auto
    ultimately have sd: "same_but l h a d" using b(2) same_but_trans by blast
    have ld: "length d = length a" "mset d = mset a" using sd by (simp_all add: same_but_def)
    have nth: "d ! x = (if x = w then p else if x = l then c ! w else c ! x)" if "x \<le> h" for x
      using that c h lc by (auto simp: d_def nth_list_update)
    have low: "\<not> lt p (d ! x)" if "l \<le> x" "x < m" for x using c nth [of x] that by auto
    have up: "\<not> lt (d ! x) p" if "w \<le> x" "x \<le> h" for x using c nth [of x] that by auto
    have inv: "select_inv k (if w \<le> k then m else l) (if w \<ge> k then w - 1 else h) d"
      using select_inv_split [OF select_inv_perm [OF less.prems(1) sd less.prems(2)] c(3-5) low up] .
    have "\<exists>e. small_loop lt k (if w \<le> k then m else l) (if w \<ge> k then w - 1 else h) d = Some (e ! k, e) \<and> mset e = mset d \<and> placed k e"
      using c more less.prems(2) ld by (intro less.hyps inv) auto
    moreover have "small_loop lt k l h a = small_loop lt k (if w \<le> k then m else l) (if w \<ge> k then w - 1 else h) d"
      using more h b(1) c lb lc by (subst small_loop.simps) (simp add: array_simps p_def [symmetric] d_def)
    ultimately show ?thesis using ld by simp
  qed
qed

text \<open>The element of rank \<open>k\<close> compares equal to the one at \<open>k\<close> of a sorted array.\<close>

lemma placed_rank:
  assumes p: "placed k b" and k: "k < length b" and ys: "sorts lt b ys"
  shows "tied lt (ys ! k) (b ! k)"
proof -
  have len: "length ys = length b" using ys by (metis sorts_def size_mset)
  have ys': "\<not> lt (ys ! j) (ys ! i)" if "i < j" "j < length b" for i j
    using ys that len by (simp add: sorts_def sorted_by_def sorted_wrt_iff_nth_less)
  have cnt: "card {i. i < length ys \<and> P (ys ! i)} = card {i. i < length b \<and> P (b ! i)}" for P
    using ys by (simp add: sorts_def length_filter_conv_card [symmetric]) (metis mset_filter size_mset)
  have "\<not> lt (ys ! k) (b ! k)"
  proof
    assume less: "lt (ys ! k) (b ! k)"
    have "{..k} \<subseteq> {i. i < length ys \<and> lt (ys ! i) (b ! k)}"
    proof
      fix i
      assume "i \<in> {..k}"
      then show "i \<in> {i. i < length ys \<and> lt (ys ! i) (b ! k)}"
        using less ys' [of i k] k len lt_weak [OF less, of "ys ! i"] by (cases "i = k") auto
    qed
    then have "card {..k} \<le> card {i. i < length ys \<and> lt (ys ! i) (b ! k)}" by (intro card_mono) auto
    moreover have "{i. i < length b \<and> lt (b ! i) (b ! k)} \<subseteq> {..<k}" using p by (auto simp: placed_def) (metis linorder_neqE_nat lt_irrefl)
    then have "card {i. i < length b \<and> lt (b ! i) (b ! k)} \<le> card {..<k}" by (intro card_mono) auto
    ultimately show False using cnt [of "\<lambda>x. lt x (b ! k)"] by simp
  qed
  moreover have "\<not> lt (b ! k) (ys ! k)"
  proof
    assume more: "lt (b ! k) (ys ! k)"
    have "{i. i < length ys \<and> \<not> lt (b ! k) (ys ! i)} \<subseteq> {..<k}"
    proof
      fix i
      assume i: "i \<in> {i. i < length ys \<and> \<not> lt (b ! k) (ys ! i)}"
      then have "lt (ys ! i) (ys ! k)" using lt_weak [OF more, of "ys ! i"] by simp
      then have "\<not> k < i" "i \<noteq> k" using ys' [of k i] i len by auto
      then have "i < k" by simp
      then show "i \<in> {..<k}" by simp
    qed
    then have "card {i. i < length ys \<and> \<not> lt (b ! k) (ys ! i)} \<le> card {..<k}" by (intro card_mono) auto
    moreover have "{..k} \<subseteq> {i. i < length b \<and> \<not> lt (b ! k) (b ! i)}" using p k by (auto simp: placed_def le_less)
    then have "card {..k} \<le> card {i. i < length b \<and> \<not> lt (b ! k) (b ! i)}" by (intro card_mono) auto
    ultimately show False using cnt [of "\<lambda>x. \<not> lt (b ! k) x"] by simp
  qed
  ultimately show ?thesis by (simp add: tied_def)
qed

lemma ksmall_ok:
  assumes "k < length a"
  shows "\<exists>x b. ks_ksmall lt a k = Some (x, b) \<and> mset b = mset a \<and> (\<forall>ys. sorts lt a ys \<longrightarrow> tied lt (ys ! k) x) \<and> x = b ! k"
proof -
  have "select_inv k 0 (length a - 1) a" using assms by (auto simp: select_inv_def)
  then obtain b where b: "small_loop lt k 0 (length a - 1) a = Some (b ! k, b)" "mset b = mset a" "placed k b"
    using small_loop_ok assms by blast
  moreover have "k < length b" using assms b(2) by (metis size_mset)
  ultimately show ?thesis using placed_rank by (auto simp: ks_ksmall_def sorts_def)
qed

end

text \<open>
  C36: Selection. For every strict weak order and every rank below the length, \<open>ks_ksmall\<close> ends without an access outside of the array,
  permutes it, and returns an element that compares equal to the one at that place of the sorted array.
\<close>

theorem ks_ksmall_selects:
  assumes "comparison lt" "k < length a"
  shows "\<exists>x b. ks_ksmall lt a k = Some (x, b) \<and> mset b = mset a \<and> x \<in> set a \<and> (\<forall>ys. sorts lt a ys \<longrightarrow> tied lt (ys ! k) x)"
proof -
  obtain x b where r: "ks_ksmall lt a k = Some (x, b)" "mset b = mset a" "\<forall>ys. sorts lt a ys \<longrightarrow> tied lt (ys ! k) x" "x = b ! k"
    using comparison.ksmall_ok [OF assms] by blast
  then have "x \<in> set b" using assms(2) by (metis nth_mem size_mset)
  then show ?thesis using r by (metis set_mset_mset)
qed

theorem ks_ksmall_selects_witness: "\<exists>b. ks_ksmall ks_lt_generic [5, 3, 9, 1, 7 :: nat] 2 = Some (5, b)"
proof -
  have "sorts ks_lt_generic [5, 3, 9, 1, 7 :: nat] [1, 3, 5, 7, 9]" by (simp add: sorts_def ks_lt_generic_def)
  with ks_ksmall_selects [OF lt_generic.comparison_axioms, of 2 "[5, 3, 9, 1, 7 :: nat]"]
  obtain x b where "ks_ksmall ks_lt_generic [5, 3, 9, 1, 7 :: nat] 2 = Some (x, b)" "tied ks_lt_generic ([1, 3, 5, 7, 9] ! 2) x" by fastforce
  then show ?thesis by (simp add: tied_def ks_lt_generic_def)
qed

end
