(* ===== verification/KIntrosort.thy ===== *)
theory KIntrosort
  imports KCombsort KSelect
begin

text \<open>
  \<open>ks_introsort\<close> of \<open>src/ext/klib/ksort.h\<close>: quicksort with an explicit stack of bounded size, comb sort of the parts that it splits too often,
  and one insertion sort at the end. An access outside of the array, a push beyond the allocated stack and a loop that does not end
  give \<open>None\<close>.
\<close>

section \<open>Operations\<close>

text \<open>\<open>do --j; while (i <= j && lt(rp, *j))\<close>.\<close>

primrec intro_down :: "('a \<Rightarrow> 'a \<Rightarrow> bool) \<Rightarrow> 'a \<Rightarrow> 'a list \<Rightarrow> nat \<Rightarrow> nat \<Rightarrow> nat option" where
  "intro_down lt rp a i 0 = None"
| "intro_down lt rp a i (Suc j) = (if i \<le> j then do { x \<leftarrow> aget a j; if lt rp x then intro_down lt rp a i j else Some j } else Some j)"

partial_function (option) intro_part :: "('a \<Rightarrow> 'a \<Rightarrow> bool) \<Rightarrow> 'a \<Rightarrow> nat \<Rightarrow> nat \<Rightarrow> 'a list \<Rightarrow> (nat \<times> 'a list) option" where
  "intro_part lt rp i j a =
     do { i \<leftarrow> scan_up lt rp a i;
          j \<leftarrow> intro_down lt rp a i j;
          if j \<le> i then Some (i, a) else do { a \<leftarrow> aswap a i j; intro_part lt rp i j a } }"

definition intro_pivot :: "('a \<Rightarrow> 'a \<Rightarrow> bool) \<Rightarrow> nat \<Rightarrow> nat \<Rightarrow> 'a list \<Rightarrow> nat option" where
  "intro_pivot lt i j a =
     (let k = i + (j - i) div 2 + 1
      in do { x \<leftarrow> aget a k; y \<leftarrow> aget a i; z \<leftarrow> aget a j;
              Some (if lt x y then if lt x z then j else k else if lt z y then i else j) })"

text \<open>The pivot goes to \<open>t\<close>, the rest is split, and the pivot goes between the two parts.\<close>

definition intro_split :: "('a \<Rightarrow> 'a \<Rightarrow> bool) \<Rightarrow> nat \<Rightarrow> nat \<Rightarrow> 'a list \<Rightarrow> (nat \<times> 'a list) option" where
  "intro_split lt s t a =
     do { k \<leftarrow> intro_pivot lt s t a;
          rp \<leftarrow> aget a k;
          a \<leftarrow> (if k \<noteq> t then aswap a k t else Some a);
          (i, a) \<leftarrow> intro_part lt rp s t a;
          a \<leftarrow> aswap a i t;
          Some (i, a) }"

definition intro_push :: "nat \<Rightarrow> nat \<times> nat \<times> int \<Rightarrow> (nat \<times> nat \<times> int) list \<Rightarrow> (nat \<times> nat \<times> int) list option" where
  "intro_push cap e stk = (if length stk < cap then Some (e # stk) else None)"

definition comb_part :: "('a \<Rightarrow> 'a \<Rightarrow> bool) \<Rightarrow> (nat \<Rightarrow> nat) \<Rightarrow> nat \<Rightarrow> nat \<Rightarrow> 'a list \<Rightarrow> 'a list option" where
  "comb_part lt shrink s t a = do { b \<leftarrow> ks_combsort lt shrink (slice a s (Suc t)); Some (take s a @ b @ drop (Suc t) a) }"

partial_function (option) intro_loop ::
  "('a \<Rightarrow> 'a \<Rightarrow> bool) \<Rightarrow> (nat \<Rightarrow> nat) \<Rightarrow> nat \<Rightarrow> (nat \<times> nat \<times> int) list \<Rightarrow> nat \<Rightarrow> nat \<Rightarrow> int \<Rightarrow> 'a list \<Rightarrow> 'a list option" where
  "intro_loop lt shrink cap stk s t d a =
     (if s < t then
        if d - 1 = 0 then do { a \<leftarrow> comb_part lt shrink s t a; intro_loop lt shrink cap stk s s (d - 1) a }
        else
          do { (i, a) \<leftarrow> intro_split lt s t a;
               if i - s > t - i then
                 do { stk \<leftarrow> (if i - s > 16 then intro_push cap (s, i - 1, d - 1) stk else Some stk);
                      intro_loop lt shrink cap stk (if t - i > 16 then i + 1 else t) t (d - 1) a }
               else
                 do { stk \<leftarrow> (if t - i > 16 then intro_push cap (i + 1, t, d - 1) stk else Some stk);
                      intro_loop lt shrink cap stk s (if i - s > 16 then i - 1 else s) (d - 1) a } }
      else (case stk of [] \<Rightarrow> Some a | (l, r, d) # stk \<Rightarrow> intro_loop lt shrink cap stk l r d a))"

function intro_depth :: "nat \<Rightarrow> nat \<Rightarrow> nat" where
  "intro_depth n d = (if 2 ^ d < n then intro_depth n (Suc d) else d)"
  by auto
termination by (relation "measure (\<lambda>(n, d). n - 2 ^ d)") (auto intro!: diff_less_mono2)

declare intro_depth.simps [simp del]

text \<open>The stack has room for \<open>sizeof(size_t) * d + 2\<close> entries.\<close>

definition ks_introsort :: "('a \<Rightarrow> 'a \<Rightarrow> bool) \<Rightarrow> (nat \<Rightarrow> nat) \<Rightarrow> 'a list \<Rightarrow> 'a list option" where
  "ks_introsort lt shrink a =
     (let n = length a
      in if n < 1 then Some a
         else if n = 2 then do { x \<leftarrow> aget a 1; y \<leftarrow> aget a 0; if lt x y then aswap a 0 1 else Some a }
         else
           let d = intro_depth n 2
           in do { a \<leftarrow> intro_loop lt shrink (8 * d + 2) [] 0 (n - 1) (int (2 * d)) a; ks_insertsort lt a })"

section \<open>Splitting\<close>

lemma intro_down_stops:
  "i \<le> j \<Longrightarrow> j \<le> length a \<Longrightarrow> 0 < i \<Longrightarrow> \<exists>m. intro_down lt rp a i j = Some m \<and> i \<le> Suc m \<and> m < j"
proof (induction j)
  case (Suc j)
  show ?case
  proof (cases "i \<le> j \<and> lt rp (a ! j)")
    case True
    then obtain m where "intro_down lt rp a i j = Some m" "i \<le> Suc m" "m < j" using Suc by auto
    then show ?thesis using True Suc.prems by (auto simp: array_simps)
  qed (use Suc.prems in \<open>auto simp: array_simps\<close>)
qed simp

context comparison
begin

lemma intro_part_ok:
  assumes "t < length a" "a ! t = rp" "i < j" "j \<le> t"
  shows "\<exists>m b. intro_part lt rp i j a = Some (m, b) \<and> i < m \<and> m \<le> t \<and> mset b = mset a \<and> length b = length a"
  using assms
proof (induction j arbitrary: i a rule: less_induct)
  case (less j)
  have "\<not> lt (a ! t) rp" using less.prems(2) by simp
  then obtain m where m: "scan_up lt rp a i = Some m" "i < m" "m \<le> t" using scan_up_stops [of i t a lt rp] less.prems by auto
  show ?case
  proof (cases "m \<le> j")
    case True
    then obtain w where w: "intro_down lt rp a m j = Some w" "m \<le> Suc w" "w < j" using intro_down_stops [of m j a lt rp] less.prems m(2) by auto
    show ?thesis
    proof (cases "w \<le> m")
      case True
      then show ?thesis using m w by (subst intro_part.simps) simp
    next
      case False
      define b where "b = a[m := a ! w, w := a ! m]"
      have i: "m < w" "w < t" "w < length a" using False w less.prems by auto
      then have b: "aswap a m w = Some b" "mset b = mset a" "length b = length a" "b ! t = rp"
        using less.prems(1,2) by (simp_all add: array_simps b_def mset_list_swap)
      have "\<exists>m' c. intro_part lt rp m w b = Some (m', c) \<and> m < m' \<and> m' \<le> t \<and> mset c = mset b \<and> length c = length b"
        using b i less.prems(1) w(3) by (intro less.IH) auto
      then show ?thesis using False m w b by (subst intro_part.simps) auto
    qed
  next
    case False
    then have "intro_down lt rp a m j = Some (j - 1)" "j - 1 \<le> m" using less.prems(3) by (cases j; auto)+
    then show ?thesis using m by (subst intro_part.simps) simp
  qed
qed

lemma intro_split_ok:
  assumes "s < t" "t < length a"
  shows "\<exists>i b. intro_split lt s t a = Some (i, b) \<and> s < i \<and> i \<le> t \<and> mset b = mset a \<and> length b = length a"
proof -
  have m: "s + (t - s) div 2 + 1 \<le> t" using assms by (cases "t - s = 1") auto
  then obtain k where k: "intro_pivot lt s t a = Some k" "s \<le> k" "k \<le> t" using assms by (auto simp: intro_pivot_def Let_def array_simps)
  define b where "b = a[k := a ! t, t := a ! k]"
  have b: "(if k \<noteq> t then aswap a k t else Some a) = Some b" "mset b = mset a" "length b = length a" "b ! t = a ! k"
    using k assms by (simp_all add: array_simps b_def mset_list_swap)
  obtain i c where c: "intro_part lt (a ! k) s t b = Some (i, c)" "s < i" "i \<le> t" "mset c = mset b" "length c = length b"
    using intro_part_ok [of t b "a ! k" s t] b assms by auto
  have "aswap c i t = Some (c[i := c ! t, t := c ! i])" "mset (c[i := c ! t, t := c ! i]) = mset c"
    using c b assms by (simp_all add: array_simps mset_list_swap)
  then show ?thesis using k b c assms by (simp add: intro_split_def array_simps)
qed

end

section \<open>The stack\<close>

text \<open>Below part number \<open>p\<close> of the stack at most a \<open>2 ^ p\<close>-th of the array is left; the part at work counts as the next one.\<close>

primrec stack_ok :: "nat \<Rightarrow> (nat \<times> nat \<times> int) list \<Rightarrow> bool" where
  "stack_ok n [] = True"
| "stack_ok n (e # stk) = (case e of (l, r, d) \<Rightarrow> 2 ^ length stk * (Suc r - l) \<le> n \<and> l < r \<and> r < n \<and> stack_ok n stk)"

definition part_ok :: "nat \<Rightarrow> nat \<Rightarrow> nat \<Rightarrow> nat \<Rightarrow> bool" where
  "part_ok n p s t \<longleftrightarrow> t < n \<and> 2 ^ p * (if s < t then Suc t - s else 1) \<le> n"

definition stack_left :: "(nat \<times> nat \<times> int) list \<Rightarrow> nat" where
  "stack_left stk = sum_list (map (\<lambda>(l, r, d). 2 * (r - l) + 1) stk)"

lemma part_ok_small: "part_ok n p s t \<Longrightarrow> u < n \<Longrightarrow> part_ok n p u u"
proof -
  assume "part_ok n p s t" "u < n"
  then have "2 ^ p * 1 \<le> n" by (cases "s < t") (auto simp: part_ok_def elim: order_trans [rotated])
  then show ?thesis using \<open>u < n\<close> by (simp add: part_ok_def)
qed

lemma part_ok_sub:
  assumes "part_ok n p s t" "s < t" "s \<le> u" "v \<le> t"
  shows "part_ok n p u v"
proof -
  have c: "2 ^ p * (Suc t - s) \<le> n" "t < n" using assms by (simp_all add: part_ok_def)
  have "2 ^ p * (if u < v then Suc v - u else 1) \<le> 2 ^ p * (Suc t - s)" using assms by (intro mult_le_mono2) auto
  from order_trans [OF this c(1)] show ?thesis using c(2) assms(4) by (auto simp: part_ok_def)
qed

lemma part_ok_half:
  assumes "part_ok n p s t" "s < t" "v < n" "2 * (if u < v then Suc v - u else 1) \<le> Suc t - s"
  shows "part_ok n (Suc p) u v"
proof -
  have c: "2 ^ p * (Suc t - s) \<le> n" using assms by (simp add: part_ok_def)
  have "2 ^ Suc p * (if u < v then Suc v - u else 1) \<le> 2 ^ p * (Suc t - s)"
    using mult_le_mono2 [OF assms(4), of "2 ^ p"] by (simp only: power_Suc mult.assoc mult.left_commute)
  from order_trans [OF this c] show ?thesis using assms(3) by (simp only: part_ok_def)
qed

lemma push_ok:
  assumes cur: "part_ok n (length stk) s t" and cap: "n \<le> 2 ^ d0" "cap = 8 * d0 + 2" and lr: "s < t" "s \<le> l" "r \<le> t" "l < r" and st: "stack_ok n stk"
  shows "intro_push cap (l, r, d) stk = Some ((l, r, d) # stk) \<and> stack_ok n ((l, r, d) # stk) \<and> stack_left ((l, r, d) # stk) = 2 * (r - l) + 1 + stack_left stk"
proof -
  have "part_ok n (length stk) l r" using part_ok_sub [OF cur lr(1-3)] .
  then have k: "2 ^ length stk * (Suc r - l) \<le> n" "r < n" using lr(4) by (simp_all add: part_ok_def)
  then have "2 ^ length stk * 1 \<le> n" using lr(4) by (intro order_trans [OF mult_le_mono2 k(1)]) simp
  then have "(2 :: nat) ^ length stk \<le> 2 ^ d0" using cap(1) by (metis mult_1_right order_trans)
  then have "length stk \<le> d0" by simp
  then show ?thesis using k lr st cap(2) by (simp add: intro_push_def stack_left_def)
qed

context comparison
begin

lemma comb_part_ok:
  assumes "gap_shrinks shrink" "s < t" "t < length a"
  shows "\<exists>b. comb_part lt shrink s t a = Some b \<and> mset b = mset a"
proof -
  obtain c where c: "ks_combsort lt shrink (slice a s (Suc t)) = Some c" "mset c = mset (slice a s (Suc t))"
    using combsort_ok [OF assms(1)] by (metis sorts_def)
  have "take s a @ slice a s (Suc t) @ drop (Suc t) a = a"
    using assms append_take_drop_id [of "Suc t - s" "drop s a"] by (simp add: slice_def)
  then have "mset (take s a @ c @ drop (Suc t) a) = mset a" using c(2) by (metis mset_append)
  then show ?thesis using c(1) by (simp add: comb_part_def)
qed

lemma intro_loop_ok:
  assumes sh: "gap_shrinks shrink" and cap: "n \<le> 2 ^ d0" "cap = 8 * d0 + 2"
  shows "length a = n \<Longrightarrow> part_ok n (length stk) s t \<Longrightarrow> stack_ok n stk \<Longrightarrow> \<exists>b. intro_loop lt shrink cap stk s t d a = Some b \<and> mset b = mset a"
proof (induction "2 * (t - s) + stack_left stk" arbitrary: stk s t d a rule: less_induct)
  case less
  have tn: "t < n" using less.prems(2) by (simp add: part_ok_def)
  consider (pop) l r e stk' where "\<not> s < t" "stk = (l, r, e) # stk'" | (ends) "\<not> s < t" "stk = []"
    | (comb) "s < t" "d - 1 = 0" | (split) "s < t" "d - 1 \<noteq> 0"
    by (cases stk) auto
  then show ?case
  proof cases
    case pop
    then have "part_ok n (length stk') l r" "stack_ok n stk'" using less.prems(3) by (auto simp: part_ok_def)
    then have "\<exists>b. intro_loop lt shrink cap stk' l r e a = Some b \<and> mset b = mset a"
      using pop less.prems(1) by (intro less.hyps) (auto simp: stack_left_def)
    then show ?thesis using pop by (subst intro_loop.simps) simp
  next
    case ends
    then show ?thesis by (subst intro_loop.simps) simp
  next
    case comb
    obtain b where b: "comb_part lt shrink s t a = Some b" "mset b = mset a" using comb_part_ok [OF sh comb(1)] tn less.prems(1) by auto
    then have "length b = n" using less.prems(1) by (metis size_mset)
    then have "\<exists>c. intro_loop lt shrink cap stk s s (d - 1) b = Some c \<and> mset c = mset b"
      using comb less.prems tn by (intro less.hyps) (auto intro: part_ok_small)
    then show ?thesis using comb b by (subst intro_loop.simps) simp
  next
    case split
    obtain i b where b: "intro_split lt s t a = Some (i, b)" "s < i" "i \<le> t" "mset b = mset a" "length b = n"
      using intro_split_ok [of s t a] split(1) tn less.prems(1) by auto
    note cur = less.prems(2) and st = less.prems(3)
    show ?thesis
    proof (cases "i - s > t - i")
      case True
      define s' where "s' = (if t - i > 16 then i + 1 else t)"
      have s': "s \<le> s'" "t - s' \<le> t - i - 1" using b by (auto simp: s'_def)
      show ?thesis
      proof (cases "i - s > 16")
        case big: True
        have p: "intro_push cap (s, i - 1, d - 1) stk = Some ((s, i - 1, d - 1) # stk)" "stack_ok n ((s, i - 1, d - 1) # stk)"
            "stack_left ((s, i - 1, d - 1) # stk) = 2 * (i - 1 - s) + 1 + stack_left stk"
          using push_ok [OF cur cap split(1) order_refl _ _ st, of "i - 1" "d - 1"] b big by auto
        have "part_ok n (Suc (length stk)) s' t" using big True b by (intro part_ok_half [OF cur split(1) tn]) (auto simp: s'_def)
        then have "\<exists>c. intro_loop lt shrink cap ((s, i - 1, d - 1) # stk) s' t (d - 1) b = Some c \<and> mset c = mset b"
          using p(2,3) b s' big split(1) by (intro less.hyps) auto
        then show ?thesis using split b(1,4) True big p(1) by (subst intro_loop.simps) (simp add: s'_def)
      next
        case False
        have "part_ok n (length stk) s' t" using part_ok_sub [OF cur split(1) s'(1)] by simp
        then have "\<exists>c. intro_loop lt shrink cap stk s' t (d - 1) b = Some c \<and> mset c = mset b"
          using st b s' split(1) by (intro less.hyps) auto
        then show ?thesis using split b(1,4) True False by (subst intro_loop.simps) (simp add: s'_def)
      qed
    next
      case right: False
      define t' where "t' = (if i - s > 16 then i - 1 else s)"
      have t': "t' \<le> t" "t' - s \<le> i - s - 1" "t' < n" using b tn by (auto simp: t'_def)
      show ?thesis
      proof (cases "t - i > 16")
        case big: True
        have p: "intro_push cap (i + 1, t, d - 1) stk = Some ((i + 1, t, d - 1) # stk)" "stack_ok n ((i + 1, t, d - 1) # stk)"
            "stack_left ((i + 1, t, d - 1) # stk) = 2 * (t - (i + 1)) + 1 + stack_left stk"
          using push_ok [OF cur cap split(1) _ order_refl _ st, of "i + 1" "d - 1"] b big by auto
        have "part_ok n (Suc (length stk)) s t'" using big right b by (intro part_ok_half [OF cur split(1) t'(3)]) (auto simp: t'_def)
        then have "\<exists>c. intro_loop lt shrink cap ((i + 1, t, d - 1) # stk) s t' (d - 1) b = Some c \<and> mset c = mset b"
          using p(2,3) b t' big split(1) by (intro less.hyps) auto
        then show ?thesis using split b(1,4) right big p(1) by (subst intro_loop.simps) (simp add: t'_def)
      next
        case False
        have "part_ok n (length stk) s t'" using part_ok_sub [OF cur split(1) order_refl t'(1)] .
        then have "\<exists>c. intro_loop lt shrink cap stk s t' (d - 1) b = Some c \<and> mset c = mset b"
          using st b t' split(1) by (intro less.hyps) auto
        then show ?thesis using split b(1,4) right False by (subst intro_loop.simps) (simp add: t'_def)
      qed
    qed
  qed
qed

lemma introsort_ok:
  assumes "gap_shrinks shrink"
  shows "\<exists>b. ks_introsort lt shrink a = Some b \<and> sorts lt a b"
proof -
  define n where "n = length a"
  consider "n = 0" | "n = 2" | (many) "n \<noteq> 0" "n \<noteq> 2" by blast
  then show ?thesis
  proof cases
    case 1
    then show ?thesis by (simp add: ks_introsort_def n_def sorts_def)
  next
    case 2
    then obtain x y where "a = [x, y]" by (auto simp: n_def length_Suc_conv numeral_2_eq_2)
    then show ?thesis by (cases "lt y x") (simp_all add: ks_introsort_def array_simps sorts_def lt_asym)
  next
    case many
    have "n \<le> 2 ^ intro_depth n d" for d
    proof (induction n d rule: intro_depth.induct)
      case (1 n d)
      then show ?case by (subst intro_depth.simps) (auto simp: not_less)
    qed
    note depth = this [of 2]
    have p: "part_ok n (length []) 0 (n - 1)" using many by (auto simp: part_ok_def)
    have l: "length a = n" by (simp add: n_def)
    obtain b where "intro_loop lt shrink (8 * intro_depth n 2 + 2) [] 0 (n - 1) (int (2 * intro_depth n 2)) a = Some b" "mset b = mset a"
      using intro_loop_ok [OF assms depth refl l p stack_ok.simps(1) [THEN iffD2, OF TrueI]] by blast
    moreover obtain c where "ks_insertsort lt b = Some c" "sorts lt b c" using insertsort_sorts stably_sorts_sorts by metis
    ultimately show ?thesis using many by (simp add: ks_introsort_def n_def [symmetric] Let_def sorts_def)
  qed
qed

end

text \<open>The element at the start of a part is not compared with the pivot, so that it may stay before it although it is greater.\<close>

lemma intro_split_leaves_greater: "intro_split ks_lt_generic 0 3 [3, 0, 1, 2 :: nat] = Some (3, [3, 0, 1, 2])"
proof -
  have "scan_up ks_lt_generic 2 [3, 0, 1, 2 :: nat] 0 = Some 3" "intro_down ks_lt_generic 2 [3, 0, 1, 2 :: nat] 3 3 = Some 2" by code_simp+
  then have "intro_part ks_lt_generic 2 0 3 [3, 0, 1, 2 :: nat] = Some (3, [3, 0, 1, 2])" by (subst intro_part.simps) simp
  moreover have "intro_pivot ks_lt_generic 0 3 [3, 0, 1, 2 :: nat] = Some 3" by code_simp
  ultimately show ?thesis by (simp add: intro_split_def array_simps)
qed

text \<open>
  C34: Introsort and comb sort. For every strict weak order both end with the sorted array: no scan of the split runs past the array, the
  stack of postponed parts never outgrows its block, comb sort ends although its gap stays at 2. Of the floating-point division
  that shrinks the gap only the bound of \<open>gap_shrinks\<close> is used.
\<close>

theorem ks_introsort_sorts:
  assumes "comparison lt" "gap_shrinks shrink"
  shows "(\<exists>b. ks_introsort lt shrink a = Some b \<and> sorts lt a b) \<and> (\<exists>b. ks_combsort lt shrink a = Some b \<and> sorts lt a b)"
  using comparison.introsort_ok [OF assms] comparison.combsort_ok [OF assms] by blast

theorem ks_introsort_sorts_witness:
  "\<exists>b. ks_introsort ks_lt_generic decimal_shrink [4, 2, 5, 1, 3 :: nat] = Some b \<and> sorts ks_lt_generic [4, 2, 5, 1, 3] b"
  using ks_introsort_sorts [OF lt_generic.comparison_axioms decimal_shrinks] by blast

end
