(* ===== verification/KHashl.thy ===== *)
theory KHashl
  imports KHash
begin

text \<open>
  The hash table with linear probing of klib (\<open>src/ext/klib/khashl.h\<close>): the functions of \<open>KHASHL_INIT\<close> with the hash function
  and the equality of elements as arguments. One bit per bucket says whether it is used; a deletion moves later elements of the
  run back. Indices and sizes have their 32 bits. Whether \<open>malloc\<close> and \<open>realloc\<close> succeed are arguments; the result
  \<open>None\<close> of \<open>hl_resize\<close> is the write to a null pointer when the first of them fails.
\<close>

section \<open>Bits\<close>

definition hl_used_bit :: "u32 list \<Rightarrow> u32 \<Rightarrow> bool" where
  "hl_used_bit flag i \<longleftrightarrow> drop_bit (unat (i AND 0x1F)) (flag ! unat (drop_bit 5 i)) AND 1 \<noteq> 0"

definition hl_set_used :: "u32 list \<Rightarrow> u32 \<Rightarrow> u32 list" where
  "hl_set_used flag i =
     flag[unat (drop_bit 5 i) := flag ! unat (drop_bit 5 i) OR push_bit (unat (i AND 0x1F)) 1]"

definition hl_set_unused :: "u32 list \<Rightarrow> u32 \<Rightarrow> u32 list" where
  "hl_set_unused flag i =
     flag[unat (drop_bit 5 i) := flag ! unat (drop_bit 5 i) AND NOT (push_bit (unat (i AND 0x1F)) 1)]"

definition hl_fsize :: "u32 \<Rightarrow> nat" where
  "hl_fsize m = (if m < 32 then 1 else unat (drop_bit 5 m))"

text \<open>\<open>memset (used, 0, ...)\<close>\<close>

definition hl_no_used :: "u32 \<Rightarrow> u32 list" where
  "hl_no_used m = replicate (hl_fsize m) 0"

definition hl_h2b :: "u32 \<Rightarrow> u32 \<Rightarrow> u32" where
  "hl_h2b hash bits = drop_bit (unat (32 - bits)) (hash * 2654435769)"

definition hl_max_count :: "u32 \<Rightarrow> u32" where
  "hl_max_count cap = drop_bit 1 cap + drop_bit 2 cap"

section \<open>The table\<close>

text \<open>\<open>None\<close> stands for a null pointer to the keys, the empty list for one to the bits.\<close>

record 'e khashl =
  hl_bits :: u32
  hl_count :: u32
  hl_used :: "u32 list"
  hl_keys :: "'e mem option"

definition hl_init :: "'e khashl" where
  "hl_init = \<lparr> hl_bits = 0, hl_count = 0, hl_used = [], hl_keys = None \<rparr>"

definition hl_buckets :: "'e khashl \<Rightarrow> u32" where
  "hl_buckets h = push_bit (unat (hl_bits h)) 1"

definition hl_capacity :: "'e khashl \<Rightarrow> u32" where
  "hl_capacity h = (if hl_keys h \<noteq> None then hl_buckets h else 0)"

definition hl_exist :: "'e khashl \<Rightarrow> u32 \<Rightarrow> bool" where
  "hl_exist h i = hl_used_bit (hl_used h) i"

definition hl_clear :: "'e khashl \<Rightarrow> 'e khashl" where
  "hl_clear h = (if hl_used h \<noteq> [] then h\<lparr> hl_used := hl_no_used (hl_buckets h), hl_count := 0 \<rparr> else h)"

subsection \<open>Lookup\<close>

definition hl_passes :: "('e \<Rightarrow> 'e \<Rightarrow> bool) \<Rightarrow> u32 list \<Rightarrow> 'e mem \<Rightarrow> 'e \<Rightarrow> u32 \<Rightarrow> bool" where
  "hl_passes eq fl ks key i \<longleftrightarrow> hl_used_bit fl i \<and> \<not> eq (ks (unat i)) key"

partial_function (option) hl_get_loop ::
    "('e \<Rightarrow> 'e \<Rightarrow> bool) \<Rightarrow> u32 \<Rightarrow> u32 list \<Rightarrow> 'e mem \<Rightarrow> 'e \<Rightarrow> u32 \<Rightarrow> u32 \<Rightarrow> u32 option" where
  "hl_get_loop eq n fl ks key start i =
     (if hl_passes eq fl ks key i then
        let i = (i + 1) AND (n - 1) in if i = start then Some n else hl_get_loop eq n fl ks key start i
      else Some (if \<not> hl_used_bit fl i then n else i))"

definition hl_getp_core :: "('e \<Rightarrow> 'e \<Rightarrow> bool) \<Rightarrow> 'e khashl \<Rightarrow> 'e \<Rightarrow> u32 \<Rightarrow> u32 option" where
  "hl_getp_core eq h key hash =
     (case hl_keys h of
        None \<Rightarrow> Some 0
      | Some ks \<Rightarrow> let i = hl_h2b hash (hl_bits h) in hl_get_loop eq (hl_buckets h) (hl_used h) ks key i i)"

definition hl_getp :: "('e \<Rightarrow> 'e \<Rightarrow> bool) \<Rightarrow> ('e \<Rightarrow> u32) \<Rightarrow> 'e khashl \<Rightarrow> 'e \<Rightarrow> u32 option" where
  "hl_getp eq hash h key = hl_getp_core eq h key (hash key)"

subsection \<open>Resizing\<close>

function hl_log :: "u32 \<Rightarrow> u32 \<Rightarrow> u32" where
  "hl_log x j = (let x = drop_bit 1 x in if x \<noteq> 0 then hl_log x (j + 1) else j)"
  by auto
termination
proof (relation "measure (\<lambda>(x, j). unat x)")
  fix x y j :: u32
  assume y: "y = drop_bit 1 x" "y \<noteq> 0"
  then have "unat y = unat x div 2" by (simp add: drop_bit_eq_div unat_div_distrib)
  moreover have "unat y \<noteq> 0" using y(2) by (simp add: unat_eq_0)
  ultimately show "((y, j + 1), (x, j)) \<in> measure (\<lambda>(x, j). unat x)" by simp
qed simp

definition hl_new_bits :: "u32 \<Rightarrow> u32" where
  "hl_new_bits new_n =
     (let j = hl_log new_n 0; j = (if new_n AND (new_n - 1) \<noteq> 0 then j + 1 else j) in if j > 2 then j else 2)"

text \<open>The search for an unused bucket of the new table, and the kick-out process with an element in hand.\<close>

partial_function (option) hl_probe :: "u32 list \<Rightarrow> u32 \<Rightarrow> u32 \<Rightarrow> u32 option" where
  "hl_probe fl msk i = (if hl_used_bit fl i then hl_probe fl msk ((i + 1) AND msk) else Some i)"

partial_function (option) hl_kick ::
    "('e \<Rightarrow> u32) \<Rightarrow> u32 \<Rightarrow> u32 \<Rightarrow> 'e \<Rightarrow> u32 list \<Rightarrow> 'e mem \<Rightarrow> u32 list \<Rightarrow> (u32 list \<times> 'e mem \<times> u32 list) option" where
  "hl_kick hash nb bits key old ks new =
     Option.bind (hl_probe new (push_bit (unat bits) 1 - 1) (hl_h2b (hash key) bits)) (\<lambda>i.
       let new = hl_set_used new i
       in if i < nb \<and> hl_used_bit old i then
            hl_kick hash nb bits (ks (unat i)) (hl_set_unused old i) (ks(unat i := key)) new
          else Some (old, ks(unat i := key), new))"

definition hl_rehash_step ::
    "('e \<Rightarrow> u32) \<Rightarrow> u32 \<Rightarrow> u32 \<Rightarrow> u32 \<Rightarrow> u32 list \<times> 'e mem \<times> u32 list \<Rightarrow> (u32 list \<times> 'e mem \<times> u32 list) option" where
  "hl_rehash_step hash nb bits j st =
     (case st of (old, ks, new) \<Rightarrow>
        if \<not> hl_used_bit old j then Some st
        else hl_kick hash nb bits (ks (unat j)) (hl_set_unused old j) ks new)"

fun hl_rehash ::
    "('e \<Rightarrow> u32) \<Rightarrow> u32 \<Rightarrow> u32 \<Rightarrow> u32 \<Rightarrow> nat \<Rightarrow> u32 list \<times> 'e mem \<times> u32 list \<Rightarrow> (u32 list \<times> 'e mem \<times> u32 list) option" where
  "hl_rehash hash nb bits j 0 st = Some st"
| "hl_rehash hash nb bits j (Suc c) st =
     Option.bind (hl_rehash_step hash nb bits j st) (hl_rehash hash nb bits (j + 1) c)"

text \<open>
  The answers of \<open>Kmalloc\<close> and \<open>Krealloc\<close>, and what the keys hold when they are first allocated; shrinking always succeeds.
\<close>

record 'e hl_allocs =
  hl_used_ok :: bool
  hl_keys_ok :: bool
  hl_garbage :: "'e mem"

definition hl_resize ::
    "('e \<Rightarrow> u32) \<Rightarrow> 'e hl_allocs \<Rightarrow> 'e khashl \<Rightarrow> u32 \<Rightarrow> (int \<times> 'e khashl) option" where
  "hl_resize hash al h new_n =
     (let bits = hl_new_bits new_n; new_n = push_bit (unat bits) 1
      in if hl_count h > hl_max_count new_n then Some (0, h)
         else if \<not> hl_used_ok al then None
         else if hl_capacity h < new_n \<and> \<not> hl_keys_ok al then Some (- 1, h)
         else
           let ks = (case hl_keys h of None \<Rightarrow> hl_garbage al | Some ks \<Rightarrow> ks)
           in map_option (\<lambda>(old, ks, new). (0, h\<lparr> hl_keys := Some ks, hl_used := new, hl_bits := bits \<rparr>))
                (hl_rehash hash (hl_capacity h) bits 0 (unat (hl_capacity h)) (hl_used h, ks, hl_no_used new_n)))"

subsection \<open>Insertion\<close>

partial_function (option) hl_put_loop ::
    "('e \<Rightarrow> 'e \<Rightarrow> bool) \<Rightarrow> u32 \<Rightarrow> u32 list \<Rightarrow> 'e mem \<Rightarrow> 'e \<Rightarrow> u32 \<Rightarrow> u32 \<Rightarrow> u32 option" where
  "hl_put_loop eq n fl ks key start i =
     (if hl_passes eq fl ks key i then
        let i = (i + 1) AND (n - 1) in if i = start then Some i else hl_put_loop eq n fl ks key start i
      else Some i)"

text \<open>The iterator, \<open>absent\<close> and the table.\<close>

definition hl_put_at :: "'e khashl \<Rightarrow> 'e mem \<Rightarrow> 'e \<Rightarrow> u32 \<Rightarrow> u32 \<times> int \<times> 'e khashl" where
  "hl_put_at h ks key i =
     (if \<not> hl_used_bit (hl_used h) i then
        (i, 1, h\<lparr> hl_keys := Some (ks(unat i := key)), hl_used := hl_set_used (hl_used h) i, hl_count := hl_count h + 1 \<rparr>)
      else (i, 0, h))"

definition hl_putp_core ::
    "('e \<Rightarrow> 'e \<Rightarrow> bool) \<Rightarrow> ('e \<Rightarrow> u32) \<Rightarrow> 'e hl_allocs \<Rightarrow> 'e khashl \<Rightarrow> 'e \<Rightarrow> u32 \<Rightarrow> (u32 \<times> int \<times> 'e khashl) option" where
  "hl_putp_core eq hash al h key hv =
     Option.bind
       (if hl_count h \<ge> hl_max_count (hl_capacity h) then hl_resize hash al h (hl_capacity h + 1) else Some (0, h))
       (\<lambda>(r, h').
          if r < 0 then Some (hl_capacity h, - 1, h')
          else
            case hl_keys h' of
              None \<Rightarrow> None
            | Some ks \<Rightarrow>
                let i = hl_h2b hv (hl_bits h')
                in map_option (hl_put_at h' ks key) (hl_put_loop eq (hl_buckets h') (hl_used h') ks key i i))"

definition hl_putp ::
    "('e \<Rightarrow> 'e \<Rightarrow> bool) \<Rightarrow> ('e \<Rightarrow> u32) \<Rightarrow> 'e hl_allocs \<Rightarrow> 'e khashl \<Rightarrow> 'e \<Rightarrow> (u32 \<times> int \<times> 'e khashl) option" where
  "hl_putp eq hash al h key = hl_putp_core eq hash al h key (hash key)"

subsection \<open>Deletion\<close>

definition hl_may_move :: "u32 \<Rightarrow> u32 \<Rightarrow> u32 \<Rightarrow> bool" where
  "hl_may_move i j k \<longleftrightarrow> (j > i \<and> (k \<le> i \<or> k > j)) \<or> (j < i \<and> (k \<le> i \<and> k > j))"

partial_function (option) hl_del_loop ::
    "('e \<Rightarrow> u32) \<Rightarrow> u32 \<Rightarrow> u32 list \<Rightarrow> 'e mem \<Rightarrow> u32 \<Rightarrow> u32 \<Rightarrow> (u32 \<times> 'e mem) option" where
  "hl_del_loop hash bits fl ks i j =
     (let j = (j + 1) AND (push_bit (unat bits) 1 - 1)
      in if j = i \<or> \<not> hl_used_bit fl j then Some (i, ks)
         else if hl_may_move i j (hl_h2b (hash (ks (unat j))) bits) then
           hl_del_loop hash bits fl (ks(unat i := ks (unat j))) j j
         else hl_del_loop hash bits fl ks i j)"

definition hl_del :: "('e \<Rightarrow> u32) \<Rightarrow> 'e khashl \<Rightarrow> u32 \<Rightarrow> (int \<times> 'e khashl) option" where
  "hl_del hash h i =
     (case hl_keys h of
        None \<Rightarrow> Some (0, h)
      | Some ks \<Rightarrow>
          map_option (\<lambda>(i, ks). (1,
              h\<lparr> hl_keys := Some ks, hl_used := hl_set_unused (hl_used h) i, hl_count := hl_count h - 1 \<rparr>))
            (hl_del_loop hash (hl_bits h) (hl_used h) ks i i))"

text \<open>The assignment \<open>kh_bucket(h, i) = e\<close>, and what \<open>kh_foreach\<close> visits.\<close>

definition hl_set_bucket :: "u32 \<Rightarrow> 'e \<Rightarrow> 'e khashl \<Rightarrow> 'e khashl" where
  "hl_set_bucket i e h = h\<lparr> hl_keys := map_option (\<lambda>ks. ks(unat i := e)) (hl_keys h) \<rparr>"

definition hl_foreach :: "'e khashl \<Rightarrow> 'e list" where
  "hl_foreach h =
     (case hl_keys h of
        None \<Rightarrow> []
      | Some ks \<Rightarrow> map ks (filter (\<lambda>i. hl_exist h (of_nat i)) [0..<unat (hl_capacity h)]))"

subsection \<open>Sets and maps\<close>

text \<open>The buckets of the wrappers: the key; the key and a value; both with the hash value stored beside them.\<close>

definition hl_m_hash :: "('k \<Rightarrow> u32) \<Rightarrow> 'k \<times> 'v \<Rightarrow> u32" where
  "hl_m_hash hash x = hash (fst x)"

definition hl_m_eq :: "'k \<times> 'v \<Rightarrow> 'k \<times> 'v \<Rightarrow> bool" where
  "hl_m_eq x y \<longleftrightarrow> fst x = fst y"

definition hl_cs_bucket :: "('k \<Rightarrow> u32) \<Rightarrow> 'k \<Rightarrow> 'k \<times> u32" where
  "hl_cs_bucket hash key = (key, hash key)"

definition hl_cached_hash :: "'k \<times> u32 \<Rightarrow> u32" where
  "hl_cached_hash x = snd x"

definition hl_cs_eq :: "'k \<times> u32 \<Rightarrow> 'k \<times> u32 \<Rightarrow> bool" where
  "hl_cs_eq x y \<longleftrightarrow> snd x = snd y \<and> fst x = fst y"

section \<open>Hash functions\<close>

definition kh_hash_uint32 :: "u32 \<Rightarrow> u32" where
  "kh_hash_uint32 x =
     (let x = x XOR drop_bit 16 x; x = x * 0x85ebca6b; x = x XOR drop_bit 13 x; x = x * 0xc2b2ae35
      in x XOR drop_bit 16 x)"

definition kh_hash_uint64 :: "u64 \<Rightarrow> u32" where
  "kh_hash_uint64 x =
     (let x = x XOR drop_bit 30 x; x = x * 0xbf58476d1ce4e5b9; x = x XOR drop_bit 27 x; x = x * 0x94d049bb133111eb;
          x = x XOR drop_bit 31 x
      in ucast x)"

definition kh_hash_bytes :: "byte list \<Rightarrow> u32" where
  "kh_hash_bytes s = foldl (\<lambda>h b. (h XOR ucast b) * 16777619) 2166136261 s"

definition kh_hash_str :: "string \<Rightarrow> u32" where
  "kh_hash_str s = kh_hash_bytes (map of_char (cstr s))"

section \<open>The bits as an array\<close>

definition hl_bit :: "u32 list \<Rightarrow> nat \<Rightarrow> bool" where
  "hl_bit fl i \<longleftrightarrow> bit (fl ! (i div 32)) (i mod 32)"

lemma hl_word: "unat (drop_bit 5 i) = unat i div 32" for i :: u32
  by (simp add: drop_bit_eq_div unat_div_distrib)

lemma hl_shift: "unat (i AND 0x1F) = unat i mod 32" for i :: u32
proof -
  have "i AND 0x1F = i mod 32" using take_bit_eq_mask [of 5 i] by (simp add: take_bit_eq_mod mask_eq_exp_minus_1)
  then show ?thesis by (simp add: unat_mod_distrib)
qed

lemma hl_used_bit: "hl_used_bit fl i = hl_bit fl (unat i)"
  by (simp add: hl_used_bit_def hl_bit_def hl_word hl_shift and_bit_tests bit_drop_bit_eq)

lemma div_mod_eq: "i div 32 = j div 32 \<Longrightarrow> i mod 32 = j mod 32 \<Longrightarrow> i = j" for i j :: nat
  by (metis div_mult_mod_eq)

lemma hl_bit_set_used:
  assumes "unat i div 32 < length fl"
  shows "hl_bit (hl_set_used fl i) j \<longleftrightarrow> j = unat i \<or> hl_bit fl j"
  using assms div_mod_eq [of j "unat i"]
  by (auto simp: hl_bit_def hl_set_used_def hl_word hl_shift nth_list_update bit_simps bit_1_iff)

lemma hl_bit_set_unused:
  assumes "unat i div 32 < length fl"
  shows "hl_bit (hl_set_unused fl i) j \<longleftrightarrow> j \<noteq> unat i \<and> hl_bit fl j"
  using assms div_mod_eq [of j "unat i"]
  by (auto simp: hl_bit_def hl_set_unused_def hl_word hl_shift nth_list_update bit_simps bit_1_iff)

lemma length_hl_set [simp]: "length (hl_set_used fl i) = length fl" "length (hl_set_unused fl i) = length fl"
  by (simp_all add: hl_set_used_def hl_set_unused_def)

text \<open>The used buckets below \<open>n\<close>.\<close>

definition hl_slots :: "nat \<Rightarrow> u32 list \<Rightarrow> nat set" where
  "hl_slots n fl = {i. i < n \<and> hl_bit fl i}"

lemma finite_hl_slots [simp]: "finite (hl_slots n fl)"
  by (simp add: hl_slots_def)

lemma hl_slots_less: "i \<in> hl_slots n fl \<Longrightarrow> i < n"
  by (simp add: hl_slots_def)

lemma hl_slots_set:
  assumes "unat i div 32 < length fl" "unat i < n"
  shows "hl_slots n (hl_set_used fl i) = insert (unat i) (hl_slots n fl)"
    and "hl_slots n (hl_set_unused fl i) = hl_slots n fl - {unat i}"
  using assms by (auto simp: hl_slots_def hl_bit_set_used hl_bit_set_unused)

lemma hl_slots_used: "unat i < n \<Longrightarrow> hl_used_bit fl i \<longleftrightarrow> unat i \<in> hl_slots n fl"
  by (simp add: hl_slots_def hl_used_bit)

lemma hl_fsize_room:
  assumes "pow2_size n" "i < unat n"
  shows "i div 32 < hl_fsize n"
proof (cases "n < 32")
  case True
  then have "unat n < 32" by (simp add: word_less_nat_alt)
  with True assms(2) show ?thesis by (simp add: hl_fsize_def)
next
  case False
  obtain m where m: "unat n = 2 ^ m" using assms(1) by (rule pow2_sizeE)
  have "\<not> m < 5"
  proof
    assume "m < 5"
    then have "(2::nat) ^ m < 2 ^ 5" by (intro power_strict_increasing) auto
    with False m show False by (simp add: word_less_nat_alt)
  qed
  then have "(2::nat) ^ m = 2 ^ 5 * 2 ^ (m - 5)" by (metis power_add le_add_diff_inverse not_less)
  then have "unat n = 32 * 2 ^ (m - 5)" by (simp add: m)
  with assms(2) False show ?thesis by (simp add: hl_fsize_def hl_word)
qed

lemma hl_slots_none: "pow2_size n \<Longrightarrow> hl_slots (unat n) (hl_no_used n) = {}"
  by (auto simp: hl_slots_def hl_bit_def hl_no_used_def hl_fsize_room)

section \<open>Cyclic distances\<close>

text \<open>The number of steps from bucket \<open>a\<close> to bucket \<open>b\<close>, and the bucket \<open>d\<close> steps after \<open>a\<close>.\<close>

definition hl_dist :: "nat \<Rightarrow> nat \<Rightarrow> nat \<Rightarrow> nat" where
  "hl_dist n a b = (if a \<le> b then b - a else b + n - a)"

definition hl_at :: "nat \<Rightarrow> nat \<Rightarrow> nat \<Rightarrow> nat" where
  "hl_at n a d = (if a + d < n then a + d else a + d - n)"

lemma hl_at_less: "a < n \<Longrightarrow> d < n \<Longrightarrow> hl_at n a d < n"
  by (auto simp: hl_at_def)

lemma hl_dist_less: "a < n \<Longrightarrow> b < n \<Longrightarrow> hl_dist n a b < n"
  by (auto simp: hl_dist_def)

lemma hl_dist_at: "a < n \<Longrightarrow> d < n \<Longrightarrow> hl_dist n a (hl_at n a d) = d"
  by (auto simp: hl_at_def hl_dist_def)

lemma hl_at_dist: "a < n \<Longrightarrow> b < n \<Longrightarrow> hl_at n a (hl_dist n a b) = b"
  by (auto simp: hl_at_def hl_dist_def)

lemma hl_at_0: "a < n \<Longrightarrow> hl_at n a 0 = a"
  by (simp add: hl_at_def)

text \<open>The code's step to the next bucket.\<close>

lemma hl_next:
  assumes "pow2_size n" "unat i < unat n"
  shows "unat ((i + 1) AND (n - 1)) = hl_at (unat n) (unat i) 1"
proof -
  obtain m where m: "m \<le> 31" "unat n = 2 ^ m" using assms(1) by (rule pow2_sizeE)
  have "unat (i + 1) = unat i + 1"
  proof -
    have "unat i + 1 \<le> unat n" "unat n < 2 ^ 32" using assms(2) unat_less32 [of n] by simp_all
    moreover have "unat n \<le> 2 ^ 31" unfolding m(2) using m(1) by (intro power_increasing) auto
    ultimately show ?thesis by (simp add: unat_word_ariths)
  qed
  then have "unat ((i + 1) AND (n - 1)) = (unat i + 1) mod unat n" using and_size_nat [OF assms(1) m(2), of "i + 1"] m(2) by simp
  also have "\<dots> = hl_at (unat n) (unat i) 1"
  proof (cases "unat i + 1 = unat n")
    case False
    then have "unat i + 1 < unat n" using assms(2) by simp
    then show ?thesis by (simp add: hl_at_def)
  qed (simp add: hl_at_def)
  finally show ?thesis .
qed

lemma hl_at_step: "a < n \<Longrightarrow> Suc d < n \<Longrightarrow> hl_at n (hl_at n a d) 1 = hl_at n a (Suc d)"
  by (auto simp: hl_at_def)

section \<open>Searching\<close>

lemma hl_free_slot:
  assumes "U \<subseteq> {..<n}" "card U < n" "h < n"
  shows "\<exists>d<n. hl_at n h d \<notin> U"
proof -
  have "\<exists>s<n. s \<notin> U"
  proof (rule ccontr)
    assume "\<not> (\<exists>s<n. s \<notin> U)"
    then have "U = {..<n}" using assms(1) by auto
    with assms(2) show False by simp
  qed
  then obtain s where "s < n" "s \<notin> U" by blast
  then show ?thesis using hl_dist_less [OF assms(3)] hl_at_dist [OF assms(3)] by metis
qed

lemma hl_word_at: "unat i = x \<Longrightarrow> word_of_nat x = i" for i :: u32
  by auto

lemma hl_walk:
  assumes "pow2_size n" "unat h < unat n" "d < unat n" "t < d" "unat i = hl_at (unat n) (unat h) t"
  shows "unat ((i + 1) AND (n - 1)) = hl_at (unat n) (unat h) (Suc t)" and "(i + 1) AND (n - 1) \<noteq> h"
proof -
  have i: "unat i < unat n" using assms(5) hl_at_less [OF assms(2), of t] assms(3,4) by simp
  show n: "unat ((i + 1) AND (n - 1)) = hl_at (unat n) (unat h) (Suc t)"
    unfolding hl_next [OF assms(1) i] assms(5) by (rule hl_at_step [OF assms(2)]) (use assms(3,4) in simp)
  have "hl_at (unat n) (unat h) (Suc t) \<noteq> unat h" using assms(2-4) by (auto simp: hl_at_def)
  then show "(i + 1) AND (n - 1) \<noteq> h" using n by metis
qed

text \<open>The walk from bucket \<open>h\<close> to the first one where it stops.\<close>

lemma hl_get_loop_stops:
  assumes "pow2_size n" "unat h < unat n" "d < unat n" "\<And>t. t < d \<Longrightarrow> hl_bit fl (hl_at (unat n) (unat h) t) \<and> \<not> eq (ks (hl_at (unat n) (unat h) t)) key"
    "\<not> (hl_bit fl (hl_at (unat n) (unat h) d) \<and> \<not> eq (ks (hl_at (unat n) (unat h) d)) key)"
    "t \<le> d" "unat i = hl_at (unat n) (unat h) t"
  shows "hl_get_loop eq n fl ks key h i =
    Some (if hl_bit fl (hl_at (unat n) (unat h) d) then of_nat (hl_at (unat n) (unat h) d) else n)"
  using assms(6,7)
proof (induction "d - t" arbitrary: t i)
  case 0
  then have "t = d" by simp
  with "0.prems" assms(5) have "\<not> hl_passes eq fl ks key i" by (simp add: hl_passes_def hl_used_bit)
  with "0.prems" \<open>t = d\<close> show ?case by (subst hl_get_loop.simps) (simp add: hl_used_bit hl_word_at [OF "0.prems"(2) [unfolded \<open>t = d\<close>]])
next
  case (Suc k)
  then have t: "t < d" by simp
  have k: "k = d - Suc t" using Suc.hyps(2) by simp
  have p: "hl_passes eq fl ks key i" using assms(4) [OF t] Suc.prems(2) by (simp add: hl_passes_def hl_used_bit)
  note n = hl_walk [OF assms(1-3) t Suc.prems(2)]
  then show ?case using Suc.hyps(1) [OF k Suc_leI [OF t] n(1)] n(2) p by (subst hl_get_loop.simps) (simp add: Let_def)
qed

lemma hl_put_loop_stops:
  assumes "pow2_size n" "unat h < unat n" "d < unat n" "\<And>t. t < d \<Longrightarrow> hl_bit fl (hl_at (unat n) (unat h) t) \<and> \<not> eq (ks (hl_at (unat n) (unat h) t)) key"
    "\<not> (hl_bit fl (hl_at (unat n) (unat h) d) \<and> \<not> eq (ks (hl_at (unat n) (unat h) d)) key)"
    "t \<le> d" "unat i = hl_at (unat n) (unat h) t"
  shows "hl_put_loop eq n fl ks key h i = Some (of_nat (hl_at (unat n) (unat h) d))"
  using assms(6,7)
proof (induction "d - t" arbitrary: t i)
  case 0
  then have "t = d" by simp
  with "0.prems" assms(5) have "\<not> hl_passes eq fl ks key i" by (simp add: hl_passes_def hl_used_bit)
  with "0.prems" \<open>t = d\<close> show ?case by (subst hl_put_loop.simps) (simp add: hl_word_at [OF "0.prems"(2) [unfolded \<open>t = d\<close>]])
next
  case (Suc k)
  then have t: "t < d" by simp
  have k: "k = d - Suc t" using Suc.hyps(2) by simp
  have p: "hl_passes eq fl ks key i" using assms(4) [OF t] Suc.prems(2) by (simp add: hl_passes_def hl_used_bit)
  note n = hl_walk [OF assms(1-3) t Suc.prems(2)]
  then show ?case using Suc.hyps(1) [OF k Suc_leI [OF t] n(1)] n(2) p by (subst hl_put_loop.simps) (simp add: Let_def)
qed

lemma hl_probe_stops:
  assumes "pow2_size n" "unat (h :: u32) < unat n" "d < unat n" "\<And>t. t < d \<Longrightarrow> hl_bit fl (hl_at (unat n) (unat h) t)"
    "\<not> hl_bit fl (hl_at (unat n) (unat h) d)" "t \<le> d" "unat i = hl_at (unat n) (unat h) t"
  shows "hl_probe fl (n - 1) i = Some (of_nat (hl_at (unat n) (unat h) d))"
  using assms(6,7)
proof (induction "d - t" arbitrary: t i)
  case 0
  then have "t = d" by simp
  with "0.prems" assms(5) have "\<not> hl_used_bit fl i" by (simp add: hl_used_bit)
  with "0.prems" \<open>t = d\<close> show ?case by (subst hl_probe.simps) (simp add: hl_word_at [OF "0.prems"(2) [unfolded \<open>t = d\<close>]])
next
  case (Suc k)
  then have t: "t < d" by simp
  have k: "k = d - Suc t" using Suc.hyps(2) by simp
  have p: "hl_used_bit fl i" using assms(4) [OF t] Suc.prems(2) by (simp add: hl_used_bit)
  note n = hl_walk [OF assms(1-3) t Suc.prems(2)]
  then show ?case using Suc.hyps(1) [OF k Suc_leI [OF t] n(1)] p by (subst hl_probe.simps) simp
qed

section \<open>The invariant\<close>

text \<open>Every bucket from \<open>h\<close> up to \<open>i\<close> is used.\<close>

definition hl_path :: "nat \<Rightarrow> nat set \<Rightarrow> nat \<Rightarrow> nat \<Rightarrow> bool" where
  "hl_path n U h i \<longleftrightarrow> (\<forall>d < hl_dist n h i. hl_at n h d \<in> U)"

lemma hl_path_mono: "hl_path n U h i \<Longrightarrow> U \<subseteq> V \<Longrightarrow> hl_path n V h i"
  by (auto simp: hl_path_def)

lemma hl_path_iff:
  assumes "h < n" "i < n"
  shows "hl_path n U h i \<longleftrightarrow> (\<forall>s<n. hl_dist n h s < hl_dist n h i \<longrightarrow> s \<in> U)"
proof
  assume p: "hl_path n U h i"
  show "\<forall>s<n. hl_dist n h s < hl_dist n h i \<longrightarrow> s \<in> U"
    using p hl_at_dist [OF assms(1)] unfolding hl_path_def by metis
next
  assume p: "\<forall>s<n. hl_dist n h s < hl_dist n h i \<longrightarrow> s \<in> U"
  show "hl_path n U h i"
    unfolding hl_path_def
  proof (intro allI impI)
    fix d assume d: "d < hl_dist n h i"
    then have "d < n" using hl_dist_less [OF assms] by simp
    with p d show "hl_at n h d \<in> U" using hl_at_less [OF assms(1)] hl_dist_at [OF assms(1)] by simp
  qed
qed

definition hl_home :: "('e \<Rightarrow> u32) \<Rightarrow> u32 \<Rightarrow> 'e \<Rightarrow> nat" where
  "hl_home hash bits e = unat (hl_h2b (hash e) bits)"

definition hl_bits_ok :: "u32 \<Rightarrow> bool" where
  "hl_bits_ok bits \<longleftrightarrow> 2 \<le> unat bits \<and> unat bits \<le> 31"

lemma hl_size:
  assumes "hl_bits_ok bits"
  shows "pow2_size (push_bit (unat bits) 1)" "unat (push_bit (unat bits) (1 :: u32)) = 2 ^ unat bits"
proof -
  show p: "pow2_size (push_bit (unat bits) 1)"
    using assms unfolding pow2_size_def hl_bits_ok_def by (intro exI [of _ "unat bits"]) (simp add: push_bit_eq_mult)
  then obtain m where m: "m \<le> 31" "unat (push_bit (unat bits) (1 :: u32)) = 2 ^ m" by (rule pow2_sizeE)
  have "(2::nat) ^ unat bits < 2 ^ 32" using assms by (intro power_strict_increasing) (auto simp: hl_bits_ok_def)
  then have "unat (of_nat (2 ^ unat bits) :: u32) = 2 ^ unat bits" by (rule unat_of_nat32)
  then show "unat (push_bit (unat bits) (1 :: u32)) = 2 ^ unat bits" by (simp add: push_bit_eq_mult)
qed

lemma hl_h2b_less:
  assumes "hl_bits_ok bits"
  shows "unat (hl_h2b x bits) < 2 ^ unat bits"
proof -
  have b: "unat (32 - bits) = 32 - unat bits"
    using assms by (subst unat_sub) (auto simp: hl_bits_ok_def word_le_nat_alt)
  have "unat (x * 2654435769) < 2 ^ (unat bits + (32 - unat bits))"
    using assms unat_less32 [of "x * 2654435769"] by (simp add: hl_bits_ok_def)
  then have "unat (x * 2654435769) div 2 ^ (32 - unat bits) < 2 ^ unat bits"
    by (simp add: div_less_iff_less_mult power_add)
  then show ?thesis
    unfolding hl_h2b_def b unsigned_drop_bit_eq
    using take_bit_nat_eq_self [OF unat_less32 [of "x * 2654435769"]] by (simp add: drop_bit_eq_div)
qed

lemma hl_home_less: "hl_bits_ok bits \<Longrightarrow> hl_home hash bits e < 2 ^ unat bits"
  by (simp add: hl_home_def hl_h2b_less)

text \<open>A table with its bits, its slots and its keys: every element can be reached from its home, no two have the same key.\<close>

definition hl_table_ok :: "('e \<Rightarrow> u32) \<Rightarrow> ('e \<Rightarrow> 'k) \<Rightarrow> u32 \<Rightarrow> nat set \<Rightarrow> 'e mem \<Rightarrow> bool" where
  "hl_table_ok hash kf bits U ks \<longleftrightarrow>
     U \<subseteq> {..<2 ^ unat bits} \<and> inj_on (\<lambda>i. kf (ks i)) U \<and> (\<forall>i\<in>U. hl_path (2 ^ unat bits) U (hl_home hash bits (ks i)) i)"

text \<open>Hash function and equality of the code depend on the key \<open>kf e\<close> of an element only.\<close>

locale hashed_key =
  fixes hash :: "'e \<Rightarrow> u32" and eq :: "'e \<Rightarrow> 'e \<Rightarrow> bool" and kf :: "'e \<Rightarrow> 'k"
  assumes eq_key: "eq x y \<longleftrightarrow> kf x = kf y"
    and hash_key: "kf x = kf y \<Longrightarrow> hash x = hash y"
begin

text \<open>Where the searches for an element end.\<close>

lemma search:
  assumes "hl_bits_ok bits" "n = push_bit (unat bits) 1" "U = hl_slots (unat n) fl" "card U < unat n"
    "hl_table_ok hash kf bits U ks"
  obtains i where "i < unat n" "hl_path (unat n) U (hl_home hash bits e) i"
    "(i \<in> U \<and> kf (ks i) = kf e) \<or> (i \<notin> U \<and> (\<forall>j\<in>U. kf (ks j) \<noteq> kf e))"
    "hl_get_loop eq n fl ks e (hl_h2b (hash e) bits) (hl_h2b (hash e) bits) = Some (if i \<in> U then of_nat i else n)"
    "hl_put_loop eq n fl ks e (hl_h2b (hash e) bits) (hl_h2b (hash e) bits) = Some (of_nat i)"
proof -
  let ?N = "unat n" and ?h = "unat (hl_h2b (hash e) bits)"
  have p: "pow2_size n" "?N = 2 ^ unat bits" unfolding assms(2) by (rule hl_size [OF assms(1)])+
  have h: "?h < ?N" using hl_h2b_less [OF assms(1)] by (simp add: p(2))
  have U: "U \<subseteq> {..<?N}" by (auto simp: assms(3) hl_slots_def)
  let ?P = "\<lambda>s. hl_bit fl (hl_at ?N ?h s) \<and> \<not> eq (ks (hl_at ?N ?h s)) e"
  have "\<exists>d<?N. \<not> ?P d"
    using hl_free_slot [OF U assms(4) h] hl_at_less [OF h] by (auto simp: assms(3) hl_slots_def)
  then obtain d where d: "d < ?N" "\<not> ?P d" "\<And>t. t < d \<Longrightarrow> \<not> \<not> ?P t" by (rule first_such) blast
  have d3: "?P t" if "t < d" for t using d(3) [OF that] by blast
  let ?i = "hl_at ?N ?h d"
  have i: "?i < ?N" by (rule hl_at_less [OF h d(1)])
  have slot: "hl_at ?N ?h t \<in> U \<longleftrightarrow> hl_bit fl (hl_at ?N ?h t)" if "t < ?N" for t
    using hl_at_less [OF h that] by (simp add: assms(3) hl_slots_def)
  have path: "hl_path ?N U ?h ?i" unfolding hl_path_def hl_dist_at [OF h d(1)] using d3 slot d(1) by simp
  have start: "unat (hl_h2b (hash e) bits) = hl_at ?N ?h 0" by (simp add: hl_at_0 [OF h])
  note g = hl_get_loop_stops [where eq = eq and ks = ks and key = e, OF p(1) h d(1) d3 d(2) _ start]
    and pt = hl_put_loop_stops [where eq = eq and ks = ks and key = e, OF p(1) h d(1) d3 d(2) _ start]
  have absent: "kf (ks j) \<noteq> kf e" if "?i \<notin> U" "j \<in> U" for j
  proof
    assume k: "kf (ks j) = kf e"
    have j: "j < ?N" using that(2) U by auto
    have at: "hl_at ?N ?h (hl_dist ?N ?h j) = j" by (rule hl_at_dist [OF h j])
    have "hl_path ?N U ?h j"
      using assms(5) that(2) hash_key [OF k] by (auto simp: hl_table_ok_def hl_home_def p(2))
    then have "\<not> d < hl_dist ?N ?h j" using that(1) by (auto simp: hl_path_def)
    moreover have "\<not> hl_dist ?N ?h j < d" using d3 [of "hl_dist ?N ?h j"] k at by (auto simp: eq_key)
    ultimately have "hl_dist ?N ?h j = d" by simp
    with at that show False by simp
  qed
  show thesis
  proof (rule that [OF i])
    show "hl_path ?N U (hl_home hash bits e) ?i" using path by (simp add: hl_home_def)
    show "(?i \<in> U \<and> kf (ks ?i) = kf e) \<or> (?i \<notin> U \<and> (\<forall>j\<in>U. kf (ks j) \<noteq> kf e))"
      using d(2) slot [OF d(1)] absent by (auto simp: eq_key)
  qed (use g pt slot [OF d(1)] in simp_all)
qed

end

section \<open>Insertion of an element\<close>

lemma hl_table_insert:
  assumes "hl_table_ok hash kf bits U ks" "i \<notin> U" "i < 2 ^ unat bits" "hl_path (2 ^ unat bits) U (hl_home hash bits e) i"
    "\<forall>j\<in>U. kf (ks j) \<noteq> kf e"
  shows "hl_table_ok hash kf bits (insert i U) (ks(i := e))"
proof -
  have same: "(ks(i := e)) j = ks j" if "j \<in> U" for j using that assms(2) by auto
  have "inj_on (\<lambda>j. kf ((ks(i := e)) j)) U"
    using assms(1) same by (auto simp: hl_table_ok_def inj_on_def)
  then have "inj_on (\<lambda>j. kf ((ks(i := e)) j)) (insert i U)" using assms(2,5) same by auto
  moreover have "hl_path (2 ^ unat bits) (insert i U) (hl_home hash bits ((ks(i := e)) j)) j" if "j \<in> insert i U" for j
    using that assms(1,4) same by (cases "j = i") (auto simp: hl_table_ok_def intro: hl_path_mono)
  ultimately show ?thesis using assms(1,3) by (auto simp: hl_table_ok_def)
qed

section \<open>Deletion\<close>

text \<open>The test of the code: the home of the element in \<open>j\<close> comes before the hole \<open>i\<close> on the way to \<open>j\<close>.\<close>

lemma hl_may_move_dist:
  assumes "unat i < n" "unat j < n" "unat k < n" "i \<noteq> j"
  shows "hl_may_move i j k \<longleftrightarrow> hl_dist n (unat k) (unat i) < hl_dist n (unat k) (unat j)"
proof -
  have "unat i \<noteq> unat j" using assms(4) by (simp add: word_unat_eq_iff)
  then show ?thesis using assms(1-3) by (auto simp: hl_may_move_def hl_dist_def word_less_nat_alt word_le_nat_alt)
qed

lemma hl_dist_next:
  assumes "i < n" "j < n" "f < n" "hl_dist n i j < hl_dist n i f" "hl_at n j 1 \<noteq> f"
  shows "hl_dist n i (hl_at n j 1) = Suc (hl_dist n i j)" "Suc (hl_dist n i j) < hl_dist n i f"
    "hl_dist n (hl_at n j 1) f < hl_dist n j f"
  using assms by (auto simp: hl_dist_def hl_at_def split: if_splits)

text \<open>A way that contains the hole and ends after the bucket following \<open>j\<close> contains that bucket.\<close>

lemma hl_dist_between:
  assumes "h < n" "i < n" "j < n" "m < n" "hl_dist n h i < hl_dist n h m" "hl_dist n i j < hl_dist n i m" "hl_at n j 1 \<noteq> m"
  shows "hl_dist n h (hl_at n j 1) < hl_dist n h m"
  using assms by (auto simp: hl_dist_def hl_at_def split: if_splits)

lemma hl_dist_0: "a < n \<Longrightarrow> b < n \<Longrightarrow> hl_dist n a b = 0 \<longleftrightarrow> a = b"
  by (auto simp: hl_dist_def)

lemma hl_dist_inj: "a < n \<Longrightarrow> b < n \<Longrightarrow> c < n \<Longrightarrow> hl_dist n a b = hl_dist n a c \<Longrightarrow> b = c"
  by (auto simp: hl_dist_def split: if_splits)

text \<open>The slots \<open>U\<close> with a hole at \<open>i\<close>; no element up to \<open>j\<close> needs the hole.\<close>

definition hl_hole_ok :: "('e \<Rightarrow> u32) \<Rightarrow> ('e \<Rightarrow> 'k) \<Rightarrow> u32 \<Rightarrow> nat set \<Rightarrow> 'e mem \<Rightarrow> nat \<Rightarrow> nat \<Rightarrow> bool" where
  "hl_hole_ok hash kf bits U ks i j \<longleftrightarrow>
     (let n = 2 ^ unat bits
      in i \<in> U \<and> U \<subseteq> {..<n} \<and> inj_on (\<lambda>m. kf (ks m)) (U - {i}) \<and>
         (\<forall>m\<in>U - {i}. hl_path n U (hl_home hash bits (ks m)) m) \<and>
         (\<forall>m\<in>U - {i}. hl_dist n i m \<le> hl_dist n i j \<longrightarrow>
            \<not> hl_dist n (hl_home hash bits (ks m)) i < hl_dist n (hl_home hash bits (ks m)) m))"

lemma hl_hole_start:
  assumes "hl_table_ok hash kf bits U ks" "i \<in> U"
  shows "hl_hole_ok hash kf bits U ks i i"
proof -
  have "m = i" if "m \<in> U" "hl_dist (2 ^ unat bits) i m \<le> hl_dist (2 ^ unat bits) i i" for m
    using that assms hl_dist_0 [of i "2 ^ unat bits" m] by (auto simp: hl_table_ok_def hl_dist_def split: if_splits)
  then show ?thesis
    using assms inj_on_diff [of "\<lambda>m. kf (ks m)" U "{i}"] by (auto simp: hl_hole_ok_def hl_table_ok_def Let_def)
qed

lemma hl_hole_end:
  assumes "hl_bits_ok bits" "hl_hole_ok hash kf bits U ks i j" "j < 2 ^ unat bits" "hl_at (2 ^ unat bits) j 1 \<notin> U"
  shows "hl_table_ok hash kf bits (U - {i}) ks"
proof -
  let ?n = "2 ^ unat bits :: nat"
  have i: "i \<in> U" and U: "U \<subseteq> {..<?n}" and inj: "inj_on (\<lambda>m. kf (ks m)) (U - {i})"
    and path: "\<And>m. m \<in> U - {i} \<Longrightarrow> hl_path ?n U (hl_home hash bits (ks m)) m"
    and no: "\<And>m. m \<in> U - {i} \<Longrightarrow> hl_dist ?n i m \<le> hl_dist ?n i j \<Longrightarrow>
        \<not> hl_dist ?n (hl_home hash bits (ks m)) i < hl_dist ?n (hl_home hash bits (ks m)) m"
    using assms(2) by (auto simp: hl_hole_ok_def Let_def)
  have "hl_path ?n (U - {i}) (hl_home hash bits (ks m)) m" if m: "m \<in> U - {i}" for m
  proof -
    let ?h = "hl_home hash bits (ks m)"
    have l: "?h < ?n" "m < ?n" "i < ?n" using hl_home_less [OF assms(1)] U m i by auto
    have p: "\<And>s. s < ?n \<Longrightarrow> hl_dist ?n ?h s < hl_dist ?n ?h m \<Longrightarrow> s \<in> U"
      using path [OF m] hl_path_iff [OF l(1,2)] by blast
    have "\<not> hl_dist ?n ?h i < hl_dist ?n ?h m"
    proof
      assume c: "hl_dist ?n ?h i < hl_dist ?n ?h m"
      then have "hl_dist ?n i j < hl_dist ?n i m" using no [OF m] by force
      moreover have "hl_at ?n j 1 \<noteq> m" using assms(4) m by auto
      ultimately have "hl_dist ?n ?h (hl_at ?n j 1) < hl_dist ?n ?h m"
        by (rule hl_dist_between [OF l(1) l(3) assms(3) l(2) c])
      moreover have "hl_at ?n j 1 < ?n" using assms(3) l(3) by (auto simp: hl_at_def)
      ultimately show False using p assms(4) by blast
    qed
    then show ?thesis using p hl_path_iff [OF l(1,2)] by auto
  qed
  then show ?thesis using U inj by (auto simp: hl_table_ok_def)
qed

text \<open>The element in the next bucket stays.\<close>

lemma hl_hole_stay:
  assumes "hl_hole_ok hash kf bits U ks i j" "k < 2 ^ unat bits" "hl_dist (2 ^ unat bits) i k = Suc (hl_dist (2 ^ unat bits) i j)"
    "\<not> hl_dist (2 ^ unat bits) (hl_home hash bits (ks k)) i < hl_dist (2 ^ unat bits) (hl_home hash bits (ks k)) k"
  shows "hl_hole_ok hash kf bits U ks i k"
proof -
  have "m = k" if "m \<in> U" "\<not> hl_dist (2 ^ unat bits) i m \<le> hl_dist (2 ^ unat bits) i j"
      "hl_dist (2 ^ unat bits) i m \<le> hl_dist (2 ^ unat bits) i k" for m
    using that assms(1-3) hl_dist_inj [of i "2 ^ unat bits" m k] by (auto simp: hl_hole_ok_def Let_def)
  then show ?thesis using assms(1,4) unfolding hl_hole_ok_def Let_def by blast
qed

text \<open>The element in the next bucket moves into the hole.\<close>

lemma hl_hole_move:
  assumes "hl_bits_ok bits" "hl_hole_ok hash kf bits U ks i j" "k \<in> U" "k \<noteq> i"
    "hl_dist (2 ^ unat bits) (hl_home hash bits (ks k)) i < hl_dist (2 ^ unat bits) (hl_home hash bits (ks k)) k"
  shows "hl_hole_ok hash kf bits U (ks(i := ks k)) k k" "(ks(i := ks k)) ` (U - {k}) = ks ` (U - {i})"
proof -
  let ?n = "2 ^ unat bits :: nat" and ?ks = "ks(i := ks k)"
  have i: "i \<in> U" and U: "U \<subseteq> {..<?n}" and inj: "inj_on (\<lambda>m. kf (ks m)) (U - {i})"
    and path: "\<And>m. m \<in> U - {i} \<Longrightarrow> hl_path ?n U (hl_home hash bits (ks m)) m"
    using assms(2) by (auto simp: hl_hole_ok_def Let_def)
  show "?ks ` (U - {k}) = ks ` (U - {i})" using i assms(3,4) by (auto simp: image_iff)
  have inj': "inj_on (\<lambda>m. kf (?ks m)) (U - {k})"
    using inj assms(3,4) by (auto simp: inj_on_def)
  have l: "hl_home hash bits (ks k) < ?n" "k < ?n" "i < ?n" using hl_home_less [OF assms(1)] U assms(3) i by auto
  have "hl_path ?n U (hl_home hash bits (ks k)) i"
    using path [of k] assms(3-5) hl_path_iff [OF l(1,2)] hl_path_iff [OF l(1,3)] by auto
  then have path': "hl_path ?n U (hl_home hash bits (?ks m)) m" if "m \<in> U - {k}" for m
    using path [of m] that by (cases "m = i") auto
  have "m = k" if "m \<in> U" "hl_dist ?n k m \<le> hl_dist ?n k k" for m
    using that U l hl_dist_0 [of k ?n m] by (auto simp: hl_dist_def split: if_splits)
  then show "hl_hole_ok hash kf bits U ?ks k k"
    using assms(3) U inj' path' unfolding hl_hole_ok_def Let_def by blast
qed

lemma hl_del_loop_ok:
  assumes "hl_bits_ok bits" "n = push_bit (unat bits) (1 :: u32)" "U = hl_slots (unat n) fl" "f < unat n" "f \<notin> U"
    "hl_hole_ok hash kf bits U ks (unat i) (unat j)" "unat j < unat n" "hl_dist (unat n) (unat i) (unat j) < hl_dist (unat n) (unat i) f"
  shows "\<exists>i' ks'. hl_del_loop hash bits fl ks i j = Some (i', ks') \<and> unat i' \<in> U \<and>
    hl_table_ok hash kf bits (U - {unat i'}) ks' \<and> ks' ` (U - {unat i'}) = ks ` (U - {unat i})"
  using assms(6-8)
proof (induction "hl_dist (unat n) (unat j) f" arbitrary: i j ks rule: less_induct)
  case less
  let ?N = "unat n"
  have N: "?N = 2 ^ unat bits" and p: "pow2_size n" using hl_size [OF assms(1)] assms(2) by simp_all
  define k where "k = (j + 1) AND (n - 1)"
  have loop: "hl_del_loop hash bits fl ks i j =
      (if k = i \<or> \<not> hl_used_bit fl k then Some (i, ks)
       else if hl_may_move i k (hl_h2b (hash (ks (unat k))) bits) then hl_del_loop hash bits fl (ks(unat i := ks (unat k))) k k
       else hl_del_loop hash bits fl ks i k)"
    unfolding k_def assms(2) by (subst hl_del_loop.simps) (simp only: Let_def)
  have k: "unat k = hl_at ?N (unat j) 1" unfolding k_def by (rule hl_next [OF p less.prems(2)])
  have kN: "unat k < ?N" unfolding k_def by (metis and_size_less [OF p] word_less_nat_alt)
  have i: "unat i \<in> U" "unat i < ?N" using less.prems(1) by (auto simp: hl_hole_ok_def Let_def assms(3) hl_slots_def)
  have used: "hl_used_bit fl k \<longleftrightarrow> unat k \<in> U" using kN by (simp add: assms(3) hl_slots_used)
  show ?case
  proof (cases "unat k \<in> U")
    case False
    then have "hl_del_loop hash bits fl ks i j = Some (i, ks)" by (simp add: loop used)
    moreover have "hl_table_ok hash kf bits (U - {unat i}) ks"
      by (rule hl_hole_end [OF assms(1) less.prems(1)]) (use less.prems(2) False k in \<open>simp_all add: N\<close>)
    ultimately show ?thesis using i(1) by blast
  next
    case True
    then have kf: "hl_at ?N (unat j) 1 \<noteq> f" using assms(5) k by metis
    note d = hl_dist_next [OF i(2) less.prems(2) assms(4) less.prems(3) kf, folded k]
    have ki: "unat k \<noteq> unat i" using d(1) hl_dist_0 [OF i(2) i(2)] by auto
    then have ki': "k \<noteq> i" by auto
    let ?h = "hl_h2b (hash (ks (unat k))) bits"
    have h: "unat ?h < ?N" using hl_h2b_less [OF assms(1)] by (simp add: N)
    have move: "hl_may_move i k ?h \<longleftrightarrow> hl_dist ?N (unat ?h) (unat i) < hl_dist ?N (unat ?h) (unat k)"
      by (rule hl_may_move_dist [OF i(2) kN h]) (use ki' in simp)
    show ?thesis
    proof (cases "hl_may_move i k ?h")
      case False
      have "hl_hole_ok hash kf bits U ks (unat i) (unat k)"
        by (rule hl_hole_stay [OF less.prems(1)]) (use kN d(1) False move in \<open>simp_all add: N hl_home_def\<close>)
      moreover have "hl_del_loop hash bits fl ks i j = hl_del_loop hash bits fl ks i k"
        using True ki' False by (simp add: loop used)
      ultimately show ?thesis using less.hyps [OF d(3) _ kN] d(1,2) by simp
    next
      case m: True
      note hm = hl_hole_move [OF assms(1) less.prems(1) True ki, folded N, unfolded hl_home_def, OF m [unfolded move]]
      have "hl_dist ?N (unat k) (unat k) < hl_dist ?N (unat k) f"
        using hl_dist_0 [OF kN kN] hl_dist_0 [OF kN assms(4)] k kf by simp
      moreover have "hl_del_loop hash bits fl ks i j = hl_del_loop hash bits fl (ks(unat i := ks (unat k))) k k"
        using True ki' m by (simp add: loop used)
      ultimately show ?thesis using less.hyps [OF d(3) hm(1) kN] hm(2) by simp
    qed
  qed
qed

section \<open>Rehashing\<close>

text \<open>
  The elements \<open>E\<close> are in the old slots \<open>O\<close>, in the new slots \<open>N\<close>, which share the array of keys, or in hand.
\<close>

definition hl_rehash_ok :: "('e \<Rightarrow> u32) \<Rightarrow> u32 \<Rightarrow> 'e set \<Rightarrow> 'e set \<Rightarrow> nat set \<Rightarrow> 'e mem \<Rightarrow> nat set \<Rightarrow> bool" where
  "hl_rehash_ok hash bits E hand old ks new \<longleftrightarrow>
     old \<inter> new = {} \<and> inj_on ks (old \<union> new) \<and> ks ` (old \<union> new) \<inter> hand = {} \<and> ks ` (old \<union> new) \<union> hand = E \<and>
     new \<subseteq> {..<2 ^ unat bits} \<and> (\<forall>i\<in>new. hl_path (2 ^ unat bits) new (hl_home hash bits (ks i)) i)"

lemma hl_rehash_take:
  assumes "hl_rehash_ok hash bits E {} old ks new" "j \<in> old"
  shows "hl_rehash_ok hash bits E {ks j} (old - {j}) ks new"
proof -
  have s: "(old - {j}) \<union> new = (old \<union> new) - {j}" using assms by (auto simp: hl_rehash_ok_def)
  have "inj_on ks ((old \<union> new) - {j})" "ks ` ((old \<union> new) - {j}) = ks ` (old \<union> new) - {ks j}"
    using assms inj_on_image_set_diff [of ks "old \<union> new" "old \<union> new" "{j}"]
    by (auto simp: hl_rehash_ok_def intro: inj_on_diff)
  then show ?thesis using assms unfolding hl_rehash_ok_def s by auto
qed

lemma hl_rehash_place:
  assumes "hl_rehash_ok hash bits E {e} old ks new" "i \<notin> old" "i \<notin> new" "i < 2 ^ unat bits"
    "hl_path (2 ^ unat bits) new (hl_home hash bits e) i"
  shows "hl_rehash_ok hash bits E {} old (ks(i := e)) (insert i new)"
proof -
  let ?ks = "ks(i := e)"
  have same: "?ks j = ks j" if "j \<in> old \<union> new" for j using that assms(2,3) by auto
  then have im: "?ks ` (old \<union> new) = ks ` (old \<union> new)" by (intro image_cong) auto
  have s: "old \<union> insert i new = insert i (old \<union> new)" by simp
  have "inj_on ?ks (old \<union> new)" using assms(1) same by (auto simp: hl_rehash_ok_def inj_on_def)
  moreover have "e \<notin> ks ` (old \<union> new)" using assms(1) by (auto simp: hl_rehash_ok_def)
  moreover have "old \<union> new - {i} = old \<union> new" using assms(2,3) by auto
  ultimately have "inj_on ?ks (old \<union> insert i new)" unfolding s inj_on_insert using im by simp
  moreover have "?ks ` (old \<union> insert i new) = E" unfolding s image_insert im using assms(1) by (auto simp: hl_rehash_ok_def)
  moreover have "hl_path (2 ^ unat bits) (insert i new) (hl_home hash bits (?ks j)) j" if "j \<in> insert i new" for j
    using that assms(1,5) same by (cases "j = i") (auto simp: hl_rehash_ok_def intro: hl_path_mono)
  ultimately show ?thesis using assms(1,2,4) unfolding hl_rehash_ok_def by auto
qed

lemma hl_rehash_swap:
  assumes "hl_rehash_ok hash bits E {e} old ks new" "i \<in> old" "i < 2 ^ unat bits"
    "hl_path (2 ^ unat bits) new (hl_home hash bits e) i"
  shows "hl_rehash_ok hash bits E {ks i} (old - {i}) (ks(i := e)) (insert i new)"
proof -
  let ?ks = "ks(i := e)" and ?R = "old \<union> new - {i}"
  have i: "i \<notin> new" and e: "e \<notin> ks ` (old \<union> new)" and inj: "inj_on ks (old \<union> new)"
    using assms(1,2) by (auto simp: hl_rehash_ok_def)
  have s: "(old - {i}) \<union> insert i new = insert i ?R" "old \<union> new = insert i ?R" using assms(2) by auto
  have same: "?ks j = ks j" if "j \<in> ?R" for j using that by auto
  have im: "?ks ` ?R = ks ` ?R" using same by (intro image_cong) auto
  have "inj_on ?ks ?R" using inj by (auto simp: inj_on_def)
  then have "inj_on ?ks (old - {i} \<union> insert i new)" unfolding s(1) inj_on_insert using im e by auto
  moreover have ni: "ks i \<notin> ks ` ?R" using inj assms(2) by (auto simp: inj_on_def)
  moreover have "ks i \<noteq> e" using e assms(2) by auto
  moreover have "?ks ` (old - {i} \<union> insert i new) = insert e (ks ` ?R)" unfolding s(1) image_insert im by simp
  moreover have "insert (ks i) (ks ` ?R) = ks ` (old \<union> new)" using s(2) by (metis image_insert)
  moreover have "hl_path (2 ^ unat bits) (insert i new) (hl_home hash bits (?ks j)) j" if "j \<in> insert i new" for j
    using that assms(1,4) i by (cases "j = i") (auto simp: hl_rehash_ok_def intro: hl_path_mono)
  ultimately show ?thesis using assms(1,3) i unfolding hl_rehash_ok_def by auto
qed

lemma hl_rehash_room:
  assumes "hl_rehash_ok hash bits E {e} old ks new" "finite E"
  shows "card new < card E"
proof -
  have "ks ` new \<subset> E" using assms(1) by (auto simp: hl_rehash_ok_def)
  then have "card (ks ` new) < card E" using assms(2) by (rule psubset_card_mono [rotated])
  moreover have "inj_on ks new" using assms(1) by (auto simp: hl_rehash_ok_def intro: inj_on_subset)
  ultimately show ?thesis by (simp add: card_image)
qed

lemma hl_probe_finds:
  assumes "hl_bits_ok bits" "n = push_bit (unat bits) 1" "U = hl_slots (unat n) fl" "card U < unat n"
  shows "\<exists>i. hl_probe fl (n - 1) (hl_h2b (hash e) bits) = Some i \<and> unat i < unat n \<and> unat i \<notin> U \<and>
    hl_path (unat n) U (hl_home hash bits e) (unat i)"
proof -
  let ?N = "unat n" and ?h = "unat (hl_h2b (hash e) bits)"
  have p: "pow2_size n" "?N = 2 ^ unat bits" unfolding assms(2) by (rule hl_size [OF assms(1)])+
  have h: "?h < ?N" using hl_h2b_less [OF assms(1)] by (simp add: p(2))
  have U: "U \<subseteq> {..<?N}" by (auto simp: assms(3) hl_slots_def)
  obtain d where d: "d < ?N" "hl_at ?N ?h d \<notin> U" "\<And>t. t < d \<Longrightarrow> \<not> hl_at ?N ?h t \<notin> U"
    using hl_free_slot [OF U assms(4) h] by (rule first_such) blast
  have slot: "hl_at ?N ?h t \<in> U \<longleftrightarrow> hl_bit fl (hl_at ?N ?h t)" if "t < ?N" for t
    using hl_at_less [OF h that] by (simp add: assms(3) hl_slots_def)
  have i: "hl_at ?N ?h d < ?N" by (rule hl_at_less [OF h d(1)])
  then have u: "unat (of_nat (hl_at ?N ?h d) :: u32) = hl_at ?N ?h d" using unat_less32 [of n] by (intro unat_of_nat32) simp
  have b: "hl_bit fl (hl_at ?N ?h t)" if "t < d" for t using d(3) [OF that] slot d(1) that by simp
  have "\<not> hl_bit fl (hl_at ?N ?h d)" using d(1,2) slot by simp
  from hl_probe_stops [OF p(1) h d(1) b this le0, of "hl_h2b (hash e) bits"]
  have "hl_probe fl (n - 1) (hl_h2b (hash e) bits) = Some (of_nat (hl_at ?N ?h d))" by (simp add: hl_at_0 [OF h])
  then show ?thesis
    using i d(2,3) u hl_dist_at [OF h d(1)] by (auto simp: hl_path_def hl_home_def)
qed

lemma hl_kick_ok:
  assumes "hl_bits_ok bits" "n = push_bit (unat bits) 1" "finite E" "card E < unat n" "length new = hl_fsize n"
    "\<And>i. i < unat nb \<Longrightarrow> i div 32 < length old"
    "hl_rehash_ok hash bits E {e} (hl_slots (unat nb) old) ks (hl_slots (unat n) new)"
  shows "\<exists>old' ks' new'. hl_kick hash nb bits e old ks new = Some (old', ks', new') \<and> length old' = length old \<and>
    length new' = length new \<and> hl_slots (unat nb) old' \<subseteq> hl_slots (unat nb) old \<and>
    hl_rehash_ok hash bits E {} (hl_slots (unat nb) old') ks' (hl_slots (unat n) new')"
  using assms(5-7)
proof (induction "card (hl_slots (unat nb) old)" arbitrary: e old ks new rule: less_induct)
  case less
  let ?O = "hl_slots (unat nb) old" and ?N = "hl_slots (unat n) new"
  have p: "pow2_size n" "unat n = 2 ^ unat bits" unfolding assms(2) by (rule hl_size [OF assms(1)])+
  have "card ?N < unat n" using hl_rehash_room [OF less.prems(3) assms(3)] assms(4) by simp
  from hl_probe_finds [where hash = hash and e = e, OF assms(1,2) refl this]
  obtain i where i: "hl_probe new (n - 1) (hl_h2b (hash e) bits) = Some i" "unat i < unat n" "unat i \<notin> ?N"
      "hl_path (unat n) ?N (hl_home hash bits e) (unat i)"
    by auto
  have room: "unat i div 32 < length new" using hl_fsize_room [OF p(1) i(2)] less.prems(1) by simp
  note s = hl_slots_set(1) [OF room i(2)]
  have loop: "hl_kick hash nb bits e old ks new =
      (if unat i \<in> ?O then hl_kick hash nb bits (ks (unat i)) (hl_set_unused old i) (ks(unat i := e)) (hl_set_used new i)
       else Some (old, ks(unat i := e), hl_set_used new i))"
  proof -
    have "i < nb \<and> hl_used_bit old i \<longleftrightarrow> unat i \<in> ?O" by (auto simp: word_less_nat_alt hl_slots_def hl_used_bit)
    then show ?thesis
      by (subst hl_kick.simps) (simp only: Let_def i(1) bind.bind_lunit flip: assms(2))
  qed
  show ?case
  proof (cases "unat i \<in> ?O")
    case True
    then have ib: "unat i < unat nb" by (rule hl_slots_less)
    note s' = hl_slots_set(2) [OF less.prems(2) [OF ib] ib]
    have "hl_rehash_ok hash bits E {ks (unat i)} (?O - {unat i}) (ks(unat i := e)) (insert (unat i) ?N)"
      by (rule hl_rehash_swap [OF less.prems(3) True]) (use i in \<open>simp_all add: p(2)\<close>)
    moreover have "card (?O - {unat i}) < card ?O" using True by (intro card_Diff1_less) simp_all
    ultimately obtain old' ks' new' where
      "hl_kick hash nb bits (ks (unat i)) (hl_set_unused old i) (ks(unat i := e)) (hl_set_used new i) = Some (old', ks', new')"
      "length old' = length old" "length new' = length new" "hl_slots (unat nb) old' \<subseteq> ?O - {unat i}"
      "hl_rehash_ok hash bits E {} (hl_slots (unat nb) old') ks' (hl_slots (unat n) new')"
      using less.hyps [of "hl_set_unused old i" "hl_set_used new i" "ks (unat i)" "ks(unat i := e)"] less.prems(1,2)
      by (auto simp: s s')
    then show ?thesis using True by (auto simp: loop)
  next
    case False
    have "hl_rehash_ok hash bits E {} ?O (ks(unat i := e)) (insert (unat i) ?N)"
      by (rule hl_rehash_place [OF less.prems(3) False i(3)]) (use i in \<open>simp_all add: p(2)\<close>)
    then show ?thesis using False by (simp add: loop s)
  qed
qed

lemma hl_rehash_all:
  assumes "hl_bits_ok bits" "n = push_bit (unat bits) 1" "finite E" "card E < unat n"
    "length new = hl_fsize n" "\<And>i. i < unat nb \<Longrightarrow> i div 32 < length old" "unat j + c = unat nb"
    "\<And>i. i \<in> hl_slots (unat nb) old \<Longrightarrow> unat j \<le> i"
    "hl_rehash_ok hash bits E {} (hl_slots (unat nb) old) ks (hl_slots (unat n) new)"
  shows "\<exists>old' ks' new'. hl_rehash hash nb bits j c (old, ks, new) = Some (old', ks', new') \<and>
    length new' = length new \<and> hl_rehash_ok hash bits E {} {} ks' (hl_slots (unat n) new')"
  using assms(5-9)
proof (induction c arbitrary: j old ks new)
  case 0
  then have "hl_slots (unat nb) old = {}" using hl_slots_less by fastforce
  with 0 show ?case by simp
next
  case (Suc c)
  let ?O = "hl_slots (unat nb) old"
  have j: "unat j < unat nb" "unat (j + 1) = unat j + 1"
    using Suc.prems(3) unat_less32 [of nb] by (simp_all add: unat_word_ariths)
  have "\<exists>old' ks' new'. hl_rehash_step hash nb bits j (old, ks, new) = Some (old', ks', new') \<and> length old' = length old \<and>
      length new' = length new \<and> hl_slots (unat nb) old' \<subseteq> ?O - {unat j} \<and>
      hl_rehash_ok hash bits E {} (hl_slots (unat nb) old') ks' (hl_slots (unat n) new')"
  proof (cases "unat j \<in> ?O")
    case True
    note s = hl_slots_set(2) [OF Suc.prems(2) [OF j(1)] j(1)]
    have "hl_rehash_ok hash bits E {ks (unat j)} (hl_slots (unat nb) (hl_set_unused old j)) ks (hl_slots (unat n) new)"
      unfolding s by (rule hl_rehash_take [OF Suc.prems(5) True])
    from hl_kick_ok [OF assms(1-4) Suc.prems(1) _ this] True Suc.prems(2) show ?thesis
      by (auto simp: hl_rehash_step_def hl_slots_used [OF j(1)] s)
  next
    case False
    then show ?thesis using Suc.prems(5) by (auto simp: hl_rehash_step_def hl_slots_used [OF j(1)])
  qed
  then obtain old' ks' new' where st: "hl_rehash_step hash nb bits j (old, ks, new) = Some (old', ks', new')"
      "length old' = length old" "length new' = length new" "hl_slots (unat nb) old' \<subseteq> ?O - {unat j}"
      "hl_rehash_ok hash bits E {} (hl_slots (unat nb) old') ks' (hl_slots (unat n) new')"
    by blast
  have "unat (j + 1) \<le> i" if "i \<in> hl_slots (unat nb) old'" for i
    using that st(4) Suc.prems(4) [of i] j(2) by force
  then obtain old'' ks'' new'' where "hl_rehash hash nb bits (j + 1) c (old', ks', new') = Some (old'', ks'', new'')"
      "length new'' = length new" "hl_rehash_ok hash bits E {} {} ks'' (hl_slots (unat n) new'')"
    using Suc.IH [OF _ _ _ _ st(5), of "j + 1"] st(2,3) Suc.prems(1-3) j(2) by auto
  with st(1) show ?case by simp
qed

section \<open>Sizes\<close>

lemma hl_log_spec: "2 ^ m \<le> unat x \<Longrightarrow> unat x < 2 ^ Suc m \<Longrightarrow> hl_log x j = j + of_nat m"
proof (induction m arbitrary: x j)
  case 0
  then have "unat (drop_bit 1 x) = 0" by (simp add: drop_bit_eq_div unat_div_distrib)
  then have "drop_bit 1 x = 0" by (simp only: unat_eq_0)
  then show ?case by (subst hl_log.simps) (simp add: Let_def)
next
  case (Suc m)
  let ?y = "drop_bit 1 x"
  have y: "unat ?y = unat x div 2" by (simp add: drop_bit_eq_div unat_div_distrib)
  then have b: "2 ^ m \<le> unat ?y" "unat ?y < 2 ^ Suc m" using Suc.prems by (simp_all add: less_mult_imp_div_less)
  then have "unat ?y \<noteq> 0" using le_zero_eq [of "2 ^ m :: nat"] by auto
  then have "?y \<noteq> 0" by auto
  then have "hl_log x j = hl_log ?y (j + 1)" by (subst hl_log.simps) (simp only: Let_def if_True not_False_eq_True simp_thms)
  with Suc.IH [OF b, of "j + 1"] show ?case by simp
qed

lemma hl_new_bits_spec:
  assumes "2 ^ m \<le> unat x" "unat x < 2 ^ Suc m" "m < 32"
  shows "unat (hl_new_bits x) = max 2 (if unat x = 2 ^ m then m else Suc m)"
proof -
  have m: "unat (of_nat m :: u32) = m" "unat (of_nat m + 1 :: u32) = m + 1"
    using assms(3) by (simp_all add: unat_of_nat32 unat_word_ariths)
  have "hl_log x 0 = of_nat m" using hl_log_spec [OF assms(1,2), of 0] by simp
  then show ?thesis
    using assms m by (auto simp: hl_new_bits_def and_pred Let_def max_def word_less_nat_alt)
qed

lemma hl_new_bits_ok:
  assumes "unat x \<le> 2 ^ 31"
  shows "hl_bits_ok (hl_new_bits x)" "unat x \<le> 2 ^ unat (hl_new_bits x)"
proof -
  have "hl_bits_ok (hl_new_bits x) \<and> unat x \<le> 2 ^ unat (hl_new_bits x)"
  proof (cases "unat x = 0")
    case True
    then have x: "x = 0" by (simp only: unat_eq_0)
    have "hl_log 0 0 = 0" by (subst hl_log.simps) simp
    then show ?thesis by (simp add: hl_new_bits_def hl_bits_ok_def x)
  next
    case False
    then obtain m where m: "2 ^ m \<le> unat x" "unat x < 2 ^ Suc m" using floor_power [of "unat x"] by auto
    have "(2::nat) ^ m \<le> 2 ^ 31" using m(1) assms by (rule le_trans)
    then have m31: "m \<le> 31" by (rule power_le_imp_le_exp [rotated]) simp
    have "m = 31 \<longrightarrow> unat x = 2 ^ m" using m(1) assms by auto
    moreover have "m = 31 \<or> m < 31" using m31 by auto
    ultimately have b: "(if unat x = 2 ^ m then m else Suc m) \<le> 31" by auto
    have "unat x \<le> 2 ^ (if unat x = 2 ^ m then m else Suc m)" using m by auto
    also have "\<dots> \<le> 2 ^ max 2 (if unat x = 2 ^ m then m else Suc m)" by (intro power_increasing) auto
    finally show ?thesis
      using b m31 hl_new_bits_spec [OF m] by (simp add: hl_bits_ok_def)
  qed
  then show "hl_bits_ok (hl_new_bits x)" "unat x \<le> 2 ^ unat (hl_new_bits x)" by auto
qed

text \<open>The load factor.\<close>

lemma hl_max_count:
  assumes "hl_bits_ok bits"
  shows "unat (hl_max_count (push_bit (unat bits) 1)) = 3 * 2 ^ (unat bits - 2)" "3 * 2 ^ (unat bits - 2) < (2::nat) ^ unat bits"
proof -
  obtain b where b: "unat bits = Suc (Suc b)" "b \<le> 29"
    using assms that [of "unat bits - 2"] by (auto simp: hl_bits_ok_def)
  let ?n = "push_bit (unat bits) (1 :: u32)"
  have n: "unat ?n = 2 ^ Suc (Suc b)" using hl_size(2) [OF assms] b(1) by simp
  have "unat (drop_bit 1 ?n) = 2 ^ Suc b" "unat (drop_bit 2 ?n) = 2 ^ b"
    by (simp_all only: drop_bit_eq_div unat_div_distrib n) simp_all
  moreover have "(2::nat) ^ b \<le> 2 ^ 29" using b(2) by (intro power_increasing) auto
  ultimately show "unat (hl_max_count ?n) = 3 * 2 ^ (unat bits - 2)"
    unfolding hl_max_count_def b(1) by (simp only: unat_word_ariths) simp
  show "3 * 2 ^ (unat bits - 2) < (2::nat) ^ unat bits" by (simp add: b(1))
qed

section \<open>The operations\<close>

definition hl_live :: "'e khashl \<Rightarrow> nat set" where
  "hl_live h = hl_slots (unat (hl_capacity h)) (hl_used h)"

definition hl_elems :: "'e khashl \<Rightarrow> 'e set" where
  "hl_elems h = (case hl_keys h of None \<Rightarrow> {} | Some ks \<Rightarrow> ks ` hl_live h)"

definition hl_ok :: "('e \<Rightarrow> u32) \<Rightarrow> ('e \<Rightarrow> 'k) \<Rightarrow> 'e khashl \<Rightarrow> bool" where
  "hl_ok hash kf h \<longleftrightarrow>
     (case hl_keys h of
        None \<Rightarrow> hl_used h = [] \<and> hl_count h = 0
      | Some ks \<Rightarrow> hl_bits_ok (hl_bits h) \<and> length (hl_used h) = hl_fsize (hl_buckets h) \<and>
          unat (hl_count h) = card (hl_live h) \<and> unat (hl_count h) \<le> 3 * 2 ^ (unat (hl_bits h) - 2) \<and>
          hl_table_ok hash kf (hl_bits h) (hl_live h) ks)"

lemma hl_okD:
  assumes "hl_ok hash kf h" "hl_keys h = Some ks"
  shows "hl_bits_ok (hl_bits h)" "length (hl_used h) = hl_fsize (hl_buckets h)" "unat (hl_count h) = card (hl_live h)"
    "unat (hl_count h) \<le> 3 * 2 ^ (unat (hl_bits h) - 2)" "hl_table_ok hash kf (hl_bits h) (hl_live h) ks"
    "hl_capacity h = hl_buckets h" "unat (hl_buckets h) = 2 ^ unat (hl_bits h)" "pow2_size (hl_buckets h)"
    "card (hl_live h) < unat (hl_buckets h)" "hl_elems h = ks ` hl_live h"
proof -
  show b: "hl_bits_ok (hl_bits h)" and "length (hl_used h) = hl_fsize (hl_buckets h)" and c: "unat (hl_count h) = card (hl_live h)"
    and l: "unat (hl_count h) \<le> 3 * 2 ^ (unat (hl_bits h) - 2)" and "hl_table_ok hash kf (hl_bits h) (hl_live h) ks"
    using assms by (auto simp: hl_ok_def)
  show "hl_capacity h = hl_buckets h" "hl_elems h = ks ` hl_live h" using assms(2) by (simp_all add: hl_capacity_def hl_elems_def)
  show u: "unat (hl_buckets h) = 2 ^ unat (hl_bits h)" and "pow2_size (hl_buckets h)"
    unfolding hl_buckets_def by (rule hl_size [OF b])+
  show "card (hl_live h) < unat (hl_buckets h)" using c l hl_max_count(2) [OF b] u by simp
qed

lemma hl_elems_inj:
  assumes "hl_ok hash kf h"
  shows "inj_on kf (hl_elems h)" "finite (hl_elems h)" "card (hl_elems h) = unat (hl_count h)"
proof -
  have "inj_on kf (hl_elems h) \<and> finite (hl_elems h) \<and> card (hl_elems h) = unat (hl_count h)"
  proof (cases "hl_keys h")
    case None
    then show ?thesis using assms by (simp add: hl_ok_def hl_elems_def)
  next
    case (Some ks)
    note d = hl_okD [OF assms Some]
    have i: "inj_on (kf \<circ> ks) (hl_live h)" using d(5) by (simp add: hl_table_ok_def comp_def)
    then show ?thesis using d(3,10) inj_on_imageI [OF i] card_image [OF inj_on_imageI2 [OF i]] by (simp add: hl_live_def)
  qed
  then show "inj_on kf (hl_elems h)" "finite (hl_elems h)" "card (hl_elems h) = unat (hl_count h)" by auto
qed

lemma hl_init_ok: "hl_ok hash kf hl_init" "hl_elems hl_init = {}"
  by (simp_all add: hl_ok_def hl_init_def hl_elems_def)

lemma hl_clear_ok:
  assumes "hl_ok hash kf h"
  shows "hl_ok hash kf (hl_clear h)" "hl_elems (hl_clear h) = {}" "hl_count (hl_clear h) = 0"
proof -
  have "hl_ok hash kf (hl_clear h) \<and> hl_elems (hl_clear h) = {} \<and> hl_count (hl_clear h) = 0"
  proof (cases "hl_keys h")
    case None
    then show ?thesis using assms by (simp add: hl_ok_def hl_clear_def hl_elems_def)
  next
    case (Some ks)
    note d = hl_okD [OF assms Some]
    have "hl_used h \<noteq> []" using d(2) hl_fsize_room [OF d(8), of 0] d(7) by auto
    moreover have "hl_slots (unat (hl_buckets h)) (hl_no_used (hl_buckets h)) = {}" by (rule hl_slots_none [OF d(8)])
    ultimately show ?thesis
      using Some d(1) by (simp add: hl_ok_def hl_clear_def hl_elems_def hl_live_def hl_capacity_def hl_buckets_def hl_no_used_def
          hl_table_ok_def)
  qed
  then show "hl_ok hash kf (hl_clear h)" "hl_elems (hl_clear h) = {}" "hl_count (hl_clear h) = 0" by auto
qed

definition hl_memory_ok :: "'e hl_allocs \<Rightarrow> bool" where
  "hl_memory_ok al \<longleftrightarrow> hl_used_ok al \<and> hl_keys_ok al"

text \<open>If the requested size is too small nothing happens; otherwise the table gets it and keeps its elements.\<close>

lemma hl_resize_ok:
  assumes "hl_ok hash kf h" "hl_memory_ok al" "unat x \<le> 2 ^ 31"
  shows "\<exists>h'. hl_resize hash al h x = Some (0, h') \<and> hl_ok hash kf h' \<and> hl_elems h' = hl_elems h \<and> hl_count h' = hl_count h \<and>
    (unat (hl_count h) \<le> 3 * 2 ^ (unat (hl_new_bits x) - 2) \<longrightarrow> hl_bits h' = hl_new_bits x \<and> hl_keys h' \<noteq> None)"
proof -
  let ?b = "hl_new_bits x"
  let ?n = "push_bit (unat ?b) (1 :: u32)"
  note b = hl_new_bits_ok(1) [OF assms(3)]
  note n = hl_size [OF b] and mc = hl_max_count [OF b]
  have small: "hl_count h > hl_max_count ?n \<longleftrightarrow> \<not> unat (hl_count h) \<le> 3 * 2 ^ (unat ?b - 2)"
    by (simp only: word_less_nat_alt mc(1) not_le)
  show ?thesis
  proof (cases "unat (hl_count h) \<le> 3 * 2 ^ (unat ?b - 2)")
    case False
    then show ?thesis using assms(1) small by (auto simp: hl_resize_def Let_def)
  next
    case True
    define ks where "ks = (case hl_keys h of None \<Rightarrow> hl_garbage al | Some ks \<Rightarrow> ks)"
    define E where "E = hl_elems h"
    note E = hl_elems_inj [OF assms(1), folded E_def]
    let ?cap = "hl_capacity h"
    have E_ks: "E = ks ` hl_live h"
      by (cases "hl_keys h") (auto simp: E_def ks_def hl_elems_def hl_live_def hl_capacity_def hl_slots_def)
    have inj: "inj_on ks (hl_live h)"
    proof (rule eq_card_imp_inj_on)
      show "finite (hl_live h)" by (simp add: hl_live_def)
      show "card (ks ` hl_live h) = card (hl_live h)"
        using E(3) hl_okD(3) [OF assms(1)] E_ks
        by (cases "hl_keys h") (auto simp: hl_live_def hl_capacity_def hl_slots_def)
    qed
    have room: "i div 32 < length (hl_used h)" if "i < unat ?cap" for i
    proof (cases "hl_keys h")
      case None
      with that show ?thesis by (simp add: hl_capacity_def)
    next
      case (Some k)
      note d = hl_okD [OF assms(1) Some]
      show ?thesis using hl_fsize_room [OF d(8), of i] that d(2,6) by simp
    qed
    have none: "hl_slots (unat ?n) (hl_no_used ?n) = {}" by (rule hl_slots_none [OF n(1)])
    have "hl_rehash_ok hash ?b E {} (hl_slots (unat ?cap) (hl_used h)) ks (hl_slots (unat ?n) (hl_no_used ?n))"
      unfolding none hl_rehash_ok_def using E_ks inj by (auto simp: hl_live_def)
    moreover have "card E < unat ?n" using E(3) True mc(2) n(2) by simp
    moreover have "length (hl_no_used ?n) = hl_fsize ?n" by (simp only: hl_no_used_def length_replicate)
    moreover have "unat (0 :: u32) + unat ?cap = unat ?cap" by simp
    ultimately obtain old' ks' new' where r:
        "hl_rehash hash ?cap ?b 0 (unat ?cap) (hl_used h, ks, hl_no_used ?n) = Some (old', ks', new')"
        "length new' = hl_fsize ?n" "hl_rehash_ok hash ?b E {} {} ks' (hl_slots (unat ?n) new')"
      using hl_rehash_all [OF b refl E(2), where nb = ?cap and j = 0 and hash = hash] room by (metis unsigned_0 le0)
    let ?h = "h\<lparr> hl_keys := Some ks', hl_used := new', hl_bits := ?b \<rparr>"
    have res: "hl_resize hash al h x = Some (0, ?h)"
      using True small assms(2) r(1) unfolding hl_resize_def Let_def ks_def by (simp add: hl_memory_ok_def not_le)
    have cap: "hl_capacity ?h = ?n" "hl_buckets ?h = ?n" by (simp_all add: hl_capacity_def hl_buckets_def)
    have live: "hl_live ?h = hl_slots (unat ?n) new'" unfolding hl_live_def cap by simp
    have i: "inj_on ks' (hl_live ?h)" and im: "ks' ` hl_live ?h = E" using r(3) unfolding live by (auto simp: hl_rehash_ok_def)
    have "inj_on (\<lambda>i. kf (ks' i)) (hl_live ?h)" using comp_inj_on [OF i, of kf] E(1) im by (simp add: comp_def)
    then have "hl_table_ok hash kf ?b (hl_live ?h) ks'"
      using r(3) live by (simp add: hl_table_ok_def hl_rehash_ok_def)
    moreover have "unat (hl_count h) = card (hl_live ?h)" using card_image [OF i] im E(3) by simp
    ultimately have "hl_ok hash kf ?h" using b True r(2) cap(2) by (simp add: hl_ok_def)
    moreover have "hl_elems ?h = E" using im by (simp add: hl_elems_def)
    ultimately show ?thesis using res E_def by simp
  qed
qed

text \<open>Before an insertion the table has room for one more element.\<close>

lemma hl_grow:
  assumes "hl_ok hash kf h" "hl_memory_ok al" "unat (hl_count h) < 3 * 2 ^ 29"
  shows "\<exists>h' ks. (if hl_count h \<ge> hl_max_count (hl_capacity h) then hl_resize hash al h (hl_capacity h + 1) else Some (0, h)) = Some (0, h') \<and>
    hl_ok hash kf h' \<and> hl_elems h' = hl_elems h \<and> hl_count h' = hl_count h \<and> hl_keys h' = Some ks \<and>
    unat (hl_count h) < 3 * 2 ^ (unat (hl_bits h') - 2)"
proof (cases "hl_keys h")
  case None
  then have c: "hl_capacity h = 0" "hl_count h = 0" using assms(1) by (simp_all add: hl_capacity_def hl_ok_def)
  have nb: "unat (hl_new_bits 1) = 2" using hl_new_bits_spec [of 0 1] by simp
  from hl_resize_ok [OF assms(1,2), of 1] obtain h' where "hl_resize hash al h 1 = Some (0, h')" "hl_ok hash kf h'"
      "hl_elems h' = hl_elems h" "hl_count h' = hl_count h" "hl_bits h' = hl_new_bits 1" "hl_keys h' \<noteq> None"
    by (auto simp: c nb)
  then show ?thesis using c nb by (auto simp: hl_max_count_def)
next
  case (Some ks)
  note d = hl_okD [OF assms(1) Some]
  note mc = hl_max_count [OF d(1)]
  have full: "hl_count h \<ge> hl_max_count (hl_capacity h) \<longleftrightarrow> 3 * 2 ^ (unat (hl_bits h) - 2) \<le> unat (hl_count h)"
    unfolding d(6) hl_buckets_def by (simp only: word_le_nat_alt mc(1))
  show ?thesis
  proof (cases "3 * 2 ^ (unat (hl_bits h) - 2) \<le> unat (hl_count h)")
    case False
    then show ?thesis using assms(1) Some by (simp only: full if_False) auto
  next
    case True
    let ?m = "unat (hl_bits h)"
    have "3 * 2 ^ (?m - 2) < 3 * (2::nat) ^ 29" using True assms(3) by (rule le_less_trans)
    then have "(2::nat) ^ (?m - 2) < 2 ^ 29" by simp
    then have "?m - 2 < 29" by (rule power_less_imp_less_exp [rotated]) simp
    then have m: "2 \<le> ?m" "?m \<le> 30" using d(1) by (auto simp: hl_bits_ok_def)
    have "(2::nat) ^ ?m \<le> 2 ^ 30" using m(2) by (intro power_increasing) auto
    then have x: "unat (hl_capacity h + 1) = 2 ^ ?m + 1" using d(6,7) by (simp add: unat_word_ariths)
    have "(1::nat) < 2 ^ ?m" using m(1) by (intro one_less_power) auto
    then have nb: "unat (hl_new_bits (hl_capacity h + 1)) = Suc ?m"
      using hl_new_bits_spec [of ?m "hl_capacity h + 1"] x m by simp
    have p2: "(2::nat) ^ (Suc ?m - 2) = 2 * 2 ^ (?m - 2)" unfolding Suc_diff_le [OF m(1)] by simp
    have le: "unat (hl_count h) < 3 * 2 ^ (Suc ?m - 2)" using d(4) unfolding p2 by (rule le_less_trans) simp
    have "unat (hl_capacity h + 1) \<le> 2 ^ 31" using x \<open>(2::nat) ^ ?m \<le> 2 ^ 30\<close> by simp
    from hl_resize_ok [OF assms(1,2) this] le nb obtain h' where "hl_resize hash al h (hl_capacity h + 1) = Some (0, h')"
        "hl_ok hash kf h'" "hl_elems h' = hl_elems h" "hl_count h' = hl_count h" "unat (hl_bits h') = Suc ?m" "hl_keys h' \<noteq> None"
      by auto
    then show ?thesis using True le by (simp only: full if_True) auto
  qed
qed

text \<open>The bucket \<open>i\<close> of the table holds the element \<open>e\<close>.\<close>

definition hl_holds :: "'e khashl \<Rightarrow> u32 \<Rightarrow> 'e \<Rightarrow> bool" where
  "hl_holds h i e \<longleftrightarrow> unat i \<in> hl_live h \<and> (case hl_keys h of None \<Rightarrow> False | Some ks \<Rightarrow> ks (unat i) = e)"

lemma hl_holds_elem: "hl_holds h i e \<Longrightarrow> e \<in> hl_elems h"
  by (auto simp: hl_holds_def hl_elems_def split: option.splits)

lemma hl_holds_less: "hl_holds h i e \<Longrightarrow> unat i < unat (hl_capacity h)"
  by (auto simp: hl_holds_def hl_live_def hl_slots_def)

context hashed_key
begin

lemma getp_finds:
  assumes "hl_ok hash kf h"
  shows "\<exists>i. hl_getp eq hash h e = Some i \<and>
    (if \<exists>x\<in>hl_elems h. kf x = kf e then \<exists>x. hl_holds h i x \<and> kf x = kf e else i = hl_capacity h)"
proof (cases "hl_keys h")
  case None
  then show ?thesis by (simp add: hl_getp_def hl_getp_core_def hl_elems_def hl_capacity_def)
next
  case (Some ks)
  note d = hl_okD [OF assms Some]
  have live: "hl_live h = hl_slots (unat (hl_buckets h)) (hl_used h)" by (simp add: hl_live_def d(6))
  obtain i where i: "i < unat (hl_buckets h)"
      "(i \<in> hl_live h \<and> kf (ks i) = kf e) \<or> (i \<notin> hl_live h \<and> (\<forall>j\<in>hl_live h. kf (ks j) \<noteq> kf e))"
      "hl_get_loop eq (hl_buckets h) (hl_used h) ks e (hl_h2b (hash e) (hl_bits h)) (hl_h2b (hash e) (hl_bits h)) =
        Some (if i \<in> hl_live h then of_nat i else hl_buckets h)"
    by (rule search [OF d(1) hl_buckets_def live d(9,5), of e])
  have "unat (of_nat i :: u32) = i" using i(1) unat_less32 [of "hl_buckets h"] by (intro unat_of_nat32) simp
  then show ?thesis
    using i(2,3) Some by (auto simp: hl_getp_def hl_getp_core_def hl_holds_def d(6,10))
qed

lemma putp_ok:
  assumes "hl_ok hash kf h" "hl_memory_ok al" "unat (hl_count h) < 3 * 2 ^ 29"
  shows "\<exists>i h' x. hl_putp eq hash al h e = Some (i, (if \<exists>x\<in>hl_elems h. kf x = kf e then 0 else 1), h') \<and> hl_ok hash kf h' \<and>
    hl_elems h' = (if \<exists>x\<in>hl_elems h. kf x = kf e then hl_elems h else insert e (hl_elems h)) \<and>
    unat (hl_count h') \<le> unat (hl_count h) + 1 \<and> hl_holds h' i x \<and> kf x = kf e"
proof -
  obtain g ks where g: "(if hl_count h \<ge> hl_max_count (hl_capacity h) then hl_resize hash al h (hl_capacity h + 1) else Some (0, h)) = Some (0, g)"
      "hl_ok hash kf g" "hl_elems g = hl_elems h" "hl_count g = hl_count h" "hl_keys g = Some ks"
      "unat (hl_count h) < 3 * 2 ^ (unat (hl_bits g) - 2)"
    using hl_grow [OF assms] by blast
  note d = hl_okD [OF g(2,5)]
  have live: "hl_live g = hl_slots (unat (hl_buckets g)) (hl_used g)" by (simp add: hl_live_def d(6))
  obtain i where i: "i < unat (hl_buckets g)" "hl_path (unat (hl_buckets g)) (hl_live g) (hl_home hash (hl_bits g) e) i"
      "(i \<in> hl_live g \<and> kf (ks i) = kf e) \<or> (i \<notin> hl_live g \<and> (\<forall>j\<in>hl_live g. kf (ks j) \<noteq> kf e))"
      "hl_put_loop eq (hl_buckets g) (hl_used g) ks e (hl_h2b (hash e) (hl_bits g)) (hl_h2b (hash e) (hl_bits g)) = Some (of_nat i)"
    by (rule search [OF d(1) hl_buckets_def live d(9,5), of e])
  have u: "unat (of_nat i :: u32) = i" using i(1) unat_less32 [of "hl_buckets g"] by (intro unat_of_nat32) simp
  have put: "hl_putp eq hash al h e = Some (hl_put_at g ks e (of_nat i))"
    unfolding hl_putp_def hl_putp_core_def g(1) bind.bind_lunit by (simp add: g(5) i(4) Let_def)
  have used: "hl_used_bit (hl_used g) (of_nat i) \<longleftrightarrow> i \<in> hl_live g"
    unfolding live using i(1) hl_slots_used [of "of_nat i" "unat (hl_buckets g)" "hl_used g"] u by simp
  show ?thesis
  proof (cases "i \<in> hl_live g")
    case True
    then have k: "kf (ks i) = kf e" using i(3) by auto
    then have "\<exists>x\<in>hl_elems h. kf x = kf e" using True g(3) d(10) by (metis imageI)
    then show ?thesis
      using True put g k u used by (auto simp: hl_put_at_def hl_holds_def)
  next
    case False
    then have k: "\<forall>j\<in>hl_live g. kf (ks j) \<noteq> kf e" using i(3) by auto
    then have none: "\<not> (\<exists>x\<in>hl_elems h. kf x = kf e)" unfolding g(3) [symmetric] d(10) by auto
    let ?g = "g\<lparr> hl_keys := Some (ks(i := e)), hl_used := hl_set_used (hl_used g) (of_nat i), hl_count := hl_count g + 1 \<rparr>"
    have res: "hl_putp eq hash al h e = Some (of_nat i, 1, ?g)" using False put used u by (simp add: hl_put_at_def)
    have cap: "hl_capacity ?g = hl_buckets g" "hl_buckets ?g = hl_buckets g" by (simp_all add: hl_capacity_def hl_buckets_def)
    have room: "unat (of_nat i :: u32) div 32 < length (hl_used g)" using hl_fsize_room [OF d(8) i(1)] d(2) u by simp
    have live': "hl_live ?g = insert i (hl_live g)"
      using hl_slots_set(1) [OF room, of "unat (hl_buckets g)"] i(1) u by (simp add: hl_live_def cap d(6))
    have "unat (hl_count g) < unat (hl_buckets g)" using d(3,9) by simp
    then have c: "unat (hl_count g + 1) = unat (hl_count g) + 1" using unat_less32 [of "hl_buckets g"] by (simp add: unat_word_ariths)
    have "hl_table_ok hash kf (hl_bits g) (insert i (hl_live g)) (ks(i := e))"
      by (rule hl_table_insert [OF d(5) False _ _ k]) (use i(1,2) d(7) in simp_all)
    then have ok: "hl_ok hash kf ?g"
      using d(1-4) False c g(4,6) live' cap by (simp add: hl_ok_def) (simp add: hl_live_def)
    have "ks(i := e) ` insert i (hl_live g) = insert e (ks ` hl_live g)" using False by (auto simp: image_iff)
    then have "hl_elems ?g = insert e (hl_elems h)" using live' d(10) g(3) by (simp add: hl_elems_def)
    moreover have "hl_holds ?g (of_nat i) e" using live' u by (simp add: hl_holds_def)
    ultimately show ?thesis using res ok none c g(4) by auto
  qed
qed

end

lemma hl_del_ok:
  assumes "hl_ok hash kf h" "hl_holds h i x"
  shows "\<exists>h'. hl_del hash h i = Some (1, h') \<and> hl_ok hash kf h' \<and> hl_elems h' = hl_elems h - {x} \<and> unat (hl_count h') \<le> unat (hl_count h)"
proof -
  obtain ks where k: "hl_keys h = Some ks" "unat i \<in> hl_live h" "ks (unat i) = x"
    using assms(2) by (auto simp: hl_holds_def split: option.splits)
  note d = hl_okD [OF assms(1) k(1)]
  let ?n = "hl_buckets h"
  have live: "hl_live h = hl_slots (unat ?n) (hl_used h)" by (simp add: hl_live_def d(6))
  have i: "unat i < unat ?n" using k(2) live hl_slots_less by blast
  obtain f where f: "f < unat ?n" "f \<notin> hl_live h"
    using hl_free_slot [OF _ d(9) i] hl_at_less [OF i] live by (auto simp: hl_slots_def)
  have "hl_dist (unat ?n) (unat i) (unat i) < hl_dist (unat ?n) (unat i) f"
    using hl_dist_0 [OF i i] hl_dist_0 [OF i f(1)] f(2) k(2) by auto
  from hl_del_loop_ok [OF d(1) hl_buckets_def live f hl_hole_start [OF d(5) k(2)] i this]
  obtain i' ks' where l: "hl_del_loop hash (hl_bits h) (hl_used h) ks i i = Some (i', ks')" "unat i' \<in> hl_live h"
      "hl_table_ok hash kf (hl_bits h) (hl_live h - {unat i'}) ks'" "ks' ` (hl_live h - {unat i'}) = ks ` (hl_live h - {unat i})"
    by blast
  let ?h = "h\<lparr> hl_keys := Some ks', hl_used := hl_set_unused (hl_used h) i', hl_count := hl_count h - 1 \<rparr>"
  have cap: "hl_capacity ?h = ?n" "hl_buckets ?h = ?n" by (simp_all add: hl_capacity_def hl_buckets_def)
  have i': "unat i' < unat ?n" using l(2) live hl_slots_less by blast
  have "unat i' div 32 < length (hl_used h)" using hl_fsize_room [OF d(8) i'] d(2) by simp
  then have live': "hl_live ?h = hl_live h - {unat i'}"
    using hl_slots_set(2) [of i' "hl_used h" "unat ?n"] i' by (simp add: hl_live_def cap d(6))
  have "0 < card (hl_live h)" using l(2) live by (auto simp: card_gt_0_iff)
  then have c: "unat (hl_count h - 1) = card (hl_live h) - 1" using d(3) by (simp add: unat_sub word_le_nat_alt)
  have "card (hl_live ?h) = unat (hl_count h - 1)" unfolding live' c using l(2) live by simp
  then have ok: "hl_ok hash kf ?h" using d(1,2,3,4) l(3) live' cap(2) c by (simp add: hl_ok_def)
  have "inj_on ks (hl_live h)" using d(5) by (auto simp: hl_table_ok_def inj_on_def)
  then have "ks ` (hl_live h - {unat i}) = ks ` hl_live h - {x}" using k(2,3) by (auto simp: inj_on_def)
  then have "hl_elems ?h = hl_elems h - {x}" using l(4) live' d(10) by (simp add: hl_elems_def)
  moreover have "hl_del hash h i = Some (1, ?h)" using l(1) k(1) by (simp add: hl_del_def)
  ultimately show ?thesis using ok c d(3) by auto
qed

section \<open>A table is a map\<close>

lemma hl_set_bucket_ok:
  assumes "hl_ok hash kf h" "hl_holds h i x" "kf e = kf x" "hash e = hash x"
  shows "hl_ok hash kf (hl_set_bucket i e h)" "hl_elems (hl_set_bucket i e h) = insert e (hl_elems h - {x})"
    "hl_count (hl_set_bucket i e h) = hl_count h"
proof -
  obtain ks where k: "hl_keys h = Some ks" "unat i \<in> hl_live h" "ks (unat i) = x"
    using assms(2) by (auto simp: hl_holds_def split: option.splits)
  note d = hl_okD [OF assms(1) k(1)]
  let ?h = "hl_set_bucket i e h" and ?ks = "ks(unat i := e)"
  have f: "hl_keys ?h = Some ?ks" "hl_bits ?h = hl_bits h" "hl_count ?h = hl_count h" "hl_used ?h = hl_used h"
    by (simp_all add: hl_set_bucket_def k(1))
  have live: "hl_live ?h = hl_live h" "hl_buckets ?h = hl_buckets h"
    by (simp_all add: hl_live_def hl_capacity_def hl_buckets_def f k(1))
  have same: "kf (?ks j) = kf (ks j)" "hl_home hash b (?ks j) = hl_home hash b (ks j)" for b j
    using assms(3,4) k(3) by (simp_all add: hl_home_def)
  have "hl_table_ok hash kf (hl_bits h) (hl_live h) ?ks" using d(5) unfolding hl_table_ok_def same .
  then show "hl_ok hash kf ?h" using d by (simp add: hl_ok_def f live)
  have "inj_on ks (hl_live h)" using d(5) by (auto simp: hl_table_ok_def inj_on_def)
  then have "ks ` (hl_live h - {unat i}) = ks ` hl_live h - {x}" using k(2,3) by (auto simp: inj_on_def)
  moreover have "?ks ` (hl_live h - {unat i}) = ks ` (hl_live h - {unat i})" by (intro image_cong) auto
  moreover have "hl_live h = insert (unat i) (hl_live h - {unat i})" using k(2) by auto
  then have "?ks ` hl_live h = insert e (?ks ` (hl_live h - {unat i}))" by (metis fun_upd_same image_insert)
  ultimately show "hl_elems ?h = insert e (hl_elems h - {x})" by (simp add: hl_elems_def f(1) live(1) d(10) k(1))
  show "hl_count ?h = hl_count h" by (rule f(3))
qed

text \<open>The operations as their users write them. \<open>Store\<close> is an insertion followed by the assignment of the bucket.\<close>

datatype 'e hl_op = Put 'e | Store 'e | Del 'e | Get 'e | Resize u32 | Clear

fun hl_exec ::
    "('e \<Rightarrow> u32) \<Rightarrow> ('e \<Rightarrow> 'e \<Rightarrow> bool) \<Rightarrow> 'e hl_allocs \<Rightarrow> 'e hl_op \<Rightarrow> 'e khashl \<Rightarrow> ((int + 'e option) \<times> 'e khashl) option" where
  "hl_exec hash eq al (Put e) h = map_option (\<lambda>(i, absent, h). (Inl absent, h)) (hl_putp eq hash al h e)"
| "hl_exec hash eq al (Store e) h =
     map_option (\<lambda>(i, absent, h). (Inl absent, if absent = - 1 then h else hl_set_bucket i e h)) (hl_putp eq hash al h e)"
| "hl_exec hash eq al (Del e) h =
     Option.bind (hl_getp eq hash h e) (\<lambda>i.
       if i = hl_capacity h then Some (Inl 0, h) else map_option (\<lambda>(r, h). (Inl r, h)) (hl_del hash h i))"
| "hl_exec hash eq al (Get e) h =
     map_option (\<lambda>i. (Inr (if i = hl_capacity h then None else map_option (\<lambda>ks. ks (unat i)) (hl_keys h)), h)) (hl_getp eq hash h e)"
| "hl_exec hash eq al (Resize n) h = map_option (\<lambda>(r, h). (Inl r, h)) (hl_resize hash al h n)"
| "hl_exec hash eq al Clear h = Some (Inl 0, hl_clear h)"

fun hl_run ::
    "('e \<Rightarrow> u32) \<Rightarrow> ('e \<Rightarrow> 'e \<Rightarrow> bool) \<Rightarrow> 'e hl_allocs \<Rightarrow> 'e hl_op list \<Rightarrow> 'e khashl \<Rightarrow> ((int + 'e option) list \<times> 'e khashl) option" where
  "hl_run hash eq al [] h = Some ([], h)"
| "hl_run hash eq al (p # ps) h =
     Option.bind (hl_exec hash eq al p h) (\<lambda>(r, h). map_option (\<lambda>(rs, h). (r # rs, h)) (hl_run hash eq al ps h))"

text \<open>The same operations on a map from keys to elements.\<close>

fun elem_exec :: "('e \<Rightarrow> 'k) \<Rightarrow> 'e hl_op \<Rightarrow> ('k \<rightharpoonup> 'e) \<Rightarrow> (int + 'e option) \<times> ('k \<rightharpoonup> 'e)" where
  "elem_exec kf (Put e) m = (if m (kf e) = None then (Inl 1, m(kf e \<mapsto> e)) else (Inl 0, m))"
| "elem_exec kf (Store e) m = (Inl (if m (kf e) = None then 1 else 0), m(kf e \<mapsto> e))"
| "elem_exec kf (Del e) m = (Inl (if m (kf e) = None then 0 else 1), m(kf e := None))"
| "elem_exec kf (Get e) m = (Inr (m (kf e)), m)"
| "elem_exec kf (Resize n) m = (Inl 0, m)"
| "elem_exec kf Clear m = (Inl 0, Map.empty)"

fun elem_run :: "('e \<Rightarrow> 'k) \<Rightarrow> 'e hl_op list \<Rightarrow> ('k \<rightharpoonup> 'e) \<Rightarrow> (int + 'e option) list \<times> ('k \<rightharpoonup> 'e)" where
  "elem_run kf [] m = ([], m)"
| "elem_run kf (p # ps) m = (case elem_exec kf p m of (r, m) \<Rightarrow> case elem_run kf ps m of (rs, m) \<Rightarrow> (r # rs, m))"

text \<open>The table stands for the map.\<close>

definition hl_repr :: "('e \<Rightarrow> 'k) \<Rightarrow> 'e khashl \<Rightarrow> ('k \<rightharpoonup> 'e) \<Rightarrow> bool" where
  "hl_repr kf h m \<longleftrightarrow> (\<forall>k e. m k = Some e \<longleftrightarrow> e \<in> hl_elems h \<and> kf e = k)"

lemma hl_repr_iff: "hl_repr kf h m \<Longrightarrow> m k = Some e \<longleftrightarrow> e \<in> hl_elems h \<and> kf e = k"
  by (simp add: hl_repr_def)

lemma hl_repr_None:
  assumes "hl_repr kf h m"
  shows "m k = None \<longleftrightarrow> (\<forall>x\<in>hl_elems h. kf x \<noteq> k)"
proof (cases "m k")
  case None
  then have "x \<notin> hl_elems h \<or> kf x \<noteq> k" for x using hl_repr_iff [OF assms, of k x] by simp
  with None show ?thesis by auto
next
  case (Some e)
  then show ?thesis using hl_repr_iff [OF assms, of k e] by auto
qed

fun hl_op_ok :: "'e hl_op \<Rightarrow> bool" where
  "hl_op_ok (Resize n) \<longleftrightarrow> unat n \<le> 2 ^ 31"
| "hl_op_ok _ \<longleftrightarrow> True"

lemma hl_repr_I: "(\<And>k e. m k = Some e \<longleftrightarrow> e \<in> hl_elems h \<and> kf e = k) \<Longrightarrow> hl_repr kf h m"
  by (simp add: hl_repr_def)

context hashed_key
begin

lemma exec_ok:
  assumes "hl_ok hash kf h" "hl_repr kf h m" "hl_memory_ok al" "unat (hl_count h) < 3 * 2 ^ 29" "hl_op_ok p"
  shows "\<exists>h'. hl_exec hash eq al p h = Some (fst (elem_exec kf p m), h') \<and> hl_ok hash kf h' \<and>
    hl_repr kf h' (snd (elem_exec kf p m)) \<and> unat (hl_count h') \<le> unat (hl_count h) + 1"
proof (cases p)
  case (Put e)
  obtain i h' where p: "hl_putp eq hash al h e = Some (i, if \<exists>x\<in>hl_elems h. kf x = kf e then 0 else 1, h')" "hl_ok hash kf h'"
      "hl_elems h' = (if \<exists>x\<in>hl_elems h. kf x = kf e then hl_elems h else insert e (hl_elems h))"
      "unat (hl_count h') \<le> unat (hl_count h) + 1"
    using putp_ok [OF assms(1,3,4)] by blast
  have none: "m (kf e) = None \<longleftrightarrow> \<not> (\<exists>x\<in>hl_elems h. kf x = kf e)" using hl_repr_None [OF assms(2)] by auto
  show ?thesis
  proof (cases "m (kf e) = None")
    case True
    then have "\<not> (\<exists>x\<in>hl_elems h. kf x = kf e)" using none by blast
    note q = p [unfolded if_not_P [OF this]]
    have "hl_repr kf h' (m(kf e \<mapsto> e))"
      using assms(2) True unfolding hl_repr_def q(3) by (metis fun_upd_apply insert_iff option.distinct(1) option.inject)
    then show ?thesis using Put True q(1,2,4) by simp
  next
    case False
    then have "\<exists>x\<in>hl_elems h. kf x = kf e" using none by simp
    note q = p [unfolded if_P [OF this]]
    have "hl_repr kf h' m" using assms(2) unfolding hl_repr_def q(3) .
    then show ?thesis using Put False q(1,2,4) by simp
  qed
next
  case (Store e)
  obtain i h' x where p: "hl_putp eq hash al h e = Some (i, if \<exists>x\<in>hl_elems h. kf x = kf e then 0 else 1, h')" "hl_ok hash kf h'"
      "hl_elems h' = (if \<exists>x\<in>hl_elems h. kf x = kf e then hl_elems h else insert e (hl_elems h))"
      "unat (hl_count h') \<le> unat (hl_count h) + 1" "hl_holds h' i x" "kf x = kf e"
    using putp_ok [OF assms(1,3,4)] by blast
  have none: "m (kf e) = None \<longleftrightarrow> \<not> (\<exists>x\<in>hl_elems h. kf x = kf e)" using hl_repr_None [OF assms(2)] by auto
  note s = hl_set_bucket_ok [where hash = hash, OF p(2,5) p(6) [symmetric] hash_key [OF p(6) [symmetric]]]
  have inj: "y = x" if "y \<in> hl_elems h'" "kf y = kf e" for y
    using hl_elems_inj(1) [OF p(2)] that hl_holds_elem [OF p(5)] p(6) by (auto simp: inj_on_def)
  have "hl_repr kf (hl_set_bucket i e h') (m(kf e \<mapsto> e))"
  proof (rule hl_repr_I)
    fix k y
    have m: "m k = Some y \<longleftrightarrow> y \<in> hl_elems h \<and> kf y = k" using assms(2) by (simp add: hl_repr_def)
    have h': "y \<in> hl_elems h' \<longleftrightarrow> y \<in> hl_elems h" if "kf y \<noteq> kf e" using that p(3) by auto
    show "(m(kf e \<mapsto> e)) k = Some y \<longleftrightarrow> y \<in> hl_elems (hl_set_bucket i e h') \<and> kf y = k"
    proof (cases "k = kf e")
      case True
      then show ?thesis using inj by (auto simp: s(2))
    next
      case False
      then show ?thesis using m h' p(6) by (auto simp: s(2))
    qed
  qed
  moreover have "(if \<exists>x\<in>hl_elems h. kf x = kf e then 0 else 1) = (if m (kf e) = None then 1 else (0 :: int))" using none by simp
  ultimately show ?thesis using Store p(1,4) s(1,3) by simp
next
  case (Del e)
  obtain i where i: "hl_getp eq hash h e = Some i"
      "if \<exists>x\<in>hl_elems h. kf x = kf e then \<exists>x. hl_holds h i x \<and> kf x = kf e else i = hl_capacity h"
    using getp_finds [OF assms(1)] by blast
  show ?thesis
  proof (cases "\<exists>x\<in>hl_elems h. kf x = kf e")
    case True
    then obtain x where x: "hl_holds h i x" "kf x = kf e" using i(2) by auto
    then obtain h' where d: "hl_del hash h i = Some (1, h')" "hl_ok hash kf h'" "hl_elems h' = hl_elems h - {x}"
        "unat (hl_count h') \<le> unat (hl_count h)"
      using hl_del_ok [OF assms(1)] by blast
    have "i \<noteq> hl_capacity h" using hl_holds_less [OF x(1)] by auto
    moreover have "m (kf e) \<noteq> None" using hl_repr_None [OF assms(2)] True by auto
    moreover have "hl_repr kf h' (m(kf e := None))"
    proof (rule hl_repr_I)
      fix k y
      have "y = x" if "y \<in> hl_elems h" "kf y = kf e"
        using hl_elems_inj(1) [OF assms(1)] that hl_holds_elem [OF x(1)] x(2) by (auto simp: inj_on_def)
      then show "(m(kf e := None)) k = Some y \<longleftrightarrow> y \<in> hl_elems h' \<and> kf y = k"
        using assms(2) x(2) by (auto simp: d(3) hl_repr_def)
    qed
    ultimately show ?thesis using Del i(1) d by auto
  next
    case False
    then have "m (kf e) = None" "i = hl_capacity h" using hl_repr_None [OF assms(2)] i(2) by auto
    then show ?thesis using Del i(1) assms(1,2) by (auto simp: fun_upd_idem)
  qed
next
  case (Get e)
  obtain i where i: "hl_getp eq hash h e = Some i"
      "if \<exists>x\<in>hl_elems h. kf x = kf e then \<exists>x. hl_holds h i x \<and> kf x = kf e else i = hl_capacity h"
    using getp_finds [OF assms(1)] by blast
  have "(if i = hl_capacity h then None else map_option (\<lambda>ks. ks (unat i)) (hl_keys h)) = m (kf e)"
  proof (cases "\<exists>x\<in>hl_elems h. kf x = kf e")
    case True
    then obtain x where x: "hl_holds h i x" "kf x = kf e" using i(2) by auto
    then have "m (kf e) = Some x" using assms(2) hl_holds_elem by (auto simp: hl_repr_def)
    moreover have "i \<noteq> hl_capacity h" using hl_holds_less [OF x(1)] by auto
    ultimately show ?thesis using x(1) by (auto simp: hl_holds_def split: option.splits)
  next
    case False
    then show ?thesis using i(2) hl_repr_None [OF assms(2), of "kf e"] by auto
  qed
  then show ?thesis using Get i(1) assms(1,2) by auto
next
  case (Resize n)
  then obtain h' where "hl_resize hash al h n = Some (0, h')" "hl_ok hash kf h'" "hl_elems h' = hl_elems h" "hl_count h' = hl_count h"
    using hl_resize_ok [OF assms(1,3), of n] assms(5) by auto
  then show ?thesis using Resize assms(2) by (auto simp: hl_repr_def)
next
  case Clear
  then show ?thesis using hl_clear_ok [OF assms(1)] by (simp add: hl_repr_def)
qed

lemma run_ok:
  "hl_ok hash kf h \<Longrightarrow> hl_repr kf h m \<Longrightarrow> hl_memory_ok al \<Longrightarrow> unat (hl_count h) + length ps \<le> 3 * 2 ^ 29 \<Longrightarrow> list_all hl_op_ok ps \<Longrightarrow>
   \<exists>h'. hl_run hash eq al ps h = Some (fst (elem_run kf ps m), h') \<and> hl_ok hash kf h' \<and> hl_repr kf h' (snd (elem_run kf ps m))"
proof (induction ps arbitrary: h m)
  case (Cons p ps)
  obtain h1 where h1: "hl_exec hash eq al p h = Some (fst (elem_exec kf p m), h1)" "hl_ok hash kf h1"
      "hl_repr kf h1 (snd (elem_exec kf p m))" "unat (hl_count h1) \<le> unat (hl_count h) + 1"
    using exec_ok [OF Cons.prems(1-3), of p] Cons.prems(4,5) by auto
  obtain h2 where "hl_run hash eq al ps h1 = Some (fst (elem_run kf ps (snd (elem_exec kf p m))), h2)" "hl_ok hash kf h2"
      "hl_repr kf h2 (snd (elem_run kf ps (snd (elem_exec kf p m))))"
    using Cons.IH [OF h1(2,3) Cons.prems(3)] h1(4) Cons.prems(4,5) by auto
  with h1 show ?case by (auto split: prod.splits)
qed simp

end

interpretation set_key: hashed_key hash "(=)" "\<lambda>x. x" for hash
  by unfold_locales auto

interpretation map_key: hashed_key "hl_m_hash hash" hl_m_eq fst for hash
  by unfold_locales (auto simp: hl_m_hash_def hl_m_eq_def)

interpretation cached_key: hashed_key hl_cached_hash hl_cs_eq "\<lambda>x. x"
  by unfold_locales (auto simp: hl_cs_eq_def prod_eq_iff)

text \<open>
  C29: The table implements a map from keys to buckets. For every hash function and every sequence of at most \<open>3 * 2 ^ 29\<close> insertions,
  assignments, deletions, lookups, clearings and changes of size, in either direction, of a new table, with memory for its
  growth, every operation returns what the same operation on a map returns, and the table stands for that map at the end.
  So the walks along the buckets end, the move of later elements into a deleted bucket makes none of them
  unreachable, and the in-place rehashing loses no element.
\<close>

theorem khashl_behaves_as_map:
  assumes "hl_memory_ok al" "length ps \<le> 3 * 2 ^ 29" "list_all hl_op_ok ps"
  shows "\<exists>h. hl_run (hl_m_hash hash) hl_m_eq al ps hl_init = Some (fst (elem_run fst ps Map.empty), h) \<and>
    hl_repr fst h (snd (elem_run fst ps Map.empty))"
proof -
  have "hl_repr fst hl_init Map.empty" by (simp add: hl_repr_def hl_init_ok(2))
  then show ?thesis
    using map_key.run_ok [OF hl_init_ok(1) _ assms(1) _ assms(3), where hash = hash and m = Map.empty] assms(2) by (auto simp: hl_init_def)
qed

definition hl_memory :: "'e \<Rightarrow> 'e hl_allocs" where
  "hl_memory e = \<lparr> hl_used_ok = True, hl_keys_ok = True, hl_garbage = (\<lambda>_. e) \<rparr>"

theorem khashl_behaves_as_map_witness:
  "\<exists>h. hl_run (hl_m_hash (\<lambda>_. 7)) hl_m_eq (hl_memory (''x'', 0))
        [Put (''a'', 1), Put (''b'', 2), Store (''b'', 3), Del (''a'', 0), Get (''a'', 0), Resize 100, Get (''b'', 0 :: nat)] hl_init
      = Some ([Inl 1, Inl 1, Inl 0, Inl 1, Inr None, Inl 0, Inr (Some (''b'', 3))], h)"
  using khashl_behaves_as_map [of "hl_memory (''x'', 0 :: nat)"
      "[Put (''a'', 1), Put (''b'', 2), Store (''b'', 3), Del (''a'', 0), Get (''a'', 0), Resize 100, Get (''b'', 0)]" "\<lambda>_. 7"]
  by (auto simp: hl_memory_ok_def hl_memory_def)

end
