(* ===== verification/KHashEns.thy ===== *)
theory KHashEns
  imports KHashl
begin

text \<open>
  The ensemble of hash tables of klib (\<open>KHASHE_INIT\<close> of \<open>src/ext/klib/khashl.h\<close>): the low bits of the hash value select one of
  \<open>2 ^ bits\<close> tables. The total count is a bit field of 54 bits.
\<close>

section \<open>The ensemble\<close>

record 'e kh_ens =
  he_count :: "54 word"
  he_bits :: nat
  he_sub :: "'e khashl list"

text \<open>An iterator: a table and a bucket of it; \<open>-1\<close> for no bucket.\<close>

type_synonym kh_ensitr = "u32 \<times> u32"

definition he_init :: "nat \<Rightarrow> 'e kh_ens" where
  "he_init bits = \<lparr> he_count = 0, he_bits = bits, he_sub = replicate (2 ^ bits) hl_init \<rparr>"

definition he_low :: "nat \<Rightarrow> u32 \<Rightarrow> u32" where
  "he_low bits hash = hash AND (push_bit bits 1 - 1)"

definition he_getp :: "('e \<Rightarrow> 'e \<Rightarrow> bool) \<Rightarrow> ('e \<Rightarrow> u32) \<Rightarrow> 'e kh_ens \<Rightarrow> 'e \<Rightarrow> kh_ensitr option" where
  "he_getp eq hash g key =
     (let low = he_low (he_bits g) (hash key); h = he_sub g ! unat low
      in map_option (\<lambda>ret. (low, if ret = hl_capacity h then - 1 else ret)) (hl_getp_core eq h key (hash key)))"

definition he_putp ::
    "('e \<Rightarrow> 'e \<Rightarrow> bool) \<Rightarrow> ('e \<Rightarrow> u32) \<Rightarrow> 'e hl_allocs \<Rightarrow> 'e kh_ens \<Rightarrow> 'e \<Rightarrow> (kh_ensitr \<times> int \<times> 'e kh_ens) option" where
  "he_putp eq hash al g key =
     (let low = he_low (he_bits g) (hash key)
      in map_option (\<lambda>(ret, absent, h).
             ((low, ret), absent,
              g\<lparr> he_sub := (he_sub g)[unat low := h], he_count := (if absent \<noteq> 0 then he_count g + 1 else he_count g) \<rparr>))
           (hl_putp_core eq hash al (he_sub g ! unat low) key (hash key)))"

definition he_del :: "('e \<Rightarrow> u32) \<Rightarrow> 'e kh_ens \<Rightarrow> kh_ensitr \<Rightarrow> (int \<times> 'e kh_ens) option" where
  "he_del hash g itr =
     map_option (\<lambda>(ret, h).
         (ret, g\<lparr> he_sub := (he_sub g)[unat (fst itr) := h], he_count := (if ret \<noteq> 0 then he_count g - 1 else he_count g) \<rparr>))
       (hl_del hash (he_sub g ! unat (fst itr)) (snd itr))"

definition he_clear :: "'e kh_ens \<Rightarrow> 'e kh_ens" where
  "he_clear g = g\<lparr> he_sub := map hl_clear (he_sub g), he_count := 0 \<rparr>"

definition he_bucket :: "'e kh_ens \<Rightarrow> kh_ensitr \<Rightarrow> 'e option" where
  "he_bucket g itr = map_option (\<lambda>ks. ks (unat (snd itr))) (hl_keys (he_sub g ! unat (fst itr)))"

definition he_set_bucket :: "kh_ensitr \<Rightarrow> 'e \<Rightarrow> 'e kh_ens \<Rightarrow> 'e kh_ens" where
  "he_set_bucket itr e g =
     g\<lparr> he_sub := (he_sub g)[unat (fst itr) := hl_set_bucket (snd itr) e (he_sub g ! unat (fst itr))] \<rparr>"

text \<open>The operations as their users write them, with \<open>kh_ens_is_end\<close> for the end.\<close>

fun he_exec ::
    "('e \<Rightarrow> u32) \<Rightarrow> ('e \<Rightarrow> 'e \<Rightarrow> bool) \<Rightarrow> 'e hl_allocs \<Rightarrow> 'e hl_op \<Rightarrow> 'e kh_ens \<Rightarrow> ((int + 'e option) \<times> 'e kh_ens) option" where
  "he_exec hash eq al (Put e) g = map_option (\<lambda>(itr, absent, g). (Inl absent, g)) (he_putp eq hash al g e)"
| "he_exec hash eq al (Store e) g =
     map_option (\<lambda>(itr, absent, g). (Inl absent, if absent = - 1 then g else he_set_bucket itr e g)) (he_putp eq hash al g e)"
| "he_exec hash eq al (Del e) g =
     Option.bind (he_getp eq hash g e) (\<lambda>itr.
       if snd itr = - 1 then Some (Inl 0, g) else map_option (\<lambda>(r, g). (Inl r, g)) (he_del hash g itr))"
| "he_exec hash eq al (Get e) g =
     map_option (\<lambda>itr. (Inr (if snd itr = - 1 then None else he_bucket g itr), g)) (he_getp eq hash g e)"
| "he_exec hash eq al (Resize n) g = Some (Inl 0, g)"
| "he_exec hash eq al Clear g = Some (Inl 0, he_clear g)"

fun he_run ::
    "('e \<Rightarrow> u32) \<Rightarrow> ('e \<Rightarrow> 'e \<Rightarrow> bool) \<Rightarrow> 'e hl_allocs \<Rightarrow> 'e hl_op list \<Rightarrow> 'e kh_ens \<Rightarrow> ((int + 'e option) list \<times> 'e kh_ens) option" where
  "he_run hash eq al [] g = Some ([], g)"
| "he_run hash eq al (p # ps) g =
     Option.bind (he_exec hash eq al p g) (\<lambda>(r, g). map_option (\<lambda>(rs, g). (r # rs, g)) (he_run hash eq al ps g))"

section \<open>One table of the ensemble\<close>

text \<open>The element an operation is about, and the change of the count by its result.\<close>

fun hl_op_elem :: "'e hl_op \<Rightarrow> 'e option" where
  "hl_op_elem (Put e) = Some e"
| "hl_op_elem (Store e) = Some e"
| "hl_op_elem (Del e) = Some e"
| "hl_op_elem (Get e) = Some e"
| "hl_op_elem _ = None"

fun he_adjust :: "'e hl_op \<Rightarrow> (int + 'e option) \<Rightarrow> 54 word \<Rightarrow> 54 word" where
  "he_adjust (Del e) r c = (if r = Inl 1 then c - 1 else c)"
| "he_adjust (Get e) r c = c"
| "he_adjust p r c = (if r = Inl 1 then c + 1 else c)"

lemma hl_del_result: "hl_del hash h i = Some (r, h') \<Longrightarrow> r = 0 \<or> r = 1"
  by (auto simp: hl_del_def split: option.splits)

context hashed_key
begin

text \<open>An operation on an element is that operation on its table.\<close>

lemma exec_sub:
  assumes "hl_op_elem p = Some e" "t = unat (he_low (he_bits g) (hash e))" "t < length (he_sub g)"
    "hl_ok hash kf (he_sub g ! t)" "hl_memory_ok al" "unat (hl_count (he_sub g ! t)) < 3 * 2 ^ 29"
    "hl_exec hash eq al p (he_sub g ! t) = Some (r, h)"
  shows "he_exec hash eq al p g = Some (r, g\<lparr> he_sub := (he_sub g)[t := h], he_count := he_adjust p r (he_count g) \<rparr>)"
proof -
  let ?h = "he_sub g ! t"
  have put: "\<exists>i a h'. hl_putp eq hash al ?h e = Some (i, a, h') \<and> (a = 0 \<or> a = 1)"
    using putp_ok [OF assms(4,5,6), of e] by (auto split: if_splits)
  obtain i where i: "hl_getp eq hash ?h e = Some i"
      "if \<exists>x\<in>hl_elems ?h. kf x = kf e then \<exists>x. hl_holds ?h i x \<and> kf x = kf e else i = hl_capacity ?h"
    using getp_finds [OF assms(4)] by blast
  have m1: "i \<noteq> - 1" if "i \<noteq> hl_capacity ?h"
  proof
    assume "i = - 1"
    then have "unat i = 2 ^ 32 - 1" by (simp add: unsigned_minus_1_eq_mask mask_eq_exp_minus_1)
    moreover have "unat i < unat (hl_capacity ?h)" using i(2) that hl_holds_less by (auto split: if_splits)
    ultimately show False using unat_less32 [of "hl_capacity ?h"] by simp
  qed
  have same: "g\<lparr> he_sub := (he_sub g)[t := ?h], he_count := he_count g \<rparr> = g" by simp
  show ?thesis
  proof (cases p)
    case Put
    then show ?thesis
      using put assms(1,2,7) by (auto simp: he_putp_def hl_putp_def Let_def)
  next
    case Store
    then show ?thesis
      using put assms(1,2,3,7) by (auto simp: he_putp_def hl_putp_def he_set_bucket_def Let_def)
  next
    case Del
    then have e: "p = hl_op.Del e" using assms(1) by simp
    have get: "he_getp eq hash g e = Some (he_low (he_bits g) (hash e), if i = hl_capacity ?h then - 1 else i)"
      using i(1) by (simp add: he_getp_def hl_getp_def Let_def flip: assms(2))
    show ?thesis
    proof (cases "i = hl_capacity ?h")
      case True
      then show ?thesis using e get i(1) assms(7) by auto
    next
      case False
      then obtain a where a: "hl_del hash ?h i = Some (a, h)" "r = Inl a" using e i(1) assms(7) by auto
      then show ?thesis
        using False e get m1 hl_del_result [OF a(1)] by (auto simp: he_del_def simp flip: assms(2))
    qed
  next
    case Get
    then show ?thesis
      using i(1) m1 assms(1,2,7) by (auto simp: he_getp_def hl_getp_def he_bucket_def Let_def)
  qed (use assms(1) in simp_all)
qed

end

section \<open>The ensemble is a map\<close>

text \<open>The keys of table \<open>t\<close>.\<close>

definition he_keys :: "('e \<Rightarrow> u32) \<Rightarrow> ('e \<Rightarrow> 'k) \<Rightarrow> nat \<Rightarrow> nat \<Rightarrow> 'k set" where
  "he_keys hash kf bits t = {k. \<exists>e. kf e = k \<and> unat (he_low bits (hash e)) = t}"

definition he_ok :: "('e \<Rightarrow> u32) \<Rightarrow> ('e \<Rightarrow> 'k) \<Rightarrow> 'e kh_ens \<Rightarrow> ('k \<rightharpoonup> 'e) \<Rightarrow> bool" where
  "he_ok hash kf g m \<longleftrightarrow>
     he_bits g \<le> 31 \<and> length (he_sub g) = 2 ^ he_bits g \<and> finite (dom m) \<and> unat (he_count g) = card (dom m) \<and>
     (\<forall>t < 2 ^ he_bits g. hl_ok hash kf (he_sub g ! t) \<and> hl_repr kf (he_sub g ! t) (m |` he_keys hash kf (he_bits g) t))"

lemma he_low_less:
  assumes "bits \<le> 31"
  shows "unat (he_low bits x) < 2 ^ bits"
proof -
  have "he_low bits x = take_bit bits x"
    by (simp add: he_low_def push_bit_eq_mult take_bit_eq_mask mask_eq_exp_minus_1)
  then show ?thesis by (simp add: unsigned_take_bit_eq)
qed

lemma hl_repr_card:
  assumes "hl_ok hash kf h" "hl_repr kf h m"
  shows "card (dom m) = unat (hl_count h)"
proof -
  have "dom m = kf ` hl_elems h" using hl_repr_iff [OF assms(2)] by (auto simp: dom_def)
  then show ?thesis using hl_elems_inj [OF assms(1)] by (simp add: card_image)
qed

lemma elem_exec_restrict:
  assumes "hl_op_elem p = Some e" "kf e \<in> S"
  shows "fst (elem_exec kf p (m |` S)) = fst (elem_exec kf p m)" "snd (elem_exec kf p (m |` S)) = snd (elem_exec kf p m) |` S"
  using assms by (cases p; simp add: fun_eq_iff restrict_map_def)+

lemma elem_exec_other:
  assumes "hl_op_elem p = Some e" "kf e \<notin> S"
  shows "snd (elem_exec kf p m) |` S = m |` S"
  using assms by (cases p) (auto simp: fun_eq_iff restrict_map_def)

lemma he_adjust_ok:
  assumes "hl_op_elem p = Some e" "finite (dom m)" "unat c = card (dom m)" "card (dom m) < 3 * 2 ^ 29"
  shows "finite (dom (snd (elem_exec kf p m)))" "card (dom (snd (elem_exec kf p m))) \<le> card (dom m) + 1"
    "unat (he_adjust p (fst (elem_exec kf p m)) c) = card (dom (snd (elem_exec kf p m)))"
proof -
  have up: "unat (c + 1) = card (dom m) + 1" using assms(3,4) by (simp add: unat_word_ariths)
  have down: "unat (c - 1) = card (dom m) - 1" if "m (kf e) \<noteq> None"
  proof -
    have "0 < card (dom m)" using that assms(2) by (auto simp: card_gt_0_iff)
    then show ?thesis using assms(3) by (simp add: unat_sub word_le_nat_alt)
  qed
  have i: "insert (kf e) (dom m) = dom m" if "m (kf e) \<noteq> None" using that by auto
  have n: "kf e \<notin> dom m" if "m (kf e) = None" using that by auto
  have r: "card (dom m - {kf e}) = card (dom m) - 1" if "m (kf e) \<noteq> None" using that by (intro card_Diff_singleton) auto
  show "finite (dom (snd (elem_exec kf p m)))" using assms(1,2) by (cases p) auto
  show "card (dom (snd (elem_exec kf p m))) \<le> card (dom m) + 1"
    using assms(1,2) card_insert_le_m1 [of "card (dom m) + 1" "dom m" "kf e"] card_Diff1_le [of "dom m" "kf e"]
    by (cases p) (auto simp: card_insert_if)
  show "unat (he_adjust p (fst (elem_exec kf p m)) c) = card (dom (snd (elem_exec kf p m)))"
    using assms(1-3) up down i n r by (cases p; cases "m (kf e)") (auto simp: card_insert_if)
qed

context hashed_key
begin

lemma ens_exec_ok:
  assumes "he_ok hash kf g m" "hl_memory_ok al" "card (dom m) < 3 * 2 ^ 29" "\<forall>n. p \<noteq> Resize n"
  shows "\<exists>g'. he_exec hash eq al p g = Some (fst (elem_exec kf p m), g') \<and> he_ok hash kf g' (snd (elem_exec kf p m)) \<and>
    card (dom (snd (elem_exec kf p m))) \<le> card (dom m) + 1"
proof (cases "hl_op_elem p")
  case None
  then have p: "p = Clear" using assms(4) by (cases p) auto
  have ok: "hl_ok hash kf (he_sub g ! t)" if "t < 2 ^ he_bits g" for t using assms(1) that by (simp add: he_ok_def)
  have "he_ok hash kf (he_clear g) Map.empty"
    using assms(1) hl_clear_ok [OF ok] by (simp add: he_ok_def he_clear_def hl_repr_def)
  then show ?thesis by (simp add: p)
next
  case (Some e)
  let ?n = "2 ^ he_bits g :: nat" and ?K = "he_keys hash kf (he_bits g)" and ?m = "snd (elem_exec kf p m)"
  have bits: "he_bits g \<le> 31" and len: "length (he_sub g) = ?n" and fin: "finite (dom m)" and cnt: "unat (he_count g) = card (dom m)"
    and "\<forall>t<?n. hl_ok hash kf (he_sub g ! t) \<and> hl_repr kf (he_sub g ! t) (m |` ?K t)"
    using assms(1) unfolding he_ok_def by blast+
  then have sub: "\<And>t. t < ?n \<Longrightarrow> hl_ok hash kf (he_sub g ! t)" "\<And>t. t < ?n \<Longrightarrow> hl_repr kf (he_sub g ! t) (m |` ?K t)"
    by blast+
  define t where "t = unat (he_low (he_bits g) (hash e))"
  have t: "t < ?n" unfolding t_def by (rule he_low_less [OF bits])
  have k: "kf e \<in> ?K t" unfolding he_keys_def t_def by blast
  have k': "kf e \<notin> ?K u" if "u \<noteq> t" for u
  proof
    assume "kf e \<in> ?K u"
    then obtain e' where e': "kf e' = kf e" "unat (he_low (he_bits g) (hash e')) = u" unfolding he_keys_def by blast
    with hash_key [OF e'(1)] that show False by (simp add: t_def)
  qed
  have "card (dom (m |` ?K t)) \<le> card (dom m)" using fin by (intro card_mono) auto
  then have c: "unat (hl_count (he_sub g ! t)) < 3 * 2 ^ 29" using hl_repr_card [OF sub(1) sub(2), OF t t] assms(3) by simp
  have "hl_op_ok p" using assms(4) by (cases p) auto
  from exec_ok [OF sub(1) [OF t] sub(2) [OF t] assms(2) c this] obtain h where
      h: "hl_exec hash eq al p (he_sub g ! t) = Some (fst (elem_exec kf p m), h)" "hl_ok hash kf h" "hl_repr kf h (?m |` ?K t)"
    unfolding elem_exec_restrict [where kf = kf and e = e, OF Some k] by blast
  let ?g = "g\<lparr> he_sub := (he_sub g)[t := h], he_count := he_adjust p (fst (elem_exec kf p m)) (he_count g) \<rparr>"
  have "he_exec hash eq al p g = Some (fst (elem_exec kf p m), ?g)"
    by (rule exec_sub [OF Some t_def _ sub(1) [OF t] assms(2) c h(1)]) (simp add: len t)
  moreover have "hl_ok hash kf (he_sub ?g ! u) \<and> hl_repr kf (he_sub ?g ! u) (?m |` ?K u)" if "u < ?n" for u
    using that sub h(2,3) t elem_exec_other [where kf = kf and e = e, OF Some k'] by (cases "u = t") (simp_all add: len)
  then have "he_ok hash kf ?g ?m"
    using bits len he_adjust_ok(1,3) [where kf = kf, OF Some fin cnt assms(3)] by (simp add: he_ok_def)
  ultimately show ?thesis using he_adjust_ok(2) [where kf = kf, OF Some fin cnt assms(3)] by auto
qed

lemma ens_run_ok:
  "he_ok hash kf g m \<Longrightarrow> hl_memory_ok al \<Longrightarrow> card (dom m) + length ps \<le> 3 * 2 ^ 29 \<Longrightarrow> list_all (\<lambda>p. \<forall>n. p \<noteq> Resize n) ps \<Longrightarrow>
   \<exists>g'. he_run hash eq al ps g = Some (fst (elem_run kf ps m), g') \<and> he_ok hash kf g' (snd (elem_run kf ps m))"
proof (induction ps arbitrary: g m)
  case (Cons p ps)
  have "card (dom m) < 3 * 2 ^ 29" "\<forall>n. p \<noteq> Resize n" using Cons.prems(3,4) by auto
  from ens_exec_ok [OF Cons.prems(1,2) this]
  obtain g1 where g1: "he_exec hash eq al p g = Some (fst (elem_exec kf p m), g1)" "he_ok hash kf g1 (snd (elem_exec kf p m))"
      "card (dom (snd (elem_exec kf p m))) \<le> card (dom m) + 1"
    by blast
  have "card (dom (snd (elem_exec kf p m))) + length ps \<le> 3 * 2 ^ 29" using g1(3) Cons.prems(3) by simp
  moreover have "list_all (\<lambda>p. \<forall>n. p \<noteq> Resize n) ps" using Cons.prems(4) by simp
  ultimately obtain g2 where "he_run hash eq al ps g1 = Some (fst (elem_run kf ps (snd (elem_exec kf p m))), g2)"
      "he_ok hash kf g2 (snd (elem_run kf ps (snd (elem_exec kf p m))))"
    using Cons.IH [OF g1(2) Cons.prems(2)] by blast
  with g1(1) show ?case by (auto split: prod.splits)
qed simp

lemma he_init_ok: "bits \<le> 31 \<Longrightarrow> he_ok hash kf (he_init bits) Map.empty"
  by (simp add: he_ok_def he_init_def hl_init_ok hl_repr_def)

end

text \<open>
  The ensemble of up to \<open>2 ^ 31\<close> tables behaves as one map as well, for every hash function and every sequence of at most
  \<open>3 * 2 ^ 29\<close> insertions, assignments, deletions, lookups and clearings of a new ensemble, with memory for its
  growth; its count is the number of keys of the map.
\<close>

theorem khashe_behaves_as_map:
  assumes "bits \<le> 31" "hl_memory_ok al" "length ps \<le> 3 * 2 ^ 29" "list_all (\<lambda>p. \<forall>n. p \<noteq> Resize n) ps"
  shows "\<exists>g. he_run (hl_m_hash hash) hl_m_eq al ps (he_init bits) = Some (fst (elem_run fst ps Map.empty), g) \<and>
    unat (he_count g) = card (dom (snd (elem_run fst ps Map.empty)))"
  using map_key.ens_run_ok [OF map_key.he_init_ok [OF assms(1)] assms(2) _ assms(4), where hash = hash] assms(3)
  by (auto simp: he_ok_def)

theorem khashe_behaves_as_map_witness:
  "\<exists>g. he_run (hl_m_hash (\<lambda>_. 7)) hl_m_eq (hl_memory (''x'', 0))
        [Put (''a'', 1), Put (''b'', 2), Store (''b'', 3), Del (''a'', 0), Get (''a'', 0), Get (''b'', 0 :: nat)] (he_init 2)
      = Some ([Inl 1, Inl 1, Inl 0, Inl 1, Inr None, Inr (Some (''b'', 3))], g) \<and> unat (he_count g) = 1"
  using khashe_behaves_as_map [of 2 "hl_memory (''x'', 0 :: nat)"
      "[Put (''a'', 1), Put (''b'', 2), Store (''b'', 3), Del (''a'', 0), Get (''a'', 0), Get (''b'', 0)]" "\<lambda>_. 7"]
  by (auto simp: hl_memory_ok_def hl_memory_def)

text \<open>A failed insertion is counted: \<open>absent\<close> is then \<open>-1\<close>, which is not 0.\<close>

lemma failed_insertion_counts:
  assumes "hl_used_ok al" "\<not> hl_keys_ok al"
  shows "\<exists>itr. he_putp eq hash al (he_init 0) e = Some (itr, - 1, (he_init 0)\<lparr> he_count := 1 \<rparr>)"
proof -
  have "unat (hl_new_bits 1) = 2" using hl_new_bits_spec [of 0 1] by simp
  then have "hl_new_bits 1 = 2" by (simp add: word_unat_eq_iff)
  then have "hl_resize hash al hl_init 1 = Some (- 1, hl_init)"
    using assms by (simp add: hl_resize_def hl_init_def hl_capacity_def hl_max_count_def)
  then show ?thesis
    by (simp add: he_putp_def he_init_def he_low_def hl_putp_core_def hl_init_def hl_capacity_def hl_max_count_def Let_def)
qed

end
