(* ===== verification/KArena.thy ===== *)
theory KArena
  imports Prelude Bits
begin

text \<open>
  The arena and the memory pool of klib (\<open>src/ext/klib/kbarena.c\<close>, \<open>src/ext/klib/kmempool.c\<close>). A pointer into a block is the
  index of the block and an offset; that different blocks do not overlap is what \<open>malloc\<close> promises. Whether
  \<open>malloc\<close> and \<open>realloc\<close> succeed are arguments where the code looks at them.
\<close>

unbundle bit_operations_syntax

section \<open>The arena\<close>

text \<open>\<open>ba_b\<close> says which blocks are not null.\<close>

record kbarena =
  ba_blen :: u32
  ba_max :: u32
  ba_bi :: u32
  ba_bo :: u32
  ba_b :: "bool list"
  ba_stack :: "u64 list"
  ba_m_stack :: u32

text \<open>\<open>kom_grow\<close>: the new capacity, or \<open>None\<close> if \<open>realloc\<close> failed.\<close>

definition kom_grow :: "bool \<Rightarrow> u32 \<Rightarrow> u32 \<Rightarrow> u32 option" where
  "kom_grow ok i m =
     (if i \<ge> m then if ok then Some (ucast ((ucast i :: u64) + 16 + drop_bit 1 (ucast i + 1))) else None else Some m)"

text \<open>The first block is not checked: \<open>ok\<close> says whether it was allocated.\<close>

definition kba_init :: "bool \<Rightarrow> u32 \<Rightarrow> kbarena option" where
  "kba_init ok blen =
     (if blen = 0 then None
      else Some \<lparr> ba_blen = (blen + 7) div 8 * 8, ba_max = 4, ba_bi = 0, ba_bo = 0, ba_b = [ok, False, False, False],
                  ba_stack = [], ba_m_stack = 0 \<rparr>)"

definition kba_capacity :: "kbarena \<Rightarrow> nat" where
  "kba_capacity ba = sum_list (map (\<lambda>b. if b then unat (ba_blen ba) else 0) (ba_b ba))"

definition kba_place :: "kbarena \<Rightarrow> u32 \<Rightarrow> u32 \<Rightarrow> (u32 \<times> u32) option \<times> kbarena" where
  "kba_place ba sz pad = (Some (ba_bi ba, ba_bo ba + pad), ba\<lparr> ba_bo := ba_bo ba + (sz + pad) \<rparr>)"

text \<open>\<open>grow_ok\<close> is the answer of \<open>realloc\<close>, \<open>blk_ok\<close> that of \<open>malloc\<close>.\<close>

definition kba_alloc :: "bool \<Rightarrow> bool \<Rightarrow> kbarena \<Rightarrow> u32 \<Rightarrow> u32 \<Rightarrow> (u32 \<times> u32) option \<times> kbarena" where
  "kba_alloc grow_ok blk_ok ba sz aln =
     (let pad = (- ba_bo ba) AND (aln - 1)
      in if sz = 0 \<or> sz > ba_blen ba \<or> aln AND (aln - 1) \<noteq> 0 then (None, ba)
         else if unat (ba_bo ba) + unat sz + unat pad > unat (ba_blen ba) then
           case kom_grow grow_ok (ba_bi ba + 1) (ba_max ba) of
             None \<Rightarrow> (None, ba)
           | Some m \<Rightarrow>
               let ba = ba\<lparr> ba_b := ba_b ba @ replicate (unat m - unat (ba_max ba)) False, ba_max := m \<rparr>
               in if \<not> ba_b ba ! unat (ba_bi ba + 1) \<and> \<not> blk_ok then (None, ba)
                  else kba_place (ba\<lparr> ba_b := (ba_b ba)[unat (ba_bi ba + 1) := True], ba_bi := ba_bi ba + 1, ba_bo := 0 \<rparr>) sz 0
         else kba_place ba sz pad)"

definition kba_save :: "bool \<Rightarrow> kbarena \<Rightarrow> int \<times> kbarena" where
  "kba_save ok ba =
     (case kom_grow ok (of_nat (length (ba_stack ba))) (ba_m_stack ba) of
        None \<Rightarrow> (- 1, ba)
      | Some m \<Rightarrow>
          (0, ba\<lparr> ba_m_stack := m, ba_stack := (push_bit 32 (ucast (ba_bi ba)) OR ucast (ba_bo ba)) # ba_stack ba \<rparr>))"

definition kba_restore :: "kbarena \<Rightarrow> int \<times> kbarena" where
  "kba_restore ba =
     (case ba_stack ba of
        [] \<Rightarrow> (- 1, ba)
      | x # xs \<Rightarrow> (0, ba\<lparr> ba_stack := xs, ba_bi := ucast (drop_bit 32 x), ba_bo := ucast x \<rparr>))"

section \<open>The memory pool\<close>

text \<open>The chunks, the pointer to the next entry of the last one and its end, and the buffer of entries that were given back.\<close>

record kmempool =
  mp_sz :: u32
  mp_chunk_size :: u32
  mp_n_chunk :: nat
  mp_p :: "nat \<times> nat"
  mp_p_end :: "nat \<times> nat"
  mp_buf :: "(nat \<times> nat) list"
  mp_m_buf :: nat

definition kmp_add_chunk :: "kmempool \<Rightarrow> kmempool" where
  "kmp_add_chunk mp =
     (let x = unat (ucast (mp_sz mp) * ucast (mp_chunk_size mp) :: u64)
      in mp\<lparr> mp_p := (mp_n_chunk mp, 0), mp_p_end := (mp_n_chunk mp, x), mp_n_chunk := Suc (mp_n_chunk mp) \<rparr>)"

definition kmp_init2 :: "u32 \<Rightarrow> u32 \<Rightarrow> kmempool" where
  "kmp_init2 sz chunk_size =
     kmp_add_chunk \<lparr> mp_sz = sz, mp_chunk_size = chunk_size, mp_n_chunk = 0, mp_p = (0, 0), mp_p_end = (0, 0), mp_buf = [], mp_m_buf = 0 \<rparr>"

definition kmp_init :: "u32 \<Rightarrow> kmempool" where
  "kmp_init sz = kmp_init2 sz 0x10000"

text \<open>The head of \<open>mp_buf\<close> is the entry that was given back last.\<close>

definition kmp_alloc :: "kmempool \<Rightarrow> (nat \<times> nat) \<times> kmempool" where
  "kmp_alloc mp =
     (case mp_buf mp of
        e # es \<Rightarrow> (e, mp\<lparr> mp_buf := es \<rparr>)
      | [] \<Rightarrow>
          let mp = (if mp_p mp = mp_p_end mp then kmp_add_chunk mp else mp)
          in (mp_p mp, mp\<lparr> mp_p := (fst (mp_p mp), snd (mp_p mp) + unat (mp_sz mp)) \<rparr>))"

definition kmp_free :: "kmempool \<Rightarrow> nat \<times> nat \<Rightarrow> kmempool" where
  "kmp_free mp p =
     (let mp = (if length (mp_buf mp) = mp_m_buf mp then mp\<lparr> mp_m_buf := mp_m_buf mp + (mp_m_buf mp div 2 + 16) \<rparr> else mp)
      in mp\<lparr> mp_buf := p # mp_buf mp \<rparr>)"

section \<open>Alignment\<close>

lemma take_bit_add_right:
  fixes a b :: u32
  assumes "m < 32"
  shows "take_bit m (a + take_bit m b) = take_bit m (a + b)"
proof -
  have d: "x mod 2 ^ 32 mod 2 ^ m = x mod 2 ^ m" for x :: nat
    using assms by (intro mod_mod_cancel le_imp_power_dvd) simp
  have t: "unat (take_bit m x) = unat x mod 2 ^ m" for x :: u32 by (simp only: unsigned_take_bit_eq) (simp only: take_bit_eq_mod)
  have s: "unat (x + y) = (unat x + unat y) mod 2 ^ 32" for x y :: u32 by (simp add: unat_word_ariths)
  have "unat (take_bit m (a + take_bit m b)) = unat (take_bit m (a + b))"
    by (simp only: t s d mod_add_right_eq)
  then show ?thesis by (simp add: word_unat_eq_iff)
qed

lemma kba_pad:
  fixes bo aln :: u32
  assumes "aln AND (aln - 1) = 0" "aln \<noteq> 0"
  shows "(bo + ((- bo) AND (aln - 1))) AND (aln - 1) = 0"
proof -
  obtain m where m: "m < 32" "aln - 1 = mask m" using and_pred_power [OF assms] by metis
  have "take_bit m (bo + take_bit m (- bo)) = take_bit m (bo + - bo)" by (rule take_bit_add_right [OF m(1)])
  then show ?thesis unfolding m(2) by (simp add: take_bit_eq_mask)
qed

text \<open>Every offset that is handed out is a multiple of the alignment.\<close>

lemma kba_alloc_aligned:
  assumes "kba_alloc grow_ok blk_ok ba sz aln = (Some (k, o'), ba')" "aln \<noteq> 0"
  shows "unat o' mod unat aln = 0"
proof -
  have a: "aln AND (aln - 1) = 0" using assms(1) by (auto simp: kba_alloc_def Let_def split: if_splits)
  obtain m where m: "unat aln = 2 ^ m" "aln - 1 = mask m" using and_pred_power [OF a assms(2)] by metis
  have "o' = ba_bo ba + ((- ba_bo ba) AND (aln - 1)) \<or> o' = 0"
    using assms(1) by (auto simp: kba_alloc_def kba_place_def Let_def split: if_splits option.splits)
  then have "o' AND (aln - 1) = 0" using kba_pad [OF a assms(2)] by auto
  then have "take_bit m o' = 0" unfolding m(2) by (simp add: take_bit_eq_mask)
  then have "unat (take_bit m o') = 0" by simp
  then show ?thesis unfolding unsigned_take_bit_eq m(1) by (simp add: take_bit_eq_mod)
qed

section \<open>The regions of the arena\<close>

text \<open>
  The clients of the arena: allocations with the answers of the memory allocator, saving and restoring. Beside the arena the regions
  that the client may use are recorded, as block, offset and size, the newest first, with one list for each saved state:
  restoring gives up those allocated since.
\<close>

type_synonym region = "nat \<times> nat \<times> nat"

datatype kba_op = Alloc bool bool u32 u32 | Save bool | Restore

fun kba_exec :: "kba_op \<Rightarrow> kbarena \<times> region list list \<Rightarrow> kbarena \<times> region list list" where
  "kba_exec (Alloc grow_ok blk_ok sz aln) (ba, ls) =
     (case kba_alloc grow_ok blk_ok ba sz aln of
        (None, ba) \<Rightarrow> (ba, ls)
      | (Some (k, off), ba) \<Rightarrow> (ba, ((unat k, unat off, unat sz) # hd ls) # tl ls))"
| "kba_exec (Save ok) (ba, ls) = (case kba_save ok ba of (r, ba) \<Rightarrow> (ba, if r = 0 then [] # ls else ls))"
| "kba_exec Restore (ba, ls) = (case kba_restore ba of (r, ba) \<Rightarrow> (ba, if r = 0 then tl ls else ls))"

definition overlap :: "region \<Rightarrow> region \<Rightarrow> bool" where
  "overlap r r' \<longleftrightarrow>
     (case r of (k, off, sz) \<Rightarrow> case r' of (k', off', sz') \<Rightarrow> k = k' \<and> off < off' + sz' \<and> off' < off + sz)"

text \<open>Positions are ordered by block and offset; the regions lie below one another.\<close>

definition before :: "nat \<times> nat \<Rightarrow> nat \<times> nat \<Rightarrow> bool" where
  "before p q \<longleftrightarrow> fst p < fst q \<or> (fst p = fst q \<and> snd p \<le> snd q)"

fun below :: "nat \<times> nat \<Rightarrow> region list \<Rightarrow> bool" where
  "below p [] \<longleftrightarrow> True"
| "below p ((k, off, sz) # rs) \<longleftrightarrow> before (k, off + sz) p \<and> below (k, off) rs"

lemma before_refl [simp]: "before p p"
  by (simp add: before_def)

lemma before_trans: "before p q \<Longrightarrow> before q r \<Longrightarrow> before p r"
  by (auto simp: before_def)

lemma below_mono: "below p rs \<Longrightarrow> before p q \<Longrightarrow> below q rs"
  by (cases rs) (auto dest: before_trans)

lemma below_before: "below p rs \<Longrightarrow> (k, off, sz) \<in> set rs \<Longrightarrow> before (k, off + sz) p"
proof (induction p rs rule: below.induct)
  case (2 p k' off' sz' rs)
  have "before (k', off') p" using 2(2) by (auto simp: before_def)
  have "before (k, off + sz) p" if "(k, off, sz) \<in> set rs"
    using 2(1) [OF _ that] 2(2) before_trans [OF _ \<open>before (k', off') p\<close>] by simp
  with 2(2,3) show ?case by auto
qed simp

lemma below_disjoint: "below p rs \<Longrightarrow> sorted_wrt (\<lambda>r r'. \<not> overlap r r') rs"
proof (induction p rs rule: below.induct)
  case (2 p k off sz rs)
  have "\<not> overlap (k, off, sz) r" if "r \<in> set rs" for r
  proof -
    obtain k' off' sz' where r: "r = (k', off', sz')" by (cases r)
    have "before (k', off' + sz') (k, off)" using below_before [of "(k, off)" rs k' off' sz'] 2(2) that r by simp
    then show ?thesis by (auto simp: r overlap_def before_def)
  qed
  with 2 show ?case by simp
qed simp

definition saved_pos :: "u64 \<Rightarrow> nat \<times> nat" where
  "saved_pos x = (unat (ucast (drop_bit 32 x) :: u32), unat (ucast x :: u32))"

definition ba_pos :: "kbarena \<Rightarrow> nat \<times> nat" where
  "ba_pos ba = (unat (ba_bi ba), unat (ba_bo ba))"

fun stack_ok :: "nat \<Rightarrow> nat \<times> nat \<Rightarrow> u64 list \<Rightarrow> region list list \<Rightarrow> bool" where
  "stack_ok n p [] ls \<longleftrightarrow> length ls = 1 \<and> below p (concat ls) \<and> snd p \<le> n"
| "stack_ok n p (x # xs) ls \<longleftrightarrow>
     ls \<noteq> [] \<and> below p (concat ls) \<and> snd p \<le> n \<and> before (saved_pos x) p \<and> stack_ok n (saved_pos x) xs (tl ls)"

definition fits :: "nat \<Rightarrow> region list \<Rightarrow> bool" where
  "fits n rs \<longleftrightarrow> list_all (\<lambda>(k, off, sz). off + sz \<le> n) rs"

lemma fits_simps [simp]: "fits n []" "fits n ((k, off, sz) # rs) \<longleftrightarrow> off + sz \<le> n \<and> fits n rs"
    "fits n (rs @ rs') \<longleftrightarrow> fits n rs \<and> fits n rs'"
  by (simp_all add: fits_def)

definition arena_ok :: "nat \<Rightarrow> kbarena \<times> region list list \<Rightarrow> bool" where
  "arena_ok c = (\<lambda>(ba, ls).
     stack_ok (unat (ba_blen ba)) (ba_pos ba) (ba_stack ba) ls \<and>
     length (ba_b ba) = unat (ba_max ba) \<and> (\<forall>k \<le> unat (ba_bi ba). k < length (ba_b ba) \<and> ba_b ba ! k) \<and>
     fits (unat (ba_blen ba)) (concat ls) \<and>
     length (ba_stack ba) \<le> unat (ba_m_stack ba) \<and> unat (ba_bi ba) \<le> c \<and> length (ba_stack ba) \<le> c)"

lemma stack_ok_below: "stack_ok n p xs ls \<Longrightarrow> ls \<noteq> [] \<and> below p (concat ls) \<and> snd p \<le> n"
  by (cases xs) auto

lemma stack_ok_move:
  assumes "stack_ok n p xs (l # ls)" "before p q" "snd q \<le> n" "below q (concat (l' # ls))"
  shows "stack_ok n q xs (l' # ls)"
  using assms by (cases xs) (auto intro: before_trans)

lemma saved_pos_pack: "saved_pos (push_bit 32 (ucast (k :: u32)) OR ucast (o' :: u32)) = (unat k, unat o')"
proof -
  let ?x = "push_bit 32 (ucast k) OR ucast o' :: u64"
  have "ucast (drop_bit 32 ?x) = k"
    by (rule bit_eqI) (auto simp: bit_simps dest: bit_imp_le_length)
  moreover have "ucast ?x = o'"
    by (rule bit_eqI) (auto simp: bit_simps)
  ultimately show ?thesis by (simp add: saved_pos_def)
qed

lemma kom_grow_ok:
  assumes "kom_grow ok i m = Some m'" "unat i \<le> 2 ^ 31"
  shows "unat i < unat m'" "unat m \<le> unat m'"
proof -
  have "unat i < unat m' \<and> unat m \<le> unat m'"
  proof (cases "i \<ge> m")
    case True
    have ui: "unat (ucast i :: u64) = unat i"
    proof -
      have "unat i < 2 ^ 64" using assms(2) by simp
      then show ?thesis by (simp add: unsigned_ucast_eq take_bit_nat_eq_self)
    qed
    have "unat (ucast i + 1 :: u64) = unat i + 1" using assms(2) ui by (simp add: unat_word_ariths)
    then have d: "unat (drop_bit 1 (ucast i + 1) :: u64) = (unat i + 1) div 2"
      by (simp add: drop_bit_eq_div unat_div_distrib)
    let ?y = "ucast i + 16 + drop_bit 1 (ucast i + 1) :: u64"
    have y: "unat ?y = unat i + 16 + (unat i + 1) div 2"
      using assms(2) ui d by (simp add: unat_word_ariths)
    have "unat i + 16 + (unat i + 1) div 2 < 2 ^ 32" using assms(2) by simp
    then have "unat ?y < 2 ^ 32" using y by metis
    moreover have m': "m' = ucast ?y" using assms(1) True by (simp add: kom_grow_def split: if_splits)
    ultimately have "unat m' = unat ?y" by (simp add: unsigned_ucast_eq take_bit_nat_eq_self)
    then show ?thesis using True y by (simp add: word_le_nat_alt)
  next
    case False
    then show ?thesis using assms(1) by (simp add: kom_grow_def word_le_nat_alt)
  qed
  then show "unat i < unat m'" "unat m \<le> unat m'" by auto
qed

lemma arena_lists:
  assumes "arena_ok c (ba, ls)"
  shows "\<exists>l r. ls = l # r"
proof -
  have "stack_ok (unat (ba_blen ba)) (ba_pos ba) (ba_stack ba) ls" using assms by (simp add: arena_ok_def)
  from stack_ok_below [OF this] show ?thesis by (cases ls) auto
qed

lemma arena_place:
  assumes "arena_ok c (ba, ls)" "unat (ba_bo ba) + unat sz + unat pad \<le> unat (ba_blen ba)" "kba_place ba sz pad = (Some (k, off), ba')"
  shows "arena_ok c (ba', ((unat k, unat off, unat sz) # hd ls) # tl ls)" "ba_blen ba' = ba_blen ba"
proof -
  obtain l r where ls: "ls = l # r" using arena_lists [OF assms(1)] by blast
  have "unat (ba_blen ba) < 2 ^ 32" using unsigned_less [of "ba_blen ba"] by simp
  then have b: "unat (ba_bo ba) + unat sz + unat pad < 2 ^ 32" using assms(2) by (rule le_less_trans [rotated])
  then have u: "unat (ba_bo ba + pad) = unat (ba_bo ba) + unat pad" "unat (ba_bo ba + (sz + pad)) = unat (ba_bo ba) + unat pad + unat sz"
    by (simp_all add: unat_word_ariths)
  have p: "k = ba_bi ba" "off = ba_bo ba + pad" "ba' = ba\<lparr> ba_bo := ba_bo ba + (sz + pad) \<rparr>"
    using assms(3) by (simp_all add: kba_place_def)
  have st: "stack_ok (unat (ba_blen ba)) (ba_pos ba) (ba_stack ba) (l # r)" using assms(1) by (simp add: arena_ok_def ls)
  have "below (ba_pos ba) (concat (l # r))" using stack_ok_below [OF st] by blast
  then have bl: "below (unat k, unat off) (concat (l # r))"
    by (rule below_mono) (simp add: before_def ba_pos_def p u)
  have "stack_ok (unat (ba_blen ba)) (ba_pos ba') (ba_stack ba) (((unat k, unat off, unat sz) # l) # r)"
    by (rule stack_ok_move [OF st]) (use bl assms(2) in \<open>auto simp: before_def ba_pos_def p u\<close>)
  moreover have "unat off + unat sz \<le> unat (ba_blen ba)" using assms(2) by (simp add: p u)
  ultimately show "arena_ok c (ba', ((unat k, unat off, unat sz) # hd ls) # tl ls)"
    using assms(1) by (auto simp: arena_ok_def ls p(3))
  show "ba_blen ba' = ba_blen ba" by (simp add: p)
qed

lemma arena_exec_ok:
  assumes "arena_ok c (ba, ls)" "c < 2 ^ 31" "kba_exec op (ba, ls) = (ba', ls')"
  shows "arena_ok (Suc c) (ba', ls') \<and> ba_blen ba' = ba_blen ba"
proof -
  obtain l r where ls: "ls = l # r" using arena_lists [OF assms(1)] by blast
  have weak: "arena_ok (Suc c) s" if "arena_ok c s" for s using that by (auto simp: arena_ok_def)
  have st: "stack_ok (unat (ba_blen ba)) (ba_pos ba) (ba_stack ba) (l # r)"
    and len: "length (ba_b ba) = unat (ba_max ba)" and blk: "\<forall>k \<le> unat (ba_bi ba). k < length (ba_b ba) \<and> ba_b ba ! k"
    and reg: "fits (unat (ba_blen ba)) (concat (l # r))"
    and ml: "length (ba_stack ba) \<le> unat (ba_m_stack ba)" and c: "unat (ba_bi ba) \<le> c" "length (ba_stack ba) \<le> c"
    using assms(1) unfolding arena_ok_def ls by blast+
  show ?thesis
  proof (cases op)
    case (Alloc g b sz aln)
    let ?pad = "(- ba_bo ba) AND (aln - 1)"
    show ?thesis
    proof (cases "sz = 0 \<or> sz > ba_blen ba \<or> aln AND (aln - 1) \<noteq> 0")
      case True
      then have "(ba', ls') = (ba, ls)" using assms(3) Alloc by (auto simp: kba_alloc_def)
      then show ?thesis using assms(1) weak by auto
    next
      case ok: False
      show ?thesis
      proof (cases "unat (ba_bo ba) + unat sz + unat ?pad > unat (ba_blen ba)")
        case False
        obtain k off ba1 where p: "kba_place ba sz ?pad = (Some (k, off), ba1)" by (simp add: kba_place_def)
        then have "kba_alloc g b ba sz aln = (Some (k, off), ba1)" unfolding kba_alloc_def Let_def if_not_P [OF ok] if_not_P [OF False] .
        then have "(ba', ls') = (ba1, ((unat k, unat off, unat sz) # hd ls) # tl ls)" using assms(3) Alloc by simp
        then show ?thesis using arena_place [OF assms(1) _ p] False weak by auto
      next
        case True
        have bi1: "unat (ba_bi ba + 1) = unat (ba_bi ba) + 1" "unat (ba_bi ba + 1) \<le> 2 ^ 31"
          using c(1) assms(2) by (simp_all add: unat_word_ariths)
        show ?thesis
        proof (cases "kom_grow g (ba_bi ba + 1) (ba_max ba)")
          case None
          then have "kba_alloc g b ba sz aln = (None, ba)" unfolding kba_alloc_def Let_def if_not_P [OF ok] if_P [OF True] by simp
          then show ?thesis using assms(1,3) Alloc weak by auto
        next
          case (Some m)
          note grow = kom_grow_ok [OF Some bi1(2)]
          define ba1 where "ba1 = ba\<lparr> ba_b := ba_b ba @ replicate (unat m - unat (ba_max ba)) False, ba_max := m \<rparr>"
          have a1: "kba_alloc g b ba sz aln =
              (if \<not> ba_b ba1 ! unat (ba_bi ba1 + 1) \<and> \<not> b then (None, ba1)
               else kba_place (ba1\<lparr> ba_b := (ba_b ba1)[unat (ba_bi ba1 + 1) := True], ba_bi := ba_bi ba1 + 1, ba_bo := 0 \<rparr>) sz 0)"
            unfolding kba_alloc_def Let_def if_not_P [OF ok] if_P [OF True] Some option.case ba1_def ..
          have f: "ba_bi ba1 = ba_bi ba" "ba_blen ba1 = ba_blen ba" "ba_stack ba1 = ba_stack ba" "ba_m_stack ba1 = ba_m_stack ba"
              "ba_pos ba1 = ba_pos ba" "ba_max ba1 = m" "length (ba_b ba1) = unat m"
            using len grow(2) by (simp_all add: ba1_def ba_pos_def)
          have b1: "\<forall>k \<le> unat (ba_bi ba). k < length (ba_b ba1) \<and> ba_b ba1 ! k" using blk by (auto simp: ba1_def nth_append)
          have ok1: "arena_ok c (ba1, ls)" using st b1 reg ml c f unfolding arena_ok_def ls by simp
          show ?thesis
          proof (cases "\<not> ba_b ba1 ! unat (ba_bi ba1 + 1) \<and> \<not> b")
            case True
            then have "(ba', ls') = (ba1, ls)" using a1 assms(3) Alloc by simp
            then show ?thesis using ok1 weak f(2) by auto
          next
            case False
            define ba2 where "ba2 = ba1\<lparr> ba_b := (ba_b ba1)[unat (ba_bi ba1 + 1) := True], ba_bi := ba_bi ba1 + 1, ba_bo := 0 \<rparr>"
            have "stack_ok (unat (ba_blen ba)) (ba_pos ba2) (ba_stack ba) (l # r)"
            proof (rule stack_ok_move [OF st])
              show bf: "before (ba_pos ba) (ba_pos ba2)" using bi1(1) by (simp add: before_def ba_pos_def ba2_def f)
              show "below (ba_pos ba2) (concat (l # r))" using stack_ok_below [OF st] by (blast intro: below_mono bf)
            qed (simp add: ba_pos_def ba2_def)
            moreover have "\<forall>k \<le> unat (ba_bi ba2). k < length (ba_b ba2) \<and> ba_b ba2 ! k"
              using b1 bi1(1) grow(1) f by (auto simp: ba2_def nth_list_update le_Suc_eq)
            ultimately have ok2: "arena_ok (Suc c) (ba2, ls)"
              using reg ml c f bi1(1) unfolding arena_ok_def ls by (simp add: ba2_def)
            obtain k off ba3 where p: "kba_place ba2 sz 0 = (Some (k, off), ba3)" by (simp add: kba_place_def)
            have "unat sz \<le> unat (ba_blen ba)" using ok by (simp add: word_le_nat_alt not_less)
            then have "unat (ba_bo ba2) + unat sz + unat (0 :: u32) \<le> unat (ba_blen ba2)" by (simp add: ba2_def f)
            note pl = arena_place [OF ok2 this p]
            have "(ba', ls') = (ba3, ((unat k, unat off, unat sz) # hd ls) # tl ls)"
              using a1 False p assms(3) Alloc by (simp flip: ba2_def)
            then show ?thesis using pl by (simp add: ba2_def f)
          qed
        qed
      qed
    qed
  next
    case (Save ok)
    show ?thesis
    proof (cases "kom_grow ok (of_nat (length (ba_stack ba))) (ba_m_stack ba)")
      case None
      then have "(ba', ls') = (ba, ls)" using assms(3) Save by (auto simp: kba_save_def)
      then show ?thesis using assms(1) weak by auto
    next
      case (Some m)
      have "unat (of_nat (length (ba_stack ba)) :: u32) = length (ba_stack ba)"
        using c(2) assms(2) by (simp add: unsigned_of_nat take_bit_nat_eq_self)
      then have "length (ba_stack ba) < unat m" using kom_grow_ok [OF Some] c(2) assms(2) by simp
      moreover have "ba' = ba\<lparr> ba_m_stack := m, ba_stack := (push_bit 32 (ucast (ba_bi ba)) OR ucast (ba_bo ba)) # ba_stack ba \<rparr>" "ls' = [] # ls"
        using assms(3) Save Some by (simp_all add: kba_save_def)
      moreover have "stack_ok (unat (ba_blen ba)) (ba_pos ba) (ba_stack ba) ls" using st ls by simp
      ultimately show ?thesis
        using blk reg len c stack_ok_below [OF st] by (auto simp: arena_ok_def ls saved_pos_pack ba_pos_def)
    qed
  next
    case Restore
    show ?thesis
    proof (cases "ba_stack ba")
      case Nil
      then have "(ba', ls') = (ba, ls)" using assms(3) Restore by (auto simp: kba_restore_def)
      then show ?thesis using assms(1) weak by auto
    next
      case (Cons x xs)
      then have e: "ba' = ba\<lparr> ba_stack := xs, ba_bi := ucast (drop_bit 32 x), ba_bo := ucast x \<rparr>" "ls' = r"
        using assms(3) Restore by (simp_all add: kba_restore_def ls)
      have s: "before (saved_pos x) (ba_pos ba)" "stack_ok (unat (ba_blen ba)) (saved_pos x) xs r" using st Cons by simp_all
      have "ba_pos ba' = saved_pos x" by (simp add: e ba_pos_def saved_pos_def)
      moreover have "unat (ba_bi ba') \<le> unat (ba_bi ba)" using s(1) by (auto simp: e before_def saved_pos_def ba_pos_def)
      ultimately show ?thesis using s(2) blk reg len ml c Cons by (auto simp: arena_ok_def e)
    qed
  qed
qed

lemma arena_run_ok:
  "arena_ok c s \<Longrightarrow> c + length ops \<le> 2 ^ 31 \<Longrightarrow>
   arena_ok (c + length ops) (fold kba_exec ops s) \<and> ba_blen (fst (fold kba_exec ops s)) = ba_blen (fst s)"
proof (induction ops arbitrary: c s)
  case (Cons op ops)
  obtain ba ls ba' ls' where s: "s = (ba, ls)" "kba_exec op s = (ba', ls')" by (cases s; cases "kba_exec op s") auto
  have "arena_ok (Suc c) (ba', ls') \<and> ba_blen ba' = ba_blen ba"
    using arena_exec_ok [of c ba ls op] Cons.prems s by simp
  then show ?case using Cons.IH [of "Suc c" "(ba', ls')"] Cons.prems(2) s by simp
qed simp

lemma arena_init_ok: "kba_init True blen = Some ba \<Longrightarrow> arena_ok 0 (ba, [[]])"
  by (auto simp: kba_init_def arena_ok_def ba_pos_def split: if_splits)

text \<open>
  C32: Whatever is allocated, saved and restored in an arena whose first block could be allocated, and whatever the memory allocator
  answers later (up to \<open>2 ^ 31\<close> operations): the regions that the client may use do not overlap, each lies in a block that
  exists and within its length, and the stack of saved states is never written beyond its capacity.
\<close>

theorem kba_regions_disjoint:
  assumes "kba_init True blen = Some ba0" "length ops \<le> 2 ^ 31" "fold kba_exec ops (ba0, [[]]) = (ba, ls)"
  shows "sorted_wrt (\<lambda>r r'. \<not> overlap r r') (concat ls) \<and>
    (\<forall>(k, off, sz) \<in> set (concat ls). k < length (ba_b ba) \<and> ba_b ba ! k \<and> off + sz \<le> unat (ba_blen ba0)) \<and>
    length (ba_stack ba) \<le> unat (ba_m_stack ba)"
proof -
  have ok: "arena_ok (length ops) (ba, ls)" and bl: "ba_blen ba = ba_blen ba0"
    using arena_run_ok [OF arena_init_ok [OF assms(1)], of ops] assms(2,3) by simp_all
  then have st: "stack_ok (unat (ba_blen ba)) (ba_pos ba) (ba_stack ba) ls" by (simp add: arena_ok_def)
  have b: "below (ba_pos ba) (concat ls)" using stack_ok_below [OF st] by blast
  have blk: "k < length (ba_b ba) \<and> ba_b ba ! k \<and> off + sz \<le> unat (ba_blen ba0)" if "(k, off, sz) \<in> set (concat ls)" for k off sz
  proof -
    have "k \<le> unat (ba_bi ba)" using below_before [OF b that] by (auto simp: before_def ba_pos_def)
    then show ?thesis using ok that bl by (auto simp: arena_ok_def fits_def list_all_iff)
  qed
  then show ?thesis using ok below_disjoint [OF b] by (auto simp: arena_ok_def)
qed

theorem kba_regions_disjoint_witness:
  "\<exists>ba ls. fold kba_exec [Alloc True True 5 4, Save True, Alloc True True 12 8, Restore, Alloc True True 3 4]
      (the (kba_init True 16), [[]]) = (ba, ls) \<and> concat ls = [(0, 8, 3), (0, 0, 5)] \<and> sorted_wrt (\<lambda>r r'. \<not> overlap r r') (concat ls)"
proof -
  let ?ops = "[Alloc True True 5 4, Save True, Alloc True True 12 8, Restore, Alloc True True 3 4]"
  obtain ba ls where r: "fold kba_exec ?ops (the (kba_init True 16), [[]]) = (ba, ls)" by (cases "fold kba_exec ?ops (the (kba_init True 16), [[]])")
  have i: "kba_init True 16 = Some (the (kba_init True 16))" by (simp add: kba_init_def)
  have "concat (snd (fold kba_exec ?ops (the (kba_init True 16), [[]]))) = [(0, 8, 3), (0, 0, 5)]" by code_simp
  then show ?thesis using r kba_regions_disjoint [OF i _ r] by auto
qed

section \<open>The entries of the pool\<close>

text \<open>The client takes entries and gives back one that it holds; the list of those it holds is kept beside the pool.\<close>

datatype kmp_op = New | Back nat

fun kmp_exec :: "kmp_op \<Rightarrow> kmempool \<times> (nat \<times> nat) list \<Rightarrow> kmempool \<times> (nat \<times> nat) list" where
  "kmp_exec New (mp, held) = (case kmp_alloc mp of (p, mp) \<Rightarrow> (mp, p # held))"
| "kmp_exec (Back i) (mp, held) =
     (if i < length held then (kmp_free mp (held ! i), take i held @ drop (Suc i) held) else (mp, held))"

definition pool_entry :: "nat \<Rightarrow> nat \<Rightarrow> nat \<times> nat \<Rightarrow> nat \<times> nat \<Rightarrow> bool" where
  "pool_entry sz cs p e \<longleftrightarrow>
     (\<exists>k < cs. snd e = k * sz) \<and> (fst e < fst p \<or> (fst e = fst p \<and> snd e < snd p))"

definition pool_ok :: "nat \<Rightarrow> nat \<Rightarrow> kmempool \<times> (nat \<times> nat) list \<Rightarrow> bool" where
  "pool_ok sz cs = (\<lambda>(mp, held).
     unat (mp_sz mp) = sz \<and> unat (mp_chunk_size mp) = cs \<and> distinct (held @ mp_buf mp) \<and>
     list_all (pool_entry sz cs (mp_p mp)) (held @ mp_buf mp) \<and>
     mp_n_chunk mp = Suc (fst (mp_p mp)) \<and> (\<exists>j \<le> cs. snd (mp_p mp) = j * sz) \<and>
     mp_p_end mp = (fst (mp_p mp), cs * sz) \<and> length (mp_buf mp) \<le> mp_m_buf mp)"

lemma kmp_chunk_bytes: "unat (ucast a * ucast b :: u64) = unat a * unat b" for a b :: u32
proof -
  have "unat a < 2 ^ 32" "unat b < 2 ^ 32" using unsigned_less [of a] unsigned_less [of b] by simp_all
  then have a: "unat a \<le> 2 ^ 32 - 1" "unat b \<le> 2 ^ 32 - 1" by simp_all
  have "unat a * unat b \<le> (2 ^ 32 - 1) * (2 ^ 32 - 1)" using a by (rule mult_le_mono)
  then have "unat a * unat b < 2 ^ 64" by simp
  moreover have "unat (ucast a :: u64) = unat a" "unat (ucast b :: u64) = unat b"
    using a by (simp_all add: unsigned_ucast_eq take_bit_nat_eq_self)
  ultimately show ?thesis by (simp add: unat_word_ariths)
qed

lemma pool_entry_mono:
  "pool_entry sz cs p e \<Longrightarrow> fst p < fst q \<or> (fst p = fst q \<and> snd p \<le> snd q) \<Longrightarrow> pool_entry sz cs q e"
  by (auto simp: pool_entry_def)

lemma pool_entries_mono:
  "list_all (pool_entry sz cs p) es \<Longrightarrow> fst p < fst q \<or> (fst p = fst q \<and> snd p \<le> snd q) \<Longrightarrow> list_all (pool_entry sz cs q) es"
  by (auto simp: list_all_iff intro: pool_entry_mono)

lemma pool_take:
  assumes "pool_ok sz cs (mp, held)" "mp_buf mp = []" "mp_p mp \<noteq> mp_p_end mp" "0 < sz"
  shows "pool_ok sz cs (mp\<lparr> mp_p := (fst (mp_p mp), snd (mp_p mp) + unat (mp_sz mp)) \<rparr>, mp_p mp # held)"
proof -
  obtain c off where p: "mp_p mp = (c, off)" by (cases "mp_p mp")
  have e: "unat (mp_sz mp) = sz" "unat (mp_chunk_size mp) = cs" "distinct held" "list_all (pool_entry sz cs (c, off)) held"
      "mp_n_chunk mp = Suc c" "mp_p_end mp = (c, cs * sz)" "\<exists>j \<le> cs. off = j * sz"
    using assms(1,2) by (simp_all add: pool_ok_def p)
  obtain j where j: "j \<le> cs" "off = j * sz" using e(7) by blast
  have jn: "j < cs" using assms(3) j e(6) p by (auto simp: le_less)
  have "list_all (pool_entry sz cs (c, off + sz)) held" by (rule pool_entries_mono [OF e(4)]) simp
  moreover have "\<not> pool_entry sz cs (c, off) (c, off)" by (simp add: pool_entry_def)
  then have "(c, off) \<notin> set held" using e(4) by (auto simp: list_all_iff)
  moreover have "pool_entry sz cs (c, off + sz) (c, off)" using jn j assms(4) by (auto simp: pool_entry_def)
  moreover have "off + sz = Suc j * sz" "Suc j \<le> cs" using j jn by simp_all
  then have "\<exists>i \<le> cs. off + sz = i * sz" by blast
  ultimately show ?thesis using e(1-3,5,6) assms(2) by (simp add: pool_ok_def p)
qed

lemma pool_chunk:
  assumes "pool_ok sz cs (mp, held)"
  shows "pool_ok sz cs (kmp_add_chunk mp, held)" "mp_buf (kmp_add_chunk mp) = mp_buf mp" "mp_sz (kmp_add_chunk mp) = mp_sz mp"
    "mp_p (kmp_add_chunk mp) = (mp_n_chunk mp, 0)" "mp_p_end (kmp_add_chunk mp) = (mp_n_chunk mp, cs * sz)"
proof -
  have e: "unat (mp_sz mp) = sz" "unat (mp_chunk_size mp) = cs" "mp_n_chunk mp = Suc (fst (mp_p mp))"
      "list_all (pool_entry sz cs (mp_p mp)) (held @ mp_buf mp)"
    using assms by (simp_all add: pool_ok_def)
  let ?mp = "kmp_add_chunk mp"
  show f: "mp_buf ?mp = mp_buf mp" "mp_sz ?mp = mp_sz mp" "mp_p ?mp = (mp_n_chunk mp, 0)" "mp_p_end ?mp = (mp_n_chunk mp, cs * sz)"
    by (simp_all add: kmp_add_chunk_def Let_def kmp_chunk_bytes e mult.commute)
  have g: "mp_chunk_size ?mp = mp_chunk_size mp" "mp_n_chunk ?mp = Suc (mp_n_chunk mp)" "mp_m_buf ?mp = mp_m_buf mp"
    by (simp_all add: kmp_add_chunk_def Let_def)
  have "list_all (pool_entry sz cs (mp_n_chunk mp, 0)) (held @ mp_buf mp)" by (rule pool_entries_mono [OF e(4)]) (simp add: e(3))
  moreover have "\<exists>j \<le> cs. 0 = j * sz" by (intro exI [of _ 0]) simp
  ultimately show "pool_ok sz cs (?mp, held)" using assms by (simp add: pool_ok_def f g)
qed

lemma pool_exec_ok:
  assumes "pool_ok sz cs s" "0 < sz" "0 < cs"
  shows "pool_ok sz cs (kmp_exec op s)"
proof (cases s)
  case s: (Pair mp held)
  note ok = assms(1) [unfolded s]
  show ?thesis
  proof (cases op)
    case New
    show ?thesis
    proof (cases "mp_buf mp")
      case Nil
      show ?thesis
      proof (cases "mp_p mp = mp_p_end mp")
        case True
        note c = pool_chunk [OF ok]
        have "mp_p (kmp_add_chunk mp) \<noteq> mp_p_end (kmp_add_chunk mp)" using assms(2,3) by (simp add: c(4,5))
        from pool_take [OF c(1) _ this assms(2)] show ?thesis
          using True New s Nil c by (simp add: kmp_alloc_def Let_def)
      next
        case False
        from pool_take [OF ok Nil this assms(2)] show ?thesis
          using False New s Nil by (simp add: kmp_alloc_def Let_def)
      qed
    next
      case (Cons e es)
      then have "kmp_exec op s = (mp\<lparr> mp_buf := es \<rparr>, e # held)" using New s by (simp add: kmp_alloc_def)
      then show ?thesis using ok Cons by (auto simp: pool_ok_def)
    qed
  next
    case (Back i)
    show ?thesis
    proof (cases "i < length held")
      case True
      define r where "r = take i held @ drop (Suc i) held"
      have "mset held = mset (held ! i # r)"
        unfolding r_def by (subst id_take_nth_drop [OF True]) simp
      then have h: "distinct held \<longleftrightarrow> distinct (held ! i # r)" "set held = insert (held ! i) (set r)"
        by (rule mset_eq_imp_distinct_iff, metis \<open>mset held = mset (held ! i # r)\<close> list.simps(15) set_mset_mset)
      have "kmp_exec op s = (kmp_free mp (held ! i), r)" using Back s True by (simp add: r_def)
      moreover have "mp_buf (kmp_free mp (held ! i)) = held ! i # mp_buf mp" "mp_p (kmp_free mp (held ! i)) = mp_p mp"
          "mp_sz (kmp_free mp (held ! i)) = mp_sz mp" "mp_chunk_size (kmp_free mp (held ! i)) = mp_chunk_size mp"
          "mp_n_chunk (kmp_free mp (held ! i)) = mp_n_chunk mp" "mp_p_end (kmp_free mp (held ! i)) = mp_p_end mp"
          "length (mp_buf mp) \<le> mp_m_buf mp \<Longrightarrow> length (mp_buf mp) < mp_m_buf (kmp_free mp (held ! i))"
        by (auto simp: kmp_free_def Let_def)
      ultimately show ?thesis using ok h by (simp add: pool_ok_def list_all_iff)
    qed (use ok Back s in simp)
  qed
qed

lemma pool_run_ok: "pool_ok sz cs s \<Longrightarrow> 0 < sz \<Longrightarrow> 0 < cs \<Longrightarrow> pool_ok sz cs (fold kmp_exec ops s)"
  by (induction ops arbitrary: s) (simp_all add: pool_exec_ok)

text \<open>
  Whatever entries of positive size are taken from a pool and given back, in whatever order: those that the client holds are
  different from each other and from those in the buffer, each is one of the entries of a chunk, so that no two
  overlap, and the buffer is never written beyond its capacity.
\<close>

theorem kmp_entries_disjoint:
  assumes "0 < sz" "0 < cs" "fold kmp_exec ops (kmp_init2 sz cs, []) = (mp, held)"
  shows "distinct held \<and> set held \<inter> set (mp_buf mp) = {} \<and>
    (\<forall>(c, off) \<in> set held. c < mp_n_chunk mp \<and> (\<exists>k < unat cs. off = k * unat sz)) \<and> length (mp_buf mp) \<le> mp_m_buf mp"
proof -
  have "pool_ok (unat sz) (unat cs) (kmp_init2 sz cs, [])"
    by (auto simp: pool_ok_def kmp_init2_def kmp_add_chunk_def kmp_chunk_bytes mult.commute)
  moreover have "0 < unat sz" "0 < unat cs" using assms(1,2) by (simp_all add: word_less_nat_alt)
  ultimately have "pool_ok (unat sz) (unat cs) (mp, held)" using pool_run_ok assms(3) by metis
  then have d: "distinct (held @ mp_buf mp)" "list_all (pool_entry (unat sz) (unat cs) (mp_p mp)) held"
      "mp_n_chunk mp = Suc (fst (mp_p mp))" "length (mp_buf mp) \<le> mp_m_buf mp"
    by (simp_all add: pool_ok_def)
  have "c < mp_n_chunk mp \<and> (\<exists>k < unat cs. off = k * unat sz)" if "(c, off) \<in> set held" for c off
  proof -
    have "pool_entry (unat sz) (unat cs) (mp_p mp) (c, off)" using d(2) that by (simp add: list_all_iff)
    then show ?thesis using d(3) by (auto simp: pool_entry_def)
  qed
  then show ?thesis using d(1,4) by auto
qed

theorem kmp_entries_disjoint_witness:
  "fold kmp_exec [New, New, Back 1, New, New] (kmp_init2 8 2, []) =
     (\<lparr> mp_sz = 8, mp_chunk_size = 2, mp_n_chunk = 2, mp_p = (1, 8), mp_p_end = (1, 16), mp_buf = [], mp_m_buf = 16 \<rparr>,
      [(1, 0), (0, 0), (0, 8)]) \<and> distinct [(1 :: nat, 0 :: nat), (0, 0), (0, 8)]"
proof -
  have r: "fold kmp_exec [New, New, Back 1, New, New] (kmp_init2 8 2, []) =
     (\<lparr> mp_sz = 8, mp_chunk_size = 2, mp_n_chunk = 2, mp_p = (1, 8), mp_p_end = (1, 16), mp_buf = [], mp_m_buf = 16 \<rparr>,
      [(1, 0), (0, 0), (0, 8)])"
    by code_simp
  with kmp_entries_disjoint [OF _ _ r] show ?thesis by simp
qed

end
