(* ===== verification/KSon.thy ===== *)
theory KSon
  imports Prelude "HOL-Library.Monad_Syntax"
begin

text \<open>
  The JSON parser and printer of klib (\<open>src/ext/klib/kson.c\<close>, \<open>kson.h\<close>). The parser fills an array of nodes with the help of a stack
  of indices and marks; the nodes refer to their children by index until all are known. \<open>None\<close> is an access
  outside of the text, the array or the stack, or a member of the union \<open>v\<close> that is read as the other one. Memory is always available.
\<close>

section \<open>Nodes\<close>

definition KSON_TYPE_NO_QUOTE :: nat where "KSON_TYPE_NO_QUOTE = 1"
definition KSON_TYPE_SGL_QUOTE :: nat where "KSON_TYPE_SGL_QUOTE = 2"
definition KSON_TYPE_DBL_QUOTE :: nat where "KSON_TYPE_DBL_QUOTE = 3"
definition KSON_TYPE_BRACKET :: nat where "KSON_TYPE_BRACKET = 4"
definition KSON_TYPE_BRACE :: nat where "KSON_TYPE_BRACE = 5"

lemmas kson_types = KSON_TYPE_NO_QUOTE_def KSON_TYPE_SGL_QUOTE_def KSON_TYPE_DBL_QUOTE_def KSON_TYPE_BRACKET_def KSON_TYPE_BRACE_def

datatype kson_error = KSON_OK | KSON_ERR_EXTRA_LEFT | KSON_ERR_EXTRA_RIGHT | KSON_ERR_NO_KEY

text \<open>The union \<open>v\<close> while the children are indices: zeroed memory, a string, or the list of the children.\<close>

datatype kson_v = NoV | StrV string | ChildV "int list"

record raw_node =
  rn_type :: nat
  rn_key :: "string option"
  rn_v :: kson_v

definition zero_node :: raw_node where
  "zero_node = \<lparr> rn_type = 0, rn_key = None, rn_v = NoV \<rparr>"

text \<open>A node with pointers: a type, a key, and a string or the children.\<close>

datatype kson_node = KStr nat "string option" string | KChild nat "string option" "kson_node list"

primrec kn_key :: "kson_node \<Rightarrow> string option" where
  "kn_key (KStr ty k s) = k"
| "kn_key (KChild ty k ts) = k"

section \<open>The parser\<close>

definition isspace :: "char \<Rightarrow> bool" where
  "isspace c \<longleftrightarrow> c \<in> {CHR '' '', CHR 0x09, CHR 0x0A, CHR 0x0B, CHR 0x0C, CHR 0x0D}"

text \<open>
  The scans for the end of a string: the text up to it, and the rest. An escape at the end of the text leads behind its terminator.
\<close>

fun scan_until :: "(char \<Rightarrow> bool) \<Rightarrow> string \<Rightarrow> (string \<times> string) option" where
  "scan_until e [] = Some ([], [])"
| "scan_until e [x] = (if e x then Some ([], [x]) else if x = CHR 0x5C then None else Some ([x], []))"
| "scan_until e (x # y # r) =
     (if e x then Some ([], x # y # r)
      else if x = CHR 0x5C then do { (s, r) \<leftarrow> scan_until e r; Some (x # y # s, r) }
      else do { (s, r) \<leftarrow> scan_until e (y # r); Some (x # s, r) })"

definition plain_end :: "char \<Rightarrow> bool" where
  "plain_end c \<longleftrightarrow> c = CHR '']'' \<or> c = CHR ''}'' \<or> c = CHR '','' \<or> c = CHR '':'' \<or> c = LF"

text \<open>The string that starts with \<open>c\<close>, its type, and the text the loop goes on with.\<close>

definition kson_string :: "char \<Rightarrow> string \<Rightarrow> (string \<times> nat \<times> string) option" where
  "kson_string c r =
     (if c = CHR 0x27 \<or> c = CHR 0x22 then
        do { (s, q) \<leftarrow> scan_until (\<lambda>x. x = c) r;
             case q of
               [] \<Rightarrow> None
             | _ # q \<Rightarrow> Some (s, if c = CHR 0x27 then KSON_TYPE_SGL_QUOTE else KSON_TYPE_DBL_QUOTE, q) }
      else
        do { (s, q) \<leftarrow> scan_until plain_end (c # r); Some (s, KSON_TYPE_NO_QUOTE, q) })"

text \<open>The nodes and the stack, its top first; \<open>-1\<close>, \<open>-2\<close> and \<open>-3\<close> are the marks.\<close>

record kson_state =
  ks_a :: "raw_node list"
  ks_stack :: "int list"

definition new_node :: "kson_state \<Rightarrow> int \<times> kson_state" where
  "new_node st = (int (length (ks_a st)), st\<lparr> ks_a := ks_a st @ [zero_node] \<rparr>)"

definition node_at :: "raw_node list \<Rightarrow> int \<Rightarrow> raw_node option" where
  "node_at a i = (if 0 \<le> i \<and> i < int (length a) then Some (a ! nat i) else None)"

definition put_node :: "int \<Rightarrow> raw_node \<Rightarrow> kson_state \<Rightarrow> kson_state" where
  "put_node i u st = st\<lparr> ks_a := (ks_a st)[nat i := u] \<rparr>"

definition v_str :: "kson_v \<Rightarrow> string option option" where
  "v_str v = (case v of NoV \<Rightarrow> Some None | StrV s \<Rightarrow> Some (Some s) | ChildV cs \<Rightarrow> None)"

definition kson_open :: "int \<Rightarrow> kson_state \<Rightarrow> kson_state" where
  "kson_open t st =
     (case ks_stack st of
        m # i # stk \<Rightarrow>
          if m = - 3 then st\<lparr> ks_stack := t # i # stk \<rparr>
          else (case new_node st of (n, st) \<Rightarrow> st\<lparr> ks_stack := t # n # ks_stack st \<rparr>)
      | _ \<Rightarrow> (case new_node st of (n, st) \<Rightarrow> st\<lparr> ks_stack := t # n # ks_stack st \<rparr>))"

text \<open>\<open>Inl\<close> leaves the loop with an error or with one complete object.\<close>

definition kson_close :: "int \<Rightarrow> nat \<Rightarrow> kson_state \<Rightarrow> (kson_state \<times> kson_error + kson_state) option" where
  "kson_close t ty st =
     (case dropWhile (\<lambda>x. x \<noteq> t) (ks_stack st) of
        [] \<Rightarrow> Some (Inl (st, KSON_ERR_EXTRA_RIGHT))
      | [_] \<Rightarrow> None
      | _ # i # stk \<Rightarrow>
          do { u \<leftarrow> node_at (ks_a st) i;
               key \<leftarrow> v_str (rn_v u);
               let u = \<lparr> rn_type = ty, rn_key = key, rn_v = ChildV (rev (takeWhile (\<lambda>x. x \<noteq> t) (ks_stack st))) \<rparr>;
                   st = (put_node i u st)\<lparr> ks_stack := i # stk \<rparr>
               in Some (if stk = [] then Inl (st, KSON_OK) else Inr st) })"

definition kson_colon :: "kson_state \<Rightarrow> kson_state \<times> kson_error + kson_state" where
  "kson_colon st =
     (case ks_stack st of
        [] \<Rightarrow> Inl (st, KSON_ERR_NO_KEY)
      | m # _ \<Rightarrow> if m = - 3 then Inl (st, KSON_ERR_NO_KEY) else Inr (st\<lparr> ks_stack := - 3 # ks_stack st \<rparr>))"

text \<open>The node that gets the string: the one of a pending key, whose string becomes the key, or a new one.\<close>

definition kson_value_node :: "kson_state \<Rightarrow> (int \<times> kson_state) option" where
  "kson_value_node st =
     (case ks_stack st of
        m # i # stk \<Rightarrow>
          if m = - 3 then
            do { u \<leftarrow> node_at (ks_a st) i;
                 key \<leftarrow> v_str (rn_v u);
                 Some (i, (put_node i (u\<lparr> rn_key := key \<rparr>) st)\<lparr> ks_stack := i # stk \<rparr>) }
          else (case new_node st of (n, st) \<Rightarrow> Some (n, st\<lparr> ks_stack := n # ks_stack st \<rparr>))
      | _ \<Rightarrow> (case new_node st of (n, st) \<Rightarrow> Some (n, st\<lparr> ks_stack := n # ks_stack st \<rparr>)))"

definition kson_value :: "kson_state \<Rightarrow> char \<Rightarrow> string \<Rightarrow> (kson_state \<times> string) option" where
  "kson_value st c r =
     do { (i, st) \<leftarrow> kson_value_node st;
          (s, ty, r) \<leftarrow> kson_string c r;
          u \<leftarrow> node_at (ks_a st) i;
          Some (put_node i (u\<lparr> rn_v := StrV s, rn_type := ty \<rparr>) st, r) }"

text \<open>One round of the loop at the character \<open>c\<close>: the state, and the text of the next round or the error and the text where it ends.\<close>

definition kson_step :: "kson_state \<Rightarrow> char \<Rightarrow> string \<Rightarrow> (kson_state \<times> (kson_error \<times> string + string)) option" where
  "kson_step st c r =
     (if c = CHR '','' then Some (st, Inr r)
      else if c = CHR ''['' then Some (kson_open (- 1) st, Inr r)
      else if c = CHR ''{'' then Some (kson_open (- 2) st, Inr r)
      else if c = CHR '']'' \<or> c = CHR ''}'' then
        do { x \<leftarrow> (if c = CHR '']'' then kson_close (- 1) KSON_TYPE_BRACKET st else kson_close (- 2) KSON_TYPE_BRACE st);
             Some (case x of Inl (st, e) \<Rightarrow> (st, Inl (e, c # r)) | Inr st \<Rightarrow> (st, Inr r)) }
      else if c = CHR '':'' then
        Some (case kson_colon st of Inl (st, e) \<Rightarrow> (st, Inl (e, c # r)) | Inr st \<Rightarrow> (st, Inr r))
      else do { (st, r) \<leftarrow> kson_value st c r; Some (st, Inr r) })"

lemma scan_until_shorter: "scan_until e r = Some (s, q) \<Longrightarrow> length q \<le> length r"
  by (induction e r arbitrary: s q rule: scan_until.induct) (fastforce split: if_splits bind_splits)+

lemma scan_until_consumes:
  assumes "scan_until e (c # r) = Some (s, q)" "\<not> e c"
  shows "length q \<le> length r"
proof (cases r)
  case Nil
  then show ?thesis using assms by (simp split: if_splits)
next
  case (Cons y ys)
  then show ?thesis using assms by (auto split: if_splits bind_splits dest: scan_until_shorter)
qed

lemma kson_step_shorter:
  assumes "kson_step st c r = Some (st', Inr q)" "\<not> isspace c"
  shows "length q \<le> length r"
proof (cases "c \<in> set '',[{]}:''")
  case True
  then show ?thesis using assms(1) by (auto simp: kson_step_def split: if_splits bind_splits sum.splits)
next
  case False
  then have e: "\<not> plain_end c" using assms(2) by (auto simp: plain_end_def isspace_def)
  from False assms(1) obtain st1 where "kson_value st c r = Some (st1, q)"
    by (auto simp: kson_step_def split: if_splits bind_splits)
  then obtain s ty where "kson_string c r = Some (s, ty, q)" by (auto simp: kson_value_def split: bind_splits)
  then show ?thesis
    using scan_until_consumes [where e = plain_end and c = c and r = r, OF _ e]
    by (auto simp: kson_string_def split: if_splits bind_splits list.splits dest!: scan_until_shorter)
qed

function kson_loop :: "kson_state \<Rightarrow> string \<Rightarrow> (kson_state \<times> kson_error \<times> string) option" where
  "kson_loop st p =
     (case dropWhile isspace p of
        [] \<Rightarrow> Some (st, KSON_OK, [])
      | c # r \<Rightarrow>
          (case kson_step st c r of
             None \<Rightarrow> None
           | Some (st, Inl (e, q)) \<Rightarrow> Some (st, e, q)
           | Some (st, Inr q) \<Rightarrow> kson_loop st q))"
  by auto
termination
proof (relation "measure (\<lambda>(st, p). length p)")
  fix st st' :: kson_state and p c r and x :: "kson_state \<times> (kson_error \<times> string + string)" and y q
  assume p: "dropWhile isspace p = c # r" and s: "kson_step st c r = Some x" "(st', y) = x" "y = Inr q"
  have "\<not> isspace c" using p by (metis dropWhile_eq_Cons_conv)
  then have "length q \<le> length r" using s kson_step_shorter by metis
  moreover have "length (c # r) \<le> length p" using length_dropWhile_le [of isspace p] by (simp add: p)
  ultimately show "((st', q), (st, p)) \<in> measure (\<lambda>(st, p). length p)" by simp
qed simp

declare kson_loop.simps [simp del]

text \<open>The nodes, the error and the number of characters that were read.\<close>

definition kson_parse_core :: "string \<Rightarrow> (raw_node list \<times> kson_error \<times> nat) option" where
  "kson_parse_core json =
     do { (st, e, q) \<leftarrow> kson_loop \<lparr> ks_a = [], ks_stack = [] \<rparr> (cstr json);
          Some (ks_a st, if length (ks_stack st) \<noteq> 1 then KSON_ERR_EXTRA_LEFT else e,
            length (cstr json) - length (dropWhile isspace q)) }"

text \<open>Indices become pointers. A child was allocated after its parent.\<close>

function kson_resolve :: "raw_node list \<Rightarrow> nat \<Rightarrow> kson_node option" where
  "kson_resolve a i =
     (if i < length a then
        case rn_v (a ! i) of
          NoV \<Rightarrow> None
        | StrV s \<Rightarrow> Some (KStr (rn_type (a ! i)) (rn_key (a ! i)) s)
        | ChildV cs \<Rightarrow>
            if \<forall>c\<in>set cs. int i < c then
              map_option (KChild (rn_type (a ! i)) (rn_key (a ! i))) (those (map (\<lambda>c. kson_resolve a (nat c)) cs))
            else None
      else None)"
  by auto
termination by (relation "measure (\<lambda>(a, i). length a - i)") auto

declare kson_resolve.simps [simp del]

text \<open>The root, or \<open>None\<close> for a null pointer after an error.\<close>

definition kson_parse :: "string \<Rightarrow> kson_node option option" where
  "kson_parse json =
     do { (a, e, n) \<leftarrow> kson_parse_core json;
          if e \<noteq> KSON_OK then Some None else map_option Some (kson_resolve a 0) }"

section \<open>Queries\<close>

definition kson_by_key :: "kson_node \<Rightarrow> string \<Rightarrow> kson_node option" where
  "kson_by_key p key =
     (case p of
        KStr ty k s \<Rightarrow> None
      | KChild ty k ts \<Rightarrow> List.find (\<lambda>q. case kn_key q of None \<Rightarrow> False | Some k \<Rightarrow> cstr k = cstr key) ts)"

definition kson_by_index :: "kson_node \<Rightarrow> int \<Rightarrow> kson_node option" where
  "kson_by_index p i =
     (case p of
        KStr ty k s \<Rightarrow> None
      | KChild ty k ts \<Rightarrow> if 0 \<le> i \<and> i < int (length ts) then Some (ts ! nat i) else None)"

text \<open>The variable arguments: a key for a brace, an index for a bracket; \<open>None\<close> is an argument of the wrong type.\<close>

fun kson_by_path :: "kson_node option \<Rightarrow> (string + int) list \<Rightarrow> kson_node option option" where
  "kson_by_path None args = Some None"
| "kson_by_path (Some p) [] = Some (Some p)"
| "kson_by_path (Some p) (x # args) =
     (case p of
        KStr ty k s \<Rightarrow> Some (Some p)
      | KChild ty k ts \<Rightarrow>
          (case x of
             Inl key \<Rightarrow> if ty = KSON_TYPE_BRACE then kson_by_path (kson_by_key p key) args else None
           | Inr i \<Rightarrow> if ty = KSON_TYPE_BRACKET then kson_by_path (kson_by_index p i) args else None))"

section \<open>The printer\<close>

definition kson_indent :: "nat \<Rightarrow> string" where
  "kson_indent depth = concat (replicate depth ''  '')"

fun kson_join :: "string \<Rightarrow> string list \<Rightarrow> string" where
  "kson_join sep [] = []"
| "kson_join sep [x] = x"
| "kson_join sep (x # y # xs) = x @ sep @ kson_join sep (y # xs)"

definition kson_put_key :: "string option \<Rightarrow> string" where
  "kson_put_key key = (case key of None \<Rightarrow> [] | Some k \<Rightarrow> CHR 0x22 # k @ [CHR 0x22, CHR '':''])"

definition kson_quote :: "nat \<Rightarrow> string" where
  "kson_quote ty = (if ty = KSON_TYPE_NO_QUOTE then [] else if ty = KSON_TYPE_SGL_QUOTE then [CHR 0x27] else [CHR 0x22])"

primrec kson_format_recur :: "kson_node \<Rightarrow> nat \<Rightarrow> string" where
  "kson_format_recur (KStr ty key s) depth = kson_put_key key @ kson_quote ty @ s @ kson_quote ty"
| "kson_format_recur (KChild ty key ts) depth =
     kson_put_key key @ [if ty = KSON_TYPE_BRACKET then CHR ''['' else CHR ''{''] @
     (if ts \<noteq> [] then
        LF # kson_indent (depth + 1) @
        kson_join (CHR '','' # LF # kson_indent (depth + 1)) (map (\<lambda>f. f (depth + 1)) (map kson_format_recur ts)) @
        LF # kson_indent depth
      else []) @
     [if ty = KSON_TYPE_BRACKET then CHR '']'' else CHR ''}'']"

definition kson_format :: "kson_node \<Rightarrow> string" where
  "kson_format root = kson_format_recur root 0 @ [LF]"

section \<open>Texts that can be read back\<close>

text \<open>No unescaped end of the string and no escape at its end.\<close>

fun scan_ok :: "(char \<Rightarrow> bool) \<Rightarrow> string \<Rightarrow> bool" where
  "scan_ok e [] \<longleftrightarrow> True"
| "scan_ok e [x] \<longleftrightarrow> \<not> e x \<and> x \<noteq> CHR 0x5C"
| "scan_ok e (x # y # r) \<longleftrightarrow> \<not> e x \<and> (if x = CHR 0x5C then scan_ok e r else scan_ok e (y # r))"

definition kson_str_ok :: "nat \<Rightarrow> string \<Rightarrow> bool" where
  "kson_str_ok ty s \<longleftrightarrow> NUL \<notin> set s \<and>
     (if ty = KSON_TYPE_NO_QUOTE then
        s \<noteq> [] \<and> \<not> isspace (hd s) \<and> hd s \<notin> set '',[{]}:'' \<and> hd s \<noteq> CHR 0x27 \<and> hd s \<noteq> CHR 0x22 \<and> scan_ok plain_end s
      else if ty = KSON_TYPE_SGL_QUOTE then scan_ok (\<lambda>x. x = CHR 0x27) s
      else ty = KSON_TYPE_DBL_QUOTE \<and> scan_ok (\<lambda>x. x = CHR 0x22) s)"

definition kson_key_ok :: "string option \<Rightarrow> bool" where
  "kson_key_ok key \<longleftrightarrow> (case key of None \<Rightarrow> True | Some k \<Rightarrow> kson_str_ok KSON_TYPE_DBL_QUOTE k)"

primrec kson_wf :: "kson_node \<Rightarrow> bool" where
  "kson_wf (KStr ty key s) \<longleftrightarrow> kson_key_ok key \<and> kson_str_ok ty s"
| "kson_wf (KChild ty key ts) \<longleftrightarrow>
     kson_key_ok key \<and> (ty = KSON_TYPE_BRACKET \<or> ty = KSON_TYPE_BRACE) \<and> list_all (\<lambda>b. b) (map kson_wf ts)"

lemma scan_until_end: "e y \<Longrightarrow> scan_until e (y # r) = Some ([], y # r)"
  by (cases r) auto

lemma scan_until_ok: "scan_ok e s \<Longrightarrow> rest = [] \<or> e (hd rest) \<Longrightarrow> scan_until e (s @ rest) = Some (s, rest)"
proof (induction e s rule: scan_ok.induct)
  case (1 e)
  then show ?case by (cases rest) (auto simp: scan_until_end)
next
  case (2 e x)
  then show ?case by (cases rest) (auto simp: scan_until_end)
next
  case (3 e x y r)
  then show ?case by (auto simp: scan_until_end split: if_splits)
qed

section \<open>Rounds of the loop\<close>

abbreviation kst :: "raw_node list \<Rightarrow> int list \<Rightarrow> kson_state" where
  "kst a stk \<equiv> \<lparr> ks_a = a, ks_stack = stk \<rparr>"

abbreviation leaf :: "nat \<Rightarrow> string option \<Rightarrow> string \<Rightarrow> raw_node" where
  "leaf ty key s \<equiv> \<lparr> rn_type = ty, rn_key = key, rn_v = StrV s \<rparr>"

lemma loop_skip: "list_all isspace sp \<Longrightarrow> kson_loop st (sp @ p) = kson_loop st p"
proof -
  assume "list_all isspace sp"
  then have "dropWhile isspace (sp @ p) = dropWhile isspace p" by (simp add: dropWhile_append2 list_all_iff)
  then show ?thesis by (subst (1 2) kson_loop.simps) simp
qed

lemma loop_step:
  assumes "\<not> isspace c" "kson_step st c r = Some (st', Inr q)"
  shows "kson_loop st (c # r) = kson_loop st' q"
  using assms by (subst kson_loop.simps) simp

lemma loop_comma: "kson_loop st (CHR '','' # r) = kson_loop st r"
  by (rule loop_step) (simp_all add: isspace_def kson_step_def)

text \<open>A stack without a pending key, and a node whose key is pending.\<close>

definition no_key :: "int list \<Rightarrow> bool" where
  "no_key stk \<longleftrightarrow> stk = [] \<or> hd stk \<noteq> - 3"

lemma new_pending: "no_key stk \<Longrightarrow> kson_open t (kst a stk) = kst (a @ [zero_node]) (t # int (length a) # stk)"
  by (auto simp: no_key_def kson_open_def new_node_def split: list.splits)

lemma key_pending: "kson_open t (kst a (- 3 # n # stk)) = kst a (t # n # stk)"
  by (simp add: kson_open_def)

lemma value_node_new: "no_key stk \<Longrightarrow> kson_value_node (kst a stk) = Some (int (length a), kst (a @ [zero_node]) (int (length a) # stk))"
  by (auto simp: no_key_def kson_value_node_def new_node_def split: list.splits)

lemma node_at_last [simp]: "node_at (a @ u # r) (int (length a)) = Some u"
  by (simp add: node_at_def)

lemma put_node_last [simp]: "put_node (int (length a)) u (kst (a @ x # r) stk) = kst (a @ u # r) stk"
  by (simp add: put_node_def)

lemma value_node_key:
  "kson_value_node (kst (a @ [leaf ty None k]) (- 3 # int (length a) # stk)) =
     Some (int (length a), kst (a @ [leaf ty (Some k) k]) (int (length a) # stk))"
  by (simp add: kson_value_node_def v_str_def)

lemma kson_string_ok:
  assumes "kson_str_ok ty s" "rest = [] \<or> hd rest = CHR '','' \<or> hd rest = LF"
  obtains c r where "kson_quote ty @ s @ kson_quote ty @ rest = c # r" "\<not> isspace c" "c \<notin> set '',[{]}:''" "kson_string c r = Some (s, ty, rest)"
proof -
  have e: "rest = [] \<or> plain_end (hd rest)" using assms(2) by (auto simp: plain_end_def)
  consider (no) "ty = KSON_TYPE_NO_QUOTE" | (sgl) "ty = KSON_TYPE_SGL_QUOTE" | (dbl) "ty = KSON_TYPE_DBL_QUOTE"
    using assms(1) by (auto simp: kson_str_ok_def split: if_splits)
  then show thesis
  proof cases
    case no
    then obtain c s' where s: "s = c # s'" "\<not> isspace c" "c \<notin> set '',[{]}:''" "c \<noteq> CHR 0x27" "c \<noteq> CHR 0x22" "scan_ok plain_end s"
      using assms(1) by (cases s) (auto simp: kson_str_ok_def)
    have "kson_string c (s' @ rest) = Some (s, ty, rest)"
      using s(4,5) scan_until_ok [OF s(6) e] no by (simp add: kson_string_def s(1))
    with s(1-3) no show thesis by (intro that [of c "s' @ rest"]) (simp_all add: kson_quote_def)
  next
    case sgl
    then have "scan_ok (\<lambda>x. x = CHR 0x27) s" using assms(1) by (simp add: kson_str_ok_def kson_types)
    from scan_until_ok [OF this, of "CHR 0x27 # rest"]
    have "kson_string CHR 0x27 (s @ CHR 0x27 # rest) = Some (s, ty, rest)" by (simp add: kson_string_def sgl)
    then show thesis by (intro that [of "CHR 0x27" "s @ CHR 0x27 # rest"]) (simp_all add: kson_quote_def sgl kson_types isspace_def)
  next
    case dbl
    then have "scan_ok (\<lambda>x. x = CHR 0x22) s" using assms(1) by (simp add: kson_str_ok_def kson_types)
    from scan_until_ok [OF this, of "CHR 0x22 # rest"]
    have "kson_string CHR 0x22 (s @ CHR 0x22 # rest) = Some (s, ty, rest)" by (simp add: kson_string_def dbl)
    then show thesis by (intro that [of "CHR 0x22" "s @ CHR 0x22 # rest"]) (simp_all add: kson_quote_def dbl kson_types isspace_def)
  qed
qed

text \<open>A string where a value may begin, and one after a key.\<close>

lemma loop_value:
  assumes "kson_str_ok ty s" "rest = [] \<or> hd rest = CHR '','' \<or> hd rest = LF"
    "kson_value_node st = Some (int (length a), kst (a @ [u]) stk)"
  shows "kson_loop st (kson_quote ty @ s @ kson_quote ty @ rest) = kson_loop (kst (a @ [u\<lparr> rn_v := StrV s, rn_type := ty \<rparr>]) stk) rest"
proof -
  obtain c r where c: "kson_quote ty @ s @ kson_quote ty @ rest = c # r" "\<not> isspace c" "c \<notin> set '',[{]}:''"
      "kson_string c r = Some (s, ty, rest)"
    by (rule kson_string_ok [OF assms(1,2)])
  have "kson_step st c r = Some (kst (a @ [u\<lparr> rn_v := StrV s, rn_type := ty \<rparr>]) stk, Inr rest)"
    using c(3,4) assms(3) by (simp add: kson_step_def kson_value_def)
  then show ?thesis unfolding c(1) by (rule loop_step [OF c(2)])
qed

lemma loop_key:
  assumes "kson_str_ok KSON_TYPE_DBL_QUOTE k" "no_key stk"
  shows "kson_loop (kst a stk) (kson_put_key (Some k) @ p) =
    kson_loop (kst (a @ [leaf KSON_TYPE_DBL_QUOTE None k]) (- 3 # int (length a) # stk)) p"
proof -
  have "scan_ok (\<lambda>x. x = CHR 0x22) k" using assms(1) by (simp add: kson_str_ok_def kson_types)
  from scan_until_ok [OF this, of "CHR 0x22 # CHR '':'' # p"]
  have "kson_string CHR 0x22 (k @ CHR 0x22 # CHR '':'' # p) = Some (k, KSON_TYPE_DBL_QUOTE, CHR '':'' # p)"
    by (simp add: kson_string_def)
  then have s: "kson_step (kst a stk) CHR 0x22 (k @ CHR 0x22 # CHR '':'' # p) =
      Some (kst (a @ [leaf KSON_TYPE_DBL_QUOTE None k]) (int (length a) # stk), Inr (CHR '':'' # p))"
    using value_node_new [OF assms(2), of a] by (simp add: kson_step_def kson_value_def zero_node_def)
  have "kson_loop (kst a stk) (kson_put_key (Some k) @ p) =
      kson_loop (kst (a @ [leaf KSON_TYPE_DBL_QUOTE None k]) (int (length a) # stk)) (CHR '':'' # p)"
    unfolding kson_put_key_def by (simp, rule loop_step [OF _ s]) (simp add: isspace_def)
  also have "\<dots> = kson_loop (kst (a @ [leaf KSON_TYPE_DBL_QUOTE None k]) (- 3 # int (length a) # stk)) p"
    by (rule loop_step) (simp_all add: isspace_def kson_step_def kson_colon_def)
  finally show ?thesis .
qed

lemma loop_leaf:
  assumes "kson_wf (KStr ty key s)" "no_key stk" "rest = [] \<or> hd rest = CHR '','' \<or> hd rest = LF"
  shows "kson_loop (kst a stk) (kson_format_recur (KStr ty key s) d @ rest) = kson_loop (kst (a @ [leaf ty key s]) (int (length a) # stk)) rest"
proof (cases key)
  case None
  then show ?thesis
    using assms(1) loop_value [OF _ assms(3) value_node_new [OF assms(2)], of ty s] by (simp add: kson_put_key_def zero_node_def)
next
  case (Some k)
  then have k: "kson_str_ok KSON_TYPE_DBL_QUOTE k" and s: "kson_str_ok ty s" using assms(1) by (simp_all add: kson_key_ok_def)
  show ?thesis
    using loop_key [OF k assms(2)] loop_value [OF s assms(3) value_node_key] by (simp add: Some)
qed

section \<open>Reading a printed tree\<close>

text \<open>The nodes of a tree from index \<open>b\<close> on, parents before children.\<close>

fun kn_size :: "kson_node \<Rightarrow> nat" where
  "kn_size (KStr ty key s) = 1"
| "kn_size (KChild ty key ts) = Suc (sum_list (map kn_size ts))"

fun idxs :: "nat \<Rightarrow> kson_node list \<Rightarrow> int list" where
  "idxs b [] = []"
| "idxs b (t # ts) = int b # idxs (b + kn_size t) ts"

fun lay :: "nat \<Rightarrow> kson_node \<Rightarrow> raw_node list" and lays :: "nat \<Rightarrow> kson_node list \<Rightarrow> raw_node list" where
  "lay b (KStr ty key s) = [leaf ty key s]"
| "lay b (KChild ty key ts) = \<lparr> rn_type = ty, rn_key = key, rn_v = ChildV (idxs (b + 1) ts) \<rparr> # lays (b + 1) ts"
| "lays b [] = []"
| "lays b (t # ts) = lay b t @ lays (b + kn_size t) ts"

lemma length_lay [simp]: "length (lay b t) = kn_size t" "length (lays b ts) = sum_list (map kn_size ts)"
  by (induction b t and b ts rule: lay_lays.induct) auto

lemma idxs_ge: "c \<in> set (idxs b ts) \<Longrightarrow> int b \<le> c"
  by (induction b ts rule: idxs.induct) auto

lemma isspace_indent: "list_all isspace (kson_indent d)"
  by (simp add: kson_indent_def list_all_iff) (auto simp: isspace_def)

lemma loop_line: "kson_loop st (LF # kson_indent d @ p) = kson_loop st p"
  using loop_skip [of "LF # kson_indent d" st p] isspace_indent [of d] by (simp add: isspace_def)

definition child_reads :: "kson_node \<Rightarrow> bool" where
  "child_reads t \<longleftrightarrow> (\<forall>a stk d rest. stk \<noteq> [] \<longrightarrow> no_key stk \<longrightarrow> (hd rest = CHR '','' \<or> hd rest = LF) \<longrightarrow>
     kson_loop (kst a stk) (kson_format_recur t d @ rest) = kson_loop (kst (a @ lay (length a) t) (int (length a) # stk)) rest)"

lemma no_key_int: "no_key (int n # stk)"
  by (simp add: no_key_def)

lemma loop_children:
  "list_all child_reads ts \<Longrightarrow> ts \<noteq> [] \<Longrightarrow> stk \<noteq> [] \<Longrightarrow> no_key stk \<Longrightarrow>
   kson_loop (kst a stk)
     (kson_join (CHR '','' # LF # kson_indent d) (map (\<lambda>f. f d) (map kson_format_recur ts)) @ LF # kson_indent d' @ p) =
   kson_loop (kst (a @ lays (length a) ts) (rev (idxs (length a) ts) @ stk)) p"
proof (induction ts arbitrary: a stk)
  case (Cons t ts)
  have t: "kson_loop (kst a stk) (kson_format_recur t d @ rest) = kson_loop (kst (a @ lay (length a) t) (int (length a) # stk)) rest"
    if "hd rest = CHR '','' \<or> hd rest = LF" for rest
    using Cons.prems(1,3,4) that unfolding list.pred_inject child_reads_def by blast
  show ?case
  proof (cases ts)
    case Nil
    then show ?thesis using t [of "LF # kson_indent d' @ p"] by (simp add: loop_line)
  next
    case (Cons u us)
    let ?a = "a @ lay (length a) t" and ?sep = "CHR '','' # LF # kson_indent d"
    let ?q = "kson_join ?sep (map (\<lambda>f. f d) (map kson_format_recur ts)) @ LF # kson_indent d' @ p"
    have "kson_join ?sep (map (\<lambda>f. f d) (map kson_format_recur (t # ts))) @ LF # kson_indent d' @ p =
        kson_format_recur t d @ CHR '','' # LF # kson_indent d @ ?q"
      by (simp add: Cons)
    moreover have "kson_loop (kst a stk) (kson_format_recur t d @ CHR '','' # LF # kson_indent d @ ?q) =
        kson_loop (kst ?a (int (length a) # stk)) ?q"
      using t [of "CHR '','' # LF # kson_indent d @ ?q"] by (simp only: list.sel loop_comma loop_line simp_thms)
    moreover have "kson_loop (kst ?a (int (length a) # stk)) ?q =
        kson_loop (kst (?a @ lays (length ?a) ts) (rev (idxs (length ?a) ts) @ int (length a) # stk)) p"
      using Cons.prems(1) Cons by (intro Cons.IH) (simp_all add: no_key_int)
    ultimately show ?thesis by simp
  qed
qed simp

text \<open>The mark and the opening and closing character of a type.\<close>

definition mark_of :: "nat \<Rightarrow> int" where
  "mark_of ty = (if ty = KSON_TYPE_BRACKET then - 1 else - 2)"

definition close_char :: "nat \<Rightarrow> char" where
  "close_char ty = (if ty = KSON_TYPE_BRACKET then CHR '']'' else CHR ''}'')"

lemma loop_open:
  assumes "kson_key_ok key" "no_key stk"
  shows "\<exists>u. v_str (rn_v u) = Some key \<and>
    kson_loop (kst a stk) (kson_put_key key @ [if ty = KSON_TYPE_BRACKET then CHR ''['' else CHR ''{''] @ p) =
    kson_loop (kst (a @ [u]) (mark_of ty # int (length a) # stk)) p"
proof (cases key)
  case None
  have "kson_loop (kst a stk) ((if ty = KSON_TYPE_BRACKET then CHR ''['' else CHR ''{'') # p) =
      kson_loop (kst (a @ [zero_node]) (mark_of ty # int (length a) # stk)) p"
    by (rule loop_step) (simp_all add: isspace_def kson_step_def mark_of_def new_pending [OF assms(2)])
  then show ?thesis using None by (intro exI [of _ zero_node]) (simp add: kson_put_key_def v_str_def zero_node_def)
next
  case (Some k)
  let ?u = "leaf KSON_TYPE_DBL_QUOTE None k"
  have k: "kson_str_ok KSON_TYPE_DBL_QUOTE k" using assms(1) Some by (simp add: kson_key_ok_def)
  have "kson_loop (kst (a @ [?u]) (- 3 # int (length a) # stk)) ((if ty = KSON_TYPE_BRACKET then CHR ''['' else CHR ''{'') # p) =
      kson_loop (kst (a @ [?u]) (mark_of ty # int (length a) # stk)) p"
    by (rule loop_step) (simp_all add: isspace_def kson_step_def mark_of_def key_pending)
  then show ?thesis using loop_key [OF k assms(2)] Some by (intro exI [of _ ?u]) (simp add: v_str_def)
qed

lemma loop_body:
  assumes "kson_wf (KChild ty key ts)" "list_all child_reads ts" "no_key stk"
  shows "\<exists>u. v_str (rn_v u) = Some key \<and>
    kson_loop (kst a stk) (kson_format_recur (KChild ty key ts) d @ rest) =
    kson_loop (kst (a @ u # lays (length a + 1) ts) (rev (idxs (length a + 1) ts) @ mark_of ty # int (length a) # stk)) (close_char ty # rest)"
proof -
  have k: "kson_key_ok key" using assms(1) by simp
  let ?p = "(if ts \<noteq> [] then LF # kson_indent (d + 1) @
        kson_join (CHR '','' # LF # kson_indent (d + 1)) (map (\<lambda>f. f (d + 1)) (map kson_format_recur ts)) @ LF # kson_indent d
      else []) @ close_char ty # rest"
  obtain u where u: "v_str (rn_v u) = Some key"
      "kson_loop (kst a stk) (kson_put_key key @ [if ty = KSON_TYPE_BRACKET then CHR ''['' else CHR ''{''] @ ?p) =
       kson_loop (kst (a @ [u]) (mark_of ty # int (length a) # stk)) ?p"
    using loop_open [OF k assms(3)] by blast
  have "kson_loop (kst (a @ [u]) (mark_of ty # int (length a) # stk)) ?p =
      kson_loop (kst (a @ u # lays (length a + 1) ts) (rev (idxs (length a + 1) ts) @ mark_of ty # int (length a) # stk)) (close_char ty # rest)"
  proof (cases "ts = []")
    case False
    have nk: "no_key (mark_of ty # int (length a) # stk)" by (simp add: no_key_def mark_of_def)
    show ?thesis
      using False loop_children [OF assms(2) False _ nk, of "a @ [u]" "d + 1" d "close_char ty # rest"] by (simp add: loop_line)
  qed simp
  moreover have "kson_format_recur (KChild ty key ts) d @ rest =
      kson_put_key key @ [if ty = KSON_TYPE_BRACKET then CHR ''['' else CHR ''{''] @ ?p"
    by (simp add: close_char_def)
  ultimately show ?thesis using u by metis
qed

lemma close_step:
  assumes "ty = KSON_TYPE_BRACKET \<or> ty = KSON_TYPE_BRACE" "v_str (rn_v u) = Some key" "\<forall>c\<in>set cs. 0 \<le> c"
  shows "kson_step (kst (a @ u # r) (rev cs @ mark_of ty # int (length a) # stk)) (close_char ty) p =
    (let st = kst (a @ \<lparr> rn_type = ty, rn_key = key, rn_v = ChildV cs \<rparr> # r) (int (length a) # stk)
     in Some (st, if stk = [] then Inl (KSON_OK, close_char ty # p) else Inr p))"
proof -
  have n: "\<forall>c\<in>set (rev cs). c \<noteq> mark_of ty" using assms(3) by (auto simp: mark_of_def)
  then have "takeWhile (\<lambda>x. x \<noteq> mark_of ty) (rev cs @ mark_of ty # int (length a) # stk) = rev cs"
    "dropWhile (\<lambda>x. x \<noteq> mark_of ty) (rev cs @ mark_of ty # int (length a) # stk) = mark_of ty # int (length a) # stk"
    by (subst takeWhile_append2; use n in simp) (subst dropWhile_append2; use n in simp)
  then have "kson_close (mark_of ty) ty (kst (a @ u # r) (rev cs @ mark_of ty # int (length a) # stk)) =
      (let st = kst (a @ \<lparr> rn_type = ty, rn_key = key, rn_v = ChildV cs \<rparr> # r) (int (length a) # stk)
       in Some (if stk = [] then Inl (st, KSON_OK) else Inr st))"
    using assms(2) by (simp add: kson_close_def Let_def)
  then show ?thesis
    using assms(1) by (auto simp: kson_step_def close_char_def mark_of_def kson_types Let_def)
qed

lemma idxs_nonneg: "\<forall>c\<in>set (idxs b ts). 0 \<le> c"
  using idxs_ge by fastforce

lemma wf_child_reads: "kson_wf t \<Longrightarrow> child_reads t"
proof (induction t)
  case (KStr ty key s)
  show ?case
    unfolding child_reads_def
  proof (intro allI impI)
    fix a stk d and rest :: string assume r: "no_key stk" "hd rest = CHR '','' \<or> hd rest = LF"
    then show "kson_loop (kst a stk) (kson_format_recur (KStr ty key s) d @ rest) =
        kson_loop (kst (a @ lay (length a) (KStr ty key s)) (int (length a) # stk)) rest"
      using loop_leaf [OF KStr r(1), of rest] by simp
  qed
next
  case (KChild ty key ts)
  have ok: "list_all child_reads ts" using KChild by (auto simp: list_all_iff)
  show ?case
    unfolding child_reads_def
  proof (intro allI impI)
    fix a stk d and rest :: string assume r: "stk \<noteq> []" "no_key stk"
    obtain u where u: "v_str (rn_v u) = Some key"
        "kson_loop (kst a stk) (kson_format_recur (KChild ty key ts) d @ rest) =
         kson_loop (kst (a @ u # lays (length a + 1) ts) (rev (idxs (length a + 1) ts) @ mark_of ty # int (length a) # stk)) (close_char ty # rest)"
      using loop_body [OF KChild.prems ok r(2)] by blast
    have ty: "ty = KSON_TYPE_BRACKET \<or> ty = KSON_TYPE_BRACE" using KChild.prems by simp
    have "kson_step (kst (a @ u # lays (length a + 1) ts) (rev (idxs (length a + 1) ts) @ mark_of ty # int (length a) # stk)) (close_char ty) rest =
        Some (kst (a @ lay (length a) (KChild ty key ts)) (int (length a) # stk), Inr rest)"
      using close_step [OF ty u(1) idxs_nonneg] r(1) by (simp add: Let_def)
    moreover have "\<not> isspace (close_char ty)" by (simp add: close_char_def isspace_def)
    ultimately show "kson_loop (kst a stk) (kson_format_recur (KChild ty key ts) d @ rest) =
        kson_loop (kst (a @ lay (length a) (KChild ty key ts)) (int (length a) # stk)) rest"
      unfolding u(2) by (intro loop_step)
  qed
qed

lemma resolve_lay:
  "a = pre @ lay (length pre) t @ post \<Longrightarrow> kson_resolve a (length pre) = Some t"
  "a = pre @ lays (length pre) ts @ post \<Longrightarrow> those (map (\<lambda>c. kson_resolve a (nat c)) (idxs (length pre) ts)) = Some ts"
proof (induction "length pre" t and "length pre" ts arbitrary: pre post and pre post rule: lay_lays.induct)
  case (1 ty key s)
  then show ?case by (subst kson_resolve.simps) simp
next
  case (2 ty key ts)
  let ?u = "\<lparr> rn_type = ty, rn_key = key, rn_v = ChildV (idxs (length pre + 1) ts) \<rparr>"
  have a: "a = (pre @ [?u]) @ lays (length (pre @ [?u])) ts @ post" using "2.prems" by simp
  have "length pre + 1 = length (pre @ [?u])" by simp
  from "2.hyps" [OF this a] have c: "those (map (\<lambda>c. kson_resolve a (nat c)) (idxs (length pre + 1) ts)) = Some ts" by simp
  have "\<forall>c\<in>set (idxs (length pre + 1) ts). int (length pre) < c" using idxs_ge by fastforce
  moreover have "length pre < length a" "a ! length pre = ?u" using "2.prems" by (simp_all add: nth_append)
  ultimately show ?case using c by (subst kson_resolve.simps) simp
next
  case 3
  then show ?case by simp
next
  case (4 t ts)
  have a: "a = pre @ lay (length pre) t @ (lays (length pre + kn_size t) ts @ post)" using "4.prems" by simp
  have a': "a = (pre @ lay (length pre) t) @ lays (length (pre @ lay (length pre) t)) ts @ post" using "4.prems" by simp
  have "length pre + kn_size t = length (pre @ lay (length pre) t)" by simp
  from "4.hyps"(2) [OF this a'] "4.hyps"(1) [OF refl a] show ?case by simp
qed

lemma join_without: "c \<notin> set sep \<Longrightarrow> list_all (\<lambda>x. c \<notin> set x) xs \<Longrightarrow> c \<notin> set (kson_join sep xs)"
  by (induction sep xs rule: kson_join.induct) auto

lemma NUL_not_in_format: "kson_wf t \<Longrightarrow> NUL \<notin> set (kson_format_recur t d)"
proof (induction t arbitrary: d)
  case (KStr ty key s)
  then show ?case by (auto simp: kson_put_key_def kson_quote_def kson_key_ok_def kson_str_ok_def split: option.splits if_splits)
next
  case (KChild ty key ts)
  have i: "NUL \<notin> set (kson_indent n)" for n by (auto simp: kson_indent_def)
  have "NUL \<notin> set (kson_put_key key)" using KChild.prems by (auto simp: kson_put_key_def kson_key_ok_def kson_str_ok_def split: option.splits)
  moreover have "list_all (\<lambda>x. NUL \<notin> set x) (map (\<lambda>f. f (d + 1)) (map kson_format_recur ts))"
    using KChild by (auto simp: list_all_iff)
  then have "NUL \<notin> set (kson_join (CHR '','' # LF # kson_indent (d + 1)) (map (\<lambda>f. f (d + 1)) (map kson_format_recur ts)))"
    by (rule join_without [rotated]) (use i in simp)
  ultimately show ?case using i by simp
qed

text \<open>
  C31: What the printer writes the parser reads back. For every tree whose strings can be written with their quotes (no unescaped
  end of the string, no escape at its end, a string without quotes being a word), however deep, with keys anywhere,
  parsing the printed text returns the same tree, with no error and no access outside the text, the nodes or the stack.
\<close>

theorem kson_round_trip:
  assumes "kson_wf t"
  shows "kson_parse (kson_format t) = Some (Some t)"
proof -
  have c: "cstr (kson_format t) = kson_format t" using NUL_not_in_format [OF assms, of 0] by (simp add: kson_format_def)
  have "\<exists>q. kson_loop (kst [] []) (kson_format t) = Some (kst (lay 0 t) [0], KSON_OK, q)"
  proof (cases t)
    case (KStr ty key s)
    have "kson_loop (kst [] []) (kson_format_recur (KStr ty key s) 0 @ [LF]) = kson_loop (kst ([] @ [leaf ty key s]) (int (length ([] :: raw_node list)) # [])) [LF]"
      by (rule loop_leaf) (use assms KStr in \<open>simp_all add: no_key_def\<close>)
    moreover have "kson_loop (kst [leaf ty key s] [0]) [LF] = Some (kst [leaf ty key s] [0], KSON_OK, [])"
      by (subst kson_loop.simps) (simp add: isspace_def)
    ultimately show ?thesis using KStr by (simp add: kson_format_def)
  next
    case (KChild ty key ts)
    have ok: "list_all child_reads ts" using assms KChild wf_child_reads by (auto simp: list_all_iff)
    obtain u where u: "v_str (rn_v u) = Some key" "kson_loop (kst [] []) (kson_format t) =
        kson_loop (kst (u # lays 1 ts) (rev (idxs 1 ts) @ [mark_of ty, 0])) (close_char ty # [LF])"
      using loop_body [OF assms [unfolded KChild] ok, of "[]" "[]" 0 "[LF]"] by (auto simp: kson_format_def KChild no_key_def)
    have ty: "ty = KSON_TYPE_BRACKET \<or> ty = KSON_TYPE_BRACE" using assms KChild by simp
    have "kson_step (kst (u # lays 1 ts) (rev (idxs 1 ts) @ [mark_of ty, 0])) (close_char ty) [LF] =
        Some (kst (lay 0 t) [0], Inl (KSON_OK, close_char ty # [LF]))"
      using close_step [OF ty u(1) idxs_nonneg, where a = "[]" and stk = "[]"] KChild by (simp add: Let_def)
    moreover have "\<not> isspace (close_char ty)" by (simp add: close_char_def isspace_def)
    ultimately show ?thesis unfolding u(2) by (subst kson_loop.simps) simp
  qed
  then obtain q where "kson_loop (kst [] []) (kson_format t) = Some (kst (lay 0 t) [0], KSON_OK, q)" ..
  moreover have "kson_resolve (lay 0 t) 0 = Some t" using resolve_lay(1) [of "lay 0 t" "[]" t "[]"] by simp
  ultimately show ?thesis by (simp add: kson_parse_def kson_parse_core_def c)
qed

theorem kson_round_trip_witness:
  "kson_parse (kson_format (KChild 5 None [KStr 3 (Some ''a'') ''x y'', KChild 4 (Some ''b'') [KStr 1 None ''0'', KChild 4 None []]])) =
    Some (Some (KChild 5 None [KStr 3 (Some ''a'') ''x y'', KChild 4 (Some ''b'') [KStr 1 None ''0'', KChild 4 None []]]))"
  by (rule kson_round_trip)
    (simp add: kson_types kson_key_ok_def kson_str_ok_def isspace_def plain_end_def)

section \<open>Texts that lead outside\<close>

text \<open>
  An unterminated quote, a colon behind a bracket, a bracket or a pending key inside a closing brace, and a colon behind a closed
  inner object.
\<close>

lemma kson_parse_leaves_memory:
  "kson_parse [CHR 0x22, CHR ''a''] = None" "kson_parse ''[:5]'' = None" "kson_parse ''{[1}'' = None"
  "kson_parse ''{a:}'' = None" "kson_parse ''[[1]:2]'' = None"
  by code_simp+

text \<open>The length that is reported for an object does not include its last bracket.\<close>

lemma kson_parsed_length: "map_option (snd \<circ> snd) (kson_parse_core ''[1] '') = Some 2"
  by code_simp

section \<open>Queries\<close>

lemma kson_by_key_first:
  "kson_by_key (KChild ty k ts) key = Some q \<longleftrightarrow>
    (\<exists>i < length ts. ts ! i = q \<and> map_option cstr (kn_key q) = Some (cstr key) \<and>
      (\<forall>j < i. map_option cstr (kn_key (ts ! j)) \<noteq> Some (cstr key)))"
  by (auto simp: kson_by_key_def find_Some_iff split: option.splits)

end
