(* ===== verification/Spec2Isabelle.thy ===== *)
theory Spec2Isabelle
  imports Prelude Bits Framing KString Msgpack GhLog GitCore GitBranches GitRefs GitStatus GitConfig GitWorktrees GitLog GitTags
    GitDiff RunCapture Parallel Worker StatusRequest Server StrPool Files JsonOut Fuzzy Search Mru Yank Grep JsonIn VimInput
    BoyerMoore KText EndToEnd KHash KThread KPipeline KPool KPoolRuns KDq
    Arrays KSort KHeapsort KCombsort KSelect KIntrosort KHashl KHashEns KArena KSon
begin

text \<open>
  A model of the C programs of this repository and the theorems that hold of them.

  The repository extends the Emacs front end Magit by a server written in C (\<open>src/\<close>). It reads requests from
  standard input, collects the state of a git repository with libgit2 in a worker thread and writes
  one response for each request. The sources also hold an older server for an editor's fuzzy finder, which
  shares the directory and the style and is not built by default.

  The message server.

  \<^item> \<open>Framing\<close>, \<open>Server\<close> (\<open>src/magit_server.c\<close>): the parser of length-prefixed messages is a record of its static
  variables and \<open>consume_bytes\<close> its loop, with the writes into its buffers and a flag for a write outside of them. It is
  shown to refine a specification on the concatenated stream, however that is cut. \<open>sv_step\<close> is the event loop as a step relation
  (input, end of input, worker, cancelled work, callback, signal); the invariant accounts for every request.
  \<^item> \<open>Msgpack\<close> (\<open>src/msgpack_handler.c\<close>, \<open>src/codes.h\<close>): decoding of a request, the packing calls of a response, the
  header in front of it. The byte format of msgpack is a parameter (\<open>unpack\<close>, \<open>enc\<close>); a response is the
  list of packing calls, which \<open>read_map\<close> reads back.
  \<^item> \<open>KString\<close> (\<open>ext/klib/kstring.h\<close>, \<open>kstring.c\<close>, \<open>src/util.c\<close>): the growing string with its sizes as 64-bit words and its
  block as a memory; \<open>kputsn\<close> refines appending (\<open>kabs\<close>), which all later theories use (\<open>kcat\<close>, \<open>kdata\<close>).
  \<^item> \<open>GhLog\<close>: levels, configuration and lines of the log of \<open>src/git_handler.c\<close>.
  \<^item> \<open>GitCore\<close> to \<open>GitDiff\<close> (\<open>src/git_handler.c\<close>): the queries. A repository is the record \<open>git_repo\<close> of what libgit2 answers; a query is
  a program of the state monad \<open>'a gh\<close> that appends to its output, acquires and releases handles and logs. For each
  listing a reader is given and shown to recover the repository's entries from the text; the
  theorems also cover error codes, handles that are freed twice or never, and faults such as \<open>kputs(NULL)\<close>.
  \<^item> \<open>RunCapture\<close>: the capture of a child's output with its poll loop, which returns under stated conditions.
  \<^item> \<open>Parallel\<close>, \<open>Worker\<close>, \<open>StatusRequest\<close>: the 19 tasks with all interleavings of their threads (\<open>par_step\<close>), each of which is
  created and computes a function of its environment, without interference through libgit2; the worker, the condition for a response, its contents, and who frees what.
  \<^item> \<open>EndToEnd\<close> composes all of these: from the client's bytes, cut into any pieces, to one response per request that the client
  can read back.

  \<^item> \<open>BoyerMoore\<close>, \<open>KText\<close> (\<open>ext/klib/kstring.c\<close>): the rest of the string library. The search with its two tables is shown to
  find the first occurrence, with lengths as unbounded numbers and not as \<open>int\<close>; the tokenizer and the splitter to cut at the separators as \<open>split_at\<close> does, the line
  reader to append a line of any length.
  \<^item> \<open>KHash\<close> (\<open>ext/klib/khash.h\<close>): the hash table that the server includes, with its packed flags, triangular probing and
  in-place rehash; it is shown to implement a map for every hash function.

  The rest of klib comes with the repository and is used by neither server. Of it are modelled:

  \<^item> \<open>KThread\<close>, \<open>KPool\<close>, \<open>KPoolRuns\<close>, \<open>KPipeline\<close> (\<open>ext/klib/kthread.c\<close>): the parallel loop, the thread pool and the pipeline, as transition
  systems in which each access to shared memory is a step. Whatever the schedule they end, each index is processed once, and the
  pipeline computes what a loop computes; the lemmas on spurious wake-ups and on one step show where they do not.
  \<^item> \<open>KHashl\<close>, \<open>KHashEns\<close> (\<open>ext/klib/khashl.h\<close>): the hash table with linear probing, whose deletion moves later elements back, and the
  ensemble of such tables, shown to implement a map.
  \<^item> \<open>KArena\<close> (\<open>ext/klib/kbarena.c\<close>, \<open>kmempool.c\<close>): the arena and the memory pool never hand out overlapping memory.
  \<^item> \<open>KSon\<close> (\<open>ext/klib/kson.c\<close>): the JSON parser with its explicit stack reads back what the printer writes; texts that lead it outside of
  its memory are exhibited.
  \<^item> \<open>KDq\<close> (\<open>ext/klib/kdq.h\<close>): the ring buffer, shown to be a double-ended queue.
  \<^item> \<open>Arrays\<close>, \<open>KSort\<close>, \<open>KHeapsort\<close>, \<open>KCombsort\<close>, \<open>KSelect\<close>, \<open>KIntrosort\<close> (\<open>ext/klib/ksort.h\<close>): the sorts for every strict weak
  order. They return and sort, the merge sort and the insertion sort keep the order of equivalent elements, the
  selection returns the element of the requested rank. An access outside of the array is the result \<open>None\<close>; the stack of the
  introspective sort has the size of the code and is shown to suffice.

  The editor server.

  \<^item> \<open>StrPool\<close> (\<open>src/str_pool.c\<close>): the string pool keeps every string at its address. The other theories use the strings
  themselves.
  \<^item> \<open>Files\<close>, \<open>Search\<close> (\<open>src/search_helper.c\<close>, \<open>src/fuzzy.h\<close>): entries, loading of listings, the file cache, the request that is
  handed to the worker thread, the job flags.
  \<^item> \<open>JsonOut\<close>, \<open>JsonIn\<close> (\<open>src/json_msg_handler.c\<close>, \<open>src/timer.c\<close>): messages out and in. \<open>ed_step\<close> is the server with worker thread, timers
  and grep child as a step relation; at most one job runs at a time. A job and the callback behind it are one step, and a run ends at its
  first fault in memory, such as a text that is escaped out of its buffer.
  \<^item> \<open>Fuzzy\<close> (\<open>src/fuzzy.c\<close>): the matcher, which is shown to decide the subsequence relation as long as
  its counter of calls, shared by the suffixes of a word, stays below its limit, and the search.
  \<^item> \<open>Mru\<close>, \<open>Yank\<close>, \<open>Grep\<close> (\<open>src/mru.c\<close>, \<open>src/yank.c\<close>, \<open>src/grep.c\<close>): the recently used files, the copied texts and the search in
  files.
  \<^item> \<open>VimInput\<close> (\<open>src/vim9-fuzzy.c\<close>): the reader of standard input, the start and the signal handler.

  Conventions. A C string is a \<open>string\<close>, seen by library functions up to its first NUL byte (\<open>cstr\<close>). Machine integers whose
  width matters are words (\<open>u32\<close>, \<open>u64\<close>), the others \<open>int\<close> or \<open>nat\<close>. An access outside of an array is recorded by a flag or makes the
  result \<open>None\<close> or \<open>Inl\<close>. What the operating system, libgit2, libuv, msgpack and jsmn answer is an argument. \<open>qsort\<close> is
  an argument with the hypothesis \<open>qsort_ok\<close>: it permutes and sorts. Loops are structural recursions or have a measure;
  no definition needs fuel except \<open>decode_all\<close>, whose fuel is the length of its input, of which every record takes at least a
  byte, and the poll loop of \<open>RunCapture\<close>, which runs over the list of the answers of the system. Those of the search, of the
  tokenizer's caller, of the line reader, of the hash tables and of the sorts are partial functions, of which the theorems show that they return.

  Interfaces. \<open>Prelude\<close> holds the locales of a byte buffer, a sink that may be fed in pieces, a transition
  system with an invariant, one whose runs end (\<open>terminating_system\<close>) and a record format that can be parsed back; \<open>StrPool\<close> that of a
  string store, \<open>KDq\<close> that of a double-ended queue, \<open>Arrays\<close> that of a comparison, \<open>KHashl\<close> that of
  hash function and equality of elements. They are interpreted by the kstring, the parser, the two servers, the task
  threads, loops and pool, the listings, the string pool, the ring buffer
  the two comparisons of \<open>ksort.h\<close> and the set, map and cached buckets of \<open>khashl.h\<close>.

  Not modelled. The Emacs Lisp client; the sources of klib other than those named above, which the programs do not use, with
  the random sampling and the radix sort of \<open>ksort.h\<close>; the
  byte format of msgpack and the tokenizer jsmn, which are not in the repository; \<open>src/queue_work.c\<close> and its stub, which no file uses; the unit test.
\<close>

end
